(* ===== verification/Swamp_Prelude.thy ===== *)
theory Swamp_Prelude
  imports Complex_Main "HOL-Library.Multiset" "HOL-Library.Char_ord" "HOL-Library.List_Lexorder"
begin

text \<open>
  Shared vocabulary of the development: the model's base types, the parts of JavaScript's
  standard library that the source uses (JSON values and \<^verbatim>\<open>JSON.stringify\<close>,
  \<^verbatim>\<open>Array.prototype.find\<close>, \<^verbatim>\<open>sort\<close>, the \<^verbatim>\<open>Set\<close> idiom for
  removing duplicates) and the list lemmas the components share.

  Strings are the UTF-8 bytes of the source's strings, so \<open>length\<close> counts what
  \<^verbatim>\<open>TextEncoder\<close> counts. A JSON number is kept as the text JavaScript prints for it, which is
  one text per finite value. Instants are milliseconds since the epoch.
\<close>

named_theorems step_run_simps "what each operation on a step run does to each field"
named_theorems job_run_simps "what each operation on a job run does to each field"
named_theorems workflow_run_simps "what each operation on a workflow run does to each field"

type_synonym time = int

section \<open>JSON values and their text\<close>

datatype json =
    JNull
  | JBool bool
  | JNum string
  | JStr string
  | JArr "json list"
  | JObj "(string \<times> json) list"

definition hex_digit :: "nat \<Rightarrow> char" where
  "hex_digit n = (if n < 10 then char_of (48 + n) else char_of (87 + n))"

definition escape_char :: "char \<Rightarrow> string" where
  "escape_char c =
     (if c = CHR 0x22 then [CHR 0x5C, CHR 0x22]
      else if c = CHR 0x5C then [CHR 0x5C, CHR 0x5C]
      else if c = CHR 0x08 then [CHR 0x5C, CHR ''b'']
      else if c = CHR 0x0C then [CHR 0x5C, CHR ''f'']
      else if c = CHR 0x0A then [CHR 0x5C, CHR ''n'']
      else if c = CHR 0x0D then [CHR 0x5C, CHR ''r'']
      else if c = CHR 0x09 then [CHR 0x5C, CHR ''t'']
      else if of_char c < (32::nat) then
        [CHR 0x5C, CHR ''u'', CHR ''0'', CHR ''0'',
         hex_digit (of_char c div 16), hex_digit (of_char c mod 16)]
      else [c])"

definition json_quote :: "string \<Rightarrow> string" where
  "json_quote s = CHR 0x22 # concat (map escape_char s) @ [CHR 0x22]"

fun join_with :: "string \<Rightarrow> string list \<Rightarrow> string" where
  "join_with sep [] = []"
| "join_with sep [x] = x"
| "join_with sep (x # y # xs) = x @ sep @ join_with sep (y # xs)"

fun json_stringify :: "json \<Rightarrow> string" where
  "json_stringify JNull = ''null''"
| "json_stringify (JBool b) = (if b then ''true'' else ''false'')"
| "json_stringify (JNum t) = t"
| "json_stringify (JStr s) = json_quote s"
| "json_stringify (JArr xs) = ''['' @ join_with '','' (map json_stringify xs) @ '']''"
| "json_stringify (JObj kvs) =
     ''{'' @ join_with '','' (map (\<lambda>(k, v). json_quote k @ '':'' @ json_stringify v) kvs) @ ''}''"

text \<open>\<^verbatim>\<open>String(n)\<close> of an integer.\<close>

fun nat_text :: "nat \<Rightarrow> string" where
  "nat_text n = (if n < 10 then [char_of (48 + n)] else nat_text (n div 10) @ [char_of (48 + n mod 10)])"

declare nat_text.simps [simp del]

definition int_text :: "int \<Rightarrow> string" where
  "int_text i = (if i < 0 then ''-'' @ nat_text (nat (- i)) else nat_text (nat i))"

text \<open>
  \<^verbatim>\<open>String(v)\<close> of a JSON value, and its truth value in a condition.
\<close>

fun js_String :: "json \<Rightarrow> string" where
  "js_String JNull = ''null''"
| "js_String (JBool b) = (if b then ''true'' else ''false'')"
| "js_String (JNum t) = t"
| "js_String (JStr s) = s"
| "js_String (JArr xs) = join_with '','' (map (\<lambda>x. if x = JNull then [] else js_String x) xs)"
| "js_String (JObj kvs) = ''[object Object]''"

definition js_truthy :: "json \<Rightarrow> bool" where
  "js_truthy v \<longleftrightarrow> v \<noteq> JNull \<and> v \<noteq> JBool False \<and> v \<noteq> JNum ''0'' \<and> v \<noteq> JStr []"

definition is_object :: "json \<Rightarrow> bool" where
  "is_object v \<longleftrightarrow> (case v of JObj _ \<Rightarrow> True | _ \<Rightarrow> False)"

text \<open>
  The names every JavaScript object answers to through \<^verbatim>\<open>Object.prototype\<close>:
  \<^verbatim>\<open>k in obj\<close> holds for them although the object has no such key of its own.
\<close>

definition object_prototype_members :: "string list" where
  "object_prototype_members =
     [''constructor'', ''__defineGetter__'', ''__defineSetter__'', ''hasOwnProperty'',
      ''__lookupGetter__'', ''__lookupSetter__'', ''isPrototypeOf'', ''propertyIsEnumerable'',
      ''toString'', ''valueOf'', ''__proto__'', ''toLocaleString'']"

definition js_in :: "string \<Rightarrow> (string \<times> 'v) list \<Rightarrow> bool" where
  "js_in k obj \<longleftrightarrow> k \<in> fst ` set obj \<or> k \<in> set object_prototype_members"

text \<open>
  The escapes form a prefix code and never start with a quote, so a quoted string can be
  read back from in front of any text. This is what makes a key built with
  \<^verbatim>\<open>JSON.stringify\<close> from several names unambiguous.
\<close>

definition hex_value :: "char \<Rightarrow> nat" where
  "hex_value c = (let n = (of_char c :: nat) in if n < 58 then n - 48 else n - 87)"

definition unescape1 :: "string \<Rightarrow> (char \<times> string) option" where
  "unescape1 cs =
     (case cs of
        [] \<Rightarrow> None
      | c # ds \<Rightarrow>
          if c \<noteq> CHR 0x5C then Some (c, ds)
          else (case ds of
                  [] \<Rightarrow> None
                | d # r \<Rightarrow>
                    if d = CHR ''b'' then Some (CHR 0x08, r)
                    else if d = CHR ''f'' then Some (CHR 0x0C, r)
                    else if d = CHR ''n'' then Some (CHR 0x0A, r)
                    else if d = CHR ''r'' then Some (CHR 0x0D, r)
                    else if d = CHR ''t'' then Some (CHR 0x09, r)
                    else if d = CHR ''u'' then
                      Some (char_of (16 * hex_value (r ! 2) + hex_value (r ! 3)), drop 4 r)
                    else Some (d, r)))"

lemma hex_value_digit [simp]: "k < 16 \<Longrightarrow> hex_value (hex_digit k) = k"
  by (auto simp: hex_value_def hex_digit_def Let_def)

lemma unescape1_escape [simp]: "unescape1 (escape_char c @ r) = Some (c, r)"
proof -
  have "of_char c < (32::nat) \<Longrightarrow> of_char c div 16 < (16::nat)" by simp
  then show ?thesis
    by (auto simp: escape_char_def unescape1_def)
qed

lemma escape_char_prefix_code:
  "escape_char c @ r = escape_char d @ s \<Longrightarrow> c = d \<and> r = s"
  by (metis option.inject prod.inject unescape1_escape)

lemma hd_escape_char: "\<exists>a as. escape_char c = a # as \<and> a \<noteq> CHR 0x22"
  by (auto simp: escape_char_def)

lemma escape_char_not_quote [simp]: "escape_char c @ r \<noteq> CHR 0x22 # s"
  using hd_escape_char [of c] by auto

lemma quoted_body_inject:
  "concat (map escape_char s) @ CHR 0x22 # r = concat (map escape_char t) @ CHR 0x22 # r'
   \<Longrightarrow> s = t \<and> r = r'"
proof (induction s arbitrary: t)
  case Nil
  show ?case
  proof (cases t)
    case (Cons d t')
    with Nil have "escape_char d @ (concat (map escape_char t') @ CHR 0x22 # r') = CHR 0x22 # r"
      by simp
    then show ?thesis by simp
  qed (use Nil in simp)
next
  case (Cons c s)
  have "t \<noteq> []"
  proof
    assume "t = []"
    with Cons.prems have "escape_char c @ (concat (map escape_char s) @ CHR 0x22 # r) = CHR 0x22 # r'"
      by simp
    then show False by simp
  qed
  then obtain d t' where t: "t = d # t'" by (cases t) auto
  with Cons.prems have "escape_char c @ (concat (map escape_char s) @ CHR 0x22 # r) =
      escape_char d @ (concat (map escape_char t') @ CHR 0x22 # r')"
    by simp
  then have "c = d" and
    "concat (map escape_char s) @ CHR 0x22 # r = concat (map escape_char t') @ CHR 0x22 # r'"
    by (auto dest: escape_char_prefix_code)
  with Cons.IH t show ?case by auto
qed

lemma json_quote_inject [simp]: "json_quote s = json_quote t \<longleftrightarrow> s = t"
  using quoted_body_inject [of s "[]" t "[]"] by (auto simp: json_quote_def)

lemma json_quote_append_inject:
  "json_quote s @ r = json_quote t @ r' \<Longrightarrow> s = t \<and> r = r'"
  by (auto simp: json_quote_def dest: quoted_body_inject)

text \<open>The text of a JSON array of two strings determines both strings.\<close>

lemma json_stringify_pair_inject:
  "json_stringify (JArr [JStr a, JStr b]) = json_stringify (JArr [JStr c, JStr d])
   \<longleftrightarrow> a = c \<and> b = d"
  by (auto dest!: json_quote_append_inject)

section \<open>Array operations\<close>

text \<open>
  \<^verbatim>\<open>xs.find(p)\<close> is \<open>find p xs\<close>. An object reached through \<^verbatim>\<open>find\<close> and mutated is
  an update of the first matching element; a loop over an array that mutates its elements is
  \<open>map\<close>.
\<close>

fun update_first :: "('a \<Rightarrow> bool) \<Rightarrow> ('a \<Rightarrow> 'a) \<Rightarrow> 'a list \<Rightarrow> 'a list" where
  "update_first p f [] = []"
| "update_first p f (x # xs) = (if p x then f x # xs else x # update_first p f xs)"

lemma length_update_first [simp]: "length (update_first p f xs) = length xs"
  by (induction xs) auto

lemma update_first_map_eq:
  "(\<And>x. g (f x) = g x) \<Longrightarrow> map g (update_first p f xs) = map g xs"
  by (induction xs) auto

lemma set_update_first: "set (update_first p f xs) \<subseteq> set xs \<union> f ` {x \<in> set xs. p x}"
  by (induction xs) auto

lemma update_first_id: "find p xs = None \<Longrightarrow> update_first p f xs = xs"
  by (induction xs) (auto split: if_splits)

lemma find_update_first:
  assumes "\<And>x. p (f x) = p x"
  shows "find p (update_first p f xs) = map_option f (find p xs)"
  using assms by (induction xs) auto

lemma find_update_first_other:
  assumes "\<And>x. p x \<Longrightarrow> \<not> q x" and "\<And>x. p x \<Longrightarrow> \<not> q (f x)"
  shows "find q (update_first p f xs) = find q xs"
  using assms by (induction xs) auto

lemma image_map_filter:
  "(\<And>x. h (g x) = h x) \<Longrightarrow> h ` {y \<in> set (map g xs). P y} = h ` {x \<in> set xs. P (g x)}"
proof -
  assume h: "\<And>x. h (g x) = h x"
  have "{y \<in> set (map g xs). P y} = g ` {x \<in> set xs. P (g x)}" by auto
  then show ?thesis by (simp only: image_image h)
qed

lemma find_append_None: "find p xs = None \<Longrightarrow> find p (xs @ ys) = find p ys"
  by (induction xs) (auto split: if_splits)

lemma update_first_append_None: "find p xs = None \<Longrightarrow> update_first p f (xs @ ys) = xs @ update_first p f ys"
  by (induction xs) (auto split: if_splits)

lemma find_split:
  "find p xs = Some x \<Longrightarrow> \<exists>as bs. xs = as @ x # bs \<and> p x \<and> (\<forall>f. update_first p f xs = as @ f x # bs)"
proof (induction xs)
  case (Cons y ys)
  show ?case
  proof (cases "p y")
    case True
    with Cons.prems have "y # ys = [] @ x # ys \<and> p x \<and> (\<forall>f. update_first p f (y # ys) = [] @ f x # ys)" by simp
    then show ?thesis by blast
  next
    case False
    with Cons obtain as bs where ys: "ys = as @ x # bs" "p x" "\<And>f. update_first p f ys = as @ f x # bs" by auto
    have "update_first p f (y # ys) = (y # as) @ f x # bs" for f using False ys(3) by simp
    moreover have "y # ys = (y # as) @ x # bs" using ys(1) by simp
    ultimately show ?thesis using ys(2) by blast
  qed
qed simp

lemma list_all2_update_first:
  assumes "find p xs = Some x" and "Q x (f x)" and "\<And>y. Q y y"
  shows "list_all2 Q xs (update_first p f xs)"
  using assms by (induction xs) (auto simp: list_all2_refl split: if_splits)

lemma update_first_distinct:
  "distinct (map k xs) \<Longrightarrow>
   update_first (\<lambda>x. k x = a) f xs = map (\<lambda>x. if k x = a then f x else x) xs"
proof (induction xs)
  case (Cons x xs)
  then have "k x = a \<Longrightarrow> map (\<lambda>y. if k y = a then f y else y) xs = xs"
    by (intro map_idI) (auto simp: image_iff)
  with Cons show ?case by auto
qed simp

lemma find_Some_in_set: "find p xs = Some x \<Longrightarrow> x \<in> set xs \<and> p x"
  by (auto simp: find_Some_iff)

lemma find_distinct_key:
  "distinct (map k xs) \<Longrightarrow> x \<in> set xs \<Longrightarrow> find (\<lambda>y. k y = k x) xs = Some x"
  by (induction xs) auto

lemma card_image_list_iff: "card (f ` set xs) = length xs \<longleftrightarrow> distinct (map f xs)"
  by (metis card_distinct distinct_card length_map set_map)

text \<open>\<^verbatim>\<open>[...new Set(xs)]\<close>: the first occurrence of each value, in order.\<close>

definition nub :: "'a list \<Rightarrow> 'a list" where
  "nub xs = rev (remdups (rev xs))"

lemma set_nub [simp]: "set (nub xs) = set xs"
  by (simp add: nub_def)

lemma distinct_nub [simp]: "distinct (nub xs)"
  by (simp add: nub_def)

text \<open>\<^verbatim>\<open>s.split(c)\<close> for a one-character separator.\<close>

fun js_split :: "char \<Rightarrow> string \<Rightarrow> string list" where
  "js_split c [] = [[]]"
| "js_split c (x # xs) =
     (if x = c then [] # js_split c xs
      else case js_split c xs of [] \<Rightarrow> [[x]] | p # ps \<Rightarrow> (x # p) # ps)"

subsection \<open>Optional values\<close>

text \<open>A flag is written only when it is set, a list only when it is not empty. \<open>or_else\<close> is the
  operator \<^verbatim>\<open>??\<close>.\<close>

definition flag :: "bool \<Rightarrow> bool option" where
  "flag b = (if b then Some True else None)"

definition nonempty :: "'a list \<Rightarrow> 'a list option" where
  "nonempty xs = (if xs \<noteq> [] then Some xs else None)"

definition or_else :: "'a \<Rightarrow> 'a option \<Rightarrow> 'a" where
  "or_else d x = (case x of None \<Rightarrow> d | Some v \<Rightarrow> v)"

lemma or_else_simps [simp]:
  "or_else d None = d" "or_else d (Some v) = v" "or_else False (flag b) = b" "or_else [] (nonempty xs) = xs"
  by (simp_all add: or_else_def flag_def nonempty_def)

text \<open>An optional string as a condition.\<close>

definition truthy :: "string option \<Rightarrow> bool" where
  "truthy t \<longleftrightarrow> t \<noteq> None \<and> t \<noteq> Some []"

subsection \<open>Records with a stored form\<close>

text \<open>
  The contract of \<^verbatim>\<open>toData\<close> and \<^verbatim>\<open>fromData\<close>: a record the schema accepts is read
  back as it was. What it gives for a list of records is used by the record that holds the list.
\<close>

locale stored_record =
  fixes toData :: "'r \<Rightarrow> 'd"
    and fromData :: "'d \<Rightarrow> 'r option"
    and storable :: "'r \<Rightarrow> bool"
  assumes round_trip: "storable r \<Longrightarrow> fromData (toData r) = Some r"
begin

lemma list_round_trip: "list_all storable rs \<Longrightarrow> those (map fromData (map toData rs)) = Some rs"
  by (induction rs) (simp_all add: round_trip)

lemma toData_inject: "storable r \<Longrightarrow> storable r' \<Longrightarrow> toData r = toData r' \<longleftrightarrow> r = r'"
  by (metis option.inject round_trip)

end

subsection \<open>Sorting with a comparator\<close>

text \<open>
  \<^verbatim>\<open>Array.prototype.sort(cmp)\<close> is a stable sort: of two elements that compare equal, the
  earlier one stays first.
\<close>

fun js_insert :: "('a \<Rightarrow> 'a \<Rightarrow> int) \<Rightarrow> 'a \<Rightarrow> 'a list \<Rightarrow> 'a list" where
  "js_insert cmp x [] = [x]"
| "js_insert cmp x (y # ys) = (if cmp x y \<le> 0 then x # y # ys else y # js_insert cmp x ys)"

fun js_sort :: "('a \<Rightarrow> 'a \<Rightarrow> int) \<Rightarrow> 'a list \<Rightarrow> 'a list" where
  "js_sort cmp [] = []"
| "js_sort cmp (x # xs) = js_insert cmp x (js_sort cmp xs)"

lemma mset_js_insert [simp]: "mset (js_insert cmp x xs) = add_mset x (mset xs)"
  by (induction xs) auto

lemma mset_js_sort [simp]: "mset (js_sort cmp xs) = mset xs"
  by (induction xs) auto

lemma set_js_sort [simp]: "set (js_sort cmp xs) = set xs"
  by (metis mset_js_sort set_mset_mset)

lemma length_js_sort [simp]: "length (js_sort cmp xs) = length xs"
  by (metis mset_js_sort size_mset)

lemma distinct_js_sort [simp]: "distinct (js_sort cmp xs) = distinct xs"
  by (metis mset_eq_imp_distinct_iff mset_js_sort)

text \<open>
  What a sort relies on from its comparator: it orders its arguments totally and consistently.
\<close>

locale js_comparator =
  fixes cmp :: "'a \<Rightarrow> 'a \<Rightarrow> int"
  assumes cmp_flip: "cmp x y \<le> 0 \<or> cmp y x \<le> 0"
    and cmp_trans: "cmp x y \<le> 0 \<Longrightarrow> cmp y z \<le> 0 \<Longrightarrow> cmp x z \<le> 0"
begin

lemma set_js_insert: "set (js_insert cmp x xs) = insert x (set xs)"
  by (induction xs) auto

lemma sorted_js_insert:
  "sorted_wrt (\<lambda>a b. cmp a b \<le> 0) xs \<Longrightarrow> sorted_wrt (\<lambda>a b. cmp a b \<le> 0) (js_insert cmp x xs)"
proof (induction xs)
  case (Cons y ys)
  show ?case
  proof (cases "cmp x y \<le> 0")
    case True
    with Cons.prems show ?thesis by (auto intro: cmp_trans)
  next
    case False
    then have "cmp y x \<le> 0" using cmp_flip by blast
    with Cons False show ?thesis by (auto simp: set_js_insert)
  qed
qed simp

lemma sorted_js_sort: "sorted_wrt (\<lambda>a b. cmp a b \<le> 0) (js_sort cmp xs)"
  by (induction xs) (simp_all add: sorted_js_insert)

end

text \<open>
  \<^verbatim>\<open>byCodeUnit\<close> of \<^verbatim>\<open>src/src/domain/remote/scheduler.ts\<close> and
  \<^verbatim>\<open>rollout.ts\<close>: strings compared with \<^verbatim>\<open><\<close>, and the same order the default
  \<^verbatim>\<open>sort()\<close> of strings uses.
\<close>

definition byCodeUnit :: "string \<Rightarrow> string \<Rightarrow> int" where
  "byCodeUnit a b = (if a < b then -1 else if b < a then 1 else 0)"

lemma byCodeUnit_le_iff [simp]: "byCodeUnit a b \<le> 0 \<longleftrightarrow> a \<le> b"
  by (auto simp: byCodeUnit_def)

interpretation code_unit: js_comparator byCodeUnit
  by unfold_locales (auto simp: byCodeUnit_le_iff)

section \<open>Recursion with fuel\<close>

lemma fuel_irrelevant:
  fixes F :: "nat \<Rightarrow> 'a \<Rightarrow> bool" and rank :: "'a \<Rightarrow> nat"
  assumes step: "\<And>m n x. x \<in> A \<Longrightarrow> (\<And>y. y \<in> A \<Longrightarrow> rank y < rank x \<Longrightarrow> F m y = F n y) \<Longrightarrow> F (Suc m) x = F (Suc n) x"
  shows "x \<in> A \<Longrightarrow> rank x < m \<Longrightarrow> rank x < n \<Longrightarrow> F m x = F n x"
proof (induction "rank x" arbitrary: x m n rule: less_induct)
  case less
  from less.prems obtain m' n' where mn: "m = Suc m'" "n = Suc n'"
    by (cases m; cases n) auto
  have "F m' y = F n' y" if "y \<in> A" "rank y < rank x" for y
    by (rule less.hyps [OF that(2,1)]) (use that(2) less.prems(2,3) mn in simp_all)
  then show ?case unfolding mn by (rule step [OF less.prems(1)])
qed

lemma length_le_concat: "[] \<notin> set xss \<Longrightarrow> length xss \<le> length (concat xss)"
proof (induction xss)
  case (Cons xs xss)
  then have "1 \<le> length xs" by (cases xs) auto
  moreover have "length xss \<le> length (concat xss)" using Cons by simp
  ultimately show ?case unfolding concat.simps length_append list.size by linarith
qed simp

end
