(* ===== verification/Trigger_Condition.thy ===== *)
theory Trigger_Condition
  imports Swamp_Prelude
begin

text \<open>
  \<^verbatim>\<open>src/src/domain/workflows/trigger_condition.ts\<close>: the statuses of jobs and steps and
  the conditions a job or step puts on the status of another before it runs.
\<close>

section \<open>Statuses\<close>

datatype run_status =
    Pending | Running | Waiting_approval | Waiting | Waiting_signal
  | Succeeded | Failed | Skipped | Unknown

definition isUnfinishedStatus :: "run_status \<Rightarrow> bool" where
  "isUnfinishedStatus s \<longleftrightarrow>
     s = Pending \<or> s = Running \<or> s = Waiting_approval \<or> s = Waiting \<or> s = Waiting_signal"

definition finished_statuses :: "run_status set" where
  "finished_statuses = {Succeeded, Failed, Skipped, Unknown}"

lemma finished_iff: "s \<in> finished_statuses \<longleftrightarrow> \<not> isUnfinishedStatus s"
  by (cases s) (auto simp: finished_statuses_def isUnfinishedStatus_def)

lemma isUnfinishedStatus_simps [simp]:
  "isUnfinishedStatus Pending" "isUnfinishedStatus Running"
  "isUnfinishedStatus Waiting_approval" "isUnfinishedStatus Waiting"
  "isUnfinishedStatus Waiting_signal" "\<not> isUnfinishedStatus Succeeded"
  "\<not> isUnfinishedStatus Failed" "\<not> isUnfinishedStatus Skipped" "\<not> isUnfinishedStatus Unknown"
  by (simp_all add: isUnfinishedStatus_def)

section \<open>Conditions\<close>

datatype trigger_condition =
    C_always | C_succeeded | C_failed | C_completed | C_skipped
  | C_and "trigger_condition list" | C_or "trigger_condition list" | C_not trigger_condition

text \<open>What \<^verbatim>\<open>TriggerConditionSchema.parse\<close> accepts: \<open>and\<close> and \<open>or\<close> have at least two parts.\<close>

fun validTriggerCondition :: "trigger_condition \<Rightarrow> bool" where
  "validTriggerCondition (C_and cs) \<longleftrightarrow> 2 \<le> length cs \<and> list_all validTriggerCondition cs"
| "validTriggerCondition (C_or cs) \<longleftrightarrow> 2 \<le> length cs \<and> list_all validTriggerCondition cs"
| "validTriggerCondition (C_not c) \<longleftrightarrow> validTriggerCondition c"
| "validTriggerCondition _ \<longleftrightarrow> True"

text \<open>
  A \<^verbatim>\<open>TriggerEvaluationContext\<close> is its one method, \<open>getStatus\<close>; both \<^verbatim>\<open>JobRun\<close>
  and \<^verbatim>\<open>WorkflowRun\<close> provide it.
\<close>

type_synonym trigger_context = "string \<Rightarrow> run_status option"

fun evaluateData :: "trigger_condition \<Rightarrow> trigger_context \<Rightarrow> string \<Rightarrow> bool" where
  "evaluateData C_always getStatus ref \<longleftrightarrow> True"
| "evaluateData C_succeeded getStatus ref \<longleftrightarrow> getStatus ref = Some Succeeded"
| "evaluateData C_failed getStatus ref \<longleftrightarrow> getStatus ref = Some Failed"
| "evaluateData C_completed getStatus ref \<longleftrightarrow>
     getStatus ref = Some Succeeded \<or> getStatus ref = Some Failed"
| "evaluateData C_skipped getStatus ref \<longleftrightarrow> getStatus ref = Some Skipped"
| "evaluateData (C_and cs) getStatus ref \<longleftrightarrow> list_all (\<lambda>c. evaluateData c getStatus ref) cs"
| "evaluateData (C_or cs) getStatus ref \<longleftrightarrow> list_ex (\<lambda>c. evaluateData c getStatus ref) cs"
| "evaluateData (C_not c) getStatus ref \<longleftrightarrow> \<not> evaluateData c getStatus ref"

definition evaluate :: "trigger_condition \<Rightarrow> trigger_context \<Rightarrow> string \<Rightarrow> bool" where
  "evaluate c getStatus ref = evaluateData c getStatus ref"

text \<open>
  Conditions that wait for an outcome: built from \<open>succeeded\<close>, \<open>failed\<close>, \<open>completed\<close> and
  \<open>skipped\<close> with \<open>and\<close> and \<open>or\<close>. Only \<open>always\<close> and \<open>not\<close> can hold earlier.
\<close>

fun waits_for_outcome :: "trigger_condition \<Rightarrow> bool" where
  "waits_for_outcome C_always \<longleftrightarrow> False"
| "waits_for_outcome (C_not c) \<longleftrightarrow> False"
| "waits_for_outcome (C_and cs) \<longleftrightarrow> cs \<noteq> [] \<and> list_ex waits_for_outcome cs"
| "waits_for_outcome (C_or cs) \<longleftrightarrow> list_all waits_for_outcome cs"
| "waits_for_outcome _ \<longleftrightarrow> True"

lemma evaluateData_cong:
  "getStatus ref = getStatus' ref \<Longrightarrow> evaluateData c getStatus ref = evaluateData c getStatus' ref"
proof (induction c)
  case (C_and cs)
  then show ?case by (auto simp: list_all_iff)
next
  case (C_or cs)
  then show ?case by (auto simp: list_ex_iff)
qed auto

lemma evaluate_cong: "f ref = g ref \<Longrightarrow> evaluate c f ref = evaluate c g ref"
  unfolding evaluate_def by (rule evaluateData_cong)

lemma waits_for_outcome_evaluate:
  "waits_for_outcome c \<Longrightarrow> evaluateData c getStatus ref \<Longrightarrow>
   \<exists>s. getStatus ref = Some s \<and> s \<in> {Succeeded, Failed, Skipped}"
proof (induction c)
  case (C_and cs)
  then show ?case by (auto simp: list_all_iff list_ex_iff)
next
  case (C_or cs)
  then show ?case by (fastforce simp: list_all_iff list_ex_iff)
qed auto

lemma evaluate_de_morgan:
  "evaluate (C_not (C_and cs)) g r = evaluate (C_or (map C_not cs)) g r"
  "evaluate (C_not (C_or cs)) g r = evaluate (C_and (map C_not cs)) g r"
  by (auto simp: evaluate_def list_all_iff list_ex_iff)

end
