(* ===== verification/Input_Validation.thy ===== *)
theory Input_Validation
  imports Swamp_Prelude
begin

text \<open>
  \<^verbatim>\<open>src/src/domain/inputs/input_validation_service.ts\<close> with the schema type of
  \<^verbatim>\<open>src/src/domain/definitions/definition.ts\<close>: the validator of workflow inputs and of
  signal payloads. Objects are lists of their own entries in enumeration order. A value that is
  \<^verbatim>\<open>undefined\<close> does not occur in JSON data, so it is not a value of the model.

  \<open>stop\<close> is \<^verbatim>\<open>stopsAtFirstFailingArgument()\<close>, serve's policy for untrusted arguments.
\<close>

section \<open>Schemas\<close>

datatype json_schema = JsonSchema
  (js_type: "string option")
  (js_default: "json option")
  (js_enum: "json list option")
  (js_items: "json_schema option")
  (js_properties: "(string \<times> json_schema) list option")
  (js_required: "string list option")
  (js_additionalProperties: "(bool + json_schema) option")
  (js_minItems: "int option")
  (js_maxItems: "int option")
  (js_uniqueItems: "bool option")

definition any_schema :: json_schema where
  "any_schema = JsonSchema None None None None None None None None None None"

text \<open>
  An inputs schema lists its properties under \<^verbatim>\<open>properties\<close> or, in the flat form, as its
  own entries, which \<open>is_flat\<close> holds.
\<close>

record inputs_schema =
  is_properties :: "(string \<times> json_schema) list option"
  is_required :: "string list option"
  is_additionalProperties :: "(bool + json_schema) option"
  is_flat :: "(string \<times> json_schema) list"

definition schema_properties :: "inputs_schema \<Rightarrow> (string \<times> json_schema) list" where
  "schema_properties s = (case is_properties s of None \<Rightarrow> is_flat s | Some ps \<Rightarrow> ps)"

record validation_error =
  ve_path :: string
  ve_message :: string

type_synonym json_object = "(string \<times> json) list"

section \<open>The validator\<close>

text \<open>A loop over entries that collects errors and, under \<open>stop\<close>, ends after a failing entry.\<close>

fun walk :: "bool \<Rightarrow> ('a \<Rightarrow> 'e list) \<Rightarrow> 'e list \<Rightarrow> 'a list \<Rightarrow> 'e list" where
  "walk stop f errors [] = errors"
| "walk stop f errors (x # xs) =
     (let errors' = errors @ f x in
      if errors' \<noteq> [] \<and> stop then errors' else walk stop f errors' xs)"

lemma walk_cong [fundef_cong]:
  "xs = ys \<Longrightarrow> errors = errors' \<Longrightarrow> (\<And>x. x \<in> set ys \<Longrightarrow> f x = g x) \<Longrightarrow>
   walk stop f errors xs = walk stop g errors' ys"
  by (induction ys arbitrary: xs errors errors') (auto simp: Let_def)

lemma walk_Nil_iff: "walk stop f errors xs = [] \<longleftrightarrow> errors = [] \<and> (\<forall>x \<in> set xs. f x = [])"
  by (induction xs arbitrary: errors) (auto simp: Let_def)

definition getValueType :: "json \<Rightarrow> string" where
  "getValueType v =
     (case v of JNull \<Rightarrow> ''null'' | JArr _ \<Rightarrow> ''array'' | JBool _ \<Rightarrow> ''boolean''
      | JNum _ \<Rightarrow> ''number'' | JStr _ \<Rightarrow> ''string'' | JObj _ \<Rightarrow> ''object'')"

text \<open>
  \<^verbatim>\<open>Number.isInteger\<close> read off the number's text: JavaScript prints an integer below
  $10^{21}$ with digits only and a larger one with a positive exponent.
\<close>

definition number_is_integer :: "string \<Rightarrow> bool" where
  "number_is_integer t \<longleftrightarrow>
     (if CHR ''e'' \<in> set t then CHR ''+'' \<in> set t else CHR ''.'' \<notin> set t)"

definition validateType :: "string \<Rightarrow> json \<Rightarrow> string \<Rightarrow> validation_error option" where
  "validateType path v expected =
     (if expected = ''integer'' then
        (case v of
           JNum t \<Rightarrow> if number_is_integer t then None
                    else Some \<lparr>ve_path = path, ve_message = path @ '' must be an integer''\<rparr>
         | _ \<Rightarrow> Some \<lparr>ve_path = path, ve_message = path @ '' must be an integer''\<rparr>)
      else if getValueType v \<noteq> expected then
        Some \<lparr>ve_path = path, ve_message = path @ '' must be a '' @ expected\<rparr>
      else None)"

text \<open>\<^verbatim>\<open>enum.includes(v)\<close>: an array or object is never the same value as one of the schema's.\<close>

definition enum_includes :: "json list \<Rightarrow> json \<Rightarrow> bool" where
  "enum_includes es v \<longleftrightarrow> (case v of JArr _ \<Rightarrow> False | JObj _ \<Rightarrow> False | _ \<Rightarrow> v \<in> set es)"

definition plural_items :: "int \<Rightarrow> string" where
  "plural_items n = int_text n @ '' item'' @ (if n = 1 then [] else ''s'')"

definition item_path :: "string \<Rightarrow> nat \<Rightarrow> string" where
  "item_path path i = path @ ''['' @ nat_text i @ '']''"

definition child_path :: "string \<Rightarrow> string \<Rightarrow> string" where
  "child_path path key = path @ ''.'' @ key"

definition enum_errors :: "string \<Rightarrow> json \<Rightarrow> json_schema \<Rightarrow> validation_error list" where
  "enum_errors path v s =
     (case js_enum s of
        Some es \<Rightarrow>
          if es \<noteq> [] \<and> \<not> enum_includes es v then
            [\<lparr>ve_path = path, ve_message = path @ '' must be one of: '' @
                join_with '', '' (map (\<lambda>e. case e of JStr t \<Rightarrow> [CHR 0x22] @ t @ [CHR 0x22]
                                              | _ \<Rightarrow> js_String e) es)\<rparr>]
          else []
      | None \<Rightarrow> [])"

definition array_bounds_errors :: "string \<Rightarrow> json list \<Rightarrow> json_schema \<Rightarrow> validation_error list" where
  "array_bounds_errors path vs s =
     (case js_minItems s of
        Some n \<Rightarrow> if int (length vs) < n
                  then [\<lparr>ve_path = path, ve_message = path @ '' must have at least '' @ plural_items n\<rparr>] else []
      | None \<Rightarrow> []) @
     (case js_maxItems s of
        Some n \<Rightarrow> if int (length vs) > n
                  then [\<lparr>ve_path = path, ve_message = path @ '' must have at most '' @ plural_items n\<rparr>] else []
      | None \<Rightarrow> []) @
     (if js_uniqueItems s = Some True \<and>
         card (set (map json_stringify vs)) \<noteq> length vs
      then [\<lparr>ve_path = path, ve_message = path @ '' must have unique items''\<rparr>] else [])"

definition required_errors :: "string \<Rightarrow> json_object \<Rightarrow> json_schema \<Rightarrow> validation_error list" where
  "required_errors path kvs s =
     (case js_required s of
        None \<Rightarrow> []
      | Some ks \<Rightarrow> map (\<lambda>k. \<lparr>ve_path = child_path path k,
                            ve_message = child_path path k @ '' is required''\<rparr>)
                  (filter (\<lambda>k. k \<notin> fst ` set kvs) ks))"

lemma size_js_items: "js_items s = Some t \<Longrightarrow> size t < size s"
  by (cases s) auto

lemma size_js_property:
  "js_properties s = Some ps \<Longrightarrow> map_of ps k = Some t \<Longrightarrow> size t < size s"
proof (cases s)
  case (JsonSchema ty df en it pr rq ad mn mx un)
  assume "js_properties s = Some ps" "map_of ps k = Some t"
  then have "(k, t) \<in> set ps" "pr = Some ps" using JsonSchema by (auto dest: map_of_SomeD)
  then have "size t < Suc (size_list (size_prod (\<lambda>_. 0) size) ps)"
    by (auto dest!: split_list)
  then show ?thesis using \<open>pr = Some ps\<close> JsonSchema by simp
qed

lemma size_js_additional: "js_additionalProperties s = Some (Inr t) \<Longrightarrow> size t < size s"
  by (cases s) auto

function validateProperty ::
  "bool \<Rightarrow> string \<Rightarrow> json \<Rightarrow> json_schema \<Rightarrow> validation_error list" where
  "validateProperty stop path v s =
     (if v = JNull then
        (if js_default s = None
         then [\<lparr>ve_path = path, ve_message = path @ '' cannot be null or undefined''\<rparr>] else [])
      else case (case js_type s of None \<Rightarrow> None | Some ty \<Rightarrow> validateType path v ty) of
        Some e \<Rightarrow> [e]
      | None \<Rightarrow>
          enum_errors path v s @
          (case v of
             JArr vs \<Rightarrow>
               if js_type s = Some ''array'' then
                 (case js_items s of
                    None \<Rightarrow> array_bounds_errors path vs s
                  | Some item \<Rightarrow>
                      walk stop (\<lambda>(i, x). validateProperty stop (item_path path i) x item)
                        (array_bounds_errors path vs s) (enumerate 0 vs))
               else []
           | JObj kvs \<Rightarrow>
               if js_type s = Some ''object'' then
                 (case js_properties s of
                    Some ps \<Rightarrow>
                      walk stop (\<lambda>(k, x).
                          case map_of ps k of
                            Some t \<Rightarrow> validateProperty stop (child_path path k) x t
                          | None \<Rightarrow>
                              (case js_additionalProperties s of
                                 Some (Inl False) \<Rightarrow>
                                   [\<lparr>ve_path = child_path path k,
                                     ve_message = child_path path k @ '' is not a valid property''\<rparr>]
                               | Some (Inr t) \<Rightarrow> validateProperty stop (child_path path k) x t
                               | _ \<Rightarrow> []))
                        (required_errors path kvs s) kvs
                  | None \<Rightarrow>
                      (case js_additionalProperties s of
                         Some (Inr t) \<Rightarrow>
                           walk stop (\<lambda>(k, x). validateProperty stop (child_path path k) x t)
                             (required_errors path kvs s) kvs
                       | _ \<Rightarrow> required_errors path kvs s))
               else []
           | _ \<Rightarrow> []))"
  by pat_completeness auto
termination
  by (relation "measure (\<lambda>(stop, path, v, s). size s)")
    (auto intro: size_js_items size_js_property size_js_additional)

declare validateProperty.simps [simp del]

definition validateEntries :: "bool \<Rightarrow> json_object \<Rightarrow> inputs_schema \<Rightarrow> validation_error list" where
  "validateEntries stop inputs s =
     walk stop (\<lambda>(k, v).
         case map_of (schema_properties s) k of
           Some t \<Rightarrow> validateProperty stop k v t
         | None \<Rightarrow>
             if is_additionalProperties s = Some (Inl False)
             then [\<lparr>ve_path = k, ve_message = k @ '' is not a valid input property''\<rparr>] else [])
       [] inputs"

record validation_result =
  vr_valid :: bool
  vr_errors :: "validation_error list"

definition result_of :: "validation_error list \<Rightarrow> validation_result" where
  "result_of errors = \<lparr>vr_valid = (errors = []), vr_errors = errors\<rparr>"

definition validate :: "bool \<Rightarrow> json_object \<Rightarrow> inputs_schema \<Rightarrow> validation_result" where
  "validate stop inputs s =
     result_of
       (map (\<lambda>k. \<lparr>ve_path = k, ve_message = k @ '' is required''\<rparr>)
          (filter (\<lambda>k. \<not> js_in k inputs) (case is_required s of None \<Rightarrow> [] | Some ks \<Rightarrow> ks)) @
        validateEntries stop inputs s)"

definition validateProvided :: "bool \<Rightarrow> json_object \<Rightarrow> inputs_schema \<Rightarrow> validation_result" where
  "validateProvided stop inputs s = result_of (validateEntries stop inputs s)"

definition getMissingRequiredInputs :: "json_object \<Rightarrow> inputs_schema \<Rightarrow> string list" where
  "getMissingRequiredInputs inputs s =
     filter (\<lambda>k. \<not> js_in k inputs \<and>
               \<not> (case map_of (schema_properties s) k of
                    None \<Rightarrow> False
                  | Some t \<Rightarrow> (case js_default t of None \<Rightarrow> False | Some d \<Rightarrow> js_truthy d)))
       (case is_required s of None \<Rightarrow> [] | Some ks \<Rightarrow> ks)"

definition add_default :: "string \<times> json_schema \<Rightarrow> json_object \<Rightarrow> json_object" where
  "add_default kt result =
     (case js_default (snd kt) of
        Some d \<Rightarrow> if js_in (fst kt) result then result else result @ [(fst kt, d)]
      | None \<Rightarrow> result)"

definition applyDefaults :: "json_object \<Rightarrow> inputs_schema \<Rightarrow> json_object" where
  "applyDefaults inputs s = fold add_default (schema_properties s) inputs"

section \<open>What the validator accepts\<close>

text \<open>
  The declarative reading of a schema: what it means for a value to conform, with no paths, no
  messages and no order of checks.
\<close>

definition type_matches :: "json_schema \<Rightarrow> json \<Rightarrow> bool" where
  "type_matches s v \<longleftrightarrow>
     (case js_type s of
        None \<Rightarrow> True
      | Some ty \<Rightarrow> if ty = ''integer'' then (\<exists>t. v = JNum t \<and> number_is_integer t)
                   else getValueType v = ty)"

definition enum_allows :: "json_schema \<Rightarrow> json \<Rightarrow> bool" where
  "enum_allows s v \<longleftrightarrow>
     (\<forall>es. js_enum s = Some es \<longrightarrow> es = [] \<or> enum_includes es v)"

definition array_fits :: "json_schema \<Rightarrow> json list \<Rightarrow> bool" where
  "array_fits s vs \<longleftrightarrow>
     (\<forall>n. js_minItems s = Some n \<longrightarrow> n \<le> int (length vs)) \<and>
     (\<forall>n. js_maxItems s = Some n \<longrightarrow> int (length vs) \<le> n) \<and>
     (js_uniqueItems s = Some True \<longrightarrow> distinct (map json_stringify vs))"

definition required_present :: "json_schema \<Rightarrow> json_object \<Rightarrow> bool" where
  "required_present s kvs \<longleftrightarrow> (\<forall>ks. js_required s = Some ks \<longrightarrow> set ks \<subseteq> fst ` set kvs)"

text \<open>The schema a key's value has to conform to: \<open>Inl b\<close> says only whether the key may be there.\<close>

definition key_schema :: "json_schema \<Rightarrow> string \<Rightarrow> bool + json_schema" where
  "key_schema s k =
     (case js_properties s of
        Some ps \<Rightarrow>
          (case map_of ps k of
             Some t \<Rightarrow> Inr t
           | None \<Rightarrow> (case js_additionalProperties s of None \<Rightarrow> Inl True | Some a \<Rightarrow> a))
      | None \<Rightarrow>
          (case js_additionalProperties s of Some (Inr t) \<Rightarrow> Inr t | _ \<Rightarrow> Inl True))"

lemma size_key_schema: "key_schema s k = Inr t \<Longrightarrow> size t < size s"
  by (auto simp: key_schema_def split: option.splits sum.splits
      intro: size_js_property size_js_additional)

function conforms :: "json_schema \<Rightarrow> json \<Rightarrow> bool" where
  "conforms s v \<longleftrightarrow>
     (if v = JNull then js_default s \<noteq> None
      else type_matches s v \<and> enum_allows s v \<and>
        (case v of
           JArr vs \<Rightarrow> js_type s = Some ''array'' \<longrightarrow>
             array_fits s vs \<and> (\<forall>x \<in> set vs. case js_items s of None \<Rightarrow> True | Some t \<Rightarrow> conforms t x)
         | JObj kvs \<Rightarrow> js_type s = Some ''object'' \<longrightarrow>
             required_present s kvs \<and>
             (\<forall>kx \<in> set kvs. case key_schema s (fst kx) of Inl b \<Rightarrow> b | Inr t \<Rightarrow> conforms t (snd kx))
         | _ \<Rightarrow> True))"
  by pat_completeness auto
termination
  by (relation "measure (\<lambda>(s, v). size s)") (auto intro: size_js_items size_key_schema)

declare conforms.simps [simp del]

lemma validateType_None_iff:
  "(case js_type s of None \<Rightarrow> None | Some ty \<Rightarrow> validateType path v ty) = None \<longleftrightarrow> type_matches s v"
  by (auto simp: validateType_def type_matches_def split: option.splits json.splits)

lemma enum_errors_Nil_iff: "enum_errors path v s = [] \<longleftrightarrow> enum_allows s v"
  by (auto simp: enum_errors_def enum_allows_def split: option.splits)

lemma array_bounds_errors_Nil_iff: "array_bounds_errors path vs s = [] \<longleftrightarrow> array_fits s vs"
  by (auto simp: array_bounds_errors_def array_fits_def card_image_list_iff split: option.splits)

lemma required_errors_Nil_iff: "required_errors path kvs s = [] \<longleftrightarrow> required_present s kvs"
  by (auto simp: required_errors_def required_present_def filter_empty_conv split: option.splits)

text \<open>The errors for one entry of an object, as both object walks of the source collect them.\<close>

definition entry_errors :: "bool \<Rightarrow> string \<Rightarrow> json_schema \<Rightarrow> string \<times> json \<Rightarrow> validation_error list" where
  "entry_errors stop path s kx =
     (case key_schema s (fst kx) of
        Inr t \<Rightarrow> validateProperty stop (child_path path (fst kx)) (snd kx) t
      | Inl b \<Rightarrow> if b then []
                 else [\<lparr>ve_path = child_path path (fst kx),
                        ve_message = child_path path (fst kx) @ '' is not a valid property''\<rparr>])"

lemma walk_no_errors: "\<forall>x \<in> set xs. f x = [] \<Longrightarrow> walk stop f errors xs = [] \<longleftrightarrow> errors = []"
  by (simp add: walk_Nil_iff)

lemma object_walk_Nil_iff:
  "validateProperty stop path (JObj kvs) s = [] \<longleftrightarrow>
   type_matches s (JObj kvs) \<and> enum_allows s (JObj kvs) \<and>
   (js_type s = Some ''object'' \<longrightarrow>
      required_present s kvs \<and> (\<forall>kx \<in> set kvs. entry_errors stop path s kx = []))"
  unfolding validateProperty.simps [of stop path "JObj kvs" s]
  using validateType_None_iff [where s = s and path = path and v = "JObj kvs"]
  by (auto simp: enum_errors_Nil_iff required_errors_Nil_iff walk_Nil_iff entry_errors_def key_schema_def
      split: option.splits sum.splits if_splits bool.splits)

lemma array_walk_Nil_iff:
  "validateProperty stop path (JArr vs) s = [] \<longleftrightarrow>
   type_matches s (JArr vs) \<and> enum_allows s (JArr vs) \<and>
   (js_type s = Some ''array'' \<longrightarrow>
      array_fits s vs \<and>
      (\<forall>t. js_items s = Some t \<longrightarrow>
         (\<forall>ix \<in> set (enumerate 0 vs). validateProperty stop (item_path path (fst ix)) (snd ix) t = [])))"
  unfolding validateProperty.simps [of stop path "JArr vs" s]
  using validateType_None_iff [where s = s and path = path and v = "JArr vs"]
  by (auto simp: enum_errors_Nil_iff array_bounds_errors_Nil_iff walk_Nil_iff case_prod_unfold
      split: option.splits if_splits)

lemma snd_set_enumerate: "snd ` set (enumerate n vs) = set vs"
  by (metis list.set_map map_snd_enumerate)

lemma validateProperty_Nil_iff: "validateProperty stop path v s = [] \<longleftrightarrow> conforms s v"
proof (induction s v arbitrary: path rule: conforms.induct)
  case (1 s v)
  show ?case
  proof (cases v)
    case JNull
    then show ?thesis by (simp add: validateProperty.simps conforms.simps)
  next
    case (JArr vs)
    have "(\<forall>ix \<in> set (enumerate 0 vs). validateProperty stop (item_path path (fst ix)) (snd ix) t = [])
        \<longleftrightarrow> (\<forall>x \<in> set vs. conforms t x)" if "js_items s = Some t" "js_type s = Some ''array''" for t
    proof -
      have "validateProperty stop p x t = [] \<longleftrightarrow> conforms t x" if "x \<in> set vs" for p x
        using "1.IH"(1) JArr \<open>js_items s = Some t\<close> \<open>js_type s = Some ''array''\<close> that by simp
      then have "(\<forall>ix \<in> set (enumerate 0 vs). validateProperty stop (item_path path (fst ix)) (snd ix) t = [])
          \<longleftrightarrow> (\<forall>x \<in> snd ` set (enumerate 0 vs). conforms t x)"
        by (metis (no_types, lifting) image_iff snd_set_enumerate)
      then show ?thesis by (simp only: snd_set_enumerate)
    qed
    with JArr show ?thesis
      by (auto simp: array_walk_Nil_iff conforms.simps split: option.splits)
  next
    case (JObj kvs)
    have "entry_errors stop path s kx = [] \<longleftrightarrow>
        (case key_schema s (fst kx) of Inl b \<Rightarrow> b | Inr t \<Rightarrow> conforms t (snd kx))"
      if "kx \<in> set kvs" "js_type s = Some ''object''" for kx
      using "1.IH"(2) JObj that by (cases kx) (auto simp: entry_errors_def split: sum.splits)
    with JObj show ?thesis by (auto simp: object_walk_Nil_iff conforms.simps)
  qed (use validateType_None_iff [where s = s and path = path and v = v] in
      \<open>auto simp: validateProperty.simps conforms.simps enum_errors_Nil_iff split: option.splits\<close>)
qed

text \<open>
  The validator reports no error exactly for the values that conform to the schema, whatever the
  path it reports under and whether or not it stops at the first failing entry.
\<close>

theorem validateProperty_accepts_conforming:
  "(validateProperty stop path v s = []) = conforms s v"
  by (rule validateProperty_Nil_iff)

text \<open>
  The acceptance condition of a whole set of inputs.
\<close>

definition input_conforms :: "inputs_schema \<Rightarrow> string \<times> json \<Rightarrow> bool" where
  "input_conforms s kv \<longleftrightarrow>
     (case map_of (schema_properties s) (fst kv) of
        Some t \<Rightarrow> conforms t (snd kv)
      | None \<Rightarrow> is_additionalProperties s \<noteq> Some (Inl False))"

definition required_inputs :: "inputs_schema \<Rightarrow> string list" where
  "required_inputs s = (case is_required s of None \<Rightarrow> [] | Some ks \<Rightarrow> ks)"

lemma validateEntries_Nil_iff:
  "validateEntries stop inputs s = [] \<longleftrightarrow> (\<forall>kv \<in> set inputs. input_conforms s kv)"
  by (force simp: validateEntries_def walk_Nil_iff input_conforms_def validateProperty_Nil_iff
      split: option.splits if_splits)

text \<open>C34.
  A set of inputs is valid exactly when every required name is present, in JavaScript's sense of
  \<^verbatim>\<open>in\<close>, and every supplied input conforms to its declared schema or is an undeclared one
  that the schema allows. An override set is judged by the second condition alone.
\<close>

theorem validate_accepts:
  "(vr_valid (validate stop inputs s) \<longleftrightarrow>
      (\<forall>k \<in> set (required_inputs s). js_in k inputs) \<and> (\<forall>kv \<in> set inputs. input_conforms s kv)) \<and>
   (vr_valid (validateProvided stop inputs s) \<longleftrightarrow> (\<forall>kv \<in> set inputs. input_conforms s kv))"
  by (auto simp: validate_def validateProvided_def result_of_def validateEntries_Nil_iff
      filter_empty_conv required_inputs_def)

definition toString_schema :: inputs_schema where
  "toString_schema =
     \<lparr>is_properties = Some [(''toString'', any_schema)], is_required = Some [''toString''],
      is_additionalProperties = None, is_flat = []\<rparr>"

theorem validate_accepts_witness:
  "vr_valid (validate False [] toString_schema) \<and>
   \<not> vr_valid (validate False [] (toString_schema\<lparr>is_required := Some [''region'']\<rparr>))"
  by (simp add: validate_accepts toString_schema_def required_inputs_def js_in_def
      object_prototype_members_def)

text \<open>
  A required input that has the name of a member of \<^verbatim>\<open>Object.prototype\<close> is never reported
  missing at the top level, while the nested check reports it.
\<close>

lemma missing_prototype_input_accepted: "vr_valid (validate stop [] toString_schema)"
  by (simp add: validate_def result_of_def toString_schema_def js_in_def
      object_prototype_members_def validateEntries_def)

lemma missing_prototype_key_refused:
  "\<not> required_present (JsonSchema None None None None None (Some [''toString'']) None None None None) []"
  by (simp add: required_present_def)

subsection \<open>Defaults\<close>

lemma js_in_add_default: "js_in k r \<Longrightarrow> js_in k (add_default kt r)"
  by (auto simp: add_default_def js_in_def split: option.splits)

lemma js_in_fold_add_default: "js_in k r \<Longrightarrow> js_in k (fold add_default ps r)"
  by (induction ps arbitrary: r) (auto intro: js_in_add_default)

lemma fold_add_default_fills:
  "(k, t) \<in> set ps \<Longrightarrow> js_default t \<noteq> None \<Longrightarrow> js_in k (fold add_default ps r)"
proof (induction ps arbitrary: r)
  case (Cons p ps)
  show ?case
  proof (cases "p = (k, t)")
    case True
    with Cons.prems have "js_in k (add_default p r)"
      by (auto simp: add_default_def js_in_def)
    then show ?thesis by (simp add: js_in_fold_add_default)
  qed (use Cons in simp)
qed simp

lemma fold_add_default_id:
  "\<forall>(k, t) \<in> set ps. js_default t \<noteq> None \<longrightarrow> js_in k r \<Longrightarrow> fold add_default ps r = r"
  by (induction ps) (auto simp: add_default_def split: option.splits)

lemma fold_add_default_extends:
  "\<exists>extra. fold add_default ps r = r @ extra \<and>
     (\<forall>(k, d) \<in> set extra. \<not> js_in k r \<and> (\<exists>t. (k, t) \<in> set ps \<and> js_default t = Some d))"
proof (induction ps arbitrary: r)
  case (Cons p ps)
  obtain e where e: "add_default p r = r @ e"
    "\<forall>(k, d) \<in> set e. \<not> js_in k r \<and> (\<exists>t. (k, t) \<in> set (p # ps) \<and> js_default t = Some d)"
  proof (cases "add_default p r = r")
    case False
    then obtain d where "js_default (snd p) = Some d" "\<not> js_in (fst p) r"
      by (auto simp: add_default_def split: option.splits if_splits)
    then show ?thesis using that [of "[(fst p, d)]"] by (cases p) (auto simp: add_default_def)
  qed (use that [of "[]"] in simp)
  obtain extra where extra: "fold add_default ps (r @ e) = (r @ e) @ extra"
    "\<forall>(k, d) \<in> set extra. \<not> js_in k (r @ e) \<and> (\<exists>t. (k, t) \<in> set ps \<and> js_default t = Some d)"
    using Cons.IH by blast
  have mono: "\<not> js_in k (r @ e) \<Longrightarrow> \<not> js_in k r" for k by (auto simp: js_in_def)
  have "\<forall>(k, d) \<in> set extra. \<not> js_in k r \<and> (\<exists>t. (k, t) \<in> set (p # ps) \<and> js_default t = Some d)"
    using extra(2) by (auto dest: mono)
  with e(2) have "\<forall>(k, d) \<in> set (e @ extra).
      \<not> js_in k r \<and> (\<exists>t. (k, t) \<in> set (p # ps) \<and> js_default t = Some d)"
    by (simp only: set_append ball_Un)
  moreover have "fold add_default (p # ps) r = r @ (e @ extra)"
    using e(1) extra(1) by simp
  ultimately show ?case by blast
qed simp

text \<open>
  Filling in defaults keeps every supplied entry, adds only declared defaults for names that were
  not there, leaves no declared default out, and doing it again changes nothing.
\<close>

theorem applyDefaults_fills:
  "(\<exists>extra. applyDefaults inputs s = inputs @ extra \<and>
      (\<forall>(k, d) \<in> set extra. \<not> js_in k inputs \<and>
         (\<exists>t. (k, t) \<in> set (schema_properties s) \<and> js_default t = Some d))) \<and>
   (\<forall>(k, t) \<in> set (schema_properties s). js_default t \<noteq> None \<longrightarrow> js_in k (applyDefaults inputs s)) \<and>
   applyDefaults (applyDefaults inputs s) s = applyDefaults inputs s"
  unfolding applyDefaults_def
  using fold_add_default_extends fold_add_default_fills
  by (auto intro!: fold_add_default_id)

theorem applyDefaults_fills_witness:
  "applyDefaults [(''a'', JNull)]
     \<lparr>is_properties = Some [(''a'', JsonSchema None (Some JNull) None None None None None None None None),
        (''b'', JsonSchema None (Some (JStr ''x'')) None None None None None None None None)],
      is_required = None, is_additionalProperties = None, is_flat = []\<rparr>
   = [(''a'', JNull), (''b'', JStr ''x'')] \<and>
   js_in ''b'' (applyDefaults [(''a'', JNull)]
     \<lparr>is_properties = Some [(''a'', JsonSchema None (Some JNull) None None None None None None None None),
        (''b'', JsonSchema None (Some (JStr ''x'')) None None None None None None None None)],
      is_required = None, is_additionalProperties = None, is_flat = []\<rparr>)"
  using applyDefaults_fills [of "[(''a'', JNull)]"
     "\<lparr>is_properties = Some [(''a'', JsonSchema None (Some JNull) None None None None None None None None),
        (''b'', JsonSchema None (Some (JStr ''x'')) None None None None None None None None)],
      is_required = None, is_additionalProperties = None, is_flat = []\<rparr>"]
  by (simp add: applyDefaults_def add_default_def schema_properties_def js_in_def object_prototype_members_def)

end
