(* ===== verification/Js_Text.thy ===== *)
theory Js_Text
  imports Swamp_Prelude
begin

text \<open>
  The string operations of JavaScript's standard library that the source uses, on the UTF-8 bytes of
  the strings. \<^verbatim>\<open>toLowerCase()\<close> is modelled on ASCII letters: other letters keep their case.
\<close>

section \<open>Characters\<close>

definition between :: "char \<Rightarrow> char \<Rightarrow> char \<Rightarrow> bool" where
  "between lo hi c \<longleftrightarrow> of_char lo \<le> (of_char c :: nat) \<and> of_char c \<le> (of_char hi :: nat)"

definition is_digit :: "char \<Rightarrow> bool" where
  "is_digit c \<longleftrightarrow> between CHR ''0'' CHR ''9'' c"

text \<open>\<^verbatim>\<open>Number\<close> of a text of decimal digits.\<close>

definition digits_value :: "string \<Rightarrow> nat" where
  "digits_value ds = fold (\<lambda>c n. 10 * n + (of_char c - 48)) ds 0"

definition is_lower :: "char \<Rightarrow> bool" where
  "is_lower c \<longleftrightarrow> between CHR ''a'' CHR ''z'' c"

definition is_upper :: "char \<Rightarrow> bool" where
  "is_upper c \<longleftrightarrow> between CHR ''A'' CHR ''Z'' c"

text \<open>\<^verbatim>\<open>length\<close> of a string, its UTF-16 code units: one for each character, two for one of four bytes.\<close>

definition js_length :: "string \<Rightarrow> nat" where
  "js_length s =
     length (filter (\<lambda>c. of_char c < (128 :: nat) \<or> (192 :: nat) \<le> of_char c) s) +
     length (filter (\<lambda>c. (240 :: nat) \<le> of_char c) s)"

section \<open>White space\<close>

text \<open>
  \<^verbatim>\<open>trim()\<close> strips the white space and line terminators of ECMAScript, given here by their
  UTF-8 bytes.
\<close>

definition js_spaces :: "string list" where
  "js_spaces =
     [[CHR 0x09], [CHR 0x0A], [CHR 0x0B], [CHR 0x0C], [CHR 0x0D], [CHR 0x20], [CHR 0xC2, CHR 0xA0],
      [CHR 0xE1, CHR 0x9A, CHR 0x80], [CHR 0xE2, CHR 0x80, CHR 0x80], [CHR 0xE2, CHR 0x80, CHR 0x81],
      [CHR 0xE2, CHR 0x80, CHR 0x82], [CHR 0xE2, CHR 0x80, CHR 0x83], [CHR 0xE2, CHR 0x80, CHR 0x84],
      [CHR 0xE2, CHR 0x80, CHR 0x85], [CHR 0xE2, CHR 0x80, CHR 0x86], [CHR 0xE2, CHR 0x80, CHR 0x87],
      [CHR 0xE2, CHR 0x80, CHR 0x88], [CHR 0xE2, CHR 0x80, CHR 0x89], [CHR 0xE2, CHR 0x80, CHR 0x8A],
      [CHR 0xE2, CHR 0x80, CHR 0xA8], [CHR 0xE2, CHR 0x80, CHR 0xA9], [CHR 0xE2, CHR 0x80, CHR 0xAF],
      [CHR 0xE2, CHR 0x81, CHR 0x9F], [CHR 0xE3, CHR 0x80, CHR 0x80], [CHR 0xEF, CHR 0xBB, CHR 0xBF]]"

definition leading_space :: "string list \<Rightarrow> string \<Rightarrow> nat" where
  "leading_space spaces s =
     (case find (\<lambda>w. take (length w) s = w) spaces of None \<Rightarrow> 0 | Some w \<Rightarrow> length w)"

function strip_leading :: "string list \<Rightarrow> string \<Rightarrow> string" where
  "strip_leading spaces s =
     (if leading_space spaces s = 0 \<or> s = [] then s
      else strip_leading spaces (drop (leading_space spaces s) s))"
  by pat_completeness auto
termination
  by (relation "measure (\<lambda>(spaces, s). length s)") auto

declare strip_leading.simps [simp del]

definition js_trim :: "string \<Rightarrow> string" where
  "js_trim s = rev (strip_leading (map rev js_spaces) (rev (strip_leading js_spaces s)))"

definition to_lower :: "char \<Rightarrow> char" where
  "to_lower c = (if is_upper c then char_of (of_char c + 32 :: nat) else c)"

lemma leading_space_0:
  "\<forall>w \<in> set spaces. w \<noteq> [] \<and> hd w \<noteq> c \<Longrightarrow> leading_space spaces (c # cs) = 0"
proof -
  assume *: "\<forall>w \<in> set spaces. w \<noteq> [] \<and> hd w \<noteq> c"
  have "take (length w) (c # cs) \<noteq> w" if "w \<in> set spaces" for w
    using * that by (cases w) auto
  then have "find (\<lambda>w. take (length w) (c # cs) = w) spaces = None"
    by (simp add: find_None_iff)
  then show ?thesis by (simp add: leading_space_def)
qed

lemma length_strip_leading: "length (strip_leading spaces s) \<le> length s"
  by (induction spaces s rule: strip_leading.induct) (subst strip_leading.simps, auto)

lemma strip_leading_0: "s = [] \<or> leading_space spaces s = 0 \<Longrightarrow> strip_leading spaces s = s"
  by (subst strip_leading.simps) auto

section \<open>Decimal numerals and path segments\<close>

lemma digits_value_snoc [simp]: "digits_value (ds @ [c]) = 10 * digits_value ds + (of_char c - 48)"
  by (simp add: digits_value_def)

lemma digits_value_Nil [simp]: "digits_value [] = 0"
  by (simp add: digits_value_def)

lemma digits_value_zeros [simp]: "digits_value (replicate n CHR ''0'' @ ds) = digits_value ds"
  by (induction n) (simp_all add: digits_value_def)

lemma is_digit_iff: "is_digit c \<longleftrightarrow> 48 \<le> (of_char c :: nat) \<and> of_char c \<le> (57 :: nat)"
  by (simp add: is_digit_def between_def)

lemma is_digit_of: "d < 10 \<Longrightarrow> is_digit (char_of (48 + d :: nat))"
  by (simp add: is_digit_iff)

lemma digits_value_nat_text [simp]: "digits_value (nat_text n) = n"
proof (induction n rule: nat_text.induct)
  case (1 n)
  show ?case
  proof (cases "n < 10")
    case True
    then show ?thesis by (simp add: nat_text.simps [of n] digits_value_def)
  next
    case False
    with 1 show ?thesis by (simp add: nat_text.simps [of n])
  qed
qed

lemma nat_text_digits: "list_all is_digit (nat_text n)"
proof (induction n rule: nat_text.induct)
  case (1 n)
  then show ?case
    by (cases "n < 10") (simp_all add: nat_text.simps [of n] is_digit_of)
qed

lemma nat_text_length: "n < 10 ^ Suc k \<Longrightarrow> length (nat_text n) \<le> Suc k"
proof (induction k arbitrary: n)
  case 0
  then show ?case by (simp add: nat_text.simps [of n])
next
  case (Suc k)
  from Suc.prems have "n div 10 < 10 ^ Suc k" by (simp add: less_mult_imp_div_less)
  from Suc.IH [OF this] show ?case by (simp add: nat_text.simps [of n])
qed

lemma nat_text_nonempty [simp]: "nat_text n \<noteq> []"
  by (subst nat_text.simps) simp

text \<open>Only the numeral of zero begins with a zero.\<close>

lemma nat_text_hd: "0 < n \<Longrightarrow> hd (nat_text n) \<noteq> CHR ''0''"
proof (induction n rule: nat_text.induct)
  case (1 n)
  show ?case
  proof (cases "n < 10")
    case True
    then have "(of_char (hd (nat_text n)) :: nat) = 48 + n" by (simp add: nat_text.simps [of n])
    moreover have "(of_char CHR ''0'' :: nat) = 48" by simp
    ultimately show ?thesis using "1.prems" by (metis add_cancel_left_right less_numeral_extra(3))
  next
    case False
    with 1 show ?thesis by (simp add: nat_text.simps [of n] hd_append)
  qed
qed

lemma nat_text_no_slash: "CHR ''/'' \<notin> set (nat_text n)"
  using nat_text_digits [of n] by (auto simp: list_all_iff is_digit_iff dest!: bspec)

lemma js_split_whole: "c \<notin> set s \<Longrightarrow> js_split c s = [s]"
  by (induction s) auto

lemma js_split_segment: "c \<notin> set s \<Longrightarrow> js_split c (s @ c # t) = s # js_split c t"
  by (induction s) auto

end
