(* ===== verification/Signal_Wait.thy ===== *)
theory Signal_Wait
  imports Input_Validation Js_Text
begin

text \<open>
  \<^verbatim>\<open>src/src/domain/workflows/signal_wait.ts\<close> and
  \<^verbatim>\<open>signal_wait_records.ts\<close>: the wait of a step for an external signal, what a
  signal's payload has to be, the records the control plane keeps of a wait and how a signal
  is decided.

  A wait's captured schema is an object schema with every keyword the validator reads, so it is
  a \<open>json_schema\<close>. A stored instant is its number of milliseconds: \<^verbatim>\<open>toISOString\<close>
  and \<^verbatim>\<open>new Date\<close> are inverse on the dates a wait can have. \<^verbatim>\<open>crypto.randomUUID()\<close>
  is an argument \<open>fresh\<close>, and Zod's \<^verbatim>\<open>z.string().uuid()\<close> an argument \<open>is_uuid\<close>.
\<close>

section \<open>Keys\<close>

definition matches_wait_key_pattern :: "string \<Rightarrow> bool" where
  "matches_wait_key_pattern key \<longleftrightarrow>
     (case key of
        [] \<Rightarrow> False
      | c # cs \<Rightarrow> (is_lower c \<or> is_digit c) \<and> length cs \<le> 63 \<and>
          list_all (\<lambda>d. is_lower d \<or> is_digit d \<or> d = CHR ''_'' \<or> d = CHR ''-'') cs)"

definition windows_device_name :: "string \<Rightarrow> bool" where
  "windows_device_name key \<longleftrightarrow>
     key \<in> {''con'', ''prn'', ''aux'', ''nul''} \<or>
     length key = 4 \<and> (take 3 key = ''com'' \<or> take 3 key = ''lpt'') \<and> is_digit (key ! 3)"

definition isWaitKey :: "string \<Rightarrow> bool" where
  "isWaitKey key \<longleftrightarrow> matches_wait_key_pattern key \<and> \<not> windows_device_name key"

definition isIdempotencyKey :: "string \<Rightarrow> bool" where
  "isIdempotencyKey v \<longleftrightarrow> length v \<le> 128 \<and> v \<noteq> [] \<and>
     list_all (\<lambda>c. is_lower c \<or> is_upper c \<or> is_digit c \<or>
                 c = CHR ''.'' \<or> c = CHR ''_'' \<or> c = CHR '':'' \<or> c = CHR ''-'') v"

text \<open>A wait key is one segment of a control-plane key: no separator, no dot, bounded.\<close>

lemma isWaitKey_segment:
  "isWaitKey key \<Longrightarrow>
   key \<noteq> [] \<and> length key \<le> 64 \<and> CHR ''/'' \<notin> set key \<and> CHR 0x5C \<notin> set key \<and> CHR ''.'' \<notin> set key"
  by (auto simp: isWaitKey_def matches_wait_key_pattern_def list_all_iff is_lower_def is_digit_def
      between_def split: list.splits)

section \<open>The wait\<close>

record signal_receipt =
  rc_id :: string
  rc_waitId :: string
  rc_receivedAt :: time
  rc_submittedBy :: string
  rc_idempotencyKey :: "string option"
  rc_heldAsPending :: bool

definition receiptForCaller :: "signal_receipt \<Rightarrow> signal_receipt" where
  "receiptForCaller r = r\<lparr>rc_heldAsPending := False\<rparr>"

record wait_early =
  we_generation :: int
  we_overRelease :: bool
  we_from :: time

definition earlySlots :: "wait_early \<Rightarrow> int list" where
  "earlySlots e =
     (if we_overRelease e \<and> we_generation e > 1
      then [we_generation e, we_generation e - 1] else [we_generation e])"

record signal_wait =
  sw_id :: string
  sw_schema :: json_schema
  sw_deadline :: time
  sw_receipt :: "signal_receipt option"
  sw_key :: "string option"
  sw_early :: "wait_early option"

definition SIGNAL_WAIT_MAX_TIMEOUT_SECONDS :: rat where
  "SIGNAL_WAIT_MAX_TIMEOUT_SECONDS = 365 * 24 * 60 * 60"

definition SIGNAL_PAYLOAD_MAX_BYTES :: nat where
  "SIGNAL_PAYLOAD_MAX_BYTES = 16 * 1024"

definition SIGNAL_PAYLOAD_MAX_DEPTH :: nat where
  "SIGNAL_PAYLOAD_MAX_DEPTH = 16"

definition RESERVED_PAYLOAD_KEYS :: "string list" where
  "RESERVED_PAYLOAD_KEYS = [''__proto__'', ''constructor'', ''prototype'']"

datatype wait_error =
    Bad_wait_key string
  | Bad_wait_timeout rat rat
  | Early_without_key
  | Malformed_wait
  | Not_a_wait_id string

text \<open>
  The number of milliseconds of a \<^verbatim>\<open>Date\<close> is whole: the constructor drops a fraction.
\<close>

definition open_wait ::
  "string \<Rightarrow> json_schema \<Rightarrow> rat \<Rightarrow> time \<Rightarrow> rat \<Rightarrow> string option \<Rightarrow> wait_error + signal_wait" where
  "open_wait fresh schema timeoutSeconds now maxTimeoutSeconds key =
     (if key \<noteq> None \<and> \<not> isWaitKey (the key) then Inl (Bad_wait_key (the key))
      else let mx = min maxTimeoutSeconds SIGNAL_WAIT_MAX_TIMEOUT_SECONDS in
        if \<not> timeoutSeconds > 0 \<or> \<not> timeoutSeconds \<le> mx then Inl (Bad_wait_timeout mx timeoutSeconds)
        else Inr \<lparr>sw_id = fresh, sw_schema = schema,
                   sw_deadline = now + \<lfloor>timeoutSeconds * 1000\<rfloor>,
                   sw_receipt = None, sw_key = key, sw_early = None\<rparr>)"

definition withEarly :: "signal_wait \<Rightarrow> wait_early \<Rightarrow> wait_error + signal_wait" where
  "withEarly w early =
     (if sw_key w = None then Inl Early_without_key else Inr (w\<lparr>sw_early := Some early\<rparr>))"

definition isSettled :: "signal_wait \<Rightarrow> bool" where
  "isSettled w \<longleftrightarrow> sw_receipt w \<noteq> None"

definition isExpired :: "signal_wait \<Rightarrow> time \<Rightarrow> bool" where
  "isExpired w now \<longleftrightarrow> now > sw_deadline w"

definition settledWith :: "signal_wait \<Rightarrow> signal_receipt \<Rightarrow> signal_wait" where
  "settledWith w receipt = w\<lparr>sw_receipt := Some receipt\<rparr>"

text \<open>
  What \<^verbatim>\<open>SignalWaitSchema\<close> asks of a stored wait beyond the shape of its fields, and
  reading one back.
\<close>

definition valid_receipt :: "(string \<Rightarrow> bool) \<Rightarrow> signal_receipt \<Rightarrow> bool" where
  "valid_receipt is_uuid r \<longleftrightarrow> is_uuid (rc_id r) \<and> is_uuid (rc_waitId r) \<and>
     rc_submittedBy r \<noteq> [] \<and> (rc_idempotencyKey r \<noteq> None \<longrightarrow> isIdempotencyKey (the (rc_idempotencyKey r)))"

definition valid_wait :: "(string \<Rightarrow> bool) \<Rightarrow> signal_wait \<Rightarrow> bool" where
  "valid_wait is_uuid w \<longleftrightarrow> is_uuid (sw_id w) \<and>
     (sw_receipt w \<noteq> None \<longrightarrow> valid_receipt is_uuid (the (sw_receipt w))) \<and>
     (sw_key w \<noteq> None \<longrightarrow> isWaitKey (the (sw_key w))) \<and>
     (sw_early w \<noteq> None \<longrightarrow> we_generation (the (sw_early w)) \<ge> 1)"

definition wait_fromData :: "(string \<Rightarrow> bool) \<Rightarrow> signal_wait \<Rightarrow> wait_error + signal_wait" where
  "wait_fromData is_uuid data = (if valid_wait is_uuid data then Inr data else Inl Malformed_wait)"

subsection \<open>Payloads\<close>

definition set_type :: "string \<Rightarrow> json_schema \<Rightarrow> json_schema" where
  "set_type ty s =
     JsonSchema (Some ty) (js_default s) (js_enum s) (js_items s) (js_properties s) (js_required s)
       (js_additionalProperties s) (js_minItems s) (js_maxItems s) (js_uniqueItems s)"

fun withDeclaredProperties :: "json_schema \<Rightarrow> json_schema" where
  "withDeclaredProperties (JsonSchema ty df en it pr rq ad mn mx un) =
     JsonSchema ty df en
       (map_option withDeclaredProperties it)
       (if ty = Some ''object''
        then Some (map (\<lambda>(k, t). (k, withDeclaredProperties t)) (case pr of None \<Rightarrow> [] | Some ps \<Rightarrow> ps))
        else pr)
       rq
       (case ad of Some (Inr t) \<Rightarrow> Some (Inr (withDeclaredProperties t)) | _ \<Rightarrow> ad)
       mn mx un"

lemma in_enumerate_size: "(i, x) \<in> set (enumerate n vs) \<Longrightarrow> size x < Suc (size_list size vs)"
proof -
  assume "(i, x) \<in> set (enumerate n vs)"
  then have "x \<in> set vs" using snd_set_enumerate [of n vs] by force
  then show ?thesis by (simp add: size_list_estimation' less_Suc_eq_le)
qed

lemma in_object_size: "(k, x) \<in> set kvs \<Longrightarrow> size x < Suc (size_list (size_prod (\<lambda>_. 0) size) kvs)"
  by (auto dest!: split_list)

function structuralErrors :: "json \<Rightarrow> string \<Rightarrow> nat \<Rightarrow> string list" where
  "structuralErrors v path depth =
     (case v of
        JArr vs \<Rightarrow>
          if depth > SIGNAL_PAYLOAD_MAX_DEPTH
          then [path @ '' nests deeper than '' @ nat_text SIGNAL_PAYLOAD_MAX_DEPTH @ '' levels'']
          else concat (map (\<lambda>(i, x). structuralErrors x (item_path path i) (depth + 1)) (enumerate 0 vs))
      | JObj kvs \<Rightarrow>
          if depth > SIGNAL_PAYLOAD_MAX_DEPTH
          then [path @ '' nests deeper than '' @ nat_text SIGNAL_PAYLOAD_MAX_DEPTH @ '' levels'']
          else concat (map (\<lambda>(k, x).
              if k \<in> set RESERVED_PAYLOAD_KEYS
              then [child_path path k @ '' uses the reserved key '' @ [CHR 0x22] @ k @ [CHR 0x22]]
              else structuralErrors x (child_path path k) (depth + 1)) kvs)
      | _ \<Rightarrow> [])"
  by pat_completeness auto
termination
  by (relation "measure (\<lambda>(v, path, depth). size v)")
    (auto dest: in_enumerate_size in_object_size)

declare structuralErrors.simps [simp del]

definition payload_schema :: "signal_wait \<Rightarrow> inputs_schema" where
  "payload_schema w =
     \<lparr>is_properties = Some [(''payload'', withDeclaredProperties (set_type ''object'' (sw_schema w)))],
      is_required = None, is_additionalProperties = None, is_flat = []\<rparr>"

definition payload_message :: "string \<Rightarrow> string" where
  "payload_message msg =
     ''payload: '' @ (if take 8 msg = ''payload.'' then drop 8 msg else msg)"

text \<open>
  \<open>None\<close> is a value that has no JSON text. Re-reading a JSON value from its own text gives the
  value back. The accepted payload is the object's entries.
\<close>

definition validatePayload :: "bool \<Rightarrow> signal_wait \<Rightarrow> json option \<Rightarrow> string list + json_object" where
  "validatePayload stop w payload =
     (case payload of
        Some (JObj plain) \<Rightarrow>
          (let bytes = length (json_stringify (JObj plain)) in
           if bytes > SIGNAL_PAYLOAD_MAX_BYTES then
             Inl [''payload is '' @ nat_text bytes @ '' bytes, over the '' @
                  nat_text SIGNAL_PAYLOAD_MAX_BYTES @ '' byte limit'']
           else
             let structural = structuralErrors (JObj plain) ''payload'' 1 in
             if structural \<noteq> [] then Inl structural
             else
               let result = validate stop [(''payload'', JObj plain)] (payload_schema w) in
               if \<not> vr_valid result then Inl (map (payload_message \<circ> ve_message) (vr_errors result))
               else Inr plain)
      | _ \<Rightarrow> Inl [''payload must be a JSON object''])"

subsection \<open>Schemas that promise more than is checked\<close>

definition ENFORCED_SCHEMA_KEYWORDS :: "string list" where
  "ENFORCED_SCHEMA_KEYWORDS =
     [''type'', ''enum'', ''required'', ''properties'', ''additionalProperties'', ''items'',
      ''minItems'', ''maxItems'', ''uniqueItems'']"

definition ANNOTATION_SCHEMA_KEYWORDS :: "string list" where
  "ANNOTATION_SCHEMA_KEYWORDS = [''description'', ''title'', ''examples'', ''$comment'']"

definition TYPE_BOUND_SCHEMA_KEYWORDS :: "(string \<times> string) list" where
  "TYPE_BOUND_SCHEMA_KEYWORDS =
     [(''required'', ''object''), (''properties'', ''object''), (''additionalProperties'', ''object''),
      (''items'', ''array''), (''minItems'', ''array''), (''maxItems'', ''array''),
      (''uniqueItems'', ''array'')]"

definition keyword_problem :: "json_object \<Rightarrow> string \<Rightarrow> bool \<Rightarrow> string \<Rightarrow> string list" where
  "keyword_problem node path isRoot key =
     (if key \<in> set ANNOTATION_SCHEMA_KEYWORDS then []
      else if key = ''default'' then [path @ ''.default: a default is never applied to a payload'']
      else if key = ''enum'' \<and> map_of node ''enum'' = Some (JArr []) then
        [path @ ''.enum: an empty enum is not checked'']
      else if key \<notin> set ENFORCED_SCHEMA_KEYWORDS then
        [child_path path key @ '': not a supported keyword'']
      else case map_of TYPE_BOUND_SCHEMA_KEYWORDS key of
        None \<Rightarrow> []
      | Some boundTo \<Rightarrow>
          if (if isRoot then Some (JStr ''object'') else map_of node ''type'') \<noteq> Some (JStr boundTo)
          then [child_path path key @ '': only checked beside '' @ [CHR 0x22] @ ''type: '' @ boundTo @ [CHR 0x22]]
          else [])"

lemma map_of_object_size: "map_of kvs k = Some v \<Longrightarrow> size v < Suc (size_list (size_prod (\<lambda>_. 0) size) kvs)"
  by (auto dest: map_of_SomeD in_object_size)

function collectUnenforcedKeywords :: "json \<Rightarrow> string \<Rightarrow> bool \<Rightarrow> string list" where
  "collectUnenforcedKeywords node path isRoot =
     (case node of
        JObj kvs \<Rightarrow>
          concat (map (\<lambda>(key, _). keyword_problem kvs path isRoot key) kvs) @
          (case map_of kvs ''properties'' of
             Some (JObj ps) \<Rightarrow>
               concat (map (\<lambda>(name, child).
                   collectUnenforcedKeywords child (path @ ''.properties.'' @ name) False) ps)
           | _ \<Rightarrow> []) @
          (case map_of kvs ''items'' of
             Some child \<Rightarrow> collectUnenforcedKeywords child (path @ ''.items'') False | None \<Rightarrow> []) @
          (case map_of kvs ''additionalProperties'' of
             Some child \<Rightarrow> collectUnenforcedKeywords child (path @ ''.additionalProperties'') False
           | None \<Rightarrow> [])
      | _ \<Rightarrow> [])"
  by pat_completeness auto
termination
proof (relation "measure (\<lambda>(node, path, isRoot). size node)", goal_cases)
  case (2 node path isRoot kvs y ps pr name child)
  then have "size (JObj ps) < size node" and "size child < size (JObj ps)"
    by (auto dest: map_of_object_size in_object_size)
  then show ?case by simp
qed (auto dest: map_of_object_size)

declare collectUnenforcedKeywords.simps [simp del]

definition unenforcedSchemaKeywords :: "json \<Rightarrow> string list" where
  "unenforcedSchemaKeywords schema = collectUnenforcedKeywords schema ''schema'' True"

section \<open>The records of a wait\<close>

text \<open>
  A wait id is lowered with \<open>to_lower\<close>: no character outside ASCII is lowered to a hexadecimal
  digit or a hyphen.
\<close>

definition is_hex_lower :: "char \<Rightarrow> bool" where
  "is_hex_lower c \<longleftrightarrow> is_digit c \<or> between CHR ''a'' CHR ''f'' c"

definition UUID_test :: "string \<Rightarrow> bool" where
  "UUID_test s \<longleftrightarrow> length s = 36 \<and>
     (\<forall>ic \<in> set (enumerate 0 s).
        if fst ic \<in> {8, 13, 18, 23} then snd ic = CHR ''-'' else is_hex_lower (snd ic))"

definition normalizeWaitId :: "string \<Rightarrow> string option" where
  "normalizeWaitId raw =
     (let i = map to_lower (js_trim raw) in if UUID_test i then Some i else None)"

definition requireWaitId :: "string \<Rightarrow> wait_error + string" where
  "requireWaitId waitId =
     (case normalizeWaitId waitId of None \<Rightarrow> Inl (Not_a_wait_id waitId) | Some i \<Rightarrow> Inr i)"

definition WAIT_REGISTRATION_PREFIX :: string where
  "WAIT_REGISTRATION_PREFIX = ''waits/''"

definition WAIT_OUTCOME_PREFIX :: string where
  "WAIT_OUTCOME_PREFIX = ''wait-outcomes/''"

definition waitRegistrationKey :: "string \<Rightarrow> wait_error + string" where
  "waitRegistrationKey waitId = map_sum (\<lambda>e. e) ((@) WAIT_REGISTRATION_PREFIX) (requireWaitId waitId)"

definition waitOutcomeKey :: "string \<Rightarrow> wait_error + string" where
  "waitOutcomeKey waitId = map_sum (\<lambda>e. e) ((@) WAIT_OUTCOME_PREFIX) (requireWaitId waitId)"

definition waitIdFromKey :: "string \<Rightarrow> string option" where
  "waitIdFromKey key =
     (case find (\<lambda>p. take (length p) key = p) [WAIT_REGISTRATION_PREFIX, WAIT_OUTCOME_PREFIX] of
        None \<Rightarrow> None
      | Some p \<Rightarrow> normalizeWaitId (drop (length p) key))"

record wait_ref =
  wr_waitId :: string
  wr_workflowId :: string
  wr_runId :: string
  wr_deadline :: time

record wait_registration = wait_ref +
  reg_workflowName :: string
  reg_jobName :: string
  reg_stepName :: string
  reg_schema :: json_schema
  reg_registeredAt :: time
  reg_key :: "string option"
  reg_early :: "wait_early option"

datatype wait_outcome =
    Accepted wait_ref time signal_receipt json_object
  | Timed_out wait_ref time
  | Cancelled_wait wait_ref time

fun outcome_ref :: "wait_outcome \<Rightarrow> wait_ref" where
  "outcome_ref (Accepted r _ _ _) = r"
| "outcome_ref (Timed_out r _) = r"
| "outcome_ref (Cancelled_wait r _) = r"

datatype 'a stored_wait_record = Found 'a | Absent | Unreadable

definition WAIT_RECORD_MAX_BYTES :: nat where
  "WAIT_RECORD_MAX_BYTES = 256 * 1024"

text \<open>
  \<open>parse\<close> is \<^verbatim>\<open>JSON.parse\<close> followed by the record's Zod schema, \<open>id_of\<close> the record's wait id.
\<close>

definition decode :: "(string \<Rightarrow> 'a option) \<Rightarrow> ('a \<Rightarrow> string) \<Rightarrow> string option \<Rightarrow> string \<Rightarrow> 'a stored_wait_record" where
  "decode parse id_of bytes waitId =
     (case bytes of
        None \<Rightarrow> Absent
      | Some bs \<Rightarrow>
          if length bs > WAIT_RECORD_MAX_BYTES then Unreadable
          else case parse bs of
            None \<Rightarrow> Unreadable
          | Some rec \<Rightarrow> if id_of rec \<noteq> map to_lower waitId then Unreadable else Found rec)"

text \<open>\<open>raw_payload\<close> is the \<^verbatim>\<open>payload\<close> of the parsed bytes before the schema dropped anything.\<close>

definition decodeWaitOutcome ::
  "(string \<Rightarrow> wait_outcome option) \<Rightarrow> (string \<Rightarrow> json) \<Rightarrow> string option \<Rightarrow> string
   \<Rightarrow> wait_outcome stored_wait_record" where
  "decodeWaitOutcome parse raw_payload bytes waitId =
     (case decode parse (wr_waitId \<circ> outcome_ref) bytes waitId of
        Found (Accepted r t rc payload) \<Rightarrow>
          if json_stringify (raw_payload (the bytes)) = json_stringify (JObj payload)
          then Found (Accepted r t rc payload) else Unreadable
      | stored \<Rightarrow> stored)"

definition registrationOf ::
  "string \<Rightarrow> string \<Rightarrow> string \<Rightarrow> string \<Rightarrow> string \<Rightarrow> signal_wait \<Rightarrow> time \<Rightarrow> wait_registration" where
  "registrationOf workflowId workflowName runId jobName stepName w now =
     \<lparr>wr_waitId = sw_id w, wr_workflowId = workflowId, wr_runId = runId, wr_deadline = sw_deadline w,
      reg_workflowName = workflowName, reg_jobName = jobName, reg_stepName = stepName,
      reg_schema = sw_schema w, reg_registeredAt = now, reg_key = sw_key w, reg_early = sw_early w\<rparr>"

definition pick :: "('a) wait_ref_scheme \<Rightarrow> wait_ref" where
  "pick r = wait_ref.truncate r"

definition timedOutOutcome :: "('a) wait_ref_scheme \<Rightarrow> time \<Rightarrow> wait_outcome" where
  "timedOutOutcome r now = Timed_out (pick r) now"

definition cancelledOutcome :: "('a) wait_ref_scheme \<Rightarrow> time \<Rightarrow> wait_outcome" where
  "cancelledOutcome r now = Cancelled_wait (pick r) now"

definition isWaitExpired :: "('a) wait_ref_scheme \<Rightarrow> time \<Rightarrow> bool" where
  "isWaitExpired r now \<longleftrightarrow> now > wr_deadline r"

definition waitOf :: "(string \<Rightarrow> bool) \<Rightarrow> wait_registration \<Rightarrow> wait_error + signal_wait" where
  "waitOf is_uuid reg =
     wait_fromData is_uuid
       \<lparr>sw_id = wr_waitId reg, sw_schema = reg_schema reg, sw_deadline = wr_deadline reg,
        sw_receipt = None, sw_key = None, sw_early = None\<rparr>"

datatype signal_decision =
    Signal_accepted wait_outcome
  | Refused_expired time
  | Refused_invalid_payload "string list"

definition decideSignal ::
  "(string \<Rightarrow> bool) \<Rightarrow> bool \<Rightarrow> string \<Rightarrow> wait_registration \<Rightarrow> json option \<Rightarrow> string \<Rightarrow> time
   \<Rightarrow> string option \<Rightarrow> wait_error + signal_decision" where
  "decideSignal is_uuid stop fresh reg payload submittedBy now idempotencyKey =
     (if isWaitExpired reg now then Inr (Refused_expired (wr_deadline reg))
      else case waitOf is_uuid reg of
        Inl e \<Rightarrow> Inl e
      | Inr w \<Rightarrow>
          (case validatePayload stop w payload of
             Inl errors \<Rightarrow> Inr (Refused_invalid_payload errors)
           | Inr plain \<Rightarrow>
               Inr (Signal_accepted (Accepted (pick reg) now
                      \<lparr>rc_id = fresh, rc_waitId = wr_waitId reg, rc_receivedAt = now,
                       rc_submittedBy = submittedBy, rc_idempotencyKey = idempotencyKey,
                       rc_heldAsPending = False\<rparr> plain))))"

section \<open>What is accepted\<close>

text \<open>The number of nested arrays and objects of a value, and the keys used anywhere in it.\<close>

fun json_depth :: "json \<Rightarrow> nat" where
  "json_depth (JArr vs) = Suc (Max (insert 0 (set (map json_depth vs))))"
| "json_depth (JObj kvs) = Suc (Max (insert 0 (set (map (\<lambda>(k, v). json_depth v) kvs))))"
| "json_depth _ = 0"

fun json_keys :: "json \<Rightarrow> string set" where
  "json_keys (JArr vs) = (\<Union>v \<in> set vs. json_keys v)"
| "json_keys (JObj kvs) = (\<Union>(k, v) \<in> set kvs. insert k (json_keys v))"
| "json_keys _ = {}"

definition fits_depth :: "nat \<Rightarrow> json \<Rightarrow> bool" where
  "fits_depth d v \<longleftrightarrow> json_depth v = 0 \<or> d + json_depth v \<le> Suc SIGNAL_PAYLOAD_MAX_DEPTH"

lemma add_Max_le_iff:
  "finite S \<Longrightarrow> d + Max (insert 0 S) \<le> (m::nat) \<longleftrightarrow> d \<le> m \<and> (\<forall>n \<in> S. n = 0 \<or> d + n \<le> m)"
proof -
  assume "finite S"
  then have "Max (insert 0 S) \<le> m - d \<longleftrightarrow> (\<forall>n \<in> S. n \<le> m - d)" by simp
  then show ?thesis by (cases "d \<le> m") (auto simp: le_diff_conv2 add.commute)
qed

lemma fits_depth_JArr:
  "fits_depth d (JArr vs) \<longleftrightarrow> d \<le> SIGNAL_PAYLOAD_MAX_DEPTH \<and> (\<forall>v \<in> set vs. fits_depth (Suc d) v)"
  by (simp add: fits_depth_def add_Max_le_iff)

lemma fits_depth_JObj:
  "fits_depth d (JObj kvs) \<longleftrightarrow>
   d \<le> SIGNAL_PAYLOAD_MAX_DEPTH \<and> (\<forall>kv \<in> set kvs. fits_depth (Suc d) (snd kv))"
  by (simp add: fits_depth_def add_Max_le_iff case_prod_unfold)

lemma concat_map_Nil_iff: "concat (map f xs) = [] \<longleftrightarrow> (\<forall>x \<in> set xs. f x = [])"
  by simp

lemma structuralErrors_JObj_Nil:
  "structuralErrors (JObj kvs) path d = [] \<longleftrightarrow>
   d \<le> SIGNAL_PAYLOAD_MAX_DEPTH \<and>
   (\<forall>kv \<in> set kvs. fst kv \<notin> set RESERVED_PAYLOAD_KEYS \<and>
      structuralErrors (snd kv) (child_path path (fst kv)) (Suc d) = [])"
  unfolding structuralErrors.simps [of "JObj kvs" path d]
  by (simp add: case_prod_unfold not_less concat_map_Nil_iff del: concat_eq_Nil_conv) blast

lemma json_keys_JObj_disjoint:
  "json_keys (JObj kvs) \<inter> R = {} \<longleftrightarrow> (\<forall>kv \<in> set kvs. fst kv \<notin> R \<and> json_keys (snd kv) \<inter> R = {})"
  by (auto simp: case_prod_unfold)

lemma structuralErrors_Nil_iff:
  "structuralErrors v path d = [] \<longleftrightarrow>
   fits_depth d v \<and> json_keys v \<inter> set RESERVED_PAYLOAD_KEYS = {}"
proof (induction v arbitrary: path d)
  case (JArr vs)
  have "(\<forall>ix \<in> set (enumerate 0 vs). structuralErrors (snd ix) (item_path path (fst ix)) (Suc d) = []) \<longleftrightarrow>
      (\<forall>x \<in> snd ` set (enumerate 0 vs). fits_depth (Suc d) x \<and> json_keys x \<inter> set RESERVED_PAYLOAD_KEYS = {})"
    using JArr snd_set_enumerate [of 0 vs] by blast
  then show ?case
    by (auto simp: structuralErrors.simps [of "JArr vs"] fits_depth_JArr snd_set_enumerate case_prod_unfold)
next
  case (JObj kvs)
  have child: "structuralErrors (snd kv) p (Suc d) = [] \<longleftrightarrow>
      fits_depth (Suc d) (snd kv) \<and> json_keys (snd kv) \<inter> set RESERVED_PAYLOAD_KEYS = {}"
    if "kv \<in> set kvs" for kv p
    using JObj [of kv "snd kv" p "Suc d"] that by (cases kv) auto
  then show ?case
    unfolding structuralErrors_JObj_Nil fits_depth_JObj json_keys_JObj_disjoint by blast
qed (simp_all add: structuralErrors.simps fits_depth_def)

lemma payload_schema_valid:
  "vr_valid (validate stop [(''payload'', v)] (payload_schema w)) \<longleftrightarrow>
   conforms (withDeclaredProperties (set_type ''object'' (sw_schema w))) v"
  by (simp add: validate_def result_of_def payload_schema_def validateEntries_Nil_iff
      input_conforms_def schema_properties_def)

text \<open>
  A payload is accepted exactly when it is a JSON object of at most 16 KiB and at most 16 levels
  that uses no reserved key anywhere and conforms to the captured schema read as an object schema;
  the accepted payload is the value as sent, with nothing coerced and no default applied.
\<close>

theorem validatePayload_accepts:
  "validatePayload stop w payload = Inr plain \<longleftrightarrow>
   payload = Some (JObj plain) \<and>
   length (json_stringify (JObj plain)) \<le> 16384 \<and>
   json_depth (JObj plain) \<le> 16 \<and>
   json_keys (JObj plain) \<inter> {''__proto__'', ''constructor'', ''prototype''} = {} \<and>
   conforms (withDeclaredProperties (set_type ''object'' (sw_schema w))) (JObj plain)"
proof -
  have depth: "fits_depth 1 (JObj plain) \<longleftrightarrow> json_depth (JObj plain) \<le> 16"
    by (auto simp: fits_depth_def SIGNAL_PAYLOAD_MAX_DEPTH_def)
  have keys: "set RESERVED_PAYLOAD_KEYS = {''__proto__'', ''constructor'', ''prototype''}"
    by (simp add: RESERVED_PAYLOAD_KEYS_def)
  have max: "SIGNAL_PAYLOAD_MAX_BYTES = 16384"
    by (simp add: SIGNAL_PAYLOAD_MAX_BYTES_def)
  have struct: "structuralErrors (JObj plain) ''payload'' 1 = [] \<longleftrightarrow>
      json_depth (JObj plain) \<le> 16 \<and> json_keys (JObj plain) \<inter> {''__proto__'', ''constructor'', ''prototype''} = {}"
    by (simp only: structuralErrors_Nil_iff depth keys)
  show ?thesis
  proof (cases "payload = Some (JObj plain)")
    case True
    then show ?thesis
      unfolding validatePayload_def Let_def max
      using struct payload_schema_valid [of stop "JObj plain" w] by simp
  next
    case False
    then have "validatePayload stop w payload \<noteq> Inr plain"
      by (auto simp: validatePayload_def Let_def split: option.splits json.splits if_splits)
    with False show ?thesis by simp
  qed
qed

text \<open>
  An object that declares \<^verbatim>\<open>additionalProperties: false\<close> is closed even when it
  declares no properties of its own: that is what declaring the empty set of properties is for.
\<close>

lemma js_type_wdp [simp]: "js_type (withDeclaredProperties s) = js_type s"
  by (cases s) simp

lemma js_additional_wdp:
  "js_additionalProperties s = Some (Inl False) \<Longrightarrow>
   js_additionalProperties (withDeclaredProperties s) = Some (Inl False)"
  by (cases s) simp

definition declared_names :: "json_schema \<Rightarrow> string set" where
  "declared_names s = (case js_properties s of None \<Rightarrow> {} | Some ps \<Rightarrow> fst ` set ps)"

lemma js_properties_wdp:
  "js_type s = Some ''object'' \<Longrightarrow>
   \<exists>ps. js_properties (withDeclaredProperties s) = Some ps \<and> fst ` set ps = declared_names s"
  by (cases s) (auto simp: declared_names_def image_image case_prod_unfold split: option.splits)

lemma conforms_closed:
  assumes "js_type s = Some ''object''" "js_additionalProperties s = Some (Inl False)"
    and "conforms (withDeclaredProperties s) (JObj kvs)"
  shows "fst ` set kvs \<subseteq> declared_names s"
proof
  fix k assume "k \<in> fst ` set kvs"
  then obtain v where kv: "(k, v) \<in> set kvs" by auto
  obtain ps where ps: "js_properties (withDeclaredProperties s) = Some ps" "fst ` set ps = declared_names s"
    using js_properties_wdp [OF assms(1)] by blast
  have "key_schema (withDeclaredProperties s) k \<noteq> Inl False"
    using assms(1) assms(3) kv by (auto simp: conforms.simps)
  then have "map_of ps k \<noteq> None"
    using ps(1) js_additional_wdp [OF assms(2)] by (auto simp: key_schema_def split: option.splits)
  then show "k \<in> declared_names s" using ps(2) by (simp add: map_of_eq_None_iff)
qed

text \<open>
  Under a captured schema closed with \<^verbatim>\<open>additionalProperties: false\<close> an accepted payload
  has only keys the schema declares.
\<close>

theorem validatePayload_closed:
  assumes "js_additionalProperties (sw_schema w) = Some (Inl False)"
    and "validatePayload stop w payload = Inr plain"
  shows "fst ` set plain \<subseteq> declared_names (sw_schema w)"
proof -
  have "vr_valid (validate stop [(''payload'', JObj plain)] (payload_schema w))"
    using assms(2) by (auto simp: validatePayload_def Let_def split: option.splits json.splits if_splits)
  then have "conforms (withDeclaredProperties (set_type ''object'' (sw_schema w))) (JObj plain)"
    by (simp add: payload_schema_valid)
  then have "fst ` set plain \<subseteq> declared_names (set_type ''object'' (sw_schema w))"
    using assms(1) by (intro conforms_closed) (auto simp: set_type_def)
  then show ?thesis by (simp add: declared_names_def set_type_def)
qed

definition closed_wait :: signal_wait where
  "closed_wait =
     \<lparr>sw_id = ''w'',
      sw_schema = JsonSchema None None None None (Some [(''ok'', any_schema)]) None (Some (Inl False)) None None None,
      sw_deadline = 1000, sw_receipt = None, sw_key = None, sw_early = None\<rparr>"

lemma closed_wait_accepts: "validatePayload False closed_wait (Some (JObj [(''ok'', JBool True)])) = Inr [(''ok'', JBool True)]"
  by code_simp

theorem validatePayload_closed_witness:
  "validatePayload False closed_wait (Some (JObj [(''ok'', JBool True)])) = Inr [(''ok'', JBool True)] \<and>
   fst ` set [(''ok'', JBool True)] \<subseteq> declared_names (sw_schema closed_wait)"
  using validatePayload_closed [of closed_wait False "Some (JObj [(''ok'', JBool True)])", OF _ closed_wait_accepts]
    closed_wait_accepts
  by (simp add: closed_wait_def)

text \<open>
  A wait opens exactly for a well-formed key, or none, and a timeout in the allowed range; its
  deadline then lies at most a year ahead and never before the present, and it is open: not
  settled, and not expired at the instant it was opened.
\<close>

theorem open_wait_bounded:
  "(case open_wait fresh schema t now mx key of
      Inl e \<Rightarrow> (\<exists>k. key = Some k \<and> \<not> isWaitKey k) \<or> t \<le> 0 \<or> t > mx \<or> t > 31536000
    | Inr w \<Rightarrow> 0 < t \<and> t \<le> mx \<and> t \<le> 31536000 \<and> (\<forall>k. key = Some k \<longrightarrow> isWaitKey k) \<and>
        sw_schema w = schema \<and> sw_key w = key \<and>
        now \<le> sw_deadline w \<and> sw_deadline w \<le> now + 31536000000 \<and>
        \<not> isSettled w \<and> \<not> isExpired w now)"
proof (cases "open_wait fresh schema t now mx key")
  case (Inl e)
  then show ?thesis
    by (auto simp: open_wait_def SIGNAL_WAIT_MAX_TIMEOUT_SECONDS_def Let_def min_def split: if_splits)
next
  case (Inr w)
  then have w: "0 < t" "t \<le> mx" "t \<le> 31536000" "sw_deadline w = now + \<lfloor>t * 1000\<rfloor>"
    "\<forall>k. key = Some k \<longrightarrow> isWaitKey k" "sw_schema w = schema" "sw_key w = key" "sw_receipt w = None"
    by (auto simp: open_wait_def SIGNAL_WAIT_MAX_TIMEOUT_SECONDS_def Let_def min_def split: if_splits)
  have "0 \<le> \<lfloor>t * 1000\<rfloor>" using w(1) by simp
  moreover have "\<lfloor>t * 1000\<rfloor> \<le> 31536000000"
    using w(3) by (simp add: floor_le_iff)
  ultimately show ?thesis using w Inr by (simp add: isSettled_def isExpired_def)
qed

theorem open_wait_bounded_witness:
  "(\<exists>w. open_wait ''u'' any_schema 60 0 3600 (Some ''deploy'') = Inr w \<and> sw_deadline w \<le> 0 + 31536000000) \<and>
   open_wait ''u'' any_schema 60 0 3600 (Some ''con'') = Inl (Bad_wait_key ''con'')"
  using open_wait_bounded [where fresh = "''u''" and schema = any_schema and t = 60 and now = 0 and mx = 3600
      and key = "Some ''deploy''"]
  by (simp add: open_wait_def SIGNAL_WAIT_MAX_TIMEOUT_SECONDS_def isWaitKey_def matches_wait_key_pattern_def
      windows_device_name_def is_lower_def is_digit_def between_def)

subsection \<open>Wait ids\<close>

definition id_char :: "char \<Rightarrow> bool" where
  "id_char c \<longleftrightarrow> c = CHR ''-'' \<or> is_hex_lower c"

lemma id_char_not_space:
  "id_char c \<Longrightarrow> \<forall>w \<in> set js_spaces. w \<noteq> [] \<and> hd w \<noteq> c"
  "id_char c \<Longrightarrow> \<forall>w \<in> set (map rev js_spaces). w \<noteq> [] \<and> hd w \<noteq> c"
  by (auto simp: js_spaces_def id_char_def is_hex_lower_def is_digit_def between_def)

lemma strip_leading_id:
  assumes "id_char (hd s)"
  shows "strip_leading js_spaces s = s" "strip_leading (map rev js_spaces) s = s"
proof -
  have "s = [] \<or> leading_space js_spaces s = 0" "s = [] \<or> leading_space (map rev js_spaces) s = 0"
    using leading_space_0 [OF id_char_not_space(1) [OF assms], of "tl s"]
      leading_space_0 [OF id_char_not_space(2) [OF assms], of "tl s"] list.collapse [of s]
    by metis+
  then show "strip_leading js_spaces s = s" "strip_leading (map rev js_spaces) s = s"
    using strip_leading_0 by blast+
qed

lemma UUID_test_chars:
  assumes "UUID_test s" shows "\<forall>c \<in> set s. id_char c" "s \<noteq> []"
proof -
  have len: "length s = 36" and at: "\<forall>ic \<in> set (enumerate 0 s). id_char (snd ic)"
    using assms unfolding UUID_test_def id_char_def by metis+
  have "\<forall>c \<in> snd ` set (enumerate 0 s). id_char c" using at by blast
  then show "\<forall>c \<in> set s. id_char c" by (simp only: snd_set_enumerate)
  show "s \<noteq> []" using len by fastforce
qed

lemma id_char_no_separator: "id_char c \<Longrightarrow> c \<noteq> CHR ''/'' \<and> c \<noteq> CHR ''.''"
  by (auto simp: id_char_def is_hex_lower_def is_digit_def between_def)

lemma js_trim_id: "UUID_test s \<Longrightarrow> js_trim s = s"
proof -
  assume "UUID_test s"
  then have "id_char (hd s)" "id_char (hd (rev s))" using UUID_test_chars [of s] by (simp_all add: hd_rev)
  then show ?thesis unfolding js_trim_def by (simp only: strip_leading_id rev_rev_ident)
qed

lemma to_lower_id: "id_char c \<Longrightarrow> to_lower c = c"
  by (auto simp: to_lower_def id_char_def is_hex_lower_def is_upper_def is_digit_def between_def)

lemma normalizeWaitId_UUID: "UUID_test s \<Longrightarrow> normalizeWaitId s = Some s"
  using UUID_test_chars [of s]
  by (simp add: normalizeWaitId_def js_trim_id map_idI to_lower_id)

lemma normalizeWaitId_Some: "normalizeWaitId raw = Some i \<Longrightarrow> UUID_test i"
  by (auto simp: normalizeWaitId_def Let_def split: if_splits)

lemma waitIdFromKey_prefix:
  "waitIdFromKey (WAIT_REGISTRATION_PREFIX @ i) = normalizeWaitId i"
  "waitIdFromKey (WAIT_OUTCOME_PREFIX @ i) = normalizeWaitId i"
  by (simp_all add: waitIdFromKey_def WAIT_REGISTRATION_PREFIX_def WAIT_OUTCOME_PREFIX_def)

lemma outcome_key_not_registration:
  "map_sum (\<lambda>e. e) ((@) WAIT_OUTCOME_PREFIX) r \<noteq> Inr (WAIT_REGISTRATION_PREFIX @ i)"
  by (cases r) (simp_all add: WAIT_OUTCOME_PREFIX_def WAIT_REGISTRATION_PREFIX_def)

text \<open>
  The control-plane keys of a wait read back to its normalised id, so two waits share a key only
  when they are the same wait; the id in a key is one path segment; and a registration is never
  kept under an outcome's key.
\<close>

theorem wait_keys_read_back:
  assumes "normalizeWaitId raw = Some i"
  shows "waitRegistrationKey raw = Inr (''waits/'' @ i) \<and>
    waitOutcomeKey raw = Inr (''wait-outcomes/'' @ i) \<and>
    waitIdFromKey (''waits/'' @ i) = Some i \<and> waitIdFromKey (''wait-outcomes/'' @ i) = Some i \<and>
    length i = 36 \<and> CHR ''/'' \<notin> set i \<and> CHR ''.'' \<notin> set i \<and>
    (\<forall>other. waitOutcomeKey other \<noteq> Inr (''waits/'' @ i))"
proof -
  have "UUID_test i" using assms by (rule normalizeWaitId_Some)
  then have "normalizeWaitId i = Some i" "length i = 36" "\<forall>c \<in> set i. id_char c"
    using UUID_test_chars(1) by (auto simp: normalizeWaitId_UUID) (simp add: UUID_test_def)
  moreover have "CHR ''/'' \<notin> set i" "CHR ''.'' \<notin> set i"
    using \<open>\<forall>c \<in> set i. id_char c\<close> id_char_no_separator by blast+
  ultimately show ?thesis
    using assms waitIdFromKey_prefix [of i] outcome_key_not_registration [of _ i]
    unfolding waitRegistrationKey_def waitOutcomeKey_def requireWaitId_def
      WAIT_REGISTRATION_PREFIX_def WAIT_OUTCOME_PREFIX_def
    by (intro conjI allI) simp_all
qed

definition raw_wait_id :: string where
  "raw_wait_id = '' 0A1B2C3D-0000-4000-8000-00000000000F ''"

lemma normalize_raw_wait_id:
  "normalizeWaitId raw_wait_id = Some ''0a1b2c3d-0000-4000-8000-00000000000f''"
  by code_simp

theorem wait_keys_read_back_witness:
  "waitRegistrationKey raw_wait_id = Inr ''waits/0a1b2c3d-0000-4000-8000-00000000000f'' \<and>
   waitIdFromKey ''waits/0a1b2c3d-0000-4000-8000-00000000000f''
     = Some ''0a1b2c3d-0000-4000-8000-00000000000f''"
  using wait_keys_read_back [OF normalize_raw_wait_id] by simp

subsection \<open>Deciding a signal\<close>

lemma validatePayload_schema_only:
  "sw_schema w = sw_schema w' \<Longrightarrow> validatePayload stop w payload = validatePayload stop w' payload"
proof -
  assume "sw_schema w = sw_schema w'"
  then have "payload_schema w = payload_schema w'" by (simp add: payload_schema_def)
  then show ?thesis by (simp only: validatePayload_def)
qed

lemma validatePayload_Inr_iff:
  "validatePayload stop w payload = Inr plain \<longleftrightarrow>
   payload = Some (JObj plain) \<and> length (json_stringify (JObj plain)) \<le> SIGNAL_PAYLOAD_MAX_BYTES \<and>
   structuralErrors (JObj plain) ''payload'' 1 = [] \<and>
   conforms (withDeclaredProperties (set_type ''object'' (sw_schema w))) (JObj plain)"
  by (auto simp: validatePayload_def Let_def payload_schema_valid split: option.splits json.splits if_splits)

lemma validatePayload_stop_irrelevant:
  "validatePayload stop w payload = Inr plain \<Longrightarrow> validatePayload stop' w payload = Inr plain"
  by (simp add: validatePayload_Inr_iff)

text \<open>
  The wait rebuilt from a registration judges a payload as the wait the step opened does.
\<close>

lemma waitOf_registrationOf:
  "is_uuid (sw_id w) \<Longrightarrow>
   \<exists>w'. waitOf is_uuid (registrationOf wid wname rid job step w t) = Inr w' \<and> sw_schema w' = sw_schema w"
  by (simp add: waitOf_def registrationOf_def wait_fromData_def valid_wait_def)

text \<open>
  Deciding a signal from the stored registration agrees with the wait the step opened: the signal
  is refused as expired exactly when the wait is expired, otherwise refused with the wait's own
  payload errors, and otherwise accepted with the payload as sent, under a receipt and an outcome
  that name this wait, its run and the instant of the decision.
\<close>

theorem decideSignal_agrees_with_wait:
  assumes "is_uuid (sw_id w)"
  shows "decideSignal is_uuid stop fresh (registrationOf wid wname rid job step w t) payload sender now ik =
    Inr (if isExpired w now then Refused_expired (sw_deadline w)
         else case validatePayload stop w payload of
           Inl errors \<Rightarrow> Refused_invalid_payload errors
         | Inr plain \<Rightarrow>
             Signal_accepted
               (Accepted \<lparr>wr_waitId = sw_id w, wr_workflowId = wid, wr_runId = rid, wr_deadline = sw_deadline w\<rparr> now
                 \<lparr>rc_id = fresh, rc_waitId = sw_id w, rc_receivedAt = now, rc_submittedBy = sender,
                  rc_idempotencyKey = ik, rc_heldAsPending = False\<rparr> plain))"
proof -
  define reg where "reg = registrationOf wid wname rid job step w t"
  obtain w' where w': "waitOf is_uuid reg = Inr w'" "sw_schema w' = sw_schema w"
    using waitOf_registrationOf assms unfolding reg_def by blast
  have fields: "isWaitExpired reg now \<longleftrightarrow> isExpired w now" "wr_deadline reg = sw_deadline w"
    "wr_waitId reg = sw_id w"
    "pick reg = \<lparr>wr_waitId = sw_id w, wr_workflowId = wid, wr_runId = rid, wr_deadline = sw_deadline w\<rparr>"
    by (simp_all add: reg_def registrationOf_def isWaitExpired_def isExpired_def pick_def
        wait_ref.truncate_def)
  show ?thesis
    unfolding decideSignal_def reg_def [symmetric] fields w'(1)
    using validatePayload_schema_only [OF w'(2)] by (simp split: sum.splits)
qed

theorem decideSignal_agrees_with_wait_witness:
  "(\<lambda>s. s = ''w'') (sw_id closed_wait) \<and>
   decideSignal (\<lambda>s. s = ''w'') False ''r'' (registrationOf ''f'' ''flow'' ''run'' ''job'' ''step'' closed_wait 0)
     (Some (JObj [(''ok'', JBool True)])) ''alice'' 500 None =
   Inr (Signal_accepted (Accepted
     \<lparr>wr_waitId = ''w'', wr_workflowId = ''f'', wr_runId = ''run'', wr_deadline = 1000\<rparr> 500
     \<lparr>rc_id = ''r'', rc_waitId = ''w'', rc_receivedAt = 500, rc_submittedBy = ''alice'',
      rc_idempotencyKey = None, rc_heldAsPending = False\<rparr> [(''ok'', JBool True)]))"
proof -
  have fields: "sw_id closed_wait = ''w''" "sw_deadline closed_wait = 1000"
    by (simp_all add: closed_wait_def)
  show ?thesis
    using decideSignal_agrees_with_wait [where is_uuid = "\<lambda>s. s = ''w''" and w = closed_wait and stop = False
        and fresh = "''r''" and payload = "Some (JObj [(''ok'', JBool True)])" and sender = "''alice''" and now = 500
        and ik = None and wid = "''f''" and wname = "''flow''" and rid = "''run''" and job = "''job''"
        and step = "''step''" and t = 0]
    by (simp add: closed_wait_accepts isExpired_def fields)
qed

end
