(* ===== verification/Step_Run.thy ===== *)
theory Step_Run
  imports Trigger_Condition Signal_Wait
begin

text \<open>
  \<^verbatim>\<open>StepRun\<close> of \<^verbatim>\<open>src/src/domain/workflows/workflow_run.ts\<close> with the links of
  \<^verbatim>\<open>nested_run_ref.ts\<close>: the record of one step in a run, every operation that changes it,
  and its stored form.

  A mutating method is a function to the changed record. One that reads the clock takes the instant
  as \<open>now\<close>. Zod's \<^verbatim>\<open>z.string().uuid()\<close> is the argument \<open>is_uuid\<close>.
\<close>

section \<open>Data\<close>

record approval_decision =
  ad_approved :: bool
  ad_reason :: "string option"
  ad_decidedBy :: "string option"
  ad_client :: "string option"
  ad_decidedAt :: time

datatype assert_severity = Low | Medium | High

record assert_result =
  ar_passed :: bool
  ar_expr :: string
  ar_message :: string
  ar_severity :: assert_severity
  ar_error :: "string option"

datatype skip_reason = Guarded "string option" | Dependency | Job_skipped

datatype failure_kind = Workflow_changed

record data_artifact_ref =
  da_dataId :: string
  da_name :: string
  da_version :: int
  da_tags :: "(string \<times> string) list"
  da_sha256 :: "string option"

record nested_run_ref =
  nr_workflowId :: string
  nr_workflowName :: string
  nr_runId :: string

text \<open>
  A value the record keeps as it was read: \<^verbatim>\<open>RunLink\<close> and \<^verbatim>\<open>StoredWait\<close>. The raw
  value either has the shape the schema asks for or is some other JSON; a value that fails the
  schema is kept as \<open>Broken\<close> with its raw form.
\<close>

datatype 'a raw = Typed 'a | Other json

datatype 'a kept = Valid 'a | Broken "'a raw"

definition parseKept :: "('a \<Rightarrow> bool) \<Rightarrow> 'a raw \<Rightarrow> 'a kept" where
  "parseKept ok raw = (case raw of Typed x \<Rightarrow> if ok x then Valid x else Broken raw | Other _ \<Rightarrow> Broken raw)"

definition persistedKept :: "'a kept \<Rightarrow> 'a raw" where
  "persistedKept k = (case k of Valid x \<Rightarrow> Typed x | Broken raw \<Rightarrow> raw)"

definition well_kept :: "('a \<Rightarrow> bool) \<Rightarrow> 'a kept \<Rightarrow> bool" where
  "well_kept ok k \<longleftrightarrow> (case k of Valid x \<Rightarrow> ok x | Broken (Typed x) \<Rightarrow> \<not> ok x | Broken (Other _) \<Rightarrow> True)"

lemma persisted_parse [simp]: "persistedKept (parseKept ok raw) = raw"
  by (simp add: persistedKept_def parseKept_def split: raw.splits)

lemma parse_persisted: "well_kept ok k \<Longrightarrow> parseKept ok (persistedKept k) = k"
  by (auto simp: well_kept_def persistedKept_def parseKept_def split: kept.splits raw.splits)

lemma well_kept_parse [simp]: "well_kept ok (parseKept ok raw)"
  by (simp add: well_kept_def parseKept_def split: raw.splits)

text \<open>\<^verbatim>\<open>workflowNameBase\<close> is the name schema of \<^verbatim>\<open>workflow.ts\<close>.\<close>

fun has_infix :: "string \<Rightarrow> string \<Rightarrow> bool" where
  "has_infix p [] \<longleftrightarrow> p = []"
| "has_infix p (c # cs) \<longleftrightarrow> take (length p) (c # cs) = p \<or> has_infix p cs"

definition name_segment :: "string \<Rightarrow> bool" where
  "name_segment s \<longleftrightarrow> s \<noteq> [] \<and>
     list_all (\<lambda>c. is_lower c \<or> is_digit c \<or> c = CHR ''_'' \<or> c = CHR ''-'') s"

definition scoped_name :: "string \<Rightarrow> bool" where
  "scoped_name name \<longleftrightarrow>
     (case js_split CHR ''/'' name of
        (a # scope) # rest \<Rightarrow> a = CHR ''@'' \<and> name_segment scope \<and> rest \<noteq> [] \<and> list_all name_segment rest
      | _ \<Rightarrow> False)"

definition workflow_name_ok :: "string \<Rightarrow> bool" where
  "workflow_name_ok name \<longleftrightarrow> name \<noteq> [] \<and>
     \<not> has_infix ''..'' name \<and> CHR 0x5C \<notin> set name \<and> CHR 0x00 \<notin> set name \<and>
     (CHR ''/'' \<in> set name \<longrightarrow> scoped_name name)"

definition valid_nested_run_ref :: "(string \<Rightarrow> bool) \<Rightarrow> nested_run_ref \<Rightarrow> bool" where
  "valid_nested_run_ref is_uuid r \<longleftrightarrow>
     is_uuid (nr_workflowId r) \<and> workflow_name_ok (nr_workflowName r) \<and> is_uuid (nr_runId r)"

record step_run =
  sr_stepName :: string
  sr_status :: run_status
  sr_startedAt :: "time option"
  sr_completedAt :: "time option"
  sr_error :: "string option"
  sr_output :: "json option"
  sr_dataArtifacts :: "data_artifact_ref list"
  sr_allowedFailure :: bool
  sr_approvalDecision :: "approval_decision option"
  sr_approvalPrompt :: "string option"
  sr_assertResult :: "assert_result option"
  sr_forEachTemplate :: "string option"
  sr_skipReason :: "skip_reason option"
  sr_resetByResume :: bool
  sr_failureKind :: "failure_kind option"
  sr_settledByAbort :: bool
  sr_nestedRun :: "nested_run_ref kept option"
  sr_detachedNestedRun :: bool
  sr_wait :: "signal_wait kept option"
  sr_approvalTimeout :: "rat option"
  sr_stoppedByAbort :: bool
  sr_errorCode :: "string option"

definition pending_step :: "string \<Rightarrow> string option \<Rightarrow> step_run" where
  "pending_step stepName forEachTemplate =
     \<lparr>sr_stepName = stepName, sr_status = Pending, sr_startedAt = None, sr_completedAt = None,
      sr_error = None, sr_output = None, sr_dataArtifacts = [], sr_allowedFailure = False,
      sr_approvalDecision = None, sr_approvalPrompt = None, sr_assertResult = None,
      sr_forEachTemplate = forEachTemplate, sr_skipReason = None, sr_resetByResume = False,
      sr_failureKind = None, sr_settledByAbort = False, sr_nestedRun = None,
      sr_detachedNestedRun = False, sr_wait = None, sr_approvalTimeout = None,
      sr_stoppedByAbort = False, sr_errorCode = None\<rparr>"

section \<open>Queries\<close>

definition isNestedWait :: "step_run \<Rightarrow> bool" where
  "isNestedWait s \<longleftrightarrow> sr_status s = Waiting_approval \<and> sr_nestedRun s \<noteq> None"

definition signalWait :: "step_run \<Rightarrow> signal_wait option" where
  "signalWait s = (case sr_wait s of Some (Valid w) \<Rightarrow> Some w | _ \<Rightarrow> None)"

definition isSignalWait :: "step_run \<Rightarrow> bool" where
  "isSignalWait s \<longleftrightarrow> sr_status s = Waiting_signal \<or> sr_status s = Waiting"

section \<open>Operations\<close>

definition recordApprovalDecision :: "approval_decision \<Rightarrow> step_run \<Rightarrow> step_run" where
  "recordApprovalDecision d s = s\<lparr>sr_approvalDecision := Some d\<rparr>"

definition recordAssertResult :: "assert_result \<Rightarrow> step_run \<Rightarrow> step_run" where
  "recordAssertResult r s = s\<lparr>sr_assertResult := Some r\<rparr>"

definition markAllowedFailure :: "step_run \<Rightarrow> step_run" where
  "markAllowedFailure s = s\<lparr>sr_allowedFailure := True\<rparr>"

definition addDataArtifact :: "data_artifact_ref \<Rightarrow> step_run \<Rightarrow> step_run" where
  "addDataArtifact a s = s\<lparr>sr_dataArtifacts := sr_dataArtifacts s @ [a]\<rparr>"

definition step_resetToPending :: "step_run \<Rightarrow> step_run" where
  "step_resetToPending s =
     s\<lparr>sr_status := Pending, sr_startedAt := None, sr_completedAt := None, sr_error := None,
       sr_errorCode := None, sr_output := None, sr_dataArtifacts := [], sr_allowedFailure := False,
       sr_approvalDecision := None, sr_approvalPrompt := None, sr_approvalTimeout := None,
       sr_assertResult := None, sr_skipReason := None, sr_resetByResume := False,
       sr_failureKind := None, sr_settledByAbort := False, sr_stoppedByAbort := False,
       sr_nestedRun := None, sr_detachedNestedRun := False, sr_wait := None\<rparr>"

definition revertUnrecordedStart :: "step_run \<Rightarrow> step_run" where
  "revertUnrecordedStart s =
     (if sr_status s \<noteq> Running then s else s\<lparr>sr_status := Pending, sr_startedAt := None\<rparr>)"

definition markResetByResume :: "step_run \<Rightarrow> step_run" where
  "markResetByResume s = s\<lparr>sr_resetByResume := True\<rparr>"

definition clearResetMarker :: "step_run \<Rightarrow> step_run" where
  "clearResetMarker s = s\<lparr>sr_resetByResume := False\<rparr>"

definition STRANDED_STEP_ERROR :: string where
  "STRANDED_STEP_ERROR =
     ''Not run: the workflow or a forEach collection changed since the run. Start a new run.''"

definition CANCELLED_STEP_ERROR :: string where
  "CANCELLED_STEP_ERROR = ''cancelled''"

definition WAIT_TIMEOUT_STEP_ERROR :: string where
  "WAIT_TIMEOUT_STEP_ERROR = ''wait_timeout''"

definition WAIT_UNREADABLE_STEP_ERROR :: string where
  "WAIT_UNREADABLE_STEP_ERROR = ''wait_unreadable''"

definition step_succeed :: "time \<Rightarrow> json option \<Rightarrow> step_run \<Rightarrow> step_run" where
  "step_succeed now output s =
     (let s' = s\<lparr>sr_status := Succeeded, sr_completedAt := Some now, sr_resetByResume := False\<rparr> in
      if output \<noteq> None then s'\<lparr>sr_output := output\<rparr> else s')"

definition step_fail :: "time \<Rightarrow> string \<Rightarrow> string option \<Rightarrow> step_run \<Rightarrow> step_run" where
  "step_fail now error code s =
     s\<lparr>sr_status := Failed, sr_completedAt := Some now, sr_error := Some error, sr_errorCode := code,
       sr_resetByResume := False\<rparr>"

definition step_markUnknown :: "time \<Rightarrow> string option \<Rightarrow> step_run \<Rightarrow> step_run" where
  "step_markUnknown now error s =
     (let s' = s\<lparr>sr_status := Unknown, sr_completedAt := Some now, sr_resetByResume := False\<rparr> in
      if error \<noteq> None then s'\<lparr>sr_error := error, sr_errorCode := None\<rparr> else s')"

definition step_skip :: "time \<Rightarrow> skip_reason option \<Rightarrow> step_run \<Rightarrow> step_run" where
  "step_skip now reason s =
     (let s' = s\<lparr>sr_status := Skipped, sr_completedAt := Some now, sr_resetByResume := False\<rparr> in
      if reason \<noteq> None then s'\<lparr>sr_skipReason := reason\<rparr> else s')"

definition failStranded :: "time \<Rightarrow> step_run \<Rightarrow> step_run" where
  "failStranded now s =
     (step_fail now STRANDED_STEP_ERROR None s)
       \<lparr>sr_allowedFailure := False, sr_failureKind := Some Workflow_changed\<rparr>"

definition failStoppedByAbort :: "time \<Rightarrow> string \<Rightarrow> string option \<Rightarrow> step_run \<Rightarrow> step_run" where
  "failStoppedByAbort now error code s = (step_fail now error code s)\<lparr>sr_stoppedByAbort := True\<rparr>"

definition cancelUnstarted :: "time \<Rightarrow> step_run \<Rightarrow> step_run" where
  "cancelUnstarted now s = (step_fail now CANCELLED_STEP_ERROR None s)\<lparr>sr_settledByAbort := True\<rparr>"

definition skipUnstarted :: "time \<Rightarrow> skip_reason \<Rightarrow> step_run \<Rightarrow> step_run" where
  "skipUnstarted now reason s = (step_skip now (Some reason) s)\<lparr>sr_settledByAbort := True\<rparr>"

definition cancelUndecidedApproval :: "time \<Rightarrow> step_run \<Rightarrow> step_run" where
  "cancelUndecidedApproval now s =
     (if sr_status s \<noteq> Waiting_approval then s
      else (step_fail now CANCELLED_STEP_ERROR None s)\<lparr>sr_settledByAbort := True\<rparr>)"

definition cancelOpenWait :: "time \<Rightarrow> step_run \<Rightarrow> step_run" where
  "cancelOpenWait now s =
     (if \<not> isSignalWait s then s
      else (step_fail now CANCELLED_STEP_ERROR None s)\<lparr>sr_settledByAbort := True\<rparr>)"

definition waitForSignal :: "signal_wait \<Rightarrow> step_run \<Rightarrow> step_run" where
  "waitForSignal w s = s\<lparr>sr_status := Waiting_signal, sr_resetByResume := False, sr_wait := Some (Valid w)\<rparr>"

definition canApplyWaitOutcome :: "bool \<Rightarrow> wait_outcome \<Rightarrow> step_run \<Rightarrow> bool" where
  "canApplyWaitOutcome stop outcome s =
     (case signalWait s of
        None \<Rightarrow> False
      | Some w \<Rightarrow>
          if \<not> isSignalWait s \<or> wr_waitId (outcome_ref outcome) \<noteq> sw_id w then False
          else case outcome of
            Accepted _ _ receipt payload \<Rightarrow>
              rc_waitId receipt = sw_id w \<and> \<not> isl (validatePayload stop w (Some (JObj payload)))
          | _ \<Rightarrow> True)"

text \<open>The object a settled wait leaves as the step's output.\<close>

definition receipt_json :: "(time \<Rightarrow> string) \<Rightarrow> signal_receipt \<Rightarrow> json" where
  "receipt_json iso_text r =
     JObj ([(''id'', JStr (rc_id r)), (''waitId'', JStr (rc_waitId r)),
            (''receivedAt'', JStr (iso_text (rc_receivedAt r))), (''submittedBy'', JStr (rc_submittedBy r))] @
           (case rc_idempotencyKey r of None \<Rightarrow> [] | Some k \<Rightarrow> [(''idempotencyKey'', JStr k)]) @
           (if rc_heldAsPending r then [(''heldAsPending'', JBool True)] else []))"

definition signal_output :: "(time \<Rightarrow> string) \<Rightarrow> json_object \<Rightarrow> signal_receipt \<Rightarrow> json" where
  "signal_output iso_text payload receipt =
     JObj [(''type'', JStr ''wait_for_signal''), (''payload'', JObj payload),
           (''signal'', receipt_json iso_text (receiptForCaller receipt))]"

text \<open>
  \<^verbatim>\<open>applyWaitOutcome\<close> answers whether the outcome was applied. \<open>iso_text\<close> is
  \<^verbatim>\<open>Date.prototype.toISOString\<close>.
\<close>

definition applyWaitOutcome ::
  "(time \<Rightarrow> string) \<Rightarrow> bool \<Rightarrow> time \<Rightarrow> wait_outcome \<Rightarrow> step_run \<Rightarrow> bool \<times> step_run" where
  "applyWaitOutcome iso_text stop now outcome s =
     (if \<not> canApplyWaitOutcome stop outcome s then (False, s)
      else let w = the (signalWait s) in
        case outcome of
          Accepted _ _ receipt payload \<Rightarrow>
            (case validatePayload stop w (Some (JObj payload)) of
               Inl _ \<Rightarrow> (False, s)
             | Inr plain \<Rightarrow>
                 (True, step_succeed now (Some (signal_output iso_text plain receipt))
                          (s\<lparr>sr_wait := Some (Valid (settledWith w receipt))\<rparr>)))
        | Timed_out _ _ \<Rightarrow> (True, step_fail now WAIT_TIMEOUT_STEP_ERROR None s)
        | Cancelled_wait _ _ \<Rightarrow> (True, cancelOpenWait now s))"

definition failUnreadableWait :: "time \<Rightarrow> step_run \<Rightarrow> bool \<times> step_run" where
  "failUnreadableWait now s =
     (if \<not> isSignalWait s \<or> signalWait s \<noteq> None then (False, s)
      else (True, step_fail now WAIT_UNREADABLE_STEP_ERROR None s))"

definition failUnusableOutcome :: "time \<Rightarrow> step_run \<Rightarrow> bool \<times> step_run" where
  "failUnusableOutcome now s =
     (if \<not> isSignalWait s then (False, s)
      else (True, step_fail now WAIT_UNREADABLE_STEP_ERROR None s))"

definition step_start :: "time \<Rightarrow> step_run \<Rightarrow> step_run" where
  "step_start now s = s\<lparr>sr_status := Running, sr_startedAt := Some now, sr_resetByResume := False\<rparr>"

definition waitForApproval :: "string option \<Rightarrow> rat option \<Rightarrow> step_run \<Rightarrow> step_run" where
  "waitForApproval prompt timeout s =
     (let s' = s\<lparr>sr_status := Waiting_approval, sr_resetByResume := False\<rparr>;
          s'' = (if prompt \<noteq> None then s'\<lparr>sr_approvalPrompt := prompt\<rparr> else s') in
      s''\<lparr>sr_approvalTimeout := timeout\<rparr>)"

definition waitForNestedRun :: "nested_run_ref \<Rightarrow> step_run \<Rightarrow> step_run" where
  "waitForNestedRun r s =
     s\<lparr>sr_status := Waiting_approval, sr_resetByResume := False, sr_nestedRun := Some (Valid r)\<rparr>"

definition rejectNested :: "time \<Rightarrow> approval_decision \<Rightarrow> string \<Rightarrow> step_run \<Rightarrow> step_run" where
  "rejectNested now d error s = step_fail now error None (s\<lparr>sr_approvalDecision := Some d\<rparr>)"

definition detachNestedRun :: "time \<Rightarrow> string \<Rightarrow> step_run \<Rightarrow> step_run" where
  "detachNestedRun now error s =
     (step_fail now error None s)\<lparr>sr_settledByAbort := True, sr_detachedNestedRun := True\<rparr>"

section \<open>The stored form\<close>

record step_run_data =
  sd_stepName :: string
  sd_status :: run_status
  sd_startedAt :: "time option"
  sd_completedAt :: "time option"
  sd_error :: "string option"
  sd_errorCode :: "string option"
  sd_output :: "json option"
  sd_dataArtifacts :: "data_artifact_ref list option"
  sd_allowedFailure :: "bool option"
  sd_approvalDecision :: "approval_decision option"
  sd_approvalPrompt :: "string option"
  sd_approvalTimeout :: "rat option"
  sd_assertResult :: "assert_result option"
  sd_forEachTemplate :: "string option"
  sd_skipReason :: "skip_reason option"
  sd_resetByResume :: "bool option"
  sd_failureKind :: "failure_kind option"
  sd_settledByAbort :: "bool option"
  sd_stoppedByAbort :: "bool option"
  sd_nestedRun :: "nested_run_ref raw option"
  sd_detachedNestedRun :: "bool option"
  sd_wait :: "signal_wait raw option"

definition truthy_text :: "string option \<Rightarrow> string option" where
  "truthy_text t = (if t = Some [] then None else t)"

definition step_toData :: "step_run \<Rightarrow> step_run_data" where
  "step_toData s =
     \<lparr>sd_stepName = sr_stepName s, sd_status = sr_status s, sd_startedAt = sr_startedAt s,
      sd_completedAt = sr_completedAt s, sd_error = sr_error s, sd_errorCode = sr_errorCode s,
      sd_output = sr_output s, sd_dataArtifacts = nonempty (sr_dataArtifacts s),
      sd_allowedFailure = flag (sr_allowedFailure s), sd_approvalDecision = sr_approvalDecision s,
      sd_approvalPrompt = sr_approvalPrompt s, sd_approvalTimeout = sr_approvalTimeout s,
      sd_assertResult = sr_assertResult s, sd_forEachTemplate = truthy_text (sr_forEachTemplate s),
      sd_skipReason = sr_skipReason s, sd_resetByResume = flag (sr_resetByResume s),
      sd_failureKind = sr_failureKind s, sd_settledByAbort = flag (sr_settledByAbort s),
      sd_stoppedByAbort = flag (sr_stoppedByAbort s), sd_nestedRun = map_option persistedKept (sr_nestedRun s),
      sd_detachedNestedRun = flag (sr_detachedNestedRun s), sd_wait = map_option persistedKept (sr_wait s)\<rparr>"

text \<open>What \<^verbatim>\<open>StepRunSchema\<close> asks of the values beyond their shape.\<close>

definition valid_sha256 :: "string \<Rightarrow> bool" where
  "valid_sha256 t \<longleftrightarrow> length t = 64 \<and> list_all is_hex_lower t"

definition valid_artifact :: "(string \<Rightarrow> bool) \<Rightarrow> data_artifact_ref \<Rightarrow> bool" where
  "valid_artifact is_uuid a \<longleftrightarrow> is_uuid (da_dataId a) \<and> da_name a \<noteq> [] \<and> da_version a > 0 \<and>
     (\<forall>t. da_sha256 a = Some t \<longrightarrow> valid_sha256 t)"

definition valid_step_data :: "(string \<Rightarrow> bool) \<Rightarrow> step_run_data \<Rightarrow> bool" where
  "valid_step_data is_uuid d \<longleftrightarrow> sd_stepName d \<noteq> [] \<and>
     list_all (valid_artifact is_uuid) (or_else [] (sd_dataArtifacts d)) \<and>
     (\<forall>t. sd_approvalTimeout d = Some t \<longrightarrow> t > 0)"

definition step_fromData :: "(string \<Rightarrow> bool) \<Rightarrow> step_run_data \<Rightarrow> step_run option" where
  "step_fromData is_uuid d =
     (if valid_step_data is_uuid d then
        Some \<lparr>sr_stepName = sd_stepName d, sr_status = sd_status d, sr_startedAt = sd_startedAt d,
          sr_completedAt = sd_completedAt d, sr_error = sd_error d, sr_output = sd_output d,
          sr_dataArtifacts = or_else [] (sd_dataArtifacts d),
          sr_allowedFailure = or_else False (sd_allowedFailure d),
          sr_approvalDecision = sd_approvalDecision d, sr_approvalPrompt = sd_approvalPrompt d,
          sr_assertResult = sd_assertResult d, sr_forEachTemplate = sd_forEachTemplate d,
          sr_skipReason = sd_skipReason d, sr_resetByResume = or_else False (sd_resetByResume d),
          sr_failureKind = sd_failureKind d, sr_settledByAbort = or_else False (sd_settledByAbort d),
          sr_nestedRun = map_option (parseKept (valid_nested_run_ref is_uuid)) (sd_nestedRun d),
          sr_detachedNestedRun = or_else False (sd_detachedNestedRun d),
          sr_wait = map_option (parseKept (valid_wait is_uuid)) (sd_wait d),
          sr_approvalTimeout = sd_approvalTimeout d,
          sr_stoppedByAbort = or_else False (sd_stoppedByAbort d), sr_errorCode = sd_errorCode d\<rparr>
      else None)"

text \<open>The records that can be stored and read back: those the schema accepts.\<close>

definition storable_step :: "(string \<Rightarrow> bool) \<Rightarrow> step_run \<Rightarrow> bool" where
  "storable_step is_uuid s \<longleftrightarrow> sr_stepName s \<noteq> [] \<and> sr_forEachTemplate s \<noteq> Some [] \<and>
     list_all (valid_artifact is_uuid) (sr_dataArtifacts s) \<and>
     (\<forall>t. sr_approvalTimeout s = Some t \<longrightarrow> t > 0) \<and>
     pred_option (well_kept (valid_nested_run_ref is_uuid)) (sr_nestedRun s) \<and>
     pred_option (well_kept (valid_wait is_uuid)) (sr_wait s)"

lemma map_option_parse_persisted:
  "pred_option (well_kept ok) x \<Longrightarrow> map_option (parseKept ok) (map_option persistedKept x) = x"
  by (cases x) (simp_all add: parse_persisted)

lemma step_round_trip: "storable_step is_uuid s \<Longrightarrow> step_fromData is_uuid (step_toData s) = Some s"
  by (cases s)
    (auto simp: storable_step_def step_fromData_def step_toData_def valid_step_data_def truthy_text_def
      map_option_parse_persisted)

interpretation step_store: stored_record step_toData "step_fromData is_uuid" "storable_step is_uuid"
  for is_uuid
  by unfold_locales (rule step_round_trip)

section \<open>What the operations do to the fields others read\<close>

lemmas step_op_defs =
  recordApprovalDecision_def recordAssertResult_def markAllowedFailure_def addDataArtifact_def
  step_resetToPending_def revertUnrecordedStart_def markResetByResume_def clearResetMarker_def
  step_succeed_def step_fail_def step_markUnknown_def step_skip_def failStranded_def
  failStoppedByAbort_def cancelUnstarted_def skipUnstarted_def cancelUndecidedApproval_def
  cancelOpenWait_def waitForSignal_def step_start_def waitForApproval_def waitForNestedRun_def
  rejectNested_def detachNestedRun_def

lemma step_names [step_run_simps, simp]:
  "sr_stepName (pending_step n t) = n"
  "sr_stepName (recordApprovalDecision d s) = sr_stepName s"
  "sr_stepName (recordAssertResult r s) = sr_stepName s"
  "sr_stepName (markAllowedFailure s) = sr_stepName s"
  "sr_stepName (addDataArtifact a s) = sr_stepName s"
  "sr_stepName (step_resetToPending s) = sr_stepName s"
  "sr_stepName (revertUnrecordedStart s) = sr_stepName s"
  "sr_stepName (markResetByResume s) = sr_stepName s"
  "sr_stepName (clearResetMarker s) = sr_stepName s"
  "sr_stepName (step_succeed now out s) = sr_stepName s"
  "sr_stepName (step_fail now e c s) = sr_stepName s"
  "sr_stepName (step_markUnknown now e' s) = sr_stepName s"
  "sr_stepName (step_skip now r' s) = sr_stepName s"
  "sr_stepName (failStranded now s) = sr_stepName s"
  "sr_stepName (failStoppedByAbort now e c s) = sr_stepName s"
  "sr_stepName (cancelUnstarted now s) = sr_stepName s"
  "sr_stepName (skipUnstarted now r'' s) = sr_stepName s"
  "sr_stepName (cancelUndecidedApproval now s) = sr_stepName s"
  "sr_stepName (cancelOpenWait now s) = sr_stepName s"
  "sr_stepName (waitForSignal w s) = sr_stepName s"
  "sr_stepName (step_start now s) = sr_stepName s"
  "sr_stepName (waitForApproval p tmo s) = sr_stepName s"
  "sr_stepName (waitForNestedRun nr s) = sr_stepName s"
  "sr_stepName (rejectNested now d e s) = sr_stepName s"
  "sr_stepName (detachNestedRun now e s) = sr_stepName s"
  by (simp_all add: step_op_defs pending_step_def Let_def)

lemma step_status [step_run_simps, simp]:
  "sr_status (pending_step n t) = Pending"
  "sr_status (recordApprovalDecision d s) = sr_status s"
  "sr_status (recordAssertResult r s) = sr_status s"
  "sr_status (markAllowedFailure s) = sr_status s"
  "sr_status (addDataArtifact a s) = sr_status s"
  "sr_status (step_resetToPending s) = Pending"
  "sr_status (markResetByResume s) = sr_status s"
  "sr_status (clearResetMarker s) = sr_status s"
  "sr_status (step_succeed now out s) = Succeeded"
  "sr_status (step_fail now e c s) = Failed"
  "sr_status (step_markUnknown now e' s) = Unknown"
  "sr_status (step_skip now r' s) = Skipped"
  "sr_status (failStranded now s) = Failed"
  "sr_status (failStoppedByAbort now e c s) = Failed"
  "sr_status (cancelUnstarted now s) = Failed"
  "sr_status (skipUnstarted now r'' s) = Skipped"
  "sr_status (waitForSignal w s) = Waiting_signal"
  "sr_status (step_start now s) = Running"
  "sr_status (waitForApproval p tmo s) = Waiting_approval"
  "sr_status (waitForNestedRun nr s) = Waiting_approval"
  "sr_status (rejectNested now d e s) = Failed"
  "sr_status (detachNestedRun now e s) = Failed"
  by (simp_all add: step_op_defs pending_step_def Let_def)

lemma applyWaitOutcome_name [step_run_simps, simp]:
  "sr_stepName (snd (applyWaitOutcome iso_text stop now out s)) = sr_stepName s"
  by (simp add: applyWaitOutcome_def Let_def step_succeed_def split: wait_outcome.splits sum.splits)

lemma failWait_name [step_run_simps, simp]:
  "sr_stepName (snd (failUnreadableWait now s)) = sr_stepName s"
  "sr_stepName (snd (failUnusableOutcome now s)) = sr_stepName s"
  by (simp_all add: failUnreadableWait_def failUnusableOutcome_def)

section \<open>The life of a step record\<close>

text \<open>One call on a step record, with any arguments; a wait that is begun is open.\<close>

inductive step_change :: "step_run \<Rightarrow> step_run \<Rightarrow> bool" where
  decide: "step_change s (recordApprovalDecision d s)"
| assert: "step_change s (recordAssertResult r s)"
| allow: "step_change s (markAllowedFailure s)"
| artifact: "step_change s (addDataArtifact a s)"
| reset: "step_change s (step_resetToPending s)"
| revert: "step_change s (revertUnrecordedStart s)"
| mark: "step_change s (markResetByResume s)"
| clear: "step_change s (clearResetMarker s)"
| stranded: "step_change s (failStranded now s)"
| stopped: "step_change s (failStoppedByAbort now e c s)"
| cancel: "step_change s (cancelUnstarted now s)"
| skip_unstarted: "step_change s (skipUnstarted now why s)"
| cancel_approval: "step_change s (cancelUndecidedApproval now s)"
| cancel_wait: "step_change s (cancelOpenWait now s)"
| wait: "\<not> isSettled w \<Longrightarrow> step_change s (waitForSignal w s)"
| outcome: "step_change s (snd (applyWaitOutcome iso_text stop now out s))"
| unreadable: "step_change s (snd (failUnreadableWait now s))"
| unusable: "step_change s (snd (failUnusableOutcome now s))"
| start: "step_change s (step_start now s)"
| approval: "step_change s (waitForApproval p tmo s)"
| nested: "step_change s (waitForNestedRun nr s)"
| reject: "step_change s (rejectNested now d e s)"
| detach: "step_change s (detachNestedRun now e s)"
| succeed: "step_change s (step_succeed now output s)"
| fail: "step_change s (step_fail now e c s)"
| unknown: "step_change s (step_markUnknown now e' s)"
| skip: "step_change s (step_skip now why' s)"

text \<open>
  What every record says about itself: a finished step has a completion time, a failed one an
  error, a running one a start time, a wait for a signal its wait, a detached nested run is marked
  as settled by the abort, an error code comes with an error, and a settled wait with an output.
\<close>

definition step_wf :: "step_run \<Rightarrow> bool" where
  "step_wf s \<longleftrightarrow>
     (sr_status s \<in> {Succeeded, Failed, Skipped, Unknown} \<longrightarrow> sr_completedAt s \<noteq> None) \<and>
     (sr_status s = Failed \<longrightarrow> sr_error s \<noteq> None) \<and>
     (sr_status s = Running \<longrightarrow> sr_startedAt s \<noteq> None) \<and>
     (isSignalWait s \<longrightarrow> signalWait s \<noteq> None) \<and>
     (sr_detachedNestedRun s \<longrightarrow> sr_settledByAbort s) \<and>
     (sr_errorCode s \<noteq> None \<longrightarrow> sr_error s \<noteq> None) \<and>
     (\<forall>w. signalWait s = Some w \<longrightarrow> isSettled w \<longrightarrow> sr_output s \<noteq> None)"

lemma step_wf_pending [simp]: "step_wf (pending_step n t)"
  by (simp add: step_wf_def pending_step_def isSignalWait_def signalWait_def)

lemma step_wf_ops:
  assumes "step_wf s"
  shows "step_wf (recordApprovalDecision d s)" "step_wf (recordAssertResult r s)"
    "step_wf (markAllowedFailure s)" "step_wf (addDataArtifact a s)" "step_wf (step_resetToPending s)"
    "step_wf (revertUnrecordedStart s)" "step_wf (markResetByResume s)" "step_wf (clearResetMarker s)"
    "step_wf (failStranded now s)" "step_wf (failStoppedByAbort now e c s)"
    "step_wf (cancelUnstarted now s)" "step_wf (skipUnstarted now why s)"
    "step_wf (cancelUndecidedApproval now s)" "step_wf (cancelOpenWait now s)"
    "\<not> isSettled w \<Longrightarrow> step_wf (waitForSignal w s)" "step_wf (step_start now s)"
    "step_wf (waitForApproval p tmo s)" "step_wf (waitForNestedRun nr s)" "step_wf (rejectNested now d e s)"
    "step_wf (detachNestedRun now e s)" "step_wf (step_succeed now output s)" "step_wf (step_fail now e c s)"
    "step_wf (step_markUnknown now e' s)" "step_wf (step_skip now why' s)"
  using assms
  by (simp_all add: step_wf_def step_op_defs Let_def isSignalWait_def signalWait_def)

lemma step_wf_applyWaitOutcome:
  assumes "step_wf s" shows "step_wf (snd (applyWaitOutcome iso_text stop now out s))"
proof (cases out)
  case (Accepted r t rc pl)
  show ?thesis
    using assms unfolding applyWaitOutcome_def Let_def Accepted
    by (simp add: step_wf_def step_succeed_def isSignalWait_def signalWait_def split: sum.splits)
qed (use assms in \<open>simp_all add: applyWaitOutcome_def Let_def step_wf_ops\<close>)

lemma step_wf_change: "step_change s s' \<Longrightarrow> step_wf s \<Longrightarrow> step_wf s'"
  by (induction rule: step_change.induct)
    (simp_all add: step_wf_ops step_wf_applyWaitOutcome failUnreadableWait_def failUnusableOutcome_def)

lemma step_name_change: "step_change s s' \<Longrightarrow> sr_stepName s' = sr_stepName s"
  by (induction rule: step_change.induct) simp_all

text \<open>C35.
  Whatever calls a step record goes through, in any order, it keeps its name and stays consistent:
  finished steps have a completion time, failed ones an error, running ones a start time, waiting
  ones their wait.
\<close>

theorem step_record_stays_wf:
  assumes "step_change\<^sup>*\<^sup>* (pending_step n t) s"
  shows "step_wf s \<and> sr_stepName s = n"
  using assms
proof (induction rule: rtranclp_induct)
  case (step s s')
  then show ?case by (simp add: step_wf_change step_name_change)
qed simp

theorem step_record_stays_wf_witness:
  "step_wf (step_fail 20 ''boom'' None (step_start 10 (pending_step ''build'' None)))"
proof -
  have "step_change\<^sup>*\<^sup>* (pending_step ''build'' None) (step_start 10 (pending_step ''build'' None))"
    by (rule r_into_rtranclp) (rule step_change.start)
  then have "step_change\<^sup>*\<^sup>* (pending_step ''build'' None)
     (step_fail 20 ''boom'' None (step_start 10 (pending_step ''build'' None)))"
    by (rule rtranclp.rtrancl_into_rtrancl) (rule step_change.fail)
  then show ?thesis using step_record_stays_wf by blast
qed

section \<open>An accepted signal\<close>

lemma decideSignal_accepted:
  assumes "decideSignal is_uuid stop fresh (registrationOf wid wname rid job step w t) payload sender now ik
      = Inr (Signal_accepted out)"
  shows "\<exists>plain. payload = Some (JObj plain) \<and> validatePayload stop w payload = Inr plain \<and> \<not> isExpired w now \<and>
     out = Accepted (pick (registrationOf wid wname rid job step w t)) now
       \<lparr>rc_id = fresh, rc_waitId = sw_id w, rc_receivedAt = now, rc_submittedBy = sender,
        rc_idempotencyKey = ik, rc_heldAsPending = False\<rparr> plain"
proof -
  obtain w' where w': "waitOf is_uuid (registrationOf wid wname rid job step w t) = Inr w'"
    using assms by (auto simp: decideSignal_def split: if_splits sum.splits)
  then have "sw_schema w' = sw_schema w"
    by (auto simp: waitOf_def wait_fromData_def registrationOf_def split: if_splits)
  then have same: "validatePayload stop w' payload = validatePayload stop w payload"
    by (rule validatePayload_schema_only)
  from assms w' same obtain plain where plain: "validatePayload stop w payload = Inr plain"
    by (auto simp: decideSignal_def split: if_splits sum.splits)
  then have "payload = Some (JObj plain)" by (simp add: validatePayload_Inr_iff)
  moreover have "\<not> isExpired w now" "out = Accepted (pick (registrationOf wid wname rid job step w t)) now
       \<lparr>rc_id = fresh, rc_waitId = sw_id w, rc_receivedAt = now, rc_submittedBy = sender,
        rc_idempotencyKey = ik, rc_heldAsPending = False\<rparr> plain"
    using assms w' same plain
    by (auto simp: decideSignal_def isWaitExpired_def isExpired_def registrationOf_def split: if_splits)
  ultimately show ?thesis using plain by blast
qed

text \<open>
  A signal accepted against a wait's registration is applied by the step that holds the wait,
  whichever argument policy reads it then: the step succeeds with the payload as it was sent, and
  its wait is settled by that signal's receipt.
\<close>

theorem accepted_signal_applies:
  assumes "isSignalWait s" and "signalWait s = Some w"
    and "decideSignal is_uuid stop fresh (registrationOf wid wname rid job step w t) (Some (JObj sent)) sender now ik
      = Inr (Signal_accepted out)"
  shows "\<exists>s' receipt. applyWaitOutcome iso_text stop' later out s = (True, s') \<and>
    sr_status s' = Succeeded \<and> sr_completedAt s' = Some later \<and>
    signalWait s' = Some (settledWith w receipt) \<and> rc_submittedBy receipt = sender \<and> rc_receivedAt receipt = now \<and>
    sr_output s' = Some (JObj [(''type'', JStr ''wait_for_signal''), (''payload'', JObj sent),
      (''signal'', receipt_json iso_text receipt)])"
proof -
  define receipt where "receipt = \<lparr>rc_id = fresh, rc_waitId = sw_id w, rc_receivedAt = now,
    rc_submittedBy = sender, rc_idempotencyKey = ik, rc_heldAsPending = False\<rparr>"
  have valid: "validatePayload stop w (Some (JObj sent)) = Inr sent"
    and out: "out = Accepted (pick (registrationOf wid wname rid job step w t)) now receipt sent"
    using decideSignal_accepted [OF assms(3)] by (auto simp: receipt_def)
  have valid': "validatePayload stop' w (Some (JObj sent)) = Inr sent"
    using valid by (rule validatePayload_stop_irrelevant)
  have wid: "wr_waitId (pick (registrationOf wid wname rid job step w t)) = sw_id w"
    by (simp add: pick_def registrationOf_def wait_ref.truncate_def)
  have "canApplyWaitOutcome stop' out s"
    using assms(1,2) valid' wid by (simp add: canApplyWaitOutcome_def out receipt_def)
  moreover have "receiptForCaller receipt = receipt"
    by (simp add: receiptForCaller_def receipt_def)
  ultimately have "applyWaitOutcome iso_text stop' later out s =
      (True, step_succeed later (Some (JObj [(''type'', JStr ''wait_for_signal''), (''payload'', JObj sent),
        (''signal'', receipt_json iso_text receipt)])) (s\<lparr>sr_wait := Some (Valid (settledWith w receipt))\<rparr>))"
    using assms(2) valid' by (simp add: applyWaitOutcome_def out signal_output_def)
  moreover have "rc_submittedBy receipt = sender" "rc_receivedAt receipt = now"
    by (simp_all add: receipt_def)
  ultimately show ?thesis
    by (simp add: step_succeed_def signalWait_def) blast
qed

theorem accepted_signal_applies_witness:
  "\<exists>out s'.
     decideSignal (\<lambda>s. s = ''w'') False ''r'' (registrationOf ''f'' ''flow'' ''run'' ''job'' ''gate'' closed_wait 0)
       (Some (JObj [(''ok'', JBool True)])) ''alice'' 500 None = Inr (Signal_accepted out) \<and>
     applyWaitOutcome int_text True 700 out (waitForSignal closed_wait (pending_step ''gate'' None)) = (True, s') \<and>
     sr_status s' = Succeeded"
proof -
  define s where "s = waitForSignal closed_wait (pending_step ''gate'' None)"
  have s: "isSignalWait s" "signalWait s = Some closed_wait"
    by (simp_all add: s_def isSignalWait_def signalWait_def waitForSignal_def)
  have fields: "sw_id closed_wait = ''w''" "sw_deadline closed_wait = 1000"
    by (simp_all add: closed_wait_def)
  obtain w' where w': "waitOf (\<lambda>s. s = ''w'') (registrationOf ''f'' ''flow'' ''run'' ''job'' ''gate'' closed_wait 0) = Inr w'"
    "sw_schema w' = sw_schema closed_wait"
    using waitOf_registrationOf [where w = closed_wait and is_uuid = "\<lambda>s. s = ''w''"] fields by blast
  obtain out where out:
    "decideSignal (\<lambda>s. s = ''w'') False ''r'' (registrationOf ''f'' ''flow'' ''run'' ''job'' ''gate'' closed_wait 0)
       (Some (JObj [(''ok'', JBool True)])) ''alice'' 500 None = Inr (Signal_accepted out)"
    using w'(1) validatePayload_schema_only [OF w'(2)] closed_wait_accepts
    by (simp add: decideSignal_def isWaitExpired_def registrationOf_def fields)
  with accepted_signal_applies [OF s out, of int_text True 700] show ?thesis
    unfolding s_def by blast
qed

end
