(* ===== verification/Fan_Out.thy ===== *)
theory Fan_Out
  imports Swamp_Prelude Signal_Wait
begin

text \<open>
  \<^verbatim>\<open>src/src/domain/remote/fan_out.ts\<close>, \<^verbatim>\<open>rollout.ts\<close>,
  \<^verbatim>\<open>scheduler.ts\<close> and the worker of \<^verbatim>\<open>worker_pool.ts\<close>: which worker takes a step,
  which workers a fan-out reaches, how its lanes are cut into batches and when the next batch may
  start.

  \<^verbatim>\<open>String.prototype.localeCompare\<close> is the argument \<open>localeCompare\<close>.
\<close>

section \<open>Workers and placement\<close>

datatype worker_status = Idle | Busy | Unverified | Draining | Disconnected

record pool_worker =
  pw_name :: string
  pw_instanceUuid :: string
  pw_labels :: "(string \<times> string) list"
  pw_platform :: string
  pw_arch :: string
  pw_status :: worker_status
  pw_connected :: bool

record schedulable_worker = pool_worker +
  pw_capacity :: int
  pw_activeDispatchIds :: "string list"

record step_placement =
  sp_target :: "string option"
  sp_labels :: "(string \<times> string) list option"
  sp_platform :: "string option"

datatype schedule_decision = Dispatch_to schedulable_worker | Queue

definition hasPlacement :: "step_placement option \<Rightarrow> bool" where
  "hasPlacement p \<longleftrightarrow>
     (case p of
        None \<Rightarrow> False
      | Some q \<Rightarrow> sp_target q \<noteq> None \<or> (sp_labels q \<noteq> None \<and> the (sp_labels q) \<noteq> []) \<or> sp_platform q \<noteq> None)"

definition matchesPlatform :: "('a) pool_worker_scheme \<Rightarrow> string \<Rightarrow> bool" where
  "matchesPlatform w required =
     (let parts = js_split CHR ''/'' required; platform = hd parts in
      if platform \<noteq> [] \<and> pw_platform w \<noteq> platform then False
      else length parts < 2 \<or> pw_arch w = parts ! 1)"

definition matchesLabels :: "('a) pool_worker_scheme \<Rightarrow> (string \<times> string) list \<Rightarrow> bool" where
  "matchesLabels w required \<longleftrightarrow> list_all (\<lambda>(k, v). map_of (pw_labels w) k = Some v) required"

definition eligible :: "step_placement \<Rightarrow> schedulable_worker \<Rightarrow> bool" where
  "eligible p w =
     (if \<not> pw_connected w then False
      else case sp_target p of
        Some t \<Rightarrow> if pw_status w = Draining then False else pw_name w = t \<or> pw_instanceUuid w = t
      | None \<Rightarrow>
          if pw_status w = Unverified \<or> pw_status w = Draining then False
          else if sp_labels p \<noteq> None \<and> \<not> matchesLabels w (the (sp_labels p)) then False
          else if sp_platform p \<noteq> None \<and> \<not> matchesPlatform w (the (sp_platform p)) then False
          else True)"

definition eligibleWorkers :: "step_placement \<Rightarrow> schedulable_worker list \<Rightarrow> schedulable_worker list" where
  "eligibleWorkers p pool = filter (eligible p) pool"

definition unmetPlacement :: "step_placement \<Rightarrow> schedulable_worker \<Rightarrow> string option" where
  "unmetPlacement p w =
     (case sp_target p of
        Some t \<Rightarrow> if pw_name w = t \<or> pw_instanceUuid w = t then None
                  else Some (''target '' @ [CHR 0x27] @ t @ [CHR 0x27])
      | None \<Rightarrow>
          (case find (\<lambda>(k, v). map_of (pw_labels w) k \<noteq> Some v)
                  (case sp_labels p of None \<Rightarrow> [] | Some ls \<Rightarrow> ls) of
             Some (k, v) \<Rightarrow> Some (''label '' @ k @ ''='' @ v)
           | None \<Rightarrow>
               if sp_platform p \<noteq> None \<and> \<not> matchesPlatform w (the (sp_platform p))
               then Some (''platform '' @ [CHR 0x27] @ the (sp_platform p) @ [CHR 0x27])
               else None))"

definition free_slots :: "schedulable_worker \<Rightarrow> int" where
  "free_slots w = pw_capacity w - int (length (pw_activeDispatchIds w))"

definition compare_workers ::
  "(string \<Rightarrow> string \<Rightarrow> int) \<Rightarrow> schedulable_worker \<Rightarrow> schedulable_worker \<Rightarrow> int" where
  "compare_workers localeCompare a b =
     (if free_slots a \<noteq> free_slots b then free_slots b - free_slots a
      else localeCompare (pw_name a) (pw_name b))"

definition schedulable :: "schedulable_worker \<Rightarrow> bool" where
  "schedulable w \<longleftrightarrow> pw_status w \<noteq> Unverified \<and> int (length (pw_activeDispatchIds w)) < pw_capacity w"

definition scheduleStep ::
  "(string \<Rightarrow> string \<Rightarrow> int) \<Rightarrow> step_placement \<Rightarrow> schedulable_worker list \<Rightarrow> schedule_decision" where
  "scheduleStep localeCompare p pool =
     (let ws = eligibleWorkers p pool in
      if ws = [] then Queue
      else case js_sort (compare_workers localeCompare) (filter schedulable ws) of
        [] \<Rightarrow> Queue
      | w # _ \<Rightarrow> Dispatch_to w)"

section \<open>Fan-out policy and plan\<close>

text \<open>A count or a percentage written as text.\<close>

datatype quantity = Count int | Percent string

definition digit_value :: "char \<Rightarrow> int" where
  "digit_value c = of_char c - 48"

definition parsePercent :: "string \<Rightarrow> int option" where
  "parsePercent v =
     (if v \<noteq> [] \<and> last v = CHR ''%'' \<and> 1 \<le> length (butlast v) \<and> length (butlast v) \<le> 3 \<and>
         list_all is_digit (butlast v)
      then Some (foldl (\<lambda>n c. 10 * n + digit_value c) 0 (butlast v)) else None)"

definition percent_ok :: "int \<Rightarrow> string \<Rightarrow> bool" where
  "percent_ok mn v \<longleftrightarrow> (\<exists>p. parsePercent v = Some p \<and> mn \<le> p \<and> p \<le> 100)"

definition batch_size_ok :: "quantity \<Rightarrow> bool" where
  "batch_size_ok q \<longleftrightarrow> (case q of Count n \<Rightarrow> n \<ge> 1 | Percent v \<Rightarrow> percent_ok 1 v)"

definition budget_ok :: "quantity \<Rightarrow> bool" where
  "budget_ok q \<longleftrightarrow> (case q of Count n \<Rightarrow> n \<ge> 0 | Percent v \<Rightarrow> percent_ok 0 v)"

record rollout_policy =
  ro_batches :: "quantity list"
  ro_maxFailures :: "quantity option"

definition is_rest :: "quantity \<Rightarrow> bool" where
  "is_rest q \<longleftrightarrow> q = Percent ''100%''"

definition rollout_policy_ok :: "rollout_policy \<Rightarrow> bool" where
  "rollout_policy_ok r \<longleftrightarrow> ro_batches r \<noteq> [] \<and> list_all batch_size_ok (ro_batches r) \<and>
     pred_option budget_ok (ro_maxFailures r) \<and>
     is_rest (last (ro_batches r)) \<and> \<not> list_ex is_rest (butlast (ro_batches r))"

datatype offline_policy = Offline_wait | Offline_skip | Offline_fail

record fan_out_policy =
  fp_offline :: offline_policy
  fp_minWorkers :: int
  fp_rollout :: "rollout_policy option"

definition fan_out_policy_ok :: "fan_out_policy \<Rightarrow> bool" where
  "fan_out_policy_ok p \<longleftrightarrow> fp_minWorkers p \<ge> 1 \<and> pred_option rollout_policy_ok (fp_rollout p)"

record fan_out_selector =
  fs_labels :: "(string \<times> string) list option"
  fs_platform :: "string option"

datatype disposition = Lane_dispatch | Lane_waiting | Lane_skipped | Lane_failed | Lane_excluded

datatype fan_out_reason = Reason_disconnected | Reason_unverified | Reason_draining

record fan_out_member =
  fm_worker :: string
  fm_instanceUuid :: string
  fm_disposition :: disposition
  fm_reason :: "fan_out_reason option"

datatype fan_out_plan =
    Planned "fan_out_member list" int "int option"
  | Refused int int

definition hasLane :: "('a) fan_out_member_scheme \<Rightarrow> bool" where
  "hasLane m \<longleftrightarrow> fm_disposition m = Lane_dispatch \<or> fm_disposition m = Lane_waiting"

text \<open>An \<open>Inl\<close> is the text of the error the code throws.\<close>

definition resolveMaxFailures :: "quantity option \<Rightarrow> int \<Rightarrow> string + int option" where
  "resolveMaxFailures budget plannedLanes =
     (case budget of
        None \<Rightarrow> Inr None
      | Some (Count n) \<Rightarrow> Inr (Some n)
      | Some (Percent v) \<Rightarrow>
          (case parsePercent v of
             None \<Rightarrow> Inl (''Invalid failure budget '' @ v)
           | Some pct \<Rightarrow> Inr (Some ((pct * plannedLanes) div 100))))"

definition fanOutMember :: "pool_worker \<Rightarrow> offline_policy \<Rightarrow> fan_out_member" where
  "fanOutMember w offline =
     (if pw_status w = Unverified \<or> pw_status w = Draining then
        \<lparr>fm_worker = pw_name w, fm_instanceUuid = pw_instanceUuid w, fm_disposition = Lane_excluded,
         fm_reason = Some (if pw_status w = Unverified then Reason_unverified else Reason_draining)\<rparr>
      else if \<not> pw_connected w \<or> pw_status w = Disconnected then
        \<lparr>fm_worker = pw_name w, fm_instanceUuid = pw_instanceUuid w,
         fm_disposition = (case offline of Offline_wait \<Rightarrow> Lane_waiting | Offline_skip \<Rightarrow> Lane_skipped
                           | Offline_fail \<Rightarrow> Lane_failed),
         fm_reason = Some Reason_disconnected\<rparr>
      else
        \<lparr>fm_worker = pw_name w, fm_instanceUuid = pw_instanceUuid w, fm_disposition = Lane_dispatch,
         fm_reason = None\<rparr>)"

definition selects :: "fan_out_selector \<Rightarrow> pool_worker \<Rightarrow> bool" where
  "selects sel w \<longleftrightarrow>
     (fs_labels sel = None \<or> matchesLabels w (the (fs_labels sel))) \<and>
     (fs_platform sel = None \<or> matchesPlatform w (the (fs_platform sel)))"

definition planFanOut :: "fan_out_selector \<Rightarrow> fan_out_policy \<Rightarrow> pool_worker list \<Rightarrow> string + fan_out_plan" where
  "planFanOut sel policy pool =
     (if \<not> distinct (map pw_name pool) then Inl ''Worker pool lists a worker more than once''
      else
        let members = map (\<lambda>w. fanOutMember w (fp_offline policy))
              (js_sort (\<lambda>a b. byCodeUnit (pw_name a) (pw_name b)) (filter (selects sel) pool));
            plannedLanes = int (length (filter hasLane members)) in
        if plannedLanes < fp_minWorkers policy then Inr (Refused plannedLanes (fp_minWorkers policy))
        else case resolveMaxFailures (Option.bind (fp_rollout policy) ro_maxFailures) plannedLanes of
          Inl e \<Rightarrow> Inl e
        | Inr mx \<Rightarrow> Inr (Planned members plannedLanes mx))"

section \<open>Rollout\<close>

text \<open>\<open>\<lceil>pct * lanes / 100\<rceil>\<close> in whole numbers.\<close>

definition batchSize :: "quantity \<Rightarrow> nat \<Rightarrow> string + int" where
  "batchSize sz lanes =
     (case sz of
        Count n \<Rightarrow> Inr n
      | Percent v \<Rightarrow>
          (case parsePercent v of
             None \<Rightarrow> Inl (''Invalid batch size '' @ v)
           | Some pct \<Rightarrow> Inr (- ((- (pct * int lanes)) div 100))))"

definition named :: "disposition \<Rightarrow> fan_out_member list \<Rightarrow> string list" where
  "named d members = js_sort byCodeUnit (map fm_worker (filter (\<lambda>m. fm_disposition m = d) members))"

definition lanes_of :: "fan_out_member list \<Rightarrow> string list" where
  "lanes_of members = named Lane_dispatch members @ named Lane_waiting members"

text \<open>
  The loop over the batch sizes: \<open>lane_count\<close> is the number of all lanes and \<open>rest\<close> the lanes from
  \<^verbatim>\<open>next\<close> on. A size of zero or less takes nothing.
\<close>

fun cut_batches :: "nat \<Rightarrow> quantity list \<Rightarrow> string list \<Rightarrow> string + string list list" where
  "cut_batches lane_count [] rest = Inr []"
| "cut_batches lane_count (sz # sizes) rest =
     (if rest = [] then Inr []
      else case (if sizes = [] then Inr (int (length rest))
                 else map_sum (\<lambda>e. e) (\<lambda>n. min n (int (length rest))) (batchSize sz lane_count)) of
        Inl e \<Rightarrow> Inl e
      | Inr n \<Rightarrow>
          if n > 0 then
            map_sum (\<lambda>e. e) ((#) (take (nat n) rest)) (cut_batches lane_count sizes (drop (nat n) rest))
          else cut_batches lane_count sizes rest)"

definition planBatches :: "fan_out_member list \<Rightarrow> quantity list option \<Rightarrow> string + string list list" where
  "planBatches members rollout =
     (let lanes = lanes_of members in
      if lanes = [] then Inr []
      else case rollout of None \<Rightarrow> Inr [lanes] | Some sizes \<Rightarrow> cut_batches (length lanes) sizes lanes)"

record planned_rollout =
  pr_batches :: "string list list"
  pr_maxFailures :: "int option"

record rollout_progress =
  rp_started :: "string set"
  rp_settled :: "string set"
  rp_failed :: "string set"

datatype rollout_decision = Start nat "string list" | Wait | Halt "string list" | Complete

fun find_index :: "('a \<Rightarrow> bool) \<Rightarrow> 'a list \<Rightarrow> nat option" where
  "find_index p [] = None"
| "find_index p (x # xs) = (if p x then Some 0 else map_option Suc (find_index p xs))"

definition all_settled :: "rollout_progress \<Rightarrow> string list list \<Rightarrow> bool" where
  "all_settled p batches \<longleftrightarrow> list_all (list_all (\<lambda>l. l \<in> rp_settled p)) batches"

definition nextBatch :: "rollout_progress \<Rightarrow> planned_rollout \<Rightarrow> rollout_decision" where
  "nextBatch p r =
     (let notStarted = (\<lambda>l. l \<notin> rp_started p) in
      if pr_maxFailures r \<noteq> None \<and> int (card (rp_failed p)) > the (pr_maxFailures r)
      then Halt (filter notStarted (concat (pr_batches r)))
      else case find_index (list_ex notStarted) (pr_batches r) of
        None \<Rightarrow> if all_settled p (pr_batches r) then Complete else Wait
      | Some current \<Rightarrow>
          if \<not> all_settled p (take current (pr_batches r)) then Wait
          else Start current (filter notStarted (pr_batches r ! current)))"

section \<open>Scheduling one step\<close>

text \<open>A worker that may take the step now.\<close>

definition can_take :: "step_placement \<Rightarrow> schedulable_worker \<Rightarrow> bool" where
  "can_take p w \<longleftrightarrow> eligible p w \<and> schedulable w"

context js_comparator
begin

lemma hd_js_sort_least:
  assumes "js_sort cmp xs = y # ys" "x \<in> set xs" shows "cmp y x \<le> 0 \<or> x = y"
proof -
  have "x \<in> set (y # ys)" using assms set_js_sort [of cmp xs] by simp
  moreover have "sorted_wrt (\<lambda>a b. cmp a b \<le> 0) (y # ys)"
    using sorted_js_sort [of xs] assms(1) by simp
  ultimately show ?thesis by auto
qed

end

text \<open>The order of the candidates, given one for the names.\<close>

locale worker_comparator =
  fixes localeCompare :: "string \<Rightarrow> string \<Rightarrow> int"
  assumes names_flip: "localeCompare x y \<le> 0 \<or> localeCompare y x \<le> 0"
    and names_trans: "localeCompare x y \<le> 0 \<Longrightarrow> localeCompare y z \<le> 0 \<Longrightarrow> localeCompare x z \<le> 0"

sublocale worker_comparator \<subseteq> by_slots: js_comparator "compare_workers localeCompare"
proof
  show "compare_workers localeCompare x y \<le> 0 \<or> compare_workers localeCompare y x \<le> 0" for x y
    using names_flip by (auto simp: compare_workers_def)
  show "compare_workers localeCompare x y \<le> 0 \<Longrightarrow> compare_workers localeCompare y z \<le> 0 \<Longrightarrow>
      compare_workers localeCompare x z \<le> 0" for x y z
    using names_trans by (auto simp: compare_workers_def split: if_splits)
qed

context worker_comparator
begin

lemma chosen_worker_best:
  assumes "scheduleStep localeCompare p pool = Dispatch_to w"
    and "w' \<in> set pool" "can_take p w'"
  shows "compare_workers localeCompare w w' \<le> 0 \<or> w' = w"
  using assms by_slots.hd_js_sort_least [of "filter schedulable (eligibleWorkers p pool)"]
  by (auto simp: scheduleStep_def Let_def can_take_def eligibleWorkers_def split: list.splits if_splits)

end

interpretation code_unit_workers: worker_comparator byCodeUnit
  by unfold_locales auto

lemma js_sort_Nil_iff [simp]: "js_sort cmp xs = [] \<longleftrightarrow> xs = []"
  by (metis length_0_conv length_js_sort)

lemma scheduleStep_Dispatch_mem:
  "scheduleStep localeCompare p pool = Dispatch_to w \<Longrightarrow> w \<in> set pool \<and> can_take p w"
proof -
  assume "scheduleStep localeCompare p pool = Dispatch_to w"
  then obtain ws where "js_sort (compare_workers localeCompare) (filter schedulable (eligibleWorkers p pool)) = w # ws"
    by (auto simp: scheduleStep_def Let_def split: list.splits if_splits)
  then have "w \<in> set (filter schedulable (eligibleWorkers p pool))"
    by (metis list.set_intros(1) set_js_sort)
  then show ?thesis by (simp add: can_take_def eligibleWorkers_def)
qed

lemma scheduleStep_Queue_iff: "scheduleStep localeCompare p pool = Queue \<longleftrightarrow> (\<forall>w \<in> set pool. \<not> can_take p w)"
proof
  assume "scheduleStep localeCompare p pool = Queue"
  then have "filter schedulable (eligibleWorkers p pool) = []"
    by (cases "js_sort (compare_workers localeCompare) (filter schedulable (eligibleWorkers p pool))")
      (auto simp: scheduleStep_def Let_def split: if_splits)
  then show "\<forall>w \<in> set pool. \<not> can_take p w"
    by (auto simp: can_take_def eligibleWorkers_def filter_empty_conv)
next
  assume "\<forall>w \<in> set pool. \<not> can_take p w"
  then show "scheduleStep localeCompare p pool = Queue"
    by (cases "scheduleStep localeCompare p pool") (auto dest: scheduleStep_Dispatch_mem)
qed

text \<open>
  A step queues exactly when no worker of the pool may take it; otherwise it goes to a worker that
  may, connected, matching the placement, not draining and under its capacity, and with a
  consistent name order no worker that may take it has more free slots, or as many and a smaller
  name.
\<close>

theorem scheduleStep_picks_best:
  assumes "worker_comparator localeCompare"
  shows "(scheduleStep localeCompare p pool = Queue \<longleftrightarrow> (\<forall>w \<in> set pool. \<not> can_take p w)) \<and>
    (\<forall>w. scheduleStep localeCompare p pool = Dispatch_to w \<longrightarrow>
       w \<in> set pool \<and> pw_connected w \<and> pw_status w \<noteq> Draining \<and> pw_status w \<noteq> Unverified \<and> 0 < free_slots w \<and>
       (sp_target p = None \<or> sp_target p = Some (pw_name w) \<or> sp_target p = Some (pw_instanceUuid w)) \<and>
       (\<forall>w' \<in> set pool. can_take p w' \<longrightarrow>
          free_slots w' < free_slots w \<or>
          free_slots w' = free_slots w \<and> localeCompare (pw_name w) (pw_name w') \<le> 0 \<or> w' = w))"
proof (intro conjI allI impI)
  show "(scheduleStep localeCompare p pool = Queue) = (\<forall>w \<in> set pool. \<not> can_take p w)"
    by (rule scheduleStep_Queue_iff)
next
  fix w assume w: "scheduleStep localeCompare p pool = Dispatch_to w"
  then have take: "w \<in> set pool" "can_take p w" using scheduleStep_Dispatch_mem by blast+
  then show "w \<in> set pool" "pw_connected w" "pw_status w \<noteq> Draining" "pw_status w \<noteq> Unverified" "0 < free_slots w"
    "sp_target p = None \<or> sp_target p = Some (pw_name w) \<or> sp_target p = Some (pw_instanceUuid w)"
    by (auto simp: can_take_def eligible_def schedulable_def free_slots_def split: if_splits option.splits)
  show "\<forall>w' \<in> set pool. can_take p w' \<longrightarrow>
      free_slots w' < free_slots w \<or>
      free_slots w' = free_slots w \<and> localeCompare (pw_name w) (pw_name w') \<le> 0 \<or> w' = w"
  proof (intro ballI impI)
    fix w' assume "w' \<in> set pool" "can_take p w'"
    then have "compare_workers localeCompare w w' \<le> 0 \<or> w' = w"
      by (rule worker_comparator.chosen_worker_best [OF assms w])
    then show "free_slots w' < free_slots w \<or>
        free_slots w' = free_slots w \<and> localeCompare (pw_name w) (pw_name w') \<le> 0 \<or> w' = w"
      by (auto simp: compare_workers_def split: if_splits)
  qed
qed

definition demo_worker :: "string \<Rightarrow> int \<Rightarrow> schedulable_worker" where
  "demo_worker name cap =
     \<lparr>pw_name = name, pw_instanceUuid = ''u-'' @ name, pw_labels = [], pw_platform = ''linux'', pw_arch = ''amd64'',
      pw_status = Idle, pw_connected = True, pw_capacity = cap, pw_activeDispatchIds = []\<rparr>"

theorem scheduleStep_picks_best_witness:
  "worker_comparator byCodeUnit \<and>
   scheduleStep byCodeUnit \<lparr>sp_target = None, sp_labels = None, sp_platform = Some ''linux''\<rparr>
     [demo_worker ''a'' 1, demo_worker ''b'' 2] = Dispatch_to (demo_worker ''b'' 2) \<and>
   demo_worker ''b'' 2 \<in> set [demo_worker ''a'' 1, demo_worker ''b'' 2] \<and> 0 < free_slots (demo_worker ''b'' 2)"
proof -
  have "scheduleStep byCodeUnit \<lparr>sp_target = None, sp_labels = None, sp_platform = Some ''linux''\<rparr>
     [demo_worker ''a'' 1, demo_worker ''b'' 2] = Dispatch_to (demo_worker ''b'' 2)"
    by code_simp
  then show ?thesis
    using scheduleStep_picks_best [OF code_unit_workers.worker_comparator_axioms] code_unit_workers.worker_comparator_axioms
    by blast
qed

section \<open>The plan of a fan-out\<close>

interpretation by_worker_name: js_comparator "\<lambda>a b. byCodeUnit (pw_name a) (pw_name b)"
  by unfold_locales auto

lemma fanOutMember_worker [simp]: "fm_worker (fanOutMember w off) = pw_name w"
  by (simp add: fanOutMember_def)

definition planned_members :: "fan_out_selector \<Rightarrow> fan_out_policy \<Rightarrow> pool_worker list \<Rightarrow> fan_out_member list" where
  "planned_members sel policy pool =
     map (\<lambda>w. fanOutMember w (fp_offline policy))
       (js_sort (\<lambda>a b. byCodeUnit (pw_name a) (pw_name b)) (filter (selects sel) pool))"

lemma planned_members_workers:
  assumes "distinct (map pw_name pool)"
  shows "map fm_worker (planned_members sel policy pool) = sorted_list_of_set (pw_name ` {w \<in> set pool. selects sel w})"
proof (rule sorted_distinct_set_unique)
  have "mset (map fm_worker (planned_members sel policy pool)) = mset (map pw_name (filter (selects sel) pool))"
    by (simp add: planned_members_def comp_def)
  moreover have "distinct (map pw_name (filter (selects sel) pool))"
    using assms by (simp add: distinct_map_filter)
  ultimately show "distinct (map fm_worker (planned_members sel policy pool))"
    by (metis mset_eq_imp_distinct_iff)
  show "sorted (map fm_worker (planned_members sel policy pool))"
    using by_worker_name.sorted_js_sort
    by (simp add: planned_members_def comp_def sorted_map)
  show "set (map fm_worker (planned_members sel policy pool)) =
      set (sorted_list_of_set (pw_name ` {w \<in> set pool. selects sel w}))"
    by (auto simp: planned_members_def)
qed simp_all

lemma percent_ok_bounds: "percent_ok mn v \<Longrightarrow> \<exists>p. parsePercent v = Some p \<and> mn \<le> p \<and> p \<le> 100"
  by (simp add: percent_ok_def)

lemma resolveMaxFailures_ok:
  assumes "pred_option budget_ok budget" "0 \<le> n"
  shows "\<exists>mx. resolveMaxFailures budget n = Inr mx \<and>
    (budget = None \<longleftrightarrow> mx = None) \<and> (\<forall>v k. budget = Some (Percent v) \<longrightarrow> mx = Some k \<longrightarrow> 0 \<le> k \<and> k \<le> n)"
proof (cases budget)
  case (Some q)
  show ?thesis
  proof (cases q)
    case (Percent v)
    then obtain p where "parsePercent v = Some p" "0 \<le> p" "p \<le> 100"
      using assms(1) Some percent_ok_bounds by (fastforce simp: budget_ok_def)
    moreover have "p * n div 100 \<le> n"
      using mult_right_mono [OF \<open>p \<le> 100\<close> assms(2)] by simp
    moreover have "0 \<le> p * n div 100"
      using \<open>0 \<le> p\<close> assms(2) by (simp add: pos_imp_zdiv_nonneg_iff)
    ultimately show ?thesis
      using Some Percent assms(2) by (simp add: resolveMaxFailures_def)
  qed (use Some in \<open>simp add: resolveMaxFailures_def\<close>)
qed (simp add: resolveMaxFailures_def)

lemma planFanOut_members:
  "planFanOut sel policy pool = Inr (Planned members lanes mx) \<Longrightarrow>
   distinct (map pw_name pool) \<and> members = planned_members sel policy pool \<and> lanes = int (length (filter hasLane members))"
  by (auto simp: planFanOut_def Let_def planned_members_def split: if_splits sum.splits)

text \<open>
  Planning over a pool of distinctly named workers with a well-formed policy never throws. A plan
  lists every worker the selector picks once, in name order, and reaches at least the minimum
  number of workers, which is at least one; a percentage budget never tolerates more lanes than
  there are. A refusal reports fewer lanes than the minimum.
\<close>

theorem planFanOut_reaches:
  assumes "distinct (map pw_name pool)" and "fan_out_policy_ok policy"
  shows "case planFanOut sel policy pool of
      Inl e \<Rightarrow> False
    | Inr (Refused live mn) \<Rightarrow> mn = fp_minWorkers policy \<and> live < mn \<and>
        live = int (card {w \<in> set pool. selects sel w \<and> hasLane (fanOutMember w (fp_offline policy))})
    | Inr (Planned members lanes mx) \<Rightarrow>
        map fm_worker members = sorted_list_of_set (pw_name ` {w \<in> set pool. selects sel w}) \<and>
        set members = (\<lambda>w. fanOutMember w (fp_offline policy)) ` {w \<in> set pool. selects sel w} \<and>
        lanes = int (length (filter hasLane members)) \<and> 1 \<le> fp_minWorkers policy \<and> fp_minWorkers policy \<le> lanes \<and>
        (\<forall>ro v k. fp_rollout policy = Some ro \<longrightarrow> ro_maxFailures ro = Some (Percent v) \<longrightarrow> mx = Some k \<longrightarrow>
           0 \<le> k \<and> k \<le> lanes)"
proof -
  define ms where "ms = planned_members sel policy pool"
  define n where "n = int (length (filter hasLane ms))"
  have budget: "pred_option budget_ok (Option.bind (fp_rollout policy) ro_maxFailures)"
    using assms(2) by (cases "fp_rollout policy") (auto simp: fan_out_policy_ok_def rollout_policy_ok_def)
  then obtain mx where mx: "resolveMaxFailures (Option.bind (fp_rollout policy) ro_maxFailures) n = Inr mx"
    "\<forall>v k. Option.bind (fp_rollout policy) ro_maxFailures = Some (Percent v) \<longrightarrow> mx = Some k \<longrightarrow> 0 \<le> k \<and> k \<le> n"
    using resolveMaxFailures_ok [OF budget, of n] by (auto simp: n_def)
  have plan: "planFanOut sel policy pool =
      (if n < fp_minWorkers policy then Inr (Refused n (fp_minWorkers policy)) else Inr (Planned ms n mx))"
    using assms(1) mx(1) by (simp add: planFanOut_def Let_def ms_def n_def planned_members_def)
  have "length (filter hasLane ms) =
      size (filter_mset (\<lambda>w. hasLane (fanOutMember w (fp_offline policy)))
        (mset (js_sort (\<lambda>a b. byCodeUnit (pw_name a) (pw_name b)) (filter (selects sel) pool))))"
    unfolding ms_def planned_members_def filter_map comp_def
    by (simp only: length_map mset_filter [symmetric] size_mset)
  also have "\<dots> = length (filter (\<lambda>w. selects sel w \<and> hasLane (fanOutMember w (fp_offline policy))) pool)"
    by (simp only: mset_js_sort mset_filter [symmetric] size_mset filter_filter)
  also have "\<dots> = card {w \<in> set pool. selects sel w \<and> hasLane (fanOutMember w (fp_offline policy))}"
    using assms(1) by (subst distinct_card [symmetric]) (auto simp: distinct_map intro!: arg_cong [where f = card])
  finally have "n = int (card {w \<in> set pool. selects sel w \<and> hasLane (fanOutMember w (fp_offline policy))})"
    by (simp add: n_def)
  moreover have "set ms = (\<lambda>w. fanOutMember w (fp_offline policy)) ` {w \<in> set pool. selects sel w}"
    by (auto simp: ms_def planned_members_def)
  ultimately show ?thesis
    using plan mx(2) planned_members_workers [OF assms(1), of sel policy] assms(2)
    by (simp add: ms_def [symmetric] n_def [symmetric] fan_out_policy_ok_def)
qed

definition demo_pool :: "pool_worker list" where
  "demo_pool =
     [\<lparr>pw_name = ''b'', pw_instanceUuid = ''2'', pw_labels = [], pw_platform = ''linux'', pw_arch = ''amd64'',
       pw_status = Idle, pw_connected = True\<rparr>,
      \<lparr>pw_name = ''a'', pw_instanceUuid = ''1'', pw_labels = [], pw_platform = ''linux'', pw_arch = ''amd64'',
       pw_status = Disconnected, pw_connected = False\<rparr>]"

definition demo_policy :: fan_out_policy where
  "demo_policy = \<lparr>fp_offline = Offline_wait, fp_minWorkers = 1,
     fp_rollout = Some \<lparr>ro_batches = [Count 1, Percent ''100%''], ro_maxFailures = Some (Percent ''50%'')\<rparr>\<rparr>"

lemma demo_policy_ok: "fan_out_policy_ok demo_policy"
proof -
  have "parsePercent ''100%'' = Some 100" "parsePercent ''50%'' = Some 50" by code_simp+
  then show ?thesis
    by (simp add: fan_out_policy_ok_def demo_policy_def rollout_policy_ok_def batch_size_ok_def budget_ok_def
        percent_ok_def is_rest_def)
qed

theorem planFanOut_reaches_witness:
  "distinct (map pw_name demo_pool) \<and> fan_out_policy_ok demo_policy \<and>
   (\<exists>members. planFanOut \<lparr>fs_labels = None, fs_platform = None\<rparr> demo_policy demo_pool = Inr (Planned members 2 (Some 1)) \<and>
      map fm_worker members =
        sorted_list_of_set (pw_name ` {w \<in> set demo_pool. selects \<lparr>fs_labels = None, fs_platform = None\<rparr> w}))"
proof -
  have plan: "planFanOut \<lparr>fs_labels = None, fs_platform = None\<rparr> demo_policy demo_pool =
      Inr (Planned [\<lparr>fm_worker = ''a'', fm_instanceUuid = ''1'', fm_disposition = Lane_waiting,
            fm_reason = Some Reason_disconnected\<rparr>,
          \<lparr>fm_worker = ''b'', fm_instanceUuid = ''2'', fm_disposition = Lane_dispatch, fm_reason = None\<rparr>] 2 (Some 1))"
    by code_simp
  have "distinct (map pw_name demo_pool)" by (simp add: demo_pool_def)
  then show ?thesis
    using planFanOut_reaches [OF _ demo_policy_ok, of demo_pool "\<lparr>fs_labels = None, fs_platform = None\<rparr>"]
      demo_policy_ok plan
    by simp
qed

section \<open>Batches\<close>

lemma batchSize_ok: "batch_size_ok sz \<Longrightarrow> \<exists>n. batchSize sz k = Inr n \<and> (0 < k \<longrightarrow> 1 \<le> n)"
proof (cases sz)
  case (Percent v)
  assume "batch_size_ok sz"
  with Percent obtain p where p: "parsePercent v = Some p" "1 \<le> p" by (auto simp: batch_size_ok_def percent_ok_def)
  have "1 \<le> - ((- (p * int k)) div 100)" if "0 < k"
  proof -
    have "p * int k > 0" using p(2) that by simp
    then have "(- (p * int k)) div 100 < 0" by (simp add: neg_imp_zdiv_neg_iff)
    then show ?thesis by simp
  qed
  with p Percent show ?thesis by (simp add: batchSize_def)
qed (simp add: batchSize_def batch_size_ok_def)

lemma cut_batches_partition:
  assumes "list_all batch_size_ok sizes" "sizes \<noteq> []" "length rest \<le> k"
  shows "\<exists>bs. cut_batches k sizes rest = Inr bs \<and> concat bs = rest \<and> [] \<notin> set bs \<and> length bs \<le> length sizes"
  using assms
proof (induction k sizes rest rule: cut_batches.induct)
  case (2 k sz sizes rest)
  show ?case
  proof (cases "rest = [] \<or> sizes = []")
    case True
    then show ?thesis by auto
  next
    case False
    then have "0 < k" using "2.prems"(3) by (cases rest) auto
    then obtain m where m: "batchSize sz k = Inr m" "1 \<le> m"
      using batchSize_ok [of sz k] "2.prems"(1) by auto
    define n where "n = min m (int (length rest))"
    have n: "0 < n" using m(2) False by (cases rest) (auto simp: n_def)
    have pick: "(if sizes = [] then Inr (int (length rest))
        else map_sum (\<lambda>e. e) (\<lambda>n. min n (int (length rest))) (batchSize sz k)) = (Inr n :: string + int)"
      using False m by (simp add: n_def)
    obtain bs where bs: "cut_batches k sizes (drop (nat n) rest) = Inr bs" "concat bs = drop (nat n) rest"
      "[] \<notin> set bs" "length bs \<le> length sizes"
      using "2.IH"(1) [OF _ pick n] False "2.prems" by (auto simp: le_diff_conv trans_le_add1)
    have "take (nat n) rest \<noteq> []" using n False by simp
    then show ?thesis using bs False pick n m by (simp add: n_def [symmetric])
  qed
qed simp

lemma planBatches_lanes:
  assumes "rollout = None \<or> (\<exists>ro. rollout = Some (ro_batches ro) \<and> rollout_policy_ok ro)"
  shows "\<exists>bs. planBatches members rollout = Inr bs \<and> concat bs = lanes_of members \<and> [] \<notin> set bs \<and>
    mset (concat bs) = mset (map fm_worker (filter hasLane members)) \<and>
    (\<forall>sizes. rollout = Some sizes \<longrightarrow> length bs \<le> length sizes)"
proof -
  have "filter_mset hasLane (mset ms) = filter_mset (\<lambda>m. fm_disposition m = Lane_dispatch) (mset ms) +
      filter_mset (\<lambda>m. fm_disposition m = Lane_waiting) (mset ms)" for ms :: "fan_out_member list"
    by (induction ms) (auto simp: hasLane_def)
  then have lanes: "mset (lanes_of members) = mset (map fm_worker (filter hasLane members))"
    by (simp add: lanes_of_def named_def)
  have "\<exists>bs. planBatches members rollout = Inr bs \<and> concat bs = lanes_of members \<and> [] \<notin> set bs \<and>
      (\<forall>sizes. rollout = Some sizes \<longrightarrow> length bs \<le> length sizes)"
  proof (cases "lanes_of members = [] \<or> rollout = None")
    case True
    then show ?thesis by (auto simp: planBatches_def Let_def)
  next
    case False
    with assms obtain ro where ro: "rollout = Some (ro_batches ro)" "rollout_policy_ok ro" by blast
    then show ?thesis
      using cut_batches_partition [of "ro_batches ro" "lanes_of members" "length (lanes_of members)"] False
      by (simp add: planBatches_def Let_def rollout_policy_ok_def)
  qed
  then show ?thesis using lanes by force
qed

text \<open>
  Under a well-formed rollout, and also with none, the batches are the lanes of the plan cut into
  non-empty pieces in order: every worker with a lane is in exactly one batch, connected ones
  before those waited for, and there are no more batches than the rollout lists.
\<close>

theorem planBatches_partition:
  assumes "rollout = None \<or> (\<exists>ro. rollout = Some (ro_batches ro) \<and> rollout_policy_ok ro)"
  shows "\<exists>bs. planBatches members rollout = Inr bs \<and> concat bs = lanes_of members \<and> [] \<notin> set bs \<and>
    mset (concat bs) = mset (map fm_worker (filter hasLane members)) \<and>
    (\<forall>sizes. rollout = Some sizes \<longrightarrow> length bs \<le> length sizes)"
  using assms by (rule planBatches_lanes)

theorem planBatches_partition_witness:
  "rollout_policy_ok (the (fp_rollout demo_policy)) \<and>
   (\<exists>bs. planBatches [] (Some (ro_batches (the (fp_rollout demo_policy)))) = Inr bs \<and> concat bs = lanes_of []) \<and>
   planBatches
     [\<lparr>fm_worker = ''c'', fm_instanceUuid = ''3'', fm_disposition = Lane_dispatch, fm_reason = None\<rparr>,
      \<lparr>fm_worker = ''a'', fm_instanceUuid = ''1'', fm_disposition = Lane_waiting, fm_reason = Some Reason_disconnected\<rparr>,
      \<lparr>fm_worker = ''b'', fm_instanceUuid = ''2'', fm_disposition = Lane_dispatch, fm_reason = None\<rparr>]
     (Some (ro_batches (the (fp_rollout demo_policy)))) = Inr [[''b''], [''c'', ''a'']]"
proof -
  have ok: "rollout_policy_ok (the (fp_rollout demo_policy))"
    using demo_policy_ok by (simp add: fan_out_policy_ok_def demo_policy_def)
  moreover have "planBatches
     [\<lparr>fm_worker = ''c'', fm_instanceUuid = ''3'', fm_disposition = Lane_dispatch, fm_reason = None\<rparr>,
      \<lparr>fm_worker = ''a'', fm_instanceUuid = ''1'', fm_disposition = Lane_waiting, fm_reason = Some Reason_disconnected\<rparr>,
      \<lparr>fm_worker = ''b'', fm_instanceUuid = ''2'', fm_disposition = Lane_dispatch, fm_reason = None\<rparr>]
     (Some (ro_batches (the (fp_rollout demo_policy)))) = Inr [[''b''], [''c'', ''a'']]"
    by code_simp
  ultimately show ?thesis
    using planBatches_partition [of "Some (ro_batches (the (fp_rollout demo_policy)))" "[]"] by blast
qed

section \<open>A rollout under way\<close>

text \<open>
  Lanes start only as the decision says, one at a time, each start consulting it again; a started
  lane settles, with or without failing.
\<close>

inductive rollout_step :: "planned_rollout \<Rightarrow> rollout_progress \<Rightarrow> rollout_progress \<Rightarrow> bool" for r where
  lane_starts: "nextBatch p r = Start b lanes \<Longrightarrow> l \<in> set lanes \<Longrightarrow>
     rollout_step r p (p\<lparr>rp_started := insert l (rp_started p)\<rparr>)"
| lane_succeeds: "l \<in> rp_started p \<Longrightarrow> l \<notin> rp_settled p \<Longrightarrow>
     rollout_step r p (p\<lparr>rp_settled := insert l (rp_settled p)\<rparr>)"
| lane_fails: "l \<in> rp_started p \<Longrightarrow> l \<notin> rp_settled p \<Longrightarrow>
     rollout_step r p (p\<lparr>rp_settled := insert l (rp_settled p), rp_failed := insert l (rp_failed p)\<rparr>)"

inductive_cases rollout_stepE: "rollout_step r p p'"

definition no_progress :: rollout_progress where
  "no_progress = \<lparr>rp_started = {}, rp_settled = {}, rp_failed = {}\<rparr>"

definition over_budget :: "planned_rollout \<Rightarrow> rollout_progress \<Rightarrow> bool" where
  "over_budget r p \<longleftrightarrow> (\<exists>k. pr_maxFailures r = Some k \<and> int (card (rp_failed p)) > k)"

text \<open>A lane of a batch is under way or done only when all earlier batches have settled.\<close>

definition rollout_inv :: "planned_rollout \<Rightarrow> rollout_progress \<Rightarrow> bool" where
  "rollout_inv r p \<longleftrightarrow>
     rp_failed p \<subseteq> rp_settled p \<and> rp_settled p \<subseteq> rp_started p \<and>
     rp_started p \<subseteq> set (concat (pr_batches r)) \<and>
     (\<forall>i j l. i < j \<longrightarrow> j < length (pr_batches r) \<longrightarrow> l \<in> set (pr_batches r ! j) \<longrightarrow> l \<in> rp_started p \<longrightarrow>
        set (pr_batches r ! i) \<subseteq> rp_settled p)"

lemma find_index_Some:
  "find_index f xs = Some i \<Longrightarrow> i < length xs \<and> f (xs ! i) \<and> (\<forall>j < i. \<not> f (xs ! j))"
proof (induction xs arbitrary: i)
  case (Cons x xs)
  show ?case
  proof (cases "f x")
    case False
    with Cons obtain k where k: "find_index f xs = Some k" "i = Suc k" by auto
    with Cons.IH have "k < length xs \<and> f (xs ! k) \<and> (\<forall>j < k. \<not> f (xs ! j))" by blast
    with k False show ?thesis by (auto simp: less_Suc_eq_0_disj)
  qed (use Cons in auto)
qed simp

lemma find_index_None: "find_index f xs = None \<longleftrightarrow> (\<forall>x \<in> set xs. \<not> f x)"
  by (induction xs) auto

lemma distinct_concat_index:
  assumes "distinct (concat xss)" "i < length xss" "j < length xss" "x \<in> set (xss ! i)" "x \<in> set (xss ! j)"
  shows "i = j"
  using assms
proof (induction xss arbitrary: i j)
  case (Cons xs xss)
  have apart: "\<And>k. k < length xss \<Longrightarrow> x \<in> set (xss ! k) \<Longrightarrow> x \<notin> set xs"
    using Cons.prems(1) by (auto dest: nth_mem)
  show ?case using Cons apart by (cases i; cases j) auto
qed simp

lemma nextBatch_Start:
  assumes "nextBatch p r = Start b lanes"
  shows "b < length (pr_batches r)" "lanes = filter (\<lambda>l. l \<notin> rp_started p) (pr_batches r ! b)" "lanes \<noteq> []"
    "\<forall>i < b. set (pr_batches r ! i) \<subseteq> rp_settled p" "\<not> over_budget r p"
proof -
  from assms have fi: "find_index (list_ex (\<lambda>l. l \<notin> rp_started p)) (pr_batches r) = Some b"
    and settled: "all_settled p (take b (pr_batches r))"
    and lanes: "lanes = filter (\<lambda>l. l \<notin> rp_started p) (pr_batches r ! b)"
    and budget: "\<not> (pr_maxFailures r \<noteq> None \<and> int (card (rp_failed p)) > the (pr_maxFailures r))"
    by (auto simp: nextBatch_def Let_def split: if_splits option.splits)
  show "b < length (pr_batches r)" using find_index_Some [OF fi] by blast
  then show "\<forall>i < b. set (pr_batches r ! i) \<subseteq> rp_settled p"
    using settled by (auto simp: all_settled_def list_all_iff subset_iff) (metis in_set_conv_nth length_take min.absorb4 nth_take)
  show "lanes \<noteq> []" using find_index_Some [OF fi] lanes by (auto simp: filter_empty_conv list_ex_iff)
  show "lanes = filter (\<lambda>l. l \<notin> rp_started p) (pr_batches r ! b)" by (rule lanes)
  show "\<not> over_budget r p" using budget by (auto simp: over_budget_def)
qed

lemma rollout_inv_step:
  assumes "rollout_step r p p'" "rollout_inv r p" "distinct (concat (pr_batches r))"
  shows "rollout_inv r p'"
  using assms(1,2)
proof (induction rule: rollout_step.induct)
  case (lane_starts p b lanes l)
  note start = nextBatch_Start [OF lane_starts(1)]
  have l: "l \<in> set (pr_batches r ! b)" using lane_starts(2) start(2) by simp
  then have mem: "l \<in> set (concat (pr_batches r))" using start(1) by (auto dest: nth_mem)
  have "set (pr_batches r ! i) \<subseteq> rp_settled p"
    if "i < j" "j < length (pr_batches r)" "l \<in> set (pr_batches r ! j)" for i j
    using distinct_concat_index [OF assms(3) that(2) start(1) that(3) l] start(4) that(1) by blast
  then show ?case using lane_starts(3) mem unfolding rollout_inv_def by auto
qed (unfold rollout_inv_def, fastforce+)

lemma rollout_inv_reachable:
  assumes "(rollout_step r)\<^sup>*\<^sup>* no_progress p" "distinct (concat (pr_batches r))"
  shows "rollout_inv r p"
  using assms(1)
proof (induction rule: rtranclp_induct)
  case base
  show ?case by (simp add: rollout_inv_def no_progress_def)
next
  case (step y z)
  then show ?case using rollout_inv_step assms(2) by blast
qed

text \<open>C12.
  In every state a rollout reaches, a lane has started only after every lane of all earlier batches
  settled; and while more lanes have failed than the budget allows, no step of the rollout starts
  a lane.
\<close>

theorem rollout_batches_in_order:
  assumes "(rollout_step r)\<^sup>*\<^sup>* no_progress p" and "distinct (concat (pr_batches r))"
  shows "(\<forall>i j l. i < j \<longrightarrow> j < length (pr_batches r) \<longrightarrow> l \<in> set (pr_batches r ! j) \<longrightarrow> l \<in> rp_started p \<longrightarrow>
       set (pr_batches r ! i) \<subseteq> rp_settled p) \<and>
    rp_failed p \<subseteq> rp_settled p \<and> rp_settled p \<subseteq> rp_started p \<and>
    (\<forall>p'. rollout_step r p p' \<longrightarrow> over_budget r p \<longrightarrow> rp_started p' = rp_started p)"
proof -
  have "rollout_inv r p" using assms by (rule rollout_inv_reachable)
  moreover have "rollout_step r p p' \<Longrightarrow> over_budget r p \<Longrightarrow> rp_started p' = rp_started p" for p'
    by (erule rollout_stepE) (auto dest: nextBatch_Start(5))
  ultimately show ?thesis by (simp add: rollout_inv_def)
qed

definition demo_rollout :: planned_rollout where
  "demo_rollout = \<lparr>pr_batches = [[''b''], [''c'', ''a'']], pr_maxFailures = Some 0\<rparr>"

definition demo_failed :: rollout_progress where
  "demo_failed = \<lparr>rp_started = {''b''}, rp_settled = {''b''}, rp_failed = {''b''}\<rparr>"

lemma demo_failed_reachable: "(rollout_step demo_rollout)\<^sup>*\<^sup>* no_progress demo_failed"
proof -
  have "nextBatch no_progress demo_rollout = Start 0 [''b'']"
    by (simp add: nextBatch_def no_progress_def demo_rollout_def all_settled_def)
  then have "rollout_step demo_rollout no_progress (no_progress\<lparr>rp_started := insert ''b'' (rp_started no_progress)\<rparr>)"
    by (rule lane_starts) simp
  moreover have "rollout_step demo_rollout (no_progress\<lparr>rp_started := insert ''b'' (rp_started no_progress)\<rparr>) demo_failed"
    using lane_fails [of "''b''" "no_progress\<lparr>rp_started := insert ''b'' (rp_started no_progress)\<rparr>" demo_rollout]
    by (simp add: no_progress_def demo_failed_def)
  ultimately show ?thesis by (meson converse_rtranclp_into_rtranclp r_into_rtranclp)
qed

theorem rollout_batches_in_order_witness:
  "distinct (concat (pr_batches demo_rollout)) \<and> over_budget demo_rollout demo_failed \<and>
   rp_failed demo_failed \<subseteq> rp_settled demo_failed \<and> rp_settled demo_failed \<subseteq> rp_started demo_failed"
proof -
  have "distinct (concat (pr_batches demo_rollout))" by (simp add: demo_rollout_def)
  moreover have "over_budget demo_rollout demo_failed"
    by (simp add: over_budget_def demo_rollout_def demo_failed_def)
  ultimately show ?thesis using rollout_batches_in_order [OF demo_failed_reachable] by blast
qed

lemma rollout_step_progress:
  assumes step: "rollout_step r p p'" and inv: "rollout_inv r p" and "distinct (concat (pr_batches r))"
  shows "card (rp_started p) + card (rp_settled p) < card (rp_started p') + card (rp_settled p')"
    "card (rp_started p') + card (rp_settled p') \<le> 2 * length (concat (pr_batches r))"
proof -
  have inv': "rollout_inv r p'" using rollout_inv_step [OF step inv assms(3)] .
  have fin: "finite (rp_started p)" "finite (rp_settled p)"
    using inv finite_subset unfolding rollout_inv_def by (metis List.finite_set)+
  have fresh: "nextBatch p r = Start b lanes \<Longrightarrow> l \<in> set lanes \<Longrightarrow> l \<notin> rp_started p" for b lanes l
    using nextBatch_Start(2) by fastforce
  show "card (rp_started p) + card (rp_settled p) < card (rp_started p') + card (rp_settled p')"
    using step fin by (elim rollout_stepE) (auto dest: fresh)
  have sub: "rp_started p' \<subseteq> set (concat (pr_batches r))" "rp_settled p' \<subseteq> set (concat (pr_batches r))"
    using inv' unfolding rollout_inv_def by blast+
  have "card (rp_started p') \<le> card (set (concat (pr_batches r)))"
    and "card (rp_settled p') \<le> card (set (concat (pr_batches r)))"
    using card_mono [OF List.finite_set] sub by blast+
  with card_length [of "concat (pr_batches r)"]
  show "card (rp_started p') + card (rp_settled p') \<le> 2 * length (concat (pr_batches r))" by linarith
qed

lemma rollout_stuck_decided:
  assumes inv: "rollout_inv r p" and stuck: "\<nexists>p'. rollout_step r p p'"
  shows "nextBatch p r = Complete \<and> rp_settled p = set (concat (pr_batches r)) \<and> \<not> over_budget r p \<or>
       nextBatch p r = Halt (filter (\<lambda>l. l \<notin> rp_started p) (concat (pr_batches r))) \<and> over_budget r p"
proof -
  have settled: "rp_started p \<subseteq> rp_settled p"
    using stuck lane_succeeds by blast
  show ?thesis
  proof (cases "over_budget r p")
    case True
    then show ?thesis by (auto simp: nextBatch_def over_budget_def Let_def)
  next
    case False
    have "find_index (list_ex (\<lambda>l. l \<notin> rp_started p)) (pr_batches r) = None"
    proof (rule ccontr)
      assume "find_index (list_ex (\<lambda>l. l \<notin> rp_started p)) (pr_batches r) \<noteq> None"
      then obtain b where b: "find_index (list_ex (\<lambda>l. l \<notin> rp_started p)) (pr_batches r) = Some b" by blast
      have "all_settled p (take b (pr_batches r))"
        using find_index_Some [OF b] settled
        by (force simp: all_settled_def list_all_length list_all_iff list_ex_iff)
      then have start: "nextBatch p r = Start b (filter (\<lambda>l. l \<notin> rp_started p) (pr_batches r ! b))"
        using b False by (auto simp: nextBatch_def over_budget_def Let_def)
      moreover obtain l where "l \<in> set (filter (\<lambda>l. l \<notin> rp_started p) (pr_batches r ! b))"
        using nextBatch_Start(3) [OF start] list.set_intros(1) by (metis list.exhaust)
      ultimately show False using stuck lane_starts by blast
    qed
    then have "set (concat (pr_batches r)) \<subseteq> rp_started p" by (auto simp: find_index_None list_ex_iff)
    with inv settled have eq: "rp_settled p = set (concat (pr_batches r))" unfolding rollout_inv_def by blast
    then have "all_settled p (pr_batches r)" by (auto simp: all_settled_def list_all_iff)
    then have "nextBatch p r = Complete"
      using False \<open>find_index _ _ = None\<close> by (auto simp: nextBatch_def over_budget_def Let_def)
    with eq False show ?thesis by blast
  qed
qed

text \<open>C26.
  A rollout is never stuck before its end: each step starts or settles one more lane, of finitely
  many, and in a reachable state where no step is possible the decision is that it is complete,
  with every lane settled and the budget kept, or that it halts, over budget, holding back exactly
  the lanes that never started.
\<close>

theorem rollout_ends:
  assumes "(rollout_step r)\<^sup>*\<^sup>* no_progress p" and "distinct (concat (pr_batches r))"
  shows "(\<forall>p'. rollout_step r p p' \<longrightarrow>
       card (rp_started p) + card (rp_settled p) < card (rp_started p') + card (rp_settled p') \<and>
       card (rp_started p') + card (rp_settled p') \<le> 2 * length (concat (pr_batches r))) \<and>
    ((\<nexists>p'. rollout_step r p p') \<longrightarrow>
       nextBatch p r = Complete \<and> rp_settled p = set (concat (pr_batches r)) \<and> \<not> over_budget r p \<or>
       nextBatch p r = Halt (filter (\<lambda>l. l \<notin> rp_started p) (concat (pr_batches r))) \<and> over_budget r p)"
  using rollout_step_progress [OF _ rollout_inv_reachable [OF assms] assms(2)]
    rollout_stuck_decided [OF rollout_inv_reachable [OF assms]]
  by blast

theorem rollout_ends_witness:
  "distinct (concat (pr_batches demo_rollout)) \<and> (\<nexists>p'. rollout_step demo_rollout demo_failed p') \<and>
   nextBatch demo_failed demo_rollout = Halt [''c'', ''a'']"
proof -
  have d: "distinct (concat (pr_batches demo_rollout))" by (simp add: demo_rollout_def)
  have stuck: "\<nexists>p'. rollout_step demo_rollout demo_failed p'"
    by (auto elim!: rollout_stepE simp: nextBatch_def demo_failed_def demo_rollout_def)
  have "over_budget demo_rollout demo_failed"
    by (simp add: over_budget_def demo_rollout_def demo_failed_def)
  with rollout_ends [OF demo_failed_reachable d] stuck
  have "nextBatch demo_failed demo_rollout =
      Halt (filter (\<lambda>l. l \<notin> rp_started demo_failed) (concat (pr_batches demo_rollout)))"
    by blast
  with d stuck show ?thesis by (simp add: demo_failed_def demo_rollout_def)
qed

end
