(* ===== verification/Job_Run.thy ===== *)
theory Job_Run
  imports Step_Run Fan_Out "HOL-Library.AList"
begin

text \<open>
  \<^verbatim>\<open>JobRun\<close> of \<^verbatim>\<open>src/src/domain/workflows/workflow_run.ts\<close>: the record of one job
  in a run with its steps and its fan-out plan. Step objects live in the job's array, so a change
  of a step found by name is an update of the first step of that name. An operation that reads the
  clock takes the instant as \<open>now\<close>.
\<close>

section \<open>Data\<close>

record fan_out_member_record = fan_out_member +
  fm_batch :: "nat option"

record 's fan_out_lane =
  fl_name :: string
  fl_worker :: string
  fl_instanceUuid :: string
  fl_steps :: "'s list"

record 's fan_out_plan_record =
  fpr_members :: "fan_out_member_record list"
  fpr_plannedLanes :: int
  fpr_maxFailures :: "int option"
  fpr_batches :: "string list list"
  fpr_lanes :: "'s fan_out_lane list"

record job_run =
  jr_jobName :: string
  jr_status :: run_status
  jr_startedAt :: "time option"
  jr_completedAt :: "time option"
  jr_steps :: "step_run list"
  jr_fanOutPlan :: "step_run fan_out_plan_record option"
  jr_forEachMappings :: "(string \<times> string list) list"

definition fanOutLaneName :: "string \<Rightarrow> string \<Rightarrow> string" where
  "fanOutLaneName jobName worker = jobName @ ''['' @ worker @ '']''"

definition pending_job :: "string \<Rightarrow> string list \<Rightarrow> job_run" where
  "pending_job jobName stepNames =
     \<lparr>jr_jobName = jobName, jr_status = Pending, jr_startedAt = None, jr_completedAt = None,
      jr_steps = map (\<lambda>n. pending_step n None) stepNames, jr_fanOutPlan = None, jr_forEachMappings = []\<rparr>"

section \<open>Queries\<close>

definition getStep :: "job_run \<Rightarrow> string \<Rightarrow> step_run option" where
  "getStep j name = find (\<lambda>s. sr_stepName s = name) (jr_steps j)"

text \<open>The status of a template from those of its expanded steps.\<close>

definition aggregate_status :: "run_status list \<Rightarrow> run_status" where
  "aggregate_status statuses =
     (if list_ex isUnfinishedStatus statuses then Running
      else if list_ex (\<lambda>s. s = Unknown) statuses then Unknown
      else if list_ex (\<lambda>s. s = Failed) statuses then Failed
      else if list_all (\<lambda>s. s = Succeeded) statuses then Succeeded
      else if list_all (\<lambda>s. s = Skipped) statuses then Skipped
      else Succeeded)"

definition job_getStatus :: "job_run \<Rightarrow> string \<Rightarrow> run_status option" where
  "job_getStatus j ref =
     (case getStep j ref of
        Some s \<Rightarrow> Some (sr_status s)
      | None \<Rightarrow>
          (case map_of (jr_forEachMappings j) ref of
             None \<Rightarrow> None
           | Some names \<Rightarrow>
               if names = [] then None
               else map_option aggregate_status
                      (those (map (\<lambda>n. map_option sr_status (getStep j n)) names))))"

definition skippedByGuard :: "job_run \<Rightarrow> string \<Rightarrow> bool" where
  "skippedByGuard j ref \<longleftrightarrow>
     (let names = (if getStep j ref \<noteq> None then [ref]
                   else case map_of (jr_forEachMappings j) ref of None \<Rightarrow> [] | Some ns \<Rightarrow> ns) in
      names \<noteq> [] \<and>
      list_all (\<lambda>n. case getStep j n of
                      Some s \<Rightarrow> (case sr_skipReason s of Some (Guarded _) \<Rightarrow> True | _ \<Rightarrow> False)
                    | None \<Rightarrow> False) names)"

definition hasForEachExpansion :: "job_run \<Rightarrow> string \<Rightarrow> bool" where
  "hasForEachExpansion j t \<longleftrightarrow> map_of (jr_forEachMappings j) t \<noteq> None"

definition holdsAbortedWork :: "job_run \<Rightarrow> bool" where
  "holdsAbortedWork j \<longleftrightarrow>
     list_ex sr_settledByAbort (jr_steps j) \<or>
     jr_status j = Unknown \<and> list_ex (\<lambda>s. sr_status s = Pending) (jr_steps j)"

section \<open>Operations\<close>

definition update_step :: "string \<Rightarrow> (step_run \<Rightarrow> step_run) \<Rightarrow> job_run \<Rightarrow> job_run" where
  "update_step name f j = j\<lparr>jr_steps := update_first (\<lambda>s. sr_stepName s = name) f (jr_steps j)\<rparr>"

definition addExpandedStep :: "string \<Rightarrow> job_run \<Rightarrow> job_run" where
  "addExpandedStep stepName j =
     (if find (\<lambda>s. sr_stepName s = stepName) (jr_steps j) = None
      then j\<lparr>jr_steps := jr_steps j @ [pending_step stepName None]\<rparr> else j)"

definition replaceExpandedSteps :: "string \<Rightarrow> string list \<Rightarrow> job_run \<Rightarrow> job_run" where
  "replaceExpandedSteps templateName expandedNames j =
     (case find_index (\<lambda>s. sr_stepName s = templateName) (jr_steps j) of
        None \<Rightarrow> j
      | Some i \<Rightarrow>
          let existing = map sr_stepName (jr_steps j);
              insertions = map (\<lambda>n. pending_step n (Some templateName))
                             (filter (\<lambda>n. n \<notin> set existing) expandedNames) in
          j\<lparr>jr_steps := take i (jr_steps j) @ insertions @ drop (Suc i) (jr_steps j)\<rparr>)"

definition registerForEachExpansion :: "string \<Rightarrow> string list \<Rightarrow> job_run \<Rightarrow> job_run" where
  "registerForEachExpansion templateName expandedNames j =
     j\<lparr>jr_forEachMappings := AList.update templateName expandedNames (jr_forEachMappings j)\<rparr>"

definition job_resetToPending :: "job_run \<Rightarrow> job_run" where
  "job_resetToPending j = j\<lparr>jr_status := Pending, jr_startedAt := None, jr_completedAt := None\<rparr>"

definition job_start :: "time \<Rightarrow> job_run \<Rightarrow> job_run" where
  "job_start now j = j\<lparr>jr_status := Running, jr_startedAt := Some now\<rparr>"

definition job_succeed :: "time \<Rightarrow> job_run \<Rightarrow> job_run" where
  "job_succeed now j = j\<lparr>jr_status := Succeeded, jr_completedAt := Some now\<rparr>"

definition job_fail :: "time \<Rightarrow> job_run \<Rightarrow> job_run" where
  "job_fail now j = j\<lparr>jr_status := Failed, jr_completedAt := Some now\<rparr>"

definition job_markUnknown :: "time \<Rightarrow> job_run \<Rightarrow> job_run" where
  "job_markUnknown now j = j\<lparr>jr_status := Unknown, jr_completedAt := Some now\<rparr>"

definition job_skip :: "time \<Rightarrow> job_run \<Rightarrow> job_run" where
  "job_skip now j =
     j\<lparr>jr_status := Skipped, jr_completedAt := Some now,
       jr_steps := map (\<lambda>s. if sr_status s = Pending then step_skip now (Some Job_skipped) s else s) (jr_steps j)\<rparr>"

text \<open>The two operations below return the changed steps with the job.\<close>

definition failStrandedResetSteps :: "time \<Rightarrow> job_run \<Rightarrow> step_run list \<times> job_run" where
  "failStrandedResetSteps now j =
     (map (failStranded now) (filter sr_resetByResume (jr_steps j)),
      j\<lparr>jr_steps := map (\<lambda>s. if sr_resetByResume s then failStranded now s else s) (jr_steps j)\<rparr>)"

definition cancelPendingStep :: "time \<Rightarrow> string \<Rightarrow> step_run list \<times> job_run \<Rightarrow> step_run list \<times> job_run" where
  "cancelPendingStep now name cj =
     (case getStep (snd cj) name of
        Some s \<Rightarrow>
          if sr_status s = Pending
          then (fst cj @ [cancelUnstarted now s], update_step name (cancelUnstarted now) (snd cj))
          else cj
      | None \<Rightarrow> cj)"

definition cancelPendingSteps :: "time \<Rightarrow> string list \<Rightarrow> job_run \<Rightarrow> step_run list \<times> job_run" where
  "cancelPendingSteps now names j = fold (cancelPendingStep now) names ([], j)"

definition skipNotStarted :: "time \<Rightarrow> job_run \<Rightarrow> job_run" where
  "skipNotStarted now j =
     job_skip now
       (j\<lparr>jr_steps := map (\<lambda>s. if sr_status s = Pending then skipUnstarted now Job_skipped s else s) (jr_steps j)\<rparr>)"

definition settleNotStarted :: "time \<Rightarrow> job_run \<Rightarrow> job_run" where
  "settleNotStarted now j =
     (if jr_status j \<noteq> Pending then j
      else if list_ex (\<lambda>s. sr_status s = Pending) (jr_steps j) then j
      else if list_ex (\<lambda>s. sr_status s = Failed) (jr_steps j) then job_fail now j
      else job_skip now j)"

definition settleNotResumed :: "time \<Rightarrow> job_run \<Rightarrow> job_run" where
  "settleNotResumed now j =
     (if jr_status j \<noteq> Running then j
      else if list_ex (\<lambda>s. sr_status s = Failed \<and> \<not> sr_allowedFailure s) (jr_steps j) then job_fail now j
      else if list_ex (\<lambda>s. isUnfinishedStatus (sr_status s)) (jr_steps j) then job_markUnknown now j
      else job_succeed now j)"

subsection \<open>The fan-out plan of a job\<close>

fun first_repeat :: "'a list \<Rightarrow> 'a list \<Rightarrow> 'a option" where
  "first_repeat seen [] = None"
| "first_repeat seen (x # xs) = (if x \<in> set seen then Some x else first_repeat (x # seen) xs)"

datatype plan_error =
    Already_planned string
  | In_two_batches string
  | Listed_twice string
  | Lane_in_no_batch string

definition batch_index :: "string list list \<Rightarrow> string \<Rightarrow> nat option" where
  "batch_index batches =
     map_of (concat (map (\<lambda>(i, batch). map (\<lambda>w. (w, i)) batch) (enumerate 0 batches)))"

definition member_record :: "string list list \<Rightarrow> fan_out_member \<Rightarrow> fan_out_member_record" where
  "member_record batches m =
     fan_out_member.extend m \<lparr>fm_batch = (if hasLane m then batch_index batches (fm_worker m) else None)\<rparr>"

definition lane_record :: "string \<Rightarrow> string list \<Rightarrow> fan_out_member list \<Rightarrow> string \<Rightarrow> step_run fan_out_lane list" where
  "lane_record jobName stepNames members worker =
     (case find (\<lambda>m. hasLane m \<and> fm_worker m = worker) members of
        None \<Rightarrow> []
      | Some m \<Rightarrow> [\<lparr>fl_name = fanOutLaneName jobName worker, fl_worker = worker,
                    fl_instanceUuid = fm_instanceUuid m,
                    fl_steps = map (\<lambda>n. pending_step n None) stepNames\<rparr>])"

definition recordFanOutPlan ::
  "fan_out_member list \<Rightarrow> int \<Rightarrow> int option \<Rightarrow> string list list \<Rightarrow> string list \<Rightarrow> job_run \<Rightarrow> plan_error + job_run" where
  "recordFanOutPlan members plannedLanes maxFailures batches stepNames j =
     (if jr_fanOutPlan j \<noteq> None then Inl (Already_planned (jr_jobName j))
      else case first_repeat [] (concat batches) of
        Some w \<Rightarrow> Inl (In_two_batches w)
      | None \<Rightarrow>
      (case first_repeat [] (map fm_worker members) of
        Some w \<Rightarrow> Inl (Listed_twice w)
      | None \<Rightarrow>
      (case find (\<lambda>w. batch_index batches w = None) (map fm_worker (filter hasLane members)) of
        Some w \<Rightarrow> Inl (Lane_in_no_batch w)
      | None \<Rightarrow>
          Inr (j\<lparr>jr_fanOutPlan := Some
                  \<lparr>fpr_members = map (member_record batches) members,
                   fpr_plannedLanes = plannedLanes, fpr_maxFailures = maxFailures, fpr_batches = batches,
                   fpr_lanes = concat (map (lane_record (jr_jobName j) stepNames members) (concat batches))\<rparr>\<rparr>))))"

section \<open>The stored form\<close>

record job_run_data =
  jd_jobName :: string
  jd_status :: run_status
  jd_startedAt :: "time option"
  jd_completedAt :: "time option"
  jd_steps :: "step_run_data list"
  jd_fanOutPlan :: "step_run_data fan_out_plan_record option"

definition lane_toData :: "step_run fan_out_lane \<Rightarrow> step_run_data fan_out_lane" where
  "lane_toData l = \<lparr>fl_name = fl_name l, fl_worker = fl_worker l, fl_instanceUuid = fl_instanceUuid l,
     fl_steps = map step_toData (fl_steps l)\<rparr>"

definition lane_fromData :: "(string \<Rightarrow> bool) \<Rightarrow> step_run_data fan_out_lane \<Rightarrow> step_run fan_out_lane option" where
  "lane_fromData is_uuid l =
     (if fl_name l = [] \<or> fl_worker l = [] \<or> fl_instanceUuid l = [] then None
      else map_option (\<lambda>steps. \<lparr>fl_name = fl_name l, fl_worker = fl_worker l,
                                fl_instanceUuid = fl_instanceUuid l, fl_steps = steps\<rparr>)
             (those (map (step_fromData is_uuid) (fl_steps l))))"

definition storable_lane :: "(string \<Rightarrow> bool) \<Rightarrow> step_run fan_out_lane \<Rightarrow> bool" where
  "storable_lane is_uuid l \<longleftrightarrow> fl_name l \<noteq> [] \<and> fl_worker l \<noteq> [] \<and> fl_instanceUuid l \<noteq> [] \<and>
     list_all (storable_step is_uuid) (fl_steps l)"

interpretation lane_store: stored_record lane_toData "lane_fromData is_uuid" "storable_lane is_uuid"
  for is_uuid
proof
  show "storable_lane is_uuid r \<Longrightarrow> lane_fromData is_uuid (lane_toData r) = Some r" for r
    using step_store.list_round_trip [of is_uuid "fl_steps r"]
    by (cases r) (simp add: lane_toData_def lane_fromData_def storable_lane_def)
qed

text \<open>What \<^verbatim>\<open>FanOutPlanRecordSchema\<close> asks of the values of a plan.\<close>

definition valid_plan :: "('s) fan_out_plan_record \<Rightarrow> bool" where
  "valid_plan p \<longleftrightarrow>
     list_all (\<lambda>m. fm_worker m \<noteq> [] \<and> fm_instanceUuid m \<noteq> []) (fpr_members p) \<and>
     0 \<le> fpr_plannedLanes p \<and> pred_option (\<lambda>k. 0 \<le> k) (fpr_maxFailures p) \<and>
     list_all (list_all (\<lambda>w. w \<noteq> [])) (fpr_batches p)"

definition plan_toData :: "step_run fan_out_plan_record \<Rightarrow> step_run_data fan_out_plan_record" where
  "plan_toData p = \<lparr>fpr_members = fpr_members p, fpr_plannedLanes = fpr_plannedLanes p,
     fpr_maxFailures = fpr_maxFailures p, fpr_batches = fpr_batches p, fpr_lanes = map lane_toData (fpr_lanes p)\<rparr>"

definition plan_fromData ::
  "(string \<Rightarrow> bool) \<Rightarrow> step_run_data fan_out_plan_record \<Rightarrow> step_run fan_out_plan_record option" where
  "plan_fromData is_uuid p =
     (if \<not> valid_plan p then None
      else map_option (\<lambda>lanes. \<lparr>fpr_members = fpr_members p, fpr_plannedLanes = fpr_plannedLanes p,
               fpr_maxFailures = fpr_maxFailures p, fpr_batches = fpr_batches p, fpr_lanes = lanes\<rparr>)
             (those (map (lane_fromData is_uuid) (fpr_lanes p))))"

definition storable_plan :: "(string \<Rightarrow> bool) \<Rightarrow> step_run fan_out_plan_record \<Rightarrow> bool" where
  "storable_plan is_uuid p \<longleftrightarrow> valid_plan p \<and> list_all (storable_lane is_uuid) (fpr_lanes p)"

interpretation plan_store: stored_record plan_toData "plan_fromData is_uuid" "storable_plan is_uuid"
  for is_uuid
proof
  show "storable_plan is_uuid r \<Longrightarrow> plan_fromData is_uuid (plan_toData r) = Some r" for r
    using lane_store.list_round_trip [of is_uuid "fpr_lanes r"]
    by (cases r) (simp add: plan_toData_def plan_fromData_def storable_plan_def valid_plan_def)
qed

definition job_toData :: "job_run \<Rightarrow> job_run_data" where
  "job_toData j =
     \<lparr>jd_jobName = jr_jobName j, jd_status = jr_status j, jd_startedAt = jr_startedAt j,
      jd_completedAt = jr_completedAt j, jd_steps = map step_toData (jr_steps j),
      jd_fanOutPlan = map_option plan_toData (jr_fanOutPlan j)\<rparr>"

definition job_fromData :: "(string \<Rightarrow> bool) \<Rightarrow> job_run_data \<Rightarrow> job_run option" where
  "job_fromData is_uuid d =
     (if jd_jobName d = [] then None
      else case those (map (step_fromData is_uuid) (jd_steps d)) of
        None \<Rightarrow> None
      | Some steps \<Rightarrow>
          (case map_option (plan_fromData is_uuid) (jd_fanOutPlan d) of
             Some None \<Rightarrow> None
           | plan \<Rightarrow>
               Some \<lparr>jr_jobName = jd_jobName d, jr_status = jd_status d, jr_startedAt = jd_startedAt d,
                     jr_completedAt = jd_completedAt d, jr_steps = steps,
                     jr_fanOutPlan = Option.bind plan (\<lambda>p. p), jr_forEachMappings = []\<rparr>))"

text \<open>The mappings of forEach templates are not stored: each expansion registers them again.\<close>

definition storable_job :: "(string \<Rightarrow> bool) \<Rightarrow> job_run \<Rightarrow> bool" where
  "storable_job is_uuid j \<longleftrightarrow> jr_jobName j \<noteq> [] \<and> list_all (storable_step is_uuid) (jr_steps j) \<and>
     pred_option (storable_plan is_uuid) (jr_fanOutPlan j)"

definition without_mappings :: "job_run \<Rightarrow> job_run" where
  "without_mappings j = j\<lparr>jr_forEachMappings := []\<rparr>"

lemma job_read_back:
  assumes "storable_job is_uuid j" shows "job_fromData is_uuid (job_toData j) = Some (without_mappings j)"
proof -
  have steps: "those (map (step_fromData is_uuid) (map step_toData (jr_steps j))) = Some (jr_steps j)"
    using assms by (intro step_store.list_round_trip) (simp add: storable_job_def)
  have plan: "map_option (plan_fromData is_uuid) (map_option plan_toData (jr_fanOutPlan j)) =
      map_option Some (jr_fanOutPlan j)"
    using assms by (cases "jr_fanOutPlan j") (simp_all add: storable_job_def plan_store.round_trip)
  show ?thesis
    using assms steps plan
    by (cases "jr_fanOutPlan j") (auto simp: job_fromData_def job_toData_def storable_job_def without_mappings_def)
qed

interpretation job_store: stored_record job_toData "job_fromData is_uuid"
  "\<lambda>j. storable_job is_uuid j \<and> jr_forEachMappings j = []" for is_uuid
  by unfold_locales (simp add: job_read_back without_mappings_def)

section \<open>What the operations do\<close>

lemmas job_op_defs =
  job_resetToPending_def job_start_def job_succeed_def job_fail_def job_markUnknown_def

lemma job_names [job_run_simps, simp]:
  "jr_jobName (pending_job n ss) = n"
  "jr_jobName (update_step s f j) = jr_jobName j"
  "jr_jobName (addExpandedStep s j) = jr_jobName j"
  "jr_jobName (replaceExpandedSteps s ns j) = jr_jobName j"
  "jr_jobName (registerForEachExpansion s ns j) = jr_jobName j"
  "jr_jobName (job_resetToPending j) = jr_jobName j" "jr_jobName (job_start now j) = jr_jobName j"
  "jr_jobName (job_succeed now j) = jr_jobName j" "jr_jobName (job_fail now j) = jr_jobName j"
  "jr_jobName (job_markUnknown now j) = jr_jobName j" "jr_jobName (job_skip now j) = jr_jobName j"
  "jr_jobName (snd (failStrandedResetSteps now j)) = jr_jobName j"
  "jr_jobName (skipNotStarted now j) = jr_jobName j" "jr_jobName (settleNotStarted now j) = jr_jobName j"
  "jr_jobName (settleNotResumed now j) = jr_jobName j"
  by (simp_all add: pending_job_def update_step_def addExpandedStep_def replaceExpandedSteps_def
      registerForEachExpansion_def job_op_defs job_skip_def failStrandedResetSteps_def skipNotStarted_def
      settleNotStarted_def settleNotResumed_def Let_def split: option.splits)

lemma job_status [job_run_simps, simp]:
  "jr_status (pending_job n ss) = Pending" "jr_status (update_step s f j) = jr_status j"
  "jr_status (job_resetToPending j) = Pending" "jr_status (job_start now j) = Running"
  "jr_status (job_succeed now j) = Succeeded" "jr_status (job_fail now j) = Failed"
  "jr_status (job_markUnknown now j) = Unknown" "jr_status (job_skip now j) = Skipped"
  "jr_status (addExpandedStep s j) = jr_status j" "jr_status (skipNotStarted now j) = Skipped"
  by (simp_all add: pending_job_def update_step_def addExpandedStep_def job_op_defs job_skip_def skipNotStarted_def)

lemma job_steps [job_run_simps, simp]:
  "jr_steps (job_resetToPending j) = jr_steps j" "jr_steps (job_start now j) = jr_steps j"
  "jr_steps (job_succeed now j) = jr_steps j" "jr_steps (job_fail now j) = jr_steps j"
  "jr_steps (job_markUnknown now j) = jr_steps j"
  by (simp_all add: job_op_defs)

definition step_names_of :: "job_run \<Rightarrow> string list" where
  "step_names_of j = map sr_stepName (jr_steps j)"

lemma step_names_simps [job_run_simps, simp]:
  "step_names_of (pending_job n ss) = ss"
  "(\<And>s. sr_stepName (f s) = sr_stepName s) \<Longrightarrow> step_names_of (update_step a f j) = step_names_of j"
  "step_names_of (job_resetToPending j) = step_names_of j" "step_names_of (job_start now j) = step_names_of j"
  "step_names_of (job_succeed now j) = step_names_of j" "step_names_of (job_fail now j) = step_names_of j"
  "step_names_of (job_markUnknown now j) = step_names_of j" "step_names_of (job_skip now j) = step_names_of j"
  "step_names_of (skipNotStarted now j) = step_names_of j" "step_names_of (settleNotStarted now j) = step_names_of j"
  "step_names_of (settleNotResumed now j) = step_names_of j"
  "step_names_of (snd (failStrandedResetSteps now j)) = step_names_of j"
  by (auto simp: step_names_of_def pending_job_def update_step_def update_first_map_eq job_op_defs job_skip_def
      skipNotStarted_def settleNotStarted_def settleNotResumed_def failStrandedResetSteps_def comp_def)

section \<open>Expanding a template\<close>

lemma find_index_take_drop:
  "find_index f xs = Some i \<Longrightarrow> xs = take i xs @ xs ! i # drop (Suc i) xs"
  using find_index_Some id_take_nth_drop by blast

text \<open>
  Replacing a forEach template by its expansion removes the template's record, keeps every other
  step record as it is and in order, adds one pending record that names the template for each
  expanded name that had none, and keeps step names distinct.
\<close>

theorem replaceExpandedSteps_expands:
  assumes "distinct (step_names_of j)" and "distinct names" and "t \<in> set (step_names_of j)"
  shows "distinct (step_names_of (replaceExpandedSteps t names j)) \<and>
    set (step_names_of (replaceExpandedSteps t names j)) = (set (step_names_of j) \<union> set names) - {t} \<and>
    filter (\<lambda>s. sr_stepName s \<in> set (step_names_of j)) (jr_steps (replaceExpandedSteps t names j)) =
      filter (\<lambda>s. sr_stepName s \<noteq> t) (jr_steps j) \<and>
    (\<forall>s \<in> set (jr_steps (replaceExpandedSteps t names j)). sr_stepName s \<notin> set (step_names_of j) \<longrightarrow>
       s = pending_step (sr_stepName s) (Some t))"
proof -
  obtain i where i: "find_index (\<lambda>s. sr_stepName s = t) (jr_steps j) = Some i"
    using assms(3) find_index_None [of "\<lambda>s. sr_stepName s = t" "jr_steps j"]
    by (cases "find_index (\<lambda>s. sr_stepName s = t) (jr_steps j)") (auto simp: step_names_of_def)
  define before where "before = take i (jr_steps j)"
  define after where "after = drop (Suc i) (jr_steps j)"
  define old where "old = jr_steps j ! i"
  have split: "jr_steps j = before @ old # after" and old: "sr_stepName old = t"
    using find_index_take_drop [OF i] find_index_Some [OF i] by (auto simp: before_def after_def old_def)
  define fresh where "fresh = filter (\<lambda>n. n \<notin> set (step_names_of j)) names"
  have result: "jr_steps (replaceExpandedSteps t names j) =
      before @ map (\<lambda>n. pending_step n (Some t)) fresh @ after"
    using i by (simp add: replaceExpandedSteps_def Let_def before_def after_def fresh_def step_names_of_def)
  have rest: "t \<notin> sr_stepName ` set before" "t \<notin> sr_stepName ` set after"
    using assms(1) old by (auto simp: step_names_of_def split)
  have names: "step_names_of (replaceExpandedSteps t names j) =
      map sr_stepName before @ fresh @ map sr_stepName after"
    by (simp add: step_names_of_def result comp_def)
  have olds: "step_names_of j = map sr_stepName before @ t # map sr_stepName after"
    by (simp add: step_names_of_def split old)
  have "distinct (step_names_of (replaceExpandedSteps t names j))"
    using assms(1,2) unfolding names by (auto simp: fresh_def olds)
  moreover have "set (step_names_of (replaceExpandedSteps t names j)) = (set (step_names_of j) \<union> set names) - {t}"
    using rest unfolding names by (auto simp: fresh_def olds)
  moreover have "filter (\<lambda>s. sr_stepName s \<in> set (step_names_of j)) (jr_steps (replaceExpandedSteps t names j)) =
      filter (\<lambda>s. sr_stepName s \<noteq> t) (jr_steps j)"
  proof -
    have "filter (\<lambda>s. sr_stepName s \<in> set (step_names_of j)) (map (\<lambda>n. pending_step n (Some t)) fresh) = []"
      by (auto simp: filter_empty_conv fresh_def)
    moreover have "filter (\<lambda>s. sr_stepName s \<in> set (step_names_of j)) before = before"
      "filter (\<lambda>s. sr_stepName s \<in> set (step_names_of j)) after = after"
      "filter (\<lambda>s. sr_stepName s \<noteq> t) before = before" "filter (\<lambda>s. sr_stepName s \<noteq> t) after = after"
      using rest by (auto simp: filter_id_conv step_names_of_def split)
    ultimately show ?thesis using old by (simp add: result split)
  qed
  moreover have "\<forall>s \<in> set (jr_steps (replaceExpandedSteps t names j)). sr_stepName s \<notin> set (step_names_of j) \<longrightarrow>
       s = pending_step (sr_stepName s) (Some t)"
    by (auto simp: result step_names_of_def split)
  ultimately show ?thesis by blast
qed

theorem replaceExpandedSteps_expands_witness:
  "step_names_of (replaceExpandedSteps ''t'' [''x'', ''y''] (pending_job ''j'' [''a'', ''t'', ''y''])) = [''a'', ''x'', ''y''] \<and>
   distinct (step_names_of (replaceExpandedSteps ''t'' [''x'', ''y''] (pending_job ''j'' [''a'', ''t'', ''y''])))"
proof -
  have "distinct (step_names_of (pending_job ''j'' [''a'', ''t'', ''y'']))" "distinct [''x'', ''y'']"
    "''t'' \<in> set (step_names_of (pending_job ''j'' [''a'', ''t'', ''y'']))" by simp_all
  then have "distinct (step_names_of (replaceExpandedSteps ''t'' [''x'', ''y''] (pending_job ''j'' [''a'', ''t'', ''y''])))"
    using replaceExpandedSteps_expands by blast
  moreover have "step_names_of (replaceExpandedSteps ''t'' [''x'', ''y''] (pending_job ''j'' [''a'', ''t'', ''y'']))
      = [''a'', ''x'', ''y'']"
    by code_simp
  ultimately show ?thesis by blast
qed

section \<open>Recording a fan-out plan\<close>

lemma first_repeat_None_iff: "first_repeat seen xs = None \<longleftrightarrow> distinct xs \<and> set xs \<inter> set seen = {}"
  by (induction xs arbitrary: seen) auto

lemma batch_index_None_iff: "batch_index batches w = None \<longleftrightarrow> w \<notin> set (concat batches)"
proof -
  have "w \<in> set (concat batches) \<longleftrightarrow> (\<exists>b \<in> snd ` set (enumerate 0 batches). w \<in> set b)"
    by (simp add: snd_set_enumerate)
  then show ?thesis
    by (simp add: batch_index_def map_of_eq_None_iff image_iff case_prod_unfold)
qed

lemma batch_index_Some: "batch_index batches w = Some i \<Longrightarrow> i < length batches \<and> w \<in> set (batches ! i)"
  by (auto simp: batch_index_def case_prod_unfold in_set_enumerate_eq dest!: map_of_SomeD)

lemma lane_record_workers:
  assumes "\<forall>w \<in> set ws. \<exists>m \<in> set members. hasLane m \<and> fm_worker m = w"
  shows "map fl_worker (concat (map (lane_record job steps members) ws)) = ws"
  using assms
proof (induction ws)
  case (Cons w ws)
  then have "find (\<lambda>m. hasLane m \<and> fm_worker m = w) members \<noteq> None" by (auto simp: find_None_iff)
  then have "map fl_worker (lane_record job steps members w) = [w]" by (auto simp: lane_record_def)
  with Cons show ?case by simp
qed simp

lemma recordFanOutPlan_ok:
  assumes "jr_fanOutPlan j = None" and dm: "distinct (map fm_worker members)" and db: "distinct (concat batches)"
    and set_flat: "set (concat batches) = fm_worker ` set (filter hasLane members)"
  shows "\<exists>j' p. recordFanOutPlan members lanes mx batches stepNames j = Inr j' \<and> jr_fanOutPlan j' = Some p \<and>
    map fl_worker (fpr_lanes p) = concat batches \<and>
    (\<forall>l \<in> set (fpr_lanes p). fl_steps l = map (\<lambda>n. pending_step n None) stepNames) \<and>
    (\<forall>m \<in> set (fpr_members p). hasLane m \<longrightarrow>
       (\<exists>i. fm_batch m = Some i \<and> i < length batches \<and> fm_worker m \<in> set (batches ! i)))"
proof -
  have none: "find (\<lambda>w. batch_index batches w = None) (map fm_worker (filter hasLane members)) = None"
    "first_repeat [] (concat batches) = None" "first_repeat [] (map fm_worker members) = None"
    using set_flat dm db by (auto simp: find_None_iff batch_index_None_iff first_repeat_None_iff)
  define p where "p = \<lparr>fpr_members = map (member_record batches) members, fpr_plannedLanes = lanes,
     fpr_maxFailures = mx, fpr_batches = batches,
     fpr_lanes = concat (map (lane_record (jr_jobName j) stepNames members) (concat batches))\<rparr>"
  have "recordFanOutPlan members lanes mx batches stepNames j = Inr (j\<lparr>jr_fanOutPlan := Some p\<rparr>)"
    unfolding recordFanOutPlan_def none p_def using assms(1) by simp
  moreover have "map fl_worker (fpr_lanes p) = concat batches"
    unfolding p_def using set_flat by (auto intro!: lane_record_workers)
  moreover have "\<forall>l \<in> set (fpr_lanes p). fl_steps l = map (\<lambda>n. pending_step n None) stepNames"
    by (auto simp: p_def lane_record_def split: option.splits)
  moreover have "\<forall>m \<in> set (fpr_members p). hasLane m \<longrightarrow>
       (\<exists>i. fm_batch m = Some i \<and> i < length batches \<and> fm_worker m \<in> set (batches ! i))"
  proof (clarsimp simp: p_def)
    fix m assume m: "m \<in> set members" "hasLane (member_record batches m)"
    then have "hasLane m" by (simp add: member_record_def hasLane_def fan_out_member.extend_def)
    moreover from this m(1) obtain i where "batch_index batches (fm_worker m) = Some i"
      using set_flat batch_index_None_iff [of batches "fm_worker m"] by fastforce
    ultimately show "\<exists>i. fm_batch (member_record batches m) = Some i \<and> i < length batches \<and>
        fm_worker (member_record batches m) \<in> set (batches ! i)"
      using batch_index_Some by (simp add: member_record_def fan_out_member.extend_def)
  qed
  ultimately show ?thesis by (intro exI [of _ "j\<lparr>jr_fanOutPlan := Some p\<rparr>"] exI [of _ p]) simp
qed

text \<open>
  A plan made by the scheduler with the batches cut from it is always recorded: the job then holds
  one lane per planned lane, in batch order, all of its steps pending, and every member with a lane
  is recorded with the batch that lists it.
\<close>

theorem planned_fan_out_is_recorded:
  assumes "fan_out_policy_ok policy" and "planFanOut sel policy pool = Inr (Planned members lanes mx)"
    and "planBatches members (map_option ro_batches (fp_rollout policy)) = Inr batches"
    and "jr_fanOutPlan j = None"
  shows "\<exists>j' p. recordFanOutPlan members lanes mx batches stepNames j = Inr j' \<and> jr_fanOutPlan j' = Some p \<and>
    map fl_worker (fpr_lanes p) = concat batches \<and> int (length (fpr_lanes p)) = lanes \<and>
    (\<forall>l \<in> set (fpr_lanes p). fl_steps l = map (\<lambda>n. pending_step n None) stepNames) \<and>
    (\<forall>m \<in> set (fpr_members p). hasLane m \<longrightarrow>
       (\<exists>i. fm_batch m = Some i \<and> i < length batches \<and> fm_worker m \<in> set (batches ! i)))"
proof -
  have members: "distinct (map pw_name pool)" "members = planned_members sel policy pool"
    "lanes = int (length (filter hasLane members))"
    using planFanOut_members [OF assms(2)] by blast+
  have "map_option ro_batches (fp_rollout policy) = None \<or>
      (\<exists>ro. map_option ro_batches (fp_rollout policy) = Some (ro_batches ro) \<and> rollout_policy_ok ro)"
    using assms(1) by (cases "fp_rollout policy") (auto simp: fan_out_policy_ok_def)
  from planBatches_lanes [OF this, of members] assms(3)
  have flat: "mset (concat batches) = mset (map fm_worker (filter hasLane members))" by auto
  have dm: "distinct (map fm_worker members)"
    using planned_members_workers [OF members(1), of sel policy] members(2) by simp
  then have db: "distinct (concat batches)"
    using flat by (metis distinct_map_filter mset_eq_imp_distinct_iff)
  have set_flat: "set (concat batches) = fm_worker ` set (filter hasLane members)"
    using mset_eq_setD [OF flat] by simp
  have len: "int (length (concat batches)) = lanes"
    using mset_eq_length [OF flat] members(3) by simp
  obtain j' p where p: "recordFanOutPlan members lanes mx batches stepNames j = Inr j'" "jr_fanOutPlan j' = Some p"
    "map fl_worker (fpr_lanes p) = concat batches"
    "\<forall>l \<in> set (fpr_lanes p). fl_steps l = map (\<lambda>n. pending_step n None) stepNames"
    "\<forall>m \<in> set (fpr_members p). hasLane m \<longrightarrow>
       (\<exists>i. fm_batch m = Some i \<and> i < length batches \<and> fm_worker m \<in> set (batches ! i))"
    using recordFanOutPlan_ok [OF assms(4) dm db set_flat] by blast
  have "int (length (fpr_lanes p)) = lanes"
    using arg_cong [OF p(3), of length] len by simp
  with p show ?thesis by blast
qed

theorem planned_fan_out_is_recorded_witness:
  "fan_out_policy_ok demo_policy \<and>
   (\<exists>members j' p. planFanOut \<lparr>fs_labels = None, fs_platform = None\<rparr> demo_policy demo_pool = Inr (Planned members 2 (Some 1)) \<and>
     recordFanOutPlan members 2 (Some 1) [[''b''], [''a'']] [''s''] (pending_job ''j'' [''s'']) = Inr j' \<and>
     jr_fanOutPlan j' = Some p \<and> map fl_worker (fpr_lanes p) = [''b'', ''a''])"
proof -
  define ms where "ms = [\<lparr>fm_worker = ''a'', fm_instanceUuid = ''1'', fm_disposition = Lane_waiting,
        fm_reason = Some Reason_disconnected\<rparr>,
      \<lparr>fm_worker = ''b'', fm_instanceUuid = ''2'', fm_disposition = Lane_dispatch, fm_reason = None\<rparr>]"
  have plan: "planFanOut \<lparr>fs_labels = None, fs_platform = None\<rparr> demo_policy demo_pool = Inr (Planned ms 2 (Some 1))"
    unfolding ms_def by code_simp
  have cut: "planBatches ms (map_option ro_batches (fp_rollout demo_policy)) = Inr [[''b''], [''a'']]"
    unfolding ms_def by code_simp
  have "jr_fanOutPlan (pending_job ''j'' [''s'']) = None" by (simp add: pending_job_def)
  from planned_fan_out_is_recorded [OF demo_policy_ok plan cut this, of "[''s'']"] plan demo_policy_ok
  show ?thesis by (auto intro: exI [of _ ms])
qed

end
