(* ===== verification/Topological_Sort.thy ===== *)
theory Topological_Sort
  imports Swamp_Prelude
begin

text \<open>
  \<^verbatim>\<open>src/src/domain/workflows/topological_sort_service.ts\<close>: jobs of a workflow and steps of
  a job are run level by level; a level holds every node whose dependencies are all in earlier
  levels. The theory models the in-degree algorithm with its maps, its two errors and the cycle
  search, relates it to a level construction without counters, and derives what callers rely on.

  \<^verbatim>\<open>localeCompare\<close> is a parameter: its order belongs to the host's collation. Where its
  order matters the hypothesis is that it is a consistent comparator.
\<close>

section \<open>Data\<close>

record graph_node =
  gn_name :: string
  gn_weight :: rat
  gn_dependencies :: "string list"
  gn_group :: "(string \<times> int) option"

datatype sort_error =
    CyclicDependencyError "string list"
  | DuplicateNodeNameError "string list"

abbreviation node_names :: "graph_node list \<Rightarrow> string list" where
  "node_names nodes \<equiv> map gn_name nodes"

section \<open>The algorithm\<close>

text \<open>\<^verbatim>\<open>Set.add\<close> on a set kept in insertion order.\<close>

definition add_name :: "string \<Rightarrow> string list \<Rightarrow> string list" where
  "add_name n ns = (if n \<in> set ns then ns else ns @ [n])"

lemma set_add_name [simp]: "set (add_name n ns) = insert n (set ns)"
  by (auto simp: add_name_def)

fun duplicate_names :: "string list \<Rightarrow> string list \<Rightarrow> string list \<Rightarrow> string list" where
  "duplicate_names seen dups [] = dups"
| "duplicate_names seen dups (n # ns) =
     duplicate_names (n # seen) (if n \<in> set seen then add_name n dups else dups) ns"

definition add_edge ::
  "string list \<Rightarrow> string \<Rightarrow> string
   \<Rightarrow> (string \<rightharpoonup> int) \<times> (string \<rightharpoonup> string list) \<Rightarrow> (string \<rightharpoonup> int) \<times> (string \<rightharpoonup> string list)" where
  "add_edge names n dep st =
     (case st of (inDegree, dependents) \<Rightarrow>
        if dep \<in> set names then
          (inDegree(n \<mapsto> (case inDegree n of None \<Rightarrow> 0 | Some c \<Rightarrow> c) + 1),
           dependents(dep \<mapsto> (case dependents dep of None \<Rightarrow> [] | Some ds \<Rightarrow> ds) @ [n]))
        else (inDegree, dependents))"

definition init_degrees ::
  "graph_node list \<Rightarrow> (string \<rightharpoonup> int) \<times> (string \<rightharpoonup> string list)" where
  "init_degrees nodes =
     (fold (\<lambda>n m. m(gn_name n \<mapsto> 0)) nodes Map.empty,
      fold (\<lambda>n m. m(gn_name n \<mapsto> [])) nodes Map.empty)"

definition count_edges ::
  "graph_node list \<Rightarrow> (string \<rightharpoonup> int) \<times> (string \<rightharpoonup> string list)" where
  "count_edges nodes =
     fold (\<lambda>n st. fold (add_edge (node_names nodes) (gn_name n)) (gn_dependencies n) st)
       nodes (init_degrees nodes)"

definition group_key :: "graph_node \<Rightarrow> string" where
  "group_key n = (case gn_group n of None \<Rightarrow> gn_name n | Some (k, i) \<Rightarrow> k)"

definition group_index :: "graph_node \<Rightarrow> int" where
  "group_index n = (case gn_group n of None \<Rightarrow> 0 | Some (k, i) \<Rightarrow> i)"

definition compare_nodes :: "(string \<Rightarrow> string \<Rightarrow> int) \<Rightarrow> graph_node \<Rightarrow> graph_node \<Rightarrow> int" where
  "compare_nodes localeCompare a b =
     (if gn_weight a \<noteq> gn_weight b then (if gn_weight a < gn_weight b then -1 else 1)
      else let byKey = localeCompare (group_key a) (group_key b) in
        if byKey \<noteq> 0 then byKey
        else let byIndex = group_index a - group_index b in
          if byIndex \<noteq> 0 then byIndex
          else localeCompare (gn_name a) (gn_name b))"

definition find_node :: "graph_node list \<Rightarrow> string \<Rightarrow> graph_node option" where
  "find_node nodes name = find (\<lambda>n. gn_name n = name) nodes"

text \<open>
  The depth-first search for a cycle. The source's \<^verbatim>\<open>visiting\<close> set always holds exactly the
  names on \<^verbatim>\<open>path\<close>: both are pushed and popped together.
\<close>

function dfs :: "graph_node list \<Rightarrow> string list \<Rightarrow> string \<Rightarrow> string list option"
  and dfs_deps :: "graph_node list \<Rightarrow> string list \<Rightarrow> string list \<Rightarrow> string list option" where
  "dfs nodeMap path name =
     (if name \<in> set path then Some (dropWhile (\<lambda>x. x \<noteq> name) path @ [name])
      else case find_node nodeMap name of
             None \<Rightarrow> None
           | Some node \<Rightarrow> dfs_deps nodeMap (path @ [name]) (gn_dependencies node))"
| "dfs_deps nodeMap path [] = None"
| "dfs_deps nodeMap path (dep # deps) =
     (case (if find_node nodeMap dep \<noteq> None then dfs nodeMap path dep else None) of
        Some cycle \<Rightarrow> Some cycle
      | None \<Rightarrow> dfs_deps nodeMap path deps)"
  by pat_completeness auto
termination
proof (relation "measures
    [\<lambda>x. case x of Inl (us, path, n) \<Rightarrow> card (set (node_names us) - set path)
                 | Inr (us, path, ds) \<Rightarrow> card (set (node_names us) - set path),
     \<lambda>x. case x of Inl _ \<Rightarrow> 0 | Inr (us, path, ds) \<Rightarrow> Suc (length ds)]", goal_cases)
  case (2 nodeMap path name node)
  then have "name \<in> set (node_names nodeMap)"
    by (auto simp: find_node_def dest!: find_Some_in_set)
  with 2(1) have "card (set (node_names nodeMap) - set (path @ [name]))
      < card (set (node_names nodeMap) - set path)"
    by (intro psubset_card_mono) auto
  then show ?case by simp
qed auto

fun first_cycle :: "graph_node list \<Rightarrow> graph_node list \<Rightarrow> string list option" where
  "first_cycle nodeMap [] = None"
| "first_cycle nodeMap (n # ns) =
     (case dfs nodeMap [] (gn_name n) of Some c \<Rightarrow> Some c | None \<Rightarrow> first_cycle nodeMap ns)"

definition findCycle :: "graph_node list \<Rightarrow> string list \<Rightarrow> string list" where
  "findCycle nodes processed =
     (let unprocessed = filter (\<lambda>n. gn_name n \<notin> set processed) nodes in
      case first_cycle unprocessed unprocessed of
        Some c \<Rightarrow> c
      | None \<Rightarrow> node_names unprocessed)"

definition decrement :: "string \<Rightarrow> (string \<rightharpoonup> int) \<Rightarrow> (string \<rightharpoonup> int)" where
  "decrement d m = m(d \<mapsto> (case m d of None \<Rightarrow> 0 | Some c \<Rightarrow> c) - 1)"

definition release ::
  "(string \<rightharpoonup> string list) \<Rightarrow> graph_node \<Rightarrow> string list \<times> (string \<rightharpoonup> int)
   \<Rightarrow> string list \<times> (string \<rightharpoonup> int)" where
  "release dependents n st =
     (add_name (gn_name n) (fst st),
      fold decrement (case dependents (gn_name n) of None \<Rightarrow> [] | Some ds \<Rightarrow> ds) (snd st))"

definition available_nodes ::
  "graph_node list \<Rightarrow> string list \<Rightarrow> (string \<rightharpoonup> int) \<Rightarrow> graph_node list" where
  "available_nodes nodes processed inDegree =
     filter (\<lambda>n. gn_name n \<notin> set processed \<and> inDegree (gn_name n) = Some 0) nodes"

lemma length_add_name: "length ns \<le> length (add_name n ns)"
  by (simp add: add_name_def)

lemma fst_fold_release:
  "fst (fold (release dependents) ns st) = fold (\<lambda>n. add_name (gn_name n)) ns (fst st)"
  by (induction ns arbitrary: st) (simp_all add: release_def)

lemma length_fold_add_name: "length ps \<le> length (fold (\<lambda>n. add_name (gn_name n)) ns ps)"
  by (induction ns arbitrary: ps) (auto intro: le_trans length_add_name)

lemma release_progress:
  assumes "ns \<noteq> []" and "\<forall>n \<in> set ns. gn_name n \<notin> set processed"
  shows "length processed < length (fst (fold (release dependents) ns (processed, m)))"
proof -
  obtain n ns' where ns: "ns = n # ns'" using assms(1) by (cases ns) auto
  with assms(2) have "length (add_name (gn_name n) processed) = Suc (length processed)"
    by (simp add: add_name_def)
  then show ?thesis
    using length_fold_add_name [of "add_name (gn_name n) processed" ns']
    by (simp add: fst_fold_release release_def ns)
qed

function sort_loop ::
  "(string \<Rightarrow> string \<Rightarrow> int) \<Rightarrow> graph_node list \<Rightarrow> (string \<rightharpoonup> string list)
   \<Rightarrow> string list \<Rightarrow> (string \<rightharpoonup> int) \<Rightarrow> string list list \<Rightarrow> sort_error + string list list" where
  "sort_loop localeCompare nodes dependents processed inDegree levels =
     (if length processed < length nodes then
        let available = js_sort (compare_nodes localeCompare)
                          (available_nodes nodes processed inDegree) in
        if available = [] then Inl (CyclicDependencyError (findCycle nodes processed))
        else let st = fold (release dependents) available (processed, inDegree) in
          sort_loop localeCompare nodes dependents (fst st) (snd st)
            (levels @ [map gn_name available])
      else Inr levels)"
  by pat_completeness auto
termination
proof (relation "measure (\<lambda>(lc, nodes, deps, processed, m, levels). length nodes - length processed)",
    goal_cases)
  case (2 lc nodes dependents processed inDegree levels available st)
  have "\<forall>n \<in> set available. gn_name n \<notin> set processed"
    using 2(2) by (auto simp: available_nodes_def)
  with 2(3) have "length processed < length (fst st)"
    unfolding 2(4) by (intro release_progress) auto
  with 2(1) show ?case by simp
qed simp

definition sort_nodes ::
  "(string \<Rightarrow> string \<Rightarrow> int) \<Rightarrow> graph_node list \<Rightarrow> sort_error + string list list" where
  "sort_nodes localeCompare nodes =
     (let duplicates = duplicate_names [] [] (node_names nodes) in
      if duplicates \<noteq> [] then Inl (DuplicateNodeNameError (js_sort byCodeUnit duplicates))
      else let st = count_edges nodes in
        sort_loop localeCompare nodes (snd st) [] (fst st) [])"

definition flatten :: "string list list \<Rightarrow> string list" where
  "flatten levels = concat levels"

section \<open>Duplicate names\<close>

lemma add_name_not_Nil [simp]: "add_name n ns \<noteq> []"
  by (auto simp: add_name_def)

lemma count_list_pos_iff: "0 < count_list xs x \<longleftrightarrow> x \<in> set xs"
  by (metis count_list_0_iff gr_zeroI less_numeral_extra(3))

lemma set_duplicate_names:
  "set (duplicate_names seen dups ns) =
   set dups \<union> {n \<in> set ns. n \<in> set seen \<or> 1 < count_list ns n}"
proof (induction ns arbitrary: seen dups)
  case (Cons n ns)
  show ?case unfolding duplicate_names.simps Cons.IH
    by (auto simp: count_list_pos_iff)
qed simp

lemma duplicate_names_Nil_iff:
  "duplicate_names seen dups ns = [] \<longleftrightarrow> dups = [] \<and> distinct ns \<and> set ns \<inter> set seen = {}"
  by (induction ns arbitrary: seen dups) auto

section \<open>The counters count the unprocessed dependencies\<close>

text \<open>The dependencies of a node inside the graph that are not processed yet, with repetitions.\<close>

definition open_deps :: "graph_node list \<Rightarrow> string list \<Rightarrow> graph_node \<Rightarrow> string list" where
  "open_deps nodes processed n =
     filter (\<lambda>d. d \<in> set (node_names nodes) \<and> d \<notin> set processed) (gn_dependencies n)"

definition degrees_ok :: "graph_node list \<Rightarrow> string list \<Rightarrow> (string \<rightharpoonup> int) \<Rightarrow> bool" where
  "degrees_ok nodes processed inDegree \<longleftrightarrow>
     (\<forall>n \<in> set nodes. inDegree (gn_name n) = Some (int (length (open_deps nodes processed n))))"

definition dependents_ok :: "graph_node list \<Rightarrow> (string \<rightharpoonup> string list) \<Rightarrow> bool" where
  "dependents_ok nodes dependents \<longleftrightarrow>
     (\<forall>n \<in> set nodes. \<forall>d \<in> set (node_names nodes).
        \<exists>ds. dependents d = Some ds \<and> count_list ds (gn_name n) = count_list (gn_dependencies n) d)"

lemma fold_decrement:
  "fold decrement ds m x =
   (if x \<in> set ds then Some ((case m x of None \<Rightarrow> 0 | Some c \<Rightarrow> c) - int (count_list ds x)) else m x)"
proof (induction ds arbitrary: m)
  case (Cons d ds)
  then show ?case
    by (cases "x = d") (auto simp: decrement_def count_list_0_iff split: option.splits)
qed simp

lemma length_filter_minus_count:
  "P x \<Longrightarrow>
   int (length (filter P ds)) - int (count_list ds x) = int (length (filter (\<lambda>d. P d \<and> d \<noteq> x) ds))"
  by (induction ds) auto

lemma release_degrees_ok:
  assumes ok: "degrees_ok nodes processed m" and dep: "dependents_ok nodes dependents"
    and x: "x \<in> set nodes" "gn_name x \<notin> set processed"
  shows "degrees_ok nodes (fst (release dependents x (processed, m)))
           (snd (release dependents x (processed, m)))"
  unfolding degrees_ok_def
proof
  fix n assume n: "n \<in> set nodes"
  obtain ds where ds: "dependents (gn_name x) = Some ds"
      "count_list ds (gn_name n) = count_list (gn_dependencies n) (gn_name x)"
    using dep n x(1) by (fastforce simp: dependents_ok_def)
  let ?P = "\<lambda>d. d \<in> set (node_names nodes) \<and> d \<notin> set processed"
  have P: "?P (gn_name x)" using x by auto
  have m: "m (gn_name n) = Some (int (length (filter ?P (gn_dependencies n))))"
    using ok n by (simp add: degrees_ok_def open_deps_def)
  have "open_deps nodes (add_name (gn_name x) processed) n =
      filter (\<lambda>d. ?P d \<and> d \<noteq> gn_name x) (gn_dependencies n)"
    by (auto simp: open_deps_def intro!: filter_cong)
  moreover have "fold decrement ds m (gn_name n) =
      Some (int (length (filter ?P (gn_dependencies n))) - int (count_list (gn_dependencies n) (gn_name x)))"
    using m ds(2) by (cases "gn_name n \<in> set ds") (auto simp: fold_decrement count_list_0_iff)
  ultimately show "snd (release dependents x (processed, m)) (gn_name n) =
      Some (int (length (open_deps nodes (fst (release dependents x (processed, m))) n)))"
    using length_filter_minus_count [of ?P "gn_name x" "gn_dependencies n", OF P] ds(1)
    by (simp add: release_def)
qed

lemma release_all_degrees_ok:
  assumes "degrees_ok nodes processed m" and "dependents_ok nodes dependents"
    and "set xs \<subseteq> set nodes" and "distinct (node_names xs)"
    and "\<forall>x \<in> set xs. gn_name x \<notin> set processed"
  shows "degrees_ok nodes (fst (fold (release dependents) xs (processed, m)))
           (snd (fold (release dependents) xs (processed, m)))"
  using assms
proof (induction xs arbitrary: processed m)
  case (Cons x xs)
  let ?st = "release dependents x (processed, m)"
  have "degrees_ok nodes (fst ?st) (snd ?st)"
    using Cons.prems by (intro release_degrees_ok) auto
  moreover have "\<forall>y \<in> set xs. gn_name y \<notin> set (fst ?st)"
    using Cons.prems by (auto simp: release_def image_iff)
  ultimately have "degrees_ok nodes (fst (fold (release dependents) xs (fst ?st, snd ?st)))
      (snd (fold (release dependents) xs (fst ?st, snd ?st)))"
    using Cons.prems by (intro Cons.IH) auto
  then show ?case by simp
qed simp

lemma fst_fold_release_fresh:
  assumes "distinct (node_names xs)" and "\<forall>x \<in> set xs. gn_name x \<notin> set processed"
  shows "fst (fold (release dependents) xs (processed, m)) = processed @ node_names xs"
  using assms unfolding fst_fold_release
proof (induction xs arbitrary: processed)
  case (Cons x xs)
  then have "\<forall>y \<in> set xs. gn_name y \<notin> set (processed @ [gn_name x])" by (auto simp: image_iff)
  with Cons show ?case by (simp add: add_name_def)
qed simp

subsection \<open>What the counting loop establishes\<close>

lemma add_edge_apply:
  "add_edge names n d (m, D) =
     (if d \<in> set names then
        (m(n \<mapsto> (case m n of None \<Rightarrow> 0 | Some c \<Rightarrow> c) + 1),
         D(d \<mapsto> (case D d of None \<Rightarrow> [] | Some ds \<Rightarrow> ds) @ [n]))
      else (m, D))"
  by (simp add: add_edge_def)

lemma fold_add_edge_degree:
  "n \<in> set names \<Longrightarrow> m n = Some c \<Longrightarrow>
   fst (fold (add_edge names n) ds (m, D)) x =
   (if x = n then Some (c + int (length (filter (\<lambda>d. d \<in> set names) ds))) else m x)"
proof (induction ds arbitrary: m c D)
  case (Cons d ds)
  show ?case
  proof (cases "d \<in> set names")
    case True
    let ?D = "D(d \<mapsto> (case D d of None \<Rightarrow> [] | Some ds \<Rightarrow> ds) @ [n])"
    have "fst (fold (add_edge names n) ds (m(n \<mapsto> c + 1), ?D)) x =
        (if x = n then Some (c + 1 + int (length (filter (\<lambda>d. d \<in> set names) ds)))
         else (m(n \<mapsto> c + 1)) x)"
      by (rule Cons.IH [OF Cons.prems(1)]) simp
    with True Cons.prems(2) show ?thesis by (simp add: add_edge_apply)
  next
    case False
    with Cons show ?thesis by (simp add: add_edge_apply)
  qed
qed auto

lemma fold_add_edge_dependents:
  "\<forall>d \<in> set names. D d = Some (f d) \<Longrightarrow> e \<in> set names \<Longrightarrow>
   snd (fold (add_edge names n) ds (m, D)) e = Some (f e @ replicate (count_list ds e) n)"
proof (induction ds arbitrary: m D f)
  case (Cons d ds)
  show ?case
  proof (cases "d \<in> set names")
    case True
    let ?m = "m(n \<mapsto> (case m n of None \<Rightarrow> 0 | Some c \<Rightarrow> c) + 1)"
    have "\<forall>x \<in> set names. (D(d \<mapsto> f d @ [n])) x = Some ((f(d := f d @ [n])) x)"
      using Cons.prems(1) by simp
    then have "snd (fold (add_edge names n) ds (?m, D(d \<mapsto> f d @ [n]))) e =
        Some ((f(d := f d @ [n])) e @ replicate (count_list ds e) n)"
      by (rule Cons.IH) (rule Cons.prems(2))
    with True Cons.prems(1) show ?thesis by (auto simp: add_edge_apply)
  next
    case False
    with Cons.IH [OF Cons.prems] Cons.prems(2) show ?thesis by (auto simp: add_edge_apply)
  qed
qed simp

lemma count_edges_fold:
  fixes names :: "string list"
  defines "inner \<equiv> \<lambda>n st. fold (add_edge names (gn_name n)) (gn_dependencies n) st"
  assumes "\<forall>x \<in> set names. m x = Some (c x)" and "\<forall>d \<in> set names. D d = Some (f d)"
    and "set (node_names ps) \<subseteq> set names" and "x \<in> set names"
  shows "fst (fold inner ps (m, D)) x =
      Some (c x + (\<Sum>n\<leftarrow>ps. if gn_name n = x
                         then int (length (filter (\<lambda>d. d \<in> set names) (gn_dependencies n))) else 0)) \<and>
    snd (fold inner ps (m, D)) x =
      Some (f x @ concat (map (\<lambda>n. replicate (count_list (gn_dependencies n) x) (gn_name n)) ps))"
  using assms(2-4)
proof (induction ps arbitrary: m c D f)
  case Nil
  with assms(5) show ?case by simp
next
  case (Cons n ps)
  let ?k = "int (length (filter (\<lambda>d. d \<in> set names) (gn_dependencies n)))"
  let ?st = "inner n (m, D)"
  let ?c = "c(gn_name n := c (gn_name n) + ?k)"
  let ?f = "\<lambda>d. f d @ replicate (count_list (gn_dependencies n) d) (gn_name n)"
  have n: "gn_name n \<in> set names" using Cons.prems(3) by simp
  have 1: "\<forall>x \<in> set names. fst ?st x = Some (?c x)"
    using fold_add_edge_degree [OF n] Cons.prems(1) n by (simp add: inner_def)
  have 2: "\<forall>d \<in> set names. snd ?st d = Some (?f d)"
    using fold_add_edge_dependents Cons.prems(2) by (simp add: inner_def)
  have "fold inner (n # ps) (m, D) = fold inner ps (fst ?st, snd ?st)" by simp
  then show ?case using Cons.IH [OF 1 2] Cons.prems(3) by auto
qed

lemma sum_list_single_key:
  "distinct (map k xs) \<Longrightarrow> y \<in> set xs \<Longrightarrow>
   (\<Sum>x\<leftarrow>xs. if k x = k y then g x else (0::'b::comm_monoid_add)) = g y"
proof (induction xs)
  case (Cons x xs)
  show ?case
  proof (cases "y = x")
    case True
    with Cons.prems have "(\<Sum>x\<leftarrow>xs. if k x = k y then g x else 0) = (\<Sum>x\<leftarrow>xs. 0)"
      by (intro arg_cong [where f = sum_list] map_cong) (auto simp: image_iff)
    with True show ?thesis by simp
  next
    case False
    with Cons show ?thesis by (auto simp: image_iff)
  qed
qed simp

lemma count_list_replicates:
  "count_list (concat (map (\<lambda>y. replicate (g y) (k y)) xs)) a =
   (\<Sum>x\<leftarrow>xs. if k x = a then g x else 0)"
proof (induction xs)
  case (Cons x xs)
  have "count_list (replicate j b) a = (if b = a then j else 0)" for j b
    by (induction j) auto
  with Cons show ?case by simp
qed simp

lemma fold_init_map:
  "fold (\<lambda>n m. m(k n \<mapsto> v)) xs m x = (if x \<in> k ` set xs then Some v else m x)"
proof (induction xs arbitrary: m)
  case (Cons y xs)
  then show ?case by (simp del: fun_upd_apply) (simp add: fun_upd_apply)
qed simp

lemma count_edges_ok:
  assumes "distinct (node_names nodes)"
  shows "degrees_ok nodes [] (fst (count_edges nodes))"
    and "dependents_ok nodes (snd (count_edges nodes))"
proof -
  let ?names = "node_names nodes"
  have 1: "\<forall>x \<in> set ?names. fst (init_degrees nodes) x = Some 0"
    and 2: "\<forall>x \<in> set ?names. snd (init_degrees nodes) x = Some []"
    by (auto simp: init_degrees_def fold_init_map)
  note spec = count_edges_fold [OF 1 2 order_refl, unfolded prod.collapse]
  have "fst (count_edges nodes) (gn_name n) = Some (int (length (open_deps nodes [] n)))"
    if "n \<in> set nodes" for n
  proof -
    have "gn_name n \<in> set ?names" using that by simp
    from spec [OF this] show ?thesis
      unfolding count_edges_def open_deps_def
      using sum_list_single_key [OF assms that,
          of "\<lambda>n. int (length (filter (\<lambda>d. d \<in> set ?names) (gn_dependencies n)))"]
      by simp
  qed
  then show "degrees_ok nodes [] (fst (count_edges nodes))" by (simp add: degrees_ok_def)
  have "\<exists>ds. snd (count_edges nodes) d = Some ds \<and>
      count_list ds (gn_name n) = count_list (gn_dependencies n) d"
    if "n \<in> set nodes" "d \<in> set ?names" for n d
    using spec [OF that(2)] sum_list_single_key [OF assms that(1)]
    unfolding count_edges_def by (simp add: count_list_replicates)
  then show "dependents_ok nodes (snd (count_edges nodes))" by (simp add: dependents_ok_def)
qed

section \<open>The level construction without counters\<close>

text \<open>
  The reference construction: the nodes that are not processed and whose dependencies inside the
  graph all are.
\<close>

definition ready_nodes :: "graph_node list \<Rightarrow> string list \<Rightarrow> graph_node list" where
  "ready_nodes nodes processed =
     filter (\<lambda>n. gn_name n \<notin> set processed \<and>
                 (\<forall>d \<in> set (gn_dependencies n). d \<in> set (node_names nodes) \<longrightarrow> d \<in> set processed))
       nodes"

function level_loop ::
  "(string \<Rightarrow> string \<Rightarrow> int) \<Rightarrow> graph_node list \<Rightarrow> string list \<Rightarrow> string list list
   \<Rightarrow> sort_error + string list list" where
  "level_loop localeCompare nodes processed levels =
     (if length processed < length nodes then
        let level = node_names (js_sort (compare_nodes localeCompare) (ready_nodes nodes processed)) in
        if level = [] then Inl (CyclicDependencyError (findCycle nodes processed))
        else level_loop localeCompare nodes (processed @ level) (levels @ [level])
      else Inr levels)"
  by pat_completeness auto
termination
  by (relation "measure (\<lambda>(lc, nodes, processed, levels). length nodes - length processed)")
    (auto simp: Suc_le_eq simp flip: length_greater_0_conv)

declare sort_loop.simps [simp del] level_loop.simps [simp del]

lemma distinct_names_js_sort [simp]:
  "distinct (node_names (js_sort cmp ns)) = distinct (node_names ns)"
  by (metis mset_eq_imp_distinct_iff mset_js_sort mset_map)

lemma available_eq_ready:
  "degrees_ok nodes processed inDegree \<Longrightarrow>
   available_nodes nodes processed inDegree = ready_nodes nodes processed"
  by (auto simp: available_nodes_def ready_nodes_def degrees_ok_def open_deps_def
      filter_empty_conv intro!: filter_cong)

lemma sort_loop_eq_level_loop:
  assumes "distinct (node_names nodes)" and "dependents_ok nodes dependents"
    and "degrees_ok nodes processed inDegree"
  shows "sort_loop lc nodes dependents processed inDegree levels = level_loop lc nodes processed levels"
  using assms
proof (induction lc nodes dependents processed inDegree levels rule: sort_loop.induct)
  case (1 lc nodes dependents processed inDegree levels)
  let ?av = "js_sort (compare_nodes lc) (available_nodes nodes processed inDegree)"
  let ?st = "fold (release dependents) ?av (processed, inDegree)"
  have av: "available_nodes nodes processed inDegree = ready_nodes nodes processed"
    using "1.prems"(3) by (rule available_eq_ready)
  have fresh: "\<forall>n \<in> set ?av. gn_name n \<notin> set processed" "set ?av \<subseteq> set nodes"
    by (auto simp: available_nodes_def)
  have dist: "distinct (node_names ?av)"
    using "1.prems"(1) by (simp add: available_nodes_def distinct_map_filter)
  show ?case
  proof (cases "length processed < length nodes \<and> ?av \<noteq> []")
    case True
    have "degrees_ok nodes (fst ?st) (snd ?st)"
      using "1.prems" fresh dist by (intro release_all_degrees_ok) auto
    then have "sort_loop lc nodes dependents (fst ?st) (snd ?st) (levels @ [node_names ?av]) =
        level_loop lc nodes (fst ?st) (levels @ [node_names ?av])"
      using "1.IH" "1.prems" True by blast
    moreover have "fst ?st = processed @ node_names ?av"
      using dist fresh(1) by (rule fst_fold_release_fresh)
    ultimately show ?thesis
      using True by (simp add: sort_loop.simps level_loop.simps [of lc nodes processed levels] av Let_def)
  next
    case False
    then show ?thesis
      by (auto simp: sort_loop.simps level_loop.simps av Let_def)
  qed
qed

section \<open>The levels\<close>

text \<open>Every level is exactly the ready nodes after the levels before it, in comparator order.\<close>

definition greedy_levels ::
  "(string \<Rightarrow> string \<Rightarrow> int) \<Rightarrow> graph_node list \<Rightarrow> string list list \<Rightarrow> bool" where
  "greedy_levels lc nodes levels \<longleftrightarrow>
     (\<forall>i < length levels. levels ! i \<noteq> [] \<and>
        levels ! i = node_names (js_sort (compare_nodes lc)
                       (ready_nodes nodes (concat (take i levels)))))"

lemma greedy_levels_append:
  assumes "greedy_levels lc nodes levels" and "level \<noteq> []"
    and "level = node_names (js_sort (compare_nodes lc) (ready_nodes nodes (concat levels)))"
  shows "greedy_levels lc nodes (levels @ [level])"
  using assms by (auto simp: greedy_levels_def nth_append less_Suc_eq)

lemma level_loop_greedy:
  assumes "greedy_levels lc nodes levels" and "processed = concat levels"
    and "level_loop lc nodes processed levels = Inr result"
  shows "greedy_levels lc nodes result \<and> length nodes \<le> length (concat result)"
  using assms
proof (induction lc nodes processed levels rule: level_loop.induct)
  case (1 lc nodes processed levels)
  let ?level = "node_names (js_sort (compare_nodes lc) (ready_nodes nodes processed))"
  show ?case
  proof (cases "length processed < length nodes")
    case True
    with "1.prems"(3) have ne: "?level \<noteq> []"
      and rec: "level_loop lc nodes (processed @ ?level) (levels @ [?level]) = Inr result"
      by (auto simp: level_loop.simps [of lc nodes processed levels] Let_def split: if_splits)
    have "greedy_levels lc nodes (levels @ [?level])"
      using "1.prems"(1,2) ne by (intro greedy_levels_append) auto
    then show ?thesis using "1.IH" [OF True refl ne] rec "1.prems"(2) by simp
  next
    case False
    with "1.prems" show ?thesis by (simp add: level_loop.simps)
  qed
qed

lemma ready_names: "set (node_names (ready_nodes nodes P)) \<subseteq> set (node_names nodes) - set P"
  by (auto simp: ready_nodes_def)

lemma greedy_level_set:
  "greedy_levels lc nodes levels \<Longrightarrow> i < length levels \<Longrightarrow>
   set (levels ! i) = set (node_names (ready_nodes nodes (concat (take i levels))))"
  by (metis greedy_levels_def image_set set_js_sort)

lemma greedy_levels_take:
  assumes "greedy_levels lc nodes levels"
  shows "greedy_levels lc nodes (take k levels)"
  unfolding greedy_levels_def
proof (intro allI impI)
  fix i assume "i < length (take k levels)"
  then have i: "i < length levels" "i < k" by auto
  then have "take i (take k levels) = take i levels" "take k levels ! i = levels ! i" by auto
  with i assms show "take k levels ! i \<noteq> [] \<and> take k levels ! i = node_names (js_sort (compare_nodes lc)
      (ready_nodes nodes (concat (take i (take k levels)))))"
    unfolding greedy_levels_def by (metis (no_types))
qed

lemma greedy_levels_distinct:
  assumes "distinct (node_names nodes)" and "greedy_levels lc nodes levels"
  shows "distinct (concat levels) \<and> set (concat levels) \<subseteq> set (node_names nodes)"
  using assms(2)
proof (induction levels rule: rev_induct)
  case (snoc level levels)
  have "greedy_levels lc nodes levels"
    using greedy_levels_take [OF snoc.prems, of "length levels"] by simp
  moreover have level: "level = node_names (js_sort (compare_nodes lc) (ready_nodes nodes (concat levels)))"
    using snoc.prems by (auto simp: greedy_levels_def dest!: spec [of _ "length levels"])
  have "distinct level"
    using assms(1) unfolding level by (simp add: ready_nodes_def distinct_map_filter)
  moreover have "set level \<subseteq> set (node_names nodes) - set (concat levels)"
    using ready_names [of nodes "concat levels"] unfolding level by simp
  ultimately show ?case using snoc.IH by (auto simp: disjoint_iff)
qed simp

lemma greedy_levels_complete:
  assumes "distinct (node_names nodes)" and "greedy_levels lc nodes levels"
    and "length nodes \<le> length (concat levels)"
  shows "mset (concat levels) = mset (node_names nodes)"
proof -
  have d: "distinct (concat levels)" "set (concat levels) \<subseteq> set (node_names nodes)"
    using greedy_levels_distinct [OF assms(1,2)] by auto
  then have "set (concat levels) = set (node_names nodes)"
    using assms(1,3) distinct_card [OF d(1)] distinct_card [OF assms(1)]
    by (intro card_seteq) (simp_all del: set_map set_concat)
  with d(1) assms(1) show ?thesis by (metis set_eq_iff_mset_eq_distinct)
qed

lemma concat_take_nth:
  "x \<in> set (concat (take i xss)) \<longleftrightarrow> (\<exists>j < i. j < length xss \<and> x \<in> set (xss ! j))"
proof -
  have "x \<in> set (concat (take i xss)) \<longleftrightarrow> (\<exists>xs \<in> set (take i xss). x \<in> set xs)" by simp
  also have "\<dots> \<longleftrightarrow> (\<exists>j < length (take i xss). x \<in> set (take i xss ! j))"
    by (metis in_set_conv_nth)
  also have "\<dots> \<longleftrightarrow> (\<exists>j < i. j < length xss \<and> x \<in> set (xss ! j))" by auto
  finally show ?thesis .
qed

lemma greedy_levels_dependency:
  assumes "greedy_levels lc nodes levels" and "i < length levels"
    and "n \<in> set nodes" and "distinct (node_names nodes)" and "gn_name n \<in> set (levels ! i)"
    and "d \<in> set (gn_dependencies n)" and "d \<in> set (node_names nodes)"
  shows "\<exists>j < i. d \<in> set (levels ! j)"
proof -
  have "gn_name n \<in> gn_name ` set (ready_nodes nodes (concat (take i levels)))"
    using assms by (simp add: greedy_level_set)
  then have "n \<in> set (ready_nodes nodes (concat (take i levels)))"
    using assms(3,4) by (auto simp: ready_nodes_def distinct_map dest: inj_onD)
  with assms(6,7) have "d \<in> set (concat (take i levels))"
    by (simp add: ready_nodes_def)
  then show ?thesis unfolding concat_take_nth by auto
qed

lemma greedy_levels_earliest:
  assumes g: "greedy_levels lc nodes levels" and i: "Suc i < length levels"
    and n: "n \<in> set nodes" and dist: "distinct (node_names nodes)"
    and ni: "gn_name n \<in> set (levels ! Suc i)"
  shows "\<exists>d \<in> set (gn_dependencies n). d \<in> set (levels ! i)"
proof -
  let ?P = "\<lambda>k. concat (take k levels)"
  have P: "set (?P (Suc i)) = set (?P i) \<union> set (levels ! i)"
    using i by (simp add: take_Suc_conv_app_nth)
  have "gn_name n \<in> gn_name ` set (ready_nodes nodes (?P (Suc i)))"
    using greedy_level_set [OF g i] ni by simp
  then have r: "n \<in> set (ready_nodes nodes (?P (Suc i)))"
    using n dist by (auto simp: ready_nodes_def distinct_map dest: inj_onD)
  then have out: "gn_name n \<notin> set (?P i)" "gn_name n \<notin> set (levels ! i)"
    using P by (auto simp: ready_nodes_def)
  then have "n \<notin> set (ready_nodes nodes (?P i))"
    using greedy_level_set [OF g, of i] i by auto
  with out n obtain d where "d \<in> set (gn_dependencies n)" "d \<in> set (node_names nodes)" "d \<notin> set (?P i)"
    by (auto simp: ready_nodes_def)
  with r P show ?thesis by (auto simp: ready_nodes_def)
qed

section \<open>Cycles\<close>

definition depends_on :: "graph_node list \<Rightarrow> string \<Rightarrow> string \<Rightarrow> bool" where
  "depends_on nodes a b \<longleftrightarrow>
     (\<exists>n \<in> set nodes. gn_name n = a \<and> b \<in> set (gn_dependencies n)) \<and> b \<in> set (node_names nodes)"

definition is_cycle :: "graph_node list \<Rightarrow> string list \<Rightarrow> bool" where
  "is_cycle nodes c \<longleftrightarrow> 2 \<le> length c \<and> hd c = last c \<and> successively (depends_on nodes) c"

lemma find_node_Some:
  "find_node us name = Some n \<Longrightarrow> n \<in> set us \<and> gn_name n = name"
  by (auto simp: find_node_def dest: find_Some_in_set)

lemma find_node_None_iff: "find_node us name = None \<longleftrightarrow> name \<notin> set (node_names us)"
  by (auto simp: find_node_def find_None_iff)

text \<open>When every node of the rest depends on another node of the rest, the search finds a cycle.\<close>

lemma dfs_total:
  assumes "\<forall>n \<in> set us. \<exists>d \<in> set (gn_dependencies n). d \<in> set (node_names us)"
  shows "name \<in> set (node_names us) \<Longrightarrow> dfs us path name \<noteq> None"
    and "\<exists>d \<in> set ds. d \<in> set (node_names us) \<Longrightarrow> dfs_deps us path ds \<noteq> None"
  using assms
proof (induction us path name and us path ds rule: dfs_dfs_deps.induct)
  case (1 nodeMap path name)
  show ?case
  proof (cases "name \<in> set path")
    case False
    from "1.prems"(1) obtain n where n: "find_node nodeMap name = Some n"
      by (cases "find_node nodeMap name") (auto simp: find_node_None_iff)
    have "\<exists>d \<in> set (gn_dependencies n). d \<in> set (node_names nodeMap)"
      using "1.prems"(2) find_node_Some [OF n] by blast
    then have "dfs_deps nodeMap (path @ [name]) (gn_dependencies n) \<noteq> None"
      using "1.IH" [OF False n] "1.prems"(2) by blast
    with False n show ?thesis by simp
  qed simp
next
  case (3 nodeMap path dep deps)
  show ?case
  proof (cases "(if find_node nodeMap dep \<noteq> None then dfs nodeMap path dep else None) = None")
    case True
    then have "dep \<notin> set (node_names nodeMap)"
      using "3.IH"(1) "3.prems"(2) find_node_None_iff [of nodeMap dep] by metis
    with "3.prems" True show ?thesis using "3.IH"(2) [OF True] by auto
  qed auto
qed auto

lemma successively_dropWhile:
  "successively P xs \<Longrightarrow> successively P (dropWhile Q xs)"
  by (metis successively_append_iff takeWhile_dropWhile_id)

lemma dfs_sound:
  shows "dfs us path name = Some c \<Longrightarrow> successively (depends_on us) (path @ [name]) \<Longrightarrow> is_cycle us c"
    and "dfs_deps us path ds = Some c \<Longrightarrow> path \<noteq> [] \<Longrightarrow> successively (depends_on us) path \<Longrightarrow>
      (\<forall>d \<in> set ds. d \<in> set (node_names us) \<longrightarrow> depends_on us (last path) d) \<Longrightarrow> is_cycle us c"
proof (induction us path name and us path ds arbitrary: c and c rule: dfs_dfs_deps.induct)
  case (1 nodeMap path name)
  show ?case
  proof (cases "name \<in> set path")
    case True
    let ?tl = "dropWhile (\<lambda>x. x \<noteq> name) path"
    have tl: "?tl \<noteq> []" "hd ?tl = name"
      using True hd_dropWhile [of "\<lambda>x. x \<noteq> name" path] by (auto simp: dropWhile_eq_Nil_conv)
    have "dropWhile (\<lambda>x. x \<noteq> name) (path @ [name]) = ?tl @ [name]"
      using True by (intro dropWhile_append1) auto
    then have "successively (depends_on nodeMap) (?tl @ [name])"
      using successively_dropWhile [OF "1.prems"(2), of "\<lambda>x. x \<noteq> name"] by simp
    moreover have "2 \<le> length (?tl @ [name])" "hd (?tl @ [name]) = last (?tl @ [name])"
      using tl by (cases ?tl; simp)+
    moreover have "c = ?tl @ [name]" using "1.prems"(1) True by simp
    ultimately show ?thesis by (simp add: is_cycle_def)
  next
    case False
    with "1.prems"(1) obtain n where n: "find_node nodeMap name = Some n"
      and rec: "dfs_deps nodeMap (path @ [name]) (gn_dependencies n) = Some c"
      by (auto split: option.splits)
    have "\<forall>d \<in> set (gn_dependencies n). d \<in> set (node_names nodeMap) \<longrightarrow> depends_on nodeMap name d"
      using find_node_Some [OF n] by (auto simp: depends_on_def)
    then show ?thesis using "1.IH" [OF False n rec] "1.prems"(2) by simp
  qed
next
  case (3 nodeMap path dep deps)
  show ?case
  proof (cases "if find_node nodeMap dep \<noteq> None then dfs nodeMap path dep else None")
    case None
    with "3.prems" show ?thesis using "3.IH"(2) [OF None] by (simp split: if_splits)
  next
    case (Some c')
    then have dep: "find_node nodeMap dep \<noteq> None" and c: "dfs nodeMap path dep = Some c"
      using "3.prems"(1) by (auto split: if_splits)
    have "depends_on nodeMap (last path) dep"
      using "3.prems"(4) dep find_node_None_iff [of nodeMap dep] by auto
    then have "successively (depends_on nodeMap) (path @ [dep])"
      using "3.prems"(2,3) by (simp add: successively_append_iff)
    then show ?thesis using "3.IH"(1) [OF dep c] by simp
  qed
qed auto

declare dfs.simps [simp del]

lemma first_cycle_sound: "first_cycle us ns = Some c \<Longrightarrow> is_cycle us c"
  by (induction ns) (auto split: option.splits dest!: dfs_sound(1))

lemma depends_on_mono: "set us \<subseteq> set nodes \<Longrightarrow> depends_on us a b \<Longrightarrow> depends_on nodes a b"
  by (auto simp: depends_on_def)

lemma is_cycle_mono: "set us \<subseteq> set nodes \<Longrightarrow> is_cycle us c \<Longrightarrow> is_cycle nodes c"
  by (auto simp: is_cycle_def intro: successively_mono depends_on_mono)

lemma findCycle_is_cycle:
  assumes stuck: "ready_nodes nodes processed = []" and left: "\<exists>n \<in> set nodes. gn_name n \<notin> set processed"
  shows "is_cycle nodes (findCycle nodes processed)"
proof -
  let ?us = "filter (\<lambda>n. gn_name n \<notin> set processed) nodes"
  have deps: "\<forall>n \<in> set ?us. \<exists>d \<in> set (gn_dependencies n). d \<in> set (node_names ?us)"
    using stuck by (fastforce simp: ready_nodes_def filter_empty_conv)
  obtain n ns where us: "?us = n # ns" using left by (cases ?us) (auto simp: filter_empty_conv)
  then have "n \<in> set ?us" by simp
  then have "dfs ?us [] (gn_name n) \<noteq> None" using dfs_total(1) [OF deps] by simp
  then obtain c where c: "first_cycle ?us ?us = Some c" by (auto simp: us)
  have "is_cycle nodes c"
    using is_cycle_mono [OF filter_is_subset first_cycle_sound [OF c]] .
  with c show ?thesis by (simp add: findCycle_def Let_def)
qed

lemma level_loop_cyclic:
  assumes "level_loop lc nodes processed levels = Inl e" and "distinct (node_names nodes)"
    and "distinct processed" and "set processed \<subseteq> set (node_names nodes)"
  shows "\<exists>c. e = CyclicDependencyError c \<and> is_cycle nodes c"
  using assms
proof (induction lc nodes processed levels rule: level_loop.induct)
  case (1 lc nodes processed levels)
  let ?level = "node_names (js_sort (compare_nodes lc) (ready_nodes nodes processed))"
  have len: "length processed < length nodes"
    using "1.prems"(1) by (auto simp: level_loop.simps [of lc nodes] split: if_splits)
  show ?case
  proof (cases "?level = []")
    case True
    then have stuck: "ready_nodes nodes processed = []" by (metis length_0_conv length_js_sort length_map)
    have "card (set processed) < card (set (node_names nodes))"
      using len "1.prems"(2,3) by (simp add: distinct_card del: set_map)
    then have "\<not> set (node_names nodes) \<subseteq> set processed" by (metis card_mono finite_set leD)
    then have "\<exists>n \<in> set nodes. gn_name n \<notin> set processed" by auto
    then have "is_cycle nodes (findCycle nodes processed)" by (rule findCycle_is_cycle [OF stuck])
    moreover have "e = CyclicDependencyError (findCycle nodes processed)"
      using len stuck "1.prems"(1) by (simp add: level_loop.simps [of lc nodes processed levels] Let_def)
    ultimately show ?thesis by blast
  next
    case False
    have "level_loop lc nodes (processed @ ?level) (levels @ [?level]) = Inl e"
      using "1.prems"(1) len False
      by (simp add: level_loop.simps [of lc nodes processed] Let_def)
    moreover have "distinct (processed @ ?level)"
      using "1.prems"(2,3) by (auto simp: ready_nodes_def distinct_map_filter)
    moreover have "set (processed @ ?level) \<subseteq> set (node_names nodes)"
      using "1.prems"(4) by (auto simp: ready_nodes_def)
    ultimately show ?thesis using "1.IH" [OF len refl False] "1.prems"(2) by blast
  qed
qed

section \<open>What callers rely on\<close>

lemma sort_nodes_level_loop:
  "distinct (node_names nodes) \<Longrightarrow> sort_nodes lc nodes = level_loop lc nodes [] []"
  by (simp add: sort_nodes_def Let_def duplicate_names_Nil_iff count_edges_ok sort_loop_eq_level_loop)

lemma sort_nodes_Inr_distinct: "sort_nodes lc nodes = Inr levels \<Longrightarrow> distinct (node_names nodes)"
  by (auto simp: sort_nodes_def Let_def duplicate_names_Nil_iff split: if_splits)

lemma sort_nodes_greedy:
  assumes "sort_nodes lc nodes = Inr levels"
  shows "greedy_levels lc nodes levels"
    and "mset (concat levels) = mset (node_names nodes)"
proof -
  have d: "distinct (node_names nodes)" using assms by (rule sort_nodes_Inr_distinct)
  then have "level_loop lc nodes [] [] = Inr levels" using assms by (simp add: sort_nodes_level_loop)
  moreover have "greedy_levels lc nodes []" by (simp add: greedy_levels_def)
  ultimately have g: "greedy_levels lc nodes levels" "length nodes \<le> length (concat levels)"
    using level_loop_greedy by fastforce+
  show "greedy_levels lc nodes levels" by (rule g(1))
  show "mset (concat levels) = mset (node_names nodes)"
    using greedy_levels_complete [OF d g] .
qed

text \<open>The level of a node ranks the graph of a successful sort.\<close>

lemma sort_nodes_rank:
  assumes "sort_nodes lc nodes = Inr levels"
  obtains rank where "\<And>n. n \<in> set nodes \<Longrightarrow> rank (gn_name n) < length nodes"
    and "\<And>n d. n \<in> set nodes \<Longrightarrow> d \<in> set (gn_dependencies n) \<Longrightarrow> d \<in> set (node_names nodes) \<Longrightarrow>
          rank d < rank (gn_name n)"
proof -
  note d = sort_nodes_Inr_distinct [OF assms] and g = sort_nodes_greedy [OF assms]
  define rank where "rank x = (LEAST i. x \<in> set (levels ! i))" for x
  have "[] \<notin> set levels" using g(1) by (auto simp: greedy_levels_def in_set_conv_nth)
  then have "length levels \<le> length (concat levels)" by (rule length_le_concat)
  also have "\<dots> = length nodes" using arg_cong [OF g(2), of size] by simp
  finally have short: "length levels \<le> length nodes" .
  have found: "rank (gn_name n) < length levels \<and> gn_name n \<in> set (levels ! rank (gn_name n))"
    if "n \<in> set nodes" for n
  proof -
    have "gn_name n \<in># mset (concat levels)" using g(2) that by simp
    then obtain i where "i < length levels" "gn_name n \<in> set (levels ! i)"
      by (auto simp: in_set_conv_nth) (metis in_set_conv_nth nth_mem)
    then show ?thesis unfolding rank_def by (metis (mono_tags, lifting) LeastI Least_le le_less_trans)
  qed
  show thesis
  proof (rule that)
    fix n assume n: "n \<in> set nodes"
    show "rank (gn_name n) < length nodes" using found [OF n] short by linarith
    fix e assume e: "e \<in> set (gn_dependencies n)" "e \<in> set (node_names nodes)"
    obtain j where "j < rank (gn_name n)" "e \<in> set (levels ! j)"
      using greedy_levels_dependency [OF g(1) _ n d _ e] found [OF n] by blast
    then show "rank e < rank (gn_name n)" unfolding rank_def by (metis (mono_tags, lifting) Least_le le_less_trans)
  qed
qed

lemma cycle_has_no_levels:
  assumes "is_cycle nodes c" and sorted: "sort_nodes lc nodes = Inr levels"
  shows False
proof -
  obtain lv :: "string \<Rightarrow> nat" where
    "\<And>n d. n \<in> set nodes \<Longrightarrow> d \<in> set (gn_dependencies n) \<Longrightarrow> d \<in> set (node_names nodes) \<Longrightarrow> lv d < lv (gn_name n)"
    using sort_nodes_rank [OF sorted] by metis
  then have step: "lv b < lv a" if "depends_on nodes a b" for a b
    using that by (auto simp: depends_on_def)
  have "successively (\<lambda>a b. lv b < lv a) c"
    using assms(1) step by (auto simp: is_cycle_def intro: successively_mono)
  then have "sorted_wrt (\<lambda>a b. lv b < lv a) c"
    by (subst (asm) successively_iff_sorted_wrt_strong) (auto intro: less_trans)
  moreover have "hd c = last c" "2 \<le> length c" using assms(1) by (auto simp: is_cycle_def)
  moreover then obtain a b cs where "c = a # cs @ [b]"
    by (cases c; cases "tl c" rule: rev_cases) auto
  ultimately show False by simp
qed

text \<open>
  \<open>localeCompare\<close> of a host that orders strings consistently makes \<open>compare_nodes\<close> a consistent
  comparator, so that a level is sorted.
\<close>

locale node_comparator =
  fixes localeCompare :: "string \<Rightarrow> string \<Rightarrow> int"
  assumes locale_antisym: "localeCompare a b < 0 \<longleftrightarrow> 0 < localeCompare b a"
    and locale_trans: "localeCompare a b \<le> 0 \<Longrightarrow> localeCompare b c \<le> 0 \<Longrightarrow> localeCompare a c \<le> 0"
begin

lemma locale_zero: "localeCompare a b = 0 \<longleftrightarrow> localeCompare b a = 0"
  using locale_antisym [of a b] locale_antisym [of b a] by linarith

lemma compare_nodes_flip: "compare_nodes localeCompare x y \<le> 0 \<or> compare_nodes localeCompare y x \<le> 0"
  using locale_antisym [of "group_key x" "group_key y"] locale_antisym [of "group_key y" "group_key x"]
    locale_antisym [of "gn_name x" "gn_name y"]
  by (auto simp: compare_nodes_def Let_def)

lemma locale_strict_trans:
  "localeCompare a b < 0 \<Longrightarrow> localeCompare b c \<le> 0 \<Longrightarrow> localeCompare a c < 0"
  "localeCompare a b \<le> 0 \<Longrightarrow> localeCompare b c < 0 \<Longrightarrow> localeCompare a c < 0"
  by (metis locale_antisym locale_trans not_le)+

lemma compare_nodes_le:
  "compare_nodes localeCompare x y \<le> 0 \<longleftrightarrow>
   gn_weight x < gn_weight y \<or>
   gn_weight x = gn_weight y \<and>
     (localeCompare (group_key x) (group_key y) < 0 \<or>
      localeCompare (group_key x) (group_key y) = 0 \<and>
        (group_index x < group_index y \<or>
         group_index x = group_index y \<and> localeCompare (gn_name x) (gn_name y) \<le> 0))"
  by (auto simp: compare_nodes_def Let_def)

end

sublocale node_comparator \<subseteq> nodes: js_comparator "compare_nodes localeCompare"
proof
  show "compare_nodes localeCompare x y \<le> 0 \<or> compare_nodes localeCompare y x \<le> 0" for x y
    by (rule compare_nodes_flip)
  show "compare_nodes localeCompare x z \<le> 0"
    if "compare_nodes localeCompare x y \<le> 0" "compare_nodes localeCompare y z \<le> 0" for x y z
  proof -
    have eq: "localeCompare (group_key x) (group_key z) = 0"
      if "localeCompare (group_key x) (group_key y) = 0" "localeCompare (group_key y) (group_key z) = 0"
      using that locale_trans locale_zero by (metis antisym order_refl locale_antisym not_le)
    show ?thesis
      using that eq locale_trans [of "gn_name x" "gn_name y" "gn_name z"]
        locale_strict_trans [of "group_key x" "group_key y" "group_key z"]
      unfolding compare_nodes_le by auto
  qed
qed

context node_comparator begin

lemma sorted_level:
  "sorted_wrt (\<lambda>a b. compare_nodes localeCompare a b \<le> 0) (js_sort (compare_nodes localeCompare) ns)"
  by (rule nodes.sorted_js_sort)

end

interpretation code_unit_nodes: node_comparator byCodeUnit
  by unfold_locales (auto simp: byCodeUnit_def split: if_splits)

subsection \<open>Properties\<close>

text \<open>C10.
  A successful sort puts every node in exactly one level. A node comes after all of its
  dependencies that are in the graph, and no later than needed: a node of any level but the
  first depends on a node of the level right before its own.
\<close>

theorem sort_levels_topological:
  assumes "sort_nodes lc nodes = Inr levels"
  shows "mset (flatten levels) = mset (node_names nodes) \<and>
    (\<forall>i < length levels. \<forall>n \<in> set nodes. gn_name n \<in> set (levels ! i) \<longrightarrow>
       (\<forall>d \<in> set (gn_dependencies n) \<inter> set (node_names nodes). \<exists>j < i. d \<in> set (levels ! j)) \<and>
       (\<forall>k. i = Suc k \<longrightarrow> (\<exists>d \<in> set (gn_dependencies n). d \<in> set (levels ! k))))"
proof (intro conjI allI impI ballI)
  note d = sort_nodes_Inr_distinct [OF assms] and g = sort_nodes_greedy [OF assms]
  show "mset (flatten levels) = mset (node_names nodes)" using g(2) by (simp add: flatten_def)
  fix i n assume i: "i < length levels" and n: "n \<in> set nodes" "gn_name n \<in> set (levels ! i)"
  show "\<exists>j < i. d \<in> set (levels ! j)" if "d \<in> set (gn_dependencies n) \<inter> set (node_names nodes)" for d
    using greedy_levels_dependency [OF g(1) i n(1) d n(2)] that by auto
  show "\<exists>d \<in> set (gn_dependencies n). d \<in> set (levels ! k)" if "i = Suc k" for k
    using greedy_levels_earliest [OF g(1) _ n(1) d] i n(2) that by auto
qed

definition example_nodes :: "graph_node list" where
  "example_nodes =
     [\<lparr>gn_name = ''deploy'', gn_weight = 0, gn_dependencies = [''build'', ''test''], gn_group = None\<rparr>,
      \<lparr>gn_name = ''test'', gn_weight = 0, gn_dependencies = [''build''], gn_group = None\<rparr>,
      \<lparr>gn_name = ''lint'', gn_weight = 1, gn_dependencies = [''gone''], gn_group = None\<rparr>,
      \<lparr>gn_name = ''build'', gn_weight = 0, gn_dependencies = [], gn_group = None\<rparr>]"

lemma sort_example_nodes:
  "sort_nodes byCodeUnit example_nodes = Inr [[''build'', ''lint''], [''test''], [''deploy'']]"
  by code_simp

theorem sort_levels_topological_witness:
  "mset (flatten [[''build'', ''lint''], [''test''], [''deploy'']]) = mset (node_names example_nodes) \<and>
   (\<exists>d \<in> set [''build'', ''test'']. d \<in> set [''test''])"
  using sort_levels_topological [OF sort_example_nodes] by simp

text \<open>C11.
  For nodes with distinct names the sort fails exactly when the dependencies hold a cycle, and it
  fails with a dependency cycle: at least two names, the first equal to the last, each depending
  on the next.
\<close>

theorem sort_fails_iff_cycle:
  assumes "distinct (node_names nodes)"
  shows "((\<exists>levels. sort_nodes lc nodes = Inr levels) \<longleftrightarrow> (\<nexists>c. is_cycle nodes c)) \<and>
    (\<forall>e. sort_nodes lc nodes = Inl e \<longrightarrow> (\<exists>c. e = CyclicDependencyError c \<and> is_cycle nodes c))"
proof -
  have "\<exists>c. e = CyclicDependencyError c \<and> is_cycle nodes c" if "sort_nodes lc nodes = Inl e" for e
    using that level_loop_cyclic [of lc nodes "[]" "[]" e] assms by (simp add: sort_nodes_level_loop)
  then show ?thesis using cycle_has_no_levels by (metis sum.exhaust)
qed

definition cyclic_nodes :: "graph_node list" where
  "cyclic_nodes =
     [\<lparr>gn_name = ''a'', gn_weight = 0, gn_dependencies = [], gn_group = None\<rparr>,
      \<lparr>gn_name = ''b'', gn_weight = 0, gn_dependencies = [''a'', ''c''], gn_group = None\<rparr>,
      \<lparr>gn_name = ''c'', gn_weight = 0, gn_dependencies = [''b''], gn_group = None\<rparr>]"

lemma sort_cyclic_nodes:
  "sort_nodes byCodeUnit cyclic_nodes = Inl (CyclicDependencyError [''b'', ''c'', ''b''])"
  by code_simp

theorem sort_fails_iff_cycle_witness:
  "is_cycle cyclic_nodes [''b'', ''c'', ''b''] \<and> (\<exists>c. is_cycle cyclic_nodes c)"
proof -
  have d: "distinct (node_names cyclic_nodes)" by (simp add: cyclic_nodes_def)
  show ?thesis using sort_fails_iff_cycle [OF d, of byCodeUnit] sort_cyclic_nodes by auto
qed

text \<open>
  The sort refuses nodes whose names are not distinct, and only those, naming each repeated name
  once and in order.
\<close>

theorem sort_refuses_duplicates:
  "((\<exists>ds. sort_nodes lc nodes = Inl (DuplicateNodeNameError ds)) \<longleftrightarrow> \<not> distinct (node_names nodes)) \<and>
   (\<forall>ds. sort_nodes lc nodes = Inl (DuplicateNodeNameError ds) \<longrightarrow>
      set ds = {n. 1 < count_list (node_names nodes) n} \<and> sorted ds)"
proof (cases "distinct (node_names nodes)")
  case True
  then have "sort_nodes lc nodes \<noteq> Inl (DuplicateNodeNameError ds)" for ds
    using level_loop_cyclic [of lc nodes "[]" "[]"] by (auto simp: sort_nodes_level_loop)
  with True show ?thesis by blast
next
  case False
  let ?ds = "js_sort byCodeUnit (duplicate_names [] [] (node_names nodes))"
  have "sort_nodes lc nodes = Inl (DuplicateNodeNameError ?ds)"
    using False by (simp add: sort_nodes_def duplicate_names_Nil_iff)
  moreover have "sorted ?ds"
    using code_unit.sorted_js_sort [of "duplicate_names [] [] (node_names nodes)"]
    by (simp add: byCodeUnit_le_iff)
  moreover have "n \<in> set (node_names nodes)" if "1 < count_list (node_names nodes) n" for n
    using that by (metis count_list_pos_iff less_trans zero_less_one)
  then have "set ?ds = {n. 1 < count_list (node_names nodes) n}"
    unfolding set_js_sort set_duplicate_names by auto
  ultimately show ?thesis using False by simp
qed

theorem sort_refuses_duplicates_witness:
  "set [''a'', ''b''] = {n. 1 < count_list [''b'', ''a'', ''b'', ''a'', ''c''] n} \<and> sorted [''a'', ''b'']"
proof -
  let ?nodes = "map (\<lambda>n. \<lparr>gn_name = n, gn_weight = 0, gn_dependencies = [], gn_group = None\<rparr>)
      [''b'', ''a'', ''b'', ''a'', ''c'']"
  have "sort_nodes byCodeUnit ?nodes = Inl (DuplicateNodeNameError [''a'', ''b''])" by code_simp
  then have "set [''a'', ''b''] = {n. 1 < count_list (node_names ?nodes) n} \<and> sorted [''a'', ''b'']"
    using sort_refuses_duplicates [of byCodeUnit ?nodes] by blast
  then show ?thesis by (simp only: list.map graph_node.simps)
qed

text \<open>
  With a consistent \<open>localeCompare\<close> each level lists its nodes by weight, then group key, then
  index in the group, then name, so that the iterations of one \<open>forEach\<close> stay in list order.
\<close>

theorem sort_level_order:
  assumes "node_comparator lc" and "sort_nodes lc nodes = Inr levels" and "i < length levels"
  shows "\<exists>ns. levels ! i = node_names ns \<and> set ns \<subseteq> set nodes \<and>
           sorted_wrt (\<lambda>a b. compare_nodes lc a b \<le> 0) ns"
proof -
  have "levels ! i = node_names (js_sort (compare_nodes lc) (ready_nodes nodes (concat (take i levels))))"
    using sort_nodes_greedy(1) [OF assms(2)] assms(3) by (simp add: greedy_levels_def)
  moreover have "sorted_wrt (\<lambda>a b. compare_nodes lc a b \<le> 0)
      (js_sort (compare_nodes lc) (ready_nodes nodes (concat (take i levels))))"
    by (rule node_comparator.sorted_level [OF assms(1)])
  moreover have "set (js_sort (compare_nodes lc) (ready_nodes nodes (concat (take i levels)))) \<subseteq> set nodes"
    by (auto simp: ready_nodes_def)
  ultimately show ?thesis by blast
qed

theorem sort_level_order_witness:
  "\<exists>ns. [''build'', ''lint''] = node_names ns \<and> set ns \<subseteq> set example_nodes \<and>
     sorted_wrt (\<lambda>a b. compare_nodes byCodeUnit a b \<le> 0) ns"
  using sort_level_order [OF code_unit_nodes.node_comparator_axioms sort_example_nodes, of 0] by simp

end
