(* ===== verification/Workflow_Definition.thy ===== *)
theory Workflow_Definition
  imports Trigger_Condition Input_Validation Step_Run Topological_Sort Fan_Out
begin

text \<open>
  \<^verbatim>\<open>Step\<close>, \<^verbatim>\<open>Job\<close> and \<^verbatim>\<open>Workflow\<close> of
  \<^verbatim>\<open>src/src/domain/workflows/step.ts\<close>, \<^verbatim>\<open>job.ts\<close> and
  \<^verbatim>\<open>workflow.ts\<close>: the definition a run follows, with the fields the modelled
  services read, and the queries on it. Placement and descriptive fields are left out.
\<close>

datatype step_task =
    Model_method string
  | Nested_workflow string
  | Manual_approval string "rat option"
  | Assert_task string string assert_severity
  | Wait_for_signal rat json_schema "string option" "rat option"

record step_def =
  st_name :: string
  st_task :: step_task
  st_forEach :: "(string \<times> string) option"
  st_dependsOn :: "(string \<times> trigger_condition) list"
  st_weight :: rat
  st_allowFailure :: bool
  st_guard :: "string option"

record job_def =
  jb_name :: string
  jb_steps :: "step_def list"
  jb_dependsOn :: "(string \<times> trigger_condition) list"
  jb_weight :: rat
  jb_fanOut :: "fan_out_policy option"

record workflow_def =
  wd_id :: string
  wd_name :: string
  wd_inputs :: "inputs_schema option"
  wd_jobs :: "job_def list"
  wd_autoResume :: "bool option"

definition step_getDependencyNames :: "step_def \<Rightarrow> string list" where
  "step_getDependencyNames s = map fst (st_dependsOn s)"

definition job_getDependencyNames :: "job_def \<Rightarrow> string list" where
  "job_getDependencyNames j = map fst (jb_dependsOn j)"

definition job_getStep :: "job_def \<Rightarrow> string \<Rightarrow> step_def option" where
  "job_getStep j name = find (\<lambda>s. st_name s = name) (jb_steps j)"

definition workflow_getJob :: "workflow_def \<Rightarrow> string \<Rightarrow> job_def option" where
  "workflow_getJob w name = find (\<lambda>j. jb_name j = name) (wd_jobs w)"

definition addJob :: "job_def \<Rightarrow> workflow_def \<Rightarrow> string + workflow_def" where
  "addJob j w =
     (if list_ex (\<lambda>k. jb_name k = jb_name j) (wd_jobs w)
      then Inl (''Job with name '' @ [CHR 0x27] @ jb_name j @ [CHR 0x27] @ '' already exists'')
      else Inr (w\<lparr>wd_jobs := wd_jobs w @ [j]\<rparr>))"

definition workflowDeclaresInputs :: "inputs_schema option \<Rightarrow> bool" where
  "workflowDeclaresInputs inputs =
     (case inputs of
        None \<Rightarrow> False
      | Some s \<Rightarrow>
          (case is_properties s of None \<Rightarrow> False | Some ps \<Rightarrow> ps \<noteq> []) \<or>
          (is_additionalProperties s \<noteq> None \<and> is_additionalProperties s \<noteq> Some (Inl False)))"

definition shouldAutoResume :: "bool \<Rightarrow> workflow_def \<Rightarrow> bool" where
  "shouldAutoResume serverDefault w =
     (case wd_autoResume w of
        Some b \<Rightarrow> b
      | None \<Rightarrow> serverDefault \<and> \<not> workflowDeclaresInputs (wd_inputs w))"

lemma addJob_distinct:
  "distinct (map jb_name (wd_jobs w)) \<Longrightarrow> addJob j w = Inr w' \<Longrightarrow> distinct (map jb_name (wd_jobs w'))"
  by (fastforce simp: addJob_def list_ex_iff split: if_splits)

lemma job_getStep_name: "job_getStep j n = Some s \<Longrightarrow> st_name s = n \<and> s \<in> set (jb_steps j)"
  by (auto simp: job_getStep_def dest: find_Some_in_set)

lemma workflow_getJob_name: "workflow_getJob w n = Some j \<Longrightarrow> jb_name j = n \<and> j \<in> set (wd_jobs w)"
  by (auto simp: workflow_getJob_def dest: find_Some_in_set)

end
