(* ===== verification/Workflow_Run.thy ===== *)
theory Workflow_Run
  imports Job_Run Workflow_Definition
begin

text \<open>
  \<^verbatim>\<open>WorkflowRun\<close> of \<^verbatim>\<open>src/src/domain/workflows/workflow_run.ts\<close> with
  \<^verbatim>\<open>StepStart\<close> of \<^verbatim>\<open>step_start.ts\<close>: the record of a run, its life cycle, who owns it,
  what an interruption and a recovery make of it, and its stored form.

  Values the run only carries for other components (provenance maps, deferred expressions, written
  references, the triggering principal) are kept as JSON. The values of sensitive inputs attached to
  a live run, and what they replace on a save, are not part of the record.
\<close>

section \<open>Data\<close>

datatype wf_status = R_pending | R_running | R_suspended | R_succeeded | R_failed | R_cancelled | R_interrupted

record parent_run_ref = nested_run_ref +
  pa_jobName :: string
  pa_stepName :: string
  pa_nestingDepth :: int
  pa_ancestorWorkflowNames :: "string list"

record run_plan =
  pl_fingerprint :: string
  pl_evaluatedWorkflowId :: "string option"
  pl_definitionFingerprint :: "string option"

record run_start_key =
  sk_lookup :: string
  sk_salt :: string
  sk_fingerprint :: string

type_synonym owner_ref = "int option \<times> string option"

record workflow_run =
  r_id :: string
  r_workflowId :: string
  r_workflowName :: string
  r_status :: wf_status
  r_startedAt :: "time option"
  r_completedAt :: "time option"
  r_jobs :: "job_run list"
  r_logFile :: "string option"
  r_tags :: "(string \<times> string) list"
  r_workflowDataArtifacts :: "data_artifact_ref list"
  r_inputs :: json_object
  r_resumeInputs :: "string list"
  r_pid :: "int option"
  r_initiatedBy :: "string option"
  r_instanceId :: "string option"
  r_triggerSource :: "string option"
  r_references :: "(string \<times> string) list option"
  r_runPlan :: "run_plan option"
  r_inheritedExpressions :: "string list"
  r_deferredExpressions :: "json list"
  r_ownerBeforeResume :: "owner_ref option"
  r_writtenReferences :: "json list"
  r_sensitiveFormat :: "int option"
  r_parentRun :: "parent_run_ref kept option"
  r_triggeringPrincipal :: "json option"
  r_allowedVaults :: "string list option"
  r_recovered :: bool
  r_client :: "string option"
  r_inputsProvenance :: "json option"
  r_persistedInputsProvenance :: "json option"
  r_replayedEvaluatedCache :: bool
  r_resumedAt :: "time option"
  r_startKey :: "run_start_key option"

text \<open>\<open>fresh\<close> is the \<^verbatim>\<open>crypto.randomUUID()\<close> of the new run.\<close>

definition create_run ::
  "string \<Rightarrow> workflow_def \<Rightarrow> (string \<times> string) list option \<Rightarrow> string option \<Rightarrow> string option \<Rightarrow> string option
   \<Rightarrow> workflow_run" where
  "create_run fresh w tags initiatedBy triggerSource client =
     \<lparr>r_id = fresh, r_workflowId = wd_id w, r_workflowName = wd_name w, r_status = R_pending,
      r_startedAt = None, r_completedAt = None,
      r_jobs = map (\<lambda>j. pending_job (jb_name j) (map st_name (jb_steps j))) (wd_jobs w),
      r_logFile = None, r_tags = or_else [] tags, r_workflowDataArtifacts = [], r_inputs = [],
      r_resumeInputs = [], r_pid = None, r_initiatedBy = initiatedBy, r_instanceId = None,
      r_triggerSource = triggerSource, r_references = None, r_runPlan = None,
      r_inheritedExpressions = [], r_deferredExpressions = [], r_ownerBeforeResume = None,
      r_writtenReferences = [], r_sensitiveFormat = None, r_parentRun = None,
      r_triggeringPrincipal = None, r_allowedVaults = None, r_recovered = False, r_client = client,
      r_inputsProvenance = None, r_persistedInputsProvenance = None,
      r_replayedEvaluatedCache = False, r_resumedAt = None, r_startKey = None\<rparr>"

section \<open>Queries\<close>

definition run_getStatus :: "workflow_run \<Rightarrow> string \<Rightarrow> run_status option" where
  "run_getStatus r ref = map_option jr_status (find (\<lambda>j. jr_jobName j = ref) (r_jobs r))"

definition run_getJob :: "workflow_run \<Rightarrow> string \<Rightarrow> job_run option" where
  "run_getJob r name = find (\<lambda>j. jr_jobName j = name) (r_jobs r)"

definition isCancellable :: "workflow_run \<Rightarrow> bool" where
  "isCancellable r \<longleftrightarrow> r_status r = R_pending \<or> r_status r = R_running \<or> r_status r = R_suspended"

definition awaitsResumeAfterRecovery :: "workflow_run \<Rightarrow> bool" where
  "awaitsResumeAfterRecovery r \<longleftrightarrow> r_status r = R_suspended \<and> r_recovered r"

definition all_steps :: "workflow_run \<Rightarrow> (string \<times> step_run) list" where
  "all_steps r = concat (map (\<lambda>j. map (\<lambda>s. (jr_jobName j, s)) (jr_steps j)) (r_jobs r))"

definition unknownSteps :: "workflow_run \<Rightarrow> string list" where
  "unknownSteps r = map (sr_stepName \<circ> snd) (filter (\<lambda>js. sr_status (snd js) = Unknown) (all_steps r))"

record failed_step_ref =
  fr_jobName :: string
  fr_stepName :: string
  fr_forEachTemplate :: "string option"
  fr_approvalRejected :: bool
  fr_failureKind :: "failure_kind option"

definition failedSteps :: "workflow_run \<Rightarrow> failed_step_ref list" where
  "failedSteps r =
     map (\<lambda>(job, s). \<lparr>fr_jobName = job, fr_stepName = sr_stepName s, fr_forEachTemplate = sr_forEachTemplate s,
            fr_approvalRejected = (case sr_approvalDecision s of Some d \<Rightarrow> \<not> ad_approved d | None \<Rightarrow> False),
            fr_failureKind = sr_failureKind s\<rparr>)
       (filter (\<lambda>(job, s). sr_status s = Failed \<and> \<not> sr_allowedFailure s) (all_steps r))"

definition findWaitingApprovalStep :: "workflow_run \<Rightarrow> (string \<times> string) option" where
  "findWaitingApprovalStep r =
     map_option (\<lambda>(job, s). (job, sr_stepName s))
       (find (\<lambda>(job, s). sr_status s = Waiting_approval \<and> \<not> isNestedWait s) (all_steps r))"

definition findSignalWaits :: "workflow_run \<Rightarrow> (string \<times> string \<times> signal_wait option) list" where
  "findSignalWaits r =
     map (\<lambda>(job, s). (job, sr_stepName s, signalWait s)) (filter (\<lambda>(job, s). isSignalWait s) (all_steps r))"

definition findOpenSignalWait :: "time \<Rightarrow> workflow_run \<Rightarrow> (string \<times> string \<times> signal_wait) option" where
  "findOpenSignalWait now r =
     map_option (\<lambda>(job, s, w). (job, s, the w))
       (find (\<lambda>(job, s, w). w \<noteq> None \<and> \<not> isExpired (the w) now) (findSignalWaits r))"

definition findNestedWaits :: "workflow_run \<Rightarrow> (string \<times> string \<times> nested_run_ref kept) list" where
  "findNestedWaits r =
     map (\<lambda>(job, s). (job, sr_stepName s, the (sr_nestedRun s))) (filter (\<lambda>(job, s). isNestedWait s) (all_steps r))"

definition detachedNestedRuns :: "workflow_run \<Rightarrow> (string \<times> string \<times> nested_run_ref) list" where
  "detachedNestedRuns r =
     concat (map (\<lambda>(job, s). if sr_detachedNestedRun s
                             then (case sr_nestedRun s of Some (Valid ref) \<Rightarrow> [(job, sr_stepName s, ref)] | _ \<Rightarrow> [])
                             else []) (all_steps r))"

definition isAwaitingResume :: "workflow_run \<Rightarrow> bool" where
  "isAwaitingResume r \<longleftrightarrow> r_status r = R_suspended \<and> findWaitingApprovalStep r = None \<and>
     findNestedWaits r = [] \<and> findSignalWaits r = []"

definition reportable_failure :: "step_run \<Rightarrow> bool" where
  "reportable_failure s \<longleftrightarrow> sr_status s = Failed \<and> \<not> sr_allowedFailure s \<and> \<not> sr_detachedNestedRun s"

text \<open>A failed step that ran is reported before one the run's end settled.\<close>

definition failureInfo :: "workflow_run \<Rightarrow> string option \<times> string option" where
  "failureInfo r =
     (let failed = filter reportable_failure (map snd (all_steps r)) in
      case find (\<lambda>s. \<not> sr_settledByAbort s) failed of
        Some s \<Rightarrow> (Some (sr_stepName s), sr_error s)
      | None \<Rightarrow> (case failed of [] \<Rightarrow> (None, None) | s # _ \<Rightarrow> (Some (sr_stepName s), sr_error s)))"

definition computeStepProgress :: "workflow_run \<Rightarrow> (nat \<times> nat) option" where
  "computeStepProgress r =
     (let steps = map snd (all_steps r);
          completed = length (filter (\<lambda>s. sr_status s \<in> {Succeeded, Skipped, Failed, Unknown}) steps) in
      if steps = [] then None else Some (completed, length steps))"

definition isServeDrivenRun :: "workflow_run \<Rightarrow> bool" where
  "isServeDrivenRun r \<longleftrightarrow> r_triggeringPrincipal r \<noteq> None \<or> r_instanceId r \<noteq> None"

definition isGuardedRunRecord :: "workflow_run \<Rightarrow> bool" where
  "isGuardedRunRecord r \<longleftrightarrow> isServeDrivenRun r \<or>
     list_ex (\<lambda>j. list_ex (\<lambda>s. sr_approvalDecision s \<noteq> None) (jr_steps j)) (r_jobs r)"

text \<open>\<^verbatim>\<open>stepRunKey\<close>: one key per pair of names.\<close>

definition stepRunKey :: "string \<Rightarrow> string \<Rightarrow> string" where
  "stepRunKey jobName stepName = json_stringify (JArr [JStr jobName, JStr stepName])"

lemma stepRunKey_inject [simp]: "stepRunKey a b = stepRunKey c d \<longleftrightarrow> a = c \<and> b = d"
  unfolding stepRunKey_def by (rule json_stringify_pair_inject)

section \<open>Operations\<close>

definition map_jobs :: "(job_run \<Rightarrow> job_run) \<Rightarrow> workflow_run \<Rightarrow> workflow_run" where
  "map_jobs f r = r\<lparr>r_jobs := map f (r_jobs r)\<rparr>"

definition update_job :: "string \<Rightarrow> (job_run \<Rightarrow> job_run) \<Rightarrow> workflow_run \<Rightarrow> workflow_run" where
  "update_job name f r = r\<lparr>r_jobs := update_first (\<lambda>j. jr_jobName j = name) f (r_jobs r)\<rparr>"

definition map_steps :: "(step_run \<Rightarrow> step_run) \<Rightarrow> job_run \<Rightarrow> job_run" where
  "map_steps f j = j\<lparr>jr_steps := map f (jr_steps j)\<rparr>"

subsection \<open>Ownership\<close>

definition takeOwnership :: "int \<Rightarrow> string option \<Rightarrow> workflow_run \<Rightarrow> workflow_run" where
  "takeOwnership pid instanceId r =
     (let kept = (case r_ownerBeforeResume r of None \<Rightarrow> Some (r_pid r, r_instanceId r) | o' \<Rightarrow> o') in
      r\<lparr>r_ownerBeforeResume := kept, r_pid := Some pid, r_instanceId := instanceId\<rparr>)"

definition releaseOwnership :: "workflow_run \<Rightarrow> workflow_run" where
  "releaseOwnership r =
     (case r_ownerBeforeResume r of
        None \<Rightarrow> r
      | Some (pid, instanceId) \<Rightarrow>
          r\<lparr>r_pid := pid, r_instanceId := instanceId, r_ownerBeforeResume := None\<rparr>)"

subsection \<open>Life cycle\<close>

definition run_start :: "time \<Rightarrow> int option \<Rightarrow> string option \<Rightarrow> workflow_run \<Rightarrow> workflow_run" where
  "run_start now pid instanceId r =
     (let r' = r\<lparr>r_status := R_running, r_startedAt := Some now, r_pid := pid\<rparr> in
      if instanceId \<noteq> None \<and> instanceId \<noteq> Some [] then r'\<lparr>r_instanceId := instanceId\<rparr> else r')"

definition nested_wait_error :: "step_run \<Rightarrow> string" where
  "nested_wait_error s =
     ''Detached: the run ended while this step waited on '' @
     (case sr_nestedRun s of
        Some (Valid ref) \<Rightarrow> ''run '' @ nr_runId ref @ '' of nested workflow '' @ [CHR 0x22] @ nr_workflowName ref @ [CHR 0x22]
      | _ \<Rightarrow> ''its nested workflow run'') @ ''.''"

definition detach_job :: "time \<Rightarrow> job_run \<Rightarrow> job_run" where
  "detach_job now j =
     (let detached = list_ex isNestedWait (jr_steps j);
          j' = map_steps (\<lambda>s. if isNestedWait s then detachNestedRun now (nested_wait_error s) s else s) j;
          unfinished = list_ex (\<lambda>s. isUnfinishedStatus (sr_status s)) (jr_steps j') in
      if detached \<and> \<not> unfinished \<and> jr_status j' \<in> {Pending, Running, Waiting_approval}
      then job_fail now j' else j')"

definition detachNestedWaits :: "time \<Rightarrow> workflow_run \<Rightarrow> workflow_run" where
  "detachNestedWaits now r = map_jobs (detach_job now) r"

definition run_complete :: "time \<Rightarrow> workflow_run \<Rightarrow> workflow_run" where
  "run_complete now r =
     (if r_status r = R_cancelled \<or> r_status r = R_interrupted then r
      else
        let r' = detachNestedWaits now r;
            anyNonTerminal = list_ex (\<lambda>j. jr_status j \<noteq> Succeeded \<and> jr_status j \<noteq> Skipped) (r_jobs r') in
        releaseOwnership
          (r'\<lparr>r_status := (if anyNonTerminal then R_failed else R_succeeded), r_completedAt := Some now\<rparr>))"

definition endAsCancelled :: "time \<Rightarrow> string option \<Rightarrow> workflow_run \<Rightarrow> workflow_run" where
  "endAsCancelled now reason r =
     (if \<not> isCancellable r then r
      else
        let r' = (detachNestedWaits now r)\<lparr>r_status := R_cancelled, r_completedAt := Some now\<rparr>;
            r'' = (if truthy reason then r'\<lparr>r_tags := AList.update ''cancel_reason'' (the reason) (r_tags r')\<rparr> else r') in
        releaseOwnership r'')"

definition recordCancelReason :: "string \<Rightarrow> workflow_run \<Rightarrow> workflow_run" where
  "recordCancelReason reason r =
     (if r_status r \<noteq> R_cancelled \<or> reason = [] then r
      else r\<lparr>r_tags := AList.update ''cancel_reason'' reason (r_tags r)\<rparr>)"

definition run_suspend :: "json_object option \<Rightarrow> workflow_run \<Rightarrow> workflow_run" where
  "run_suspend inputs r =
     (let r' = r\<lparr>r_status := R_suspended\<rparr>;
          r'' = (case inputs of None \<Rightarrow> r' | Some i \<Rightarrow> r'\<lparr>r_inputs := i\<rparr>) in
      releaseOwnership r'')"

definition resumeFromSuspended :: "time \<Rightarrow> int \<Rightarrow> string option \<Rightarrow> workflow_run \<Rightarrow> workflow_run" where
  "resumeFromSuspended now pid instanceId r =
     takeOwnership pid instanceId
       (r\<lparr>r_status := R_running, r_completedAt := None, r_recovered := False, r_resumedAt := Some now\<rparr>)"

definition resumeFromFailed :: "time \<Rightarrow> int \<Rightarrow> string option \<Rightarrow> workflow_run \<Rightarrow> workflow_run" where
  "resumeFromFailed now pid instanceId r =
     takeOwnership pid instanceId (r\<lparr>r_status := R_running, r_completedAt := None, r_resumedAt := Some now\<rparr>)"

subsection \<open>Data a commit refused\<close>

definition names_refused :: "(string \<times> int) list \<Rightarrow> data_artifact_ref list \<Rightarrow> bool" where
  "names_refused refused artifacts \<longleftrightarrow>
     list_ex (\<lambda>a. da_dataId a @ ''@'' @ int_text (da_version a) \<in>
                    set (map (\<lambda>(d, v). d @ ''@'' @ int_text v) refused)) artifacts"

definition refused_step :: "(string \<times> int) list \<Rightarrow> step_run \<Rightarrow> bool" where
  "refused_step refused s \<longleftrightarrow> sr_status s \<noteq> Failed \<and> names_refused refused (sr_dataArtifacts s)"

definition fail_refused_job :: "time \<Rightarrow> (string \<times> int) list \<Rightarrow> string \<Rightarrow> job_run \<Rightarrow> job_run" where
  "fail_refused_job now refused reason j =
     (let j' = map_steps (\<lambda>s. if refused_step refused s then step_fail now reason None s else s) j in
      if list_ex (refused_step refused) (jr_steps j) \<and> jr_status j = Succeeded then job_fail now j' else j')"

definition failStepsNamingRefusedData ::
  "time \<Rightarrow> (string \<times> int) list \<Rightarrow> string \<Rightarrow> workflow_run \<Rightarrow> step_run list \<times> workflow_run" where
  "failStepsNamingRefusedData now refused reason r =
     (let failed = map (step_fail now reason None) (filter (refused_step refused) (map snd (all_steps r)));
          r' = map_jobs (fail_refused_job now refused reason) r in
      (failed,
       if (failed \<noteq> [] \<or> names_refused refused (r_workflowDataArtifacts r)) \<and> r_status r = R_succeeded
       then r'\<lparr>r_status := R_failed\<rparr> else r'))"

subsection \<open>Interruption and recovery\<close>

definition stopped_step :: "step_run \<Rightarrow> bool" where
  "stopped_step s \<longleftrightarrow> sr_status s = Failed \<and> sr_stoppedByAbort s"

definition interrupt_step :: "time \<Rightarrow> string \<Rightarrow> step_run \<Rightarrow> step_run" where
  "interrupt_step now reason s =
     (if sr_status s = Running \<or> stopped_step s
      then step_markUnknown now (Some (''interrupted: '' @ reason)) s else s)"

definition interrupt_job :: "time \<Rightarrow> string \<Rightarrow> job_run \<Rightarrow> job_run" where
  "interrupt_job now reason j =
     (let stopped = list_ex stopped_step (jr_steps j);
          j' = map_steps (interrupt_step now reason) j in
      if jr_status j = Running \<or> (stopped \<and> (jr_status j = Failed \<or> jr_status j = Succeeded))
      then job_markUnknown now j' else j')"

definition run_interrupt :: "time \<Rightarrow> string \<Rightarrow> workflow_run \<Rightarrow> workflow_run" where
  "run_interrupt now reason r =
     (if r_status r \<in> {R_succeeded, R_failed, R_interrupted} then r
      else releaseOwnership
        ((map_jobs (interrupt_job now reason) r)
          \<lparr>r_status := R_interrupted, r_completedAt := Some now,
           r_tags := AList.update ''interrupt_reason'' reason (r_tags r)\<rparr>))"

record start_record =
  ss_workflowId :: string
  ss_runId :: string
  ss_jobName :: string
  ss_stepName :: string
  ss_startedAt :: time

text \<open>
  The index the code builds maps a job's name to its steps, a later entry of the same name
  replacing an earlier one; the job itself is the first of its name.
\<close>

definition indexed_step :: "workflow_run \<Rightarrow> string \<Rightarrow> string \<Rightarrow> step_run option" where
  "indexed_step r jobName stepName =
     Option.bind (find (\<lambda>j. jr_jobName j = jobName) (rev (r_jobs r)))
       (\<lambda>j. find (\<lambda>s. sr_stepName s = stepName) (rev (jr_steps j)))"

definition start_unrecorded :: "workflow_run \<Rightarrow> start_record \<Rightarrow> bool" where
  "start_unrecorded r st =
     (case indexed_step r (ss_jobName st) (ss_stepName st) of
        None \<Rightarrow> True
      | Some s \<Rightarrow> sr_status s = Pending \<or> (case sr_startedAt s of None \<Rightarrow> True | Some t \<Rightarrow> t < ss_startedAt st))"

definition journalled :: "workflow_run \<Rightarrow> start_record \<Rightarrow> bool" where
  "journalled r st \<longleftrightarrow> ss_runId st = r_id r \<and> run_getJob r (ss_jobName st) \<noteq> None \<and> start_unrecorded r st"

definition journalledStarts :: "workflow_run \<Rightarrow> start_record list \<Rightarrow> (string \<times> string) list" where
  "journalledStarts r starts =
     nub (map (\<lambda>st. (ss_jobName st, ss_stepName st)) (filter (journalled r) starts))"

definition orphan_start :: "time \<Rightarrow> string \<Rightarrow> string \<times> string \<Rightarrow> workflow_run \<Rightarrow> workflow_run" where
  "orphan_start now reason js r =
     update_job (fst js) (\<lambda>j.
       let j1 = addExpandedStep (snd js) j in
       case getStep j1 (snd js) of
         None \<Rightarrow> j1
       | Some s \<Rightarrow>
           if sr_status s = Running then j1
           else
             let j2 = update_step (snd js)
                   (step_markUnknown now (Some (''interrupted: '' @ reason @ '' (start recorded)''))) j1 in
             if jr_status j2 \<noteq> Running then job_markUnknown now j2 else j2) r"

definition orphan_job :: "time \<Rightarrow> string \<Rightarrow> job_run \<Rightarrow> job_run" where
  "orphan_job now reason j =
     (if jr_status j \<noteq> Running \<or> list_ex (\<lambda>s. sr_status s = Running) (jr_steps j) then j
      else map_steps (\<lambda>s. if sr_status s = Pending
                          then step_markUnknown now (Some (''interrupted: '' @ reason @ '' (start not recorded)'')) s
                          else s) j)"

definition interruptOrphaned :: "time \<Rightarrow> string \<Rightarrow> start_record list \<Rightarrow> workflow_run \<Rightarrow> workflow_run" where
  "interruptOrphaned now reason starts r =
     run_interrupt now reason
       (if r_status r = R_running
        then map_jobs (orphan_job now reason) (fold (orphan_start now reason) (journalledStarts r starts) r)
        else r)"

definition run_ended :: "workflow_run \<Rightarrow> bool" where
  "run_ended r \<longleftrightarrow> r_status r \<in> {R_succeeded, R_failed, R_interrupted}"

definition start_not_recorded :: "workflow_run \<Rightarrow> job_run \<Rightarrow> bool" where
  "start_not_recorded r j \<longleftrightarrow> r_status r = R_running \<and> jr_status j = Running \<and>
     \<not> list_ex (\<lambda>s. sr_status s = Running) (jr_steps j)"

definition unknown_if_orphaned :: "workflow_run \<Rightarrow> job_run \<Rightarrow> step_run \<Rightarrow> bool" where
  "unknown_if_orphaned r j s \<longleftrightarrow>
     sr_status s = Unknown \<or> (start_not_recorded r j \<and> sr_status s = Pending) \<or>
     (\<not> run_ended r \<and> sr_status s = Running) \<or> (\<not> run_ended r \<and> stopped_step s)"

definition unknownStepsIfOrphaned :: "start_record list \<Rightarrow> workflow_run \<Rightarrow> string list" where
  "unknownStepsIfOrphaned starts r =
     nub ((if r_status r = R_running then map snd (journalledStarts r starts) else []) @
          concat (map (\<lambda>j. map sr_stepName (filter (unknown_if_orphaned r j) (jr_steps j))) (r_jobs r)))"

text \<open>\<open>latest\<close> keeps the newest start of each step, in the order the steps were first met.\<close>

definition keep_latest :: "start_record \<Rightarrow> start_record list \<Rightarrow> start_record list" where
  "keep_latest st kept =
     (let same = (\<lambda>k. ss_jobName k = ss_jobName st \<and> ss_stepName k = ss_stepName st) in
      case find same kept of
        None \<Rightarrow> kept @ [st]
      | Some k \<Rightarrow> if ss_startedAt k < ss_startedAt st then update_first same (\<lambda>_. st) kept else kept)"

definition latest_starts :: "workflow_run \<Rightarrow> start_record list \<Rightarrow> start_record list" where
  "latest_starts r starts =
     fold keep_latest (filter (\<lambda>st. case r_resumedAt r of None \<Rightarrow> True | Some t \<Rightarrow> t \<le> ss_startedAt st) starts) []"

definition apply_start :: "start_record list \<Rightarrow> string \<times> string \<Rightarrow> workflow_run \<Rightarrow> workflow_run" where
  "apply_start latest js r =
     (case find (\<lambda>st. ss_jobName st = fst js \<and> ss_stepName st = snd js) latest of
        None \<Rightarrow> r
      | Some st \<Rightarrow>
          update_job (fst js) (\<lambda>j.
            let j1 = addExpandedStep (snd js) j;
                j2 = update_step (snd js) (\<lambda>s.
                       step_start (ss_startedAt st) (if sr_status s \<noteq> Pending then step_resetToPending s else s)) j1 in
            if jr_status j2 = Pending then job_start (ss_startedAt st) j2 else j2) r)"

definition applyStepStarts :: "start_record list \<Rightarrow> workflow_run \<Rightarrow> workflow_run" where
  "applyStepStarts starts r =
     (if r_status r \<noteq> R_running then r
      else
        let latest = latest_starts r starts in
        fold (apply_start latest) (journalledStarts r latest) r)"

definition reset_unknown_job :: "job_run \<Rightarrow> job_run" where
  "reset_unknown_job j =
     (let j' = map_steps (\<lambda>s. if sr_status s = Unknown then step_resetToPending s else s) j in
      if jr_status j' = Unknown then job_resetToPending j' else j')"

definition resetUnknownStepsForRecovery :: "workflow_run \<Rightarrow> wf_status + workflow_run" where
  "resetUnknownStepsForRecovery r =
     (if r_status r \<noteq> R_interrupted then Inl (r_status r)
      else Inr ((map_jobs reset_unknown_job r)
             \<lparr>r_status := R_suspended, r_completedAt := None, r_recovered := True\<rparr>))"

subsection \<open>Resuming\<close>

definition reset_job_from :: "string set \<Rightarrow> job_run \<Rightarrow> job_run" where
  "reset_job_from keys j =
     (let hit = (\<lambda>s. stepRunKey (jr_jobName j) (sr_stepName s) \<in> keys);
          j' = map_steps (\<lambda>s. if hit s then step_resetToPending (clearResetMarker s) else clearResetMarker s) j in
      if list_ex hit (jr_steps j) then job_resetToPending j' else j')"

definition mark_tracked :: "string \<times> string \<Rightarrow> workflow_run \<Rightarrow> workflow_run" where
  "mark_tracked ref r = update_job (fst ref) (update_step (snd ref) markResetByResume) r"

definition resetForResumeFrom :: "(string \<times> string) list \<Rightarrow> (string \<times> string) list \<Rightarrow> workflow_run \<Rightarrow> workflow_run" where
  "resetForResumeFrom stepsToReset tracked r =
     fold mark_tracked tracked
       (map_jobs (reset_job_from (set (map (\<lambda>(j, s). stepRunKey j s) stepsToReset))) r)"

definition reopen_job :: "job_run \<Rightarrow> job_run" where
  "reopen_job j =
     (let j' = map_steps (\<lambda>s. if sr_settledByAbort s then step_resetToPending s else s) j in
      if holdsAbortedWork j \<and> jr_status j' \<in> {Succeeded, Failed, Skipped, Unknown}
      then job_resetToPending j' else j')"

definition reopenAbortedWork :: "workflow_run \<Rightarrow> workflow_run" where
  "reopenAbortedWork r = map_jobs reopen_job r"

definition recordResumeInput :: "string \<Rightarrow> string list \<Rightarrow> string list" where
  "recordResumeInput key keys = (if key \<in> set keys then keys else keys @ [key])"

definition recordResumeInputs :: "string list \<Rightarrow> workflow_run \<Rightarrow> workflow_run" where
  "recordResumeInputs keys r = r\<lparr>r_resumeInputs := fold recordResumeInput keys (r_resumeInputs r)\<rparr>"

subsection \<open>What the run carries\<close>

definition recordTriggeringPrincipal :: "json \<Rightarrow> workflow_run \<Rightarrow> workflow_run" where
  "recordTriggeringPrincipal p r = r\<lparr>r_triggeringPrincipal := Some p\<rparr>"

definition recordAllowedVaults :: "string list \<Rightarrow> workflow_run \<Rightarrow> workflow_run" where
  "recordAllowedVaults vs r = r\<lparr>r_allowedVaults := Some vs\<rparr>"

definition recordStartKey :: "run_start_key \<Rightarrow> workflow_run \<Rightarrow> workflow_run" where
  "recordStartKey k r = r\<lparr>r_startKey := Some k\<rparr>"

definition clearStartKey :: "workflow_run \<Rightarrow> workflow_run" where
  "clearStartKey r = r\<lparr>r_startKey := None\<rparr>"

definition setReferences :: "(string \<times> string) list \<Rightarrow> workflow_run \<Rightarrow> workflow_run" where
  "setReferences refs r = r\<lparr>r_references := Some refs\<rparr>"

definition recordParentRun :: "parent_run_ref \<Rightarrow> workflow_run \<Rightarrow> workflow_run" where
  "recordParentRun p r = r\<lparr>r_parentRun := Some (Valid p)\<rparr>"

definition addWorkflowDataArtifact :: "data_artifact_ref \<Rightarrow> workflow_run \<Rightarrow> workflow_run" where
  "addWorkflowDataArtifact a r = r\<lparr>r_workflowDataArtifacts := r_workflowDataArtifacts r @ [a]\<rparr>"

definition setLogFile :: "string \<Rightarrow> workflow_run \<Rightarrow> workflow_run" where
  "setLogFile p r = r\<lparr>r_logFile := Some p\<rparr>"

definition captureRunPlan :: "string \<Rightarrow> string option \<Rightarrow> string option \<Rightarrow> workflow_run \<Rightarrow> workflow_run" where
  "captureRunPlan fingerprint evaluatedId definitionFp r =
     r\<lparr>r_runPlan := Some \<lparr>pl_fingerprint = fingerprint, pl_evaluatedWorkflowId = evaluatedId,
                            pl_definitionFingerprint = definitionFp\<rparr>\<rparr>"

definition captureInputs :: "json_object \<Rightarrow> workflow_run \<Rightarrow> workflow_run" where
  "captureInputs i r = r\<lparr>r_inputs := i\<rparr>"

definition captureInheritedExpressions :: "string list \<Rightarrow> workflow_run \<Rightarrow> workflow_run" where
  "captureInheritedExpressions es r = r\<lparr>r_inheritedExpressions := es\<rparr>"

definition captureInputsProvenance :: "json \<Rightarrow> workflow_run \<Rightarrow> workflow_run" where
  "captureInputsProvenance p r = r\<lparr>r_inputsProvenance := Some p\<rparr>"

definition recordReplayedEvaluatedCache :: "workflow_run \<Rightarrow> workflow_run" where
  "recordReplayedEvaluatedCache r = r\<lparr>r_replayedEvaluatedCache := True\<rparr>"

definition captureDeferredExpressions :: "json list \<Rightarrow> workflow_run \<Rightarrow> workflow_run" where
  "captureDeferredExpressions es r = r\<lparr>r_deferredExpressions := es\<rparr>"

section \<open>What an interruption leaves unknown\<close>

lemma map_steps_simps [job_run_simps, simp]:
  "jr_jobName (map_steps f j) = jr_jobName j" "jr_status (map_steps f j) = jr_status j"
  "jr_steps (map_steps f j) = map f (jr_steps j)"
  by (simp_all add: map_steps_def)

lemma releaseOwnership_simps [workflow_run_simps, simp]:
  "r_jobs (releaseOwnership r) = r_jobs r" "r_status (releaseOwnership r) = r_status r"
  "r_completedAt (releaseOwnership r) = r_completedAt r" "r_ownerBeforeResume (releaseOwnership r) = None"
  "r_recovered (releaseOwnership r) = r_recovered r" "r_tags (releaseOwnership r) = r_tags r"
  "r_id (releaseOwnership r) = r_id r" "r_resumedAt (releaseOwnership r) = r_resumedAt r"
  by (auto simp: releaseOwnership_def split: option.splits)

lemma map_jobs_simps [workflow_run_simps, simp]:
  "r_jobs (map_jobs f r) = map f (r_jobs r)" "r_status (map_jobs f r) = r_status r"
  "r_completedAt (map_jobs f r) = r_completedAt r" "r_ownerBeforeResume (map_jobs f r) = r_ownerBeforeResume r"
  "r_recovered (map_jobs f r) = r_recovered r" "r_id (map_jobs f r) = r_id r" "r_pid (map_jobs f r) = r_pid r"
  "r_instanceId (map_jobs f r) = r_instanceId r"
  by (simp_all add: map_jobs_def)

lemma update_job_simps [workflow_run_simps, simp]:
  "r_jobs (update_job n f r) = update_first (\<lambda>j. jr_jobName j = n) f (r_jobs r)"
  "r_status (update_job n f r) = r_status r" "r_id (update_job n f r) = r_id r"
  "r_completedAt (update_job n f r) = r_completedAt r" "r_ownerBeforeResume (update_job n f r) = r_ownerBeforeResume r"
  "r_pid (update_job n f r) = r_pid r" "r_instanceId (update_job n f r) = r_instanceId r"
  "r_recovered (update_job n f r) = r_recovered r"
  by (simp_all add: update_job_def)

text \<open>The steps an interruption makes unknown, and those whose start a kill may have hidden.\<close>

definition at_risk :: "step_run \<Rightarrow> bool" where
  "at_risk s \<longleftrightarrow> sr_status s = Unknown \<or> sr_status s = Running \<or> stopped_step s"

definition quiet_job :: "job_run \<Rightarrow> bool" where
  "quiet_job j \<longleftrightarrow> jr_status j = Running \<and> \<not> list_ex (\<lambda>s. sr_status s = Running) (jr_steps j)"

definition risky_names :: "job_run \<Rightarrow> string set" where
  "risky_names j =
     sr_stepName ` {s \<in> set (jr_steps j). at_risk s \<or> quiet_job j \<and> sr_status s = Pending}"

lemma set_all_steps: "set (all_steps r) = {(jr_jobName j, s) | j s. j \<in> set (r_jobs r) \<and> s \<in> set (jr_steps j)}"
  by (auto simp: all_steps_def)

lemma all_stepsI: "j \<in> set (r_jobs r) \<Longrightarrow> s \<in> set (jr_steps j) \<Longrightarrow> (jr_jobName j, s) \<in> set (all_steps r)"
  by (auto simp: all_steps_def)

lemma set_unknownSteps:
  "set (unknownSteps r) = (\<Union>j \<in> set (r_jobs r). sr_stepName ` {s \<in> set (jr_steps j). sr_status s = Unknown})"
  by (auto simp: unknownSteps_def set_all_steps image_iff) blast+

lemma interrupt_step_simps [simp]:
  "sr_stepName (interrupt_step now reason s) = sr_stepName s"
  "sr_status (interrupt_step now reason s) = Unknown \<longleftrightarrow> at_risk s"
  by (auto simp: interrupt_step_def at_risk_def)

lemma interrupt_job_steps [simp]: "jr_steps (interrupt_job now reason j) = map (interrupt_step now reason) (jr_steps j)"
  by (simp add: interrupt_job_def Let_def)

lemma unknownSteps_interrupt:
  "\<not> run_ended r \<Longrightarrow> set (unknownSteps (run_interrupt now reason r)) =
   (\<Union>j \<in> set (r_jobs r). sr_stepName ` {s \<in> set (jr_steps j). at_risk s})"
proof -
  assume "\<not> run_ended r"
  then have jobs: "r_jobs (run_interrupt now reason r) = map (interrupt_job now reason) (r_jobs r)"
    by (simp add: run_interrupt_def run_ended_def)
  have "sr_stepName ` {s \<in> set (jr_steps (interrupt_job now reason j)). sr_status s = Unknown} =
      sr_stepName ` {s \<in> set (jr_steps j). at_risk s}" for j
    unfolding interrupt_job_steps by (subst image_map_filter) simp_all
  then show ?thesis by (simp add: set_unknownSteps jobs)
qed

lemma unknownSteps_interrupt_ended: "run_ended r \<Longrightarrow> run_interrupt now reason r = r"
  by (auto simp: run_interrupt_def run_ended_def)

lemma risky_after_orphan_job:
  "sr_stepName ` {s \<in> set (jr_steps (orphan_job now reason j)). at_risk s} = risky_names j"
proof (cases "quiet_job j")
  case True
  define mark where "mark = step_markUnknown now (Some (''interrupted: '' @ reason @ '' (start not recorded)''))"
  have steps: "jr_steps (orphan_job now reason j) = map (\<lambda>s. if sr_status s = Pending then mark s else s) (jr_steps j)"
    using True by (simp add: orphan_job_def quiet_job_def mark_def)
  have "at_risk (if sr_status s = Pending then mark s else s) \<longleftrightarrow> at_risk s \<or> sr_status s = Pending"
    and "sr_stepName (if sr_status s = Pending then mark s else s) = sr_stepName s" for s
    by (simp_all add: mark_def at_risk_def)
  then show ?thesis unfolding risky_names_def steps using True by (subst image_map_filter) simp_all
next
  case False
  then have "orphan_job now reason j = j" by (auto simp: orphan_job_def quiet_job_def)
  with False show ?thesis by (simp add: risky_names_def)
qed

text \<open>The change to a job for one journalled start.\<close>

definition orphan_step :: "time \<Rightarrow> string \<Rightarrow> string \<Rightarrow> job_run \<Rightarrow> job_run" where
  "orphan_step now reason n j =
     (let j1 = addExpandedStep n j in
      case getStep j1 n of
        None \<Rightarrow> j1
      | Some s \<Rightarrow>
          if sr_status s = Running then j1
          else
            let j2 = update_step n (step_markUnknown now (Some (''interrupted: '' @ reason @ '' (start recorded)''))) j1 in
            if jr_status j2 \<noteq> Running then job_markUnknown now j2 else j2)"

lemma orphan_start_eq: "orphan_start now reason js r = update_job (fst js) (orphan_step now reason (snd js)) r"
  by (simp add: orphan_start_def orphan_step_def [abs_def])

lemma addExpandedStep_split:
  "\<exists>as s bs. jr_steps (addExpandedStep n j) = as @ s # bs \<and> sr_stepName s = n \<and>
     find (\<lambda>t. sr_stepName t = n) (jr_steps (addExpandedStep n j)) = Some s \<and>
     (\<forall>f. update_first (\<lambda>t. sr_stepName t = n) f (jr_steps (addExpandedStep n j)) = as @ f s # bs) \<and>
     (jr_steps j = as @ s # bs \<or> jr_steps j = as @ bs \<and> s = pending_step n None)"
proof (cases "find (\<lambda>t. sr_stepName t = n) (jr_steps j)")
  case None
  then have steps: "jr_steps (addExpandedStep n j) = jr_steps j @ [pending_step n None]"
    by (simp add: addExpandedStep_def)
  have "find (\<lambda>t. sr_stepName t = n) (jr_steps j @ [pending_step n None]) = Some (pending_step n None)"
    "update_first (\<lambda>t. sr_stepName t = n) f (jr_steps j @ [pending_step n None]) = jr_steps j @ [f (pending_step n None)]" for f
    using find_append_None [OF None, of "[pending_step n None]"]
      update_first_append_None [OF None, of f "[pending_step n None]"] by simp_all
  with steps have "jr_steps (addExpandedStep n j) = jr_steps j @ pending_step n None # [] \<and>
     sr_stepName (pending_step n None) = n \<and>
     find (\<lambda>t. sr_stepName t = n) (jr_steps (addExpandedStep n j)) = Some (pending_step n None) \<and>
     (\<forall>f. update_first (\<lambda>t. sr_stepName t = n) f (jr_steps (addExpandedStep n j)) =
        jr_steps j @ f (pending_step n None) # []) \<and> jr_steps j = jr_steps j @ []" by simp
  then show ?thesis by metis
next
  case (Some s)
  then have "addExpandedStep n j = j" by (simp add: addExpandedStep_def)
  moreover obtain as bs where "jr_steps j = as @ s # bs" "sr_stepName s = n"
    "\<forall>f. update_first (\<lambda>t. sr_stepName t = n) f (jr_steps j) = as @ f s # bs"
    using find_split [OF Some] by blast
  ultimately show ?thesis using Some by auto
qed

lemma risky_orphan_step: "risky_names (orphan_step now reason n j) = insert n (risky_names j)"
proof -
  obtain as s bs where sp: "jr_steps (addExpandedStep n j) = as @ s # bs" "sr_stepName s = n"
    "find (\<lambda>t. sr_stepName t = n) (jr_steps (addExpandedStep n j)) = Some s"
    "\<forall>f. update_first (\<lambda>t. sr_stepName t = n) f (jr_steps (addExpandedStep n j)) = as @ f s # bs"
    "jr_steps j = as @ s # bs \<or> jr_steps j = as @ bs \<and> s = pending_step n None"
    using addExpandedStep_split by blast
  define mark where "mark = step_markUnknown now (Some (''interrupted: '' @ reason @ '' (start recorded)''))"
  show ?thesis
  proof (cases "sr_status s = Running")
    case True
    then have "jr_steps j = as @ s # bs" using sp(5) by auto
    moreover have "orphan_step now reason n j = addExpandedStep n j"
      using True sp(3) by (simp add: orphan_step_def getStep_def)
    ultimately show ?thesis
      using True sp by (auto simp: risky_names_def quiet_job_def at_risk_def)
  next
    case False
    then have steps: "jr_steps (orphan_step now reason n j) = as @ mark s # bs"
      and status: "jr_status (orphan_step now reason n j) = Running \<longleftrightarrow> jr_status j = Running"
      using sp(3,4) by (auto simp: orphan_step_def getStep_def Let_def update_step_def mark_def)
    have "sr_stepName (mark s) = n" "sr_status (mark s) = Unknown" using sp(2) by (simp_all add: mark_def)
    moreover have "quiet_job (orphan_step now reason n j) \<longleftrightarrow> quiet_job j"
      using sp(5) False status by (auto simp: quiet_job_def steps mark_def)
    ultimately show ?thesis
      using sp(5) False sp(2) unfolding risky_names_def steps by (auto simp: at_risk_def)
  qed
qed

lemma run_getJob_update:
  "(\<And>j. jr_jobName (f j) = jr_jobName j) \<Longrightarrow> run_getJob (update_job n f r) m = None \<longleftrightarrow> run_getJob r m = None"
proof -
  assume "\<And>j. jr_jobName (f j) = jr_jobName j"
  then have "map jr_jobName (update_first (\<lambda>j. jr_jobName j = n) f (r_jobs r)) = map jr_jobName (r_jobs r)"
    by (rule update_first_map_eq)
  then have "jr_jobName ` set (r_jobs (update_job n f r)) = jr_jobName ` set (r_jobs r)"
    by (metis list.set_map update_job_simps(1))
  moreover have "run_getJob q m = None \<longleftrightarrow> m \<notin> jr_jobName ` set (r_jobs q)" for q
    by (auto simp: run_getJob_def find_None_iff)
  ultimately show ?thesis by simp
qed

lemma orphan_step_name [simp]: "jr_jobName (orphan_step now reason n j) = jr_jobName j"
  by (simp add: orphan_step_def Let_def split: option.splits)

lemma risky_orphan_start:
  assumes "run_getJob r (fst js) \<noteq> None"
  shows "(\<Union>j \<in> set (r_jobs (orphan_start now reason js r)). risky_names j) =
     insert (snd js) (\<Union>j \<in> set (r_jobs r). risky_names j)"
proof -
  obtain j where "find (\<lambda>j. jr_jobName j = fst js) (r_jobs r) = Some j"
    using assms unfolding run_getJob_def by blast
  from find_split [OF this] obtain as bs where "r_jobs r = as @ j # bs"
    "\<And>f. update_first (\<lambda>j. jr_jobName j = fst js) f (r_jobs r) = as @ f j # bs" by blast
  then show ?thesis by (auto simp: orphan_start_eq risky_orphan_step)
qed

lemma risky_orphan_starts:
  "\<forall>js \<in> set L. run_getJob r (fst js) \<noteq> None \<Longrightarrow>
   (\<Union>j \<in> set (r_jobs (fold (orphan_start now reason) L r)). risky_names j) =
     snd ` set L \<union> (\<Union>j \<in> set (r_jobs r). risky_names j)"
proof (induction L arbitrary: r)
  case (Cons js L)
  have "\<forall>js' \<in> set L. run_getJob (orphan_start now reason js r) (fst js') \<noteq> None"
    using Cons.prems by (simp add: orphan_start_eq run_getJob_update)
  with Cons risky_orphan_start [of r js now reason] show ?case by simp
qed simp

lemma orphan_starts_status: "r_status (fold (orphan_start now reason) L r) = r_status r"
  by (induction L arbitrary: r) (simp_all add: orphan_start_eq)

lemma journalled_job: "js \<in> set (journalledStarts r starts) \<Longrightarrow> run_getJob r (fst js) \<noteq> None"
  by (auto simp: journalledStarts_def journalled_def)

lemma risky_names_iff:
  "\<not> run_ended r \<Longrightarrow> r_status r = R_running \<Longrightarrow> sr_stepName ` set (filter (unknown_if_orphaned r j) (jr_steps j)) = risky_names j"
  unfolding risky_names_def
  by (rule arg_cong [where f = "\<lambda>A. sr_stepName ` A"])
    (auto simp: unknown_if_orphaned_def at_risk_def quiet_job_def start_not_recorded_def)

lemma at_risk_iff:
  "\<not> run_ended r \<Longrightarrow> r_status r \<noteq> R_running \<Longrightarrow>
   set (filter (unknown_if_orphaned r j) (jr_steps j)) = {s \<in> set (jr_steps j). at_risk s}"
  by (auto simp: unknown_if_orphaned_def at_risk_def start_not_recorded_def)

text \<open>C15.
  The steps a recovery asks to have acknowledged, computed without changing the run, are exactly
  those that interrupting the orphaned run leaves unknown: for every run, every journal of starts
  and every reason.
\<close>

theorem unknownStepsIfOrphaned_predicts:
  "set (unknownStepsIfOrphaned starts r) = set (unknownSteps (interruptOrphaned now reason starts r))"
proof (cases "r_status r = R_running")
  case True
  define r1 where "r1 = fold (orphan_start now reason) (journalledStarts r starts) r"
  have "r_status r1 = R_running" using True by (simp add: r1_def orphan_starts_status)
  then have "\<not> run_ended (map_jobs (orphan_job now reason) r1)" by (simp add: run_ended_def)
  then have "set (unknownSteps (interruptOrphaned now reason starts r)) = (\<Union>j \<in> set (r_jobs r1). risky_names j)"
    using True by (simp add: interruptOrphaned_def r1_def [symmetric] unknownSteps_interrupt risky_after_orphan_job)
  also have "\<dots> = snd ` set (journalledStarts r starts) \<union> (\<Union>j \<in> set (r_jobs r). risky_names j)"
    unfolding r1_def by (rule risky_orphan_starts) (simp add: journalled_job)
  also have "\<dots> = set (unknownStepsIfOrphaned starts r)"
    using True risky_names_iff [of r] by (simp add: unknownStepsIfOrphaned_def run_ended_def)
  finally show ?thesis by simp
next
  case False
  show ?thesis
  proof (cases "run_ended r")
    case True
    have "sr_stepName ` set (filter (unknown_if_orphaned r j) (jr_steps j)) =
        sr_stepName ` {s \<in> set (jr_steps j). sr_status s = Unknown}" for j
      using True False by (auto simp: unknown_if_orphaned_def start_not_recorded_def)
    with True False show ?thesis
      by (simp add: interruptOrphaned_def unknownSteps_interrupt_ended set_unknownSteps unknownStepsIfOrphaned_def)
  next
    case not_ended: False
    with False show ?thesis
      by (simp add: interruptOrphaned_def unknownSteps_interrupt unknownStepsIfOrphaned_def at_risk_iff [unfolded set_filter])
  qed
qed

text \<open>C33.
  Recovering an orphaned run that was running always succeeds and leaves a suspended run that waits
  for someone to resume it, in which no step and no job is running or unknown any more, and no step
  is left that an abort stopped in flight.
\<close>

theorem recovered_run_is_resumable:
  assumes "r_status r = R_running"
  shows "\<exists>r'. resetUnknownStepsForRecovery (interruptOrphaned now reason starts r) = Inr r' \<and>
    awaitsResumeAfterRecovery r' \<and> r_completedAt r' = None \<and>
    (\<forall>j \<in> set (r_jobs r'). jr_status j \<notin> {Running, Unknown} \<and>
       (\<forall>s \<in> set (jr_steps j). sr_status s \<notin> {Running, Unknown} \<and> \<not> stopped_step s))"
proof -
  define r1 where "r1 = map_jobs (orphan_job now reason) (fold (orphan_start now reason) (journalledStarts r starts) r)"
  have "r_status r1 = R_running" using assms by (simp add: r1_def orphan_starts_status)
  then have int: "r_status (run_interrupt now reason r1) = R_interrupted"
    "r_jobs (run_interrupt now reason r1) = map (interrupt_job now reason) (r_jobs r1)"
    by (simp_all add: run_interrupt_def)
  define r' where "r' = (map_jobs reset_unknown_job (run_interrupt now reason r1))
      \<lparr>r_status := R_suspended, r_completedAt := None, r_recovered := True\<rparr>"
  have "resetUnknownStepsForRecovery (interruptOrphaned now reason starts r) = Inr r'"
    using assms int(1) by (simp add: interruptOrphaned_def r1_def [symmetric] resetUnknownStepsForRecovery_def r'_def)
  moreover have "awaitsResumeAfterRecovery r'" "r_completedAt r' = None"
    by (simp_all add: r'_def awaitsResumeAfterRecovery_def)
  moreover have "jr_status (reset_unknown_job (interrupt_job now reason j)) \<notin> {Running, Unknown}" for j
    by (auto simp: reset_unknown_job_def Let_def interrupt_job_def)
  moreover have "sr_status s \<notin> {Running, Unknown} \<and> \<not> stopped_step s"
    if "s \<in> set (jr_steps (reset_unknown_job (interrupt_job now reason j)))" for j s
    using that
    by (auto simp: reset_unknown_job_def Let_def interrupt_step_def stopped_step_def split: if_splits)
  ultimately show ?thesis by (intro exI [of _ r']) (auto simp: r'_def int(2))
qed

definition demo_run :: workflow_run where
  "demo_run =
     (create_run ''r'' \<lparr>wd_id = ''f'', wd_name = ''flow'', wd_inputs = None, wd_jobs = [], wd_autoResume = None\<rparr>
        None None None None)
     \<lparr>r_status := R_running, r_pid := Some 7,
      r_jobs := [(pending_job ''j'' [''a'', ''b''])\<lparr>jr_status := Running\<rparr>]\<rparr>"

theorem recovered_run_is_resumable_witness:
  "r_status demo_run = R_running \<and>
   (\<exists>r'. resetUnknownStepsForRecovery (interruptOrphaned 5 ''killed'' [] demo_run) = Inr r' \<and> awaitsResumeAfterRecovery r')"
proof -
  have running: "r_status demo_run = R_running" by (simp add: demo_run_def)
  then show ?thesis using recovered_run_is_resumable [OF running] by blast
qed

section \<open>The life of a run\<close>

text \<open>
  Calls on a run after its start. \<open>work\<close> stands for anything the execution does to the jobs and
  steps of the run, \<open>carry\<close> for recording what the run carries for others.
\<close>

inductive run_change :: "workflow_run \<Rightarrow> workflow_run \<Rightarrow> bool" where
  work: "run_change r (r\<lparr>r_jobs := js\<rparr>)"
| carry_inputs: "run_change r (captureInputs i r)"
| carry_resume_inputs: "run_change r (recordResumeInputs keys r)"
| carry_artifact: "run_change r (addWorkflowDataArtifact a r)"
| carry_plan: "run_change r (captureRunPlan fp ev df r)"
| carry_principal: "run_change r (recordTriggeringPrincipal p r)"
| carry_vaults: "run_change r (recordAllowedVaults vs r)"
| complete: "run_change r (run_complete now r)"
| cancel: "run_change r (endAsCancelled now why r)"
| cancel_reason: "run_change r (recordCancelReason reason r)"
| interrupt: "run_change r (run_interrupt now reason r)"
| orphaned: "run_change r (interruptOrphaned now reason starts r)"
| recover: "resetUnknownStepsForRecovery r = Inr r' \<Longrightarrow> run_change r r'"
| suspend: "run_change r (run_suspend inputs r)"
| resume_suspended: "run_change r (resumeFromSuspended now pid inst r)"
| resume_failed: "run_change r (resumeFromFailed now pid inst r)"
| refuse_data: "run_change r (snd (failStepsNamingRefusedData now refused reason r))"
| reset: "run_change r (resetForResumeFrom steps tracked r)"
| reopen: "run_change r (reopenAbortedWork r)"
| starts: "run_change r (applyStepStarts sts r)"

definition owner :: "workflow_run \<Rightarrow> owner_ref" where
  "owner r = or_else (r_pid r, r_instanceId r) (r_ownerBeforeResume r)"

lemma owner_release [simp]: "owner (releaseOwnership r) = owner r"
  by (auto simp: owner_def releaseOwnership_def split: option.splits)

lemma owner_take [simp]: "owner (takeOwnership pid inst r) = owner r"
  by (auto simp: owner_def takeOwnership_def split: option.splits)

lemma owner_updates [simp]:
  "owner (r\<lparr>r_status := st\<rparr>) = owner r" "owner (r\<lparr>r_completedAt := t\<rparr>) = owner r" "owner (r\<lparr>r_tags := ts\<rparr>) = owner r"
  "owner (r\<lparr>r_recovered := b\<rparr>) = owner r" "owner (r\<lparr>r_resumedAt := t\<rparr>) = owner r" "owner (r\<lparr>r_inputs := i\<rparr>) = owner r"
  by (simp_all add: owner_def)

lemma owner_jobs [simp]: "owner (r\<lparr>r_jobs := js\<rparr>) = owner r" "owner (map_jobs f r) = owner r"
  "owner (update_job n f r) = owner r"
  by (simp_all add: owner_def map_jobs_def update_job_def)

text \<open>A run that is not running has no owner kept aside, and one that ended has an end.\<close>

definition run_wf :: "workflow_run \<Rightarrow> bool" where
  "run_wf r \<longleftrightarrow>
     (r_status r \<noteq> R_running \<longrightarrow> r_ownerBeforeResume r = None) \<and>
     (r_status r \<in> {R_succeeded, R_failed, R_cancelled, R_interrupted} \<longrightarrow> r_completedAt r \<noteq> None)"

lemma takeOwnership_simps [workflow_run_simps, simp]:
  "r_status (takeOwnership pid inst r) = r_status r" "r_completedAt (takeOwnership pid inst r) = r_completedAt r"
  by (simp_all add: takeOwnership_def Let_def)

text \<open>Operations that touch neither the status nor the owner.\<close>

definition same_life :: "workflow_run \<Rightarrow> workflow_run \<Rightarrow> bool" where
  "same_life r r' \<longleftrightarrow> r_status r' = r_status r \<and> r_ownerBeforeResume r' = r_ownerBeforeResume r \<and>
     r_completedAt r' = r_completedAt r \<and> r_pid r' = r_pid r \<and> r_instanceId r' = r_instanceId r"

lemma same_life_fold:
  assumes "\<And>x q. same_life q (f x q)" shows "same_life r (fold f xs r)"
  using assms by (induction xs arbitrary: r) (auto simp: same_life_def)

lemma same_life_ops:
  "same_life r (r\<lparr>r_jobs := js\<rparr>)" "same_life r (captureInputs i r)" "same_life r (recordResumeInputs keys r)"
  "same_life r (addWorkflowDataArtifact a r)" "same_life r (captureRunPlan fp ev df r)"
  "same_life r (recordTriggeringPrincipal p r)" "same_life r (recordAllowedVaults vs r)"
  "same_life r (recordCancelReason reason r)" "same_life r (reopenAbortedWork r)"
  "same_life r (map_jobs g r)" "same_life r (update_job n g r)"
  by (simp_all add: same_life_def captureInputs_def recordResumeInputs_def addWorkflowDataArtifact_def
      captureRunPlan_def recordTriggeringPrincipal_def recordAllowedVaults_def recordCancelReason_def
      reopenAbortedWork_def)

lemma same_life_reset: "same_life r (resetForResumeFrom steps tracked r)"
proof -
  have "same_life q (fold mark_tracked tracked q)" for q
    by (rule same_life_fold) (simp add: mark_tracked_def same_life_ops)
  then show ?thesis
    unfolding resetForResumeFrom_def using same_life_ops(10) by (auto simp: same_life_def)
qed

lemma same_life_orphans: "same_life r (fold (orphan_start now reason) L r)"
  by (rule same_life_fold) (simp add: orphan_start_eq same_life_ops)

lemma same_life_starts: "same_life r (applyStepStarts sts r)"
proof -
  have "same_life q (apply_start latest js q)" for latest js q
    by (auto simp: apply_start_def same_life_ops same_life_def split: option.splits)
  then have "same_life r (fold (apply_start latest) xs r)" for latest xs
    by (rule same_life_fold)
  then show ?thesis by (simp add: applyStepStarts_def Let_def same_life_def)
qed

lemma same_life_wf: "same_life r r' \<Longrightarrow> run_wf r \<Longrightarrow> run_wf r' \<and> owner r' = owner r"
  by (simp add: same_life_def run_wf_def owner_def)

lemma interrupt_wf: "run_wf r \<Longrightarrow> run_wf (run_interrupt now reason r) \<and> owner (run_interrupt now reason r) = owner r"
  by (auto simp: run_interrupt_def run_wf_def)

lemma run_change_wf: "run_change r r' \<Longrightarrow> run_wf r \<Longrightarrow> run_wf r' \<and> owner r' = owner r"
proof (induction rule: run_change.induct)
  case (orphaned r now reason starts)
  define r1 where "r1 = (if r_status r = R_running
      then map_jobs (orphan_job now reason) (fold (orphan_start now reason) (journalledStarts r starts) r) else r)"
  have "same_life r r1"
    using same_life_orphans [of r] by (auto simp: r1_def same_life_def)
  then have "run_wf r1 \<and> owner r1 = owner r" using orphaned same_life_wf by blast
  then show ?case using interrupt_wf by (simp add: interruptOrphaned_def r1_def [symmetric])
next
  case (complete r now)
  then show ?case by (auto simp: run_complete_def detachNestedWaits_def run_wf_def Let_def)
next
  case (cancel r now why)
  then show ?case
    by (auto simp: endAsCancelled_def detachNestedWaits_def run_wf_def Let_def)
next
  case (recover r r')
  then show ?case
    by (auto simp: resetUnknownStepsForRecovery_def run_wf_def split: if_splits)
next
  case (suspend r inputs)
  then show ?case by (auto simp: run_suspend_def run_wf_def Let_def split: option.splits)
next
  case (resume_suspended r now pid inst)
  then show ?case by (simp add: resumeFromSuspended_def run_wf_def)
next
  case (resume_failed r now pid inst)
  then show ?case by (simp add: resumeFromFailed_def run_wf_def)
next
  case (refuse_data r now refused reason)
  then show ?case by (auto simp: failStepsNamingRefusedData_def Let_def run_wf_def)
next
  case (interrupt r now reason)
  then show ?case by (rule interrupt_wf)
qed (erule same_life_wf [rotated], rule same_life_ops same_life_reset same_life_starts)+


definition demo_flow :: workflow_def where
  "demo_flow = \<lparr>wd_id = ''f'', wd_name = ''flow'', wd_inputs = None, wd_jobs = [], wd_autoResume = None\<rparr>"

definition resumed_and_suspended :: workflow_run where
  "resumed_and_suspended =
     run_suspend None (resumeFromSuspended 3 9 None (run_suspend None
       (run_start 1 (Some 7) (Some ''srv'') (create_run ''r'' demo_flow None None None None))))"


section \<open>The end of a run\<close>

lemma detached_step_simps [simp]:
  "sr_nestedRun (detachNestedRun now e s) = sr_nestedRun s" "sr_detachedNestedRun (detachNestedRun now e s)"
  "\<not> isNestedWait (detachNestedRun now e s)"
  by (simp_all add: detachNestedRun_def step_fail_def isNestedWait_def)

lemma detach_job_steps [simp]:
  "jr_steps (detach_job now j) =
   map (\<lambda>s. if isNestedWait s then detachNestedRun now (nested_wait_error s) s else s) (jr_steps j)"
  by (simp add: detach_job_def Let_def)

lemma detach_job_name [simp]: "jr_jobName (detach_job now j) = jr_jobName j"
  by (simp add: detach_job_def Let_def)

lemma detach_job_done: "jr_status (detach_job now j) \<in> {Succeeded, Skipped} \<longleftrightarrow> jr_status j \<in> {Succeeded, Skipped}"
  by (auto simp: detach_job_def Let_def)

lemma findNestedWaits_Nil_iff: "findNestedWaits r = [] \<longleftrightarrow> (\<forall>j \<in> set (r_jobs r). \<forall>s \<in> set (jr_steps j). \<not> isNestedWait s)"
  by (auto simp: findNestedWaits_def filter_empty_conv set_all_steps)

lemma no_nested_wait_after_detach: "r_jobs r' = map (detach_job now) (r_jobs r) \<Longrightarrow> findNestedWaits r' = []"
  by (auto simp: findNestedWaits_Nil_iff)

lemma detachedNestedRunsI:
  "(job, s) \<in> set (all_steps r) \<Longrightarrow> sr_detachedNestedRun s \<Longrightarrow> sr_nestedRun s = Some (Valid ref) \<Longrightarrow>
   (job, sr_stepName s, ref) \<in> set (detachedNestedRuns r)"
  unfolding detachedNestedRuns_def set_concat set_map by (rule UN_I, erule imageI) simp

lemma detached_children_kept:
  assumes "r_jobs r' = map (detach_job now) (r_jobs r)" "(job, step, Valid ref) \<in> set (findNestedWaits r)"
  shows "(job, step, ref) \<in> set (detachedNestedRuns r')"
proof -
  from assms(2) obtain j s where js: "j \<in> set (r_jobs r)" "s \<in> set (jr_steps j)" "isNestedWait s"
    "job = jr_jobName j" "step = sr_stepName s" "the (sr_nestedRun s) = Valid ref"
    by (auto simp: findNestedWaits_def set_all_steps)
  define s' where "s' = detachNestedRun now (nested_wait_error s) s"
  have "detach_job now j \<in> set (r_jobs r')" "s' \<in> set (jr_steps (detach_job now j))"
    using js assms(1) by (auto simp: s'_def)
  then have "(job, s') \<in> set (all_steps r')"
    using js(4) all_stepsI detach_job_name by metis
  moreover have "sr_nestedRun s' = Some (Valid ref)" "sr_detachedNestedRun s'" "sr_stepName s' = step"
    using js by (auto simp: s'_def isNestedWait_def)
  ultimately show ?thesis using detachedNestedRunsI by blast
qed

text \<open>
  A run that completes succeeds exactly when every one of its jobs succeeded or was skipped, and
  otherwise fails. However a run ends, completed or cancelled, no step is left waiting on a nested
  run, and every nested run a step waited on is remembered as detached, so that none is lost.
\<close>

theorem run_end_accounts_for_children:
  assumes "isCancellable r"
  shows "(r_status (run_complete now r) = R_succeeded \<longleftrightarrow> (\<forall>j \<in> set (r_jobs r). jr_status j \<in> {Succeeded, Skipped})) \<and>
    r_status (run_complete now r) \<in> {R_succeeded, R_failed} \<and> r_status (endAsCancelled now why r) = R_cancelled \<and>
    findNestedWaits (run_complete now r) = [] \<and> findNestedWaits (endAsCancelled now why r) = [] \<and>
    (\<forall>job step ref. (job, step, Valid ref) \<in> set (findNestedWaits r) \<longrightarrow>
       (job, step, ref) \<in> set (detachedNestedRuns (run_complete now r)) \<and>
       (job, step, ref) \<in> set (detachedNestedRuns (endAsCancelled now why r)))"
proof -
  have jobs: "r_jobs (run_complete now r) = map (detach_job now) (r_jobs r)"
    "r_jobs (endAsCancelled now why r) = map (detach_job now) (r_jobs r)"
    using assms by (auto simp: run_complete_def endAsCancelled_def detachNestedWaits_def isCancellable_def Let_def)
  have "list_ex (\<lambda>j. jr_status j \<noteq> Succeeded \<and> jr_status j \<noteq> Skipped) (map (detach_job now) (r_jobs r)) \<longleftrightarrow>
      \<not> (\<forall>j \<in> set (r_jobs r). jr_status j \<in> {Succeeded, Skipped})"
    using detach_job_done [of now] by (auto simp: list_ex_iff)
  then have "r_status (run_complete now r) =
      (if \<forall>j \<in> set (r_jobs r). jr_status j \<in> {Succeeded, Skipped} then R_succeeded else R_failed)"
    using assms by (simp add: run_complete_def detachNestedWaits_def isCancellable_def Let_def) auto
  moreover have "r_status (endAsCancelled now why r) = R_cancelled"
    using assms by (simp add: endAsCancelled_def Let_def)
  ultimately show ?thesis
    using no_nested_wait_after_detach [OF jobs(1)] no_nested_wait_after_detach [OF jobs(2)]
      detached_children_kept [OF jobs(1)] detached_children_kept [OF jobs(2)]
    by simp
qed

theorem run_end_accounts_for_children_witness:
  "isCancellable demo_run \<and> r_status (run_complete 9 demo_run) = R_failed \<and>
   r_status (endAsCancelled 9 None demo_run) = R_cancelled"
proof -
  have "isCancellable demo_run" "jr_status (hd (r_jobs demo_run)) = Running" "hd (r_jobs demo_run) \<in> set (r_jobs demo_run)"
    by (simp_all add: isCancellable_def demo_run_def)
  then show ?thesis using run_end_accounts_for_children [of demo_run 9 None] by auto
qed

section \<open>Data a commit refused\<close>

lemma names_refused_mem:
  "a \<in> set artifacts \<Longrightarrow> (da_dataId a, da_version a) \<in> set refused \<Longrightarrow> names_refused refused artifacts"
  by (force simp: names_refused_def list_ex_iff)

lemma fail_refused_job_simps [simp]:
  "jr_steps (fail_refused_job now refused reason j) =
     map (\<lambda>s. if refused_step refused s then step_fail now reason None s else s) (jr_steps j)"
  "jr_status (fail_refused_job now refused reason j) = Succeeded \<longleftrightarrow>
     jr_status j = Succeeded \<and> (\<forall>s \<in> set (jr_steps j). \<not> refused_step refused s)"
  by (auto simp: fail_refused_job_def Let_def list_ex_iff)

text \<open>
  After a commit refused some data, no step that names a refused version is left with any status but
  failed, a job or a run that still reads succeeded names no refused data in a step that did not
  fail, and every step that names none is unchanged.
\<close>

theorem refused_data_names_no_success:
  assumes "failStepsNamingRefusedData now refused reason r = (failed, r')"
  shows "(\<forall>j \<in> set (r_jobs r'). \<forall>s \<in> set (jr_steps j). \<forall>a \<in> set (sr_dataArtifacts s).
       (da_dataId a, da_version a) \<in> set refused \<longrightarrow> sr_status s = Failed) \<and>
    (r_status r' = R_succeeded \<longrightarrow> failed = [] \<and>
       (\<forall>a \<in> set (r_workflowDataArtifacts r'). (da_dataId a, da_version a) \<notin> set refused)) \<and>
    map (map (\<lambda>s. (sr_stepName s, sr_dataArtifacts s)) \<circ> jr_steps) (r_jobs r') =
      map (map (\<lambda>s. (sr_stepName s, sr_dataArtifacts s)) \<circ> jr_steps) (r_jobs r) \<and>
    (\<forall>j \<in> set (r_jobs r). \<forall>s \<in> set (jr_steps j). \<not> names_refused refused (sr_dataArtifacts s) \<longrightarrow>
       (\<exists>j' \<in> set (r_jobs r'). s \<in> set (jr_steps j')))"
proof -
  have jobs: "r_jobs r' = map (fail_refused_job now refused reason) (r_jobs r)"
    and arts: "r_workflowDataArtifacts r' = r_workflowDataArtifacts r"
    and status: "r_status r' = R_succeeded \<Longrightarrow> failed = [] \<and> \<not> names_refused refused (r_workflowDataArtifacts r)"
    using assms by (auto simp: failStepsNamingRefusedData_def Let_def map_jobs_def split: if_splits)
  have "sr_status s = Failed"
    if "\<not> refused_step refused s" "a \<in> set (sr_dataArtifacts s)" "(da_dataId a, da_version a) \<in> set refused" for s a
    using that names_refused_mem by (auto simp: refused_step_def)
  then have "\<forall>j \<in> set (r_jobs r'). \<forall>s \<in> set (jr_steps j). \<forall>a \<in> set (sr_dataArtifacts s).
       (da_dataId a, da_version a) \<in> set refused \<longrightarrow> sr_status s = Failed"
    unfolding jobs by auto
  moreover have "map (map (\<lambda>s. (sr_stepName s, sr_dataArtifacts s)) \<circ> jr_steps) (r_jobs r') =
      map (map (\<lambda>s. (sr_stepName s, sr_dataArtifacts s)) \<circ> jr_steps) (r_jobs r)"
    by (simp add: jobs comp_def step_fail_def)
  moreover have "\<exists>j' \<in> set (r_jobs r'). s \<in> set (jr_steps j')"
    if "j \<in> set (r_jobs r)" "s \<in> set (jr_steps j)" "\<not> names_refused refused (sr_dataArtifacts s)" for j s
    using that by (force simp: jobs refused_step_def)
  moreover have "r_status r' = R_succeeded \<longrightarrow> failed = [] \<and>
       (\<forall>a \<in> set (r_workflowDataArtifacts r'). (da_dataId a, da_version a) \<notin> set refused)"
    using status names_refused_mem unfolding arts by blast
  ultimately show ?thesis by blast
qed

definition refused_demo :: workflow_run where
  "refused_demo = demo_run\<lparr>r_status := R_succeeded, r_jobs := [(pending_job ''j'' [])\<lparr>jr_status := Succeeded,
     jr_steps := [(pending_step ''a'' None)\<lparr>sr_status := Succeeded, sr_dataArtifacts :=
       [\<lparr>da_dataId = ''d'', da_name = ''n'', da_version = 2, da_tags = [], da_sha256 = None\<rparr>]\<rparr>]\<rparr>]\<rparr>"

theorem refused_data_names_no_success_witness:
  "\<exists>failed r' j s. failStepsNamingRefusedData 4 [(''d'', 2)] ''refused'' refused_demo = (failed, r') \<and>
     r_status r' = R_failed \<and> r_jobs r' = [j] \<and> jr_steps j = [s] \<and> sr_status s = Failed"
proof -
  obtain failed r' where run: "failStepsNamingRefusedData 4 [(''d'', 2)] ''refused'' refused_demo = (failed, r')"
    by (cases "failStepsNamingRefusedData 4 [(''d'', 2)] ''refused'' refused_demo") blast
  have "r_status (snd (failStepsNamingRefusedData 4 [(''d'', 2)] ''refused'' refused_demo)) = R_failed"
    by code_simp
  then have status: "r_status r' = R_failed" by (simp add: run)
  have "map (map (\<lambda>s. (sr_stepName s, sr_dataArtifacts s)) \<circ> jr_steps) (r_jobs r') =
      [[(''a'', [\<lparr>da_dataId = ''d'', da_name = ''n'', da_version = 2, da_tags = [], da_sha256 = None\<rparr>])]]"
    using refused_data_names_no_success [OF run] by (simp add: refused_demo_def demo_run_def pending_step_def)
  then obtain j s where js: "r_jobs r' = [j]" "jr_steps j = [s]"
    "sr_dataArtifacts s = [\<lparr>da_dataId = ''d'', da_name = ''n'', da_version = 2, da_tags = [], da_sha256 = None\<rparr>]"
    by (auto simp: map_eq_Cons_conv)
  have "sr_status s = Failed" using refused_data_names_no_success [OF run] js by auto
  with run status js show ?thesis by blast
qed

section \<open>Resetting for a resume\<close>

lemma reset_is_pending [simp]: "step_resetToPending s = pending_step (sr_stepName s) (sr_forEachTemplate s)"
  by (cases s) (simp add: step_resetToPending_def pending_step_def)

lemma reset_job_from_eq:
  assumes keys: "\<And>a b. stepRunKey a b \<in> K \<longleftrightarrow> (a, b) \<in> S"
  shows "reset_job_from K j =
    (if \<exists>s \<in> set (jr_steps j). (jr_jobName j, sr_stepName s) \<in> S then job_resetToPending j else j)
      \<lparr>jr_steps := map (\<lambda>s. if (jr_jobName j, sr_stepName s) \<in> S
                             then pending_step (sr_stepName s) (sr_forEachTemplate s)
                             else s\<lparr>sr_resetByResume := False\<rparr>) (jr_steps j)\<rparr>"
proof -
  have steps: "(if (jr_jobName j, sr_stepName s) \<in> S then step_resetToPending (clearResetMarker s) else clearResetMarker s) =
      (if (jr_jobName j, sr_stepName s) \<in> S then pending_step (sr_stepName s) (sr_forEachTemplate s)
       else s\<lparr>sr_resetByResume := False\<rparr>)" for s
    by (simp add: clearResetMarker_def)
  show ?thesis
    unfolding reset_job_from_def Let_def keys list_ex_iff map_steps_def steps
    by (cases j) (simp add: job_resetToPending_def)
qed

text \<open>
  Resetting steps for a resume makes exactly the named steps of the named jobs as new, whatever
  characters the names hold; every other step keeps all but its reset marker; and exactly the jobs
  that hold a named step go back to pending.
\<close>

theorem resetForResumeFrom_exact:
  "r_jobs (resetForResumeFrom steps [] r) =
   map (\<lambda>j. (if \<exists>s \<in> set (jr_steps j). (jr_jobName j, sr_stepName s) \<in> set steps then job_resetToPending j else j)
          \<lparr>jr_steps := map (\<lambda>s. if (jr_jobName j, sr_stepName s) \<in> set steps
                                 then pending_step (sr_stepName s) (sr_forEachTemplate s)
                                 else s\<lparr>sr_resetByResume := False\<rparr>) (jr_steps j)\<rparr>) (r_jobs r)"
proof -
  have keys: "stepRunKey a b \<in> set (map (\<lambda>(j, s). stepRunKey j s) steps) \<longleftrightarrow> (a, b) \<in> set steps" for a b
    by (force simp: image_iff)
  show ?thesis
    unfolding resetForResumeFrom_def
    by (simp only: fold_Nil id_apply map_jobs_simps) (rule map_cong, rule refl, rule reset_job_from_eq, rule keys)
qed

section \<open>The stored form\<close>

record workflow_run_data =
  d_id :: string
  d_workflowId :: string
  d_workflowName :: string
  d_status :: wf_status
  d_startedAt :: "time option"
  d_completedAt :: "time option"
  d_jobs :: "job_run_data list"
  d_tags :: "(string \<times> string) list"
  d_pid :: "int option"
  d_logFile :: "string option"
  d_workflowDataArtifacts :: "data_artifact_ref list option"
  d_inputs :: "json_object option"
  d_resumeInputs :: "string list option"
  d_deferredExpressions :: "json list option"
  d_inheritedExpressions :: "string list option"
  d_replayedEvaluatedCache :: "bool option"
  d_resumedAt :: "time option"
  d_startKey :: "run_start_key option"
  d_inputsProvenance :: "json option"
  d_persistedInputsProvenance :: "json option"
  d_initiatedBy :: "string option"
  d_client :: "string option"
  d_instanceId :: "string option"
  d_ownerBeforeResume :: "owner_ref option"
  d_triggerSource :: "string option"
  d_triggeringPrincipal :: "json option"
  d_allowedVaults :: "string list option"
  d_writtenReferences :: "json list option"
  d_sensitiveFormat :: "int option"
  d_references :: "(string \<times> string) list option"
  d_failedStep :: "string option"
  d_failureReason :: "string option"
  d_stepProgress :: "(nat \<times> nat) option"
  d_awaitingResume :: "bool option"
  d_recovered :: "bool option"
  d_runPlan :: "run_plan option"
  d_parentRun :: "parent_run_ref raw option"

definition run_toData :: "workflow_run \<Rightarrow> workflow_run_data" where
  "run_toData r =
     \<lparr>d_id = r_id r, d_workflowId = r_workflowId r, d_workflowName = r_workflowName r, d_status = r_status r,
      d_startedAt = r_startedAt r, d_completedAt = r_completedAt r, d_jobs = map job_toData (r_jobs r),
      d_tags = r_tags r, d_pid = r_pid r, d_logFile = truthy_text (r_logFile r),
      d_workflowDataArtifacts = nonempty (r_workflowDataArtifacts r), d_inputs = nonempty (r_inputs r),
      d_resumeInputs = nonempty (r_resumeInputs r), d_deferredExpressions = nonempty (r_deferredExpressions r),
      d_inheritedExpressions = nonempty (r_inheritedExpressions r),
      d_replayedEvaluatedCache = flag (r_replayedEvaluatedCache r), d_resumedAt = r_resumedAt r,
      d_startKey = r_startKey r, d_inputsProvenance = r_inputsProvenance r,
      d_persistedInputsProvenance = r_persistedInputsProvenance r, d_initiatedBy = r_initiatedBy r,
      d_client = r_client r, d_instanceId = r_instanceId r, d_ownerBeforeResume = r_ownerBeforeResume r,
      d_triggerSource = r_triggerSource r, d_triggeringPrincipal = r_triggeringPrincipal r,
      d_allowedVaults = r_allowedVaults r, d_writtenReferences = nonempty (r_writtenReferences r),
      d_sensitiveFormat = r_sensitiveFormat r, d_references = Option.bind (r_references r) nonempty,
      d_failedStep = fst (failureInfo r), d_failureReason = snd (failureInfo r),
      d_stepProgress = computeStepProgress r, d_awaitingResume = flag (isAwaitingResume r),
      d_recovered = flag (awaitsResumeAfterRecovery r), d_runPlan = r_runPlan r,
      d_parentRun = map_option persistedKept (r_parentRun r)\<rparr>"

definition MAX_WORKFLOW_NESTING_DEPTH :: int where
  "MAX_WORKFLOW_NESTING_DEPTH = 10"

definition valid_parent_run_ref :: "(string \<Rightarrow> bool) \<Rightarrow> parent_run_ref \<Rightarrow> bool" where
  "valid_parent_run_ref is_uuid p \<longleftrightarrow>
     is_uuid (nr_workflowId p) \<and> workflow_name_ok (nr_workflowName p) \<and> is_uuid (nr_runId p) \<and>
     pa_jobName p \<noteq> [] \<and> pa_stepName p \<noteq> [] \<and>
     1 \<le> pa_nestingDepth p \<and> pa_nestingDepth p \<le> MAX_WORKFLOW_NESTING_DEPTH \<and>
     list_all workflow_name_ok (pa_ancestorWorkflowNames p)"

definition valid_start_key :: "run_start_key \<Rightarrow> bool" where
  "valid_start_key k \<longleftrightarrow> sk_lookup k \<noteq> [] \<and> sk_salt k \<noteq> [] \<and> sk_fingerprint k \<noteq> []"

text \<open>
  What \<^verbatim>\<open>WorkflowRunSchema\<close> asks of the values. The schemas of the carried JSON (the triggering
  principal, provenance, deferred expressions, written references) belong to other components:
  \<open>carried_ok\<close> stands for them.
\<close>

definition valid_run_data :: "(string \<Rightarrow> bool) \<Rightarrow> (workflow_run_data \<Rightarrow> bool) \<Rightarrow> workflow_run_data \<Rightarrow> bool" where
  "valid_run_data is_uuid carried_ok d \<longleftrightarrow>
     is_uuid (d_id d) \<and> is_uuid (d_workflowId d) \<and> d_workflowName d \<noteq> [] \<and>
     pred_option (\<lambda>p. p > 0) (d_pid d) \<and>
     list_all (valid_artifact is_uuid) (or_else [] (d_workflowDataArtifacts d)) \<and>
     pred_option valid_start_key (d_startKey d) \<and>
     pred_option (\<lambda>w. pred_option (\<lambda>p. p > 0) (fst w)) (d_ownerBeforeResume d) \<and>
     pred_option (\<lambda>n. n > 0) (d_sensitiveFormat d) \<and> carried_ok d"

definition run_fromData ::
  "(string \<Rightarrow> bool) \<Rightarrow> (workflow_run_data \<Rightarrow> bool) \<Rightarrow> workflow_run_data \<Rightarrow> workflow_run option" where
  "run_fromData is_uuid carried_ok d =
     (if \<not> valid_run_data is_uuid carried_ok d then None
      else map_option (\<lambda>jobs.
        \<lparr>r_id = d_id d, r_workflowId = d_workflowId d, r_workflowName = d_workflowName d, r_status = d_status d,
         r_startedAt = d_startedAt d, r_completedAt = d_completedAt d, r_jobs = jobs, r_logFile = d_logFile d,
         r_tags = d_tags d, r_workflowDataArtifacts = or_else [] (d_workflowDataArtifacts d),
         r_inputs = or_else [] (d_inputs d), r_resumeInputs = or_else [] (d_resumeInputs d), r_pid = d_pid d,
         r_initiatedBy = d_initiatedBy d, r_instanceId = d_instanceId d, r_triggerSource = d_triggerSource d,
         r_references = d_references d, r_runPlan = d_runPlan d,
         r_inheritedExpressions = or_else [] (d_inheritedExpressions d),
         r_deferredExpressions = or_else [] (d_deferredExpressions d),
         r_ownerBeforeResume = d_ownerBeforeResume d, r_writtenReferences = or_else [] (d_writtenReferences d),
         r_sensitiveFormat = d_sensitiveFormat d,
         r_parentRun = map_option (parseKept (valid_parent_run_ref is_uuid)) (d_parentRun d),
         r_triggeringPrincipal = d_triggeringPrincipal d, r_allowedVaults = d_allowedVaults d,
         r_recovered = or_else False (d_recovered d), r_client = d_client d,
         r_inputsProvenance = d_inputsProvenance d, r_persistedInputsProvenance = d_persistedInputsProvenance d,
         r_replayedEvaluatedCache = (d_replayedEvaluatedCache d = Some True), r_resumedAt = d_resumedAt d,
         r_startKey = d_startKey d\<rparr>)
      (those (map (job_fromData is_uuid) (d_jobs d))))"

text \<open>
  What a save keeps of a run: the forEach mappings and a recovery marker the run has outlived are
  dropped, and an empty log file name or set of references reads as none.
\<close>

definition as_stored :: "workflow_run \<Rightarrow> workflow_run" where
  "as_stored r =
     r\<lparr>r_jobs := map without_mappings (r_jobs r), r_logFile := truthy_text (r_logFile r),
       r_references := Option.bind (r_references r) nonempty, r_recovered := awaitsResumeAfterRecovery r\<rparr>"

definition storable_run :: "(string \<Rightarrow> bool) \<Rightarrow> (workflow_run_data \<Rightarrow> bool) \<Rightarrow> workflow_run \<Rightarrow> bool" where
  "storable_run is_uuid carried_ok r \<longleftrightarrow> valid_run_data is_uuid carried_ok (run_toData r) \<and>
     list_all (storable_job is_uuid) (r_jobs r) \<and>
     pred_option (well_kept (valid_parent_run_ref is_uuid)) (r_parentRun r)"

lemma jobs_read_back:
  "list_all (storable_job is_uuid) js \<Longrightarrow>
   those (map (job_fromData is_uuid) (map job_toData js)) = Some (map without_mappings js)"
  by (induction js) (simp_all add: job_read_back)

lemma run_toData_sel [simp]:
  "d_id (run_toData r) = r_id r"
  "d_workflowId (run_toData r) = r_workflowId r"
  "d_workflowName (run_toData r) = r_workflowName r"
  "d_status (run_toData r) = r_status r"
  "d_startedAt (run_toData r) = r_startedAt r"
  "d_completedAt (run_toData r) = r_completedAt r"
  "d_jobs (run_toData r) = map job_toData (r_jobs r)"
  "d_tags (run_toData r) = r_tags r"
  "d_pid (run_toData r) = r_pid r"
  "d_logFile (run_toData r) = truthy_text (r_logFile r)"
  "d_workflowDataArtifacts (run_toData r) = nonempty (r_workflowDataArtifacts r)"
  "d_inputs (run_toData r) = nonempty (r_inputs r)"
  "d_resumeInputs (run_toData r) = nonempty (r_resumeInputs r)"
  "d_deferredExpressions (run_toData r) = nonempty (r_deferredExpressions r)"
  "d_inheritedExpressions (run_toData r) = nonempty (r_inheritedExpressions r)"
  "d_replayedEvaluatedCache (run_toData r) = flag (r_replayedEvaluatedCache r)"
  "d_resumedAt (run_toData r) = r_resumedAt r"
  "d_startKey (run_toData r) = r_startKey r"
  "d_inputsProvenance (run_toData r) = r_inputsProvenance r"
  "d_persistedInputsProvenance (run_toData r) = r_persistedInputsProvenance r"
  "d_initiatedBy (run_toData r) = r_initiatedBy r"
  "d_client (run_toData r) = r_client r"
  "d_instanceId (run_toData r) = r_instanceId r"
  "d_ownerBeforeResume (run_toData r) = r_ownerBeforeResume r"
  "d_triggerSource (run_toData r) = r_triggerSource r"
  "d_triggeringPrincipal (run_toData r) = r_triggeringPrincipal r"
  "d_allowedVaults (run_toData r) = r_allowedVaults r"
  "d_writtenReferences (run_toData r) = nonempty (r_writtenReferences r)"
  "d_sensitiveFormat (run_toData r) = r_sensitiveFormat r"
  "d_references (run_toData r) = Option.bind (r_references r) nonempty"
  "d_failedStep (run_toData r) = fst (failureInfo r)"
  "d_failureReason (run_toData r) = snd (failureInfo r)"
  "d_stepProgress (run_toData r) = computeStepProgress r"
  "d_awaitingResume (run_toData r) = flag (isAwaitingResume r)"
  "d_recovered (run_toData r) = flag (awaitsResumeAfterRecovery r)"
  "d_runPlan (run_toData r) = r_runPlan r"
  "d_parentRun (run_toData r) = map_option persistedKept (r_parentRun r)"
  by (simp_all add: run_toData_def)

lemma truthy_text_idem [simp]: "truthy_text (truthy_text t) = truthy_text t"
  by (simp add: truthy_text_def)

lemma bind_nonempty_idem [simp]: "Option.bind (nonempty x) nonempty = nonempty x"
  by (simp add: nonempty_def)

lemma flag_eq_Some_True [simp]: "flag b = Some True \<longleftrightarrow> b"
  by (simp add: flag_def)

lemma as_stored_sel:
  "r_jobs (as_stored r) = map without_mappings (r_jobs r)" "r_logFile (as_stored r) = truthy_text (r_logFile r)"
  "r_references (as_stored r) = Option.bind (r_references r) nonempty"
  "r_recovered (as_stored r) = awaitsResumeAfterRecovery r" "r_status (as_stored r) = r_status r"
  by (simp_all add: as_stored_def)

lemma run_read_back:
  assumes "storable_run is_uuid carried_ok r"
  shows "run_fromData is_uuid carried_ok (run_toData r) = Some (as_stored r)"
proof -
  have valid: "valid_run_data is_uuid carried_ok (run_toData r)"
    and jobs: "those (map (job_fromData is_uuid) (map job_toData (r_jobs r))) = Some (map without_mappings (r_jobs r))"
    and parent: "map_option (parseKept (valid_parent_run_ref is_uuid)) (map_option persistedKept (r_parentRun r)) = r_parentRun r"
    using assms jobs_read_back map_option_parse_persisted unfolding storable_run_def by blast+
  show ?thesis
    unfolding run_fromData_def run_toData_sel jobs parent using valid
    by (simp add: as_stored_def)
qed

lemma without_mappings_idem [simp]: "without_mappings (without_mappings j) = without_mappings j"
  by (simp add: without_mappings_def)

lemma without_mappings_comp [simp]: "without_mappings \<circ> without_mappings = without_mappings"
  by (simp add: fun_eq_iff)

lemma awaits_as_stored [simp]: "awaitsResumeAfterRecovery (as_stored r) = awaitsResumeAfterRecovery r"
  by (auto simp: awaitsResumeAfterRecovery_def as_stored_sel)

lemma as_stored_idem [simp]: "as_stored (as_stored r) = as_stored r"
proof -
  have "as_stored (as_stored r) =
      (as_stored r)\<lparr>r_jobs := map without_mappings (r_jobs r), r_logFile := truthy_text (r_logFile r),
        r_references := Option.bind (r_references r) nonempty, r_recovered := awaitsResumeAfterRecovery r\<rparr>"
    unfolding as_stored_def [of "as_stored r"] awaits_as_stored by (simp add: as_stored_sel)
  then show ?thesis by (simp add: as_stored_def)
qed

interpretation run_store: stored_record run_toData "run_fromData is_uuid carried_ok"
  "\<lambda>r. storable_run is_uuid carried_ok r \<and> as_stored r = r" for is_uuid carried_ok
  by unfold_locales (simp add: run_read_back)

text \<open>C24.
  A saved run is read back as it was, whole: with every job, every step, every link and wait it
  could not parse written back unchanged; only the forEach mappings, which each expansion registers
  again, and a recovery marker on a run that is no longer suspended are not kept. Saving the run
  that was read back writes the same record.
\<close>

theorem saved_run_reads_back:
  assumes "storable_run is_uuid carried_ok r"
  shows "run_fromData is_uuid carried_ok (run_toData r) = Some (as_stored r) \<and>
    r_status (as_stored r) = r_status r \<and>
    map jr_steps (r_jobs (as_stored r)) = map jr_steps (r_jobs r) \<and>
    run_toData (as_stored r) = run_toData r"
proof -
  have steps: "map jr_steps (r_jobs (as_stored r)) = map jr_steps (r_jobs r)"
    by (simp add: as_stored_def without_mappings_def comp_def)
  have all: "all_steps (as_stored r) = all_steps r"
    by (simp add: all_steps_def as_stored_def without_mappings_def comp_def)
  have derived: "failureInfo (as_stored r) = failureInfo r" "computeStepProgress (as_stored r) = computeStepProgress r"
    "isAwaitingResume (as_stored r) = isAwaitingResume r"
    unfolding failureInfo_def computeStepProgress_def isAwaitingResume_def findWaitingApprovalStep_def
      findNestedWaits_def findSignalWaits_def all as_stored_sel
    by (rule refl)+
  have "job_toData \<circ> without_mappings = job_toData"
    by (simp add: fun_eq_iff job_toData_def without_mappings_def)
  then have "run_toData (as_stored r) = run_toData r"
    unfolding run_toData_def derived awaits_as_stored as_stored_sel by (simp add: as_stored_def)
  then show ?thesis using run_read_back [OF assms] steps by (simp add: as_stored_sel)
qed

theorem saved_run_reads_back_witness:
  "storable_run (\<lambda>s. s \<noteq> []) (\<lambda>d. True) demo_run \<and>
   run_fromData (\<lambda>s. s \<noteq> []) (\<lambda>d. True) (run_toData demo_run) = Some (as_stored demo_run)"
proof -
  have "storable_run (\<lambda>s. s \<noteq> []) (\<lambda>d. True) demo_run"
    by (simp add: storable_run_def valid_run_data_def run_toData_def demo_run_def create_run_def storable_job_def
        pending_job_def storable_step_def pending_step_def)
  then show ?thesis using saved_run_reads_back by blast
qed

end
