(* ===== verification/Abort_Settlement.thy ===== *)
theory Abort_Settlement
  imports Workflow_Run
begin

text \<open>
  \<^verbatim>\<open>src/src/domain/workflows/abort_settlement.ts\<close>: what a cancel makes of the jobs and steps
  of a run, following the definition's dependencies where it can and the records alone where it
  cannot.

  A job of the run is changed in place. An operation that can throw after it has changed the job
  returns the job as it left it with the error. \<open>localeCompare\<close> is the comparator of the sort.
\<close>

section \<open>Which jobs and steps may run\<close>

definition shouldJobRun :: "job_def \<Rightarrow> workflow_run \<Rightarrow> bool" where
  "shouldJobRun job run =
     (if jb_dependsOn job = [] then True
      else list_all (\<lambda>(dep, condition). evaluate condition (run_getStatus run) dep) (jb_dependsOn job))"

definition shouldStepRun :: "step_def \<Rightarrow> job_run \<Rightarrow> bool" where
  "shouldStepRun step j =
     (if st_dependsOn step = [] then True
      else list_all (\<lambda>(dep, condition). evaluate condition (job_getStatus j) dep) (st_dependsOn step))"

definition suspendsRun :: "step_def \<Rightarrow> bool" where
  "suspendsRun step = (case st_task step of Manual_approval _ _ \<Rightarrow> True | Wait_for_signal _ _ _ _ \<Rightarrow> True | _ \<Rightarrow> False)"

text \<open>
  \<^verbatim>\<open>isCleanup\<close> asks itself about the dependencies of a step. The fuel bounds the chain of such
  questions; the number of steps is enough for a job whose dependencies have no cycle.
\<close>

fun step_isCleanup :: "nat \<Rightarrow> job_def \<Rightarrow> job_run \<Rightarrow> step_def \<Rightarrow> bool" where
  "step_isCleanup 0 job j candidate = False"
| "step_isCleanup (Suc fuel) job j candidate \<longleftrightarrow>
     \<not> suspendsRun candidate \<and> st_dependsOn candidate \<noteq> [] \<and>
     list_all (\<lambda>(dep, condition).
         evaluate condition (\<lambda>ref.
           case job_getStep job ref of
             None \<Rightarrow> Some Failed
           | Some dependency \<Rightarrow>
               let status = job_getStatus j ref;
                   ran = (status = Some Succeeded \<or> status = Some Skipped \<and> skippedByGuard j ref) in
               if ran \<and> step_isCleanup fuel job j dependency then status else Some Failed) dep)
       (st_dependsOn candidate)"

definition runsAfterFailure :: "step_def \<Rightarrow> job_def \<Rightarrow> job_run \<Rightarrow> bool" where
  "runsAfterFailure step job j = step_isCleanup (Suc (length (jb_steps job))) job j step"

fun job_isCleanup :: "nat \<Rightarrow> workflow_def \<Rightarrow> workflow_run \<Rightarrow> job_def \<Rightarrow> bool" where
  "job_isCleanup 0 w run candidate = False"
| "job_isCleanup (Suc fuel) w run candidate \<longleftrightarrow>
     \<not> list_ex suspendsRun (jb_steps candidate) \<and> jb_dependsOn candidate \<noteq> [] \<and>
     list_all (\<lambda>(dep, condition).
         evaluate condition (\<lambda>ref.
           case workflow_getJob w ref of
             None \<Rightarrow> Some Failed
           | Some dependency \<Rightarrow>
               if run_getStatus run ref = Some Succeeded \<and> job_isCleanup fuel w run dependency
               then run_getStatus run ref else Some Failed) dep)
       (jb_dependsOn candidate)"

definition jobRunsAfterFailure :: "job_def \<Rightarrow> workflow_def \<Rightarrow> workflow_run \<Rightarrow> bool" where
  "jobRunsAfterFailure job w run = job_isCleanup (Suc (length (wd_jobs w))) w run job"

section \<open>Settling steps\<close>

definition abandon_step :: "time \<Rightarrow> string \<Rightarrow> step_run \<Rightarrow> step_run" where
  "abandon_step now error s = (if sr_status s = Running then failStoppedByAbort now error None s else s)"

definition failAbandonedSteps :: "time \<Rightarrow> string \<Rightarrow> job_run \<Rightarrow> bool \<times> job_run" where
  "failAbandonedSteps now error j =
     (list_ex (\<lambda>s. sr_status s = Running) (jr_steps j), map_steps (abandon_step now error) j)"

definition settleUnstartedStep :: "time \<Rightarrow> step_def option \<Rightarrow> string \<Rightarrow> job_run \<Rightarrow> job_run" where
  "settleUnstartedStep now step stepName j =
     (if step \<noteq> None \<and> \<not> shouldStepRun (the step) j
      then update_step stepName (skipUnstarted now Dependency) j
      else if \<not> (step \<noteq> None \<and> truthy (st_guard (the step)))
      then snd (cancelPendingSteps now [stepName] j)
      else j)"

text \<open>One turn of the loops over the sorted names: only a step that is still pending is settled.\<close>

definition settle_named :: "time \<Rightarrow> (string \<Rightarrow> step_def option) \<Rightarrow> string \<Rightarrow> job_run \<Rightarrow> job_run" where
  "settle_named now step_of name j =
     (case getStep j name of
        Some s \<Rightarrow> if sr_status s \<noteq> Pending then j else settleUnstartedStep now (step_of name) name j
      | None \<Rightarrow> j)"

definition step_node :: "step_def \<Rightarrow> graph_node" where
  "step_node s = \<lparr>gn_name = st_name s, gn_weight = st_weight s, gn_dependencies = step_getDependencyNames s, gn_group = None\<rparr>"

definition settleUnstartedSteps ::
  "(string \<Rightarrow> string \<Rightarrow> int) \<Rightarrow> time \<Rightarrow> job_def \<Rightarrow> job_run \<Rightarrow> sort_error option \<times> job_run" where
  "settleUnstartedSteps localeCompare now job j =
     (case sort_nodes localeCompare (map step_node (jb_steps job)) of
        Inl e \<Rightarrow> (Some e, j)
      | Inr levels \<Rightarrow> (None, fold (settle_named now (job_getStep job)) (concat levels) j))"

definition then_settle :: "(job_run \<Rightarrow> job_run) \<Rightarrow> sort_error option \<times> job_run \<Rightarrow> sort_error option \<times> job_run" where
  "then_settle f ej = (case fst ej of None \<Rightarrow> (None, f (snd ej)) | Some e \<Rightarrow> ej)"

definition settleNotStartedJob ::
  "(string \<Rightarrow> string \<Rightarrow> int) \<Rightarrow> time \<Rightarrow> job_def \<Rightarrow> job_run \<Rightarrow> sort_error option \<times> job_run" where
  "settleNotStartedJob localeCompare now job j =
     then_settle (settleNotStarted now) (settleUnstartedSteps localeCompare now job j)"

definition settleUnstartedJob ::
  "(string \<Rightarrow> string \<Rightarrow> int) \<Rightarrow> time \<Rightarrow> job_def \<Rightarrow> job_run \<Rightarrow> workflow_run \<Rightarrow> sort_error option \<times> job_run" where
  "settleUnstartedJob localeCompare now job j run =
     (if \<not> shouldJobRun job run then (None, skipNotStarted now j)
      else settleNotStartedJob localeCompare now job j)"

definition settleNotResumedJob ::
  "(string \<Rightarrow> string \<Rightarrow> int) \<Rightarrow> time \<Rightarrow> job_def \<Rightarrow> job_run \<Rightarrow> sort_error option \<times> job_run" where
  "settleNotResumedJob localeCompare now job j =
     then_settle (settleNotResumed now) (settleUnstartedSteps localeCompare now job j)"

section \<open>Settling jobs\<close>

definition isOpenJob :: "job_run \<Rightarrow> bool" where
  "isOpenJob j \<longleftrightarrow> jr_status j = Pending \<or> jr_status j = Running"

definition settleInFlightSteps :: "time \<Rightarrow> string \<Rightarrow> job_run \<Rightarrow> job_run" where
  "settleInFlightSteps now inFlightError j =
     map_steps (\<lambda>s. cancelOpenWait now (cancelUndecidedApproval now s)) (snd (failAbandonedSteps now inFlightError j))"

definition settleOpenJob :: "time \<Rightarrow> job_run \<Rightarrow> job_run" where
  "settleOpenJob now j = (if jr_status j = Running then settleNotResumed now j else settleNotStarted now j)"

definition cancel_if_pending :: "time \<Rightarrow> step_run \<Rightarrow> step_run" where
  "cancel_if_pending now s = (if sr_status s = Pending then cancelUnstarted now s else s)"

definition settleJobFromRecords :: "time \<Rightarrow> string \<Rightarrow> job_run \<Rightarrow> job_run" where
  "settleJobFromRecords now inFlightError j =
     (if \<not> isOpenJob j then j
      else settleOpenJob now (map_steps (cancel_if_pending now) (settleInFlightSteps now inFlightError j)))"

text \<open>
  The iterations of each forEach step of the definition, by the template their records name, in the
  order the templates were met.
\<close>

definition iterations_of :: "job_def \<Rightarrow> job_run \<Rightarrow> (string \<times> string list) list" where
  "iterations_of job j =
     (let defined = map st_name (jb_steps job);
          pairs = concat (map (\<lambda>s. case sr_forEachTemplate s of
                              Some t \<Rightarrow> if t \<in> set defined then [(t, sr_stepName s)] else []
                            | None \<Rightarrow> []) (jr_steps j)) in
      map (\<lambda>t. (t, map snd (filter (\<lambda>p. fst p = t) pairs))) (nub (map fst pairs)))"

definition cancel_undefined :: "time \<Rightarrow> job_def \<Rightarrow> step_run \<Rightarrow> step_run" where
  "cancel_undefined now job s =
     (let defined = map st_name (jb_steps job) in
      if (case sr_forEachTemplate s of Some t \<Rightarrow> t \<in> set defined | None \<Rightarrow> False) then s
      else if sr_stepName s \<notin> set defined \<and> sr_status s = Pending then cancelUnstarted now s
      else s)"

definition register_missing :: "string \<times> string list \<Rightarrow> job_run \<Rightarrow> job_run" where
  "register_missing tn j = (if hasForEachExpansion j (fst tn) then j else registerForEachExpansion (fst tn) (snd tn) j)"

definition names_or :: "(string \<times> string list) list \<Rightarrow> string \<Rightarrow> string list" where
  "names_or iterations n = (case map_of iterations n of Some names \<Rightarrow> names | None \<Rightarrow> [n])"

text \<open>\<open>stepFor\<close> and the nodes of the sort; a later entry of the map replaces an earlier one.\<close>

definition step_for :: "(string \<times> string list) list \<Rightarrow> job_def \<Rightarrow> (string \<times> step_def) list" where
  "step_for iterations job =
     concat (map (\<lambda>s. map (\<lambda>n. (n, s)) (names_or iterations (st_name s))) (jb_steps job))"

definition pending_nodes :: "(string \<times> string list) list \<Rightarrow> job_def \<Rightarrow> graph_node list" where
  "pending_nodes iterations job =
     map (\<lambda>(n, s). \<lparr>gn_name = n, gn_weight = st_weight s,
            gn_dependencies = concat (map (names_or iterations) (step_getDependencyNames s)), gn_group = None\<rparr>)
       (step_for iterations job)"

definition settlePendingSteps ::
  "(string \<Rightarrow> string \<Rightarrow> int) \<Rightarrow> time \<Rightarrow> job_def \<Rightarrow> job_run \<Rightarrow> sort_error option \<times> job_run" where
  "settlePendingSteps localeCompare now job j =
     (let iterations = iterations_of job j;
          j1 = fold register_missing iterations (map_steps (cancel_undefined now job) j);
          stepFor = map_of (rev (step_for iterations job)) in
      case sort_nodes localeCompare (pending_nodes iterations job) of
        Inl e \<Rightarrow> (Some e, j1)
      | Inr levels \<Rightarrow> (None, fold (settle_named now stepFor) (concat levels) j1))"

definition settleDefinedJob ::
  "(string \<Rightarrow> string \<Rightarrow> int) \<Rightarrow> time \<Rightarrow> string \<Rightarrow> job_def \<Rightarrow> workflow_run \<Rightarrow> job_run \<Rightarrow> sort_error option \<times> job_run" where
  "settleDefinedJob localeCompare now inFlightError job run j =
     (if \<not> isOpenJob j then (None, j)
      else
        let j1 = settleInFlightSteps now inFlightError j in
        if jr_status j1 = Pending \<and> \<not> shouldJobRun job run then (None, skipNotStarted now j1)
        else then_settle (settleOpenJob now) (settlePendingSteps localeCompare now job j1))"

section \<open>Settling a run\<close>

definition job_node :: "job_def \<Rightarrow> graph_node" where
  "job_node j = \<lparr>gn_name = jb_name j, gn_weight = jb_weight j, gn_dependencies = job_getDependencyNames j, gn_group = None\<rparr>"

text \<open>The loop over the sorted jobs: the first error ends it with the run as it then is.\<close>

fun settle_jobs ::
  "(string \<Rightarrow> string \<Rightarrow> int) \<Rightarrow> time \<Rightarrow> string \<Rightarrow> workflow_def \<Rightarrow> string list \<Rightarrow> workflow_run
   \<Rightarrow> sort_error option \<times> workflow_run" where
  "settle_jobs localeCompare now inFlightError w [] run = (None, run)"
| "settle_jobs localeCompare now inFlightError w (name # names) run =
     (case (workflow_getJob w name, run_getJob run name) of
        (Some job, Some j) \<Rightarrow>
          let ej = settleDefinedJob localeCompare now inFlightError job run j;
              run' = update_job name (\<lambda>_. snd ej) run in
          (case fst ej of
             Some e \<Rightarrow> (Some e, run')
           | None \<Rightarrow> settle_jobs localeCompare now inFlightError w names run')
      | _ \<Rightarrow> settle_jobs localeCompare now inFlightError w names run)"

definition settleCancelledRun ::
  "(string \<Rightarrow> string \<Rightarrow> int) \<Rightarrow> time \<Rightarrow> workflow_def option \<Rightarrow> string option \<Rightarrow> workflow_run \<Rightarrow> workflow_run" where
  "settleCancelledRun localeCompare now workflow inFlightStepError run =
     (if \<not> isCancellable run then run
      else
        let inFlightError = or_else CANCELLED_STEP_ERROR inFlightStepError;
            definedJobs = (case workflow of None \<Rightarrow> [] | Some w \<Rightarrow> map jb_name (wd_jobs w));
            r1 = map_jobs (\<lambda>j. if jr_jobName j \<in> set definedJobs then j else settleJobFromRecords now inFlightError j)
                   (detachNestedWaits now run) in
        case workflow of
          None \<Rightarrow> r1
        | Some w \<Rightarrow>
            (case sort_nodes localeCompare (map job_node (wd_jobs w)) of
               Inl e \<Rightarrow> map_jobs (settleJobFromRecords now inFlightError) r1
             | Inr levels \<Rightarrow>
                 (case settle_jobs localeCompare now inFlightError w (concat levels) r1 of
                    (None, r2) \<Rightarrow> r2
                  | (Some e, r2) \<Rightarrow> map_jobs (settleJobFromRecords now inFlightError) r2)))"

definition cancelAndSettle ::
  "(string \<Rightarrow> string \<Rightarrow> int) \<Rightarrow> time \<Rightarrow> workflow_def option \<Rightarrow> string option \<Rightarrow> string option \<Rightarrow> workflow_run \<Rightarrow> workflow_run" where
  "cancelAndSettle localeCompare now workflow reason inFlightStepError run =
     (if \<not> isCancellable run then run
      else endAsCancelled now reason (settleCancelledRun localeCompare now workflow inFlightStepError run))"

definition completeAndSettle ::
  "(string \<Rightarrow> string \<Rightarrow> int) \<Rightarrow> time \<Rightarrow> workflow_def option \<Rightarrow> workflow_run \<Rightarrow> workflow_run" where
  "completeAndSettle localeCompare now workflow run =
     (if \<not> isCancellable run then run
      else run_complete now (settleCancelledRun localeCompare now workflow None run))"

text \<open>
  Which definition a run is settled against. \<open>find_evaluated\<close> is the repository's lookup of the
  evaluated snapshot: \<open>None\<close> when it throws, \<open>Some None\<close> when there is none.
\<close>

definition resolveSettlementWorkflow ::
  "(string \<Rightarrow> workflow_def option option) \<Rightarrow> workflow_run \<Rightarrow> workflow_def option \<Rightarrow> workflow_def option" where
  "resolveSettlementWorkflow find_evaluated run repositoryWorkflow =
     (case Option.bind (r_runPlan run) pl_evaluatedWorkflowId of
        None \<Rightarrow> repositoryWorkflow
      | Some i \<Rightarrow>
          if i = [] then repositoryWorkflow
          else case find_evaluated i of Some (Some w) \<Rightarrow> Some w | _ \<Rightarrow> repositoryWorkflow)"

section \<open>What a settlement does to the records\<close>

text \<open>
  The change a settlement may make to one step: none, or the end of an unfinished one, marked with
  how it ended.
\<close>

definition settles :: "step_run \<Rightarrow> step_run \<Rightarrow> bool" where
  "settles s s' \<longleftrightarrow>
     s' = s \<or>
     isUnfinishedStatus (sr_status s) \<and> sr_status s' \<in> {Failed, Skipped} \<and>
     sr_stepName s' = sr_stepName s \<and> sr_forEachTemplate s' = sr_forEachTemplate s \<and>
     (if sr_status s = Running then sr_stoppedByAbort s' \<and> sr_settledByAbort s' = sr_settledByAbort s
      else sr_settledByAbort s')"

text \<open>A step nothing is running or waiting on, and a job no part of which is.\<close>

definition calm_step :: "step_run \<Rightarrow> bool" where
  "calm_step s \<longleftrightarrow> sr_status s \<notin> {Running, Waiting_approval, Waiting, Waiting_signal}"

definition calm_job :: "job_run \<Rightarrow> bool" where
  "calm_job j \<longleftrightarrow> jr_status j \<noteq> Running \<and> list_all calm_step (jr_steps j)"

text \<open>The change a settlement may make to a job. A job it gives another status it leaves calm.\<close>

definition job_settles :: "job_run \<Rightarrow> job_run \<Rightarrow> bool" where
  "job_settles j j' \<longleftrightarrow>
     jr_jobName j' = jr_jobName j \<and> list_all2 settles (jr_steps j) (jr_steps j') \<and>
     (jr_status j' = jr_status j \<or> isUnfinishedStatus (jr_status j) \<and> calm_job j')"

lemma settles_refl [simp]: "settles s s"
  by (simp add: settles_def)

lemma settles_trans: "settles s s' \<Longrightarrow> settles s' s'' \<Longrightarrow> settles s s''"
  by (auto simp: settles_def split: if_splits)

lemma settles_calm: "settles s s' \<Longrightarrow> calm_step s \<Longrightarrow> calm_step s'"
  by (auto simp: settles_def calm_step_def)

lemma settles_name: "settles s s' \<Longrightarrow> sr_stepName s' = sr_stepName s"
  by (auto simp: settles_def)

lemma list_all2_settles_calm: "list_all2 settles ss ss' \<Longrightarrow> list_all calm_step ss \<Longrightarrow> list_all calm_step ss'"
  by (induction rule: list_all2_induct) (auto intro: settles_calm)

lemma list_all2_settles_map: "(\<And>s. settles s (f s)) \<Longrightarrow> list_all2 settles ss (map f ss)"
  by (simp add: list_all2_conv_all_nth)

lemma job_settles_refl [simp]: "job_settles j j"
  by (simp add: job_settles_def list_all2_refl)

lemma job_settles_calm: "job_settles j j' \<Longrightarrow> calm_job j \<Longrightarrow> calm_job j'"
  by (auto simp: job_settles_def calm_job_def intro: list_all2_settles_calm)

lemma job_settles_trans [trans]:
  assumes "job_settles j j'" and "job_settles j' j''"
  shows "job_settles j j''"
proof -
  have "list_all2 settles (jr_steps j) (jr_steps j'')"
    using assms list_all2_trans [of settles settles settles, OF settles_trans]
    by (auto simp: job_settles_def)
  moreover have "jr_status j'' = jr_status j \<or> isUnfinishedStatus (jr_status j) \<and> calm_job j''"
    using assms job_settles_calm [OF assms(2)] by (auto simp: job_settles_def)
  ultimately show ?thesis using assms by (auto simp: job_settles_def)
qed

lemma job_settles_map_steps: "(\<And>s. settles s (f s)) \<Longrightarrow> job_settles j (map_steps f j)"
  by (simp add: job_settles_def list_all2_settles_map)

lemma job_settles_fold: "(\<And>x j. job_settles j (f x j)) \<Longrightarrow> job_settles j (fold f xs j)"
  by (induction xs arbitrary: j) (auto intro: job_settles_trans)

lemma settles_ops [simp]:
  "sr_status s = Pending \<Longrightarrow> settles s (cancelUnstarted now s)"
  "sr_status s = Pending \<Longrightarrow> settles s (skipUnstarted now reason s)"
  "settles s (cancelUndecidedApproval now s)"
  "settles s (cancelOpenWait now s)"
  "settles s (abandon_step now e s)"
  "settles s (cancel_if_pending now s)"
  "settles s (cancel_undefined now job s)"
  "isNestedWait s \<Longrightarrow> settles s (detachNestedRun now e s)"
  by (auto simp: settles_def step_op_defs abandon_step_def cancel_if_pending_def cancel_undefined_def
      isNestedWait_def isSignalWait_def Let_def split: option.splits)

lemma job_settles_update_step:
  assumes "getStep j n = Some s" and "settles s (f s)"
  shows "job_settles j (update_step n f j)"
  using list_all2_update_first [of _ "jr_steps j" s settles f] assms
  by (simp add: job_settles_def getStep_def update_step_def)

lemma job_settles_settle_named: "job_settles j (settle_named now step_of n j)"
  by (auto simp: settle_named_def settleUnstartedStep_def cancelPendingSteps_def cancelPendingStep_def
      intro: job_settles_update_step split: option.splits)

lemma job_settles_register [simp]: "job_settles j (register_missing tn j)"
  by (simp add: register_missing_def job_settles_def registerForEachExpansion_def list_all2_refl)

lemma job_settles_pending: "job_settles j (snd (settlePendingSteps lc now job j))"
proof -
  let ?j1 = "fold register_missing (iterations_of job j) (map_steps (cancel_undefined now job) j)"
  have "job_settles j ?j1"
    by (rule job_settles_trans [OF job_settles_map_steps job_settles_fold]) simp_all
  then show ?thesis
    by (auto simp: settlePendingSteps_def Let_def split: sum.splits
        intro: job_settles_trans [OF _ job_settles_fold [OF job_settles_settle_named]])
qed

lemma job_settles_in_flight: "job_settles j (settleInFlightSteps now e j)"
  unfolding settleInFlightSteps_def failAbandonedSteps_def
  by (simp, rule job_settles_trans [OF job_settles_map_steps job_settles_map_steps])
     (auto intro: settles_trans [OF settles_ops(3) settles_ops(4)])

lemma in_flight_calm: "list_all calm_step (jr_steps (settleInFlightSteps now e j))"
  by (auto simp: settleInFlightSteps_def failAbandonedSteps_def list_all_iff calm_step_def abandon_step_def
      cancelOpenWait_def cancelUndecidedApproval_def isSignalWait_def failStoppedByAbort_def step_fail_def)

lemma settleInFlightSteps_status [simp]: "jr_status (settleInFlightSteps now e j) = jr_status j"
  by (simp add: settleInFlightSteps_def failAbandonedSteps_def)

lemma skip_no_pending: "\<not> list_ex (\<lambda>s. sr_status s = Pending) (jr_steps j) \<Longrightarrow> jr_steps (job_skip now j) = jr_steps j"
  by (auto simp: job_skip_def list_ex_iff intro: map_idI)

text \<open>A job whose steps are calm is closed calm.\<close>

lemma settleOpenJob_steps [simp]: "jr_steps (settleOpenJob now j) = jr_steps j"
  by (simp add: settleOpenJob_def settleNotResumed_def settleNotStarted_def skip_no_pending)

lemma settleOpenJob_closes:
  assumes "list_all calm_step (jr_steps j)" and "isOpenJob j"
  shows "calm_job (settleOpenJob now j) \<and> job_settles j (settleOpenJob now j)"
proof -
  have "jr_status (settleOpenJob now j) \<noteq> Running"
    using assms by (auto simp: settleOpenJob_def settleNotResumed_def settleNotStarted_def isOpenJob_def)
  then have "calm_job (settleOpenJob now j)" using assms by (simp add: calm_job_def)
  moreover have "jr_jobName (settleOpenJob now j) = jr_jobName j" by (simp add: settleOpenJob_def)
  ultimately show ?thesis using assms by (auto simp: job_settles_def isOpenJob_def list_all2_refl)
qed

lemma skipNotStarted_closes:
  assumes "list_all calm_step (jr_steps j)" and "isOpenJob j"
  shows "calm_job (skipNotStarted now j) \<and> job_settles j (skipNotStarted now j)"
proof -
  let ?f = "\<lambda>s. if sr_status s = Pending then skipUnstarted now Job_skipped s else s"
  have "jr_steps (skipNotStarted now j) = map ?f (jr_steps j)"
    by (simp add: skipNotStarted_def job_skip_def)
  then have "list_all2 settles (jr_steps j) (jr_steps (skipNotStarted now j))"
    by (simp add: list_all2_settles_map)
  then show ?thesis
    using assms list_all2_settles_calm by (auto simp: calm_job_def job_settles_def isOpenJob_def)
qed

lemma job_settles_open: "job_settles j j' \<Longrightarrow> isOpenJob j \<Longrightarrow> calm_job j' \<or> isOpenJob j'"
  by (auto simp: job_settles_def isOpenJob_def)

section \<open>Settling every job of a run\<close>

text \<open>
  What the loops over the jobs of a run rely on: a \<open>job_settler\<close> changes a job within the bounds of
  a settlement, and a \<open>job_closer\<close> also leaves no open job with work in flight.
\<close>

definition settleable_job :: "job_run \<Rightarrow> bool" where
  "settleable_job j \<longleftrightarrow> isOpenJob j \<or> calm_job j"

definition run_settles :: "workflow_run \<Rightarrow> workflow_run \<Rightarrow> bool" where
  "run_settles r r' \<longleftrightarrow> r_status r' = r_status r \<and> list_all2 job_settles (r_jobs r) (r_jobs r')"

locale job_settler =
  fixes settle :: "job_run \<Rightarrow> job_run"
  assumes settle_settles: "job_settles j (settle j)"
begin

lemma settle_name: "jr_jobName (settle j) = jr_jobName j"
  using settle_settles [of j] by (simp add: job_settles_def)

lemma map_settles: "run_settles r (map_jobs settle r)"
  using settle_settles by (simp add: run_settles_def list_all2_conv_all_nth)

lemma settle_settleable: "settleable_job j \<Longrightarrow> settleable_job (settle j)"
  using settle_settles [of j] job_settles_calm job_settles_open by (auto simp: settleable_job_def)

end

locale job_closer = job_settler +
  assumes settle_closes: "isOpenJob j \<Longrightarrow> calm_job (settle j)"
begin

lemma settle_calm: "settleable_job j \<Longrightarrow> calm_job (settle j)"
  using settle_settles [of j] settle_closes job_settles_calm by (auto simp: settleable_job_def)

lemma map_calm: "list_all settleable_job (r_jobs r) \<Longrightarrow> list_all calm_job (r_jobs (map_jobs settle r))"
  by (auto simp: list_all_iff intro: settle_calm)

end

interpretation detacher: job_settler "detach_job now"
proof
  fix j
  have "list_all calm_step ss" if "\<not> list_ex (\<lambda>s. isUnfinishedStatus (sr_status s)) ss" for ss
    using that by (auto simp: list_ex_iff list_all_iff calm_step_def)
  moreover have "list_all2 settles (jr_steps j) (jr_steps (detach_job now j))"
    by (simp add: list_all2_settles_map)
  ultimately show "job_settles j (detach_job now j)"
    by (auto simp: job_settles_def detach_job_def Let_def calm_job_def)
qed

lemma settleJobFromRecords_closes:
  "job_settles j (settleJobFromRecords now e j) \<and> (isOpenJob j \<longrightarrow> calm_job (settleJobFromRecords now e j))"
proof (cases "isOpenJob j")
  case True
  let ?j2 = "map_steps (cancel_if_pending now) (settleInFlightSteps now e j)"
  have "job_settles j ?j2"
    by (rule job_settles_trans [OF job_settles_in_flight job_settles_map_steps]) simp
  moreover have "list_all calm_step (jr_steps ?j2)"
    using list_all2_settles_calm [OF list_all2_settles_map in_flight_calm] by simp
  moreover have "isOpenJob ?j2" using True by (simp add: isOpenJob_def)
  ultimately show ?thesis
    using settleOpenJob_closes [of ?j2 now] True job_settles_trans by (auto simp: settleJobFromRecords_def)
qed (simp add: settleJobFromRecords_def)

interpretation records: job_closer "settleJobFromRecords now e"
  by unfold_locales (simp_all add: settleJobFromRecords_closes)

lemma settlePendingSteps_status [simp]: "jr_status (snd (settlePendingSteps lc now job j)) = jr_status j"
proof -
  have named: "jr_status (fold (settle_named now f) ns i) = jr_status i" for f ns i
    by (induction ns arbitrary: i) (auto simp: settle_named_def settleUnstartedStep_def
        cancelPendingSteps_def cancelPendingStep_def split: option.splits)
  have "jr_status (fold register_missing its i) = jr_status i" for its i
    by (induction its arbitrary: i) (auto simp: register_missing_def registerForEachExpansion_def)
  then show ?thesis by (simp add: settlePendingSteps_def Let_def named split: sum.splits)
qed

lemma settleDefinedJob_closes:
  "job_settles j (snd (settleDefinedJob lc now e job run j)) \<and>
   (isOpenJob j \<and> fst (settleDefinedJob lc now e job run j) = None \<longrightarrow>
    calm_job (snd (settleDefinedJob lc now e job run j)))"
proof (cases "isOpenJob j")
  case True
  let ?j1 = "settleInFlightSteps now e j"
  let ?j2 = "snd (settlePendingSteps lc now job ?j1)"
  have flight: "job_settles j ?j1" "list_all calm_step (jr_steps ?j1)" "isOpenJob ?j1"
    using True by (simp_all add: job_settles_in_flight in_flight_calm isOpenJob_def)
  note skip = skipNotStarted_closes [OF flight(2,3), of now]
  have pend: "job_settles ?j1 ?j2" by (rule job_settles_pending)
  then have "list_all calm_step (jr_steps ?j2)" using flight(2) list_all2_settles_calm by (auto simp: job_settles_def)
  moreover have "isOpenJob ?j2" using flight(3) by (simp add: isOpenJob_def)
  ultimately have closed: "calm_job (settleOpenJob now ?j2) \<and> job_settles ?j2 (settleOpenJob now ?j2)"
    by (rule settleOpenJob_closes)
  have to2: "job_settles j ?j2" using flight(1) pend by (rule job_settles_trans)
  show ?thesis
    using True skip closed to2 job_settles_trans [OF flight(1)] job_settles_trans [OF to2]
    by (auto simp: settleDefinedJob_def Let_def then_settle_def split: option.splits)
qed (simp add: settleDefinedJob_def)

interpretation defined: job_settler "\<lambda>j. snd (settleDefinedJob lc now e job run j)"
  by unfold_locales (simp add: settleDefinedJob_closes)


section \<open>Settling a run\<close>

lemma run_settles_refl [simp]: "run_settles r r"
  by (simp add: run_settles_def list_all2_refl)

lemma run_settles_trans [trans]: "run_settles r r' \<Longrightarrow> run_settles r' r'' \<Longrightarrow> run_settles r r''"
  using list_all2_trans [of job_settles job_settles job_settles, OF job_settles_trans]
  by (auto simp: run_settles_def)

lemma run_settles_update:
  assumes "run_getJob r n = Some j" and "job_settles j j'"
  shows "run_settles r (update_job n (\<lambda>_. j') r)"
  using assms list_all2_update_first [of _ "r_jobs r" j job_settles "\<lambda>_. j'"]
  by (simp add: run_settles_def run_getJob_def)

lemma settle_jobs_settles: "run_settles r (snd (settle_jobs lc now e w ns r))"
proof (induction ns arbitrary: r)
  case (Cons n ns)
  show ?case
  proof (cases "\<exists>job j. workflow_getJob w n = Some job \<and> run_getJob r n = Some j")
    case True
    then obtain job j where j: "workflow_getJob w n = Some job" "run_getJob r n = Some j" by blast
    let ?ej = "settleDefinedJob lc now e job r j"
    have "run_settles r (update_job n (\<lambda>_. snd ?ej) r)"
      using j(2) defined.settle_settles by (rule run_settles_update)
    then show ?thesis using Cons.IH run_settles_trans j by (auto simp: Let_def split: option.splits)
  next
    case False
    then show ?thesis using Cons.IH by (auto split: option.splits)
  qed
qed simp

lemma run_settles_settleable:
  "run_settles r r' \<Longrightarrow> list_all settleable_job (r_jobs r) \<Longrightarrow> list_all settleable_job (r_jobs r')"
proof -
  have "list_all2 job_settles js js' \<Longrightarrow> list_all settleable_job js \<Longrightarrow> list_all settleable_job js'" for js js'
    by (induction rule: list_all2_induct)
       (auto simp: settleable_job_def dest: job_settles_calm job_settles_open)
  then show "run_settles r r' \<Longrightarrow> list_all settleable_job (r_jobs r) \<Longrightarrow> list_all settleable_job (r_jobs r')"
    by (auto simp: run_settles_def)
qed

lemma settles_names:
  assumes "run_settles r r'"
  shows "map jr_jobName (r_jobs r') = map jr_jobName (r_jobs r)"
proof -
  have "list_all2 job_settles js js' \<Longrightarrow> map jr_jobName js' = map jr_jobName js" for js js'
    by (induction rule: list_all2_induct) (auto simp: job_settles_def)
  then show ?thesis using assms by (simp add: run_settles_def)
qed

text \<open>A job of a name, through a settlement.\<close>

lemma run_settles_getJob:
  assumes "run_settles r r'" and "run_getJob r n = Some j"
  obtains j' where "run_getJob r' n = Some j'" and "job_settles j j'"
proof -
  have "list_all2 job_settles js js' \<Longrightarrow> find (\<lambda>j. jr_jobName j = n) js = Some j \<Longrightarrow>
      \<exists>j'. find (\<lambda>j. jr_jobName j = n) js' = Some j' \<and> job_settles j j'" for js js'
    by (induction rule: list_all2_induct) (auto simp: job_settles_def split: if_splits)
  then show thesis using assms that by (auto simp: run_settles_def run_getJob_def)
qed

text \<open>Every job the loop visits without an error is left calm.\<close>

lemma settle_jobs_calm:
  assumes "settle_jobs lc now e w ns r = (None, r')" and "n \<in> set ns"
    and "workflow_getJob w n = Some job" and "run_getJob r n = Some j" and "settleable_job j"
    and "run_getJob r' n = Some j'"
  shows "calm_job j'"
  using assms
proof (induction ns arbitrary: r j)
  case (Cons m ns)
  show ?case
  proof (cases "\<exists>jobm jm. workflow_getJob w m = Some jobm \<and> run_getJob r m = Some jm")
    case True
    then obtain jobm jm where m: "workflow_getJob w m = Some jobm" "run_getJob r m = Some jm" by blast
    let ?ej = "settleDefinedJob lc now e jobm r jm"
    let ?r1 = "update_job m (\<lambda>_. snd ?ej) r"
    have ok: "fst ?ej = None" and rest: "settle_jobs lc now e w ns ?r1 = (None, r')"
      using Cons.prems(1) m by (auto simp: Let_def split: option.splits)
    have step: "run_settles r ?r1" using m(2) defined.settle_settles by (rule run_settles_update)
    have nm: "jr_jobName (snd ?ej) = m"
      using defined.settle_name m(2) find_Some_in_set by (fastforce simp: run_getJob_def)
    have last: "run_settles ?r1 r'" using settle_jobs_settles [of ?r1 lc now e w ns] rest by simp
    obtain j1 where j1: "run_getJob ?r1 n = Some j1" "job_settles j j1"
      using run_settles_getJob [OF step Cons.prems(4)] by blast
    have s1: "settleable_job j1"
      using Cons.prems(5) j1(2) job_settles_calm job_settles_open by (auto simp: settleable_job_def)
    show ?thesis
    proof (cases "n = m")
      case True
      have "find (\<lambda>j. jr_jobName j = m) (update_first (\<lambda>j. jr_jobName j = m) (\<lambda>_. snd ?ej) js) = Some (snd ?ej)"
        if "find (\<lambda>j. jr_jobName j = m) js = Some jm" for js
        using that nm by (induction js) (auto split: if_splits)
      then have "j1 = snd ?ej" using j1(1) m(2) True by (simp add: run_getJob_def)
      then have "calm_job j1"
        using settleDefinedJob_closes [of jm lc now e jobm r] ok Cons.prems(4,5) m(2) True job_settles_calm
        by (auto simp: settleable_job_def)
      then show ?thesis
        using run_settles_getJob [OF last j1(1)] Cons.prems(6) job_settles_calm by (metis option.inject)
    next
      case False
      then show ?thesis
        using Cons.IH [OF rest _ Cons.prems(3) j1(1) s1 Cons.prems(6)] Cons.prems(2) by simp
    qed
  next
    case False
    then have "settle_jobs lc now e w ns r = (None, r')" using Cons.prems(1) by (auto split: option.splits)
    moreover have "n \<in> set ns" using False Cons.prems by auto
    ultimately show ?thesis using Cons.IH Cons.prems by blast
  qed
qed simp


interpretation undefined_jobs: job_settler "\<lambda>j. if jr_jobName j \<in> D then j else settleJobFromRecords now e j"
  by unfold_locales (simp add: records.settle_settles)

lemma settleCancelledRun_settles: "run_settles r (settleCancelledRun lc now w e r)"
proof (cases "isCancellable r")
  case True
  let ?e = "or_else CANCELLED_STEP_ERROR e"
  let ?D = "set (case w of None \<Rightarrow> [] | Some w \<Rightarrow> map jb_name (wd_jobs w))"
  let ?r1 = "map_jobs (\<lambda>j. if jr_jobName j \<in> ?D then j else settleJobFromRecords now ?e j) (detachNestedWaits now r)"
  have r1: "run_settles r ?r1"
    unfolding detachNestedWaits_def
    by (rule run_settles_trans [OF detacher.map_settles undefined_jobs.map_settles])
  have mapped: "run_settles r (map_jobs (settleJobFromRecords now ?e) r')" if "run_settles r r'" for r'
    by (rule run_settles_trans [OF that records.map_settles])
  have loop: "run_settles r r2" if "settle_jobs lc now ?e w' ns ?r1 = (x, r2)" for w' ns x r2
    using run_settles_trans [OF r1 settle_jobs_settles [of ?r1 lc now ?e w' ns]] that by simp
  show ?thesis
  proof (cases w)
    case None
    then show ?thesis using True r1 by (simp add: settleCancelledRun_def Let_def)
  next
    case (Some w')
    then show ?thesis
      using True r1 mapped [OF r1] loop mapped [OF loop]
      by (simp add: settleCancelledRun_def Let_def split: sum.splits prod.splits option.splits)
  qed
qed (simp add: settleCancelledRun_def)

lemma sorted_jobs_visited:
  assumes "sort_nodes lc (map job_node (wd_jobs w)) = Inr levels"
  shows "set (concat levels) = jb_name ` set (wd_jobs w)"
proof -
  have "set_mset (mset (concat levels)) = set_mset (mset (node_names (map job_node (wd_jobs w))))"
    using sort_nodes_greedy(2) [OF assms] by (rule arg_cong)
  then show ?thesis by (simp add: job_node_def image_image)
qed

lemma workflow_getJob_ex: "n \<in> jb_name ` set (wd_jobs w) \<Longrightarrow> \<exists>job. workflow_getJob w n = Some job"
  by (auto simp: workflow_getJob_def find_None_iff simp flip: not_None_eq)

text \<open>When the loop over the sorted jobs ends without an error it has closed every job.\<close>

lemma sorted_loop_calm:
  assumes sorted: "sort_nodes lc (map job_node (wd_jobs w)) = Inr levels"
    and loop: "settle_jobs lc now e w (concat levels) r1 = (None, r2)"
    and d: "distinct (map jr_jobName (r_jobs r1))" and ok: "list_all settleable_job (r_jobs r1)"
    and undef: "\<And>j. j \<in> set (r_jobs r1) \<Longrightarrow> jr_jobName j \<notin> jb_name ` set (wd_jobs w) \<Longrightarrow> calm_job j"
  shows "list_all calm_job (r_jobs r2)"
proof -
  have s: "run_settles r1 r2" using settle_jobs_settles [of r1 lc now e w "concat levels"] loop by simp
  then have d2: "distinct (map jr_jobName (r_jobs r2))" using d settles_names by metis
  have "calm_job j2" if j2: "j2 \<in> set (r_jobs r2)" for j2
  proof -
    let ?n = "jr_jobName j2"
    have "?n \<in> set (map jr_jobName (r_jobs r2))" using j2 by simp
    then have "?n \<in> set (map jr_jobName (r_jobs r1))" by (simp only: settles_names [OF s])
    then obtain j where j: "j \<in> set (r_jobs r1)" "jr_jobName j = ?n" by auto
    have at1: "run_getJob r1 ?n = Some j" and at2: "run_getJob r2 ?n = Some j2"
      using j j2 find_distinct_key [OF d j(1)] find_distinct_key [OF d2 j2] by (simp_all add: run_getJob_def)
    have sj: "settleable_job j" using ok j(1) by (simp add: list_all_iff)
    show ?thesis
    proof (cases "?n \<in> jb_name ` set (wd_jobs w)")
      case True
      then obtain job where "workflow_getJob w ?n = Some job" using workflow_getJob_ex by blast
      then show ?thesis
        using settle_jobs_calm [OF loop _ _ at1 sj at2] True sorted_jobs_visited [OF sorted] by blast
    next
      case False
      then show ?thesis
        using undef [OF j(1)] j(2) run_settles_getJob [OF s at1] at2 job_settles_calm by (metis option.inject)
    qed
  qed
  then show ?thesis by (simp add: list_all_iff)
qed

lemma settleCancelledRun_calm:
  assumes c: "isCancellable r" and d: "distinct (map jr_jobName (r_jobs r))"
    and ok: "list_all settleable_job (r_jobs r)"
  shows "list_all calm_job (r_jobs (settleCancelledRun lc now w e r))"
proof -
  let ?e = "or_else CANCELLED_STEP_ERROR e"
  let ?D = "set (case w of None \<Rightarrow> [] | Some w \<Rightarrow> map jb_name (wd_jobs w))"
  let ?r0 = "detachNestedWaits now r"
  let ?r1 = "map_jobs (\<lambda>j. if jr_jobName j \<in> ?D then j else settleJobFromRecords now ?e j) ?r0"
  have r0: "run_settles r ?r0" unfolding detachNestedWaits_def by (rule detacher.map_settles)
  have ok0: "list_all settleable_job (r_jobs ?r0)" by (rule run_settles_settleable [OF r0 ok])
  have s01: "run_settles ?r0 ?r1" by (rule undefined_jobs.map_settles)
  have ok1: "list_all settleable_job (r_jobs ?r1)" by (rule run_settles_settleable [OF s01 ok0])
  have d1: "distinct (map jr_jobName (r_jobs ?r1))"
    using d settles_names [OF r0] settles_names [OF s01] by simp
  have undef: "calm_job j" if "j \<in> set (r_jobs ?r1)" "jr_jobName j \<notin> ?D" for j
    using that ok0 records.settle_calm records.settle_name by (auto simp: list_all_iff split: if_splits)
  have again: "list_all calm_job (r_jobs (map_jobs (settleJobFromRecords now ?e) r'))"
    if "run_settles ?r1 r'" for r'
    by (rule records.map_calm [OF run_settles_settleable [OF that ok1]])
  show ?thesis
  proof (cases w)
    case None
    then show ?thesis using c records.map_calm [OF ok0] by (simp add: settleCancelledRun_def Let_def)
  next
    case (Some w')
    have after: "run_settles ?r1 r2" if "settle_jobs lc now ?e w' ns ?r1 = (x, r2)" for ns x r2
      using settle_jobs_settles [of ?r1 lc now ?e w' ns] that by simp
    have loop: "list_all calm_job (r_jobs r2)"
      if "sort_nodes lc (map job_node (wd_jobs w')) = Inr levels"
        "settle_jobs lc now ?e w' (concat levels) ?r1 = (None, r2)" for levels r2
      using sorted_loop_calm [OF that d1 ok1] undef Some by auto
    show ?thesis
      using c Some again [OF run_settles_refl] again [OF after] loop
      by (simp add: settleCancelledRun_def Let_def split: option.splits sum.splits prod.splits)
  qed
qed

lemma endAsCancelled_simps:
  assumes "isCancellable r"
  shows "r_status (endAsCancelled now reason r) = R_cancelled"
    and "r_jobs (endAsCancelled now reason r) = map (detach_job now) (r_jobs r)"
  using assms by (simp_all add: endAsCancelled_def Let_def detachNestedWaits_def)

lemma run_settles_cancellable: "run_settles r r' \<Longrightarrow> isCancellable r' = isCancellable r"
  by (simp add: run_settles_def isCancellable_def)

lemma cancelAndSettle_jobs:
  assumes "isCancellable r"
  shows "r_status (cancelAndSettle lc now w reason e r) = R_cancelled"
    and "r_jobs (cancelAndSettle lc now w reason e r) =
         map (detach_job now) (r_jobs (settleCancelledRun lc now w e r))"
  using assms endAsCancelled_simps run_settles_cancellable [OF settleCancelledRun_settles]
  by (simp_all add: cancelAndSettle_def)

lemma cancelAndSettle_settles: "list_all2 job_settles (r_jobs r) (r_jobs (cancelAndSettle lc now w reason e r))"
proof (cases "isCancellable r")
  case True
  have "run_settles r (map_jobs (detach_job now) (settleCancelledRun lc now w e r))"
    by (rule run_settles_trans [OF settleCancelledRun_settles detacher.map_settles])
  then show ?thesis using cancelAndSettle_jobs(2) [OF True] by (simp add: run_settles_def)
qed (simp add: cancelAndSettle_def list_all2_refl)



definition cancel_demo_flow :: workflow_def where
  "cancel_demo_flow =
     \<lparr>wd_id = ''f'', wd_name = ''flow'', wd_inputs = None,
      wd_jobs =
        [\<lparr>jb_name = ''deploy'', jb_steps =
            [\<lparr>st_name = ''push'', st_task = Model_method ''m'', st_forEach = None, st_dependsOn = [],
              st_weight = 0, st_allowFailure = False, st_guard = None\<rparr>],
          jb_dependsOn = [(''build'', C_succeeded)], jb_weight = 0, jb_fanOut = None\<rparr>,
         \<lparr>jb_name = ''build'', jb_steps =
            [\<lparr>st_name = ''ask'', st_task = Manual_approval ''ok?'' None, st_forEach = None, st_dependsOn = [],
              st_weight = 0, st_allowFailure = False, st_guard = None\<rparr>,
             \<lparr>st_name = ''make'', st_task = Model_method ''m'', st_forEach = None,
              st_dependsOn = [(''ask'', C_succeeded)],
              st_weight = 0, st_allowFailure = False, st_guard = None\<rparr>],
          jb_dependsOn = [], jb_weight = 0, jb_fanOut = None\<rparr>],
      wd_autoResume = None\<rparr>"

text \<open>A run of it, suspended at the gate.\<close>

definition cancel_demo_run :: workflow_run where
  "cancel_demo_run =
     run_suspend None
       (update_job ''build'' (update_step ''ask'' (waitForApproval None None) \<circ> job_start 2)
         (run_start 1 (Some 7) None (create_run ''r'' cancel_demo_flow None None None None)))"



lemma pending_step_template [simp]: "sr_forEachTemplate (pending_step n t) = t"
  by (simp add: pending_step_def)



section \<open>Cleanup work\<close>

text \<open>
  The context in which the dependencies of a cleanup candidate are evaluated, for a given answer
  about each: one that ran and is cleanup itself counts with its status, every other as failed.
\<close>

definition after_failure ::
  "(string \<Rightarrow> 'a option) \<Rightarrow> (string \<Rightarrow> bool) \<Rightarrow> trigger_context \<Rightarrow> ('a \<Rightarrow> bool) \<Rightarrow> trigger_context" where
  "after_failure find_dep has_run status cleanup ref =
     (case find_dep ref of
        Some d \<Rightarrow> if has_run ref \<and> cleanup d then status ref else Some Failed
      | None \<Rightarrow> Some Failed)"

text \<open>
  The question both \<^verbatim>\<open>isCleanup\<close> functions ask. Along dependencies that decrease a rank it has one
  answer, and fuel above the ranks reaches it.
\<close>

locale cleanup_recursion =
  fixes cleanup :: "nat \<Rightarrow> 'a \<Rightarrow> bool" and suspends :: "'a \<Rightarrow> bool"
    and deps :: "'a \<Rightarrow> (string \<times> trigger_condition) list" and find_dep :: "string \<Rightarrow> 'a option"
    and has_run :: "string \<Rightarrow> bool" and status :: trigger_context
  assumes cleanup_Suc: "cleanup (Suc fuel) c \<longleftrightarrow>
     \<not> suspends c \<and> deps c \<noteq> [] \<and>
     list_all (\<lambda>(dep, k). evaluate k (after_failure find_dep has_run status (cleanup fuel)) dep) (deps c)"
begin

lemma after_failure_cong:
  "(\<And>d. find_dep ref = Some d \<Longrightarrow> f d = g d) \<Longrightarrow>
   after_failure find_dep has_run status f ref = after_failure find_dep has_run status g ref"
  by (simp add: after_failure_def split: option.splits)

lemma cleanup_enough:
  assumes A: "\<And>d x. find_dep d = Some x \<Longrightarrow> x \<in> A"
    and down: "\<And>x y d k. x \<in> A \<Longrightarrow> (d, k) \<in> set (deps x) \<Longrightarrow> find_dep d = Some y \<Longrightarrow> rank y < rank x"
    and bound: "\<And>x. x \<in> A \<Longrightarrow> rank x < N" and x: "x \<in> A" and N: "N \<le> m" "N \<le> n"
  shows "cleanup m x = cleanup n x"
proof (rule fuel_irrelevant [where F = cleanup and rank = rank and A = A])
  fix m n x
  assume x: "x \<in> A" and IH: "\<And>y. y \<in> A \<Longrightarrow> rank y < rank x \<Longrightarrow> cleanup m y = cleanup n y"
  have "evaluate k (after_failure find_dep has_run status (cleanup m)) d =
      evaluate k (after_failure find_dep has_run status (cleanup n)) d" if "(d, k) \<in> set (deps x)" for d k
    by (intro evaluate_cong after_failure_cong IH) (use A down [OF x that] in blast)+
  then show "cleanup (Suc m) x = cleanup (Suc n) x" unfolding cleanup_Suc by (auto simp: list_all_iff)
qed (use x bound [OF x] N in auto)

lemma cleanup_fixpoint:
  assumes A: "\<And>d x. find_dep d = Some x \<Longrightarrow> x \<in> A"
    and down: "\<And>x y d k. x \<in> A \<Longrightarrow> (d, k) \<in> set (deps x) \<Longrightarrow> find_dep d = Some y \<Longrightarrow> rank y < rank x"
    and bound: "\<And>x. x \<in> A \<Longrightarrow> rank x < N"
  shows "cleanup (Suc N) c \<longleftrightarrow>
     \<not> suspends c \<and> deps c \<noteq> [] \<and>
     list_all (\<lambda>(dep, k). evaluate k (after_failure find_dep has_run status (cleanup (Suc N))) dep) (deps c)"
proof -
  have "cleanup N d = cleanup (Suc N) d" if "d \<in> A" for d
    by (rule cleanup_enough [OF A down bound that]) simp_all
  then have "evaluate k (after_failure find_dep has_run status (cleanup N)) d =
      evaluate k (after_failure find_dep has_run status (cleanup (Suc N))) d" for d k
    using A by (intro evaluate_cong after_failure_cong) blast
  then show ?thesis by (subst cleanup_Suc) (simp only:)
qed

end

definition step_ran :: "job_run \<Rightarrow> string \<Rightarrow> bool" where
  "step_ran j ref \<longleftrightarrow> job_getStatus j ref = Some Succeeded \<or> job_getStatus j ref = Some Skipped \<and> skippedByGuard j ref"

interpretation step_cleanup: cleanup_recursion "\<lambda>fuel. step_isCleanup fuel job j" suspendsRun st_dependsOn
  "job_getStep job" "step_ran j" "job_getStatus j"
proof
  fix fuel c
  have "evaluate k (\<lambda>ref. case job_getStep job ref of
             None \<Rightarrow> Some Failed
           | Some dependency \<Rightarrow>
               let status = job_getStatus j ref;
                   ran = (status = Some Succeeded \<or> status = Some Skipped \<and> skippedByGuard j ref) in
               if ran \<and> step_isCleanup fuel job j dependency then status else Some Failed) dep =
      evaluate k (after_failure (job_getStep job) (step_ran j) (job_getStatus j) (step_isCleanup fuel job j)) dep"
    for k dep
    by (rule evaluate_cong) (simp add: after_failure_def step_ran_def Let_def split: option.splits)
  then show "step_isCleanup (Suc fuel) job j c \<longleftrightarrow> \<not> suspendsRun c \<and> st_dependsOn c \<noteq> [] \<and>
      list_all (\<lambda>(dep, k). evaluate k (after_failure (job_getStep job) (step_ran j) (job_getStatus j)
        (step_isCleanup fuel job j)) dep) (st_dependsOn c)"
    by simp
qed

interpretation job_cleanup: cleanup_recursion "\<lambda>fuel. job_isCleanup fuel w run"
  "\<lambda>c. list_ex suspendsRun (jb_steps c)" jb_dependsOn
  "workflow_getJob w" "\<lambda>ref. run_getStatus run ref = Some Succeeded" "run_getStatus run"
proof
  fix fuel c
  have "evaluate k (\<lambda>ref. case workflow_getJob w ref of
             None \<Rightarrow> Some Failed
           | Some dependency \<Rightarrow>
               if run_getStatus run ref = Some Succeeded \<and> job_isCleanup fuel w run dependency
               then run_getStatus run ref else Some Failed) dep =
      evaluate k (after_failure (workflow_getJob w) (\<lambda>ref. run_getStatus run ref = Some Succeeded)
        (run_getStatus run) (job_isCleanup fuel w run)) dep"
    for k dep
    by (rule evaluate_cong) (simp add: after_failure_def split: option.splits)
  then show "job_isCleanup (Suc fuel) w run c \<longleftrightarrow> \<not> list_ex suspendsRun (jb_steps c) \<and> jb_dependsOn c \<noteq> [] \<and>
      list_all (\<lambda>(dep, k). evaluate k (after_failure (workflow_getJob w)
        (\<lambda>ref. run_getStatus run ref = Some Succeeded) (run_getStatus run) (job_isCleanup fuel w run)) dep) (jb_dependsOn c)"
    by simp
qed



end
