(* ===== verification/Expression_Scan.thy ===== *)
theory Expression_Scan
  imports Js_Text
begin

text \<open>
  \<^verbatim>\<open>src/src/domain/expressions/cel_string_lexer.ts\<close> and \<^verbatim>\<open>expression_scanner.ts\<close>: where the expressions
  \<^verbatim>\<open>${{ ... }}\<close> of a text begin and end, and which parts of an expression are string literals and
  comments.

  Whether a text is an expression of CEL is asked of a third-party parser (\<^verbatim>\<open>parsesAsCel\<close>): it is the
  argument \<open>parsesAsCel\<close>. The scan counts its work as \<^verbatim>\<open>ScanWork\<close> does when it is given one.
\<close>

section \<open>Texts\<close>

definition char_at :: "string \<Rightarrow> nat \<Rightarrow> char option" where
  "char_at s i = (if i < length s then Some (s ! i) else None)"

definition js_startsWith :: "string \<Rightarrow> string \<Rightarrow> bool" where
  "js_startsWith s p \<longleftrightarrow> take (length p) s = p"

definition js_indexOf :: "string \<Rightarrow> string \<Rightarrow> nat \<Rightarrow> nat option" where
  "js_indexOf s p from = find (\<lambda>i. js_startsWith (drop i s) p) [from..<length s + 1]"

definition js_slice :: "string \<Rightarrow> nat \<Rightarrow> nat \<Rightarrow> string" where
  "js_slice s a b = take (b - a) (drop a s)"

lemma find_append_Some: "find p xs = Some x \<Longrightarrow> find p (xs @ ys) = Some x"
  by (induction xs) (auto split: if_splits)

lemma find_upt_Some:
  "find P [a..<b] = Some i \<longleftrightarrow> a \<le> i \<and> i < b \<and> P i \<and> (\<forall>j. a \<le> j \<longrightarrow> j < i \<longrightarrow> \<not> P j)"
proof (induction b)
  case (Suc b)
  have "find P [a..<b] = None \<longleftrightarrow> (\<forall>j. a \<le> j \<longrightarrow> j < b \<longrightarrow> \<not> P j)" by (auto simp: find_None_iff)
  with Suc show ?case
    by (cases "find P [a..<b]") (auto simp: find_append_None find_append_Some less_Suc_eq)
qed simp

lemma js_indexOf_Some:
  "js_indexOf s p from = Some i \<longleftrightarrow>
     from \<le> i \<and> i \<le> length s \<and> js_startsWith (drop i s) p \<and> (\<forall>j. from \<le> j \<longrightarrow> j < i \<longrightarrow> \<not> js_startsWith (drop j s) p)"
  unfolding js_indexOf_def find_upt_Some by auto

lemma js_indexOf_None:
  "js_indexOf s p from = None \<longleftrightarrow> (\<forall>i. from \<le> i \<longrightarrow> i \<le> length s \<longrightarrow> \<not> js_startsWith (drop i s) p)"
  by (auto simp: js_indexOf_def find_None_iff)

lemma js_startsWith_length: "js_startsWith (drop i s) p \<Longrightarrow> i \<le> length s \<Longrightarrow> i + length p \<le> length s"
  by (auto simp: js_startsWith_def dest: arg_cong [where f = length])

section \<open>The lexer\<close>

datatype lex_state = Lex_code | Lex_single | Lex_double | Lex_triple_single | Lex_triple_double | Lex_comment

definition LEX_STATE_COUNT :: nat where
  "LEX_STATE_COUNT = 6"

primrec lex_number :: "lex_state \<Rightarrow> nat" where
  "lex_number Lex_code = 0"
| "lex_number Lex_single = 1"
| "lex_number Lex_double = 2"
| "lex_number Lex_triple_single = 3"
| "lex_number Lex_triple_double = 4"
| "lex_number Lex_comment = 5"

definition quote_of :: "lex_state \<Rightarrow> char" where
  "quote_of state = (if state = Lex_single \<or> state = Lex_triple_single then CHR 0x27 else CHR 0x22)"

text \<open>A step from a position: \<open>None\<close> is \<^verbatim>\<open>LEX_ERROR\<close>.\<close>

definition lexStep :: "string \<Rightarrow> nat \<Rightarrow> lex_state \<Rightarrow> nat option \<times> lex_state" where
  "lexStep text pos state =
     (let ch = char_at text pos; n1 = char_at text (pos + 1); n2 = char_at text (pos + 2) in
      case state of
        Lex_code \<Rightarrow>
          if ch = Some (CHR 0x27) \<or> ch = Some (CHR 0x22)
          then (if n1 = ch \<and> n2 = ch
                then (Some (pos + 3), if ch = Some (CHR 0x27) then Lex_triple_single else Lex_triple_double)
                else (Some (pos + 1), if ch = Some (CHR 0x27) then Lex_single else Lex_double))
          else if ch = Some (CHR ''/'') \<and> n1 = Some (CHR ''/'') then (Some (pos + 2), Lex_comment)
          else (Some (pos + 1), Lex_code)
      | Lex_comment \<Rightarrow> (Some (pos + 1), if ch = Some (CHR 0x0A) then Lex_code else Lex_comment)
      | _ \<Rightarrow>
          if ch = Some (CHR 0x5C) then ((if pos + 2 \<le> length text then Some (pos + 2) else None), state)
          else if state = Lex_single \<or> state = Lex_double
          then (if ch = Some (quote_of state) then (Some (pos + 1), Lex_code)
                else if ch = Some (CHR 0x0A) \<or> ch = Some (CHR 0x0D) then (None, state)
                else (Some (pos + 1), state))
          else if ch = Some (quote_of state) \<and> n1 = ch \<and> n2 = ch then (Some (pos + 3), Lex_code)
          else (Some (pos + 1), state))"

lemma lexStep_bounds:
  "lexStep text pos state = (Some p, state') \<Longrightarrow> pos < p \<and> p \<le> pos + 3"
  by (cases state) (auto simp: lexStep_def Let_def split: if_splits)

datatype segment_kind = Code_segment | String_segment | Comment_segment

record lex_segment =
  ls_kind :: segment_kind
  ls_start :: nat
  ls_end :: nat

definition kindOf :: "lex_state \<Rightarrow> segment_kind" where
  "kindOf s = (if s = Lex_code then Code_segment else if s = Lex_comment then Comment_segment else String_segment)"

definition push_segment :: "lex_state \<Rightarrow> nat \<Rightarrow> nat \<Rightarrow> lex_segment list" where
  "push_segment state segmentStart boundary =
     (if segmentStart < boundary then [\<lparr>ls_kind = kindOf state, ls_start = segmentStart, ls_end = boundary\<rparr>] else [])"

text \<open>The loop of \<^verbatim>\<open>lexSegments\<close> and the segment it ends with.\<close>

function segments_from :: "string \<Rightarrow> nat \<Rightarrow> lex_state \<Rightarrow> nat \<Rightarrow> lex_segment list" where
  "segments_from text pos state segmentStart =
     (if length text \<le> pos then push_segment state segmentStart (length text)
      else case lexStep text pos state of
             (None, _) \<Rightarrow> push_segment state segmentStart (length text)
           | (Some next, nextState) \<Rightarrow>
               if nextState \<noteq> state
               then let boundary = (if state = Lex_code then pos else next) in
                    push_segment state segmentStart boundary @ segments_from text next nextState boundary
               else segments_from text next nextState segmentStart)"
  by pat_completeness auto
termination
  by (relation "measure (\<lambda>(text, pos, _). length text - pos)") (auto dest: lexStep_bounds [OF sym])

declare segments_from.simps [simp del]

definition lexSegments :: "string \<Rightarrow> lex_segment list" where
  "lexSegments text = segments_from text 0 Lex_code 0"

section \<open>Rewriting an expression for a scan of its identifiers\<close>

definition skip_space :: "string \<Rightarrow> string" where
  "skip_space s = strip_leading js_spaces s"

definition skip_space_end :: "string \<Rightarrow> string" where
  "skip_space_end s = rev (strip_leading (map rev js_spaces) (rev s))"

lemma length_skip_space: "length (skip_space s) \<le> length s"
  by (simp add: skip_space_def length_strip_leading)

lemma skip_space_less: "leading_space js_spaces (c # cs) \<noteq> 0 \<Longrightarrow> length (skip_space (c # cs)) \<le> length cs"
  using length_strip_leading [of js_spaces "drop (leading_space js_spaces (c # cs)) (c # cs)"]
  by (simp add: skip_space_def strip_leading.simps [of js_spaces "c # cs"])

definition after_dot :: "string \<Rightarrow> string" where
  "after_dot cs = (case skip_space cs of c # ds \<Rightarrow> if c = CHR ''?'' then skip_space ds else c # ds | [] \<Rightarrow> [])"

lemma length_after_dot: "length (after_dot cs) \<le> length cs"
proof (cases "skip_space cs")
  case (Cons c ds)
  then show ?thesis
    using length_skip_space [of cs] length_skip_space [of ds] by (auto simp: after_dot_def)
qed (simp add: after_dot_def)

function normaliseMemberAccess :: "string \<Rightarrow> string" where
  "normaliseMemberAccess [] = []"
| "normaliseMemberAccess (c # cs) =
     (if leading_space js_spaces (c # cs) \<noteq> 0
      then let rest = skip_space (c # cs) in
           (if rest \<noteq> [] \<and> hd rest = CHR ''.'' then [] else take (length (c # cs) - length rest) (c # cs)) @
           normaliseMemberAccess rest
      else if c = CHR ''.'' then c # normaliseMemberAccess (after_dot cs)
      else c # normaliseMemberAccess cs)"
  by pat_completeness auto
termination
  by (relation "measure length") (auto simp: less_Suc_eq_le length_after_dot skip_space_less)

definition stripStringLiterals :: "string \<Rightarrow> string" where
  "stripStringLiterals celExpression =
     concat (map (\<lambda>seg.
       let t = js_slice celExpression (ls_start seg) (ls_end seg) in
       case ls_kind seg of
         String_segment \<Rightarrow> [CHR 0x22, CHR 0x22]
       | Code_segment \<Rightarrow> normaliseMemberAccess t
       | Comment_segment \<Rightarrow> t) (lexSegments celExpression))"

definition identifier_char :: "char \<Rightarrow> bool" where
  "identifier_char c \<longleftrightarrow> is_lower c \<or> is_upper c \<or> is_digit c \<or> c = CHR ''_''"

definition opensCallAtSegmentEnd :: "string \<Rightarrow> nat \<Rightarrow> nat \<Rightarrow> bool" where
  "opensCallAtSegmentEnd t from until =
     (case skip_space (js_slice t from until) of
        [] \<Rightarrow> False
      | c # cs \<Rightarrow>
          c = CHR ''('' \<and>
          (case skip_space cs of
             [] \<Rightarrow> True
           | d # ds \<Rightarrow> (d = CHR ''r'' \<or> d = CHR ''R'') \<and> ds = []))"

definition closesCall :: "string \<Rightarrow> nat \<Rightarrow> nat \<Rightarrow> bool" where
  "closesCall t from until = (case skip_space (js_slice t from until) of [] \<Rightarrow> False | c # _ \<Rightarrow> c = CHR '')'')"

definition isBareCallee :: "string \<Rightarrow> nat \<Rightarrow> nat \<Rightarrow> bool" where
  "isBareCallee t n segmentStart =
     (if (case char_at t (n + 7) of Some c \<Rightarrow> identifier_char c | None \<Rightarrow> False) then False
      else if take n t \<noteq> [] \<and> identifier_char (last (take n t)) then False
      else let before = take segmentStart t @ skip_space_end (js_slice t segmentStart n) in
        \<not> (before \<noteq> [] \<and> last before = CHR ''.''))"

text \<open>Where \<^verbatim>\<open>literal\<close> stands in the code of a segment, each search after the last.\<close>

function literals_from :: "string \<Rightarrow> nat \<Rightarrow> nat list" where
  "literals_from code from =
     (case js_indexOf code ''literal'' from of
        None \<Rightarrow> []
      | Some n \<Rightarrow> n # literals_from code (n + 7))"
  by pat_completeness auto
termination
proof (relation "measure (\<lambda>(code, from). Suc (length code) - from)", simp)
  fix code :: string and "from" n
  assume "js_indexOf code ''literal'' from = Some n"
  then show "((code, n + 7), (code, from)) \<in> measure (\<lambda>(code, from). Suc (length code) - from)"
    by (auto simp: js_indexOf_Some)
qed

declare literals_from.simps [simp del]

text \<open>The masks of a segment, given the segments after it.\<close>

definition masks_of :: "string \<Rightarrow> lex_segment \<Rightarrow> lex_segment list \<Rightarrow> (nat \<times> nat) list" where
  "masks_of t seg rest =
     (if ls_kind seg \<noteq> Code_segment then []
      else concat (map (\<lambda>n.
        let abs = ls_start seg + n in
        case rest of
          str # after # _ \<Rightarrow>
            if isBareCallee t abs (ls_start seg) \<and> opensCallAtSegmentEnd t (abs + 7) (ls_end seg) \<and>
               ls_kind str = String_segment \<and> ls_kind after = Code_segment \<and> closesCall t (ls_start after) (ls_end after)
            then [(ls_start str, ls_end str)] else []
        | _ \<Rightarrow> []) (literals_from (js_slice t (ls_start seg) (ls_end seg)) 0)))"

fun all_masks :: "string \<Rightarrow> lex_segment list \<Rightarrow> (nat \<times> nat) list" where
  "all_masks t [] = []"
| "all_masks t (seg # rest) = masks_of t seg rest @ all_masks t rest"

fun mask_from :: "string \<Rightarrow> nat \<Rightarrow> (nat \<times> nat) list \<Rightarrow> string" where
  "mask_from t last_end [] = drop last_end t"
| "mask_from t last_end ((a, b) # masks) = js_slice t last_end a @ [CHR 0x22, CHR 0x22] @ mask_from t b masks"

definition maskLiteralCalls :: "string \<Rightarrow> string" where
  "maskLiteralCalls celExpression =
     (if js_indexOf celExpression ''literal'' 0 = None then celExpression
      else let masks = all_masks celExpression (lexSegments celExpression) in
        if masks = [] then celExpression else mask_from celExpression 0 masks)"

section \<open>The scanner\<close>

record expression_span =
  ex_start :: nat
  ex_end :: nat
  ex_raw :: string
  ex_inner :: string

record scan_work =
  sw_lexSteps :: nat
  sw_parsedChars :: nat

definition OPENER :: string where "OPENER = ''${{''"

definition CLOSER :: string where "CLOSER = ''}}''"

lemma length_braces [simp]: "length OPENER = 3" "length CLOSER = 2"
  by (simp_all add: OPENER_def CLOSER_def)

text \<open>What a walk to the closing braces finds: where they are, the keys it visited and its steps.\<close>

datatype walk_result = Walked (wk_close: "nat option") (wk_visited: "nat list") (wk_steps: nat)

definition walk_key :: "nat \<Rightarrow> lex_state \<Rightarrow> nat" where
  "walk_key pos state = pos * LEX_STATE_COUNT + lex_number state"

definition closes_at :: "string \<Rightarrow> nat \<Rightarrow> nat \<Rightarrow> lex_state \<Rightarrow> bool" where
  "closes_at v opened pos state \<longleftrightarrow>
     (state = Lex_code \<or> state = Lex_comment) \<and> opened < pos \<and> js_startsWith (drop pos v) CLOSER"

primrec visit :: "nat \<Rightarrow> walk_result \<Rightarrow> walk_result" where
  "visit key (Walked close visited steps) = Walked close (key # visited) (steps + 1)"

lemma visit_simps [simp]:
  "wk_close (visit key rest) = wk_close rest" "wk_visited (visit key rest) = key # wk_visited rest"
  "wk_steps (visit key rest) = wk_steps rest + 1"
  by (cases rest; simp)+

function walk_from :: "string \<Rightarrow> nat \<Rightarrow> nat set \<Rightarrow> nat \<Rightarrow> lex_state \<Rightarrow> walk_result" where
  "walk_from v opened rejected pos state =
     (if length v \<le> pos \<or> walk_key pos state \<in> rejected then Walked None [] 0
      else if closes_at v opened pos state then (Walked (Some pos) [walk_key pos state] 0)
      else case lexStep v pos state of
             (None, _) \<Rightarrow> (Walked None [walk_key pos state] 1)
           | (Some next, nextState) \<Rightarrow>
               visit (walk_key pos state) (walk_from v opened rejected next nextState))"
  by pat_completeness auto
termination
  by (relation "measure (\<lambda>(v, _, _, pos, _). length v - pos)") (auto dest: lexStep_bounds [OF sym])

declare walk_from.simps [simp del]

definition walkToClose :: "string \<Rightarrow> nat \<Rightarrow> nat set \<Rightarrow> walk_result" where
  "walkToClose v opened rejected = walk_from v opened rejected opened Lex_code"

record scan_state =
  sn_from :: nat
  sn_rejected :: "nat set"
  sn_work :: scan_work

definition count_work :: "nat \<Rightarrow> string list \<Rightarrow> scan_work \<Rightarrow> scan_work" where
  "count_work steps parsed work =
     \<lparr>sw_lexSteps = sw_lexSteps work + steps, sw_parsedChars = sw_parsedChars work + sum_list (map length parsed)\<rparr>"

text \<open>
  \<^verbatim>\<open>chooseClose\<close>: the closing position, the keys rejected so far and the work done. The texts parsed are
  those the calls of \<^verbatim>\<open>parses\<close> see.
\<close>

definition chooseClose ::
  "(string \<Rightarrow> bool) \<Rightarrow> string \<Rightarrow> nat \<Rightarrow> nat \<Rightarrow> nat set \<Rightarrow> scan_work \<Rightarrow> nat \<times> nat set \<times> scan_work" where
  "chooseClose parsesAsCel v opened legacy rejected work =
     (let walked = walkToClose v opened rejected;
          reject = rejected \<union> set (wk_visited walked);
          cel = (\<lambda>close. js_trim (js_slice v opened close)) in
      case wk_close walked of
        None \<Rightarrow> (legacy, reject, count_work (wk_steps walked) [] work)
      | Some close \<Rightarrow>
          if close = legacy then (legacy, rejected, count_work (wk_steps walked) [] work)
          else if parsesAsCel (cel legacy) then (legacy, reject, count_work (wk_steps walked) [cel legacy] work)
          else if parsesAsCel (cel close) then (close, rejected, count_work (wk_steps walked) [cel legacy, cel close] work)
          else (legacy, reject, count_work (wk_steps walked) [cel legacy, cel close] work))"

definition span_at :: "string \<Rightarrow> nat \<Rightarrow> nat \<Rightarrow> expression_span" where
  "span_at v start close =
     \<lparr>ex_start = start, ex_end = close + 2, ex_raw = js_slice v start (close + 2),
      ex_inner = js_trim (js_slice v (start + 3) close)\<rparr>"

text \<open>The next expression: where it starts, and the first closing braces after it.\<close>

definition next_opener :: "string \<Rightarrow> nat \<Rightarrow> (nat \<times> nat) option" where
  "next_opener v from =
     (case js_indexOf v OPENER from of
        None \<Rightarrow> None
      | Some start \<Rightarrow> map_option (\<lambda>legacy. (start, legacy)) (js_indexOf v CLOSER (start + 3 + 1)))"

lemma walk_close_after:
  "wk_close (walk_from v opened rejected pos state) = Some close \<Longrightarrow> opened < close"
proof (induction v opened rejected pos state rule: walk_from.induct)
  case (1 v opened rejected pos state)
  then show ?case
    by (subst (asm) walk_from.simps)
      (auto simp: closes_at_def Let_def split: if_splits prod.splits option.splits)
qed

lemma chooseClose_after:
  assumes "opened < legacy"
  shows "opened < fst (chooseClose parsesAsCel v opened legacy rejected work)"
  using assms walk_close_after [of v opened rejected opened Lex_code]
  by (auto simp: chooseClose_def walkToClose_def Let_def split: option.splits)

lemma next_opener_bounds:
  assumes "next_opener v from = Some (start, legacy)"
  shows "from \<le> start" and "start + 3 < legacy" and "legacy + 2 \<le> length v"
proof -
  from assms have s: "js_indexOf v OPENER from = Some start" and l: "js_indexOf v CLOSER (start + 3 + 1) = Some legacy"
    by (auto simp: next_opener_def split: option.splits)
  from s l show "from \<le> start" "start + 3 < legacy" by (auto simp: js_indexOf_Some)
  from l have "js_startsWith (drop legacy v) CLOSER" "legacy \<le> length v" by (auto simp: js_indexOf_Some)
  from js_startsWith_length [OF this] show "legacy + 2 \<le> length v" by (simp add: CLOSER_def)
qed

lemma scan_progress:
  assumes "next_opener v from = Some (start, legacy)"
    and "(close, rejected', work') = chooseClose parsesAsCel v (start + 3) legacy rejected work"
  shows "length v - Suc (Suc close) < length v - from"
proof -
  note b = next_opener_bounds [OF assms(1)]
  from chooseClose_after [OF b(2), of parsesAsCel v rejected work] have "start + 3 < close"
    unfolding assms(2) [symmetric] by simp
  with b show ?thesis by simp
qed

section \<open>The scan\<close>

text \<open>The loop of \<^verbatim>\<open>scanExpressions\<close> from a position on.\<close>

function scan_loop ::
  "(string \<Rightarrow> bool) \<Rightarrow> string \<Rightarrow> nat \<Rightarrow> nat set \<Rightarrow> scan_work \<Rightarrow> expression_span list \<times> scan_work" where
  "scan_loop parsesAsCel v from rejected work =
     (case next_opener v from of
        None \<Rightarrow> ([], work)
      | Some (start, legacy) \<Rightarrow>
          case chooseClose parsesAsCel v (start + 3) legacy rejected work of
            (close, rejected', work') \<Rightarrow>
              case scan_loop parsesAsCel v (close + 2) rejected' work' of
                (spans, done) \<Rightarrow> (span_at v start close # spans, done))"
  by pat_completeness auto
termination
  by (relation "measure (\<lambda>(_, v, from, _). length v - from)") (auto intro: scan_progress)

declare scan_loop.simps [simp del]

definition scan_counted :: "(string \<Rightarrow> bool) \<Rightarrow> string \<Rightarrow> expression_span list \<times> scan_work" where
  "scan_counted parsesAsCel v =
     (let none = \<lparr>sw_lexSteps = 0, sw_parsedChars = 0\<rparr> in
      if js_indexOf v OPENER 0 = None then ([], none) else scan_loop parsesAsCel v 0 {} none)"

definition scanExpressions :: "(string \<Rightarrow> bool) \<Rightarrow> string \<Rightarrow> expression_span list" where
  "scanExpressions parsesAsCel v = fst (scan_counted parsesAsCel v)"

definition matchSingleExpression :: "(string \<Rightarrow> bool) \<Rightarrow> string \<Rightarrow> bool \<Rightarrow> expression_span option" where
  "matchSingleExpression parsesAsCel v exact =
     (if \<not> js_startsWith v OPENER then None
      else case scanExpressions parsesAsCel v of
             [] \<Rightarrow> None
           | sp # _ \<Rightarrow>
               if ex_start sp \<noteq> 0 then None
               else let rest = drop (ex_end sp) v in
                 if (if exact then rest \<noteq> [] else js_trim rest \<noteq> []) then None else Some sp)"

text \<open>The text between the expressions, from a position on.\<close>

fun texts_between :: "string \<Rightarrow> nat \<Rightarrow> expression_span list \<Rightarrow> string list" where
  "texts_between v last_end [] = [drop last_end v]"
| "texts_between v last_end (sp # spans) =
     js_slice v last_end (ex_start sp) # texts_between v (ex_end sp) spans"

definition isExpressionsOnly :: "(string \<Rightarrow> bool) \<Rightarrow> string \<Rightarrow> bool" where
  "isExpressionsOnly parsesAsCel v =
     (let spans = scanExpressions parsesAsCel v in
      if spans = [] then False else list_all (\<lambda>t. js_trim t = []) (texts_between v 0 spans))"

fun replace_from :: "(expression_span \<Rightarrow> string) \<Rightarrow> string \<Rightarrow> nat \<Rightarrow> expression_span list \<Rightarrow> string" where
  "replace_from replace v last_end [] = drop last_end v"
| "replace_from replace v last_end (sp # spans) =
     js_slice v last_end (ex_start sp) @ replace sp @ replace_from replace v (ex_end sp) spans"

definition replaceExpressionSpans :: "(string \<Rightarrow> bool) \<Rightarrow> string \<Rightarrow> (expression_span \<Rightarrow> string) \<Rightarrow> string" where
  "replaceExpressionSpans parsesAsCel v replace =
     (let spans = scanExpressions parsesAsCel v in
      if spans = [] then v else replace_from replace v 0 spans)"

section \<open>The work of a scan\<close>

lemma walk_key_bounds: "6 * pos \<le> walk_key pos state" "walk_key pos state < 6 * (pos + 1)"
  by (cases state; simp add: walk_key_def LEX_STATE_COUNT_def)+

lemma walk_from_induct [case_names stop close error step]:
  assumes "\<And>pos state. length v \<le> pos \<or> walk_key pos state \<in> rejected \<Longrightarrow> P pos state (Walked None [] 0)"
    and "\<And>pos state. pos < length v \<Longrightarrow> walk_key pos state \<notin> rejected \<Longrightarrow> closes_at v opened pos state \<Longrightarrow>
           P pos state (Walked (Some pos) [walk_key pos state] 0)"
    and "\<And>pos state. pos < length v \<Longrightarrow> walk_key pos state \<notin> rejected \<Longrightarrow> \<not> closes_at v opened pos state \<Longrightarrow>
           P pos state (Walked None [walk_key pos state] 1)"
    and "\<And>pos state n next_state rest. pos < length v \<Longrightarrow> walk_key pos state \<notin> rejected \<Longrightarrow> \<not> closes_at v opened pos state \<Longrightarrow>
           lexStep v pos state = (Some n, next_state) \<Longrightarrow> rest = walk_from v opened rejected n next_state \<Longrightarrow>
           P n next_state rest \<Longrightarrow>
           P pos state (visit (walk_key pos state) rest)"
  shows "P pos state (walk_from v opened rejected pos state)"
proof (induction "length v - pos" arbitrary: pos state rule: less_induct)
  case less
  show ?case
  proof (cases "length v \<le> pos \<or> walk_key pos state \<in> rejected \<or> closes_at v opened pos state")
    case True
    then show ?thesis using assms(1,2) by (subst walk_from.simps) auto
  next
    case False
    obtain n next_state where l: "lexStep v pos state = (n, next_state)" by force
    show ?thesis
    proof (cases n)
      case None
      then show ?thesis using False l assms(3) by (subst walk_from.simps) auto
    next
      case (Some p)
      with l lexStep_bounds have "pos < p" by metis
      with False less have "P p next_state (walk_from v opened rejected p next_state)" by auto
      then show ?thesis
        using False l Some assms(4) by (subst walk_from.simps) (auto simp: Let_def)
    qed
  qed
qed

text \<open>A walk visits each key once, none rejected before, and takes at most one step for each.\<close>

definition walk_ok :: "string \<Rightarrow> nat set \<Rightarrow> nat \<Rightarrow> walk_result \<Rightarrow> bool" where
  "walk_ok v rejected pos w \<longleftrightarrow>
     distinct (wk_visited w) \<and> wk_steps w \<le> length (wk_visited w) \<and>
     (\<forall>k\<in>set (wk_visited w). 6 * pos \<le> k \<and> k < 6 * length v \<and> k \<notin> rejected) \<and>
     (case wk_close w of
        None \<Rightarrow> True
      | Some c \<Rightarrow> pos \<le> c \<and> c + 2 \<le> length v \<and> c \<le> pos + 3 * wk_steps w \<and> js_startsWith (drop c v) CLOSER \<and>
                  (\<forall>k\<in>set (wk_visited w). k < 6 * (c + 1)))"

lemma walk_from_ok: "walk_ok v rejected pos (walk_from v opened rejected pos state)"
proof (induction rule: walk_from_induct [where P = "\<lambda>pos state w. walk_ok v rejected pos w"])
  case (close pos state)
  then have "js_startsWith (drop pos v) CLOSER" by (simp add: closes_at_def)
  with js_startsWith_length [OF this] close walk_key_bounds [of pos state] show ?case
    by (auto simp: walk_ok_def CLOSER_def)
next
  case (step pos state n next_state rest)
  note key = walk_key_bounds [of pos state]
  from lexStep_bounds [OF step(4)] have n: "pos < n" "n \<le> pos + 3" by auto
  have later: "walk_key pos state < k" if "k \<in> set (wk_visited rest)" for k
    using step(6) that key n by (fastforce simp: walk_ok_def)
  have "6 * pos \<le> k \<and> k < 6 * length v \<and> k \<notin> rejected" if "k \<in> set (wk_visited rest)" for k
    using step(6) that n by (fastforce simp: walk_ok_def)
  moreover have "walk_key pos state < 6 * length v" using key(2) step(1) by simp
  moreover have "walk_key pos state \<notin> set (wk_visited rest)" using later by blast
  moreover have "case wk_close rest of
        None \<Rightarrow> True
      | Some c \<Rightarrow> pos \<le> c \<and> c + 2 \<le> length v \<and> c \<le> pos + 3 * (wk_steps rest + 1) \<and> js_startsWith (drop c v) CLOSER \<and>
          walk_key pos state < 6 * (c + 1) \<and> (\<forall>k\<in>set (wk_visited rest). k < 6 * (c + 1))"
    using step(6) n key by (auto simp: walk_ok_def split: option.splits)
  ultimately show ?case using step(2,6) key by (auto simp: walk_ok_def split: option.splits)
next
  case (error pos state)
  with walk_key_bounds [of pos state] show ?case by (auto simp: walk_ok_def)
qed (simp add: walk_ok_def)

lemma length_js_trim: "length (js_trim s) \<le> length s"
  using length_strip_leading [of "map rev js_spaces" "rev (strip_leading js_spaces s)"] length_strip_leading [of js_spaces s]
  by (simp add: js_trim_def)

lemma length_trim_slice: "length (js_trim (js_slice v a b)) \<le> b - a"
  using length_js_trim [of "js_slice v a b"] by (simp add: js_slice_def)

text \<open>What was spent when the scan stands at a position: a step for each key passed or rejected.\<close>

definition spent :: "string \<Rightarrow> nat \<Rightarrow> nat set \<Rightarrow> scan_work \<Rightarrow> bool" where
  "spent v from rejected work \<longleftrightarrow>
     from \<le> length v \<and> rejected \<subseteq> {..<6 * length v} \<and> sw_lexSteps work \<le> card ({..<6 * from} \<union> rejected) \<and>
     sw_parsedChars work \<le> 6 * sw_lexSteps work"

lemma spent_walk:
  assumes "spent v from rejected work" and "walk_ok v rejected opened w" and "from \<le> opened"
    and "close + 2 \<le> length v" and "from \<le> close + 2"
    and "rejected' = rejected \<union> set (wk_visited w) \<or> rejected' = rejected \<and> wk_close w = Some close"
    and parsed: "sum_list (map length parsed) \<le> 6 * wk_steps w"
  shows "spent v (close + 2) rejected' (count_work (wk_steps w) parsed work)"
proof -
  let ?A = "{..<6 * from} \<union> rejected"
  have fin: "finite rejected" using assms(1) by (auto simp: spent_def intro: finite_subset)
  have sub: "rejected' \<subseteq> {..<6 * length v}"
    using assms(1,2,6) by (auto simp: spent_def walk_ok_def)
  have "?A \<inter> set (wk_visited w) = {}" using assms(2,3) by (fastforce simp: walk_ok_def)
  then have "card ?A + length (wk_visited w) = card (?A \<union> set (wk_visited w))"
    using fin assms(2) by (subst card_Un_disjoint) (auto simp: walk_ok_def distinct_card)
  also have "\<dots> \<le> card ({..<6 * (close + 2)} \<union> rejected')"
  proof (rule card_mono)
    show "finite ({..<6 * (close + 2)} \<union> rejected')" using sub by (auto intro: finite_subset)
    show "?A \<union> set (wk_visited w) \<subseteq> {..<6 * (close + 2)} \<union> rejected'"
      using assms(2,5,6) by (fastforce simp: walk_ok_def)
  qed
  finally show ?thesis
    using assms(1,2,4) sub parsed by (auto simp: spent_def count_work_def walk_ok_def)
qed

lemma chooseClose_spends:
  assumes "spent v from rejected work" and opener: "next_opener v from = Some (start, legacy)"
    and choice: "chooseClose parsesAsCel v (start + 3) legacy rejected work = (close, rejected', work')"
  shows "spent v (close + 2) rejected' work'"
proof -
  let ?w = "walkToClose v (start + 3) rejected"
  have ok: "walk_ok v rejected (start + 3) ?w" unfolding walkToClose_def by (rule walk_from_ok)
  note b = next_opener_bounds [OF opener]
  have first: "legacy \<le> c" if "wk_close ?w = Some c" for c
  proof -
    have "start + 3 < c" using walk_close_after that unfolding walkToClose_def by blast
    moreover have "js_startsWith (drop c v) CLOSER" using ok that by (simp add: walk_ok_def)
    moreover have "\<forall>j. start + 3 + 1 \<le> j \<longrightarrow> j < legacy \<longrightarrow> \<not> js_startsWith (drop j v) CLOSER"
      using opener by (auto simp: next_opener_def js_indexOf_Some split: option.splits)
    ultimately show ?thesis by (metis Suc_eq_plus1 Suc_leI not_le)
  qed
  have c: "c + 2 \<le> length v \<and> c - (start + 3) \<le> 3 * wk_steps ?w" if "wk_close ?w = Some c" for c
    using ok that by (auto simp: walk_ok_def)
  have one: "length (js_trim (js_slice v (start + 3) d)) \<le> 3 * wk_steps ?w" if "wk_close ?w = Some c" "d \<le> c" for c d
    using length_trim_slice [of v "start + 3" d] c [OF that(1)] that(2) by linarith
  obtain parsed where "work' = count_work (wk_steps ?w) parsed work" "sum_list (map length parsed) \<le> 6 * wk_steps ?w"
    and "rejected' = rejected \<union> set (wk_visited ?w) \<and> close = legacy \<or> rejected' = rejected \<and> wk_close ?w = Some close"
  proof (cases "wk_close ?w")
    case None
    then show ?thesis using choice that [of "[]"] by (auto simp: chooseClose_def Let_def)
  next
    case (Some d)
    from one [OF Some first [OF Some]] one [OF Some order_refl] show ?thesis
      using choice Some that [of "[]"] that [of "[js_trim (js_slice v (start + 3) legacy)]"]
        that [of "[js_trim (js_slice v (start + 3) legacy), js_trim (js_slice v (start + 3) d)]"]
      by (auto simp: chooseClose_def Let_def split: if_splits)
  qed
  moreover from this(3) first c b have "close + 2 \<le> length v" "from \<le> close + 2" by fastforce+
  ultimately show ?thesis using spent_walk [OF assms(1) ok] b by auto
qed

lemma scan_loop_induct [case_names finished found]:
  assumes "\<And>from rejected work. next_opener v from = None \<Longrightarrow> P from rejected work ([], work)"
    and "\<And>from rejected work start legacy close rejected' work' spans done. next_opener v from = Some (start, legacy) \<Longrightarrow>
           chooseClose parsesAsCel v (start + 3) legacy rejected work = (close, rejected', work') \<Longrightarrow>
           P (close + 2) rejected' work' (spans, done) \<Longrightarrow> P from rejected work (span_at v start close # spans, done)"
  shows "P from rejected work (scan_loop parsesAsCel v from rejected work)"
proof (induction "length v - from" arbitrary: "from" rejected work rule: less_induct)
  case less
  show ?case
  proof (cases "next_opener v from")
    case None
    then show ?thesis using assms(1) by (subst scan_loop.simps) simp
  next
    case (Some p)
    obtain start legacy close r w where p: "p = (start, legacy)"
      and c: "chooseClose parsesAsCel v (start + 3) legacy rejected work = (close, r, w)" by (metis prod_cases3 surj_pair)
    have "length v - (close + 2) < length v - from" using scan_progress [OF _ c [symmetric]] Some p by simp
    from less [OF this, of r w] obtain spans "done" where rest: "scan_loop parsesAsCel v (close + 2) r w = (spans, done)"
      and "P (close + 2) r w (spans, done)" by (metis surj_pair)
    then have "P from rejected work (span_at v start close # spans, done)" using assms(2) [OF _ c] Some p by simp
    then show ?thesis using Some p c rest by (subst scan_loop.simps) simp
  qed
qed

lemma scan_loop_spends:
  "spent v from rejected work \<longrightarrow>
     (case scan_loop parsesAsCel v from rejected work of
        (spans, done) \<Rightarrow> sw_lexSteps done \<le> 6 * length v \<and> sw_parsedChars done \<le> 6 * sw_lexSteps done)"
proof (induction rule: scan_loop_induct)
  case (finished "from" rejected work)
  have "card ({..<6 * from} \<union> rejected) \<le> card {..<6 * length v}" if "spent v from rejected work"
    using that by (intro card_mono) (auto simp: spent_def)
  then show ?case by (auto simp: spent_def)
next
  case (found "from" rejected work start legacy close rejected' work' spans "done")
  then show ?case using chooseClose_spends [OF _ found(1,2)] by auto
qed

text \<open>C23.
  A scan takes at most six lexer steps for each character of the text, and gives at most thirty-six
  characters for each to the parser, however many openers the text has and whatever parses: the keys
  of rejected walks keep it linear.
\<close>

theorem scan_is_linear:
  "sw_lexSteps (snd (scan_counted parsesAsCel v)) \<le> LEX_STATE_COUNT * length v \<and>
   sw_parsedChars (snd (scan_counted parsesAsCel v)) \<le> 6 * (LEX_STATE_COUNT * length v)"
proof -
  let ?none = "\<lparr>sw_lexSteps = 0, sw_parsedChars = 0\<rparr>"
  have "spent v 0 {} ?none" by (simp add: spent_def)
  with scan_loop_spends [of v 0 "{}" ?none parsesAsCel] show ?thesis
    by (auto simp: scan_counted_def LEX_STATE_COUNT_def Let_def split: prod.splits)
qed

section \<open>What a scan finds\<close>

lemma scan_counted_eq: "scan_counted parsesAsCel v = scan_loop parsesAsCel v 0 {} \<lparr>sw_lexSteps = 0, sw_parsedChars = 0\<rparr>"
  by (simp add: scan_counted_def Let_def scan_loop.simps [of _ _ 0] next_opener_def)

text \<open>
  Spans in the order of the text and apart from each other, each from an opener to closing braces with
  at least one character between them; no opener stands before a span, and after the last one no opener
  is closed.
\<close>

definition span_ok :: "string \<Rightarrow> expression_span \<Rightarrow> bool" where
  "span_ok v sp \<longleftrightarrow>
     ex_start sp + 6 \<le> ex_end sp \<and> ex_end sp \<le> length v \<and>
     js_startsWith (drop (ex_start sp) v) OPENER \<and> js_startsWith (drop (ex_end sp - 2) v) CLOSER \<and>
     ex_raw sp = js_slice v (ex_start sp) (ex_end sp) \<and>
     ex_inner sp = js_trim (js_slice v (ex_start sp + 3) (ex_end sp - 2))"

fun spans_ok :: "string \<Rightarrow> nat \<Rightarrow> expression_span list \<Rightarrow> bool" where
  "spans_ok v from [] = (next_opener v from = None)"
| "spans_ok v from (sp # sps) \<longleftrightarrow> js_indexOf v OPENER from = Some (ex_start sp) \<and> span_ok v sp \<and> spans_ok v (ex_end sp) sps"

lemma chooseClose_closes:
  assumes "next_opener v from = Some (start, legacy)"
    and "chooseClose parsesAsCel v (start + 3) legacy rejected work = (close, rejected', work')"
  shows "start + 3 < close" and "close + 2 \<le> length v" and "js_startsWith (drop close v) CLOSER"
proof -
  have "walk_ok v rejected (start + 3) (walkToClose v (start + 3) rejected)" unfolding walkToClose_def by (rule walk_from_ok)
  moreover have "js_startsWith (drop legacy v) CLOSER"
    using assms(1) by (auto simp: next_opener_def js_indexOf_Some split: option.splits)
  ultimately show "close + 2 \<le> length v" and "js_startsWith (drop close v) CLOSER"
    using assms(2) next_opener_bounds [OF assms(1)]
    by (auto simp: chooseClose_def Let_def walk_ok_def split: option.splits if_splits)
  show "start + 3 < close"
    using chooseClose_after [OF next_opener_bounds(2) [OF assms(1)], of parsesAsCel v rejected work] assms(2) by simp
qed

lemma scan_loop_spans: "spans_ok v from (fst (scan_loop parsesAsCel v from rejected work))"
proof (induction rule: scan_loop_induct)
  case (found "from" rejected work start legacy close rejected' work' spans "done")
  from found(1) have "js_indexOf v OPENER from = Some start" by (auto simp: next_opener_def split: option.splits)
  moreover from this have "js_startsWith (drop start v) OPENER" by (simp add: js_indexOf_Some)
  ultimately show ?case using found(3) chooseClose_closes [OF found(1,2)] by (simp add: span_at_def span_ok_def)
qed simp

text \<open>C31.
  Whatever parses, the spans a scan returns are well-formed: they stand in the order of the text and
  apart from each other, each runs from an opener to closing braces and carries the text between them,
  no opener stands before one of them, and after the last no opener is closed.
\<close>

theorem scanExpressions_well_formed: "spans_ok v 0 (scanExpressions parsesAsCel v)"
  unfolding scanExpressions_def scan_counted_eq by (rule scan_loop_spans)

section \<open>Replacing expressions\<close>

lemma slice_drop: "a \<le> b \<Longrightarrow> js_slice v a b @ drop b v = drop a v"
  by (simp add: js_slice_def) (metis append_take_drop_id drop_drop le_add_diff_inverse2)

lemma slice_to_end: "js_slice v a (length v) = drop a v"
  by (simp add: js_slice_def)

lemma replace_raw: "spans_ok v from spans \<Longrightarrow> replace_from ex_raw v from spans = drop from v"
proof (induction spans arbitrary: "from")
  case (Cons sp spans)
  then have "from \<le> ex_start sp" "ex_start sp \<le> ex_end sp" "ex_raw sp = js_slice v (ex_start sp) (ex_end sp)"
    by (auto simp: js_indexOf_Some span_ok_def)
  then show ?case using Cons by (simp add: slice_drop)
qed simp

lemma replaceExpressionSpans_raw: "replaceExpressionSpans parsesAsCel v ex_raw = v"
proof -
  have "spans_ok v 0 (scanExpressions parsesAsCel v)"
    unfolding scanExpressions_def scan_counted_eq by (rule scan_loop_spans)
  from replace_raw [OF this] show ?thesis by (simp add: replaceExpressionSpans_def Let_def)
qed

text \<open>A template: pieces of text, each followed by an expression, and the text after the last one.\<close>

fun render :: "(string \<times> string) list \<Rightarrow> string \<Rightarrow> string" where
  "render [] tail_text = tail_text"
| "render ((t, e) # ps) tail_text = t @ OPENER @ e @ CLOSER @ render ps tail_text"

fun substitute :: "(string \<Rightarrow> string) \<Rightarrow> (string \<times> string) list \<Rightarrow> string \<Rightarrow> string" where
  "substitute f [] tail_text = tail_text"
| "substitute f ((t, e) # ps) tail_text = t @ f (js_trim e) @ substitute f ps tail_text"

text \<open>
  An expression the scan reads as it was written: the lexer finds the closing braces at its end, and
  when others stand before them, in a string or a comment, the text up to those does not parse while
  the whole does.
\<close>

definition ends_itself :: "(string \<Rightarrow> bool) \<Rightarrow> string \<Rightarrow> bool" where
  "ends_itself parsesAsCel e \<longleftrightarrow>
     e \<noteq> [] \<and> wk_close (walk_from (e @ CLOSER) 0 {} 0 Lex_code) = Some (length e) \<and>
     (case js_indexOf (e @ CLOSER) CLOSER 1 of
        None \<Rightarrow> False
      | Some l \<Rightarrow> l = length e \<or> \<not> parsesAsCel (js_trim (take l e)) \<and> parsesAsCel (js_trim e))"

definition no_opener :: "string \<Rightarrow> bool" where
  "no_opener t \<longleftrightarrow> js_indexOf t OPENER 0 = None"

lemma char_at_append: "char_at (a @ b) i = (if i < length a then char_at a i else char_at b (i - length a))"
  by (auto simp: char_at_def nth_append)

lemma js_startsWith_iff: "js_startsWith (drop i s) p \<longleftrightarrow> (\<forall>k<length p. char_at s (i + k) = Some (p ! k))"
proof
  assume *: "js_startsWith (drop i s) p"
  then have "length p \<le> length s - i" unfolding js_startsWith_def by (metis length_drop length_take min.cobounded1)
  moreover have "s ! (i + k) = p ! k" if "k < length p" for k
  proof -
    have "take (length p) (drop i s) ! k = p ! k" using * by (simp add: js_startsWith_def)
    with that \<open>length p \<le> length s - i\<close> show ?thesis by simp
  qed
  ultimately show "\<forall>k<length p. char_at s (i + k) = Some (p ! k)" by (auto simp: char_at_def)
next
  assume *: "\<forall>k<length p. char_at s (i + k) = Some (p ! k)"
  show "js_startsWith (drop i s) p"
    unfolding js_startsWith_def
  proof (rule nth_equalityI)
    show len: "length (take (length p) (drop i s)) = length p"
    proof (cases "p = []")
      case False
      then have "char_at s (i + (length p - 1)) \<noteq> None" using * by auto
      then have "i + (length p - 1) < length s" by (auto simp: char_at_def split: if_splits)
      with False show ?thesis by auto
    qed simp
    show "take (length p) (drop i s) ! k = p ! k" if "k < length (take (length p) (drop i s))" for k
      using that * by (auto simp: char_at_def dest: spec [of _ k] split: if_splits)
  qed
qed

lemma CLOSER_at:
  "js_startsWith (drop i s) CLOSER \<longleftrightarrow> char_at s i = Some (CHR 0x7D) \<and> char_at s (Suc i) = Some (CHR 0x7D)"
  by (auto simp: js_startsWith_iff CLOSER_def less_Suc_eq)

lemma OPENER_at:
  "js_startsWith (drop i s) OPENER \<longleftrightarrow>
     char_at s i = Some (CHR ''$'') \<and> char_at s (Suc i) = Some (CHR 0x7B) \<and> char_at s (Suc (Suc i)) = Some (CHR 0x7B)"
  by (auto simp: js_startsWith_iff OPENER_def less_Suc_eq)

text \<open>Inside a larger text the lexer and the walk see the same, up to the closing braces.\<close>

lemma char_at_inside:
  "i < length e + 2 \<Longrightarrow> char_at (pre @ e @ CLOSER @ rest) (length pre + i) = char_at (e @ CLOSER) i"
  by (auto simp: char_at_append)

lemma CLOSER_inside:
  "i \<le> length e \<Longrightarrow>
     js_startsWith (drop (length pre + i) (pre @ e @ CLOSER @ rest)) CLOSER \<longleftrightarrow> js_startsWith (drop i (e @ CLOSER)) CLOSER"
  unfolding CLOSER_at using char_at_inside [of i e pre rest] char_at_inside [of "Suc i" e pre rest] by simp

lemma lexStep_inside:
  assumes "i < length e"
  shows "lexStep (pre @ e @ CLOSER @ rest) (length pre + i) state =
    (case lexStep (e @ CLOSER) i state of (n, state') \<Rightarrow> (map_option ((+) (length pre)) n, state'))"
proof -
  let ?big = "pre @ e @ CLOSER @ rest"
  have "char_at ?big (length pre + i) = char_at (e @ CLOSER) i"
    and "char_at ?big (length pre + i + 1) = char_at (e @ CLOSER) (i + 1)"
    and "char_at ?big (length pre + i + 2) = char_at (e @ CLOSER) (i + 2)"
    using char_at_inside [of i e pre rest] char_at_inside [of "i + 1" e pre rest] char_at_inside [of "i + 2" e pre rest] assms
    by (auto simp: add.assoc)
  moreover have "length pre + i + 2 \<le> length ?big" "i + 2 \<le> length (e @ CLOSER)" using assms by (auto simp: CLOSER_def)
  ultimately show ?thesis unfolding lexStep_def Let_def by (cases state) (auto simp: add.assoc)
qed

lemma walk_inside:
  "wk_close (walk_from (e @ CLOSER) 0 {} i state) = Some (length e) \<longrightarrow> i \<le> length e \<longrightarrow>
   wk_close (walk_from (pre @ e @ CLOSER @ rest) (length pre) {} (length pre + i) state) = Some (length pre + length e)"
proof (induction rule: walk_from_induct [where P = "\<lambda>i state w. wk_close w = Some (length e) \<longrightarrow> i \<le> length e \<longrightarrow>
      wk_close (walk_from (pre @ e @ CLOSER @ rest) (length pre) {} (length pre + i) state) = Some (length pre + length e)"])
  case (close i state)
  then show ?case
    using CLOSER_inside [of i e pre rest]
    by (subst walk_from.simps) (auto simp: closes_at_def CLOSER_def)
next
  case (step i state n next_state w)
  show ?case
  proof (intro impI)
    assume c: "wk_close (visit (walk_key i state) w) = Some (length e)"
    then have "wk_close w = Some (length e)" by simp
    moreover have "n \<le> length e"
      using walk_from_ok [of "e @ CLOSER" "{}" n 0 next_state] step(5) c by (simp add: walk_ok_def)
    moreover have "i < length e" using lexStep_bounds [OF step(4)] \<open>n \<le> length e\<close> by simp
    moreover have "\<not> closes_at (pre @ e @ CLOSER @ rest) (length pre) (length pre + i) state"
      using step(3) CLOSER_inside [of i e pre rest] \<open>i < length e\<close> by (auto simp: closes_at_def)
    ultimately show "wk_close (walk_from (pre @ e @ CLOSER @ rest) (length pre) {} (length pre + i) state) = Some (length pre + length e)"
      using step(4,6) lexStep_inside [of i e pre rest state]
      by (subst walk_from.simps) (simp add: Let_def)
  qed
qed auto

lemma CLOSER_index_inside:
  assumes "js_indexOf (e @ CLOSER) CLOSER 1 = Some l"
  shows "js_indexOf (pre @ e @ CLOSER @ rest) CLOSER (length pre + 1) = Some (length pre + l)" and "l \<le> length e"
proof -
  have here: "js_startsWith (drop (length e) (e @ CLOSER)) CLOSER" by (simp add: js_startsWith_def)
  show l: "l \<le> length e"
  proof (rule ccontr)
    assume "\<not> l \<le> length e"
    moreover have "l + 2 \<le> length (e @ CLOSER)"
      using assms js_startsWith_length [of l "e @ CLOSER" CLOSER] by (auto simp: js_indexOf_Some CLOSER_def)
    ultimately show False by (simp add: CLOSER_def)
  qed
  have "\<not> js_startsWith (drop j (pre @ e @ CLOSER @ rest)) CLOSER" if "length pre + 1 \<le> j" "j < length pre + l" for j
    using assms that l CLOSER_inside [of "j - length pre" e pre rest] by (auto simp: js_indexOf_Some)
  with assms l CLOSER_inside [of l e pre rest] show
    "js_indexOf (pre @ e @ CLOSER @ rest) CLOSER (length pre + 1) = Some (length pre + l)"
    by (auto simp: js_indexOf_Some)
qed

lemma opener_index:
  assumes "no_opener t"
  shows "js_indexOf (pre @ t @ OPENER @ rest) OPENER (length pre) = Some (length pre + length t)"
proof -
  let ?v = "pre @ t @ OPENER @ rest"
  have "js_startsWith (drop (length pre + length t) ?v) OPENER" by (simp add: js_startsWith_def)
  moreover have "\<not> js_startsWith (drop j ?v) OPENER" if j: "length pre \<le> j" "j < length pre + length t" for j
  proof
    assume *: "js_startsWith (drop j ?v) OPENER"
    let ?i = "j - length pre"
    have "\<not> js_startsWith (drop ?i t) OPENER"
      using assms j by (auto simp: no_opener_def js_indexOf_None)
    then show False
      using * j unfolding OPENER_at
      by (auto simp: char_at_append OPENER_def char_at_def [of "CHR ''$'' # _"] Suc_diff_le split: if_splits)
  qed
  ultimately show ?thesis by (auto simp: js_indexOf_Some)
qed

lemma slice_inside: "k \<le> length e \<Longrightarrow> js_slice (pre @ e @ rest) (length pre) (length pre + k) = take k e"
  by (simp add: js_slice_def)

lemma chooseClose_inside:
  assumes "ends_itself parsesAsCel e" and "js_indexOf (e @ CLOSER) CLOSER 1 = Some l"
  obtains work' where "chooseClose parsesAsCel (pre @ e @ CLOSER @ rest) (length pre) (length pre + l) {} work =
    (length pre + length e, {}, work')"
proof -
  let ?v = "pre @ e @ CLOSER @ rest"
  have "wk_close (walkToClose ?v (length pre) {}) = Some (length pre + length e)"
    using assms(1) walk_inside [of e 0 Lex_code pre rest] by (simp add: ends_itself_def walkToClose_def)
  moreover have "l = length e \<or> \<not> parsesAsCel (js_trim (take l e)) \<and> parsesAsCel (js_trim e)"
    using assms by (simp add: ends_itself_def)
  moreover have "js_slice ?v (length pre) (length pre + l) = take l e"
    and "js_slice ?v (length pre) (length pre + length e) = e"
    using slice_inside [of l e pre "CLOSER @ rest"] slice_inside [of "length e" e pre "CLOSER @ rest"]
      CLOSER_index_inside(2) [OF assms(2)] by simp_all
  ultimately have "\<exists>w. chooseClose parsesAsCel ?v (length pre) (length pre + l) {} work = (length pre + length e, {}, w)"
    by (auto simp: chooseClose_def Let_def)
  with that show thesis by blast
qed

definition readable :: "(string \<Rightarrow> bool) \<Rightarrow> (string \<times> string) list \<Rightarrow> string \<Rightarrow> bool" where
  "readable parsesAsCel ps tail_text \<longleftrightarrow>
     list_all (\<lambda>(t, e). no_opener t \<and> ends_itself parsesAsCel e) ps \<and> no_opener tail_text"

lemma scan_loop_render:
  "readable parsesAsCel ps tail_text \<Longrightarrow>
     \<exists>spans work'. scan_loop parsesAsCel (pre @ render ps tail_text) (length pre) {} work = (spans, work') \<and>
       map ex_inner spans = map (js_trim \<circ> snd) ps \<and>
       (\<forall>f. replace_from (\<lambda>sp. f (ex_inner sp)) (pre @ render ps tail_text) (length pre) spans = substitute f ps tail_text)"
proof (induction ps arbitrary: pre work)
  case Nil
  then have "js_indexOf (pre @ tail_text) OPENER (length pre) = None"
    by (auto simp: readable_def no_opener_def js_indexOf_None)
  then have "next_opener (pre @ tail_text) (length pre) = None" by (simp add: next_opener_def)
  then show ?case by (simp add: scan_loop.simps [of _ _ "length pre"])
next
  case (Cons p ps)
  obtain t e where p: "p = (t, e)" by force
  let ?v = "pre @ render ((t, e) # ps) tail_text" and ?pre = "pre @ t @ OPENER"
  let ?next = "?pre @ e @ CLOSER" and ?a = "length pre + length t"
  from Cons.prems p have t: "no_opener t" and e: "ends_itself parsesAsCel e" and "readable parsesAsCel ps tail_text"
    by (auto simp: readable_def)
  then obtain l where l: "js_indexOf (e @ CLOSER) CLOSER 1 = Some l" by (auto simp: ends_itself_def split: option.splits)
  have v: "?v = ?pre @ e @ CLOSER @ render ps tail_text" "?v = ?next @ render ps tail_text" by simp_all
  have len: "length ?pre = ?a + 3" "length ?next = ?a + 3 + length e + 2" by simp_all
  have opener: "next_opener ?v (length pre) = Some (?a, ?a + 3 + l)"
    using opener_index [OF t, of pre "e @ CLOSER @ render ps tail_text"] CLOSER_index_inside(1) [OF l, of ?pre "render ps tail_text"]
    by (simp add: next_opener_def add.assoc)
  obtain w where choice: "chooseClose parsesAsCel ?v (?a + 3) (?a + 3 + l) {} work = (?a + 3 + length e, {}, w)"
    using chooseClose_inside [OF e l] unfolding v(1) len(1) [symmetric] by blast
  obtain spans w' where rest: "scan_loop parsesAsCel ?v (?a + 3 + length e + 2) {} w = (spans, w')"
    "map ex_inner spans = map (js_trim \<circ> snd) ps"
    "\<forall>f. replace_from (\<lambda>sp. f (ex_inner sp)) ?v (?a + 3 + length e + 2) spans = substitute f ps tail_text"
    using Cons.IH [OF \<open>readable parsesAsCel ps tail_text\<close>, of ?next w] unfolding v(2) len(2) [symmetric] by blast
  have slices: "js_slice ?v (length pre) ?a = t" "js_slice ?v (?a + 3) (?a + 3 + length e) = e"
    using slice_inside [of "length t" t pre] slice_inside [of "length e" e ?pre] unfolding len by simp_all
  have "scan_loop parsesAsCel ?v (length pre) {} work = (span_at ?v ?a (?a + 3 + length e) # spans, w')"
    by (subst scan_loop.simps) (simp only: opener choice rest option.case prod.case)
  moreover have "ex_inner (span_at ?v ?a (?a + 3 + length e)) = js_trim e" using slices(2) by (simp add: span_at_def)
  moreover have "ex_start (span_at ?v ?a (?a + 3 + length e)) = ?a" "ex_end (span_at ?v ?a (?a + 3 + length e)) = ?a + 3 + length e + 2"
    by (simp_all add: span_at_def)
  ultimately show ?case
    unfolding p using rest(2,3) slices(1) by (intro exI [of _ "span_at ?v ?a (?a + 3 + length e) # spans"] exI [of _ w']) simp
qed

text \<open>C40.
  A template of texts without openers and of expressions that end themselves is read as it was
  written: the scan finds exactly its expressions, in order, closing braces inside their strings and
  comments notwithstanding, and replacing each expression by what a function gives for it is the
  template with the texts kept.
\<close>

theorem template_reads_back:
  assumes "readable parsesAsCel ps tail_text"
  shows "map ex_inner (scanExpressions parsesAsCel (render ps tail_text)) = map (js_trim \<circ> snd) ps \<and>
    replaceExpressionSpans parsesAsCel (render ps tail_text) (\<lambda>sp. f (ex_inner sp)) = substitute f ps tail_text"
proof -
  obtain spans work where "scan_counted parsesAsCel (render ps tail_text) = (spans, work)"
    and "map ex_inner spans = map (js_trim \<circ> snd) ps"
    and "replace_from (\<lambda>sp. f (ex_inner sp)) (render ps tail_text) 0 spans = substitute f ps tail_text"
    using scan_loop_render [OF assms, of "[]"] unfolding scan_counted_eq by fastforce
  then show ?thesis by (cases ps) (auto simp: scanExpressions_def replaceExpressionSpans_def Let_def)
qed

text \<open>An expression with closing braces in a string: \<^verbatim>\<open>x ${{ f("}}") }} y\<close>.\<close>

definition demo_call :: string where
  "demo_call = '' f('' @ [CHR 0x22] @ ''}}'' @ [CHR 0x22] @ '') ''"

definition demo_parses :: "string \<Rightarrow> bool" where
  "demo_parses t \<longleftrightarrow> t = js_trim demo_call"

theorem template_reads_back_witness:
  "readable demo_parses [(''x '', demo_call)] '' y'' \<and>
   map ex_inner (scanExpressions demo_parses (render [(''x '', demo_call)] '' y'')) = [js_trim demo_call]"
proof -
  have "readable demo_parses [(''x '', demo_call)] '' y''" by code_simp
  with template_reads_back [OF this, of "\<lambda>t. t"] show ?thesis by simp
qed

section \<open>A walk that rejoins a rejected one\<close>

text \<open>
  The keys of a rejected walk stop any later walk that reaches one of them, although the later walk
  starts elsewhere and its own text may parse. In
  \<^verbatim>\<open>${{ 'a }} ${{ x + '\'' + "}}" }}\<close> the first opener is closed by the first braces: neither
  \<^verbatim>\<open>'a\<close> nor the text the lexer walks over, which leaves a backslash outside a string, parses. The
  walk of the second opener meets it after the escaped quote, so its expression is cut at the braces
  inside the string, though the text up to them does not parse and the whole one does.
\<close>

definition rejoined_expression :: string where
  "rejoined_expression =
     '' x + '' @ [CHR 0x27, CHR 0x5C, CHR 0x27, CHR 0x27] @ '' + '' @ [CHR 0x22] @ ''}}'' @ [CHR 0x22] @ '' ''"

definition rejoining_text :: string where
  "rejoining_text = OPENER @ '' '' @ [CHR 0x27] @ ''a }} '' @ OPENER @ rejoined_expression @ CLOSER"

definition rejoin_parses :: "string \<Rightarrow> bool" where
  "rejoin_parses t \<longleftrightarrow> t = js_trim rejoined_expression"

lemma rejoined_walk_is_cut:
  "map ex_end (scanExpressions rejoin_parses (OPENER @ rejoined_expression @ CLOSER)) =
     [length (OPENER @ rejoined_expression @ CLOSER)]"
  "map ex_inner (scanExpressions rejoin_parses (OPENER @ rejoined_expression @ CLOSER)) = [js_trim rejoined_expression]"
  "map ex_inner (scanExpressions rejoin_parses rejoining_text) =
     [[CHR 0x27] @ ''a'', ''x + '' @ [CHR 0x27, CHR 0x5C, CHR 0x27, CHR 0x27] @ '' + '' @ [CHR 0x22]]"
  by code_simp+

section \<open>The segments of an expression\<close>

lemma lexStep_within: "pos < length t \<Longrightarrow> lexStep t pos state = (Some p, state') \<Longrightarrow> p \<le> length t"
  by (cases state) (auto simp: lexStep_def Let_def char_at_def split: if_splits)

text \<open>Segments that lie end to end from one position to another, none of them empty.\<close>

fun tiles :: "nat \<Rightarrow> lex_segment list \<Rightarrow> nat \<Rightarrow> bool" where
  "tiles a [] b \<longleftrightarrow> a = b"
| "tiles a (seg # segs) b \<longleftrightarrow> ls_start seg = a \<and> a < ls_end seg \<and> tiles (ls_end seg) segs b"

lemma tiles_append: "tiles a segs m \<Longrightarrow> tiles m segs' b \<Longrightarrow> tiles a (segs @ segs') b"
  by (induction segs arbitrary: a) auto

lemma tiles_push: "a \<le> b \<Longrightarrow> tiles a (push_segment state a b) b"
  by (simp add: push_segment_def)

lemma segments_from_tile:
  "a \<le> pos \<Longrightarrow> pos \<le> length t \<Longrightarrow> tiles a (segments_from t pos state a) (length t)"
proof (induction "length t - pos" arbitrary: pos state a rule: less_induct)
  case less
  show ?case
  proof (cases "length t \<le> pos \<or> fst (lexStep t pos state) = None")
    case True
    then show ?thesis using less.prems tiles_push [of a "length t" state]
      by (subst segments_from.simps) (auto split: prod.splits option.splits)
  next
    case False
    then obtain p state' where l: "lexStep t pos state = (Some p, state')" "pos < length t"
      by (metis not_le not_None_eq prod.collapse)
    let ?b = "if state = Lex_code then pos else p"
    have p: "pos < p" "p \<le> length t" using lexStep_bounds [OF l(1)] lexStep_within [OF l(2,1)] by auto
    have "tiles a (push_segment state a ?b @ segments_from t p state' ?b) (length t)"
      using less.prems p l(2) by (intro tiles_append [OF tiles_push] less.hyps) auto
    moreover have "tiles a (segments_from t p state' a) (length t)"
      using less.prems p l(2) by (intro less.hyps) auto
    ultimately show ?thesis
      using False l by (subst segments_from.simps) (auto simp: Let_def)
  qed
qed

lemma tiles_text: "tiles a segs (length t) \<Longrightarrow> concat (map (\<lambda>seg. js_slice t (ls_start seg) (ls_end seg)) segs) = drop a t"
  by (induction segs arbitrary: a) (auto simp: slice_drop less_imp_le)

lemma lexSegments_partition:
  "tiles 0 (lexSegments t) (length t) \<and> concat (map (\<lambda>seg. js_slice t (ls_start seg) (ls_end seg)) (lexSegments t)) = t"
  using segments_from_tile [of 0 0 t Lex_code] tiles_text [of 0 "lexSegments t" t] by (simp add: lexSegments_def)

section \<open>Masking the text of literal calls\<close>

text \<open>
  A segment of code ends in a bare \<^verbatim>\<open>literal(\<close> whose one argument is the string after it.
\<close>

definition literal_call :: "string \<Rightarrow> lex_segment \<Rightarrow> lex_segment \<Rightarrow> lex_segment \<Rightarrow> bool" where
  "literal_call t seg str after \<longleftrightarrow>
     ls_kind seg = Code_segment \<and> ls_kind str = String_segment \<and> ls_kind after = Code_segment \<and>
     closesCall t (ls_start after) (ls_end after) \<and>
     (\<exists>n\<in>set (literals_from (js_slice t (ls_start seg) (ls_end seg)) 0).
        isBareCallee t (ls_start seg + n) (ls_start seg) \<and> opensCallAtSegmentEnd t (ls_start seg + n + 7) (ls_end seg))"

fun mask_segments :: "string \<Rightarrow> lex_segment list \<Rightarrow> string" where
  "mask_segments t (seg # str # after # rest) =
     js_slice t (ls_start seg) (ls_end seg) @
     (if literal_call t seg str after then [CHR 0x22, CHR 0x22] @ mask_segments t (after # rest)
      else mask_segments t (str # after # rest))"
| "mask_segments t segs = concat (map (\<lambda>seg. js_slice t (ls_start seg) (ls_end seg)) segs)"

lemma literals_from_spaced:
  "sorted_wrt (\<lambda>n m. n + 7 \<le> m) (literals_from code from) \<and>
   (\<forall>n\<in>set (literals_from code from). from \<le> n \<and> n < length code \<and> js_startsWith (drop n code) ''literal'')"
proof (induction code "from" rule: literals_from.induct)
  case (1 code "from")
  show ?case
  proof (cases "js_indexOf code ''literal'' from")
    case (Some n)
    then have n: "from \<le> n" "n \<le> length code" "js_startsWith (drop n code) ''literal''" by (auto simp: js_indexOf_Some)
    with js_startsWith_length [OF n(3)] have "n < length code" by simp
    with n 1 [OF Some] Some show ?thesis by (subst (1 2) literals_from.simps) fastforce
  qed (simp add: literals_from.simps)
qed

lemma strip_leading_set: "set s \<subseteq> set (strip_leading spaces s) \<union> \<Union> (set ` set spaces)"
proof (induction spaces s rule: strip_leading.induct)
  case (1 spaces s)
  show ?case
  proof (cases "leading_space spaces s = 0 \<or> s = []")
    case True
    then show ?thesis by (simp add: strip_leading_0 disj_commute)
  next
    case False
    then obtain w where w: "find (\<lambda>w. take (length w) s = w) spaces = Some w" "leading_space spaces s = length w"
      by (auto simp: leading_space_def split: option.splits)
    then have "w \<in> set spaces" "take (length w) s = w" by (auto simp: find_Some_iff)
    then have "set s \<subseteq> set w \<union> set (drop (length w) s)" by (metis append_take_drop_id order_refl set_append)
    with 1 [OF False] w(2) \<open>w \<in> set spaces\<close> False show ?thesis
      by (subst strip_leading.simps) auto
  qed
qed

lemma opens_no_letter: "opensCallAtSegmentEnd t a b \<Longrightarrow> CHR ''l'' \<notin> set (js_slice t a b)"
proof
  assume o: "opensCallAtSegmentEnd t a b" and l: "CHR ''l'' \<in> set (js_slice t a b)"
  have space: "CHR ''l'' \<notin> \<Union> (set ` set js_spaces)" by (simp add: js_spaces_def)
  have skip: "CHR ''l'' \<in> set (skip_space u)" if "CHR ''l'' \<in> set u" for u
    using that strip_leading_set [of u js_spaces] space by (auto simp: skip_space_def)
  from o obtain cs where cs: "skip_space (js_slice t a b) = CHR ''('' # cs"
    and rest: "skip_space cs = [] \<or> skip_space cs = ''r'' \<or> skip_space cs = ''R''"
    by (auto simp: opensCallAtSegmentEnd_def split: list.splits)
  from skip [OF l] cs have "CHR ''l'' \<in> set cs" by simp
  from skip [OF this] rest show False by auto
qed

lemma concat_last:
  "sorted_wrt (\<lambda>n m. \<not> C n) ns \<Longrightarrow> concat (map (\<lambda>n. if C n then [x] else []) ns) = (if \<exists>n\<in>set ns. C n then [x] else [])"
  by (induction ns) auto

lemma masks_of_eq:
  "masks_of t seg rest =
     (case rest of str # after # _ \<Rightarrow> if literal_call t seg str after then [(ls_start str, ls_end str)] else [] | _ \<Rightarrow> [])"
proof (cases rest)
  case (Cons str rest')
  show ?thesis
  proof (cases rest')
    case (Cons after more)
    let ?code = "js_slice t (ls_start seg) (ls_end seg)" and ?s = "ls_start seg"
    define C where "C = (\<lambda>n. isBareCallee t (?s + n) ?s \<and> opensCallAtSegmentEnd t (?s + n + 7) (ls_end seg) \<and>
        ls_kind str = String_segment \<and> ls_kind after = Code_segment \<and> closesCall t (ls_start after) (ls_end after))"
    have earlier: "\<not> C n" if "m \<in> set (literals_from ?code 0)" "n + 7 \<le> m" for n m
    proof -
      from that(1) literals_from_spaced [of ?code 0] have m: "m < length ?code" "js_startsWith (drop m ?code) ''literal''" by auto
      have "?code ! m = CHR ''l''" using m by (auto simp: js_startsWith_iff char_at_def dest: spec [of _ 0])
      moreover have "js_slice t (?s + n + 7) (ls_end seg) = drop (n + 7) ?code"
        by (simp add: js_slice_def drop_take ac_simps)
      moreover have "drop (n + 7) ?code ! (m - (n + 7)) = ?code ! m" "m - (n + 7) < length (drop (n + 7) ?code)"
        using m(1) that(2) by simp_all
      ultimately have "CHR ''l'' \<in> set (js_slice t (?s + n + 7) (ls_end seg))"
        by (metis nth_mem)
      then show ?thesis using opens_no_letter unfolding C_def by blast
    qed
    have "sorted_wrt (\<lambda>n m. n + 7 \<le> m) (literals_from ?code 0)" using literals_from_spaced by blast
    then have "sorted_wrt (\<lambda>n m. \<not> C n) (literals_from ?code 0)"
      by (rule sorted_wrt_mono_rel [rotated]) (rule earlier)
    note last_only = concat_last [OF this, of "(ls_start str, ls_end str)"]
    have "masks_of t seg (str # after # more) =
        (if ls_kind seg \<noteq> Code_segment then []
         else concat (map (\<lambda>n. if C n then [(ls_start str, ls_end str)] else []) (literals_from ?code 0)))"
      unfolding masks_of_def Let_def list.case C_def ..
    moreover have "literal_call t seg str after \<longleftrightarrow> ls_kind seg = Code_segment \<and> (\<exists>n\<in>set (literals_from ?code 0). C n)"
      unfolding literal_call_def C_def by blast
    ultimately show ?thesis unfolding last_only \<open>rest = str # rest'\<close> Cons by simp
  qed (simp add: \<open>rest = str # rest'\<close> masks_of_def)
qed (simp add: masks_of_def)

lemma all_masks_after:
  "tiles a segs b \<Longrightarrow> (x, y) \<in> set (all_masks t segs) \<Longrightarrow> a \<le> x"
proof (induction segs arbitrary: a)
  case (Cons seg segs)
  then have tile: "ls_start seg = a" "a < ls_end seg" "tiles (ls_end seg) segs b" by auto
  from Cons.prems(2) consider "(x, y) \<in> set (masks_of t seg segs)" | "(x, y) \<in> set (all_masks t segs)" by auto
  then show ?case
  proof cases
    case 1
    then obtain str more where "segs = str # more" "x = ls_start str"
      by (auto simp: masks_of_eq split: list.splits if_splits)
    with tile show ?thesis by simp
  next
    case 2
    with Cons.IH [OF tile(3)] tile(2) show ?thesis by simp
  qed
qed simp

lemma mask_from_skip:
  assumes "a \<le> b" and "\<And>x y. (x, y) \<in> set masks \<Longrightarrow> b \<le> x"
  shows "mask_from t a masks = js_slice t a b @ mask_from t b masks"
proof (cases masks)
  case (Cons p more)
  obtain x y where p: "p = (x, y)" by force
  have "b \<le> x" using assms(2) [of x y] Cons p by simp
  have "js_slice t a x = js_slice t a b @ js_slice t b x"
    using assms(1) \<open>b \<le> x\<close> take_add [of "b - a" "x - b" "drop a t"] by (simp add: js_slice_def)
  then show ?thesis by (simp add: Cons p)
qed (simp add: slice_drop [OF assms(1)])

lemma mask_from_eq: "tiles a segs (length t) \<Longrightarrow> mask_from t a (all_masks t segs) = mask_segments t segs"
proof (induction t segs arbitrary: a rule: mask_segments.induct)
  case (1 t seg str after rest)
  then have tile: "ls_start seg = a" "a < ls_end seg" "tiles (ls_end seg) (str # after # rest) (length t)" by auto
  show ?case
  proof (cases "literal_call t seg str after")
    case True
    then have "ls_kind str = String_segment" by (simp add: literal_call_def)
    then have "masks_of t str (after # rest) = []" by (simp add: masks_of_def)
    then have "all_masks t (seg # str # after # rest) = (ls_start str, ls_end str) # all_masks t (after # rest)"
      using True by (simp add: masks_of_eq [of t seg])
    moreover have "mask_from t (ls_end str) (all_masks t (after # rest)) = mask_segments t (after # rest)"
      using 1(1) [OF True] tile(3) by simp
    ultimately show ?thesis using True tile by (simp del: all_masks.simps)
  next
    case False
    then have "all_masks t (seg # str # after # rest) = all_masks t (str # after # rest)"
      by (simp add: masks_of_eq [of t seg])
    then show ?thesis
      using mask_from_skip [of a "ls_end seg" "all_masks t (str # after # rest)" t] all_masks_after [OF tile(3)]
        1(2) [OF False tile(3)] False tile(1,2) by simp
  qed
qed (auto simp: masks_of_eq slice_drop slice_to_end)

lemma no_literal_no_masks:
  assumes "js_indexOf t ''literal'' 0 = None"
  shows "all_masks t segs = []"
proof (induction segs)
  case (Cons seg segs)
  let ?code = "js_slice t (ls_start seg) (ls_end seg)"
  have "literals_from ?code 0 = []"
  proof (rule ccontr)
    assume "literals_from ?code 0 \<noteq> []"
    then obtain n where n: "n < length ?code" "js_startsWith (drop n ?code) ''literal''"
      using literals_from_spaced [of ?code 0] by (metis list.set_sel(1))
    have "js_startsWith (drop (ls_start seg + n) t) ''literal''"
      unfolding js_startsWith_iff
    proof (intro allI impI)
      fix k
      assume "k < length ''literal''"
      with n(2) have "char_at ?code (n + k) = Some (''literal'' ! k)" unfolding js_startsWith_iff by blast
      then show "char_at t (ls_start seg + n + k) = Some (''literal'' ! k)"
        by (auto simp: char_at_def js_slice_def add.assoc split: if_splits)
    qed
    moreover have "ls_start seg + n \<le> length t" using n(1) by (auto simp: js_slice_def)
    ultimately show False using assms unfolding js_indexOf_None by blast
  qed
  then show ?case using Cons by (simp add: masks_of_def)
qed simp

text \<open>
  Masking replaces exactly the strings that are the one argument of a bare call of \<^verbatim>\<open>literal\<close> by an
  empty one, and keeps every other character of the expression where it is; the segments it works on
  lie end to end over the whole text.
\<close>

theorem maskLiteralCalls_masks:
  "maskLiteralCalls t = mask_segments t (lexSegments t) \<and> tiles 0 (lexSegments t) (length t)"
proof -
  have tile: "tiles 0 (lexSegments t) (length t)" using segments_from_tile [of 0 0 t Lex_code] by (simp add: lexSegments_def)
  from mask_from_eq [OF this] no_literal_no_masks [of t "lexSegments t"] tile show ?thesis
    by (auto simp: maskLiteralCalls_def Let_def)
qed

end
