(* ===== verification/Resume_Reset.thy ===== *)
theory Resume_Reset
  imports Workflow_Run Expression_Scan
begin

text \<open>
  \<^verbatim>\<open>job_pairing.ts\<close>, \<^verbatim>\<open>failed_step_retry.ts\<close>, \<^verbatim>\<open>resume_reset.ts\<close> and \<^verbatim>\<open>recovery_assessment.ts\<close> of
  \<^verbatim>\<open>src/src/domain/workflows\<close>: which records of a run a resume runs again, when the definition may have
  changed since the run.

  Two answers come from the CEL grammar of a third-party package and are parameters: \<open>parsesAsCel\<close> says which
  texts are expressions, and \<open>reads\<close> what the expressions of a definition read of
  \<^verbatim>\<open>steps\<close> and where they stand (\<^verbatim>\<open>analyzeContentExpressions\<close>). \<open>fingerprint\<close> is the digest of a
  definition.
\<close>

section \<open>Pairing jobs named by expressions\<close>

definition evaluatedName :: "string \<Rightarrow> bool" where
  "evaluatedName name \<longleftrightarrow> js_indexOf name OPENER 0 \<noteq> None"

fun fits_middle :: "string \<Rightarrow> nat \<Rightarrow> string list \<Rightarrow> nat option" where
  "fits_middle stored n [] = Some n"
| "fits_middle stored n (p # ps) =
     (case js_indexOf stored p n of None \<Rightarrow> None | Some found \<Rightarrow> fits_middle stored (found + length p) ps)"

definition fits :: "(string \<Rightarrow> bool) \<Rightarrow> string \<Rightarrow> string \<Rightarrow> bool" where
  "fits parsesAsCel template stored =
     (let parts = texts_between template 0 (scanExpressions parsesAsCel template) in
      if length parts = 1 then stored = template
      else if \<not> js_startsWith stored (hd parts) then False
      else case fits_middle stored (length (hd parts)) (butlast (tl parts)) of
             None \<Rightarrow> False
           | Some n \<Rightarrow> n + length (last parts) \<le> length stored \<and>
                       drop (length stored - length (last parts)) stored = last parts)"

definition is_letter :: "char \<Rightarrow> bool" where
  "is_letter c \<longleftrightarrow> is_lower c \<or> is_upper c \<or> c = CHR ''_''"

definition is_identifier :: "string \<Rightarrow> bool" where
  "is_identifier s \<longleftrightarrow> s \<noteq> [] \<and> is_letter (hd s) \<and> list_all (\<lambda>c. is_letter c \<or> is_digit c) (tl s)"

text \<open>The path of \<^verbatim>\<open>INPUT_REFERENCE\<close>.\<close>

definition input_path :: "string \<Rightarrow> string list option" where
  "input_path inner =
     (if \<not> js_startsWith inner ''inputs.'' then None
      else let ks = js_split CHR ''.'' (drop 7 inner) in if list_all is_identifier ks then Some ks else None)"

definition json_field :: "string \<Rightarrow> json \<Rightarrow> json option" where
  "json_field key v =
     (case v of
        JObj fs \<Rightarrow> map_of fs key
      | JArr vs \<Rightarrow> if key = ''length'' then Some (JNum (nat_text (length vs))) else None
      | _ \<Rightarrow> None)"

definition span_text :: "json_object \<Rightarrow> expression_span \<Rightarrow> string option" where
  "span_text inputs sp =
     (case input_path (ex_inner sp) of
        None \<Rightarrow> None
      | Some ks \<Rightarrow>
          (case fold (\<lambda>k v. Option.bind v (json_field k)) ks (Some (JObj inputs)) of
             Some (JStr s) \<Rightarrow> Some s
           | Some (JNum t) \<Rightarrow> Some t
           | Some (JBool b) \<Rightarrow> Some (if b then ''true'' else ''false'')
           | _ \<Rightarrow> None))"

definition nameFromInputs :: "(string \<Rightarrow> bool) \<Rightarrow> string \<Rightarrow> json_object \<Rightarrow> string option" where
  "nameFromInputs parsesAsCel template inputs =
     (if list_all (\<lambda>sp. span_text inputs sp \<noteq> None) (scanExpressions parsesAsCel template)
      then Some (replaceExpressionSpans parsesAsCel template (\<lambda>sp. the (span_text inputs sp))) else None)"

type_synonym pairs = "(string \<times> string) list"

definition literal_names :: "workflow_def \<Rightarrow> string list" where
  "literal_names w = filter (\<lambda>n. \<not> evaluatedName n) (map jb_name (wd_jobs w))"

text \<open>The first pass: what the stored inputs give, and the positions of the other expression names.\<close>

definition pair_by_inputs :: "(string \<Rightarrow> bool) \<Rightarrow> workflow_def \<Rightarrow> workflow_run \<Rightarrow> pairs \<times> nat list" where
  "pair_by_inputs parsesAsCel w r =
     fold (\<lambda>(i, job) (ps, unpaired).
             if \<not> evaluatedName (jb_name job) then (ps, unpaired)
             else case nameFromInputs parsesAsCel (jb_name job) (r_inputs r) of
                    Some name \<Rightarrow>
                      if name \<notin> set (literal_names w) \<and> run_getJob r name \<noteq> None
                      then (AList.update (jb_name job) name ps, unpaired) else (ps, unpaired @ [i])
                  | None \<Rightarrow> (ps, unpaired @ [i]))
       (enumerate 0 (wd_jobs w)) ([], [])"

fun pair_by_position :: "(string \<Rightarrow> bool) \<Rightarrow> workflow_def \<Rightarrow> workflow_run \<Rightarrow> nat list \<Rightarrow> pairs \<Rightarrow> pairs option" where
  "pair_by_position parsesAsCel w r [] ps = Some ps"
| "pair_by_position parsesAsCel w r (i # is) ps =
     (let name = jb_name (wd_jobs w ! i); stored = jr_jobName (r_jobs r ! i) in
      if stored \<in> set (literal_names w) \<or> \<not> fits parsesAsCel name stored then None
      else pair_by_position parsesAsCel w r is (AList.update name stored ps))"

definition pairExpressionJobs :: "(string \<Rightarrow> bool) \<Rightarrow> workflow_def \<Rightarrow> workflow_run \<Rightarrow> pairs option" where
  "pairExpressionJobs parsesAsCel w r =
     (case pair_by_inputs parsesAsCel w r of
        (ps, unpaired) \<Rightarrow>
          let done = (if unpaired = [] then Some ps
                      else if length (wd_jobs w) \<noteq> length (r_jobs r) then None
                      else if list_ex (\<lambda>(job, jr). \<not> evaluatedName (jb_name job) \<and> jr_jobName jr \<noteq> jb_name job)
                                (zip (wd_jobs w) (r_jobs r)) then None
                      else pair_by_position parsesAsCel w r unpaired ps) in
          case done of
            None \<Rightarrow> None
          | Some ps \<Rightarrow> if distinct (map snd ps) then Some ps else None)"

definition paired :: "pairs option \<Rightarrow> string \<Rightarrow> string option" where
  "paired pairs name = Option.bind pairs (\<lambda>ps. map_of ps name)"

definition workflowJobOf :: "workflow_def \<Rightarrow> job_run \<Rightarrow> pairs option \<Rightarrow> job_def option" where
  "workflowJobOf w jr pairs =
     (case find (\<lambda>j. \<not> evaluatedName (jb_name j) \<and> jb_name j = jr_jobName jr) (wd_jobs w) of
        Some j \<Rightarrow> Some j
      | None \<Rightarrow> find (\<lambda>j. evaluatedName (jb_name j) \<and> paired pairs (jb_name j) = Some (jr_jobName jr)) (wd_jobs w))"

text \<open>The job that now evaluates to another name than the record it was paired with, or to no record.\<close>

definition evaluatedJobMismatch ::
  "workflow_def \<Rightarrow> workflow_def \<Rightarrow> workflow_run \<Rightarrow> string set \<Rightarrow> pairs option \<Rightarrow> (string \<times> string option \<times> string option) option" where
  "evaluatedJobMismatch w resolved r resetJobs pairs =
     (let now = (\<lambda>i. if i < length (wd_jobs resolved) then Some (jb_name (wd_jobs resolved ! i)) else None);
          held = (\<lambda>name. \<exists>p. paired pairs name = Some p \<and> p \<in> resetJobs);
          good = (\<lambda>(i, job). \<not> evaluatedName (jb_name job) \<or>
                    now i \<noteq> None \<and> run_getJob r (the (now i)) \<noteq> None \<and>
                    (\<not> held (jb_name job) \<or> now i = paired pairs (jb_name job))) in
      map_option (\<lambda>(i, job). (jb_name job, now i, if held (jb_name job) then paired pairs (jb_name job) else None))
        (find (\<lambda>ij. \<not> good ij) (enumerate 0 (wd_jobs w))))"

section \<open>Refusals\<close>

datatype resume_problem =
    Step_not_found string
  | Job_not_found string
  | Step_not_in_job string string
  | Step_in_many_jobs string "string list"
  | Unpaired_job string
  | Zero_steps "string option"
  | Step_moved string string string
  | No_longer_forEach string string
  | Job_not_in_run string
  | Job_not_in_workflow string
  | Step_not_in_run string string
  | Reads_shared_step string string "string option"
  | Approval_rejected string string
  | Workflow_changed_at string string
  | Step_not_finished string string run_status
  | Job_not_finished string run_status
  | No_failed_step
  | Job_failed_alone string
  | Step_not_in_workflow string string
  | Step_stored_twice string string

definition unless :: "'e option \<Rightarrow> 'e + 'a \<Rightarrow> 'e + 'a" where
  "unless p k = (case p of Some e \<Rightarrow> Inl e | None \<Rightarrow> k)"

definition first_problem :: "'e option \<Rightarrow> 'e option \<Rightarrow> 'e option" where
  "first_problem p q = (case p of Some e \<Rightarrow> Some e | None \<Rightarrow> q)"

section \<open>Where a resume starts\<close>

definition finished_status :: "run_status \<Rightarrow> bool" where
  "finished_status s \<longleftrightarrow> s \<in> {Succeeded, Failed, Skipped, Unknown}"

definition finishedRecord :: "step_run \<Rightarrow> bool" where
  "finishedRecord s \<longleftrightarrow> finished_status (sr_status s) \<and> \<not> sr_settledByAbort s"

definition finishedJob :: "job_run \<Rightarrow> bool" where
  "finishedJob j \<longleftrightarrow> finished_status (jr_status j) \<and> \<not> holdsAbortedWork j"

record resume_from =
  rf_step :: string
  rf_job :: "string option"

type_synonym step_ref = "string \<times> string"

definition resolveFrom :: "workflow_def \<Rightarrow> resume_from \<Rightarrow> resume_problem + step_ref" where
  "resolveFrom w from =
     (let jobsWithStep = map jb_name (filter (\<lambda>j. job_getStep j (rf_step from) \<noteq> None) (wd_jobs w)) in
      case rf_job from of
        Some name \<Rightarrow>
          (case workflow_getJob w name of
             None \<Rightarrow> Inl (Job_not_found name)
           | Some job \<Rightarrow>
               if job_getStep job (rf_step from) = None
               then Inl (if jobsWithStep = [] then Step_not_found (rf_step from) else Step_not_in_job (rf_step from) name)
               else Inr (jb_name job, rf_step from))
      | None \<Rightarrow>
          if jobsWithStep = [] then Inl (Step_not_found (rf_step from))
          else if 1 < length jobsWithStep then Inl (Step_in_many_jobs (rf_step from) jobsWithStep)
          else Inr (hd jobsWithStep, rf_step from))"

definition ref_key :: "step_ref \<Rightarrow> string" where
  "ref_key ref = stepRunKey (fst ref) (snd ref)"

text \<open>The edges from a step to those after it, in the order the code adds them.\<close>

definition step_edges :: "job_def \<Rightarrow> (string \<times> string) list" where
  "step_edges job =
     concat (map (\<lambda>s. map (\<lambda>dep. (stepRunKey (jb_name job) dep, stepRunKey (jb_name job) (st_name s)))
                         (step_getDependencyNames s)) (jb_steps job))"

definition job_edges :: "workflow_def \<Rightarrow> job_def \<Rightarrow> (string \<times> string) list" where
  "job_edges w job =
     concat (map (\<lambda>depName.
       case find (\<lambda>j. jb_name j = depName) (wd_jobs w) of
         None \<Rightarrow> []
       | Some depJob \<Rightarrow>
           concat (map (\<lambda>depStep. map (\<lambda>s. (stepRunKey (jb_name depJob) (st_name depStep), stepRunKey (jb_name job) (st_name s)))
                                    (jb_steps job)) (jb_steps depJob))) (job_getDependencyNames job))"

definition reset_edges :: "workflow_def \<Rightarrow> (string \<times> string) list" where
  "reset_edges w = concat (map (\<lambda>job. step_edges job @ job_edges w job) (wd_jobs w))"

type_synonym downstream = "(string \<times> string list) list"

definition add_downstream :: "string \<times> string \<Rightarrow> downstream \<Rightarrow> downstream" where
  "add_downstream e m =
     (let ds = (case map_of m (fst e) of None \<Rightarrow> [] | Some ds \<Rightarrow> ds) in
      AList.update (fst e) (if snd e \<in> set ds then ds else ds @ [snd e]) m)"

definition downstreams :: "downstream \<Rightarrow> string \<Rightarrow> string list" where
  "downstreams m k = (case map_of m k of None \<Rightarrow> [] | Some ds \<Rightarrow> ds)"

text \<open>The queue of \<^verbatim>\<open>templatesToReset\<close>: the keys to visit and those visited, in order.\<close>

function reset_loop :: "downstream \<Rightarrow> string list \<Rightarrow> string list \<Rightarrow> string list" where
  "reset_loop m [] reset = reset"
| "reset_loop m (current # queue) reset =
     (if current \<in> set reset then reset_loop m queue reset
      else reset_loop m (queue @ filter (\<lambda>d. d \<notin> set (reset @ [current])) (downstreams m current)) (reset @ [current]))"
  by pat_completeness auto

definition all_downstream :: "downstream \<Rightarrow> string set" where
  "all_downstream m = \<Union> (set ` snd ` set m)"

lemma downstreams_in_all: "set (downstreams m k) \<subseteq> all_downstream m"
  by (cases "map_of m k") (force simp: downstreams_def all_downstream_def dest: map_of_SomeD)+

definition to_visit :: "downstream \<Rightarrow> string list \<Rightarrow> string list \<Rightarrow> nat" where
  "to_visit m queue reset = card ((set queue \<union> all_downstream m) - set reset)"

lemma to_visit_skip: "current \<in> set reset \<Longrightarrow> to_visit m (current # queue) reset = to_visit m queue reset"
  unfolding to_visit_def by (rule arg_cong [where f = card]) auto

lemma to_visit_less:
  assumes "current \<notin> set reset"
  shows "to_visit m (queue @ filter P (downstreams m current)) (reset @ [current]) < to_visit m (current # queue) reset"
  unfolding to_visit_def
proof (rule psubset_card_mono)
  have "finite (all_downstream m)" by (simp add: all_downstream_def)
  then show "finite ((set (current # queue) \<union> all_downstream m) - set reset)" by simp
  show "(set (queue @ filter P (downstreams m current)) \<union> all_downstream m) - set (reset @ [current])
      \<subset> (set (current # queue) \<union> all_downstream m) - set reset"
    using assms downstreams_in_all [of m current] by auto
qed

termination reset_loop
  by (relation "measures [\<lambda>(m, queue, reset). to_visit m queue reset, \<lambda>(m, queue, reset). length queue]")
    (auto simp: to_visit_skip to_visit_less)

definition templatesToReset :: "workflow_def \<Rightarrow> step_ref list \<Rightarrow> string list" where
  "templatesToReset w entries = reset_loop (fold add_downstream (reset_edges w) []) (map ref_key entries) []"

definition unpairedExpressionJob :: "workflow_def \<Rightarrow> pairs option \<Rightarrow> string list \<Rightarrow> resume_problem option" where
  "unpairedExpressionJob w pairs keys =
     (if pairs \<noteq> None then None
      else map_option (\<lambda>j. Unpaired_job (jb_name j))
        (find (\<lambda>j. evaluatedName (jb_name j) \<and> list_ex (\<lambda>s. stepRunKey (jb_name j) (st_name s) \<in> set keys) (jb_steps j))
           (wd_jobs w)))"

section \<open>Which records are reset\<close>

datatype reset_branch = By_name | By_template | By_prefix | By_settled

record selected_record =
  se_jobName :: string
  se_stepName :: string
  se_forEachTemplate :: "string option"
  se_branch :: reset_branch

definition matchRecord :: "string list \<Rightarrow> job_def \<Rightarrow> step_run \<Rightarrow> reset_branch option" where
  "matchRecord keys job s =
     (let resets = (\<lambda>name. stepRunKey (jb_name job) name \<in> set keys); name = sr_stepName s in
      if resets name then Some By_name
      else if truthy (sr_forEachTemplate s) \<and> resets (the (sr_forEachTemplate s)) then Some By_template
      else if job_getStep job name \<noteq> None then None
      else if list_ex (\<lambda>t. st_forEach t \<noteq> None \<and> resets (st_name t) \<and> js_startsWith name (st_name t @ ''-'')) (jb_steps job)
      then Some By_prefix else None)"

definition select_in_job :: "workflow_def \<Rightarrow> pairs option \<Rightarrow> string list \<Rightarrow> job_run \<Rightarrow> selected_record list" where
  "select_in_job w pairs keys jr =
     (case workflowJobOf w jr pairs of
        None \<Rightarrow> []
      | Some job \<Rightarrow>
          List.map_filter (\<lambda>s. map_option (\<lambda>b. \<lparr>se_jobName = jr_jobName jr, se_stepName = sr_stepName s,
                                                se_forEachTemplate = sr_forEachTemplate s, se_branch = b\<rparr>)
                                 (matchRecord keys job s)) (jr_steps jr))"

definition selectResetRecords :: "workflow_def \<Rightarrow> workflow_run \<Rightarrow> pairs option \<Rightarrow> string list \<Rightarrow> selected_record list" where
  "selectResetRecords w r pairs keys = concat (map (select_in_job w pairs keys) (r_jobs r))"

definition selected_ref :: "selected_record \<Rightarrow> step_ref" where
  "selected_ref se = (se_jobName se, se_stepName se)"

definition computeStepsToReset :: "(string \<Rightarrow> bool) \<Rightarrow> workflow_def \<Rightarrow> workflow_run \<Rightarrow> resume_from \<Rightarrow> resume_problem + step_ref list" where
  "computeStepsToReset parsesAsCel w r from =
     (let pairs = pairExpressionJobs parsesAsCel w r in
      case resolveFrom w from of
        Inl e \<Rightarrow> Inl e
      | Inr entry \<Rightarrow>
          let keys = templatesToReset w [entry] in
          unless (unpairedExpressionJob w pairs keys)
            (let steps = map selected_ref (selectResetRecords w r pairs keys) in
             if steps = [] then Inl (Zero_steps (Some (rf_step from))) else Inr steps))"

section \<open>What changed since the run\<close>

definition movedOrChanged :: "workflow_def \<Rightarrow> string \<Rightarrow> string \<Rightarrow> resume_problem" where
  "movedOrChanged w step job =
     (case find (\<lambda>j. list_ex (\<lambda>s. st_name s = step) (jb_steps j)) (wd_jobs w) of
        Some now \<Rightarrow> if jb_name now \<noteq> job then Step_moved step job (jb_name now) else No_longer_forEach step job
      | None \<Rightarrow> No_longer_forEach step job)"

definition holds_step :: "string \<Rightarrow> job_run \<Rightarrow> bool" where
  "holds_step name jr \<longleftrightarrow> list_ex (\<lambda>s. sr_stepName s = name \<or> sr_forEachTemplate s = Some name) (jr_steps jr)"

text \<open>An iteration stored before its template was recorded: a record named after it that is no step of the job.\<close>

definition legacy_iteration :: "job_def \<Rightarrow> string \<Rightarrow> job_run \<Rightarrow> bool" where
  "legacy_iteration job name jr \<longleftrightarrow>
     list_ex (\<lambda>s. sr_forEachTemplate s = None \<and> js_startsWith (sr_stepName s) (name @ ''-'') \<and>
                  job_getStep job (sr_stepName s) = None) (jr_steps jr)"

definition declares_forEach :: "job_def \<Rightarrow> string \<Rightarrow> bool" where
  "declares_forEach job name = (case job_getStep job name of Some s \<Rightarrow> st_forEach s \<noteq> None | None \<Rightarrow> False)"

definition has_evaluated_job :: "workflow_def \<Rightarrow> bool" where
  "has_evaluated_job w = list_ex (\<lambda>j. evaluatedName (jb_name j)) (wd_jobs w)"

definition movedEntry :: "workflow_def \<Rightarrow> workflow_run \<Rightarrow> pairs option \<Rightarrow> step_ref \<Rightarrow> resume_problem option" where
  "movedEntry w r pairs entry =
     (let name = snd entry;
          ownName = (if evaluatedName (fst entry) then paired pairs (fst entry) else Some (fst entry)) in
      case Option.bind ownName (run_getJob r) of
        None \<Rightarrow> None
      | Some own \<Rightarrow>
          if holds_step name own then None
          else if (case workflow_getJob w (fst entry) of
                     Some job \<Rightarrow> declares_forEach job name \<and> legacy_iteration job name own
                   | None \<Rightarrow> False) then None
          else
            map_option (\<lambda>jr. Step_moved name (jr_jobName jr) (fst entry))
              (find (\<lambda>jr. case workflowJobOf w jr pairs of
                            None \<Rightarrow> \<not> (has_evaluated_job w \<and> pairs = None) \<and> jr \<noteq> own \<and> holds_step name jr
                          | Some job \<Rightarrow> jr \<noteq> own \<and> job_getStep job name = None \<and> holds_step name jr) (r_jobs r)))"

definition missingJob :: "workflow_def \<Rightarrow> workflow_run \<Rightarrow> resume_problem option" where
  "missingJob w r =
     map_option (\<lambda>j. Job_not_in_run (jb_name j))
       (find (\<lambda>j. \<not> evaluatedName (jb_name j) \<and> run_getJob r (jb_name j) = None) (wd_jobs w))"

definition missing_in_job :: "workflow_def \<Rightarrow> workflow_run \<Rightarrow> job_def \<Rightarrow> job_run \<Rightarrow> step_def \<Rightarrow> resume_problem option" where
  "missing_in_job w r job jr s =
     (if st_forEach s \<noteq> None \<or> evaluatedName (st_name s) \<or> getStep jr (st_name s) \<noteq> None then None
      else Some
        (case find (\<lambda>j. getStep j (st_name s) \<noteq> None \<and>
                        (case workflow_getJob w (jr_jobName j) of None \<Rightarrow> True | Some d \<Rightarrow> job_getStep d (st_name s) = None))
                (r_jobs r) of
           Some stored \<Rightarrow> Step_moved (st_name s) (jr_jobName stored) (jb_name job)
         | None \<Rightarrow> Step_not_in_run (st_name s) (jb_name job)))"

text \<open>Asked only once every literal job is known to be in the run.\<close>

definition missingStep :: "workflow_def \<Rightarrow> workflow_run \<Rightarrow> (job_run \<Rightarrow> bool) \<Rightarrow> resume_problem option" where
  "missingStep w r reentered =
     fold (\<lambda>job found. first_problem found
             (if evaluatedName (jb_name job) then None
              else case run_getJob r (jb_name job) of
                     None \<Rightarrow> None
                   | Some jr \<Rightarrow>
                       if \<not> reentered jr then None
                       else fold (\<lambda>s found. first_problem found (missing_in_job w r job jr s)) (jb_steps job) None))
       (wd_jobs w) None"

definition recordsStep :: "job_run option \<Rightarrow> job_def \<Rightarrow> string \<Rightarrow> bool" where
  "recordsStep jr job name =
     (case jr of
        None \<Rightarrow> False
      | Some j \<Rightarrow>
          holds_step name j \<or>
          declares_forEach job name \<and> (jr_status j \<noteq> Pending \<or> legacy_iteration job name j))"

definition moved_record :: "workflow_def \<Rightarrow> workflow_run \<Rightarrow> job_run \<Rightarrow> step_run \<Rightarrow> resume_problem option" where
  "moved_record w r jr s =
     (if finishedRecord s then None
      else
        let name = or_else (sr_stepName s) (sr_forEachTemplate s);
            own = Option.bind (workflow_getJob w (jr_jobName jr)) (\<lambda>j. job_getStep j name) in
        case own of
          Some o' \<Rightarrow> if sr_forEachTemplate s = None \<or> st_forEach o' \<noteq> None then None
                     else Some (No_longer_forEach name (jr_jobName jr))
        | None \<Rightarrow>
            map_option (\<lambda>now. Step_moved name (jr_jobName jr) (jb_name now))
              (find (\<lambda>j. \<not> evaluatedName (jb_name j) \<and> job_getStep j name \<noteq> None \<and>
                         \<not> recordsStep (run_getJob r (jb_name j)) j name) (wd_jobs w)))"

definition movedUnfinishedStep :: "workflow_def \<Rightarrow> workflow_run \<Rightarrow> resume_problem option" where
  "movedUnfinishedStep w r =
     fold (\<lambda>jr found. first_problem found
             (if finishedJob jr \<or> workflow_getJob w (jr_jobName jr) = None \<and> has_evaluated_job w then None
              else fold (\<lambda>s found. first_problem found (moved_record w r jr s)) (jr_steps jr) None))
       (r_jobs r) None"

definition removedUnfinishedJob :: "workflow_def \<Rightarrow> workflow_run \<Rightarrow> resume_problem option" where
  "removedUnfinishedJob w r =
     (if has_evaluated_job w then None
      else map_option (\<lambda>j. Job_not_in_workflow (jr_jobName j))
        (find (\<lambda>j. \<not> finishedJob j \<and> workflow_getJob w (jr_jobName j) = None) (r_jobs r)))"

definition checkSuspendedRunResume :: "workflow_def \<Rightarrow> workflow_run \<Rightarrow> resume_problem option" where
  "checkSuspendedRunResume w r =
     first_problem (missingJob w r)
       (first_problem (movedUnfinishedStep w r)
         (first_problem (removedUnfinishedJob w r) (missingStep w r (\<lambda>jr. \<not> finishedJob jr))))"

section \<open>Retrying what failed\<close>

definition terminal_status :: "run_status \<Rightarrow> bool" where
  "terminal_status s \<longleftrightarrow> s \<in> {Succeeded, Failed, Skipped}"

definition entryTemplateOf :: "failed_step_ref \<Rightarrow> string" where
  "entryTemplateOf f = or_else (fr_stepName f) (fr_forEachTemplate f)"

text \<open>The job a \<^verbatim>\<open>--from\<close> needs when its step is in more than one.\<close>

definition fromJobFor :: "(string \<Rightarrow> bool) \<Rightarrow> workflow_def \<Rightarrow> workflow_run \<Rightarrow> string \<Rightarrow> string \<Rightarrow> string option" where
  "fromJobFor parsesAsCel w r jobName template =
     (if length (filter (\<lambda>j. job_getStep j template \<noteq> None) (wd_jobs w)) < 2 then None
      else case Option.bind (run_getJob r jobName) (\<lambda>jr. workflowJobOf w jr (pairExpressionJobs parsesAsCel w r)) of
             Some job \<Rightarrow> if job_getStep job template \<noteq> None then Some (jb_name job) else None
           | None \<Rightarrow> None)"

text \<open>The first step or job, in the order of the run, that has not ended.\<close>

definition unended :: "job_run \<Rightarrow> resume_problem option" where
  "unended jr =
     (case find (\<lambda>s. \<not> terminal_status (sr_status s)) (jr_steps jr) of
        Some s \<Rightarrow> Some (Step_not_finished (sr_stepName s) (jr_jobName jr) (sr_status s))
      | None \<Rightarrow> if terminal_status (jr_status jr) then None else Some (Job_not_finished (jr_jobName jr) (jr_status jr)))"

fun first_some :: "('a \<Rightarrow> 'b option) \<Rightarrow> 'a list \<Rightarrow> 'b option" where
  "first_some f [] = None"
| "first_some f (x # xs) = (case f x of Some y \<Rightarrow> Some y | None \<Rightarrow> first_some f xs)"

fun firstDuplicate :: "string list \<Rightarrow> string list \<Rightarrow> string option" where
  "firstDuplicate seen [] = None"
| "firstDuplicate seen (n # ns) = (if n \<in> set seen then Some n else firstDuplicate (n # seen) ns)"

definition add_new :: "'a \<Rightarrow> 'a list \<Rightarrow> 'a list" where
  "add_new x xs = (if x \<in> set xs then xs else xs @ [x])"

definition retry_entry :: "workflow_def \<Rightarrow> workflow_run \<Rightarrow> pairs option \<Rightarrow> failed_step_ref \<Rightarrow> step_ref option" where
  "retry_entry w r pairs f =
     (case Option.bind (run_getJob r (fr_jobName f)) (\<lambda>jr. workflowJobOf w jr pairs) of
        Some job \<Rightarrow> if job_getStep job (entryTemplateOf f) \<noteq> None then Some (jb_name job, entryTemplateOf f) else None
      | None \<Rightarrow> None)"

definition selectRetryTemplates :: "(string \<Rightarrow> bool) \<Rightarrow> workflow_def \<Rightarrow> workflow_run \<Rightarrow> resume_problem + step_ref list" where
  "selectRetryTemplates parsesAsCel w r =
     (let failed = failedSteps r; pairs = pairExpressionJobs parsesAsCel w r in
      unless (map_option (\<lambda>f. Approval_rejected (fr_stepName f) (fr_jobName f)) (find fr_approvalRejected failed))
     (unless (map_option (\<lambda>f. Workflow_changed_at (entryTemplateOf f) (fr_jobName f))
                (find (\<lambda>f. fr_failureKind f = Some Workflow_changed) failed))
     (unless (first_some unended (r_jobs r))
     (if failed = [] then Inl No_failed_step else
      unless (map_option (\<lambda>j. Job_failed_alone (jr_jobName j))
                (find (\<lambda>j. jr_status j = Failed \<and> jr_jobName j \<notin> set (map fr_jobName failed)) (r_jobs r)))
     (unless (map_option (\<lambda>f. Step_not_in_workflow (fr_stepName f) (fr_jobName f))
                (find (\<lambda>f. retry_entry w r pairs f = None) failed))
     (unless (first_some (\<lambda>j. map_option (\<lambda>n. Step_stored_twice n (jr_jobName j)) (firstDuplicate [] (map sr_stepName (jr_steps j))))
                (r_jobs r))
     (Inr (fold (\<lambda>f. add_new (the (retry_entry w r pairs f))) failed []))))))))"

section \<open>The plan of a resume\<close>

text \<open>
  \<open>reads\<close> gives, for each expression of the definition, the positions of the steps it stands in, the
  step names it reads of \<^verbatim>\<open>steps\<close> and whether it reads \<^verbatim>\<open>steps\<close> by a computed key.
\<close>

type_synonym expression_reads = "((nat \<times> nat) list \<times> string list \<times> bool) list"

definition sharedNames :: "string list list \<Rightarrow> string list" where
  "sharedNames jobs = filter (\<lambda>n. 1 < length (filter (\<lambda>ns. n \<in> set ns) jobs)) (remdups (concat jobs))"

definition step_at :: "workflow_def \<Rightarrow> nat \<times> nat \<Rightarrow> (job_def \<times> step_def) option" where
  "step_at w p =
     (if fst p < length (wd_jobs w) \<and> snd p < length (jb_steps (wd_jobs w ! fst p))
      then Some (wd_jobs w ! fst p, jb_steps (wd_jobs w ! fst p) ! snd p) else None)"

definition sharedStepRead ::
  "(workflow_def \<Rightarrow> expression_reads) \<Rightarrow> workflow_def \<Rightarrow> workflow_run \<Rightarrow> string list \<Rightarrow> resume_problem option" where
  "sharedStepRead reads w r rerunKeys =
     (let shared = sharedNames (map (\<lambda>j. map st_name (jb_steps j)) (wd_jobs w)) @
                   sharedNames (map (\<lambda>j. map sr_stepName (jr_steps j)) (r_jobs r)) in
      if shared = [] then None
      else first_some (\<lambda>(paths, targets, wide).
             let found = find (\<lambda>n. n \<in> set shared) targets in
             if found = None \<and> \<not> wide then None
             else first_some (\<lambda>p. case step_at w p of
                                   None \<Rightarrow> None
                                 | Some (job, s) \<Rightarrow>
                                     if stepRunKey (jb_name job) (st_name s) \<in> set rerunKeys
                                     then Some (Reads_shared_step (st_name s) (jb_name job) found) else None) paths)
             (reads w))"

record resume_reset =
  rr_steps :: "step_ref list"
  rr_tracked :: "step_ref list"
  rr_pairs :: "pairs option"

text \<open>The records an abort settled that the reset does not reach.\<close>

definition settled_records :: "workflow_run \<Rightarrow> selected_record list \<Rightarrow> selected_record list" where
  "settled_records r selected =
     concat (map (\<lambda>jr. map (\<lambda>s. \<lparr>se_jobName = jr_jobName jr, se_stepName = sr_stepName s,
                                  se_forEachTemplate = sr_forEachTemplate s, se_branch = By_settled\<rparr>)
                        (filter (\<lambda>s. sr_settledByAbort s \<and> (jr_jobName jr, sr_stepName s) \<notin> set (map selected_ref selected))
                           (jr_steps jr))) (r_jobs r))"

definition job_of_selected :: "workflow_def \<Rightarrow> workflow_run \<Rightarrow> pairs option \<Rightarrow> selected_record \<Rightarrow> job_def option" where
  "job_of_selected w r pairs se = Option.bind (run_getJob r (se_jobName se)) (\<lambda>jr. workflowJobOf w jr pairs)"

definition settled_key :: "workflow_def \<Rightarrow> workflow_run \<Rightarrow> pairs option \<Rightarrow> selected_record \<Rightarrow> string option" where
  "settled_key w r pairs se =
     (case job_of_selected w r pairs se of
        None \<Rightarrow> None
      | Some job \<Rightarrow>
          let template = (case se_forEachTemplate se of
                            Some t \<Rightarrow> if job_getStep job t \<noteq> None then t else se_stepName se
                          | None \<Rightarrow> se_stepName se) in
          if job_getStep job template \<noteq> None then Some (stepRunKey (jb_name job) template) else None)"

definition track_record ::
  "workflow_def \<Rightarrow> workflow_run \<Rightarrow> pairs option \<Rightarrow> selected_record \<Rightarrow> resume_problem + step_ref option" where
  "track_record w r pairs se =
     (let ownJob = job_of_selected w r pairs se;
          ownStep = (\<lambda>n. Option.bind ownJob (\<lambda>j. job_getStep j n));
          fromTemplate = (case se_forEachTemplate se of
                            Some t \<Rightarrow> (case ownStep t of Some s \<Rightarrow> st_forEach s \<noteq> None | None \<Rightarrow> False)
                          | None \<Rightarrow> False);
          own = (ownStep (se_stepName se) \<noteq> None \<or> fromTemplate) in
      case se_branch se of
        By_prefix \<Rightarrow> Inr None
      | b \<Rightarrow>
          if ownJob = None \<and> has_evaluated_job w then Inr None
          else if b = By_settled then Inr (if own then Some (selected_ref se) else None)
          else if b = By_name
          then (if own then Inr (Some (selected_ref se)) else Inl (movedOrChanged w (se_stepName se) (se_jobName se)))
          else if fromTemplate then Inr (Some (selected_ref se))
          else Inl (movedOrChanged w (the (se_forEachTemplate se)) (se_jobName se)))"

fun track_all ::
  "workflow_def \<Rightarrow> workflow_run \<Rightarrow> pairs option \<Rightarrow> selected_record list \<Rightarrow> resume_problem + step_ref list" where
  "track_all w r pairs [] = Inr []"
| "track_all w r pairs (se # ses) =
     (case track_record w r pairs se of
        Inl e \<Rightarrow> Inl e
      | Inr t \<Rightarrow> (case track_all w r pairs ses of Inl e \<Rightarrow> Inl e | Inr ts \<Rightarrow> Inr (case t of None \<Rightarrow> ts | Some x \<Rightarrow> x # ts)))"

definition resume_entries ::
  "(string \<Rightarrow> bool) \<Rightarrow> workflow_def \<Rightarrow> workflow_run \<Rightarrow> resume_from option \<Rightarrow> resume_problem + step_ref list" where
  "resume_entries parsesAsCel w r from =
     (case from of
        Some f \<Rightarrow> (case resolveFrom w f of Inl e \<Rightarrow> Inl e | Inr entry \<Rightarrow> Inr [entry])
      | None \<Rightarrow> selectRetryTemplates parsesAsCel w r)"

definition planFailedRunResume ::
  "(string \<Rightarrow> bool) \<Rightarrow> (workflow_def \<Rightarrow> expression_reads) \<Rightarrow> workflow_def \<Rightarrow> workflow_run \<Rightarrow> resume_from option
   \<Rightarrow> resume_problem + resume_reset" where
  "planFailedRunResume parsesAsCel reads w r from =
     (let pairs = pairExpressionJobs parsesAsCel w r in
      case resume_entries parsesAsCel w r from of
        Inl e \<Rightarrow> Inl e
      | Inr entries \<Rightarrow>
          unless (first_problem (missingJob w r) (removedUnfinishedJob w r))
         (unless (if from = None then None else movedEntry w r pairs (hd entries))
         (let keys = templatesToReset w entries in
          unless (unpairedExpressionJob w pairs keys)
         (let selected = selectResetRecords w r pairs keys;
              steps = map selected_ref selected;
              settled = settled_records r selected in
          if selected = [] then Inl (Zero_steps (map_option rf_step from))
          else
            unless (sharedStepRead reads w r (keys @ List.map_filter (settled_key w r pairs) settled))
           (case track_all w r pairs (selected @ settled) of
              Inl e \<Rightarrow> Inl e
            | Inr tracked \<Rightarrow>
                unless (missingStep w r (\<lambda>jr. \<not> finishedJob jr \<or> jr_jobName jr \<in> set (map fst steps)))
                  (Inr \<lparr>rr_steps = steps, rr_tracked = tracked, rr_pairs = pairs\<rparr>))))))"

section \<open>Recovering an interrupted run\<close>

record recovery_assessment =
  ra_canAutoRecover :: bool
  ra_guardedSteps :: "string list"
  ra_unguardedSteps :: "string list"
  ra_fingerprintMismatch :: bool

definition fingerprint_mismatch :: "string \<Rightarrow> run_plan option \<Rightarrow> bool" where
  "fingerprint_mismatch current plan =
     (case plan of
        None \<Rightarrow> False
      | Some p \<Rightarrow>
          if pl_fingerprint p = [] then False
          else (case pl_definitionFingerprint p of Some d \<Rightarrow> current \<noteq> d | None \<Rightarrow> current \<noteq> pl_fingerprint p))"

definition guarded :: "job_def option \<Rightarrow> step_run \<Rightarrow> bool" where
  "guarded job s =
     (let ownStep = (\<lambda>n. Option.bind job (\<lambda>j. job_getStep j n));
          template = Option.bind (sr_forEachTemplate s) ownStep;
          step = (case template of
                    Some t \<Rightarrow> if st_forEach t \<noteq> None then Some t else ownStep (sr_stepName s)
                  | None \<Rightarrow> ownStep (sr_stepName s)) in
      case step of Some t \<Rightarrow> truthy (st_guard t) | None \<Rightarrow> False)"

definition assessRecoveryForRun :: "(workflow_def \<Rightarrow> string) \<Rightarrow> workflow_def \<Rightarrow> workflow_run \<Rightarrow> recovery_assessment" where
  "assessRecoveryForRun fingerprint w r =
     (let mismatch = fingerprint_mismatch (fingerprint w) (r_runPlan r);
          unknown = concat (map (\<lambda>jr. map (\<lambda>s. (sr_stepName s, guarded (workflow_getJob w (jr_jobName jr)) s))
                                       (filter (\<lambda>s. sr_status s = Unknown) (jr_steps jr))) (r_jobs r));
          unguarded = map fst (filter (\<lambda>u. \<not> snd u) unknown) in
      \<lparr>ra_canAutoRecover = (\<not> mismatch \<and> unguarded = []),
       ra_guardedSteps = map fst (filter snd unknown), ra_unguardedSteps = unguarded,
       ra_fingerprintMismatch = mismatch\<rparr>)"

definition findInterruptedRun :: "workflow_run list \<Rightarrow> string option \<Rightarrow> workflow_run option" where
  "findInterruptedRun allRuns targetRunId =
     (let interrupted = filter (\<lambda>r. r_status r = R_interrupted) allRuns in
      if interrupted = [] then None
      else if truthy targetRunId then find (\<lambda>r. r_id r = the targetRunId) interrupted
      else Some (hd (sort_key (\<lambda>r. - or_else 0 (r_startedAt r)) interrupted)))"

section \<open>What comes after a step\<close>

text \<open>
  A step comes after those it depends on in its job, and after every step of the jobs its job depends
  on.
\<close>

definition runs_after :: "workflow_def \<Rightarrow> step_ref \<Rightarrow> step_ref \<Rightarrow> bool" where
  "runs_after w a b \<longleftrightarrow>
     (\<exists>job\<in>set (wd_jobs w). \<exists>s\<in>set (jb_steps job).
        b = (jb_name job, st_name s) \<and>
        (fst a = jb_name job \<and> snd a \<in> set (step_getDependencyNames s) \<or>
         fst a \<in> set (job_getDependencyNames job) \<and>
         (\<exists>dep t. find (\<lambda>j. jb_name j = fst a) (wd_jobs w) = Some dep \<and> t \<in> set (jb_steps dep) \<and> snd a = st_name t)))"

lemma ref_key_inject [simp]: "ref_key a = ref_key b \<longleftrightarrow> a = b"
  by (cases a; cases b) (simp add: ref_key_def)

lemma step_edges_iff:
  "e \<in> set (step_edges job) \<longleftrightarrow>
     (\<exists>s\<in>set (jb_steps job). \<exists>dep\<in>set (step_getDependencyNames s).
        e = (ref_key (jb_name job, dep), ref_key (jb_name job, st_name s)))"
  by (auto simp: step_edges_def ref_key_def)

lemma job_edges_iff:
  "e \<in> set (job_edges w job) \<longleftrightarrow>
     (\<exists>n\<in>set (job_getDependencyNames job). \<exists>dep. find (\<lambda>j. jb_name j = n) (wd_jobs w) = Some dep \<and>
        (\<exists>t\<in>set (jb_steps dep). \<exists>s\<in>set (jb_steps job). e = (ref_key (n, st_name t), ref_key (jb_name job, st_name s))))"
proof -
  have name: "jb_name dep = n" if "find (\<lambda>j. jb_name j = n) (wd_jobs w) = Some dep" for n dep
    using that by (auto simp: find_Some_iff)
  have one: "e \<in> set (case find (\<lambda>j. jb_name j = n) (wd_jobs w) of
         None \<Rightarrow> []
       | Some dep \<Rightarrow> concat (map (\<lambda>t. map (\<lambda>s. (stepRunKey (jb_name dep) (st_name t), stepRunKey (jb_name job) (st_name s)))
                                       (jb_steps job)) (jb_steps dep))) \<longleftrightarrow>
     (\<exists>dep. find (\<lambda>j. jb_name j = n) (wd_jobs w) = Some dep \<and>
        (\<exists>t\<in>set (jb_steps dep). \<exists>s\<in>set (jb_steps job). e = (ref_key (n, st_name t), ref_key (jb_name job, st_name s))))" for n
  proof (cases "find (\<lambda>j. jb_name j = n) (wd_jobs w)")
    case None
    then show ?thesis by simp
  next
    case (Some dep)
    then show ?thesis using name [OF Some] by (auto simp: ref_key_def)
  qed
  show ?thesis
    unfolding job_edges_def set_concat set_map UN_iff image_iff one [symmetric] by blast
qed

lemma reset_edges_iff:
  "e \<in> set (reset_edges w) \<longleftrightarrow> (\<exists>a b. e = (ref_key a, ref_key b) \<and> runs_after w a b)"
proof -
  have "e \<in> set (reset_edges w) \<longleftrightarrow> (\<exists>job\<in>set (wd_jobs w). e \<in> set (step_edges job) \<or> e \<in> set (job_edges w job))"
    by (auto simp: reset_edges_def)
  also have "\<dots> \<longleftrightarrow> (\<exists>a b. e = (ref_key a, ref_key b) \<and> runs_after w a b)"
    unfolding step_edges_iff job_edges_iff runs_after_def by (cases e) (fastforce simp: split_paired_Ex)
  finally show ?thesis .
qed

lemma downstreams_add:
  "set (downstreams (add_downstream e m) k) = set (downstreams m k) \<union> (if k = fst e then {snd e} else {})"
  by (auto simp: downstreams_def add_downstream_def Let_def update_conv split: option.splits)

lemma downstreams_fold:
  "set (downstreams (fold add_downstream es m) k) = set (downstreams m k) \<union> {d. (k, d) \<in> set es}"
  by (induction es arbitrary: m) (auto simp: downstreams_add split: if_splits)

text \<open>The queue visits what its keys lead to.\<close>

definition leads_to :: "downstream \<Rightarrow> (string \<times> string) set" where
  "leads_to m = {(a, b). b \<in> set (downstreams m a)}"

lemma reset_loop_keeps: "set reset \<union> set queue \<subseteq> set (reset_loop m queue reset)"
  by (induction m queue reset rule: reset_loop.induct) auto

lemma reset_loop_within: "set (reset_loop m queue reset) \<subseteq> set reset \<union> (leads_to m)\<^sup>* `` set queue"
proof (induction m queue reset rule: reset_loop.induct)
  case (1 m reset)
  then show ?case by simp
next
  case (2 m current queue reset)
  show ?case
  proof (cases "current \<in> set reset")
    case True
    then show ?thesis using 2 by auto
  next
    case False
    have later: "(current, y) \<in> (leads_to m)\<^sup>*" if "d \<in> set (downstreams m current)" "(d, y) \<in> (leads_to m)\<^sup>*" for d y
      using that by (auto simp: leads_to_def intro: converse_rtrancl_into_rtrancl)
    have "set (reset_loop m (current # queue) reset) \<subseteq> set (reset @ [current]) \<union>
        (leads_to m)\<^sup>* `` set (queue @ filter (\<lambda>d. d \<notin> set (reset @ [current])) (downstreams m current))"
      using 2(2) [OF False] False by simp
    also have "\<dots> \<subseteq> set reset \<union> (leads_to m)\<^sup>* `` set (current # queue)"
      using later by auto
    finally show ?thesis .
  qed
qed

lemma reset_loop_closed:
  "\<forall>x\<in>set reset. set (downstreams m x) \<subseteq> set reset \<union> set queue \<Longrightarrow> x \<in> set (reset_loop m queue reset) \<Longrightarrow>
     set (downstreams m x) \<subseteq> set (reset_loop m queue reset)"
proof (induction m queue reset rule: reset_loop.induct)
  case (1 m reset)
  then show ?case by auto
next
  case (2 m current queue reset)
  show ?case
  proof (cases "current \<in> set reset")
    case True
    with 2 show ?thesis by auto
  next
    case False
    let ?queue = "queue @ filter (\<lambda>d. d \<notin> set (reset @ [current])) (downstreams m current)"
    have "\<forall>x\<in>set (reset @ [current]). set (downstreams m x) \<subseteq> set (reset @ [current]) \<union> set ?queue"
      using "2.prems"(1) by auto
    from "2.IH"(2) [OF False this] "2.prems"(2) False show ?thesis by simp
  qed
qed

lemma reset_loop_reaches: "set (reset_loop m queue []) = (leads_to m)\<^sup>* `` set queue"
proof
  show "set (reset_loop m queue []) \<subseteq> (leads_to m)\<^sup>* `` set queue"
    using reset_loop_within [of m queue "[]"] by simp
  have "y \<in> set (reset_loop m queue [])" if "(x, y) \<in> (leads_to m)\<^sup>*" "x \<in> set queue" for x y
    using that
  proof (induction rule: rtrancl_induct)
    case base
    then show ?case using reset_loop_keeps [of "[]" queue m] by auto
  next
    case (step y z)
    then show ?case using reset_loop_closed [of "[]" m queue y] by (auto simp: leads_to_def)
  qed
  then show "(leads_to m)\<^sup>* `` set queue \<subseteq> set (reset_loop m queue [])" by blast
qed

definition key_pairs :: "(step_ref \<Rightarrow> step_ref \<Rightarrow> bool) \<Rightarrow> (string \<times> string) set" where
  "key_pairs R = {(x, y). \<exists>a b. x = ref_key a \<and> y = ref_key b \<and> R a b}"

lemma rtrancl_ref_key: "(ref_key a, k) \<in> (key_pairs R)\<^sup>* \<longleftrightarrow> (\<exists>b. k = ref_key b \<and> R\<^sup>*\<^sup>* a b)"
proof
  assume "(ref_key a, k) \<in> (key_pairs R)\<^sup>*"
  then show "\<exists>b. k = ref_key b \<and> R\<^sup>*\<^sup>* a b"
    by (induction rule: rtrancl_induct) (auto simp: key_pairs_def intro: rtranclp.rtrancl_into_rtrancl)
next
  assume "\<exists>b. k = ref_key b \<and> R\<^sup>*\<^sup>* a b"
  then obtain b where b: "k = ref_key b" "R\<^sup>*\<^sup>* a b" by blast
  from b(2) have "(ref_key a, ref_key b) \<in> (key_pairs R)\<^sup>*"
    by (induction rule: rtranclp_induct) (auto simp: key_pairs_def intro: rtrancl_into_rtrancl)
  with b(1) show "(ref_key a, k) \<in> (key_pairs R)\<^sup>*" by simp
qed

lemma templatesToReset_iff:
  "k \<in> set (templatesToReset w entries) \<longleftrightarrow> (\<exists>e\<in>set entries. \<exists>b. k = ref_key b \<and> (runs_after w)\<^sup>*\<^sup>* e b)"
proof -
  have "leads_to (fold add_downstream (reset_edges w) []) = key_pairs (runs_after w)"
    by (auto simp: leads_to_def downstreams_fold reset_edges_iff key_pairs_def) (simp add: downstreams_def)
  then show ?thesis
    unfolding templatesToReset_def reset_loop_reaches
    by (simp add: Image_iff rtrancl_ref_key del: split_paired_Ex)
qed

lemma step_key_reset:
  "stepRunKey job step \<in> set (templatesToReset w entries) \<longleftrightarrow> (\<exists>e\<in>set entries. (runs_after w)\<^sup>*\<^sup>* e (job, step))"
proof -
  have "stepRunKey job step = ref_key b \<longleftrightarrow> b = (job, step)" for b
    by (cases b) (auto simp: ref_key_def)
  then show ?thesis by (simp add: templatesToReset_iff)
qed

text \<open>C32. The templates a resume resets are the steps it starts from and all that come after them: the walk with
  a queue and a set of visited keys always ends, whatever cycles the dependencies have, and finds exactly what the
  dependencies lead to, between the steps of a job and between jobs.\<close>

theorem templatesToReset_is_what_comes_after:
  "stepRunKey job step \<in> set (templatesToReset w entries) \<longleftrightarrow> (\<exists>e\<in>set entries. (runs_after w)\<^sup>*\<^sup>* e (job, step))"
  by (rule step_key_reset)

section \<open>What a plan resets\<close>

lemma unless_Inr: "unless p k = Inr x \<longleftrightarrow> p = None \<and> k = Inr x"
  by (simp add: unless_def split: option.splits)

lemma selected_iff:
  "(n, m) \<in> set (map selected_ref (selectResetRecords w r pairs keys)) \<longleftrightarrow>
     (\<exists>jr\<in>set (r_jobs r). \<exists>job. \<exists>s\<in>set (jr_steps jr). workflowJobOf w jr pairs = Some job \<and>
        n = jr_jobName jr \<and> m = sr_stepName s \<and> matchRecord keys job s \<noteq> None)"
proof -
  have one: "(n, m) \<in> selected_ref ` set (select_in_job w pairs keys jr) \<longleftrightarrow>
      (\<exists>job. \<exists>s\<in>set (jr_steps jr). workflowJobOf w jr pairs = Some job \<and>
        n = jr_jobName jr \<and> m = sr_stepName s \<and> matchRecord keys job s \<noteq> None)" for jr
    by (cases "workflowJobOf w jr pairs")
      (force simp: select_in_job_def selected_ref_def List.map_filter_def image_iff)+
  have "(n, m) \<in> set (map selected_ref (selectResetRecords w r pairs keys)) \<longleftrightarrow>
      (\<exists>jr\<in>set (r_jobs r). (n, m) \<in> selected_ref ` set (select_in_job w pairs keys jr))"
    by (auto simp: selectResetRecords_def image_iff)
  then show ?thesis by (simp only: one)
qed

lemma plan_resets:
  assumes "planFailedRunResume parsesAsCel reads w r from = Inr plan"
  obtains entries where "resume_entries parsesAsCel w r from = Inr entries"
    and "rr_steps plan = map selected_ref (selectResetRecords w r (pairExpressionJobs parsesAsCel w r) (templatesToReset w entries))"
  using assms
  by (auto simp: planFailedRunResume_def unless_Inr Let_def split: sum.splits if_splits)

text \<open>
  In a run whose jobs, and the steps of each job, have different names, a record is reset exactly
  when it matches in its own job.
\<close>

definition names_distinct :: "workflow_run \<Rightarrow> bool" where
  "names_distinct r \<longleftrightarrow>
     distinct (map jr_jobName (r_jobs r)) \<and> list_all (\<lambda>jr. distinct (map sr_stepName (jr_steps jr))) (r_jobs r)"

lemma selected_record:
  assumes "names_distinct r" "jr \<in> set (r_jobs r)" "s \<in> set (jr_steps jr)" "workflowJobOf w jr pairs = Some job"
  shows "(jr_jobName jr, sr_stepName s) \<in> set (map selected_ref (selectResetRecords w r pairs keys)) \<longleftrightarrow>
    matchRecord keys job s \<noteq> None"
proof -
  have "jr' = jr" if "jr' \<in> set (r_jobs r)" "jr_jobName jr' = jr_jobName jr" for jr'
    using that assms(1,2) by (auto simp: names_distinct_def distinct_map inj_on_def)
  moreover have "s' = s" if "s' \<in> set (jr_steps jr)" "sr_stepName s' = sr_stepName s" for s'
    using that assms(1-3) by (auto simp: names_distinct_def list_all_iff distinct_map inj_on_def)
  ultimately show ?thesis
    unfolding selected_iff using assms(2-4) by (metis option.inject)
qed

lemma matchRecord_declared:
  assumes "job_getStep job (sr_stepName s) \<noteq> None" and "sr_forEachTemplate s = None"
  shows "matchRecord keys job s \<noteq> None \<longleftrightarrow> stepRunKey (jb_name job) (sr_stepName s) \<in> set keys"
  using assms by (simp add: matchRecord_def Let_def truthy_def)


lemma set_fold_add_new: "set (fold (\<lambda>x. add_new (g x)) xs ys) = set ys \<union> g ` set xs"
  by (induction xs arbitrary: ys) (auto simp: add_new_def)

lemma retry_entries_cover:
  assumes "selectRetryTemplates parsesAsCel w r = Inr entries" and "f \<in> set (failedSteps r)"
  shows "\<exists>e. retry_entry w r (pairExpressionJobs parsesAsCel w r) f = Some e \<and> e \<in> set entries"
proof -
  let ?pairs = "pairExpressionJobs parsesAsCel w r"
  have all: "\<forall>f\<in>set (failedSteps r). retry_entry w r ?pairs f \<noteq> None"
    and es: "entries = fold (\<lambda>f. add_new (the (retry_entry w r ?pairs f))) (failedSteps r) []"
    using assms(1) by (auto simp: selectRetryTemplates_def unless_Inr Let_def find_None_iff split: if_splits)
  have "the (retry_entry w r ?pairs f) \<in> set entries"
    using assms(2) unfolding es set_fold_add_new by simp
  then show ?thesis using all assms(2) by auto
qed

text \<open>The records whose failure counts against the run.\<close>

definition counts_failed :: "step_run \<Rightarrow> bool" where
  "counts_failed s \<longleftrightarrow> sr_status s = Failed \<and> \<not> sr_allowedFailure s"

lemma failedSteps_empty: "failedSteps r = [] \<longleftrightarrow> (\<forall>jr\<in>set (r_jobs r). \<forall>s\<in>set (jr_steps jr). \<not> counts_failed s)"
  by (force simp: failedSteps_def all_steps_def counts_failed_def filter_empty_conv)

lemma failed_ref:
  assumes "jr \<in> set (r_jobs r)" "s \<in> set (jr_steps jr)" "counts_failed s"
  obtains f where "f \<in> set (failedSteps r)" "fr_jobName f = jr_jobName jr" "entryTemplateOf f = or_else (sr_stepName s) (sr_forEachTemplate s)"
proof -
  let ?f = "\<lparr>fr_jobName = jr_jobName jr, fr_stepName = sr_stepName s, fr_forEachTemplate = sr_forEachTemplate s,
            fr_approvalRejected = (case sr_approvalDecision s of Some d \<Rightarrow> \<not> ad_approved d | None \<Rightarrow> False),
            fr_failureKind = sr_failureKind s\<rparr>"
  have "?f \<in> set (failedSteps r)"
    using assms by (force simp: failedSteps_def all_steps_def counts_failed_def)
  then show thesis using that [of ?f] by (simp add: entryTemplateOf_def)
qed

lemma failed_record_matches:
  assumes "stepRunKey (jb_name job) (or_else (sr_stepName s) (sr_forEachTemplate s)) \<in> set keys" and "sr_forEachTemplate s \<noteq> Some []"
  shows "matchRecord keys job s \<noteq> None"
  using assms by (cases "sr_forEachTemplate s") (auto simp: matchRecord_def Let_def truthy_def or_else_def)

lemma mark_tracked_failures:
  "map (\<lambda>jr. map counts_failed (jr_steps jr)) (r_jobs (fold mark_tracked tracked r)) =
   map (\<lambda>jr. map counts_failed (jr_steps jr)) (r_jobs r)"
proof (induction tracked arbitrary: r)
  case Nil
  then show ?case by simp
next
  case (Cons ref tracked)
  have "map counts_failed (jr_steps (update_step n markResetByResume jr)) = map counts_failed (jr_steps jr)" for n jr
    using update_first_map_eq [of counts_failed markResetByResume]
    by (simp add: update_step_def counts_failed_def markResetByResume_def)
  then have "map (\<lambda>jr. map counts_failed (jr_steps jr)) (r_jobs (mark_tracked ref r)) =
      map (\<lambda>jr. map counts_failed (jr_steps jr)) (r_jobs r)"
    by (simp add: mark_tracked_def update_job_def update_first_map_eq)
  with Cons.IH show ?case by simp
qed

lemma failedSteps_empty_map: "failedSteps r = [] \<longleftrightarrow> True \<notin> \<Union> (set ` set (map (\<lambda>jr. map counts_failed (jr_steps jr)) (r_jobs r)))"
  by (auto simp: failedSteps_empty)

text \<open>C17. Retrying a failed run leaves nothing failed behind: when a plan for it succeeds, every step whose failure
  counted against the run is among the records it resets, iterations of a \<open>forEach\<close> included, and the run that is
  resumed has no failed step left.\<close>

theorem retry_resets_every_failed_step:
  assumes plan: "planFailedRunResume parsesAsCel reads w r None = Inr plan"
    and names: "distinct (map jr_jobName (r_jobs r))"
    and templates: "list_all (\<lambda>jr. list_all (\<lambda>s. sr_forEachTemplate s \<noteq> Some []) (jr_steps jr)) (r_jobs r)"
  shows "failedSteps (resetForResumeFrom (rr_steps plan) (rr_tracked plan) r) = []"
proof -
  let ?pairs = "pairExpressionJobs parsesAsCel w r" and ?K = "set (map (\<lambda>(j, s). stepRunKey j s) (rr_steps plan))"
  obtain entries where entries: "selectRetryTemplates parsesAsCel w r = Inr entries"
    and steps: "rr_steps plan = map selected_ref (selectResetRecords w r ?pairs (templatesToReset w entries))"
    using plan_resets [OF plan] by (auto simp: resume_entries_def)
  have reset: "(jr_jobName jr, sr_stepName s) \<in> set (rr_steps plan)"
    if jr: "jr \<in> set (r_jobs r)" and s: "s \<in> set (jr_steps jr)" "counts_failed s" for jr s
  proof -
    let ?t = "or_else (sr_stepName s) (sr_forEachTemplate s)"
    obtain f where f: "f \<in> set (failedSteps r)" "fr_jobName f = jr_jobName jr" "entryTemplateOf f = ?t"
      using failed_ref [OF jr s] .
    obtain e where e: "retry_entry w r ?pairs f = Some e" "e \<in> set entries"
      using retry_entries_cover [OF entries f(1)] by blast
    have "run_getJob r (jr_jobName jr) = Some jr"
      using find_distinct_key [OF names jr] by (simp add: run_getJob_def)
    then obtain job where job: "workflowJobOf w jr ?pairs = Some job" "e = (jb_name job, ?t)"
      using e(1) f(2,3) by (auto simp: retry_entry_def split: option.splits if_splits)
    then have key: "stepRunKey (jb_name job) ?t \<in> set (templatesToReset w entries)"
      using e(2) by (auto simp: step_key_reset)
    have "sr_forEachTemplate s \<noteq> Some []"
      using templates jr s(1) by (auto simp: list_all_iff)
    with key have "matchRecord (templatesToReset w entries) job s \<noteq> None"
      by (rule failed_record_matches)
    then show ?thesis unfolding steps selected_iff using jr s(1) job(1) by blast
  qed
  have keys: "stepRunKey a b \<in> ?K \<longleftrightarrow> (a, b) \<in> set (rr_steps plan)" for a b
    by (force simp: image_iff)
  have "\<not> counts_failed s'" if "jr \<in> set (r_jobs r)" "s' \<in> set (jr_steps (reset_job_from ?K jr))" for jr s'
  proof -
    have same: "counts_failed (s\<lparr>sr_resetByResume := False\<rparr>) = counts_failed s" for s by (simp add: counts_failed_def)
    have "\<not> counts_failed (pending_step n t)" for n t by (simp add: counts_failed_def pending_step_def)
    with that(2) reset [OF that(1)] show ?thesis
      unfolding reset_job_from_eq [OF keys] by (auto simp: same split: if_splits)
  qed
  then have "failedSteps (map_jobs (reset_job_from ?K) r) = []"
    by (auto simp: failedSteps_empty)
  then show ?thesis
    unfolding resetForResumeFrom_def failedSteps_empty_map mark_tracked_failures .
qed

section \<open>Recovery\<close>

text \<open>Every unknown step is counted as guarded or as unguarded, and a run recovers by itself when none is unguarded.\<close>

lemma assessment_covers_unknown:
  "set (ra_guardedSteps (assessRecoveryForRun fingerprint w r)) \<union> set (ra_unguardedSteps (assessRecoveryForRun fingerprint w r)) =
     set (unknownSteps r)"
proof -
  have unknown: "set (unknownSteps r) = (\<Union>jr\<in>set (r_jobs r). sr_stepName ` {s \<in> set (jr_steps jr). sr_status s = Unknown})"
    by (force simp: unknownSteps_def all_steps_def image_iff)
  have split: "set (map fst (filter snd us)) \<union> set (map fst (filter (\<lambda>u. \<not> snd u) us)) = fst ` set us"
    for us :: "(string \<times> bool) list"
    by force
  show ?thesis
    unfolding unknown assessRecoveryForRun_def Let_def recovery_assessment.simps split
    by (simp add: image_UN image_image)
qed

section \<open>A failed run\<close>

text \<open>A job of two steps of which the second, after the first, failed.\<close>

definition demo_step :: "string \<Rightarrow> string list \<Rightarrow> step_def" where
  "demo_step name deps =
     \<lparr>st_name = name, st_task = Model_method ''m'', st_forEach = None, st_dependsOn = map (\<lambda>d. (d, C_succeeded)) deps,
      st_weight = 0, st_allowFailure = False, st_guard = None\<rparr>"

definition demo_job :: job_def where
  "demo_job = \<lparr>jb_name = ''j'', jb_steps = [demo_step ''a'' [], demo_step ''b'' [''a'']], jb_dependsOn = [], jb_weight = 0,
               jb_fanOut = None\<rparr>"

definition two_steps :: workflow_def where
  "two_steps = \<lparr>wd_id = ''f'', wd_name = ''flow'', wd_inputs = None, wd_jobs = [demo_job], wd_autoResume = None\<rparr>"

definition demo_failed_job :: job_run where
  "demo_failed_job =
     (pending_job ''j'' [''a'', ''b''])
     \<lparr>jr_status := Failed,
      jr_steps := [(pending_step ''a'' None)\<lparr>sr_status := Succeeded\<rparr>, (pending_step ''b'' None)\<lparr>sr_status := Failed\<rparr>]\<rparr>"

definition demo_failed_run :: workflow_run where
  "demo_failed_run = (create_run ''r'' two_steps None None None None)\<lparr>r_status := R_failed, r_jobs := [demo_failed_job]\<rparr>"

lemma demo_retry_plan:
  "planFailedRunResume (\<lambda>_. True) (\<lambda>_. []) two_steps demo_failed_run None =
     Inr \<lparr>rr_steps = [(''j'', ''b'')], rr_tracked = [(''j'', ''b'')], rr_pairs = Some []\<rparr>"
  by code_simp

lemma demo_from_plan:
  "planFailedRunResume (\<lambda>_. True) (\<lambda>_. []) two_steps demo_failed_run (Some \<lparr>rf_step = ''b'', rf_job = None\<rparr>) =
     Inr \<lparr>rr_steps = [(''j'', ''b'')], rr_tracked = [(''j'', ''b'')], rr_pairs = Some []\<rparr>"
  by code_simp

theorem retry_resets_every_failed_step_witness:
  "failedSteps demo_failed_run \<noteq> [] \<and>
   failedSteps (resetForResumeFrom [(''j'', ''b'')] [(''j'', ''b'')] demo_failed_run) = []"
proof -
  have "failedSteps demo_failed_run \<noteq> []" "distinct (map jr_jobName (r_jobs demo_failed_run))"
    "list_all (\<lambda>jr. list_all (\<lambda>s. sr_forEachTemplate s \<noteq> Some []) (jr_steps jr)) (r_jobs demo_failed_run)"
    by code_simp+
  then show ?thesis
    using retry_resets_every_failed_step [OF demo_retry_plan] by simp
qed


end
