(* ===== verification/Gate_State.thy ===== *)
theory Gate_State
  imports Workflow_Run
begin

text \<open>
  \<^verbatim>\<open>src/src/domain/workflows/approval_timeout.ts\<close> and \<^verbatim>\<open>gate_state.ts\<close>: what a decision on an approval gate
  finds. \<^verbatim>\<open>Date.parse\<close> is the argument \<open>parse_date\<close>.
\<close>

section \<open>The deadline of a gate\<close>

record approval_timeout =
  at_expired :: bool
  at_elapsedSeconds :: rat
  at_timeoutSeconds :: rat

definition gateTimeoutSeconds :: "step_run \<Rightarrow> step_def list option \<Rightarrow> rat option" where
  "gateTimeoutSeconds s definitionSteps =
     (case sr_approvalTimeout s of
        Some t \<Rightarrow> Some t
      | None \<Rightarrow>
          let named = (\<lambda>n. Option.bind definitionSteps (find (\<lambda>d. st_name d = n)));
              defined = (case named (sr_stepName s) of
                           Some d \<Rightarrow> Some d
                         | None \<Rightarrow> Option.bind (sr_forEachTemplate s) named) in
          case map_option st_task defined of Some (Manual_approval _ t) \<Rightarrow> t | _ \<Rightarrow> None)"

definition evaluateApprovalTimeout :: "time option \<Rightarrow> rat option \<Rightarrow> time \<Rightarrow> approval_timeout option" where
  "evaluateApprovalTimeout startedAt timeoutSeconds now =
     (case (startedAt, timeoutSeconds) of
        (Some t, Some limit) \<Rightarrow>
          if limit = 0 then None
          else let elapsed = of_int (now - t) / 1000 in
            Some \<lparr>at_expired = (limit < elapsed), at_elapsedSeconds = elapsed, at_timeoutSeconds = limit\<rparr>
      | _ \<Rightarrow> None)"

section \<open>The state of a gate\<close>

datatype gate_state =
    Gate_absent | Gate_ambiguous | Gate_not_reached | Gate_waiting | Gate_expired | Gate_nested | Gate_decided
  | Gate_run_active | Gate_closed

definition gate_matches :: "workflow_run \<Rightarrow> string \<Rightarrow> string option \<Rightarrow> (string \<times> step_run) list" where
  "gate_matches r stepName jobName =
     concat (map (\<lambda>j. if jobName \<noteq> None \<and> Some (jr_jobName j) \<noteq> jobName then []
                      else case getStep j stepName of Some s \<Rightarrow> [(jr_jobName j, s)] | None \<Rightarrow> []) (r_jobs r))"

definition gate_expired :: "workflow_def \<Rightarrow> string \<Rightarrow> step_run \<Rightarrow> time \<Rightarrow> bool" where
  "gate_expired w jobName s now =
     (case evaluateApprovalTimeout (sr_startedAt s)
             (gateTimeoutSeconds s (map_option jb_steps (workflow_getJob w jobName))) now of
        Some t \<Rightarrow> at_expired t
      | None \<Rightarrow> False)"

definition classifyGate :: "workflow_run \<Rightarrow> workflow_def \<Rightarrow> string \<Rightarrow> string option \<Rightarrow> time \<Rightarrow> gate_state" where
  "classifyGate r w stepName jobName now =
     (case gate_matches r stepName jobName of
        [] \<Rightarrow> Gate_absent
      | [(job, s)] \<Rightarrow>
          if sr_approvalDecision s \<noteq> None then Gate_decided
          else if isNestedWait s then Gate_nested
          else if sr_status s = Waiting_approval
          then (if r_status r = R_running then Gate_run_active
                else if r_status r \<noteq> R_suspended then Gate_closed
                else if gate_expired w job s now then Gate_expired else Gate_waiting)
          else if sr_status s = Pending
          then (if r_status r = R_suspended \<or> r_status r = R_running then Gate_not_reached else Gate_closed)
          else Gate_closed
      | _ \<Rightarrow> Gate_ambiguous)"

definition gateAttemptMatches :: "(string \<Rightarrow> time option) \<Rightarrow> step_run \<Rightarrow> string \<Rightarrow> bool" where
  "gateAttemptMatches parse_date s suspendedAt =
     (case parse_date suspendedAt of None \<Rightarrow> False | Some expected \<Rightarrow> sr_startedAt s = Some expected)"

section \<open>Which gates can be decided\<close>

lemma gate_matches_unique:
  assumes "gate_matches r stepName jobName = [(job, s)]"
  shows "\<exists>j\<in>set (r_jobs r). jr_jobName j = job \<and> getStep j stepName = Some s"
proof -
  have "(job, s) \<in> set (gate_matches r stepName jobName)" using assms by simp
  then show ?thesis by (auto simp: gate_matches_def split: if_splits option.splits)
qed

text \<open>The deadline of a gate that recorded its timeout does not move when the workflow is edited.\<close>

lemma recorded_timeout_wins:
  "sr_approvalTimeout s = Some t \<Longrightarrow> gateTimeoutSeconds s steps = Some t"
  by (simp add: gateTimeoutSeconds_def)

text \<open>
  A gate is waiting for a decision exactly when one record of its name matches, it waits for
  an approval of its own that nobody decided, the run is suspended, and its time is not up; once its
  time is up it stays expired.
\<close>

theorem gate_waits_iff:
  "classifyGate r w stepName jobName now = Gate_waiting \<longleftrightarrow>
     (\<exists>job s. gate_matches r stepName jobName = [(job, s)] \<and> sr_approvalDecision s = None \<and> \<not> isNestedWait s \<and>
        sr_status s = Waiting_approval \<and> r_status r = R_suspended \<and> \<not> gate_expired w job s now)"
  by (auto simp: classifyGate_def split: list.splits if_splits)

lemma gate_stays_expired: "gate_expired w job s now \<Longrightarrow> now \<le> later \<Longrightarrow> gate_expired w job s later"
proof -
  assume e: "gate_expired w job s now" and "now \<le> later"
  then have le: "(of_int (now - t) / 1000 :: rat) \<le> of_int (later - t) / 1000" for t
    by (simp add: divide_right_mono)
  from e le show ?thesis
    by (auto simp: gate_expired_def evaluateApprovalTimeout_def Let_def split: option.splits if_splits intro: less_le_trans)
qed

end
