(* ===== verification/Pending_Signal.thy ===== *)
theory Pending_Signal
  imports Signal_Wait
begin

text \<open>
  \<^verbatim>\<open>src/src/domain/workflows/pending_signal.ts\<close>: a signal that arrived before a wait for its key was open,
  kept for the claim of a slot, and how a wait takes it.

  The pending records are those of a store; a content that cannot be read is \<open>None\<close>. Each call of the
  interface \<^verbatim>\<open>PendingSignalRecords\<close> takes effect at once.
\<close>

section \<open>Records of a store\<close>

definition stored :: "('k \<times> 'v option) list \<Rightarrow> 'k \<Rightarrow> 'v stored_wait_record" where
  "stored m k = (case map_of m k of None \<Rightarrow> Absent | Some None \<Rightarrow> Unreadable | Some (Some v) \<Rightarrow> Found v)"

definition create_once :: "'k \<Rightarrow> 'v \<Rightarrow> ('k \<times> 'v option) list \<Rightarrow> ('k \<times> 'v option) list" where
  "create_once k v m = (if map_of m k = None then m @ [(k, Some v)] else m)"

lemma stored_create_once:
  "stored (create_once k v m) k' = (if k' = k \<and> stored m k = Absent then Found v else stored m k')"
  by (auto simp: stored_def create_once_def map_add_def split: option.splits)

lemma create_once_again [simp]: "create_once k v' (create_once k v m) = create_once k v m"
  by (auto simp: create_once_def map_add_def split: option.splits)

lemma stored_Absent_iff: "stored m k = Absent \<longleftrightarrow> k \<notin> fst ` set m"
  using map_of_eq_None_iff [of m k] by (auto simp: stored_def split: option.splits)

text \<open>\<^verbatim>\<open>generationFromKey\<close> of \<^verbatim>\<open>continuation_claim.ts\<close>: the number after the last slash.\<close>

definition MAX_SAFE_INTEGER :: nat where
  "MAX_SAFE_INTEGER = 2 ^ 53 - 1"

definition generationFromKey :: "string \<Rightarrow> nat option" where
  "generationFromKey key =
     (let t = last (js_split CHR ''/'' key) in
      if t = [] \<or> hd t = CHR ''0'' \<or> \<not> list_all is_digit t then None
      else if digits_value t \<le> MAX_SAFE_INTEGER then Some (digits_value t) else None)"

definition isSinglePathSegment :: "string \<Rightarrow> bool" where
  "isSinglePathSegment i \<longleftrightarrow> i \<noteq> [] \<and> CHR 0x5C \<notin> set i \<and> CHR ''/'' \<notin> set i \<and> i \<noteq> ''.'' \<and> i \<noteq> ''..''"

section \<open>Pending signals\<close>

definition PENDING_SIGNAL_PREFIX :: string where
  "PENDING_SIGNAL_PREFIX = ''wait-pending/''"

definition PENDING_SIGNAL_MAX_BYTES :: nat where
  "PENDING_SIGNAL_MAX_BYTES = 64 * 1024"

definition PENDING_SIGNAL_LAPSE_GRACE_MS :: int where
  "PENDING_SIGNAL_LAPSE_GRACE_MS = 24 * 60 * 60 * 1000"

record pending_slot =
  pa_workflowId :: string
  pa_key :: string
  pa_slot :: nat

record pending_address = pending_slot +
  pa_number :: nat

record pending_signal = pending_address +
  pn_receiptId :: string
  pn_receivedAt :: time
  pn_submittedBy :: string
  pn_payload :: json_object
  pn_acceptEarly :: rat
  pn_authorizedFor :: "string option"
  pn_idempotencyKey :: "string option"

datatype pending_record = Pending_sig pending_signal | Lapse pending_address time

fun pending_address_of :: "pending_record \<Rightarrow> pending_address" where
  "pending_address_of (Pending_sig p) = pending_address.truncate p"
| "pending_address_of (Lapse a _) = a"

text \<open>Keys of the store; \<open>None\<close> is the error of a part that is not valid.\<close>

definition requirePositiveInteger :: "nat \<Rightarrow> nat option" where
  "requirePositiveInteger v = (if MAX_SAFE_INTEGER < v \<or> v < 1 then None else Some v)"

definition pendingWorkflowPrefix :: "string \<Rightarrow> string option" where
  "pendingWorkflowPrefix workflowId =
     (if isSinglePathSegment workflowId then Some (PENDING_SIGNAL_PREFIX @ workflowId @ ''/'') else None)"

definition pendingSlotPrefix :: "'a pending_slot_scheme \<Rightarrow> string option" where
  "pendingSlotPrefix a =
     (if \<not> isWaitKey (pa_key a) then None
      else case pendingWorkflowPrefix (pa_workflowId a) of
             None \<Rightarrow> None
           | Some p \<Rightarrow> map_option (\<lambda>s. p @ pa_key a @ ''/'' @ nat_text s @ ''/'') (requirePositiveInteger (pa_slot a)))"

definition pendingRecordKey :: "'a pending_address_scheme \<Rightarrow> string option" where
  "pendingRecordKey a =
     (case pendingSlotPrefix a of
        None \<Rightarrow> None
      | Some p \<Rightarrow> map_option (\<lambda>n. p @ nat_text n) (requirePositiveInteger (pa_number a)))"

definition pendingAddressFromKey :: "string \<Rightarrow> pending_address option" where
  "pendingAddressFromKey storeKey =
     (if take (length PENDING_SIGNAL_PREFIX) storeKey \<noteq> PENDING_SIGNAL_PREFIX then None
      else case js_split CHR ''/'' (drop (length PENDING_SIGNAL_PREFIX) storeKey) of
             [workflowId, key, third, fourth] \<Rightarrow>
               (case (generationFromKey third, generationFromKey fourth) of
                  (Some slot, Some number) \<Rightarrow>
                    if \<not> isSinglePathSegment workflowId \<or> \<not> isWaitKey key then None
                    else Some \<lparr>pa_workflowId = workflowId, pa_key = key, pa_slot = slot, pa_number = number\<rparr>
                | _ \<Rightarrow> None)
           | _ \<Rightarrow> None)"

text \<open>
  \<open>parse\<close> is \<^verbatim>\<open>JSON.parse\<close> followed by the schema of a record, \<open>raw_payload\<close> the \<^verbatim>\<open>payload\<close> of the parsed bytes
  before the schema dropped anything.
\<close>

definition decodePendingRecord ::
  "(string \<Rightarrow> pending_record option) \<Rightarrow> (string \<Rightarrow> json) \<Rightarrow> string option \<Rightarrow> pending_address
   \<Rightarrow> pending_record stored_wait_record" where
  "decodePendingRecord parse raw_payload bytes expected =
     (case bytes of
        None \<Rightarrow> Absent
      | Some bs \<Rightarrow>
          if PENDING_SIGNAL_MAX_BYTES < length bs then Unreadable
          else case parse bs of
                 None \<Rightarrow> Unreadable
               | Some r \<Rightarrow>
                   if pending_address_of r \<noteq> expected then Unreadable
                   else case r of
                          Pending_sig p \<Rightarrow>
                            if json_stringify (raw_payload bs) \<noteq> json_stringify (JObj (pn_payload p)) then Unreadable
                            else Found r
                        | Lapse _ _ \<Rightarrow> Found r)"

section \<open>The records of a slot\<close>

type_synonym pending_store = "(pending_address \<times> pending_record option) list"

datatype highest_pending_record = Pending_none | Pending_found pending_record | Pending_unreadable nat

definition at_number :: "pending_slot \<Rightarrow> nat \<Rightarrow> pending_address" where
  "at_number s n = \<lparr>pa_workflowId = pa_workflowId s, pa_key = pa_key s, pa_slot = pa_slot s, pa_number = n\<rparr>"

definition slot_numbers :: "pending_store \<Rightarrow> pending_slot \<Rightarrow> nat list" where
  "slot_numbers ps s = map (pa_number \<circ> fst) (filter (\<lambda>(a, _). pending_slot.truncate a = s) ps)"

definition top_number :: "pending_store \<Rightarrow> pending_slot \<Rightarrow> nat" where
  "top_number ps s = fold max (slot_numbers ps s) 0"

definition highestPendingRecord :: "pending_store \<Rightarrow> pending_slot \<Rightarrow> highest_pending_record" where
  "highestPendingRecord ps s =
     (let n = top_number ps s in
      if n = 0 then Pending_none
      else case stored ps (at_number s n) of Found r \<Rightarrow> Pending_found r | _ \<Rightarrow> Pending_unreadable n)"

definition createPendingRecord :: "pending_record \<Rightarrow> pending_store \<Rightarrow> pending_store" where
  "createPendingRecord r ps = create_once (pending_address_of r) r ps"

definition removePendingRecord :: "pending_address \<Rightarrow> pending_store \<Rightarrow> pending_store" where
  "removePendingRecord a ps = filter (\<lambda>ar. fst ar \<noteq> a) ps"

section \<open>Taking a pending signal\<close>

text \<open>A reference to a wait with all it may name, and one whose wait accepts early signals.\<close>

record full_wait_ref = wait_ref +
  fr_workflowName :: "string option"
  fr_key :: "string option"
  fr_early :: "wait_early option"
  fr_schema :: "json_schema option"

record early_wait_ref = wait_ref +
  er_workflowName :: "string option"
  er_key :: string
  er_early :: wait_early
  er_schema :: json_schema

definition earlyWaitRef :: "full_wait_ref \<Rightarrow> early_wait_ref option" where
  "earlyWaitRef r =
     (case (fr_key r, fr_early r, fr_schema r) of
        (Some key, Some early, Some schema) \<Rightarrow>
          Some \<lparr>wr_waitId = wr_waitId r, wr_workflowId = wr_workflowId r, wr_runId = wr_runId r,
                wr_deadline = wr_deadline r, er_workflowName = fr_workflowName r, er_key = key,
                er_early = early, er_schema = schema\<rparr>
      | _ \<Rightarrow> None)"

text \<open>The milliseconds of a \<^verbatim>\<open>Date\<close> are whole: the constructor drops a fraction.\<close>

definition date_of :: "rat \<Rightarrow> time" where
  "date_of ms = (if ms < 0 then \<lceil>ms\<rceil> else \<lfloor>ms\<rfloor>)"

definition earliestReceipt :: "time \<Rightarrow> rat \<Rightarrow> time" where
  "earliestReceipt claimedAt acceptEarly = date_of (of_int claimedAt - acceptEarly * 1000)"

definition heldUntil :: "pending_signal \<Rightarrow> time" where
  "heldUntil p = date_of (of_int (pn_receivedAt p) + pn_acceptEarly p * 1000)"

definition isPendingHeld :: "pending_signal \<Rightarrow> time \<Rightarrow> bool" where
  "isPendingHeld p now \<longleftrightarrow> now \<le> heldUntil p"

definition isReceivedForWait :: "nat \<Rightarrow> time \<Rightarrow> wait_early \<Rightarrow> time \<Rightarrow> bool" where
  "isReceivedForWait slot receivedAt early deadline \<longleftrightarrow>
     int slot \<in> set (earlySlots early) \<and> we_from early \<le> receivedAt \<and> receivedAt \<le> deadline"

text \<open>An error is the one \<^verbatim>\<open>SignalWait.fromData\<close> throws.\<close>

definition pendingOutcome ::
  "(string \<Rightarrow> bool) \<Rightarrow> bool \<Rightarrow> pending_signal \<Rightarrow> early_wait_ref \<Rightarrow> wait_error + wait_outcome option" where
  "pendingOutcome is_uuid stop p ref =
     (if pa_workflowId p \<noteq> wr_workflowId ref \<or> pa_key p \<noteq> er_key ref then Inr None
      else if pn_authorizedFor p \<noteq> None \<and> pn_authorizedFor p \<noteq> er_workflowName ref then Inr None
      else if \<not> isReceivedForWait (pa_slot p) (pn_receivedAt p) (er_early ref) (wr_deadline ref) then Inr None
      else case wait_fromData is_uuid
                  \<lparr>sw_id = wr_waitId ref, sw_schema = er_schema ref, sw_deadline = wr_deadline ref,
                   sw_receipt = None, sw_key = None, sw_early = None\<rparr> of
             Inl e \<Rightarrow> Inl e
           | Inr w \<Rightarrow>
               (case validatePayload stop w (Some (JObj (pn_payload p))) of
                  Inl _ \<Rightarrow> Inr None
                | Inr plain \<Rightarrow>
                    Inr (Some (Accepted (pick ref) (pn_receivedAt p)
                          \<lparr>rc_id = pn_receiptId p, rc_waitId = wr_waitId ref, rc_receivedAt = pn_receivedAt p,
                           rc_submittedBy = pn_submittedBy p, rc_idempotencyKey = pn_idempotencyKey p,
                           rc_heldAsPending = True\<rparr> plain))))"

fun first_applicable ::
  "(string \<Rightarrow> bool) \<Rightarrow> bool \<Rightarrow> pending_store \<Rightarrow> early_wait_ref \<Rightarrow> int list \<Rightarrow> wait_error + wait_outcome option" where
  "first_applicable is_uuid stop ps ref [] = Inr None"
| "first_applicable is_uuid stop ps ref (slot # slots) =
     (case highestPendingRecord ps \<lparr>pa_workflowId = wr_workflowId ref, pa_key = er_key ref, pa_slot = nat slot\<rparr> of
        Pending_found (Pending_sig p) \<Rightarrow>
          (case pendingOutcome is_uuid stop p ref of
             Inr None \<Rightarrow> first_applicable is_uuid stop ps ref slots
           | result \<Rightarrow> result)
      | _ \<Rightarrow> first_applicable is_uuid stop ps ref slots)"

definition applicablePendingOutcome ::
  "(string \<Rightarrow> bool) \<Rightarrow> bool \<Rightarrow> pending_store \<Rightarrow> early_wait_ref \<Rightarrow> wait_error + wait_outcome option" where
  "applicablePendingOutcome is_uuid stop ps ref = first_applicable is_uuid stop ps ref (earlySlots (er_early ref))"

text \<open>
  \<open>outcomes\<close> are the outcomes of waits by wait id. The result is them afterwards, what the store has of
  the wait, and the receipt id the listener is told, if it is told.
\<close>

definition takePendingSignal ::
  "(string \<Rightarrow> bool) \<Rightarrow> bool \<Rightarrow> pending_store \<Rightarrow> (string \<times> wait_outcome option) list \<Rightarrow> early_wait_ref
   \<Rightarrow> wait_error + (string \<times> wait_outcome option) list \<times> wait_outcome stored_wait_record \<times> string option" where
  "takePendingSignal is_uuid stop ps outcomes ref =
     (case applicablePendingOutcome is_uuid stop ps ref of
        Inl e \<Rightarrow> Inl e
      | Inr None \<Rightarrow> Inr (outcomes, Absent, None)
      | Inr (Some outcome) \<Rightarrow>
          let outcomes' = create_once (wr_waitId ref) outcome outcomes;
              result = stored outcomes' (wr_waitId ref) in
          Inr (outcomes', result,
            case (result, outcome) of
              (Found (Accepted _ _ receipt _), Accepted _ _ own _) \<Rightarrow>
                if rc_id receipt = rc_id own then Some (rc_id own) else None
            | _ \<Rightarrow> None))"

section \<open>Keys read back\<close>

lemma nat_text_digits_value:
  "list_all is_digit t \<Longrightarrow> t \<noteq> [] \<Longrightarrow> hd t \<noteq> CHR ''0'' \<Longrightarrow> nat_text (digits_value t) = t"
proof (induction t rule: rev_induct)
  case (snoc c ds)
  have c: "char_of (48 + (of_char c - 48) :: nat) = c" "of_char c - 48 < (10 :: nat)"
    using snoc.prems(1) by (auto simp: is_digit_iff)
  show ?case
  proof (cases "ds = []")
    case True
    with c show ?thesis by (simp add: nat_text.simps [of "of_char c - 48"] digits_value_def)
  next
    case False
    with snoc have ds: "nat_text (digits_value ds) = ds" and "hd ds \<noteq> CHR ''0''" by simp_all
    have "digits_value ds \<noteq> 0"
    proof
      assume "digits_value ds = 0"
      with ds have "ds = nat_text 0" by simp
      also have "\<dots> = ''0''" by code_simp
      finally show False using \<open>hd ds \<noteq> CHR ''0''\<close> by simp
    qed
    with c(2) have "\<not> 10 * digits_value ds + (of_char c - 48) < 10"
      "(10 * digits_value ds + (of_char c - 48)) div 10 = digits_value ds"
      "(10 * digits_value ds + (of_char c - 48)) mod 10 = of_char c - 48" by auto
    with c ds show ?thesis by (subst nat_text.simps) simp
  qed
qed simp

lemma js_split_nonempty [simp]: "js_split c s \<noteq> []"
  by (induction s) (auto split: list.splits)

lemma js_split_join: "join_with [c] (js_split c s) = s"
proof (induction s)
  case (Cons x s)
  moreover obtain p ps where "js_split c s = p # ps" by (meson js_split_nonempty list.exhaust)
  ultimately show ?case by (cases ps) auto
qed simp

lemma generationFromKey_nat_text: "generationFromKey (nat_text n) = requirePositiveInteger n"
proof (cases "n = 0")
  case True
  have "generationFromKey (nat_text 0) = None" by code_simp
  with True show ?thesis by (simp add: requirePositiveInteger_def)
next
  case False
  then show ?thesis
    using nat_text_hd [of n] nat_text_digits [of n]
    by (simp add: generationFromKey_def requirePositiveInteger_def js_split_whole [OF nat_text_no_slash])
qed

lemma generationFromKey_Some:
  assumes "generationFromKey t = Some n" and "CHR ''/'' \<notin> set t"
  shows "t = nat_text n \<and> requirePositiveInteger n = Some n"
proof -
  from assms have t: "list_all is_digit t" "t \<noteq> []" "hd t \<noteq> CHR ''0''" "n = digits_value t"
    by (auto simp: generationFromKey_def js_split_whole Let_def split: if_splits)
  from nat_text_digits_value [OF this(1-3)] t(4) have "t = nat_text n" by simp
  with assms(1) show ?thesis
    by (auto simp: generationFromKey_nat_text requirePositiveInteger_def split: if_splits)
qed

lemma segment_no_slash:
  "isSinglePathSegment i \<Longrightarrow> CHR ''/'' \<notin> set i" "isWaitKey key \<Longrightarrow> CHR ''/'' \<notin> set key"
  by (auto simp: isSinglePathSegment_def dest: isWaitKey_segment)

lemma js_split_no_sep: "p \<in> set (js_split c s) \<Longrightarrow> c \<notin> set p"
proof (induction s arbitrary: p)
  case (Cons x s)
  obtain q qs where "js_split c s = q # qs" by (meson js_split_nonempty list.exhaust)
  with Cons show ?case by (auto split: if_splits)
qed simp

lemma requirePositiveInteger_Some [simp]: "requirePositiveInteger v = Some n \<longleftrightarrow> n = v \<and> 1 \<le> v \<and> v \<le> MAX_SAFE_INTEGER"
  by (auto simp: requirePositiveInteger_def)

lemma pendingRecordKey_Some:
  "pendingRecordKey a = Some k \<longleftrightarrow>
     isSinglePathSegment (pa_workflowId a) \<and> isWaitKey (pa_key a) \<and>
     requirePositiveInteger (pa_slot a) = Some (pa_slot a) \<and> requirePositiveInteger (pa_number a) = Some (pa_number a) \<and>
     k = PENDING_SIGNAL_PREFIX @ pa_workflowId a @ CHR ''/'' # pa_key a @ CHR ''/'' # nat_text (pa_slot a) @ CHR ''/'' #
         nat_text (pa_number a)"
  by (auto simp: pendingRecordKey_def pendingSlotPrefix_def pendingWorkflowPrefix_def requirePositiveInteger_def
      split: option.splits if_splits)

lemma pendingAddressFromKey_Some:
  "pendingAddressFromKey k = Some a \<longleftrightarrow>
     (\<exists>t third fourth. k = PENDING_SIGNAL_PREFIX @ t \<and> js_split CHR ''/'' t = [pa_workflowId a, pa_key a, third, fourth] \<and>
        generationFromKey third = Some (pa_slot a) \<and> generationFromKey fourth = Some (pa_number a) \<and>
        isSinglePathSegment (pa_workflowId a) \<and> isWaitKey (pa_key a))"
proof -
  have "take (length p) s = p \<longleftrightarrow> (\<exists>t. s = p @ t)" for p s :: string
    by (metis append_eq_conv_conj)
  then show ?thesis
    unfolding pendingAddressFromKey_def
    by (cases a) (auto split: list.splits option.splits if_splits)
qed

text \<open>
  The address of a pending record reads back from the key it is stored under, and a key that reads back
  is the one its address is stored under: an address and its key determine each other.
\<close>

theorem pending_keys_read_back:
  "pendingAddressFromKey k = Some a \<longleftrightarrow> pendingRecordKey a = Some k"
proof
  assume "pendingRecordKey a = Some k"
  then show "pendingAddressFromKey k = Some a"
    unfolding pendingRecordKey_Some pendingAddressFromKey_Some
    by (auto simp: js_split_segment js_split_whole segment_no_slash nat_text_no_slash generationFromKey_nat_text)
next
  assume "pendingAddressFromKey k = Some a"
  then obtain t third fourth where t: "k = PENDING_SIGNAL_PREFIX @ t"
      "js_split CHR ''/'' t = [pa_workflowId a, pa_key a, third, fourth]"
    and numbers: "generationFromKey third = Some (pa_slot a)" "generationFromKey fourth = Some (pa_number a)"
    and valid: "isSinglePathSegment (pa_workflowId a)" "isWaitKey (pa_key a)"
    unfolding pendingAddressFromKey_Some by blast
  have "CHR ''/'' \<notin> set third" "CHR ''/'' \<notin> set fourth"
    by (rule js_split_no_sep [where s = t], simp add: t(2))+
  from generationFromKey_Some [OF numbers(1) this(1)] generationFromKey_Some [OF numbers(2) this(2)] valid
    js_split_join [of "CHR ''/''" t] t(2)
  show "pendingRecordKey a = Some k"
    unfolding pendingRecordKey_Some t(1) by simp
qed

section \<open>When a pending signal is taken\<close>

lemma pendingOutcome_no_error: "is_uuid (wr_waitId ref) \<Longrightarrow> pendingOutcome is_uuid stop p ref \<noteq> Inl e"
  by (simp add: pendingOutcome_def wait_fromData_def valid_wait_def split: sum.split)

lemma first_applicable_no_error: "is_uuid (wr_waitId ref) \<Longrightarrow> first_applicable is_uuid stop ps ref slots \<noteq> Inl e"
  by (induction slots)
    (auto simp: pendingOutcome_no_error split: highest_pending_record.splits pending_record.splits sum.splits option.splits)

lemma pendingOutcome_receipt:
  "pendingOutcome is_uuid stop p ref = Inr (Some out) \<Longrightarrow> \<exists>t receipt payload. out = Accepted (pick ref) t receipt payload \<and>
     rc_id receipt = pn_receiptId p \<and> rc_waitId receipt = wr_waitId ref \<and> rc_heldAsPending receipt"
  by (auto simp: pendingOutcome_def split: if_splits sum.splits)

lemma first_applicable_outcome:
  "first_applicable is_uuid stop ps ref slots = Inr (Some out) \<Longrightarrow>
     \<exists>p s. s \<in> set slots \<and> pendingOutcome is_uuid stop p ref = Inr (Some out) \<and>
       highestPendingRecord ps \<lparr>pa_workflowId = wr_workflowId ref, pa_key = er_key ref, pa_slot = nat s\<rparr> = Pending_found (Pending_sig p)"
  by (induction slots) (auto split: highest_pending_record.splits pending_record.splits sum.splits option.splits)

lemma first_applicable_finds:
  assumes "is_uuid (wr_waitId ref)" and "s \<in> set slots" and "pendingOutcome is_uuid stop p ref = Inr (Some out)"
    and "highestPendingRecord ps \<lparr>pa_workflowId = wr_workflowId ref, pa_key = er_key ref, pa_slot = nat s\<rparr> = Pending_found (Pending_sig p)"
  shows "\<exists>out'. first_applicable is_uuid stop ps ref slots = Inr (Some out')"
  using assms(2)
proof (induction slots)
  case (Cons t slots)
  then show ?case
    using assms(3,4) pendingOutcome_no_error [of is_uuid ref stop, OF assms(1)]
    by (auto split: highest_pending_record.splits pending_record.splits sum.splits option.splits)
qed simp

text \<open>
  Taking pending signals never changes an outcome that is stored, and readers agree: once one reader
  was told of an outcome of a wait, another that takes a pending signal for the same wait leaves the
  outcomes as they are and is told the same outcome or that nothing applies to it.
\<close>

lemma pending_takers_agree:
  assumes "takePendingSignal is_uuid stop ps outcomes ref = Inr (outcomes', result, told)"
    and "takePendingSignal is_uuid stop' ps' outcomes' ref' = Inr (outcomes'', result', told')"
    and "wr_waitId ref' = wr_waitId ref"
  shows "\<forall>w. stored outcomes w \<noteq> Absent \<longrightarrow> stored outcomes' w = stored outcomes w"
    and "result \<noteq> Absent \<Longrightarrow> outcomes'' = outcomes' \<and> (result' = result \<or> result' = Absent)"
  using assms
  by (auto simp: takePendingSignal_def Let_def stored_create_once split: sum.splits option.splits)

end
