(* ===== verification/Wait_Key_Claim.thy ===== *)
theory Wait_Key_Claim
  imports Pending_Signal Workflow_Definition
begin

text \<open>
  \<^verbatim>\<open>src/src/domain/workflows/wait_key_claim.ts\<close>: which wait holds a key of a workflow. A claim or a
  release of a key is a numbered record, created once; the highest says who holds the key.

  The model is of one key: its records by generation, and the outcomes and registrations of waits by
  wait id; a content that cannot be read is \<open>None\<close>. Each call of the interface \<^verbatim>\<open>WaitKeyRecords\<close> takes
  effect at once. The steps of a claim take as \<open>pending\<close> what the pending
  signals of the key (\<^verbatim>\<open>pending_signal.ts\<close>) would settle the wait of a claim with, if anything.
\<close>

section \<open>Records\<close>

definition WAIT_KEY_RECORD_PREFIX :: string where
  "WAIT_KEY_RECORD_PREFIX = ''wait-keys/''"

definition WAIT_KEY_RECORD_MAX_BYTES :: nat where
  "WAIT_KEY_RECORD_MAX_BYTES = 16 * 1024"

definition WAIT_KEY_CLAIM_ATTEMPTS :: nat where
  "WAIT_KEY_CLAIM_ATTEMPTS = 8"

definition WAIT_KEY_UNREGISTERED_GRACE_MS :: int where
  "WAIT_KEY_UNREGISTERED_GRACE_MS = 5 * 60 * 1000"

record wait_key_address =
  ka_workflowId :: string
  ka_key :: string
  ka_generation :: nat

record wait_key_claim = wait_key_address +
  kc_recordedAt :: time
  kc_waitId :: string
  kc_runId :: string
  kc_jobName :: string
  kc_stepName :: string
  kc_deadline :: time
  kc_early :: "wait_early option"

datatype wait_key_record = Key_claim wait_key_claim | Key_release wait_key_address time

fun key_address :: "wait_key_record \<Rightarrow> wait_key_address" where
  "key_address (Key_claim c) = wait_key_address.truncate c"
| "key_address (Key_release a t) = a"

definition record_generation :: "wait_key_record \<Rightarrow> nat" where
  "record_generation r = ka_generation (key_address r)"

lemma record_generation_simps [simp]:
  "record_generation (Key_claim c) = ka_generation c" "record_generation (Key_release a t) = ka_generation a"
  by (simp_all add: record_generation_def wait_key_address.defs)

text \<open>Keys of the store; \<open>None\<close> is the error of a part that is not valid.\<close>

definition waitKeyWorkflowPrefix :: "string \<Rightarrow> string option" where
  "waitKeyWorkflowPrefix workflowId =
     (if isSinglePathSegment workflowId then Some (WAIT_KEY_RECORD_PREFIX @ workflowId @ ''/'') else None)"

definition waitKeyPrefix :: "string \<Rightarrow> string \<Rightarrow> string option" where
  "waitKeyPrefix workflowId key =
     (if isWaitKey key then map_option (\<lambda>p. p @ key @ ''/'') (waitKeyWorkflowPrefix workflowId) else None)"

definition waitKeyRecordKey :: "wait_key_address \<Rightarrow> string option" where
  "waitKeyRecordKey a =
     (if ka_generation a < 1 then None
      else map_option (\<lambda>p. p @ nat_text (ka_generation a)) (waitKeyPrefix (ka_workflowId a) (ka_key a)))"

definition waitKeyAddressFromKey :: "string \<Rightarrow> wait_key_address option" where
  "waitKeyAddressFromKey storeKey =
     (if take (length WAIT_KEY_RECORD_PREFIX) storeKey \<noteq> WAIT_KEY_RECORD_PREFIX then None
      else case js_split CHR ''/'' (drop (length WAIT_KEY_RECORD_PREFIX) storeKey) of
             [workflowId, key, _] \<Rightarrow>
               (case generationFromKey storeKey of
                  None \<Rightarrow> None
                | Some generation \<Rightarrow>
                    if \<not> isSinglePathSegment workflowId \<or> \<not> isWaitKey key then None
                    else Some \<lparr>ka_workflowId = workflowId, ka_key = key, ka_generation = generation\<rparr>)
           | _ \<Rightarrow> None)"

text \<open>\<open>parse\<close> is \<^verbatim>\<open>JSON.parse\<close> followed by the schema of a record.\<close>

definition decodeWaitKeyRecord ::
  "(string \<Rightarrow> wait_key_record option) \<Rightarrow> string option \<Rightarrow> wait_key_address \<Rightarrow> wait_key_record stored_wait_record" where
  "decodeWaitKeyRecord parse bytes expected =
     (case bytes of
        None \<Rightarrow> Absent
      | Some bs \<Rightarrow>
          if WAIT_KEY_RECORD_MAX_BYTES < length bs then Unreadable
          else case parse bs of
                 None \<Rightarrow> Unreadable
               | Some r \<Rightarrow>
                   if (case r of
                         Key_claim c \<Rightarrow> (case kc_early c of None \<Rightarrow> False | Some e \<Rightarrow> we_generation e \<noteq> int (ka_generation c))
                       | Key_release _ _ \<Rightarrow> False) then Unreadable
                   else if key_address r = expected then Found r else Unreadable)"

definition waitRefOfClaim :: "wait_key_claim \<Rightarrow> full_wait_ref" where
  "waitRefOfClaim c =
     \<lparr>wr_waitId = kc_waitId c, wr_workflowId = ka_workflowId c, wr_runId = kc_runId c, wr_deadline = kc_deadline c,
      fr_workflowName = None, fr_key = Some (ka_key c), fr_early = kc_early c, fr_schema = None\<rparr>"

text \<open>The claim that holds the key, if any.\<close>

definition decideKeyHolder :: "wait_key_record option \<Rightarrow> wait_outcome stored_wait_record \<Rightarrow> wait_key_claim option" where
  "decideKeyHolder highest outcome =
     (case highest of
        Some (Key_claim c) \<Rightarrow> if outcome = Absent then Some c else None
      | _ \<Rightarrow> None)"

definition declaredWaitKeyStep :: "workflow_def \<Rightarrow> string \<Rightarrow> (string \<times> string) option" where
  "declaredWaitKeyStep w key =
     (let waits = (\<lambda>s. case st_task s of Wait_for_signal _ _ (Some k) _ \<Rightarrow> k = key | _ \<Rightarrow> False) in
      find (\<lambda>_. True) (concat (map (\<lambda>j. map (\<lambda>s. (jb_name j, st_name s)) (filter waits (jb_steps j))) (wd_jobs w))))"

section \<open>The records of a key\<close>

record key_store =
  ks_records :: "(nat \<times> wait_key_record option) list"
  ks_outcomes :: "(string \<times> wait_outcome option) list"
  ks_registrations :: "(string \<times> wait_registration option) list"

datatype highest_key_record = Highest_none | Highest_found wait_key_record | Highest_unreadable nat

definition highest_generation :: "key_store \<Rightarrow> nat" where
  "highest_generation st = fold max (map fst (ks_records st)) 0"

definition highestKeyRecord :: "key_store \<Rightarrow> highest_key_record" where
  "highestKeyRecord st =
     (let g = highest_generation st in
      if g = 0 then Highest_none
      else case stored (ks_records st) g of Found r \<Rightarrow> Highest_found r | _ \<Rightarrow> Highest_unreadable g)"

definition createKeyRecord :: "wait_key_record \<Rightarrow> key_store \<Rightarrow> key_store" where
  "createKeyRecord r st = st\<lparr>ks_records := create_once (record_generation r) r (ks_records st)\<rparr>"

definition findKeyRecord :: "nat \<Rightarrow> key_store \<Rightarrow> wait_key_record stored_wait_record" where
  "findKeyRecord g st = stored (ks_records st) g"

definition removeKeyRecord :: "nat \<Rightarrow> key_store \<Rightarrow> key_store" where
  "removeKeyRecord g st = st\<lparr>ks_records := filter (\<lambda>gr. fst gr \<noteq> g) (ks_records st)\<rparr>"

definition settle_wait :: "string \<Rightarrow> wait_outcome \<Rightarrow> key_store \<Rightarrow> key_store" where
  "settle_wait waitId out st = st\<lparr>ks_outcomes := create_once waitId out (ks_outcomes st)\<rparr>"

text \<open>An outcome that names another run is not that wait's outcome.\<close>

definition own_outcome :: "wait_key_claim \<Rightarrow> key_store \<Rightarrow> wait_outcome stored_wait_record" where
  "own_outcome c st =
     (case stored (ks_outcomes st) (kc_waitId c) of
        Found out \<Rightarrow> if wr_runId (outcome_ref out) \<noteq> kc_runId c then Unreadable else Found out
      | other \<Rightarrow> other)"

section \<open>Claiming a key\<close>

record wait_key_request =
  kq_workflowId :: string
  kq_key :: string
  kq_waitId :: string
  kq_runId :: string
  kq_jobName :: string
  kq_stepName :: string
  kq_deadline :: time
  kq_acceptEarly :: "rat option"

datatype wait_key_acquisition =
    Acquired wait_key_claim
  | Own wait_key_claim
  | Held wait_key_claim
  | Key_unreadable nat
  | Contended

text \<open>
  Where a claimant is between two calls on the store. The number is the attempt; \<open>Registration_of\<close> and
  \<open>Take_pending\<close> are the calls for a claim that accepts early signals.
\<close>

datatype claim_pc =
    Highest nat
  | Outcome_of nat wait_key_claim
  | Registration_of nat wait_key_claim
  | Take_pending nat wait_key_claim wait_registration
  | Past_deadline nat wait_key_claim
  | Still nat wait_key_claim
  | Abandoned nat wait_key_claim
  | Cancel nat wait_key_claim
  | Create nat wait_key_claim
  | Done wait_key_acquisition

definition next_attempt :: "nat \<Rightarrow> claim_pc" where
  "next_attempt n = (if Suc n < WAIT_KEY_CLAIM_ATTEMPTS then Highest (Suc n) else Done Contended)"

definition new_claim :: "wait_key_request \<Rightarrow> time \<Rightarrow> wait_key_record option \<Rightarrow> wait_key_claim" where
  "new_claim rq now highest =
     (let generation = (case highest of None \<Rightarrow> 0 | Some r \<Rightarrow> record_generation r) + 1 in
      \<lparr>ka_workflowId = kq_workflowId rq, ka_key = kq_key rq, ka_generation = generation, kc_recordedAt = now,
       kc_waitId = kq_waitId rq, kc_runId = kq_runId rq, kc_jobName = kq_jobName rq, kc_stepName = kq_stepName rq,
       kc_deadline = kq_deadline rq,
       kc_early = map_option (\<lambda>e. \<lparr>we_generation = int generation,
                                  we_overRelease = (case highest of Some (Key_release _ _) \<Rightarrow> True | _ \<Rightarrow> False),
                                  we_from = earliestReceipt now e\<rparr>) (kq_acceptEarly rq)\<rparr>)"

definition mine :: "wait_key_request \<Rightarrow> wait_key_claim \<Rightarrow> bool" where
  "mine rq c \<longleftrightarrow> kc_runId c = kq_runId rq \<and> kc_jobName c = kq_jobName rq \<and> kc_stepName c = kq_stepName rq"

definition by_deadline :: "time \<Rightarrow> nat \<Rightarrow> wait_key_claim \<Rightarrow> claim_pc" where
  "by_deadline now n c = (if now \<le> kc_deadline c then Still n c else Past_deadline n c)"

fun claim_move ::
  "(wait_key_claim \<Rightarrow> wait_registration \<Rightarrow> wait_outcome option) \<Rightarrow> wait_key_request \<Rightarrow> time
   \<Rightarrow> key_store \<Rightarrow> claim_pc \<Rightarrow> key_store \<times> claim_pc" where
  "claim_move pending rq now st (Highest n) =
     (st, case highestKeyRecord st of
            Highest_unreadable g \<Rightarrow> Done (Key_unreadable g)
          | Highest_none \<Rightarrow> Create n (new_claim rq now None)
          | Highest_found (Key_claim c) \<Rightarrow> Outcome_of n c
          | Highest_found r \<Rightarrow> Create n (new_claim rq now (Some r)))"
| "claim_move pending rq now st (Outcome_of n c) =
     (st, if own_outcome c st = Absent
          then (if kc_early c \<noteq> None then Registration_of n c else by_deadline now n c)
          else Create n (new_claim rq now (Some (Key_claim c))))"
| "claim_move pending rq now st (Registration_of n c) =
     (st, case stored (ks_registrations st) (kc_waitId c) of
            Found reg \<Rightarrow>
              if wr_workflowId reg = ka_workflowId c \<and> reg_key reg = Some (ka_key c) then Take_pending n c reg
              else by_deadline now n c
          | _ \<Rightarrow> by_deadline now n c)"
| "claim_move pending rq now st (Take_pending n c reg) =
     (case pending c reg of
        None \<Rightarrow> (st, by_deadline now n c)
      | Some out \<Rightarrow> (settle_wait (kc_waitId c) out st, Create n (new_claim rq now (Some (Key_claim c)))))"
| "claim_move pending rq now st (Past_deadline n c) =
     (settle_wait (kc_waitId c) (timedOutOutcome (waitRefOfClaim c) now) st,
      Create n (new_claim rq now (Some (Key_claim c))))"
| "claim_move pending rq now st (Still n c) =
     (st, case highestKeyRecord st of
            Highest_found r \<Rightarrow>
              if record_generation r \<noteq> ka_generation c then next_attempt n
              else if mine rq c then Done (Own c)
              else if WAIT_KEY_UNREGISTERED_GRACE_MS < now - kc_recordedAt c then Abandoned n c
              else Done (Held c)
          | _ \<Rightarrow> next_attempt n)"
| "claim_move pending rq now st (Abandoned n c) =
     (st, if stored (ks_registrations st) (kc_waitId c) = Absent then Cancel n c else Done (Held c))"
| "claim_move pending rq now st (Cancel n c) =
     (settle_wait (kc_waitId c) (cancelledOutcome (waitRefOfClaim c) now) st, next_attempt n)"
| "claim_move pending rq now st (Create n c) =
     (let st' = createKeyRecord (Key_claim c) st in
      (st', case findKeyRecord (ka_generation c) st' of
              Found (Key_claim c') \<Rightarrow> if kc_waitId c' = kc_waitId c then Done (Acquired c') else next_attempt n
            | _ \<Rightarrow> next_attempt n))"
| "claim_move pending rq now st (Done a) = (st, Done a)"

text \<open>\<^verbatim>\<open>claimWaitKey\<close> when no other process calls the store meanwhile.\<close>

fun calls_left :: "claim_pc \<Rightarrow> nat" where
  "calls_left (Highest n) = (WAIT_KEY_CLAIM_ATTEMPTS - n) * 10 + 9"
| "calls_left (Outcome_of n c) = (WAIT_KEY_CLAIM_ATTEMPTS - n) * 10 + 8"
| "calls_left (Registration_of n c) = (WAIT_KEY_CLAIM_ATTEMPTS - n) * 10 + 7"
| "calls_left (Take_pending n c reg) = (WAIT_KEY_CLAIM_ATTEMPTS - n) * 10 + 6"
| "calls_left (Past_deadline n c) = (WAIT_KEY_CLAIM_ATTEMPTS - n) * 10 + 5"
| "calls_left (Still n c) = (WAIT_KEY_CLAIM_ATTEMPTS - n) * 10 + 4"
| "calls_left (Abandoned n c) = (WAIT_KEY_CLAIM_ATTEMPTS - n) * 10 + 3"
| "calls_left (Cancel n c) = (WAIT_KEY_CLAIM_ATTEMPTS - n) * 10 + 2"
| "calls_left (Create n c) = (WAIT_KEY_CLAIM_ATTEMPTS - n) * 10 + 1"
| "calls_left (Done a) = 0"

lemma calls_left_next: "calls_left (next_attempt n) \<le> (WAIT_KEY_CLAIM_ATTEMPTS - n) * 10"
  by (auto simp: next_attempt_def)

lemma calls_left_next_less [simp]:
  "0 < k \<Longrightarrow> calls_left (next_attempt n) < (WAIT_KEY_CLAIM_ATTEMPTS - n) * 10 + k"
  "calls_left (next_attempt n) < Suc ((WAIT_KEY_CLAIM_ATTEMPTS - n) * 10)"
  "calls_left (next_attempt n) < Suc (Suc ((WAIT_KEY_CLAIM_ATTEMPTS - n) * 10))"
  using calls_left_next [of n] by linarith+

lemma claim_move_progress:
  "claim_move pending rq now st pc = (st', pc') \<Longrightarrow> (\<And>a. pc \<noteq> Done a) \<Longrightarrow> calls_left pc' < calls_left pc"
  by (cases pc) (auto simp: by_deadline_def Let_def
      split: highest_key_record.splits wait_key_record.splits option.splits stored_wait_record.splits)

function claim_run ::
  "(wait_key_claim \<Rightarrow> wait_registration \<Rightarrow> wait_outcome option) \<Rightarrow> wait_key_request \<Rightarrow> time
   \<Rightarrow> key_store \<Rightarrow> claim_pc \<Rightarrow> key_store \<times> wait_key_acquisition" where
  "claim_run pending rq now st pc =
     (case pc of
        Done a \<Rightarrow> (st, a)
      | _ \<Rightarrow> (case claim_move pending rq now st pc of (st', pc') \<Rightarrow> claim_run pending rq now st' pc'))"
  by pat_completeness auto
termination
  by (relation "measure (\<lambda>(_, _, _, _, pc). calls_left pc)") (auto simp del: claim_move.simps calls_left.simps
      split: prod.split intro: claim_move_progress)

declare claim_run.simps [simp del]

text \<open>
  What taking a pending signal for a claim settles its wait with: the claim does not hold the schema the
  wait captured, so the registration gives it. A claim's wait id is a UUID, so the error
  \<^verbatim>\<open>SignalWait.fromData\<close> throws for another id does not arise.
\<close>

definition early_outcome ::
  "(string \<Rightarrow> bool) \<Rightarrow> bool \<Rightarrow> pending_store \<Rightarrow> wait_key_claim \<Rightarrow> wait_registration \<Rightarrow> wait_outcome option" where
  "early_outcome is_uuid stop ps c reg =
     (case earlyWaitRef ((waitRefOfClaim c)\<lparr>fr_schema := Some (reg_schema reg), fr_workflowName := Some (reg_workflowName reg)\<rparr>) of
        None \<Rightarrow> None
      | Some ref \<Rightarrow> (case applicablePendingOutcome is_uuid stop ps ref of Inr out \<Rightarrow> out | Inl _ \<Rightarrow> None))"

definition claimWaitKey ::
  "(string \<Rightarrow> bool) \<Rightarrow> bool \<Rightarrow> pending_store \<Rightarrow> key_store \<Rightarrow> wait_key_request \<Rightarrow> time \<Rightarrow> key_store \<times> wait_key_acquisition" where
  "claimWaitKey is_uuid stop ps st rq now = claim_run (early_outcome is_uuid stop ps) rq now st (Highest 0)"

section \<open>Who holds a key\<close>

datatype key_holder_lookup = Holder wait_key_claim | Holder_free | Holder_unreadable nat

text \<open>The loop of \<^verbatim>\<open>findKeyHolder\<close>; the argument is how often it may still read.\<close>

fun find_holder_loop :: "nat \<Rightarrow> key_store \<Rightarrow> highest_key_record \<Rightarrow> key_holder_lookup" where
  "find_holder_loop 0 st highest = Holder_free"
| "find_holder_loop (Suc n) st highest =
     (case highest of
        Highest_unreadable g \<Rightarrow> Holder_unreadable g
      | Highest_found (Key_claim c) \<Rightarrow>
          (case decideKeyHolder (Some (Key_claim c)) (own_outcome c st) of
             None \<Rightarrow> Holder_free
           | Some holder \<Rightarrow>
               (case highestKeyRecord st of
                  Highest_found r \<Rightarrow>
                    if record_generation r = ka_generation holder then Holder holder
                    else find_holder_loop n st (Highest_found r)
                | still \<Rightarrow> find_holder_loop n st still))
      | _ \<Rightarrow> Holder_free)"

definition findKeyHolder :: "key_store \<Rightarrow> string \<Rightarrow> string \<Rightarrow> key_holder_lookup" where
  "findKeyHolder st workflowId key =
     (if \<not> isSinglePathSegment workflowId \<or> \<not> isWaitKey key then Holder_free
      else find_holder_loop WAIT_KEY_CLAIM_ATTEMPTS st (highestKeyRecord st))"

definition findSettledKeyHolder :: "key_store \<Rightarrow> string \<Rightarrow> string \<Rightarrow> (wait_key_claim \<times> wait_outcome) option" where
  "findSettledKeyHolder st workflowId key =
     (if \<not> isSinglePathSegment workflowId \<or> \<not> isWaitKey key then None
      else case highestKeyRecord st of
             Highest_found (Key_claim c) \<Rightarrow> (case own_outcome c st of Found out \<Rightarrow> Some (c, out) | _ \<Rightarrow> None)
           | _ \<Rightarrow> None)"

text \<open>The claims that read a slot: the slot's own, and the next one when it was made over a release.\<close>

fun claims_reading :: "nat \<Rightarrow> (nat \<Rightarrow> wait_key_record stored_wait_record) \<Rightarrow> nat list \<Rightarrow> wait_key_claim list \<times> bool" where
  "claims_reading slot read [] = ([], False)"
| "claims_reading slot read (g # gs) =
     (case claims_reading slot read gs of (claims, unreadable) \<Rightarrow>
        (case read g of
           Unreadable \<Rightarrow> (claims, True)
         | Found (Key_claim c) \<Rightarrow>
             (if g = slot \<or> (case kc_early c of Some e \<Rightarrow> we_overRelease e | None \<Rightarrow> False) then c # claims else claims, unreadable)
         | _ \<Rightarrow> (claims, unreadable)))"

definition claimsReadingSlot :: "key_store \<Rightarrow> nat \<Rightarrow> wait_key_record option \<Rightarrow> wait_key_claim list \<times> bool" where
  "claimsReadingSlot st slot known =
     claims_reading slot
       (\<lambda>g. case known of
              Some r \<Rightarrow> if record_generation r = g then Found r else findKeyRecord g st
            | None \<Rightarrow> findKeyRecord g st)
       [slot, slot + 1]"

section \<open>Removing claims\<close>

text \<open>Where \<^verbatim>\<open>releaseKeyClaims\<close> is between two calls for the records of a key.\<close>

datatype gc_pc =
    Gc_list
  | Gc_highest "wait_key_record list"
  | Gc_release "wait_key_record list" wait_key_claim
  | Gc_remove "wait_key_record list" nat

fun gc_selects :: "(wait_key_claim \<Rightarrow> bool) \<Rightarrow> wait_key_record \<Rightarrow> bool" where
  "gc_selects shouldRemove (Key_claim c) = shouldRemove c"
| "gc_selects shouldRemove (Key_release _ _) = True"

definition release_over :: "wait_key_claim \<Rightarrow> time \<Rightarrow> wait_key_record" where
  "release_over c now =
     Key_release \<lparr>ka_workflowId = ka_workflowId c, ka_key = ka_key c, ka_generation = ka_generation c + 1\<rparr> now"

fun gc_move :: "(wait_key_claim \<Rightarrow> bool) \<Rightarrow> time \<Rightarrow> key_store \<Rightarrow> gc_pc \<Rightarrow> key_store \<times> gc_pc option" where
  "gc_move shouldRemove now st Gc_list =
     (st, let selected = filter (gc_selects shouldRemove) (List.map_filter snd (ks_records st)) in
          if selected = [] then None else Some (Gc_highest selected))"
| "gc_move shouldRemove now st (Gc_highest selected) =
     (st, case highestKeyRecord st of
            Highest_found (Key_claim c) \<Rightarrow>
              if list_ex (\<lambda>r. record_generation r = ka_generation c) selected then Some (Gc_release selected c)
              else Some (Gc_remove selected (ka_generation c))
          | Highest_found (Key_release a t) \<Rightarrow> Some (Gc_remove selected (ka_generation a))
          | _ \<Rightarrow> None)"
| "gc_move shouldRemove now st (Gc_release selected c) =
     (createKeyRecord (release_over c now) st, Some (Gc_remove selected (ka_generation c + 1)))"
| "gc_move shouldRemove now st (Gc_remove [] bound) = (st, None)"
| "gc_move shouldRemove now st (Gc_remove (r # selected) bound) =
     (if bound \<le> record_generation r then st else removeKeyRecord (record_generation r) st, Some (Gc_remove selected bound))"

text \<open>The pending signals of the claims it removed go with them.\<close>

fun orphaned_slots :: "nat \<Rightarrow> wait_key_record \<Rightarrow> nat list" where
  "orphaned_slots bound (Key_claim c) =
     (if bound \<le> ka_generation c then []
      else ka_generation c #
        (if (case kc_early c of Some e \<Rightarrow> we_overRelease e | None \<Rightarrow> False) then [ka_generation c - 1] else []))"
| "orphaned_slots bound (Key_release _ _) = []"

definition remove_orphaned :: "string \<Rightarrow> string \<Rightarrow> nat \<Rightarrow> wait_key_record list \<Rightarrow> pending_store \<Rightarrow> pending_store" where
  "remove_orphaned workflowId key bound selected ps =
     (let slots = concat (map (orphaned_slots bound) selected) in
      fold removePendingRecord
        (filter (\<lambda>a. pa_workflowId a = workflowId \<and> pa_key a = key \<and> pa_slot a \<in> set slots) (map fst ps)) ps)"

section \<open>Processes that share a key\<close>

datatype key_pc = Key_idle | Claiming wait_key_request time claim_pc | Collecting gc_pc

text \<open>
  Besides the store and the processes, what happened: the records ever created, the waits that were
  settled or whose claim a removal released, and the wait ids handed out.
\<close>

record key_config =
  kg_store :: key_store
  kg_procs :: "nat \<Rightarrow> key_pc"
  kg_created :: "wait_key_record list"
  kg_closed :: "string set"
  kg_used :: "string set"

definition new_records :: "key_store \<Rightarrow> key_store \<Rightarrow> wait_key_record list" where
  "new_records st st' = map (\<lambda>gr. the (snd gr)) (drop (length (ks_records st)) (ks_records st'))"

text \<open>The generations a process may yet create without reading the highest record again.\<close>

fun claim_plans :: "claim_pc \<Rightarrow> nat set" where
  "claim_plans (Outcome_of n c) = {ka_generation c + 1}"
| "claim_plans (Registration_of n c) = {ka_generation c + 1}"
| "claim_plans (Take_pending n c reg) = {ka_generation c + 1}"
| "claim_plans (Past_deadline n c) = {ka_generation c + 1}"
| "claim_plans (Create n c) = {ka_generation c}"
| "claim_plans _ = {}"

fun plans :: "key_pc \<Rightarrow> nat set" where
  "plans (Claiming rq now pc) = claim_plans pc"
| "plans (Collecting (Gc_release selected c)) = {ka_generation c + 1}"
| "plans _ = {}"

text \<open>
  A removal is timely when no process that read the key before the record was superseded is still
  about to create the record's generation again.
\<close>

fun timely :: "(nat \<Rightarrow> key_pc) \<Rightarrow> gc_pc \<Rightarrow> bool" where
  "timely procs (Gc_remove (r # selected) bound) \<longleftrightarrow>
     bound \<le> record_generation r \<or> (\<forall>i. record_generation r \<notin> plans (procs i))"
| "timely procs _ \<longleftrightarrow> True"

definition kg_update :: "key_config \<Rightarrow> nat \<Rightarrow> key_store \<Rightarrow> key_pc \<Rightarrow> string set \<Rightarrow> key_config" where
  "kg_update cf i st' p closes =
     cf\<lparr>kg_store := st', kg_procs := (kg_procs cf)(i := p),
        kg_created := kg_created cf @ new_records (kg_store cf) st',
        kg_closed := kg_closed cf \<union> fst ` set (ks_outcomes st') \<union> closes\<rparr>"

fun gc_closes :: "gc_pc \<Rightarrow> string set" where
  "gc_closes (Gc_release selected c) = {kc_waitId c}"
| "gc_closes _ = {}"

inductive key_step :: "bool \<Rightarrow> key_config \<Rightarrow> key_config \<Rightarrow> bool"
  for careful :: bool where
  begin_claim: "kg_procs cf i = Key_idle \<Longrightarrow> kq_waitId rq \<notin> kg_used cf \<Longrightarrow>
    key_step careful cf (cf\<lparr>kg_procs := (kg_procs cf)(i := Claiming rq now (Highest 0)),
                                     kg_used := insert (kq_waitId rq) (kg_used cf)\<rparr>)"
| claim: "kg_procs cf i = Claiming rq now pc \<Longrightarrow> claim_move pending rq now (kg_store cf) pc = (st', pc') \<Longrightarrow>
    key_step careful cf (kg_update cf i st' (Claiming rq now pc') {})"
| begin_gc: "kg_procs cf i = Key_idle \<Longrightarrow>
    key_step careful cf (cf\<lparr>kg_procs := (kg_procs cf)(i := Collecting Gc_list)\<rparr>)"
| gc: "kg_procs cf i = Collecting pc \<Longrightarrow> careful \<longrightarrow> timely (kg_procs cf) pc \<Longrightarrow>
    gc_move shouldRemove now (kg_store cf) pc = (st', next) \<Longrightarrow>
    key_step careful cf (kg_update cf i st' (case next of None \<Rightarrow> Key_idle | Some pc' \<Rightarrow> Collecting pc') (gc_closes pc))"
| settle: "key_step careful cf
    (cf\<lparr>kg_store := settle_wait waitId out (kg_store cf), kg_closed := insert waitId (kg_closed cf)\<rparr>)"
| register: "key_step careful cf
    (cf\<lparr>kg_store := (kg_store cf)\<lparr>ks_registrations := create_once waitId reg (ks_registrations (kg_store cf))\<rparr>\<rparr>)"
| forget: "key_step careful cf
    (cf\<lparr>kg_store := (kg_store cf)\<lparr>ks_outcomes := filter P (ks_outcomes (kg_store cf))\<rparr>\<rparr>)"

definition key_start :: key_config where
  "key_start = \<lparr>kg_store = \<lparr>ks_records = [], ks_outcomes = [], ks_registrations = []\<rparr>, kg_procs = (\<lambda>_. Key_idle),
                kg_created = [], kg_closed = {}, kg_used = {}\<rparr>"

text \<open>A process whose claim won and whose wait is neither settled nor released.\<close>

definition holds_open :: "key_config \<Rightarrow> nat \<Rightarrow> bool" where
  "holds_open cf i \<longleftrightarrow>
     (case kg_procs cf i of Claiming _ _ (Done (Acquired c)) \<Rightarrow> kc_waitId c \<notin> kg_closed cf | _ \<Rightarrow> False)"

section \<open>What every process may rely on\<close>

definition keys_of_store :: "key_store \<Rightarrow> nat set" where
  "keys_of_store st = fst ` set (ks_records st)"

fun closed_record :: "string set \<Rightarrow> wait_key_record \<Rightarrow> bool" where
  "closed_record settled (Key_claim c) \<longleftrightarrow> kc_waitId c \<in> settled"
| "closed_record settled (Key_release _ _) \<longleftrightarrow> True"

lemma closed_record_mono: "closed_record settled r \<Longrightarrow> settled \<subseteq> settled' \<Longrightarrow> closed_record settled' r"
  by (cases r) auto

text \<open>
  A planned generation is either still in the store or the one after the last ever created.
\<close>

definition plan_ok :: "nat \<Rightarrow> nat set \<Rightarrow> nat \<Rightarrow> bool" where
  "plan_ok n keys g \<longleftrightarrow> 1 \<le> g \<and> g \<le> Suc n \<and> (g \<le> n \<longrightarrow> g \<in> keys)"

fun claim_knows :: "wait_key_record list \<Rightarrow> string set \<Rightarrow> wait_key_request \<Rightarrow> claim_pc \<Rightarrow> bool" where
  "claim_knows created settled rq (Create n c) \<longleftrightarrow>
     kc_waitId c = kq_waitId rq \<and> (ka_generation c = 1 \<or> closed_record settled (created ! (ka_generation c - 2)))"
| "claim_knows created settled rq (Done (Acquired c)) \<longleftrightarrow> Key_claim c \<in> set created \<and> kc_waitId c = kq_waitId rq"
| "claim_knows created settled rq (Outcome_of n c) \<longleftrightarrow> Key_claim c \<in> set created"
| "claim_knows created settled rq (Registration_of n c) \<longleftrightarrow> Key_claim c \<in> set created"
| "claim_knows created settled rq (Take_pending n c reg) \<longleftrightarrow> Key_claim c \<in> set created"
| "claim_knows created settled rq (Past_deadline n c) \<longleftrightarrow> Key_claim c \<in> set created"
| "claim_knows created settled rq _ \<longleftrightarrow> True"

fun proc_knows :: "wait_key_record list \<Rightarrow> string set \<Rightarrow> key_pc \<Rightarrow> bool" where
  "proc_knows created settled (Claiming rq now pc) \<longleftrightarrow> claim_knows created settled rq pc"
| "proc_knows created settled (Collecting (Gc_release selected c)) \<longleftrightarrow> Key_claim c \<in> set created"
| "proc_knows created settled (Collecting (Gc_remove selected bound)) \<longleftrightarrow> bound \<le> length created"
| "proc_knows created settled _ \<longleftrightarrow> True"

definition proc_ok :: "wait_key_record list \<Rightarrow> string set \<Rightarrow> nat set \<Rightarrow> key_pc \<Rightarrow> bool" where
  "proc_ok created settled keys p \<longleftrightarrow>
     (\<forall>g\<in>plans p. plan_ok (length created) keys g) \<and> proc_knows created settled p"

fun request_of :: "key_pc \<Rightarrow> string set" where
  "request_of (Claiming rq now pc) = {kq_waitId rq}"
| "request_of _ = {}"

text \<open>The records in the store are those created, by generation, and the last created is among them.\<close>

definition store_ok :: "wait_key_record list \<Rightarrow> key_store \<Rightarrow> bool" where
  "store_ok created st \<longleftrightarrow>
     map record_generation created = [1..<Suc (length created)] \<and> distinct (map fst (ks_records st)) \<and>
     (\<forall>(g, x)\<in>set (ks_records st). \<exists>r\<in>set created. x = Some r \<and> record_generation r = g) \<and>
     (created \<noteq> [] \<longrightarrow> length created \<in> keys_of_store st)"

definition key_inv :: "key_config \<Rightarrow> bool" where
  "key_inv cf \<longleftrightarrow>
     store_ok (kg_created cf) (kg_store cf) \<and>
     (\<forall>r\<in>set (butlast (kg_created cf)). closed_record (kg_closed cf) r) \<and>
     fst ` set (ks_outcomes (kg_store cf)) \<subseteq> kg_closed cf \<and>
     (\<forall>i. proc_ok (kg_created cf) (kg_closed cf) (keys_of_store (kg_store cf)) (kg_procs cf i)) \<and>
     (\<forall>i. request_of (kg_procs cf i) \<subseteq> kg_used cf) \<and>
     (\<forall>i j. i \<noteq> j \<longrightarrow> request_of (kg_procs cf i) \<inter> request_of (kg_procs cf j) = {})"

lemma claim_knows_mono:
  assumes "claim_knows created settled rq pc" and "settled \<subseteq> settled'"
    and "\<forall>g\<in>claim_plans pc. 1 \<le> g \<and> g \<le> Suc (length created)"
  shows "claim_knows (created @ new) settled' rq pc"
  using assms by (cases "(created, settled, rq, pc)" rule: claim_knows.cases)
    (auto simp: nth_append intro: closed_record_mono)

lemma proc_ok_mono:
  assumes "proc_ok created settled keys p" and "settled \<subseteq> settled'" and "keys \<subseteq> keys'"
    and "\<forall>g. length created < g \<and> g \<le> length (created @ new) \<longrightarrow> g \<in> keys'"
  shows "proc_ok (created @ new) settled' keys' p"
proof -
  have "proc_knows (created @ new) settled' p"
    using assms(1,2) claim_knows_mono [of created settled _ _ settled' new]
    by (cases "(created, settled, p)" rule: proc_knows.cases) (auto simp: proc_ok_def plan_ok_def)
  moreover have "plan_ok (length (created @ new)) keys' g" if "g \<in> plans p" for g
    using that assms(1,3,4) by (auto simp: proc_ok_def plan_ok_def)
  ultimately show ?thesis by (simp add: proc_ok_def)
qed

lemma proc_ok_remove:
  "proc_ok created settled keys p \<Longrightarrow> g \<notin> plans p \<Longrightarrow> proc_ok created settled (keys - {g}) p"
  by (auto simp: proc_ok_def plan_ok_def)

lemma fold_max_upper: "(\<forall>x\<in>set xs. x \<le> m) \<Longrightarrow> n \<le> m \<Longrightarrow> fold max xs n \<le> (m :: nat)"
  by (induction xs arbitrary: n) simp_all

lemma fold_max_ge: "x \<in> set xs \<or> x \<le> n \<Longrightarrow> (x :: nat) \<le> fold max xs n"
proof (induction xs arbitrary: n)
  case (Cons y ys)
  then have "x \<in> set ys \<or> x \<le> max y n" unfolding le_max_iff_disj by fastforce
  with Cons.IH [of "max y n"] show ?case by simp
qed simp

lemma created_nth: "map record_generation created = [1..<Suc (length created)] \<Longrightarrow> r \<in> set created \<Longrightarrow>
    1 \<le> record_generation r \<and> record_generation r \<le> length created \<and> created ! (record_generation r - 1) = r"
proof -
  assume gens: "map record_generation created = [1..<Suc (length created)]" and "r \<in> set created"
  then obtain k where k: "k < length created" "created ! k = r" by (auto simp: in_set_conv_nth)
  have "map record_generation created ! k = Suc k" using k(1) unfolding gens by (simp del: upt_Suc)
  with k show ?thesis by simp
qed

lemma store_ok_record:
  assumes "store_ok created st" and "(g, x) \<in> set (ks_records st)"
  obtains r where "r \<in> set created" and "x = Some r" and "record_generation r = g"
proof -
  from assms have "\<exists>r\<in>set created. x = Some r \<and> record_generation r = g"
    unfolding store_ok_def by blast
  with that show thesis by blast
qed

lemma nth_upt_Suc: "k < n \<Longrightarrow> [1..<Suc n] ! k = Suc k"
  by (simp del: upt_Suc)

lemma highest_is_last:
  assumes "store_ok created st"
  shows "highestKeyRecord st = (if created = [] then Highest_none else Highest_found (last created))"
proof -
  have gens: "map record_generation created = [1..<Suc (length created)]" using assms unfolding store_ok_def by blast
  have keys: "g \<le> length created \<and> created \<noteq> []" if "g \<in> set (map fst (ks_records st))" for g
  proof -
    from that obtain x where "(g, x) \<in> set (ks_records st)" by auto
    then obtain r where "r \<in> set created" "record_generation r = g" by (rule store_ok_record [OF assms])
    with created_nth [OF gens, of r] show ?thesis by auto
  qed
  show ?thesis
  proof (cases "created = []")
    case True
    with keys have "map fst (ks_records st) = []" by (metis list.set_intros(1) neq_Nil_conv)
    with True show ?thesis by (simp add: highestKeyRecord_def highest_generation_def Let_def)
  next
    case False
    then have top: "length created \<in> set (map fst (ks_records st))" using assms by (simp add: store_ok_def keys_of_store_def)
    then have "highest_generation st = length created"
      unfolding highest_generation_def using keys
      by (intro antisym fold_max_upper fold_max_ge) auto
    moreover obtain x where x: "(length created, x) \<in> set (ks_records st)" using top by auto
    moreover from this obtain r where r: "r \<in> set created" "x = Some r" "record_generation r = length created"
      by (rule store_ok_record [OF assms])
    moreover from this created_nth [OF gens, of r] have "r = last created"
      using False by (simp add: last_conv_nth)
    moreover from assms have "distinct (map fst (ks_records st))" by (simp add: store_ok_def)
    ultimately show ?thesis using False by (simp add: highestKeyRecord_def stored_def Let_def)
  qed
qed

section \<open>One call\<close>

text \<open>What a call may do: add at most the next record, over one whose wait is closed.\<close>

definition grows :: "wait_key_record list \<Rightarrow> string set \<Rightarrow> key_store \<Rightarrow> key_store \<Rightarrow> bool" where
  "grows created settled' st st' \<longleftrightarrow>
     store_ok (created @ new_records st st') st' \<and> keys_of_store st \<subseteq> keys_of_store st' \<and>
     (\<forall>g. length created < g \<and> g \<le> length (created @ new_records st st') \<longrightarrow> g \<in> keys_of_store st') \<and>
     (\<forall>r\<in>set (butlast (created @ new_records st st')). r \<in> set (butlast created) \<or> closed_record settled' r)"

lemma new_records_same: "ks_records st' = ks_records st \<Longrightarrow> new_records st st' = []"
  by (simp add: new_records_def)

lemma store_ok_same: "ks_records st' = ks_records st \<Longrightarrow> store_ok created st' = store_ok created st"
  by (simp add: store_ok_def keys_of_store_def)

lemma grows_same: "store_ok created st \<Longrightarrow> ks_records st' = ks_records st \<Longrightarrow> grows created settled' st st'"
proof -
  assume ok: "store_ok created st" and same: "ks_records st' = ks_records st"
  then have "store_ok created st'" using store_ok_same [OF same] by blast
  moreover have "keys_of_store st' = keys_of_store st" using same by (simp add: keys_of_store_def)
  ultimately show ?thesis using new_records_same [OF same] by (simp add: grows_def) (meson not_le)
qed

lemma stored_created:
  assumes "store_ok created st" and "findKeyRecord g st = Found r"
  shows "r \<in> set created" and "record_generation r = g"
proof -
  from assms(2) have "map_of (ks_records st) g = Some (Some r)"
    by (simp add: findKeyRecord_def stored_def split: option.splits)
  then obtain r' where "r' \<in> set created" "Some r = Some r'" "record_generation r' = g"
    by (rule store_ok_record [OF assms(1) map_of_SomeD])
  then show "r \<in> set created" "record_generation r = g" by auto
qed

lemma create_grows:
  assumes "store_ok created st" and "plan_ok (length created) (keys_of_store st) (record_generation r)"
    and "record_generation r = 1 \<or> closed_record settled' (created ! (record_generation r - 2))"
  shows "grows created settled' st (createKeyRecord r st)"
    and "\<exists>r'. findKeyRecord (record_generation r) (createKeyRecord r st) = Found r' \<and>
           r' \<in> set (created @ new_records st (createKeyRecord r st))"
    and "record_generation r \<le> length (created @ new_records st (createKeyRecord r st))"
proof -
  let ?g = "record_generation r" and ?st = "createKeyRecord r st"
  have "grows created settled' st ?st \<and>
    (\<exists>r'. findKeyRecord ?g ?st = Found r' \<and> r' \<in> set (created @ new_records st ?st)) \<and>
    ?g \<le> length (created @ new_records st ?st)"
  proof (cases "?g \<in> keys_of_store st")
    case True
    then have in_map: "map_of (ks_records st) ?g \<noteq> None" by (simp add: keys_of_store_def map_of_eq_None_iff)
    then have same: "ks_records ?st = ks_records st" by (simp add: createKeyRecord_def create_once_def)
    from in_map obtain x where x: "map_of (ks_records st) ?g = Some x" by blast
    then obtain r' where "x = Some r'" by (rule store_ok_record [OF assms(1) map_of_SomeD])
    with x have r': "findKeyRecord ?g st = Found r'" by (simp add: findKeyRecord_def stored_def)
    with same have "findKeyRecord ?g ?st = Found r'" by (simp add: findKeyRecord_def)
    moreover from stored_created [OF assms(1) r'] have "r' \<in> set created" "record_generation r' = ?g" by auto
    moreover from this created_nth [of created r'] assms(1) have "?g \<le> length created" by (simp add: store_ok_def)
    ultimately show ?thesis using new_records_same [OF same] grows_same [OF assms(1) same] by simp
  next
    case False
    with assms(2) have g: "?g = Suc (length created)" by (auto simp: plan_ok_def)
    from False have absent: "map_of (ks_records st) ?g = None" by (simp add: keys_of_store_def map_of_eq_None_iff)
    then have recs: "ks_records ?st = ks_records st @ [(?g, Some r)]"
      by (simp add: createKeyRecord_def create_once_def)
    then have new: "new_records st ?st = [r]" by (simp add: new_records_def)
    have keys: "keys_of_store ?st = insert ?g (keys_of_store st)" by (auto simp: keys_of_store_def recs)
    have "store_ok (created @ [r]) ?st"
    proof -
      have "map record_generation (created @ [r]) = [1..<Suc (length (created @ [r]))]"
        using assms(1) g by (simp add: store_ok_def)
      moreover have "distinct (map fst (ks_records ?st))"
        using assms(1) absent unfolding recs store_ok_def by (simp add: map_of_eq_None_iff)
      moreover have "\<exists>r'\<in>set (created @ [r]). x = Some r' \<and> record_generation r' = k" if "(k, x) \<in> set (ks_records ?st)" for k x
      proof (cases "(k, x) \<in> set (ks_records st)")
        case True
        then obtain r' where "r' \<in> set created" "x = Some r'" "record_generation r' = k" by (rule store_ok_record [OF assms(1)])
        then show ?thesis by auto
      next
        case False
        with that show ?thesis unfolding recs by auto
      qed
      moreover have "length (created @ [r]) \<in> keys_of_store ?st" using g unfolding keys by simp
      ultimately show ?thesis unfolding store_ok_def by blast
    qed
    moreover have "findKeyRecord ?g ?st = Found r" using absent by (simp add: findKeyRecord_def stored_def recs map_add_def)
    moreover have "x \<in> set (butlast created) \<or> closed_record settled' x" if "x \<in> set created" for x
    proof (cases "x = last created")
      case True
      from that have "created \<noteq> []" by auto
      then have "created ! (?g - 2) = x" using True g by (simp add: last_conv_nth)
      then show ?thesis using assms(3) g \<open>created \<noteq> []\<close> by auto
    next
      case False
      from that have "x \<in> set (butlast created @ [last created])" by (metis append_butlast_last_id empty_iff empty_set)
      with False show ?thesis by simp
    qed
    ultimately show ?thesis using new keys g by (auto simp: grows_def)
  qed
  then show "grows created settled' st ?st"
    and "\<exists>r'. findKeyRecord ?g ?st = Found r' \<and> r' \<in> set (created @ new_records st ?st)"
    and "?g \<le> length (created @ new_records st ?st)" by blast+
qed

lemma settle_wait_records [simp]: "ks_records (settle_wait w out st) = ks_records st"
  by (simp add: settle_wait_def)

lemma settle_wait_outcomes: "fst ` set (ks_outcomes (settle_wait w out st)) = insert w (fst ` set (ks_outcomes st))"
  by (auto simp: settle_wait_def create_once_def map_of_eq_None_iff)

lemma own_outcome_closed:
  "own_outcome c st \<noteq> Absent \<Longrightarrow> fst ` set (ks_outcomes st) \<subseteq> settled \<Longrightarrow> kc_waitId c \<in> settled"
  by (auto simp: own_outcome_def stored_def dest!: map_of_SomeD split: option.splits stored_wait_record.splits)

lemma proc_ok_next [simp]: "proc_ok created settled keys (Claiming rq now (next_attempt n))"
  by (simp add: next_attempt_def proc_ok_def)

lemma new_claim_simps [simp]:
  "kc_waitId (new_claim rq now highest) = kq_waitId rq"
  "ka_generation (new_claim rq now None) = 1"
  "ka_generation (new_claim rq now (Some r)) = record_generation r + 1"
  by (simp_all add: new_claim_def Let_def)

text \<open>A claimant that knows the wait of the record it read to be closed may create the next one.\<close>

lemma proc_ok_create:
  assumes "map record_generation created = [1..<Suc (length created)]" and "r \<in> set created"
    and "closed_record settled r" and "plan_ok (length created) keys (record_generation r + 1)"
  shows "proc_ok created settled keys (Claiming rq now (Create n (new_claim rq now' (Some r))))"
  using assms created_nth [OF assms(1,2)] by (simp add: proc_ok_def)

lemma proc_ok_holding:
  assumes "Key_claim c \<in> set created" and "plan_ok (length created) keys (ka_generation c + 1)"
  shows "proc_ok created settled keys (Claiming rq now (Outcome_of n c))"
    and "proc_ok created settled keys (Claiming rq now (Registration_of n c))"
    and "proc_ok created settled keys (Claiming rq now (Take_pending n c reg))"
    and "proc_ok created settled keys (Claiming rq now (by_deadline t n c))"
  using assms by (auto simp: proc_ok_def by_deadline_def)

lemma plan_after_highest:
  assumes "store_ok created st" and "highestKeyRecord st = Highest_found r"
  shows "r \<in> set created" and "plan_ok (length created) keys (record_generation r + 1)"
proof -
  from assms have r: "created \<noteq> []" "r = last created" using highest_is_last by (auto split: if_splits)
  then show "r \<in> set created" by simp
  have "record_generation r = map record_generation created ! (length created - 1)" using r by (simp add: last_conv_nth)
  also have "\<dots> = length created"
    using assms(1) r(1) unfolding store_ok_def by (metis (no_types, lifting) Suc_diff_1 length_greater_0_conv lessI nth_upt_Suc)
  finally show "plan_ok (length created) keys (record_generation r + 1)" by (simp add: plan_ok_def)
qed

text \<open>What a call of a claimant does.\<close>

lemma claim_move_ok:
  assumes store: "store_ok created st" and outcomes: "fst ` set (ks_outcomes st) \<subseteq> settled"
    and ok: "proc_ok created settled (keys_of_store st) (Claiming rq now pc)"
    and move: "claim_move pending rq now st pc = (st', pc')"
    and settled': "settled' = settled \<union> fst ` set (ks_outcomes st')"
  shows "grows created settled' st st' \<and>
    proc_ok (created @ new_records st st') settled' (keys_of_store st') (Claiming rq now pc')"
proof -
  have gens: "map record_generation created = [1..<Suc (length created)]" using store unfolding store_ok_def by blast
  have sub: "settled \<subseteq> settled'" using settled' by blast
  have still: ?thesis if "ks_records st' = ks_records st" "proc_ok created settled' (keys_of_store st) (Claiming rq now pc')"
  proof -
    from that(1) have "keys_of_store st' = keys_of_store st" by (simp add: keys_of_store_def)
    with that grows_same [OF store that(1)] new_records_same [OF that(1)] show ?thesis by simp
  qed
  have over: "proc_ok created settled' (keys_of_store st) (Claiming rq now (Create n (new_claim rq now (Some (Key_claim c)))))"
    if "Key_claim c \<in> set created" "kc_waitId c \<in> settled'" "plan_ok (length created) (keys_of_store st) (ka_generation c + 1)" for n c
    using proc_ok_create [OF gens that(1)] that(2,3) by simp
  show ?thesis
  proof (cases pc)
    case (Highest n)
    have "proc_ok created settled' (keys_of_store st) (Claiming rq now pc')"
    proof (cases "highestKeyRecord st")
      case Highest_none
      then have "created = []" using highest_is_last [OF store] by (auto split: if_splits)
      then show ?thesis using move Highest Highest_none by (auto simp: proc_ok_def plan_ok_def)
    next
      case (Highest_found r)
      note r = plan_after_highest [OF store this]
      show ?thesis
      proof (cases r)
        case (Key_claim c)
        then show ?thesis using move Highest Highest_found r proc_ok_holding(1) [of c created] by auto
      next
        case (Key_release a t)
        then show ?thesis using move Highest Highest_found proc_ok_create [OF gens r(1) _ r(2)] by auto
      qed
    next
      case (Highest_unreadable g)
      then show ?thesis using move Highest by (auto simp: proc_ok_def)
    qed
    then show ?thesis using still move Highest by simp
  next
    case (Outcome_of n c)
    with ok have c: "Key_claim c \<in> set created" "plan_ok (length created) (keys_of_store st) (ka_generation c + 1)"
      by (auto simp: proc_ok_def)
    show ?thesis
      using still move Outcome_of proc_ok_holding [OF c] over [OF c(1) _ c(2)] own_outcome_closed [OF _ outcomes, of c] sub
      by (auto split: if_splits)
  next
    case (Registration_of n c)
    with ok have c: "Key_claim c \<in> set created" "plan_ok (length created) (keys_of_store st) (ka_generation c + 1)"
      by (auto simp: proc_ok_def)
    show ?thesis
      using still move Registration_of proc_ok_holding [OF c] by (auto split: stored_wait_record.splits if_splits)
  next
    case (Take_pending n c reg)
    with ok have c: "Key_claim c \<in> set created" "plan_ok (length created) (keys_of_store st) (ka_generation c + 1)"
      by (auto simp: proc_ok_def)
    show ?thesis
    proof (cases "pending c reg")
      case None
      then show ?thesis using still move Take_pending proc_ok_holding [OF c] by auto
    next
      case (Some out)
      then have st': "st' = settle_wait (kc_waitId c) out st" using move Take_pending by simp
      then have "kc_waitId c \<in> settled'" using settled' settle_wait_outcomes by auto
      then show ?thesis using still move Take_pending Some over [OF c(1) _ c(2)] st' by auto
    qed
  next
    case (Past_deadline n c)
    with ok have c: "Key_claim c \<in> set created" "plan_ok (length created) (keys_of_store st) (ka_generation c + 1)"
      by (auto simp: proc_ok_def)
    have st': "st' = settle_wait (kc_waitId c) (timedOutOutcome (waitRefOfClaim c) now) st" using move Past_deadline by simp
    then have "kc_waitId c \<in> settled'" using settled' settle_wait_outcomes by auto
    then show ?thesis using still move Past_deadline over [OF c(1) _ c(2)] st' by auto
  next
    case (Still n c)
    then show ?thesis using still move
      by (auto simp: proc_ok_def [of _ _ _ "Claiming rq now (Done _)"] proc_ok_def [of _ _ _ "Claiming rq now (Abandoned _ _)"]
          split: highest_key_record.splits if_splits)
  next
    case (Abandoned n c)
    then show ?thesis using still move by (auto simp: proc_ok_def split: if_splits)
  next
    case (Cancel n c)
    then show ?thesis using still move by auto
  next
    case (Create n c)
    with ok have c: "kc_waitId c = kq_waitId rq" "plan_ok (length created) (keys_of_store st) (ka_generation c)"
      "ka_generation c = 1 \<or> closed_record settled' (created ! (ka_generation c - 2))"
      using closed_record_mono [OF _ sub] by (auto simp: proc_ok_def)
    have st': "st' = createKeyRecord (Key_claim c) st" using move Create by (simp add: Let_def)
    have pre: "plan_ok (length created) (keys_of_store st) (record_generation (Key_claim c))"
      "record_generation (Key_claim c) = 1 \<or> closed_record settled' (created ! (record_generation (Key_claim c) - 2))"
      using c(2,3) by simp_all
    note grown = create_grows [OF store pre, folded st']
    then have "proc_ok (created @ new_records st st') settled' (keys_of_store st') (Claiming rq now pc')"
      using move Create c(1) unfolding st'
      by (auto simp: proc_ok_def [of _ _ _ "Claiming rq now (Done _)"] Let_def split: wait_key_record.splits)
    with grown show ?thesis by blast
  next
    case (Done a)
    have "proc_ok (created @ []) settled' (keys_of_store st) (Claiming rq now pc)"
      by (rule proc_ok_mono [OF ok sub order_refl]) auto
    with Done still move show ?thesis by auto
  qed
qed

section \<open>One open wait for a key\<close>

lemma kg_update_simps [simp]:
  "kg_store (kg_update cf i st' p closes) = st'"
  "kg_procs (kg_update cf i st' p closes) = (kg_procs cf)(i := p)"
  "kg_created (kg_update cf i st' p closes) = kg_created cf @ new_records (kg_store cf) st'"
  "kg_closed (kg_update cf i st' p closes) = kg_closed cf \<union> fst ` set (ks_outcomes st') \<union> closes"
  "kg_used (kg_update cf i st' p closes) = kg_used cf"
  by (simp_all add: kg_update_def)

lemma key_invI:
  assumes "store_ok (kg_created cf) (kg_store cf)"
    and "\<And>r. r \<in> set (butlast (kg_created cf)) \<Longrightarrow> closed_record (kg_closed cf) r"
    and "fst ` set (ks_outcomes (kg_store cf)) \<subseteq> kg_closed cf"
    and "\<And>i. proc_ok (kg_created cf) (kg_closed cf) (keys_of_store (kg_store cf)) (kg_procs cf i)"
    and "\<And>i. request_of (kg_procs cf i) \<subseteq> kg_used cf"
    and "\<And>i j. i \<noteq> j \<Longrightarrow> request_of (kg_procs cf i) \<inter> request_of (kg_procs cf j) = {}"
  shows "key_inv cf"
  using assms by (simp add: key_inv_def)

lemma key_invD:
  assumes "key_inv cf"
  shows "store_ok (kg_created cf) (kg_store cf)"
    and "r \<in> set (butlast (kg_created cf)) \<Longrightarrow> closed_record (kg_closed cf) r"
    and "fst ` set (ks_outcomes (kg_store cf)) \<subseteq> kg_closed cf"
    and "proc_ok (kg_created cf) (kg_closed cf) (keys_of_store (kg_store cf)) (kg_procs cf i)"
    and "request_of (kg_procs cf i) \<subseteq> kg_used cf"
    and "i \<noteq> j \<Longrightarrow> request_of (kg_procs cf i) \<inter> request_of (kg_procs cf j) = {}"
  using assms by (simp_all add: key_inv_def)

lemma request_update:
  assumes "key_inv cf" and "request_of p \<subseteq> request_of (kg_procs cf i)"
  shows "request_of (((kg_procs cf)(i := p)) j) \<subseteq> kg_used cf"
    and "j \<noteq> k \<Longrightarrow> request_of (((kg_procs cf)(i := p)) j) \<inter> request_of (((kg_procs cf)(i := p)) k) = {}"
proof -
  have sub: "request_of (((kg_procs cf)(i := p)) j) \<subseteq> request_of (kg_procs cf j)" for j using assms(2) by simp
  then show "request_of (((kg_procs cf)(i := p)) j) \<subseteq> kg_used cf" using key_invD(5) [OF assms(1)] by blast
  assume "j \<noteq> k"
  from key_invD(6) [OF assms(1) this] sub [of j] sub [of k]
  show "request_of (((kg_procs cf)(i := p)) j) \<inter> request_of (((kg_procs cf)(i := p)) k) = {}" by blast
qed

lemma key_inv_update:
  assumes inv: "key_inv cf" and grown: "grows (kg_created cf) settled' (kg_store cf) st'"
    and settled': "settled' = kg_closed cf \<union> fst ` set (ks_outcomes st') \<union> closes"
    and p: "proc_ok (kg_created cf @ new_records (kg_store cf) st') settled' (keys_of_store st') p"
    and request: "request_of p \<subseteq> request_of (kg_procs cf i)"
  shows "key_inv (kg_update cf i st' p closes)"
proof (rule key_invI, unfold kg_update_simps settled' [symmetric])
  let ?created = "kg_created cf @ new_records (kg_store cf) st'"
  have sub: "kg_closed cf \<subseteq> settled'" using settled' by blast
  show "store_ok ?created st'" using grown unfolding grows_def by blast
  show "fst ` set (ks_outcomes st') \<subseteq> settled'" using settled' by blast
  fix r
  assume "r \<in> set (butlast ?created)"
  then show "closed_record settled' r"
    using grown key_invD(2) [OF inv, of r] closed_record_mono [OF _ sub] unfolding grows_def by blast
next
  fix j
  have "proc_ok (kg_created cf @ new_records (kg_store cf) st') settled' (keys_of_store st') (kg_procs cf j)"
    using grown settled' by (intro proc_ok_mono [OF key_invD(4) [OF inv]]) (auto simp: grows_def)
  with p show "proc_ok (kg_created cf @ new_records (kg_store cf) st') settled' (keys_of_store st') (((kg_procs cf)(i := p)) j)"
    by simp
qed (use request_update [OF inv request] in blast)+

lemma gc_move_ok:
  assumes inv: "key_inv cf" and pc: "kg_procs cf i = Collecting pc" and timely: "timely (kg_procs cf) pc"
    and move: "gc_move shouldRemove now (kg_store cf) pc = (st', nxt)"
  shows "key_inv (kg_update cf i st' (case nxt of None \<Rightarrow> Key_idle | Some pc' \<Rightarrow> Collecting pc') (gc_closes pc))"
proof -
  let ?st = "kg_store cf" and ?created = "kg_created cf"
  let ?p = "case nxt of None \<Rightarrow> Key_idle | Some pc' \<Rightarrow> Collecting pc'"
  have store: "store_ok ?created ?st" and ok: "proc_ok ?created (kg_closed cf) (keys_of_store ?st) (Collecting pc)"
    using inv pc unfolding key_inv_def by metis+
  have request: "request_of ?p = {}" by (simp split: option.split)
  have still: ?thesis if "st' = ?st" "\<And>settled'. proc_ok ?created settled' (keys_of_store ?st) ?p"
    using key_inv_update [OF inv grows_same [OF store] refl] that request new_records_same by auto
  show ?thesis
  proof (cases pc)
    case Gc_list
    then show ?thesis using still move by (auto simp: Let_def proc_ok_def)
  next
    case (Gc_highest selected)
    have "proc_ok ?created settled' (keys_of_store ?st) ?p" for settled'
    proof (cases "highestKeyRecord ?st")
      case (Highest_found r)
      note r = plan_after_highest [OF store this]
      have "record_generation r \<le> length ?created" using created_nth r(1) store unfolding store_ok_def by blast
      then show ?thesis using move Gc_highest Highest_found r by (cases r) (auto simp: proc_ok_def split: if_splits)
    qed (use move Gc_highest in \<open>auto simp: proc_ok_def\<close>)
    then show ?thesis using still move Gc_highest by auto
  next
    case (Gc_release selected c)
    let ?closed = "kg_closed cf \<union> fst ` set (ks_outcomes st') \<union> {kc_waitId c}"
    have c: "Key_claim c \<in> set ?created" "plan_ok (length ?created) (keys_of_store ?st) (record_generation (release_over c now))"
      using ok Gc_release by (auto simp: proc_ok_def release_over_def)
    have "?created ! (record_generation (release_over c now) - 2) = Key_claim c"
      using created_nth [of ?created "Key_claim c"] c(1) store by (simp add: store_ok_def release_over_def)
    then have over: "record_generation (release_over c now) = 1 \<or> closed_record ?closed (?created ! (record_generation (release_over c now) - 2))"
      by simp
    have st': "st' = createKeyRecord (release_over c now) ?st" using move Gc_release by simp
    note grown = create_grows [OF store c(2) over, folded st']
    moreover have "proc_ok (?created @ new_records ?st st') ?closed (keys_of_store st') ?p"
      using grown(3) move Gc_release by (auto simp: proc_ok_def release_over_def)
    ultimately show ?thesis using key_inv_update [OF inv grown(1) refl] request Gc_release by auto
  next
    case (Gc_remove selected bound)
    with ok have bound: "bound \<le> length ?created" by (simp add: proc_ok_def)
    show ?thesis
    proof (cases selected)
      case Nil
      then show ?thesis using still move Gc_remove by (auto simp: proc_ok_def)
    next
      case (Cons r rest)
      let ?g = "record_generation r"
      have p: "proc_ok ?created settled' keys ?p" for settled' keys
        using move Gc_remove Cons bound by (auto simp: proc_ok_def)
      show ?thesis
      proof (cases "bound \<le> ?g")
        case True
        then show ?thesis using still move Gc_remove Cons p by auto
      next
        case False
        then have st': "st' = removeKeyRecord ?g ?st" using move Gc_remove Cons by auto
        have keys: "keys_of_store st' = keys_of_store ?st - {?g}" by (auto simp: st' removeKeyRecord_def keys_of_store_def)
        have "store_ok ?created st'"
          using store False bound unfolding store_ok_def keys
          by (auto simp: st' removeKeyRecord_def distinct_map_filter)
        moreover have "new_records ?st st' = []" by (simp add: new_records_def st' removeKeyRecord_def)
        moreover have "ks_outcomes st' = ks_outcomes ?st" by (simp add: st' removeKeyRecord_def)
        moreover have "proc_ok ?created (kg_closed cf) (keys_of_store st') (kg_procs cf j)" for j
          unfolding keys using inv timely False Gc_remove Cons by (intro proc_ok_remove) (auto simp: key_inv_def)
        moreover have "kg_closed cf \<union> fst ` set (ks_outcomes ?st) \<union> gc_closes pc = kg_closed cf"
          using key_invD(3) [OF inv] Gc_remove by auto
        ultimately show ?thesis
          using p request_update [OF inv, of ?p i] request key_invD(2,3) [OF inv] by (intro key_invI) simp_all
      qed
    qed
  qed
qed

lemma key_inv_step:
  assumes "key_step True cf cf'" and inv: "key_inv cf"
  shows "key_inv cf'"
  using assms(1)
proof cases
  case (begin_claim i rq now)
  show ?thesis
    unfolding begin_claim(1)
  proof (rule key_invI)
    fix j k :: nat
    assume "j \<noteq> k"
    then show "request_of (kg_procs (cf\<lparr>kg_procs := (kg_procs cf)(i := Claiming rq now (Highest 0)),
          kg_used := insert (kq_waitId rq) (kg_used cf)\<rparr>) j) \<inter>
        request_of (kg_procs (cf\<lparr>kg_procs := (kg_procs cf)(i := Claiming rq now (Highest 0)),
          kg_used := insert (kq_waitId rq) (kg_used cf)\<rparr>) k) = {}"
      using key_invD(5) [OF inv, of j] key_invD(5) [OF inv, of k] key_invD(6) [OF inv, of j k] begin_claim(3) by auto
  next
    fix j
    show "request_of (kg_procs (cf\<lparr>kg_procs := (kg_procs cf)(i := Claiming rq now (Highest 0)),
          kg_used := insert (kq_waitId rq) (kg_used cf)\<rparr>) j) \<subseteq>
        kg_used (cf\<lparr>kg_procs := (kg_procs cf)(i := Claiming rq now (Highest 0)), kg_used := insert (kq_waitId rq) (kg_used cf)\<rparr>)"
      using key_invD(5) [OF inv, of j] by auto
  qed (use key_invD [OF inv] in \<open>auto simp: proc_ok_def [of _ _ _ "Claiming rq now (Highest 0)"]\<close>)
next
  case (claim i rq now pc pending st' pc')
  let ?settled = "kg_closed cf \<union> fst ` set (ks_outcomes st') \<union> {}"
  have "grows (kg_created cf) ?settled (kg_store cf) st' \<and>
      proc_ok (kg_created cf @ new_records (kg_store cf) st') ?settled (keys_of_store st') (Claiming rq now pc')"
    using key_invD(4) [OF inv, of i] claim(2)
    by (intro claim_move_ok [OF key_invD(1,3) [OF inv] _ claim(3)]) auto
  then show ?thesis unfolding claim(1) using claim(2) by (intro key_inv_update [OF inv _ refl]) auto
next
  case (begin_gc i)
  have "proc_ok (kg_created cf) (kg_closed cf) (keys_of_store (kg_store cf)) (Collecting Gc_list)" by (simp add: proc_ok_def)
  then show ?thesis
    unfolding begin_gc(1) using key_invD [OF inv] request_update [OF inv, of "Collecting Gc_list" i]
    by (intro key_invI) simp_all
next
  case (gc i pc shouldRemove now st' nxt)
  then show ?thesis using gc_move_ok [OF inv gc(2) _ gc(4)] by simp
next
  case (settle waitId out)
  have sub: "kg_closed cf \<subseteq> insert waitId (kg_closed cf)" by blast
  have "proc_ok (kg_created cf @ []) (insert waitId (kg_closed cf)) (keys_of_store (settle_wait waitId out (kg_store cf))) (kg_procs cf j)" for j
    by (rule proc_ok_mono [OF key_invD(4) [OF inv] sub]) (auto simp: keys_of_store_def)
  moreover have "store_ok (kg_created cf) (settle_wait waitId out (kg_store cf))"
    using key_invD(1) [OF inv] store_ok_same [OF settle_wait_records] by blast
  ultimately show ?thesis
    unfolding settle using key_invD(2,3,5,6) [OF inv] closed_record_mono [OF _ sub] settle_wait_outcomes
    by (intro key_invI) (simp_all, blast+)
next
  case (register waitId reg)
  show ?thesis unfolding register using key_invD [OF inv]
    by (intro key_invI) (simp_all add: store_ok_def keys_of_store_def)
next
  case (forget P)
  show ?thesis unfolding forget using key_invD [OF inv]
    by (intro key_invI) (auto simp: store_ok_def keys_of_store_def)
qed

lemma key_inv_start: "key_inv key_start"
  by (rule key_invI) (simp_all add: key_start_def store_ok_def proc_ok_def)

lemma key_inv_reachable: "(key_step True)\<^sup>*\<^sup>* key_start cf \<Longrightarrow> key_inv cf"
  by (induction rule: rtranclp_induct) (auto intro: key_inv_start key_inv_step)

text \<open>Sequences of calls, to run the steps on concrete processes.\<close>

datatype key_event = Begin_claim nat wait_key_request time | Claim_call nat | Begin_gc nat | Gc_call nat

fun is_gc_call :: "key_event \<Rightarrow> bool" where
  "is_gc_call (Gc_call i) = True"
| "is_gc_call _ = False"

fun apply_event :: "key_event \<Rightarrow> key_config \<Rightarrow> key_config option" where
  "apply_event (Begin_claim i rq now) cf =
     (case kg_procs cf i of
        Key_idle \<Rightarrow>
          if kq_waitId rq \<in> kg_used cf then None
          else Some (cf\<lparr>kg_procs := (kg_procs cf)(i := Claiming rq now (Highest 0)), kg_used := insert (kq_waitId rq) (kg_used cf)\<rparr>)
      | _ \<Rightarrow> None)"
| "apply_event (Claim_call i) cf =
     (case kg_procs cf i of
        Claiming rq now pc \<Rightarrow>
          (case claim_move (\<lambda>_ _. None) rq now (kg_store cf) pc of
             (st', pc') \<Rightarrow> Some (kg_update cf i st' (Claiming rq now pc') {}))
      | _ \<Rightarrow> None)"
| "apply_event (Begin_gc i) cf =
     (case kg_procs cf i of
        Key_idle \<Rightarrow> Some (cf\<lparr>kg_procs := (kg_procs cf)(i := Collecting Gc_list)\<rparr>)
      | _ \<Rightarrow> None)"
| "apply_event (Gc_call i) cf =
     (case kg_procs cf i of
        Collecting pc \<Rightarrow>
          (case gc_move (\<lambda>_. True) 0 (kg_store cf) pc of
             (st', nxt) \<Rightarrow> Some (kg_update cf i st' (case nxt of None \<Rightarrow> Key_idle | Some pc' \<Rightarrow> Collecting pc') (gc_closes pc)))
      | _ \<Rightarrow> None)"

fun apply_events :: "key_event list \<Rightarrow> key_config \<Rightarrow> key_config option" where
  "apply_events [] cf = Some cf"
| "apply_events (e # es) cf = (case apply_event e cf of None \<Rightarrow> None | Some cf' \<Rightarrow> apply_events es cf')"

lemma apply_event_steps:
  "apply_event e cf = Some cf' \<Longrightarrow> careful \<longrightarrow> \<not> is_gc_call e \<Longrightarrow> key_step careful cf cf'"
  by (cases e)
    (auto split: key_pc.splits prod.splits if_splits simp del: claim_move.simps gc_move.simps intro: key_step.intros)

lemma apply_events_steps:
  "apply_events es cf = Some cf' \<Longrightarrow> careful \<longrightarrow> list_all (\<lambda>e. \<not> is_gc_call e) es \<Longrightarrow>
   (key_step careful)\<^sup>*\<^sup>* cf cf'"
proof (induction es arbitrary: cf)
  case (Cons e es)
  from Cons.prems(1) obtain cf1 where 1: "apply_event e cf = Some cf1" "apply_events es cf1 = Some cf'"
    by (auto split: option.splits)
  with apply_event_steps [OF 1(1)] Cons.IH [OF 1(2)] Cons.prems(2) show ?case
    by (auto intro: converse_rtranclp_into_rtranclp)
qed simp

text \<open>C2.
  However the calls of any number of claimants, of removals that are timely, of signals, registrations
  and deletions of outcomes interleave, at most one wait that won the key is open: the records of the
  key are numbered without a gap or a reuse, and every claim before the latest record belongs to a wait
  that was settled or whose claim was released.
\<close>

theorem one_open_wait_per_key:
  assumes "(key_step True)\<^sup>*\<^sup>* key_start cf"
  shows "(holds_open cf i \<and> holds_open cf j \<longrightarrow> i = j) \<and>
    map record_generation (kg_created cf) = [1..<Suc (length (kg_created cf))] \<and>
    (\<forall>r\<in>set (butlast (kg_created cf)). closed_record (kg_closed cf) r)"
proof (intro conjI impI)
  note inv = key_inv_reachable [OF assms]
  show "map record_generation (kg_created cf) = [1..<Suc (length (kg_created cf))]"
    using key_invD(1) [OF inv] unfolding store_ok_def by blast
  show older: "\<forall>r\<in>set (butlast (kg_created cf)). closed_record (kg_closed cf) r" using key_invD(2) [OF inv] by blast
  have latest: "\<exists>c. last (kg_created cf) = Key_claim c \<and> kc_waitId c \<in> request_of (kg_procs cf k)" if "holds_open cf k" for k
  proof -
    from that obtain rq now c where c: "kg_procs cf k = Claiming rq now (Done (Acquired c))" "kc_waitId c \<notin> kg_closed cf"
      by (auto simp: holds_open_def split: key_pc.splits claim_pc.splits wait_key_acquisition.splits)
    with key_invD(4) [OF inv, of k] have "Key_claim c \<in> set (kg_created cf)" "kc_waitId c = kq_waitId rq"
      by (auto simp: proc_ok_def)
    moreover from this(1) older c(2) have "Key_claim c = last (kg_created cf)"
      by (metis append_butlast_last_id closed_record.simps(1) empty_iff empty_set set_ConsD Un_iff set_append)
    ultimately show ?thesis using c(1) by (intro exI [of _ c]) simp
  qed
  assume "holds_open cf i \<and> holds_open cf j"
  with latest [of i] latest [of j] have "request_of (kg_procs cf i) \<inter> request_of (kg_procs cf j) \<noteq> {}" by auto
  then show "i = j" using key_invD(6) [OF inv] by blast
qed

definition demo_request :: "string \<Rightarrow> wait_key_request" where
  "demo_request w = \<lparr>kq_workflowId = ''f'', kq_key = ''k'', kq_waitId = w, kq_runId = w, kq_jobName = ''j'', kq_stepName = ''s'',
                     kq_deadline = 60000, kq_acceptEarly = None\<rparr>"

text \<open>Two steps ask for the key at once: one creates the record, the other reads again and finds it held.\<close>

definition demo_contest :: "key_event list" where
  "demo_contest =
     [Begin_claim 0 (demo_request ''a'') 0, Begin_claim 1 (demo_request ''b'') 0, Claim_call 0, Claim_call 1, Claim_call 1,
      Claim_call 0, Claim_call 0, Claim_call 0, Claim_call 0]"

lemma demo_contest_runs:
  "map_option (\<lambda>cf. (holds_open cf 0, holds_open cf 1)) (apply_events demo_contest key_start) = Some (False, True)"
  by code_simp

theorem one_open_wait_per_key_witness:
  "\<exists>cf. (key_step True)\<^sup>*\<^sup>* key_start cf \<and> \<not> holds_open cf 0 \<and> holds_open cf 1 \<and>
     (\<forall>i. holds_open cf i = (i = 1))"
proof -
  obtain cf where cf: "apply_events demo_contest key_start = Some cf" "\<not> holds_open cf 0" "holds_open cf 1"
    using demo_contest_runs by auto
  have "list_all (\<lambda>e. \<not> is_gc_call e) demo_contest" by (simp add: demo_contest_def)
  then have "(key_step True)\<^sup>*\<^sup>* key_start cf" using apply_events_steps [OF cf(1)] by blast
  moreover from one_open_wait_per_key [OF this] cf(3) have "\<forall>i. holds_open cf i = (i = 1)" by blast
  ultimately show ?thesis using cf(2,3) by blast
qed

text \<open>
  The removals have to be timely. A claimant that read the key while it had no record, and is late to
  create the first, succeeds after that record was created by another, superseded by a release and
  removed; the next claimant reads the release and wins too.
\<close>

definition demo_late_claim :: "key_event list" where
  "demo_late_claim =
     [Begin_claim 0 (demo_request ''a'') 0, Claim_call 0,
      Begin_claim 1 (demo_request ''b'') 0, Claim_call 1, Claim_call 1,
      Begin_gc 3, Gc_call 3, Gc_call 3, Gc_call 3, Gc_call 3,
      Claim_call 0,
      Begin_claim 2 (demo_request ''c'') 0, Claim_call 2, Claim_call 2]"

lemma late_claim_opens_two: "\<exists>cf. (key_step False)\<^sup>*\<^sup>* key_start cf \<and> holds_open cf 0 \<and> holds_open cf 2"
proof -
  have "map_option (\<lambda>cf. (holds_open cf 0, holds_open cf 2)) (apply_events demo_late_claim key_start) = Some (True, True)"
    by code_simp
  then obtain cf where "apply_events demo_late_claim key_start = Some cf" "holds_open cf 0" "holds_open cf 2" by auto
  with apply_events_steps [of demo_late_claim key_start cf False] show ?thesis by blast
qed

section \<open>A claim without rivals\<close>

lemma claim_run_simps:
  "claim_run pending rq now st (Done a) = (st, a)"
  "(\<And>a. pc \<noteq> Done a) \<Longrightarrow> claim_move pending rq now st pc = (st', pc') \<Longrightarrow>
     claim_run pending rq now st pc = claim_run pending rq now st' pc'"
proof -
  assume "\<And>a. pc \<noteq> Done a" and "claim_move pending rq now st pc = (st', pc')"
  then show "claim_run pending rq now st pc = claim_run pending rq now st' pc'"
    by (subst claim_run.simps) (cases pc; simp del: claim_move.simps; blast)
qed (subst claim_run.simps, simp)

text \<open>The record the key has, and the claim of an open wait that holds it.\<close>

definition highest_record :: "key_store \<Rightarrow> wait_key_record option" where
  "highest_record st = (case highestKeyRecord st of Highest_found r \<Rightarrow> Some r | _ \<Rightarrow> None)"

definition given_early :: "(wait_key_claim \<Rightarrow> wait_registration \<Rightarrow> wait_outcome option) \<Rightarrow> wait_key_claim \<Rightarrow> key_store \<Rightarrow> wait_outcome option" where
  "given_early pending c st =
     (if kc_early c = None then None
      else case stored (ks_registrations st) (kc_waitId c) of
             Found reg \<Rightarrow> if wr_workflowId reg = ka_workflowId c \<and> reg_key reg = Some (ka_key c) then pending c reg else None
           | _ \<Rightarrow> None)"

definition open_holder ::
  "(wait_key_claim \<Rightarrow> wait_registration \<Rightarrow> wait_outcome option) \<Rightarrow> time \<Rightarrow> key_store \<Rightarrow> wait_key_claim option" where
  "open_holder pending now st =
     (case highest_record st of
        Some (Key_claim c) \<Rightarrow>
          if own_outcome c st = Absent \<and> given_early pending c st = None \<and> now \<le> kc_deadline c then Some c else None
      | _ \<Rightarrow> None)"

definition abandoned :: "time \<Rightarrow> wait_key_claim \<Rightarrow> key_store \<Rightarrow> bool" where
  "abandoned now c st \<longleftrightarrow>
     WAIT_KEY_UNREGISTERED_GRACE_MS < now - kc_recordedAt c \<and> stored (ks_registrations st) (kc_waitId c) = Absent"

text \<open>A store whose records are readable and stand under their own generation.\<close>

definition readable_store :: "key_store \<Rightarrow> bool" where
  "readable_store st \<longleftrightarrow>
     list_all (\<lambda>(g, x). case x of None \<Rightarrow> False | Some r \<Rightarrow> record_generation r = g \<and> 1 \<le> g) (ks_records st)"

lemma highest_generation_bound: "g \<in> keys_of_store st \<Longrightarrow> g \<le> highest_generation st"
  unfolding highest_generation_def by (rule fold_max_ge) (auto simp: keys_of_store_def)

lemma highest_generation_cases: "highest_generation st = 0 \<or> highest_generation st \<in> keys_of_store st"
proof -
  have "fold max xs n = n \<or> fold max xs n \<in> set xs" for xs and n :: nat
    by (induction xs arbitrary: n) (auto simp: max_def)
  then show ?thesis unfolding highest_generation_def keys_of_store_def by (metis list.set_map)
qed

lemma readable_highest:
  assumes "readable_store st"
  shows "highestKeyRecord st =
    (case highest_record st of None \<Rightarrow> Highest_none | Some r \<Rightarrow> Highest_found r)"
    and "highest_generation st = (case highest_record st of None \<Rightarrow> 0 | Some r \<Rightarrow> record_generation r)"
proof -
  have "highestKeyRecord st = Highest_none \<and> highest_generation st = 0 \<or>
    (\<exists>r. highestKeyRecord st = Highest_found r \<and> highest_generation st = record_generation r)"
  proof (cases "highest_generation st = 0")
    case False
    then obtain x where "map_of (ks_records st) (highest_generation st) = Some x"
      using highest_generation_cases [of st] by (force simp: keys_of_store_def dest: weak_map_of_SomeI)
    moreover from map_of_SomeD [OF this] assms obtain r where "x = Some r" "record_generation r = highest_generation st"
      by (auto simp: readable_store_def list_all_iff split: option.splits)
    ultimately show ?thesis using False by (auto simp: highestKeyRecord_def stored_def Let_def)
  qed (simp add: highestKeyRecord_def Let_def)
  then show "highestKeyRecord st = (case highest_record st of None \<Rightarrow> Highest_none | Some r \<Rightarrow> Highest_found r)"
    and "highest_generation st = (case highest_record st of None \<Rightarrow> 0 | Some r \<Rightarrow> record_generation r)"
    by (auto simp: highest_record_def)
qed

lemma claim_run_create:
  assumes "ka_generation c = Suc (highest_generation st)"
  shows "snd (claim_run pending rq now st (Create n c)) = Acquired c"
proof -
  have "ka_generation c \<notin> keys_of_store st" using highest_generation_bound [of "ka_generation c" st] assms by auto
  then have "map_of (ks_records st) (ka_generation c) = None" by (simp add: keys_of_store_def map_of_eq_None_iff)
  then have "claim_move pending rq now st (Create n c) = (createKeyRecord (Key_claim c) st, Done (Acquired c))"
    by (simp add: Let_def createKeyRecord_def create_once_def findKeyRecord_def stored_def map_add_def)
  from claim_run_simps(2) [OF _ this] show ?thesis by (simp add: claim_run_simps(1))
qed

lemma highest_settle [simp]:
  "highest_generation (settle_wait w out st) = highest_generation st"
  "highestKeyRecord (settle_wait w out st) = highestKeyRecord st"
  "highest_record (settle_wait w out st) = highest_record st"
  by (simp_all add: highest_generation_def highest_record_def highestKeyRecord_def settle_wait_def Let_def)

lemma claim_run_over:
  assumes "readable_store st" and "highest_record st = highest"
  shows "snd (claim_run pending rq now st (Create n (new_claim rq now highest))) =
      Acquired (new_claim rq now highest)"
    and "snd (claim_run pending rq now (settle_wait w out st) (Create n (new_claim rq now highest))) =
      Acquired (new_claim rq now highest)"
  using readable_highest(2) [OF assms(1)] assms(2)
  by (auto intro!: claim_run_create split: option.splits)

lemma own_outcome_settled:
  assumes "wr_runId (outcome_ref out) = kc_runId c"
  shows "own_outcome c (settle_wait (kc_waitId c) out st) \<noteq> Absent"
  by (auto simp: own_outcome_def settle_wait_def create_once_def stored_def map_add_def split: option.splits)

text \<open>A claimant that has read an open claim and found it still the highest record.\<close>

lemma claim_run_still:
  assumes "readable_store st" and highest: "highest_record st = Some (Key_claim c)" and "Suc n < WAIT_KEY_CLAIM_ATTEMPTS"
  shows "snd (claim_run pending rq now st (Still n c)) =
    (if mine rq c then Own c
     else if abandoned now c st then Acquired (new_claim rq now (Some (Key_claim c)))
     else Held c)"
proof -
  have found: "highestKeyRecord st = Highest_found (Key_claim c)"
    using readable_highest(1) [OF assms(1)] highest by simp
  let ?run = "claim_run pending rq now"
  have still: "?run st (Still n c) = ?run st (snd (claim_move pending rq now st (Still n c)))"
    by (rule claim_run_simps(2)) simp_all
  have left: "?run st (Abandoned n c) = ?run st (if stored (ks_registrations st) (kc_waitId c) = Absent then Cancel n c else Done (Held c))"
    by (rule claim_run_simps(2)) simp_all
  let ?st = "settle_wait (kc_waitId c) (cancelledOutcome (waitRefOfClaim c) now) st"
  have "?run st (Cancel n c) = ?run ?st (Highest (Suc n))"
    using assms(3) by (intro claim_run_simps(2)) (simp_all add: next_attempt_def)
  also have "\<dots> = ?run ?st (Outcome_of (Suc n) c)"
    using found by (intro claim_run_simps(2)) simp_all
  also have "\<dots> = ?run ?st (Create (Suc n) (new_claim rq now (Some (Key_claim c))))"
  proof (rule claim_run_simps(2))
    have "own_outcome c ?st \<noteq> Absent"
      by (rule own_outcome_settled) (simp add: cancelledOutcome_def pick_def wait_ref.defs waitRefOfClaim_def)
    then show "claim_move pending rq now ?st (Outcome_of (Suc n) c) =
        (?st, Create (Suc n) (new_claim rq now (Some (Key_claim c))))" by simp
  qed simp
  finally have cancel: "snd (?run st (Cancel n c)) = Acquired (new_claim rq now (Some (Key_claim c)))"
    using claim_run_over(2) [OF assms(1) highest] by simp
  show ?thesis
    unfolding still using found left cancel by (auto simp: abandoned_def claim_run_simps(1))
qed

text \<open>
  When no other process calls the store meanwhile, a claim of a readable key always has an answer: it
  wins with the next generation when no open wait holds the key, be it that the last record is a
  release, that its wait has an outcome, was given one by a pending signal or is past its deadline, or
  that it was left without a registration for longer than the grace; it is its own when the same step of
  the same run holds it, and otherwise the holder is named. It is never contended.
\<close>

theorem claimWaitKey_without_rivals:
  assumes "readable_store st"
  shows "snd (claimWaitKey is_uuid stop ps st rq now) =
    (case open_holder (early_outcome is_uuid stop ps) now st of
       None \<Rightarrow> Acquired (new_claim rq now (highest_record st))
     | Some c \<Rightarrow>
         if mine rq c then Own c
         else if abandoned now c st then Acquired (new_claim rq now (highest_record st))
         else Held c)"
proof -
  define pending where "pending = early_outcome is_uuid stop ps"
  let ?run = "claim_run pending rq now"
  note key = claimWaitKey_def pending_def [symmetric]
  note over = claim_run_over [OF assms refl]
  have first: "?run st (Highest 0) = ?run st (snd (claim_move pending rq now st (Highest 0)))"
    by (rule claim_run_simps(2)) simp_all
  show ?thesis
  proof (cases "highest_record st")
    case None
    then show ?thesis
      unfolding key first using readable_highest(1) [OF assms] over by (simp add: open_holder_def)
  next
    case (Some r)
    show ?thesis
    proof (cases r)
      case (Key_release a t)
      with Some show ?thesis
        unfolding key first using readable_highest(1) [OF assms] over by (simp add: open_holder_def)
    next
      case (Key_claim c)
      with Some have highest: "highest_record st = Some (Key_claim c)" by simp
      note over = over [unfolded highest]
      have second: "?run st (Outcome_of 0 c) = ?run st (snd (claim_move pending rq now st (Outcome_of 0 c)))"
        and third: "?run st (Registration_of 0 c) = ?run st (snd (claim_move pending rq now st (Registration_of 0 c)))"
        by (rule claim_run_simps(2), simp_all)+
      have late: "snd (?run st (Past_deadline 0 c)) = Acquired (new_claim rq now (Some (Key_claim c)))"
        using over(2) by (subst claim_run_simps(2)) simp_all
      have taken: "snd (?run st (Take_pending 0 c reg)) =
          (case pending c reg of None \<Rightarrow> snd (?run st (by_deadline now 0 c)) | Some _ \<Rightarrow> Acquired (new_claim rq now (Some (Key_claim c))))" for reg
      proof (cases "pending c reg")
        case None
        then have "claim_move pending rq now st (Take_pending 0 c reg) = (st, by_deadline now 0 c)" by simp
        from claim_run_simps(2) [OF _ this] None show ?thesis by simp
      next
        case (Some out)
        then have "claim_move pending rq now st (Take_pending 0 c reg) =
            (settle_wait (kc_waitId c) out st, Create 0 (new_claim rq now (Some (Key_claim c))))" by simp
        from claim_run_simps(2) [OF _ this] Some over(2) show ?thesis by simp
      qed
      have held: "snd (?run st (by_deadline now 0 c)) =
          (if now \<le> kc_deadline c then
             (if mine rq c then Own c
              else if abandoned now c st then Acquired (new_claim rq now (Some (Key_claim c))) else Held c)
           else Acquired (new_claim rq now (Some (Key_claim c))))"
        using claim_run_still [OF assms highest, of 0] late by (simp add: by_deadline_def WAIT_KEY_CLAIM_ATTEMPTS_def)
      have "snd (?run st (Highest 0)) = snd (?run st (Outcome_of 0 c))"
        unfolding first using readable_highest(1) [OF assms] highest by simp
      also have "\<dots> = (case open_holder pending now st of
          None \<Rightarrow> Acquired (new_claim rq now (Some (Key_claim c)))
        | Some d \<Rightarrow> if mine rq d then Own d
                    else if abandoned now d st then Acquired (new_claim rq now (Some (Key_claim c))) else Held d)"
        unfolding second using third over(1) held taken
        by (auto simp: open_holder_def highest given_early_def split: stored_wait_record.splits option.splits)
      finally show ?thesis unfolding key highest .
    qed
  qed
qed

theorem claimWaitKey_without_rivals_witness:
  "let first_claim = new_claim (demo_request ''a'') 0 None;
       st = \<lparr>ks_records = [(1, Some (Key_claim first_claim))], ks_outcomes = [], ks_registrations = []\<rparr> in
   readable_store st \<and>
   snd (claimWaitKey (\<lambda>_. True) False [] st (demo_request ''b'') 5) = Held first_claim \<and>
   snd (claimWaitKey (\<lambda>_. True) False [] st (demo_request ''a'') 5) = Own first_claim"
proof -
  let ?c = "new_claim (demo_request ''a'') 0 None"
  let ?st = "\<lparr>ks_records = [(1, Some (Key_claim ?c))], ks_outcomes = [], ks_registrations = []\<rparr>"
  have r: "readable_store ?st" by code_simp
  have "open_holder (early_outcome (\<lambda>_. True) False []) 5 ?st = Some ?c" by code_simp
  moreover have "mine (demo_request ''a'') ?c" "\<not> mine (demo_request ''b'') ?c" "\<not> abandoned 5 ?c ?st" by code_simp+
  ultimately show ?thesis
    using claimWaitKey_without_rivals [OF r, of "\<lambda>_. True" False "[]" "demo_request ''a''" 5]
      claimWaitKey_without_rivals [OF r, of "\<lambda>_. True" False "[]" "demo_request ''b''" 5] r
    by (simp add: Let_def)
qed

end
