(* ===== verification/Early_Signal.thy ===== *)
theory Early_Signal
  imports Wait_Key_Claim
begin

text \<open>
  \<^verbatim>\<open>src/src/domain/workflows/early_signal.ts\<close>: a signal by key that finds no open wait is kept for the
  next claim of the key. The signaller writes its record and then reads the key; a step writes its claim
  and registration and then reads the slot (\<^verbatim>\<open>execution_service.ts\<close>), so one of the two sees the other.

  The records are those of one key and its pending signals. A read of the key's holder, of the heads of
  the live slots and of the taker of a signal takes effect at once; between these and the reads of the
  highest record and the writes, other processes may act.
\<close>

section \<open>Early waits of a workflow\<close>

record declared_early_wait =
  de_jobName :: string
  de_stepName :: string
  de_acceptEarly :: rat
  de_schema :: json_schema

fun early_of_task :: "string \<Rightarrow> step_task \<Rightarrow> (rat \<times> json_schema) option" where
  "early_of_task key (Wait_for_signal _ schema (Some k) (Some acceptEarly)) =
     (if k = key then Some (acceptEarly, schema) else None)"
| "early_of_task key _ = None"

definition declaredEarlyWait :: "workflow_def \<Rightarrow> string \<Rightarrow> declared_early_wait option" where
  "declaredEarlyWait w key =
     (case List.map_filter (\<lambda>(j, s).
             map_option (\<lambda>(acceptEarly, schema).
               \<lparr>de_jobName = jb_name j, de_stepName = st_name s, de_acceptEarly = acceptEarly, de_schema = schema\<rparr>)
             (early_of_task key (st_task s)))
           (concat (map (\<lambda>j. map (Pair j) (jb_steps j)) (wd_jobs w))) of
        [] \<Rightarrow> None
      | d # _ \<Rightarrow> Some d)"

text \<open>\<open>fresh\<close> is \<^verbatim>\<open>crypto.randomUUID()\<close>.\<close>

definition validateEarlyPayload ::
  "(string \<Rightarrow> bool) \<Rightarrow> bool \<Rightarrow> string \<Rightarrow> json_schema \<Rightarrow> json option \<Rightarrow> time \<Rightarrow> wait_error + (string list + json_object)" where
  "validateEarlyPayload is_uuid stop fresh schema payload now =
     map_sum id (\<lambda>w. validatePayload stop w payload)
       (wait_fromData is_uuid
          \<lparr>sw_id = fresh, sw_schema = schema, sw_deadline = now, sw_receipt = None, sw_key = None, sw_early = None\<rparr>)"

section \<open>Where a signal is kept\<close>

record live_slots =
  ls_slot :: nat
  ls_live :: "nat list"

definition liveSlotsOf :: "wait_key_record option \<Rightarrow> live_slots" where
  "liveSlotsOf highest =
     (case highest of
        None \<Rightarrow> \<lparr>ls_slot = 1, ls_live = [1]\<rparr>
      | Some r \<Rightarrow>
          \<lparr>ls_slot = record_generation r + 1,
           ls_live = (case r of Key_release _ _ \<Rightarrow> [record_generation r + 1, record_generation r]
                              | Key_claim _ \<Rightarrow> [record_generation r + 1])\<rparr>)"

datatype early_decision = Store_at nat | Already_pending pending_signal | Slot_unreadable

fun refusal_of :: "time \<Rightarrow> highest_pending_record list \<Rightarrow> early_decision option" where
  "refusal_of now [] = None"
| "refusal_of now (head # heads) =
     (case head of
        Pending_unreadable _ \<Rightarrow> Some Slot_unreadable
      | Pending_found (Pending_sig p) \<Rightarrow> if isPendingHeld p now then Some (Already_pending p) else refusal_of now heads
      | _ \<Rightarrow> refusal_of now heads)"

definition decideEarlySignal :: "highest_pending_record list \<Rightarrow> time \<Rightarrow> early_decision" where
  "decideEarlySignal heads now =
     (case refusal_of now heads of
        Some d \<Rightarrow> d
      | None \<Rightarrow>
          Store_at (case heads of
                      [] \<Rightarrow> 1
                    | Pending_none # _ \<Rightarrow> 1
                    | Pending_found r # _ \<Rightarrow> pa_number (pending_address_of r) + 1
                    | Pending_unreadable n # _ \<Rightarrow> n + 1))"

definition slot_heads :: "pending_store \<Rightarrow> string \<Rightarrow> string \<Rightarrow> nat list \<Rightarrow> highest_pending_record list" where
  "slot_heads ps workflowId key slots =
     map (\<lambda>slot. highestPendingRecord ps \<lparr>pa_workflowId = workflowId, pa_key = key, pa_slot = slot\<rparr>) slots"

record held_pending_signal =
  hp_workflowId :: string
  hp_key :: string
  hp_receiptId :: string
  hp_receivedAt :: time
  hp_heldUntil :: time
  hp_submittedBy :: string
  hp_authorizedFor :: "string option"

text \<open>\<open>key_of\<close> gives the records of each key.\<close>

definition held_under :: "(string \<Rightarrow> string \<Rightarrow> key_store) \<Rightarrow> pending_store \<Rightarrow> time \<Rightarrow> string \<times> string \<Rightarrow> held_pending_signal option" where
  "held_under key_of ps now wk =
     (case wk of (workflowId, key) \<Rightarrow>
        (let of_highest = (\<lambda>highest.
               (case decideEarlySignal (slot_heads ps workflowId key (ls_live (liveSlotsOf highest))) now of
                  Already_pending p \<Rightarrow>
                    Some \<lparr>hp_workflowId = workflowId, hp_key = key, hp_receiptId = pn_receiptId p,
                          hp_receivedAt = pn_receivedAt p, hp_heldUntil = heldUntil p,
                          hp_submittedBy = pn_submittedBy p, hp_authorizedFor = pn_authorizedFor p\<rparr>
                | _ \<Rightarrow> None)) in
         case highestKeyRecord (key_of workflowId key) of
           Highest_unreadable _ \<Rightarrow> None
         | Highest_none \<Rightarrow> of_highest None
         | Highest_found r \<Rightarrow> of_highest (Some r)))"

definition listHeldPendingSignals :: "(string \<Rightarrow> string \<Rightarrow> key_store) \<Rightarrow> pending_store \<Rightarrow> time \<Rightarrow> held_pending_signal list" where
  "listHeldPendingSignals key_of ps now =
     sort_key hp_heldUntil
       (List.map_filter (held_under key_of ps now) (nub (map (\<lambda>(a, _). (pa_workflowId a, pa_key a)) ps)))"

section \<open>Earlier copies of a signal\<close>

text \<open>The accepted outcome of a claim's own wait.\<close>

definition accepted_of :: "key_store \<Rightarrow> wait_key_claim \<Rightarrow> (wait_outcome \<times> signal_receipt) option" where
  "accepted_of st c =
     (case stored (ks_outcomes st) (kc_waitId c) of
        Found out \<Rightarrow>
          if wr_runId (outcome_ref out) \<noteq> kc_runId c then None
          else (case out of Accepted _ _ receipt _ \<Rightarrow> Some (out, receipt) | _ \<Rightarrow> None)
      | _ \<Rightarrow> None)"

fun taker_among :: "key_store \<Rightarrow> pending_signal \<Rightarrow> wait_key_claim list \<Rightarrow> (wait_key_claim \<times> wait_outcome) option
    \<Rightarrow> (wait_key_claim \<times> wait_outcome) option" where
  "taker_among st p [] copy = copy"
| "taker_among st p (c # cs) copy =
     (if (case kc_early c of None \<Rightarrow> True | Some e \<Rightarrow> int (pa_slot p) \<notin> set (earlySlots e)) then taker_among st p cs copy
      else case accepted_of st c of
             None \<Rightarrow> taker_among st p cs copy
           | Some (out, receipt) \<Rightarrow>
               if rc_id receipt = pn_receiptId p then Some (c, out)
               else if pn_idempotencyKey p \<noteq> None \<and> rc_idempotencyKey receipt = pn_idempotencyKey p \<and>
                       rc_submittedBy receipt = pn_submittedBy p
                    then taker_among st p cs (Some (c, out))
                    else taker_among st p cs copy)"

definition findTakerOf :: "key_store \<Rightarrow> pending_signal \<Rightarrow> (wait_key_claim \<times> wait_outcome) option" where
  "findTakerOf st p = taker_among st p (fst (claimsReadingSlot st (pa_slot p) None)) None"

fun settled_among :: "key_store \<Rightarrow> string \<Rightarrow> string \<Rightarrow> string \<Rightarrow> wait_key_record option list \<Rightarrow> (wait_key_claim \<times> wait_outcome) option" where
  "settled_among st workflowId idempotencyKey submittedBy [] = None"
| "settled_among st workflowId idempotencyKey submittedBy (r # rs) =
     (case r of
        Some (Key_claim c) \<Rightarrow>
          (case accepted_of st c of
             Some (out, receipt) \<Rightarrow>
               if wr_workflowId (outcome_ref out) = workflowId \<and> rc_idempotencyKey receipt = Some idempotencyKey \<and>
                  rc_submittedBy receipt = submittedBy
               then Some (c, out)
               else settled_among st workflowId idempotencyKey submittedBy rs
           | None \<Rightarrow> settled_among st workflowId idempotencyKey submittedBy rs)
      | _ \<Rightarrow> settled_among st workflowId idempotencyKey submittedBy rs)"

definition settledUnderKey ::
  "key_store \<Rightarrow> string \<Rightarrow> wait_key_record option \<Rightarrow> string \<Rightarrow> string \<Rightarrow> (wait_key_claim \<times> wait_outcome) option" where
  "settledUnderKey st workflowId highest idempotencyKey submittedBy =
     (case highest of
        None \<Rightarrow> None
      | Some r \<Rightarrow>
          let below = record_generation r - 1 in
          settled_among st workflowId idempotencyKey submittedBy
            (Some r # (if below < 1 then []
                       else [case findKeyRecord below st of Found r' \<Rightarrow> Some r' | _ \<Rightarrow> None])))"

datatype earlier_signal = Earlier_pending pending_signal | Earlier_settled wait_key_claim wait_outcome

definition findSignalByIdempotencyKey ::
  "key_store \<Rightarrow> pending_store \<Rightarrow> string \<Rightarrow> string \<Rightarrow> string \<Rightarrow> string \<Rightarrow> time \<Rightarrow> earlier_signal option" where
  "findSignalByIdempotencyKey st ps workflowId key idempotencyKey submittedBy now =
     (let of_highest = (\<lambda>highest.
            (case List.map_filter (\<lambda>head.
                   case head of
                     Pending_found (Pending_sig p) \<Rightarrow>
                       if pn_idempotencyKey p = Some idempotencyKey \<and> pn_submittedBy p = submittedBy \<and> isPendingHeld p now
                       then Some p else None
                   | _ \<Rightarrow> None)
                 (slot_heads ps workflowId key (ls_live (liveSlotsOf highest))) of
               p # _ \<Rightarrow> Some (Earlier_pending p)
             | [] \<Rightarrow>
                 map_option (\<lambda>(c, out). Earlier_settled c out)
                   (settledUnderKey st workflowId highest idempotencyKey submittedBy))) in
      case highestKeyRecord st of
        Highest_unreadable _ \<Rightarrow> None
      | Highest_none \<Rightarrow> of_highest None
      | Highest_found r \<Rightarrow> of_highest (Some r))"

section \<open>Holding a signal\<close>

record early_signal =
  es_workflowId :: string
  es_key :: string
  es_payload :: json_object
  es_submittedBy :: string
  es_acceptEarly :: rat
  es_idempotencyKey :: "string option"
  es_authorizedFor :: "string option"

datatype early_arrival =
    Arrived_pending pending_signal
  | Arrived_already pending_signal
  | Arrived_held wait_key_claim "pending_signal option"
  | Arrived_taken wait_key_claim pending_signal
  | Arrived_duplicate wait_key_claim wait_outcome "pending_signal option"
  | Arrived_unreadable
  | Arrived_contended

text \<open>
  Where \<^verbatim>\<open>holdEarlySignal\<close> is between two calls on the store: the attempt, the record it stored so far, and
  the highest record of the key it read.
\<close>

datatype hold_pc =
    Hold_highest nat "pending_signal option"
  | Hold_holder nat "pending_signal option" "wait_key_record option"
  | Hold_landed nat "pending_signal option" "wait_key_record option"
  | Hold_heads nat "pending_signal option" "wait_key_record option"
  | Hold_create nat "pending_signal option" nat nat
  | Hold_again nat pending_signal
  | Hold_holding nat pending_signal
  | Hold_taker nat pending_signal key_holder_lookup
  | Hold_done early_arrival

definition hold_next :: "nat \<Rightarrow> pending_signal option \<Rightarrow> hold_pc" where
  "hold_next n kept = (if Suc n < WAIT_KEY_CLAIM_ATTEMPTS then Hold_highest (Suc n) kept else Hold_done Arrived_contended)"

definition early_record :: "string \<Rightarrow> early_signal \<Rightarrow> time \<Rightarrow> nat \<Rightarrow> nat \<Rightarrow> pending_signal" where
  "early_record receiptId sig now slot number =
     \<lparr>pa_workflowId = es_workflowId sig, pa_key = es_key sig, pa_slot = slot, pa_number = number,
      pn_receiptId = receiptId, pn_receivedAt = now, pn_submittedBy = es_submittedBy sig, pn_payload = es_payload sig,
      pn_acceptEarly = es_acceptEarly sig, pn_authorizedFor = es_authorizedFor sig,
      pn_idempotencyKey = es_idempotencyKey sig\<rparr>"

text \<open>Whether the key, read again, shows that no claim of the slot was made.\<close>

fun slot_unclaimed :: "nat \<Rightarrow> highest_key_record \<Rightarrow> bool" where
  "slot_unclaimed slot Highest_none \<longleftrightarrow> 0 < slot"
| "slot_unclaimed slot (Highest_found r) \<longleftrightarrow>
     record_generation r < slot \<or> record_generation r = slot \<and> (case r of Key_release _ _ \<Rightarrow> True | _ \<Rightarrow> False)"
| "slot_unclaimed slot (Highest_unreadable _) \<longleftrightarrow> True"

fun hold_move :: "string \<Rightarrow> early_signal \<Rightarrow> time \<Rightarrow> key_store \<Rightarrow> pending_store \<Rightarrow> hold_pc \<Rightarrow> pending_store \<times> hold_pc" where
  "hold_move receiptId sig now st ps (Hold_highest n kept) =
     (ps, case highestKeyRecord st of
            Highest_unreadable _ \<Rightarrow> Hold_done Arrived_unreadable
          | Highest_none \<Rightarrow> Hold_holder n kept None
          | Highest_found r \<Rightarrow> Hold_holder n kept (Some r))"
| "hold_move receiptId sig now st ps (Hold_holder n kept highest) =
     (ps, case findKeyHolder st (es_workflowId sig) (es_key sig) of
            Holder_unreadable _ \<Rightarrow> Hold_done Arrived_unreadable
          | Holder c \<Rightarrow> Hold_done (Arrived_held c kept)
          | Holder_free \<Rightarrow> if es_idempotencyKey sig \<noteq> None then Hold_landed n kept highest else Hold_heads n kept highest)"
| "hold_move receiptId sig now st ps (Hold_landed n kept highest) =
     (ps, case settledUnderKey st (es_workflowId sig) highest (the (es_idempotencyKey sig)) (es_submittedBy sig) of
            Some (c, out) \<Rightarrow> Hold_done (Arrived_duplicate c out kept)
          | None \<Rightarrow> Hold_heads n kept highest)"
| "hold_move receiptId sig now st ps (Hold_heads n kept highest) =
     (ps, let live = liveSlotsOf highest in
          case decideEarlySignal (slot_heads ps (es_workflowId sig) (es_key sig) (ls_live live)) now of
            Slot_unreadable \<Rightarrow> Hold_done Arrived_unreadable
          | Already_pending p \<Rightarrow> Hold_done (Arrived_already p)
          | Store_at number \<Rightarrow> Hold_create n kept (ls_slot live) number)"
| "hold_move receiptId sig now st ps (Hold_create n kept slot number) =
     (let r = early_record receiptId sig now slot number;
          ps' = createPendingRecord (Pending_sig r) ps in
      (ps', case stored ps' (pending_address.truncate r) of
              Found (Pending_sig created) \<Rightarrow>
                if pn_receiptId created \<noteq> receiptId then Hold_done (Arrived_already created) else Hold_again n created
            | Found (Lapse _ _) \<Rightarrow> hold_next n kept
            | _ \<Rightarrow> Hold_done Arrived_unreadable))"
| "hold_move receiptId sig now st ps (Hold_again n p) =
     (ps, if slot_unclaimed (pa_slot p) (highestKeyRecord st) then Hold_done (Arrived_pending p) else Hold_holding n p)"
| "hold_move receiptId sig now st ps (Hold_holding n p) =
     (ps, case findKeyHolder st (es_workflowId sig) (es_key sig) of
            Holder_unreadable _ \<Rightarrow> Hold_done Arrived_unreadable
          | holding \<Rightarrow> Hold_taker n p holding)"
| "hold_move receiptId sig now st ps (Hold_taker n p holding) =
     (ps, case findTakerOf st p of
            Some (c, out) \<Rightarrow>
              (case out of
                 Accepted _ _ receipt _ \<Rightarrow>
                   if rc_id receipt = pn_receiptId p then Hold_done (Arrived_taken c p)
                   else Hold_done (Arrived_duplicate c out (Some p))
               | _ \<Rightarrow> Hold_done (Arrived_duplicate c out (Some p)))
          | None \<Rightarrow>
              (case holding of
                 Holder c \<Rightarrow> Hold_done (Arrived_held c (Some p))
               | _ \<Rightarrow> hold_next n (Some p)))"
| "hold_move receiptId sig now st ps (Hold_done a) = (ps, Hold_done a)"

text \<open>\<^verbatim>\<open>holdEarlySignal\<close> when no other process calls the store meanwhile.\<close>

fun hold_left :: "hold_pc \<Rightarrow> nat" where
  "hold_left (Hold_highest n _) = (WAIT_KEY_CLAIM_ATTEMPTS - n) * 10 + 8"
| "hold_left (Hold_holder n _ _) = (WAIT_KEY_CLAIM_ATTEMPTS - n) * 10 + 7"
| "hold_left (Hold_landed n _ _) = (WAIT_KEY_CLAIM_ATTEMPTS - n) * 10 + 6"
| "hold_left (Hold_heads n _ _) = (WAIT_KEY_CLAIM_ATTEMPTS - n) * 10 + 5"
| "hold_left (Hold_create n _ _ _) = (WAIT_KEY_CLAIM_ATTEMPTS - n) * 10 + 4"
| "hold_left (Hold_again n _) = (WAIT_KEY_CLAIM_ATTEMPTS - n) * 10 + 3"
| "hold_left (Hold_holding n _) = (WAIT_KEY_CLAIM_ATTEMPTS - n) * 10 + 2"
| "hold_left (Hold_taker n _ _) = (WAIT_KEY_CLAIM_ATTEMPTS - n) * 10 + 1"
| "hold_left (Hold_done _) = 0"

lemma hold_left_next [simp]:
  "hold_left (hold_next n kept) < Suc ((WAIT_KEY_CLAIM_ATTEMPTS - n) * 10)"
  "hold_left (hold_next n kept) < (WAIT_KEY_CLAIM_ATTEMPTS - n) * 10 + 4"
  by (auto simp: hold_next_def)

lemma hold_move_progress:
  assumes "hold_move receiptId sig now st ps pc = (ps', pc')" and "\<And>a. pc \<noteq> Hold_done a"
  shows "hold_left pc' < hold_left pc"
  using assms
  by (cases pc) (auto simp: Let_def split: highest_key_record.splits key_holder_lookup.splits option.splits
      early_decision.splits if_splits wait_outcome.splits stored_wait_record.splits pending_record.splits)

function hold_run :: "string \<Rightarrow> early_signal \<Rightarrow> time \<Rightarrow> key_store \<Rightarrow> pending_store \<Rightarrow> hold_pc \<Rightarrow> pending_store \<times> early_arrival" where
  "hold_run receiptId sig now st ps pc =
     (case pc of
        Hold_done a \<Rightarrow> (ps, a)
      | _ \<Rightarrow> (case hold_move receiptId sig now st ps pc of (ps', pc') \<Rightarrow> hold_run receiptId sig now st ps' pc'))"
  by pat_completeness auto
termination
  by (relation "measure (\<lambda>(_, _, _, _, _, pc). hold_left pc)") (auto simp del: hold_move.simps hold_left.simps
      split: prod.split intro: hold_move_progress)

declare hold_run.simps [simp del]

definition holdEarlySignal :: "string \<Rightarrow> key_store \<Rightarrow> pending_store \<Rightarrow> early_signal \<Rightarrow> time \<Rightarrow> pending_store \<times> early_arrival" where
  "holdEarlySignal receiptId st ps sig now = hold_run receiptId sig now st ps (Hold_highest 0 None)"

lemma hold_run_done: "hold_run receiptId sig now st ps (Hold_done a) = (ps, a)"
  by (subst hold_run.simps) simp

lemma hold_run_move:
  assumes "hold_move receiptId sig now st ps pc = (ps', pc')" and "\<And>a. pc \<noteq> Hold_done a"
  shows "hold_run receiptId sig now st ps pc = hold_run receiptId sig now st ps' pc'"
  using assms by (subst hold_run.simps) (cases pc; simp del: hold_move.simps; blast)

section \<open>A step that waits for a key\<close>

text \<open>
  What a step of \<^verbatim>\<open>execution_service.ts\<close> that waits for a signal by key does on the store: it claims the key,
  registers its wait and takes a pending signal. At \<open>Step_waiting\<close> the pending records it read and what it
  was told are kept. A claim the step made earlier is taken over; a failed read of the pending
  signal leaves the wait open.
\<close>

datatype wait_step_pc =
    Step_claiming claim_pc
  | Step_register wait_key_claim
  | Step_take wait_key_claim
  | Step_waiting wait_key_claim bool pending_store "wait_outcome stored_wait_record"
  | Step_refused wait_key_acquisition

definition claimed_wait :: "json_schema \<Rightarrow> wait_key_claim \<Rightarrow> signal_wait" where
  "claimed_wait schema c =
     \<lparr>sw_id = kc_waitId c, sw_schema = schema, sw_deadline = kc_deadline c, sw_receipt = None,
      sw_key = Some (ka_key c), sw_early = kc_early c\<rparr>"

text \<open>\<^verbatim>\<open>waitRefOf\<close> of \<^verbatim>\<open>signal_wait_cleanup.ts\<close> for a wait of a run.\<close>

definition wait_ref_of :: "string \<Rightarrow> string \<Rightarrow> string \<Rightarrow> signal_wait \<Rightarrow> full_wait_ref" where
  "wait_ref_of workflowId workflowName runId w =
     (let early = sw_key w \<noteq> None \<and> sw_early w \<noteq> None in
      \<lparr>wr_waitId = sw_id w, wr_workflowId = workflowId, wr_runId = runId, wr_deadline = sw_deadline w,
       fr_workflowName = Some workflowName, fr_key = (if early then sw_key w else None),
       fr_early = (if early then sw_early w else None), fr_schema = (if early then Some (sw_schema w) else None)\<rparr>)"

definition claimed_ref :: "wait_key_request \<Rightarrow> string \<Rightarrow> json_schema \<Rightarrow> wait_key_claim \<Rightarrow> early_wait_ref option" where
  "claimed_ref rq workflowName schema c =
     earlyWaitRef (wait_ref_of (kq_workflowId rq) workflowName (kq_runId rq) (claimed_wait schema c))"

fun step_move ::
  "(string \<Rightarrow> bool) \<Rightarrow> bool \<Rightarrow> wait_key_request \<Rightarrow> string \<Rightarrow> json_schema \<Rightarrow> time \<Rightarrow> key_store \<Rightarrow> pending_store
   \<Rightarrow> wait_step_pc \<Rightarrow> key_store \<times> wait_step_pc" where
  "step_move is_uuid stop rq workflowName schema now st ps (Step_claiming pc) =
     (case claim_move (early_outcome is_uuid stop ps) rq now st pc of
        (st', pc') \<Rightarrow>
          (st', case pc' of
                  Done (Acquired c) \<Rightarrow> Step_register c
                | Done (Own c) \<Rightarrow> Step_register c
                | Done refusal \<Rightarrow> Step_refused refusal
                | _ \<Rightarrow> Step_claiming pc'))"
| "step_move is_uuid stop rq workflowName schema now st ps (Step_register c) =
     (st\<lparr>ks_registrations := create_once (kc_waitId c)
           (registrationOf (kq_workflowId rq) workflowName (kq_runId rq) (kq_jobName rq) (kq_stepName rq)
              (claimed_wait schema c) now) (ks_registrations st)\<rparr>, Step_take c)"
| "step_move is_uuid stop rq workflowName schema now st ps (Step_take c) =
     (let standing = (findKeyRecord (ka_generation c) st = Found (Key_claim c)) in
      case claimed_ref rq workflowName schema c of
        None \<Rightarrow> (st, Step_waiting c standing ps Absent)
      | Some ref \<Rightarrow>
          (case takePendingSignal is_uuid stop ps (ks_outcomes st) ref of
             Inl _ \<Rightarrow> (st, Step_waiting c standing ps Absent)
           | Inr (outcomes', result, _) \<Rightarrow> (st\<lparr>ks_outcomes := outcomes'\<rparr>, Step_waiting c standing ps result)))"
| "step_move is_uuid stop rq workflowName schema now st ps (Step_waiting c standing seen result) =
     (st, Step_waiting c standing seen result)"
| "step_move is_uuid stop rq workflowName schema now st ps (Step_refused a) = (st, Step_refused a)"

section \<open>A signal, a step and everyone else\<close>

record early_config =
  eg_store :: key_store
  eg_pending :: pending_store
  eg_hold :: hold_pc
  eg_step :: wait_step_pc

fun reads_slot :: "nat \<Rightarrow> wait_key_record \<Rightarrow> bool" where
  "reads_slot slot (Key_claim c) \<longleftrightarrow> (case kc_early c of None \<Rightarrow> False | Some e \<Rightarrow> int slot \<in> set (earlySlots e))"
| "reads_slot slot (Key_release _ _) \<longleftrightarrow> False"

text \<open>What \<^verbatim>\<open>decodeWaitKeyRecord\<close> asks of a record's generation.\<close>

definition record_ok :: "wait_key_record \<Rightarrow> bool" where
  "record_ok r \<longleftrightarrow> 1 \<le> record_generation r \<and>
     (case r of
        Key_claim c \<Rightarrow> (case kc_early c of None \<Rightarrow> True | Some e \<Rightarrow> we_generation e = int (ka_generation c))
      | Key_release _ _ \<Rightarrow> True)"

definition slot_has_reader :: "key_store \<Rightarrow> nat \<Rightarrow> bool" where
  "slot_has_reader st slot \<longleftrightarrow> list_ex (\<lambda>(_, r). case r of None \<Rightarrow> False | Some r \<Rightarrow> reads_slot slot r) (ks_records st)"

text \<open>
  A generation is created once in time: after the one before it and not again when it was superseded
  and removed.
\<close>

definition in_time :: "key_store \<Rightarrow> nat \<Rightarrow> bool" where
  "in_time st g \<longleftrightarrow> g \<in> fst ` set (ks_records st) \<or> highest_generation st < g"

fun step_in_time :: "key_store \<Rightarrow> wait_step_pc \<Rightarrow> bool" where
  "step_in_time st (Step_claiming (Create n c)) \<longleftrightarrow> in_time st (ka_generation c)"
| "step_in_time st _ \<longleftrightarrow> True"

text \<open>
  Besides the signaller and the step, other processes claim and release the key, remove records that
  were superseded, settle, register and forget waits, and store signals. A pending record is removed when
  a later one is in its slot, or when the slot is below the key's highest record and no claim reads it.
\<close>

inductive early_step ::
  "(string \<Rightarrow> bool) \<Rightarrow> bool \<Rightarrow> wait_key_request \<Rightarrow> string \<Rightarrow> json_schema \<Rightarrow> string \<Rightarrow> early_signal \<Rightarrow> early_config \<Rightarrow> early_config \<Rightarrow> bool"
  for is_uuid stop rq workflowName schema receiptId sig where
  signal: "hold_move receiptId sig now (eg_store cf) (eg_pending cf) (eg_hold cf) = (ps', pc') \<Longrightarrow>
    early_step is_uuid stop rq workflowName schema receiptId sig cf (cf\<lparr>eg_pending := ps', eg_hold := pc'\<rparr>)"
| wait_step: "step_in_time (eg_store cf) (eg_step cf) \<Longrightarrow>
    step_move is_uuid stop rq workflowName schema now (eg_store cf) (eg_pending cf) (eg_step cf) = (st', pc') \<Longrightarrow>
    early_step is_uuid stop rq workflowName schema receiptId sig cf (cf\<lparr>eg_store := st', eg_step := pc'\<rparr>)"
| other_record: "record_ok r \<Longrightarrow> in_time (eg_store cf) (record_generation r) \<Longrightarrow>
    early_step is_uuid stop rq workflowName schema receiptId sig cf (cf\<lparr>eg_store := createKeyRecord r (eg_store cf)\<rparr>)"
| other_removal: "g < highest_generation (eg_store cf) \<Longrightarrow>
    early_step is_uuid stop rq workflowName schema receiptId sig cf (cf\<lparr>eg_store := removeKeyRecord g (eg_store cf)\<rparr>)"
| other_waits: "early_step is_uuid stop rq workflowName schema receiptId sig cf
    (cf\<lparr>eg_store := (eg_store cf)\<lparr>ks_outcomes := outcomes, ks_registrations := registrations\<rparr>\<rparr>)"
| other_signal: "early_step is_uuid stop rq workflowName schema receiptId sig cf
    (cf\<lparr>eg_pending := createPendingRecord p (eg_pending cf)\<rparr>)"
| other_pending_removal:
    "pa_workflowId a \<noteq> es_workflowId sig \<or> pa_key a \<noteq> es_key sig \<or>
     pa_number a < top_number (eg_pending cf) (pending_slot.truncate a) \<or>
     pa_slot a < highest_generation (eg_store cf) \<and> \<not> slot_has_reader (eg_store cf) (pa_slot a) \<Longrightarrow>
    early_step is_uuid stop rq workflowName schema receiptId sig cf
      (cf\<lparr>eg_pending := removePendingRecord a (eg_pending cf)\<rparr>)"

section \<open>What stays true of the key and of the slot\<close>

definition records_ok :: "key_store \<Rightarrow> bool" where
  "records_ok st \<longleftrightarrow>
     list_all (\<lambda>(g, x). case x of None \<Rightarrow> False | Some r \<Rightarrow> record_generation r = g \<and> record_ok r) (ks_records st)"

text \<open>A claim that was made, and stands while it is the highest record of its key.\<close>

definition known :: "key_store \<Rightarrow> wait_key_claim \<Rightarrow> bool" where
  "known st c \<longleftrightarrow> record_ok (Key_claim c) \<and> ka_generation c \<le> highest_generation st \<and>
     (ka_generation c = highest_generation st \<longrightarrow> findKeyRecord (ka_generation c) st = Found (Key_claim c))"

text \<open>A slot is live while a claim reads it or may come to read it.\<close>

definition slot_live :: "key_store \<Rightarrow> nat \<Rightarrow> bool" where
  "slot_live st slot \<longleftrightarrow> highest_generation st \<le> slot \<or> slot_has_reader st slot"

definition evolves :: "key_store \<Rightarrow> key_store \<Rightarrow> bool" where
  "evolves st st' \<longleftrightarrow> records_ok st' \<and> (\<forall>c. known st c \<longrightarrow> known st' c) \<and> (\<forall>slot. slot_live st' slot \<longrightarrow> slot_live st slot)"

lemma evolvesD:
  assumes "evolves st st'"
  shows "records_ok st'" "known st c \<Longrightarrow> known st' c" "slot_live st' slot \<Longrightarrow> slot_live st slot"
  using assms by (auto simp: evolves_def)

lemma evolves_same: "records_ok st \<Longrightarrow> ks_records st' = ks_records st \<Longrightarrow> evolves st st'"
  by (simp add: evolves_def records_ok_def known_def slot_live_def slot_has_reader_def highest_generation_def findKeyRecord_def)

lemma records_ok_readable: "records_ok st \<Longrightarrow> readable_store st"
  by (auto simp: records_ok_def readable_store_def record_ok_def list_all_iff split: option.splits)

lemma reads_slot_generation: "reads_slot slot r \<Longrightarrow> record_ok r \<Longrightarrow> slot \<le> record_generation r \<and> record_generation r \<le> Suc slot"
  by (cases r) (auto simp: record_ok_def earlySlots_def split: option.splits if_splits)

lemma highest_generation_create:
  "record_generation r \<notin> fst ` set (ks_records st) \<Longrightarrow>
     highest_generation (createKeyRecord r st) = max (highest_generation st) (record_generation r)"
  by (simp add: highest_generation_def createKeyRecord_def create_once_def map_of_eq_None_iff max.commute)

lemma highest_generation_in:
  "highest_generation st \<noteq> 0 \<Longrightarrow> highest_generation st \<in> fst ` set (ks_records st)"
  using highest_generation_cases [of st] by (auto simp: keys_of_store_def)

lemma createKeyRecord_evolves:
  assumes "records_ok st" "record_ok r" "in_time st (record_generation r)"
  shows "evolves st (createKeyRecord r st)"
proof (cases "record_generation r \<in> fst ` set (ks_records st)")
  case True
  then have "createKeyRecord r st = st"
    by (simp add: createKeyRecord_def create_once_def map_of_eq_None_iff)
  with assms(1) show ?thesis by (simp add: evolves_same)
next
  case False
  with assms(3) have above: "highest_generation st < record_generation r" by (simp add: in_time_def)
  have records: "ks_records (createKeyRecord r st) = ks_records st @ [(record_generation r, Some r)]"
    using False by (simp add: createKeyRecord_def create_once_def map_of_eq_None_iff)
  have top: "highest_generation (createKeyRecord r st) = record_generation r"
    using highest_generation_create [OF False] above by simp
  show ?thesis
    unfolding evolves_def
  proof (intro conjI allI impI)
    show "records_ok (createKeyRecord r st)" using assms(1,2) by (simp add: records_ok_def records)
    show "known (createKeyRecord r st) c" if "known st c" for c
      using that above by (simp add: known_def top)
    show "slot_live st slot" if "slot_live (createKeyRecord r st) slot" for slot
      using that above reads_slot_generation [OF _ assms(2), of slot]
      by (auto simp: slot_live_def slot_has_reader_def top records)
  qed
qed

lemma removeKeyRecord_evolves:
  assumes "records_ok st" "g < highest_generation st"
  shows "evolves st (removeKeyRecord g st)"
proof -
  have "highest_generation (removeKeyRecord g st) = highest_generation st"
  proof (rule antisym)
    show "highest_generation (removeKeyRecord g st) \<le> highest_generation st"
      unfolding highest_generation_def [of "removeKeyRecord g st"]
      by (rule fold_max_upper) (force simp: removeKeyRecord_def keys_of_store_def intro: highest_generation_bound)+
    show "highest_generation st \<le> highest_generation (removeKeyRecord g st)"
      using highest_generation_in [of st] assms(2)
      by (intro highest_generation_bound) (force simp: removeKeyRecord_def keys_of_store_def)
  qed
  moreover have "findKeyRecord h (removeKeyRecord g st) = findKeyRecord h st" if "h \<noteq> g" for h
  proof -
    have "map_of (filter (\<lambda>gr. fst gr \<noteq> g) xs) h = map_of xs h" for xs :: "(nat \<times> wait_key_record option) list"
      using that by (induction xs) auto
    then show ?thesis by (simp add: findKeyRecord_def stored_def removeKeyRecord_def)
  qed
  ultimately show ?thesis
    using assms
    by (auto simp: evolves_def records_ok_def known_def slot_live_def slot_has_reader_def list_all_iff list_ex_iff removeKeyRecord_def)
qed

section \<open>The slot's records only move on\<close>

lemma top_number_ge: "(a, x) \<in> set ps \<Longrightarrow> pending_slot.truncate a = s \<Longrightarrow> pa_number a \<le> top_number ps s"
  unfolding top_number_def slot_numbers_def by (rule fold_max_ge) force

lemma top_number_le: "(\<And>a x. (a, x) \<in> set ps \<Longrightarrow> pending_slot.truncate a = s \<Longrightarrow> pa_number a \<le> n) \<Longrightarrow> top_number ps s \<le> n"
  unfolding top_number_def slot_numbers_def by (rule fold_max_upper) auto

lemma top_number_mono: "set ps \<subseteq> set ps' \<Longrightarrow> top_number ps s \<le> top_number ps' s"
  by (rule top_number_le) (auto intro: top_number_ge)

lemma top_number_create: "top_number ps s \<le> top_number (createPendingRecord r ps) s"
  by (rule top_number_mono) (auto simp: createPendingRecord_def create_once_def)

lemma top_number_in: "top_number ps s \<noteq> 0 \<Longrightarrow> \<exists>a x. (a, x) \<in> set ps \<and> pending_slot.truncate a = s \<and> pa_number a = top_number ps s"
proof -
  have "fold max xs n = n \<or> fold max xs n \<in> set xs" for xs and n :: nat
    by (induction xs arbitrary: n) (auto simp: max_def)
  from this [of "slot_numbers ps s" 0] show "top_number ps s \<noteq> 0 \<Longrightarrow> ?thesis"
    by (force simp: top_number_def slot_numbers_def)
qed

lemma top_number_remove:
  assumes "pending_slot.truncate a \<noteq> s \<or> pa_number a < top_number ps s"
  shows "top_number ps s \<le> top_number (removePendingRecord a ps) s"
proof (cases "top_number ps s = 0")
  case False
  from top_number_in [OF this] obtain b x where
    b: "(b, x) \<in> set ps" "pending_slot.truncate b = s" "pa_number b = top_number ps s" by blast
  with assms have "(b, x) \<in> set (removePendingRecord a ps)" by (auto simp: removePendingRecord_def)
  from top_number_ge [OF this b(2)] b(3) show ?thesis by simp
qed simp

section \<open>One call of the step\<close>

fun claim_pc_ok :: "key_store \<Rightarrow> claim_pc \<Rightarrow> bool" where
  "claim_pc_ok st (Highest n) \<longleftrightarrow> True"
| "claim_pc_ok st (Outcome_of n c) \<longleftrightarrow> known st c"
| "claim_pc_ok st (Registration_of n c) \<longleftrightarrow> known st c"
| "claim_pc_ok st (Take_pending n c reg) \<longleftrightarrow> known st c"
| "claim_pc_ok st (Past_deadline n c) \<longleftrightarrow> known st c"
| "claim_pc_ok st (Still n c) \<longleftrightarrow> known st c"
| "claim_pc_ok st (Abandoned n c) \<longleftrightarrow> known st c"
| "claim_pc_ok st (Cancel n c) \<longleftrightarrow> known st c"
| "claim_pc_ok st (Create n c) \<longleftrightarrow> record_ok (Key_claim c)"
| "claim_pc_ok st (Done a) \<longleftrightarrow> (case a of Acquired c \<Rightarrow> known st c | Own c \<Rightarrow> known st c | _ \<Rightarrow> True)"

lemma claim_pc_ok_simps [simp]:
  "claim_pc_ok st (next_attempt n)" "claim_pc_ok st (by_deadline now n c) = known st c"
  by (simp_all add: next_attempt_def by_deadline_def)

lemma new_claim_ok [simp]: "record_ok (Key_claim (new_claim rq now highest))"
  by (simp add: record_ok_def new_claim_def Let_def split: option.splits)

lemma known_found:
  assumes "records_ok st" and "findKeyRecord g st = Found (Key_claim c)"
  shows "known st c"
proof -
  from assms(2) have "(g, Some (Key_claim c)) \<in> set (ks_records st)"
    by (auto simp: findKeyRecord_def stored_def split: option.splits dest: map_of_SomeD)
  moreover from this have "g \<le> highest_generation st"
    by (intro highest_generation_bound) (force simp: keys_of_store_def)
  ultimately show ?thesis
    using assms by (auto simp: records_ok_def list_all_iff known_def)
qed

lemma known_highest:
  assumes "records_ok st" and "highestKeyRecord st = Highest_found (Key_claim c)"
  shows "known st c"
proof -
  from assms(2) have "findKeyRecord (highest_generation st) st = Found (Key_claim c)"
    by (auto simp: highestKeyRecord_def findKeyRecord_def Let_def split: if_splits stored_wait_record.splits)
  from known_found [OF assms(1) this] show ?thesis .
qed

lemma known_same: "ks_records st' = ks_records st \<Longrightarrow> known st' c = known st c"
  by (simp add: known_def highest_generation_def findKeyRecord_def)

lemma known_settle [simp]: "known (settle_wait w out st) c = known st c"
  by (rule known_same) simp

lemma claim_move_evolves:
  assumes "records_ok st" and "claim_pc_ok st pc" and "step_in_time st (Step_claiming pc)"
    and "claim_move pending rq now st pc = (st', pc')"
  shows "evolves st st' \<and> claim_pc_ok st' pc'"
proof (cases pc)
  case (Highest n)
  with assms show ?thesis
    by (auto simp: evolves_same known_highest split: highest_key_record.splits wait_key_record.splits)
next
  case (Create n c)
  with assms have ok: "record_ok (Key_claim c)" "in_time st (record_generation (Key_claim c))"
    and st': "st' = createKeyRecord (Key_claim c) st" by (auto simp: Let_def)
  from createKeyRecord_evolves [OF assms(1) ok] have evolved: "evolves st st'" using st' by simp
  moreover have "claim_pc_ok st' pc'"
    using Create assms(4) known_found [OF evolvesD(1) [OF evolved]]
    by (auto simp: Let_def split: stored_wait_record.splits wait_key_record.splits if_splits)
  ultimately show ?thesis by blast
qed (use assms in \<open>auto simp: evolves_same split: highest_key_record.splits wait_key_record.splits
       stored_wait_record.splits option.splits if_splits\<close>)

fun step_ok ::
  "(string \<Rightarrow> bool) \<Rightarrow> bool \<Rightarrow> wait_key_request \<Rightarrow> string \<Rightarrow> json_schema \<Rightarrow> key_store \<Rightarrow> wait_step_pc \<Rightarrow> bool" where
  "step_ok is_uuid stop rq workflowName schema st (Step_claiming pc) \<longleftrightarrow> claim_pc_ok st pc"
| "step_ok is_uuid stop rq workflowName schema st (Step_register c) \<longleftrightarrow> known st c"
| "step_ok is_uuid stop rq workflowName schema st (Step_take c) \<longleftrightarrow> known st c"
| "step_ok is_uuid stop rq workflowName schema st (Step_waiting c standing seen result) \<longleftrightarrow> known st c \<and>
     (\<forall>ref out. claimed_ref rq workflowName schema c = Some ref \<longrightarrow>
        applicablePendingOutcome is_uuid stop seen ref = Inr (Some out) \<longrightarrow> result \<noteq> Absent)"
| "step_ok is_uuid stop rq workflowName schema st (Step_refused a) \<longleftrightarrow> True"

lemma claim_pc_ok_evolves: "claim_pc_ok st pc \<Longrightarrow> evolves st st' \<Longrightarrow> claim_pc_ok st' pc"
  by (cases pc) (auto dest: evolvesD(2) split: wait_key_acquisition.splits)

lemma step_ok_evolves:
  "step_ok is_uuid stop rq workflowName schema st pc \<Longrightarrow> evolves st st' \<Longrightarrow> step_ok is_uuid stop rq workflowName schema st' pc"
  by (cases pc) (auto dest: evolvesD(2) claim_pc_ok_evolves)

lemma step_take_move:
  assumes "step_move is_uuid stop rq workflowName schema now st ps (Step_take c) = (st', pc')"
  shows "\<exists>result. pc' = Step_waiting c (findKeyRecord (ka_generation c) st = Found (Key_claim c)) ps result \<and>
    ks_records st' = ks_records st \<and>
    (\<forall>ref out. claimed_ref rq workflowName schema c = Some ref \<longrightarrow>
       applicablePendingOutcome is_uuid stop ps ref = Inr (Some out) \<longrightarrow> result \<noteq> Absent)"
proof (cases "claimed_ref rq workflowName schema c")
  case None
  with assms show ?thesis by (auto simp: Let_def)
next
  case (Some ref)
  show ?thesis
  proof (cases "applicablePendingOutcome is_uuid stop ps ref")
    case (Inl e)
    with Some assms show ?thesis by (auto simp: Let_def takePendingSignal_def)
  next
    case (Inr found)
    with Some assms show ?thesis
      by (cases found) (auto simp: Let_def takePendingSignal_def stored_create_once)
  qed
qed

lemma step_move_evolves:
  assumes "records_ok st" and "step_ok is_uuid stop rq workflowName schema st pc" and "step_in_time st pc"
    and "step_move is_uuid stop rq workflowName schema now st ps pc = (st', pc')"
  shows "evolves st st' \<and> step_ok is_uuid stop rq workflowName schema st' pc'"
proof (cases pc)
  case (Step_claiming cpc)
  obtain st2 cpc2 where move: "claim_move (early_outcome is_uuid stop ps) rq now st cpc = (st2, cpc2)" by fastforce
  from claim_move_evolves [OF assms(1) _ _ move] assms(2,3) Step_claiming
  have "evolves st st2" "claim_pc_ok st2 cpc2" by simp_all
  with assms(4) move Step_claiming show ?thesis
    by (cases cpc2) (auto split: wait_key_acquisition.splits)
next
  case (Step_take c)
  obtain standing result where moved: "pc' = Step_waiting c standing ps result" "ks_records st' = ks_records st"
      and told: "\<And>ref out. claimed_ref rq workflowName schema c = Some ref \<Longrightarrow>
        applicablePendingOutcome is_uuid stop ps ref = Inr (Some out) \<Longrightarrow> result \<noteq> Absent"
    using step_take_move [OF assms(4) [unfolded Step_take]] by blast
  from assms(2) Step_take have "known st' c" by (simp add: known_same [OF moved(2)])
  with moved(1) told evolves_same [OF assms(1) moved(2)] show ?thesis by auto
next
  case (Step_register c)
  from assms(4) Step_register have same: "ks_records st' = ks_records st" and "pc' = Step_take c" by auto
  with assms(2) Step_register evolves_same [OF assms(1) same] show ?thesis by (simp add: known_same [OF same])
qed (use assms evolves_same [OF assms(1) refl] in auto)

section \<open>A signal that is kept is not missed\<close>

definition slot_of :: "pending_signal \<Rightarrow> pending_slot" where
  "slot_of p = pending_slot.truncate p"

definition kept_ok :: "key_store \<Rightarrow> pending_store \<Rightarrow> pending_signal \<Rightarrow> bool" where
  "kept_ok st ps p \<longleftrightarrow> (slot_live st (pa_slot p) \<longrightarrow> pa_number p \<le> top_number ps (slot_of p))"

definition of_signal :: "early_signal \<Rightarrow> pending_signal \<Rightarrow> bool" where
  "of_signal sig p \<longleftrightarrow> pa_workflowId p = es_workflowId sig \<and> pa_key p = es_key sig"

fun seen_by :: "pending_signal \<Rightarrow> wait_step_pc \<Rightarrow> bool" where
  "seen_by p (Step_waiting c standing seen result) \<longleftrightarrow>
     (standing \<longrightarrow> reads_slot (pa_slot p) (Key_claim c) \<longrightarrow> pa_number p \<le> top_number seen (slot_of p))"
| "seen_by p _ \<longleftrightarrow> True"

fun hold_ok :: "early_signal \<Rightarrow> key_store \<Rightarrow> pending_store \<Rightarrow> wait_step_pc \<Rightarrow> hold_pc \<Rightarrow> bool" where
  "hold_ok sig st ps step_pc (Hold_again n p) \<longleftrightarrow> of_signal sig p \<and> kept_ok st ps p"
| "hold_ok sig st ps step_pc (Hold_done (Arrived_pending p)) \<longleftrightarrow> of_signal sig p \<and> kept_ok st ps p \<and> seen_by p step_pc"
| "hold_ok sig st ps step_pc _ \<longleftrightarrow> True"

text \<open>What \<^verbatim>\<open>decodePendingRecord\<close> asks of a record's address.\<close>

definition pending_ok :: "pending_store \<Rightarrow> bool" where
  "pending_ok ps \<longleftrightarrow> list_all (\<lambda>(a, x). case x of None \<Rightarrow> True | Some r \<Rightarrow> pending_address_of r = a) ps"

definition early_inv ::
  "(string \<Rightarrow> bool) \<Rightarrow> bool \<Rightarrow> wait_key_request \<Rightarrow> string \<Rightarrow> json_schema \<Rightarrow> early_signal \<Rightarrow> early_config \<Rightarrow> bool" where
  "early_inv is_uuid stop rq workflowName schema sig cf \<longleftrightarrow>
     records_ok (eg_store cf) \<and> pending_ok (eg_pending cf) \<and> step_ok is_uuid stop rq workflowName schema (eg_store cf) (eg_step cf) \<and>
     hold_ok sig (eg_store cf) (eg_pending cf) (eg_step cf) (eg_hold cf)"

lemma hold_ok_cases:
  assumes "hold_ok sig st ps step_pc pc"
    and "\<And>p. of_signal sig p \<Longrightarrow> kept_ok st ps p \<Longrightarrow> kept_ok st' ps' p"
    and "\<And>p. of_signal sig p \<Longrightarrow> kept_ok st ps p \<Longrightarrow> seen_by p step_pc \<Longrightarrow> seen_by p step_pc'"
  shows "hold_ok sig st' ps' step_pc' pc"
proof (cases "(sig, st, ps, step_pc, pc)" rule: hold_ok.cases)
qed (use assms in auto)

lemma kept_ok_evolves: "kept_ok st ps p \<Longrightarrow> evolves st st' \<Longrightarrow> kept_ok st' ps p"
  by (auto simp: kept_ok_def dest: evolvesD(3))

lemma unclaimed_unread:
  assumes "records_ok st" and "slot_unclaimed slot (highestKeyRecord st)" and "known st c"
  shows "\<not> reads_slot slot (Key_claim c)"
proof
  assume reads: "reads_slot slot (Key_claim c)"
  from assms(3) have c: "record_ok (Key_claim c)" "ka_generation c \<le> highest_generation st" by (simp_all add: known_def)
  from reads_slot_generation [OF reads c(1)] have slot: "slot \<le> ka_generation c" by simp
  note high = readable_highest [OF records_ok_readable [OF assms(1)]]
  show False
  proof (cases "highest_record st")
    case None
    with high c show False by (simp add: record_ok_def)
  next
    case (Some r)
    with high have h: "highestKeyRecord st = Highest_found r" "highest_generation st = record_generation r" by simp_all
    with assms(2) slot c(2) have top: "ka_generation c = highest_generation st" "\<forall>d. r \<noteq> Key_claim d"
      by (auto split: wait_key_record.splits)
    with assms(3) have "findKeyRecord (highest_generation st) st = Found (Key_claim c)" by (simp add: known_def)
    with h(1) top show False
      by (auto simp: highestKeyRecord_def findKeyRecord_def Let_def split: if_splits)
  qed
qed

lemma slot_of_truncate: "pending_slot.truncate (pending_address.truncate p) = pending_slot.truncate p"
  by (simp add: pending_slot.defs pending_address.defs)

lemma pending_ok_create: "pending_ok ps \<Longrightarrow> pending_ok (createPendingRecord r ps)"
  by (auto simp: pending_ok_def createPendingRecord_def create_once_def)

lemma pending_ok_remove: "pending_ok ps \<Longrightarrow> pending_ok (removePendingRecord a ps)"
  by (auto simp: pending_ok_def removePendingRecord_def list_all_iff)

lemma found_kept:
  assumes "pending_ok ps" and "stored ps a = Found (Pending_sig p)"
  shows "pending_address.truncate p = a" "pa_number p \<le> top_number ps (slot_of p)"
proof -
  from assms(2) have found: "(a, Some (Pending_sig p)) \<in> set ps"
    by (auto simp: stored_def split: option.splits dest: map_of_SomeD)
  with assms(1) show a: "pending_address.truncate p = a" by (auto simp: pending_ok_def list_all_iff)
  have "pa_number a \<le> top_number ps (slot_of p)"
    using a by (intro top_number_ge [OF found]) (auto simp: slot_of_def slot_of_truncate)
  with a show "pa_number p \<le> top_number ps (slot_of p)" by (auto simp: pending_address.defs)
qed

lemma kept_ok_pending: "kept_ok st ps p \<Longrightarrow> top_number ps (slot_of p) \<le> top_number ps' (slot_of p) \<Longrightarrow> kept_ok st ps' p"
  by (auto simp: kept_ok_def)

lemma hold_move_ok:
  assumes "records_ok st" "pending_ok ps" "step_ok is_uuid stop rq workflowName schema st step_pc" "hold_ok sig st ps step_pc pc"
    and "hold_move receiptId sig now st ps pc = (ps', pc')"
  shows "pending_ok ps' \<and> hold_ok sig st ps' step_pc pc'"
proof (cases pc)
  case (Hold_create n kept slot number)
  define r where "r = early_record receiptId sig now slot number"
  have ps': "ps' = createPendingRecord (Pending_sig r) ps" and
    pc': "pc' = (case stored ps' (pending_address.truncate r) of
              Found (Pending_sig created) \<Rightarrow>
                if pn_receiptId created \<noteq> receiptId then Hold_done (Arrived_already created) else Hold_again n created
            | Found (Lapse _ _) \<Rightarrow> hold_next n kept
            | _ \<Rightarrow> Hold_done Arrived_unreadable)"
    using assms(5) Hold_create by (auto simp: r_def Let_def)
  have ok: "pending_ok ps'" unfolding ps' using assms(2) by (rule pending_ok_create)
  have "of_signal sig p \<and> kept_ok st ps' p" if "stored ps' (pending_address.truncate r) = Found (Pending_sig p)" for p
    using found_kept [OF ok that] by (auto simp: kept_ok_def of_signal_def r_def early_record_def pending_address.defs)
  then show ?thesis
    unfolding pc' using ok by (auto simp: hold_next_def split: stored_wait_record.splits pending_record.splits)
next
  case (Hold_again n p)
  have "seen_by p step_pc" if "slot_unclaimed (pa_slot p) (highestKeyRecord st)"
    using unclaimed_unread [OF assms(1) that] assms(3) by (cases step_pc) auto
  with assms(2,4,5) Hold_again show ?thesis by (auto split: if_splits)
qed (use assms in \<open>auto simp: hold_next_def Let_def split: highest_key_record.splits key_holder_lookup.splits
       early_decision.splits option.splits wait_outcome.splits if_splits\<close>)

lemma seen_by_step:
  assumes "step_move is_uuid stop rq workflowName schema now st ps pc = (st', pc')"
    and "kept_ok st ps p" and "seen_by p pc" and "records_ok st"
  shows "seen_by p pc'"
proof (cases pc)
  case (Step_claiming cpc)
  with assms(1) show ?thesis by (auto split: prod.splits claim_pc.splits wait_key_acquisition.splits)
next
  case (Step_take c)
  have "slot_live st (pa_slot p)"
    if "findKeyRecord (ka_generation c) st = Found (Key_claim c)" "reads_slot (pa_slot p) (Key_claim c)"
    using that unfolding slot_live_def slot_has_reader_def list_ex_iff
    by (force simp: findKeyRecord_def stored_def split: option.splits dest!: map_of_SomeD)
  with step_take_move [OF assms(1) [unfolded Step_take]] assms(2) show ?thesis
    by (auto simp: kept_ok_def)
qed (use assms in auto)

lemma early_inv_step:
  assumes "early_step is_uuid stop rq workflowName schema receiptId sig cf cf'"
    and "early_inv is_uuid stop rq workflowName schema sig cf"
  shows "early_inv is_uuid stop rq workflowName schema sig cf'"
proof -
  let ?st = "eg_store cf" and ?ps = "eg_pending cf"
  from assms(2) have inv: "records_ok ?st" "pending_ok ?ps" "step_ok is_uuid stop rq workflowName schema ?st (eg_step cf)"
    "hold_ok sig ?st ?ps (eg_step cf) (eg_hold cf)" by (simp_all add: early_inv_def)
  have by_store: "early_inv is_uuid stop rq workflowName schema sig (cf\<lparr>eg_store := st', eg_step := pc'\<rparr>)"
    if "evolves ?st st'" and "step_ok is_uuid stop rq workflowName schema st' pc'"
      and "\<And>p. kept_ok ?st ?ps p \<Longrightarrow> seen_by p (eg_step cf) \<Longrightarrow> seen_by p pc'" for st' pc'
    using inv that by (auto simp: early_inv_def intro: evolvesD(1) hold_ok_cases [OF inv(4)] kept_ok_evolves)
  have by_others: "early_inv is_uuid stop rq workflowName schema sig (cf\<lparr>eg_store := st'\<rparr>)" if "evolves ?st st'" for st'
    using by_store [OF that, of "eg_step cf"] step_ok_evolves [OF inv(3) that] by simp
  have by_pending: "early_inv is_uuid stop rq workflowName schema sig (cf\<lparr>eg_pending := ps'\<rparr>)"
    if "pending_ok ps'" and "\<And>p. of_signal sig p \<Longrightarrow> kept_ok ?st ?ps p \<Longrightarrow> kept_ok ?st ps' p" for ps'
    using inv that by (auto simp: early_inv_def intro: hold_ok_cases [OF inv(4)])
  from assms(1) show ?thesis
  proof cases
    case (signal now ps' pc')
    from hold_move_ok [OF inv this(2)] inv show ?thesis unfolding signal(1) by (simp add: early_inv_def)
  next
    case (wait_step now st' pc')
    from step_move_evolves [OF inv(1,3) this(2,3)] show ?thesis
      unfolding wait_step(1) by (intro by_store) (auto intro: seen_by_step [OF wait_step(3) _ _ inv(1)])
  next
    case (other_record r)
    from createKeyRecord_evolves [OF inv(1) this(2,3)] show ?thesis unfolding other_record(1) by (rule by_others)
  next
    case (other_removal g)
    from removeKeyRecord_evolves [OF inv(1) this(2)] show ?thesis unfolding other_removal(1) by (rule by_others)
  next
    case (other_waits outcomes registrations)
    show ?thesis unfolding other_waits(1) by (rule by_others, rule evolves_same [OF inv(1)]) simp
  next
    case (other_signal p)
    show ?thesis
      unfolding other_signal(1)
      by (rule by_pending [OF pending_ok_create [OF inv(2)]]) (auto intro: kept_ok_pending top_number_create)
  next
    case (other_pending_removal a)
    have "kept_ok ?st (removePendingRecord a ?ps) p" if "of_signal sig p" "kept_ok ?st ?ps p" for p
    proof (cases "pending_slot.truncate a = slot_of p")
      case False
      then show ?thesis by (intro kept_ok_pending [OF that(2)] top_number_remove) blast
    next
      case True
      then have "pa_workflowId a = pa_workflowId p" "pa_key a = pa_key p" "pa_slot a = pa_slot p"
        by (simp_all add: slot_of_def pending_slot.defs)
      with other_pending_removal(2) that(1) True
      have "pa_number a < top_number ?ps (slot_of p) \<or> \<not> slot_live ?st (pa_slot p)"
        by (auto simp: of_signal_def slot_live_def)
      then show ?thesis
        by (auto intro: kept_ok_pending [OF that(2)] top_number_remove) (simp add: kept_ok_def)
    qed
    then show ?thesis
      unfolding other_pending_removal(1) by (rule by_pending [OF pending_ok_remove [OF inv(2)]])
  qed
qed

definition early_start :: "key_store \<Rightarrow> pending_store \<Rightarrow> early_config" where
  "early_start st ps = \<lparr>eg_store = st, eg_pending = ps, eg_hold = Hold_highest 0 None, eg_step = Step_claiming (Highest 0)\<rparr>"

lemma early_inv_reachable:
  assumes "(early_step is_uuid stop rq workflowName schema receiptId sig)\<^sup>*\<^sup>* (early_start st ps) cf"
    and "records_ok st" and "pending_ok ps"
  shows "early_inv is_uuid stop rq workflowName schema sig cf"
  using assms(1)
proof (induction rule: rtranclp_induct)
  case base
  with assms(2,3) show ?case by (simp add: early_inv_def early_start_def)
qed (rule early_inv_step)


definition demo_early_request :: wait_key_request where
  "demo_early_request = (demo_request ''w'')\<lparr>kq_acceptEarly := Some 60\<rparr>"

definition demo_signal :: early_signal where
  "demo_signal = \<lparr>es_workflowId = ''f'', es_key = ''k'', es_payload = [], es_submittedBy = ''u'', es_acceptEarly = 60,
                  es_idempotencyKey = None, es_authorizedFor = None\<rparr>"

text \<open>A call of the signaller or of the step.\<close>

fun early_calls :: "bool list \<Rightarrow> early_config \<Rightarrow> early_config option" where
  "early_calls [] cf = Some cf"
| "early_calls (True # calls) cf =
     (case hold_move ''r'' demo_signal 5 (eg_store cf) (eg_pending cf) (eg_hold cf) of
        (ps', pc') \<Rightarrow> early_calls calls (cf\<lparr>eg_pending := ps', eg_hold := pc'\<rparr>))"
| "early_calls (False # calls) cf =
     (if step_in_time (eg_store cf) (eg_step cf) then
        (case step_move (\<lambda>_. True) False demo_early_request ''n'' any_schema 9 (eg_store cf) (eg_pending cf) (eg_step cf) of
           (st', pc') \<Rightarrow> early_calls calls (cf\<lparr>eg_store := st', eg_step := pc'\<rparr>))
      else None)"

lemma early_calls_steps:
  "early_calls calls cf = Some cf' \<Longrightarrow>
     (early_step (\<lambda>_. True) False demo_early_request ''n'' any_schema ''r'' demo_signal)\<^sup>*\<^sup>* cf cf'"
proof (induction calls cf rule: early_calls.induct)
  case (2 calls cf)
  then show ?case by (auto split: prod.splits intro: converse_rtranclp_into_rtranclp early_step.signal)
next
  case (3 calls cf)
  then show ?case
    by (auto split: prod.splits if_splits intro: converse_rtranclp_into_rtranclp early_step.wait_step)
qed simp

definition demo_calls :: "bool list" where
  "demo_calls = [True, False, True, True, True, True, False, False, False]"

definition demo_empty :: key_store where
  "demo_empty = \<lparr>ks_records = [], ks_outcomes = [], ks_registrations = []\<rparr>"

text \<open>The signal is stored first; the step claims the slot, sees the signal and is given it.\<close>

definition demo_seen :: "early_config \<Rightarrow> bool" where
  "demo_seen cf =
     (case (eg_hold cf, eg_step cf) of
        (Hold_done (Arrived_pending p), Step_waiting c standing seen result) \<Rightarrow>
          standing \<and> reads_slot (pa_slot p) (Key_claim c) \<and> highestPendingRecord seen (slot_of p) = Pending_found (Pending_sig p) \<and>
          (case claimed_ref demo_early_request ''n'' any_schema c of
             None \<Rightarrow> False
           | Some ref \<Rightarrow> pendingOutcome (\<lambda>_. True) False p ref \<noteq> Inr None)
      | _ \<Rightarrow> False)"

lemma demo_calls_run: "map_option demo_seen (early_calls demo_calls (early_start demo_empty [])) = Some True"
  by code_simp


section \<open>A signal without rivals\<close>

lemma at_number_simps [simp]: "pending_slot.truncate (at_number s n) = s" "pa_number (at_number s n) = n"
  by (simp_all add: at_number_def pending_slot.defs)

lemma highest_found_top:
  assumes "pending_ok ps" and "highestPendingRecord ps s = Pending_found r"
  shows "pending_address_of r = at_number s (top_number ps s)" "0 < top_number ps s"
proof -
  from assms(2) have found: "stored ps (at_number s (top_number ps s)) = Found r" and pos: "0 < top_number ps s"
    by (auto simp: highestPendingRecord_def Let_def split: if_splits stored_wait_record.splits)
  then have "(at_number s (top_number ps s), Some r) \<in> set ps"
    by (auto simp: stored_def split: option.splits dest: map_of_SomeD)
  with assms(1) pos show "pending_address_of r = at_number s (top_number ps s)" "0 < top_number ps s"
    by (auto simp: pending_ok_def list_all_iff)
qed

lemma live_slots_unclaimed:
  "highestKeyRecord st = Highest_none \<Longrightarrow> slot \<in> set (ls_live (liveSlotsOf None)) \<Longrightarrow> slot_unclaimed slot (highestKeyRecord st)"
  "highestKeyRecord st = Highest_found r \<Longrightarrow> slot \<in> set (ls_live (liveSlotsOf (Some r))) \<Longrightarrow> slot_unclaimed slot (highestKeyRecord st)"
  by (auto simp: liveSlotsOf_def split: wait_key_record.splits)

lemma stored_above_top: "top_number ps s < n \<Longrightarrow> stored ps (at_number s n) = Absent"
  using top_number_ge [of "at_number s n" _ ps s] by (force simp: stored_Absent_iff)

lemma refusal_of_stores_nothing [simp]: "refusal_of now heads \<noteq> Some (Store_at n)"
  by (induction heads) (auto split: highest_pending_record.splits pending_record.splits)

text \<open>A signal is stored at the next free number of its slot.\<close>

lemma decided_number:
  assumes "pending_ok ps" and "decideEarlySignal (slot_heads ps workflowId key (slot # slots)) now = Store_at n"
  shows "n = top_number ps \<lparr>pa_workflowId = workflowId, pa_key = key, pa_slot = slot\<rparr> + 1"
proof -
  define s where "s = \<lparr>pa_workflowId = workflowId, pa_key = key, pa_slot = slot\<rparr>"
  have "highestPendingRecord ps s = Pending_none \<Longrightarrow> top_number ps s = 0"
    by (auto simp: highestPendingRecord_def Let_def split: if_splits stored_wait_record.splits)
  with assms highest_found_top [OF assms(1), of s] show ?thesis
    unfolding s_def [symmetric]
    by (cases "highestPendingRecord ps s")
      (auto simp: decideEarlySignal_def slot_heads_def s_def split: option.splits if_splits pending_record.splits)
qed

lemma liveSlotsOf_own: "\<exists>slots. ls_live (liveSlotsOf highest) = ls_slot (liveSlotsOf highest) # slots"
  by (simp add: liveSlotsOf_def split: option.split wait_key_record.split)

lemma stored_signal_is_kept:
  assumes "readable_store st" and "pending_ok ps" and live: "live = liveSlotsOf (highest_record st)"
    and "decideEarlySignal (slot_heads ps (es_workflowId sig) (es_key sig) (ls_live live)) now = Store_at number"
  shows "snd (hold_run receiptId sig now st ps (Hold_create n kept (ls_slot live) number)) =
    Arrived_pending (early_record receiptId sig now (ls_slot live) number)"
proof -
  define r where "r = early_record receiptId sig now (ls_slot live) number"
  define s where "s = \<lparr>pa_workflowId = es_workflowId sig, pa_key = es_key sig, pa_slot = ls_slot live\<rparr>"
  obtain slots where slots: "ls_live live = ls_slot live # slots"
    using liveSlotsOf_own [of "highest_record st"] live by blast
  from decided_number [OF assms(2) assms(4) [unfolded slots]] have "top_number ps s < number" by (simp add: s_def)
  moreover have address: "pending_address.truncate r = at_number s number"
    by (simp add: r_def s_def early_record_def at_number_def pending_address.defs)
  ultimately have "stored (createPendingRecord (Pending_sig r) ps) (pending_address.truncate r) = Found (Pending_sig r)"
    using stored_above_top by (simp add: createPendingRecord_def stored_create_once)
  then have "hold_move receiptId sig now st ps (Hold_create n kept (ls_slot live) number) =
      (createPendingRecord (Pending_sig r) ps, Hold_again n r)"
    by (simp add: Let_def r_def [symmetric]) (simp add: r_def early_record_def)
  note created = hold_run_move [OF this]
  have "slot_unclaimed (pa_slot r) (highestKeyRecord st)"
    using readable_highest(1) [OF assms(1)] live_slots_unclaimed [of st, where slot = "ls_slot live"] slots live
    by (cases "highest_record st") (simp_all add: r_def early_record_def)
  then have "hold_move receiptId sig now st ps' (Hold_again n r) = (ps', Hold_done (Arrived_pending r))" for ps' by simp
  note again = hold_run_move [OF this]
  show ?thesis unfolding r_def [symmetric] by (simp add: created again hold_run_done)
qed

text \<open>
  When no other process calls the store meanwhile, a signal for a readable key always has an answer: it goes to
  the open wait that holds the key; a copy of a signal that settled the last wait or the one before is a
  duplicate; a signal already held for the next wait refuses it; and otherwise it is stored, over
  nothing, in the slot the next claim reads, and reported as pending. It is never contended.
\<close>

theorem holdEarlySignal_without_rivals:
  assumes "readable_store st" and "pending_ok ps"
  shows "snd (holdEarlySignal receiptId st ps sig now) =
    (let live = liveSlotsOf (highest_record st);
         landed = (case es_idempotencyKey sig of
                     None \<Rightarrow> None
                   | Some k \<Rightarrow> settledUnderKey st (es_workflowId sig) (highest_record st) k (es_submittedBy sig)) in
     case findKeyHolder st (es_workflowId sig) (es_key sig) of
       Holder c \<Rightarrow> Arrived_held c None
     | Holder_unreadable _ \<Rightarrow> Arrived_unreadable
     | Holder_free \<Rightarrow>
         (case landed of
            Some (c, out) \<Rightarrow> Arrived_duplicate c out None
          | None \<Rightarrow>
              (case decideEarlySignal (slot_heads ps (es_workflowId sig) (es_key sig) (ls_live live)) now of
                 Slot_unreadable \<Rightarrow> Arrived_unreadable
               | Already_pending p \<Rightarrow> Arrived_already p
               | Store_at number \<Rightarrow> Arrived_pending (early_record receiptId sig now (ls_slot live) number))))"
proof -
  let ?run = "hold_run receiptId sig now st ps" and ?h = "highest_record st"
  have moved: "?run pc = ?run pc'" if "hold_move receiptId sig now st ps pc = (ps, pc')" "\<And>a. pc \<noteq> Hold_done a" for pc pc'
    using hold_run_move [OF that] .
  have first: "?run (Hold_highest 0 None) = ?run (Hold_holder 0 None ?h)"
    using readable_highest(1) [OF assms(1)] by (intro moved) (simp_all split: option.split)
  have heads: "snd (?run (Hold_heads 0 None ?h)) =
      (case decideEarlySignal (slot_heads ps (es_workflowId sig) (es_key sig) (ls_live (liveSlotsOf ?h))) now of
         Slot_unreadable \<Rightarrow> Arrived_unreadable
       | Already_pending p \<Rightarrow> Arrived_already p
       | Store_at number \<Rightarrow> Arrived_pending (early_record receiptId sig now (ls_slot (liveSlotsOf ?h)) number))"
    using stored_signal_is_kept [OF assms refl]
    by (cases "decideEarlySignal (slot_heads ps (es_workflowId sig) (es_key sig) (ls_live (liveSlotsOf ?h))) now")
      (subst moved, simp add: Let_def, simp_all add: hold_run_done)+
  have landed: "snd (?run (Hold_landed 0 None ?h)) =
      (case settledUnderKey st (es_workflowId sig) ?h (the (es_idempotencyKey sig)) (es_submittedBy sig) of
         Some (c, out) \<Rightarrow> Arrived_duplicate c out None
       | None \<Rightarrow> snd (?run (Hold_heads 0 None ?h)))"
    by (cases "settledUnderKey st (es_workflowId sig) ?h (the (es_idempotencyKey sig)) (es_submittedBy sig)")
      (subst moved, simp, auto simp: hold_run_done)+
  show ?thesis
    unfolding holdEarlySignal_def first Let_def
    by (cases "findKeyHolder st (es_workflowId sig) (es_key sig)"; cases "es_idempotencyKey sig")
      (subst moved, simp, simp_all add: hold_run_done heads landed split: option.split)+
qed

theorem holdEarlySignal_without_rivals_witness:
  "readable_store demo_empty \<and> pending_ok [] \<and>
   snd (holdEarlySignal ''r'' demo_empty [] demo_signal 5) = Arrived_pending (early_record ''r'' demo_signal 5 1 1)"
proof -
  have ok: "readable_store demo_empty" "pending_ok []" by code_simp+
  have "findKeyHolder demo_empty (es_workflowId demo_signal) (es_key demo_signal) = Holder_free"
    "liveSlotsOf (highest_record demo_empty) = \<lparr>ls_slot = 1, ls_live = [1]\<rparr>" "es_idempotencyKey demo_signal = None"
    "decideEarlySignal (slot_heads [] (es_workflowId demo_signal) (es_key demo_signal) [1]) 5 = Store_at 1" by code_simp+
  with holdEarlySignal_without_rivals [OF ok, of "''r''" demo_signal 5] ok show ?thesis by (simp add: Let_def)
qed

end
