(* ===== verification/Wait_Cleanup.thy ===== *)
theory Wait_Cleanup
  imports Early_Signal Workflow_Run
begin

text \<open>
  \<^verbatim>\<open>src/src/domain/workflows/signal_wait_cleanup.ts\<close>: reading and settling the waits of a run, closing them
  when the run ends, and sweeping what is left. The functions run alone on the store: its
  registrations and outcomes by wait id, and its pending records. \<open>key_of\<close> gives the records of each
  key. An error is the one \<^verbatim>\<open>SignalWait.fromData\<close> throws.
\<close>

section \<open>The store\<close>

record wait_store =
  ws_registrations :: "(string \<times> wait_registration option) list"
  ws_outcomes :: "(string \<times> wait_outcome option) list"
  ws_pending :: pending_store

definition findOutcome :: "wait_store \<Rightarrow> string \<Rightarrow> wait_outcome stored_wait_record" where
  "findOutcome ws waitId = stored (ws_outcomes ws) waitId"

definition findRegistration :: "wait_store \<Rightarrow> string \<Rightarrow> wait_registration stored_wait_record" where
  "findRegistration ws waitId = stored (ws_registrations ws) waitId"

definition register :: "wait_registration \<Rightarrow> wait_store \<Rightarrow> wait_store" where
  "register reg ws = ws\<lparr>ws_registrations := create_once (wr_waitId reg) reg (ws_registrations ws)\<rparr>"

definition ws_settle :: "wait_outcome \<Rightarrow> wait_store \<Rightarrow> wait_store" where
  "ws_settle out ws = ws\<lparr>ws_outcomes := create_once (wr_waitId (outcome_ref out)) out (ws_outcomes ws)\<rparr>"

definition removeRegistration :: "string \<Rightarrow> wait_store \<Rightarrow> wait_store" where
  "removeRegistration waitId ws = ws\<lparr>ws_registrations := filter (\<lambda>ir. fst ir \<noteq> waitId) (ws_registrations ws)\<rparr>"

definition removeOutcome :: "string \<Rightarrow> wait_store \<Rightarrow> wait_store" where
  "removeOutcome waitId ws = ws\<lparr>ws_outcomes := filter (\<lambda>ir. fst ir \<noteq> waitId) (ws_outcomes ws)\<rparr>"

definition listRegistrations :: "wait_store \<Rightarrow> wait_registration list" where
  "listRegistrations ws = List.map_filter (\<lambda>(i, _). case findRegistration ws i of Found r \<Rightarrow> Some r | _ \<Rightarrow> None) (ws_registrations ws)"

fun settledBy :: "wait_outcome stored_wait_record \<Rightarrow> wait_outcome \<Rightarrow> bool" where
  "settledBy (Found (Accepted _ _ receipt _)) (Accepted _ _ receipt' _) \<longleftrightarrow> rc_id receipt = rc_id receipt'"
| "settledBy (Found (Timed_out _ t)) (Timed_out _ t') \<longleftrightarrow> t = t'"
| "settledBy (Found (Cancelled_wait _ t)) (Cancelled_wait _ t') \<longleftrightarrow> t = t'"
| "settledBy _ _ \<longleftrightarrow> False"

definition take_pending ::
  "(string \<Rightarrow> bool) \<Rightarrow> bool \<Rightarrow> wait_store \<Rightarrow> early_wait_ref \<Rightarrow> wait_error + wait_store \<times> wait_outcome stored_wait_record" where
  "take_pending is_uuid stop ws ref =
     (case takePendingSignal is_uuid stop (ws_pending ws) (ws_outcomes ws) ref of
        Inl e \<Rightarrow> Inl e
      | Inr (outcomes', result, _) \<Rightarrow> Inr (ws\<lparr>ws_outcomes := outcomes'\<rparr>, result))"

section \<open>The outcome of a wait\<close>

definition isEndedRunStatus :: "wf_status \<Rightarrow> bool" where
  "isEndedRunStatus s \<longleftrightarrow> s = R_succeeded \<or> s = R_failed \<or> s = R_cancelled"

definition waitRefOf :: "workflow_run \<Rightarrow> step_run \<Rightarrow> full_wait_ref option" where
  "waitRefOf run step =
     map_option (wait_ref_of (r_workflowId run) (r_workflowName run) (r_id run)) (signalWait step)"

definition belongsTo :: "full_wait_ref \<Rightarrow> wait_outcome stored_wait_record \<Rightarrow> wait_outcome stored_wait_record" where
  "belongsTo ref st =
     (case st of Found out \<Rightarrow> if wr_runId (outcome_ref out) \<noteq> wr_runId ref then Unreadable else st | _ \<Rightarrow> st)"

definition settle_overdue :: "wait_store \<Rightarrow> full_wait_ref \<Rightarrow> time \<Rightarrow> wait_store \<times> wait_outcome stored_wait_record" where
  "settle_overdue ws ref now =
     (if \<not> isWaitExpired ref now then (ws, Absent)
      else let ws' = ws_settle (timedOutOutcome ref now) ws in (ws', belongsTo ref (findOutcome ws' (wr_waitId ref))))"

definition outcomeAt ::
  "(string \<Rightarrow> bool) \<Rightarrow> bool \<Rightarrow> wait_store \<Rightarrow> full_wait_ref \<Rightarrow> time \<Rightarrow> wait_error + wait_store \<times> wait_outcome stored_wait_record" where
  "outcomeAt is_uuid stop ws ref now =
     (let st = belongsTo ref (findOutcome ws (wr_waitId ref)) in
      if st \<noteq> Absent then Inr (ws, st)
      else case earlyWaitRef ref of
             None \<Rightarrow> Inr (settle_overdue ws ref now)
           | Some early \<Rightarrow>
               (case take_pending is_uuid stop ws early of
                  Inl e \<Rightarrow> Inl e
                | Inr (ws', result) \<Rightarrow>
                    let taken = belongsTo ref result in
                    if taken \<noteq> Absent then Inr (ws', taken) else Inr (settle_overdue ws' ref now)))"

text \<open>\<open>fits\<close> is whether the registration's bytes are within the limit; \<open>None\<close> is the error of one that is not.\<close>

definition ensureRegistered :: "(wait_registration \<Rightarrow> bool) \<Rightarrow> wait_store \<Rightarrow> wait_registration \<Rightarrow> (wait_store \<times> wait_registration) option" where
  "ensureRegistered fits ws reg =
     (case findRegistration ws (wr_waitId reg) of
        Found r \<Rightarrow> Some (ws, r)
      | found \<Rightarrow>
          let ws1 = (if found = Unreadable then removeRegistration (wr_waitId reg) ws else ws) in
          if \<not> fits reg then None
          else let ws2 = register reg ws1 in
            Some (ws2, case findRegistration ws2 (wr_waitId reg) of Found r \<Rightarrow> r | _ \<Rightarrow> reg))"

definition findRegistrationOfStep :: "wait_store \<Rightarrow> string \<Rightarrow> string \<Rightarrow> string \<Rightarrow> string \<Rightarrow> wait_registration option" where
  "findRegistrationOfStep ws workflowId runId jobName stepName =
     find (\<lambda>r. wr_workflowId r = workflowId \<and> wr_runId r = runId \<and> reg_jobName r = jobName \<and> reg_stepName r = stepName)
       (listRegistrations ws)"

section \<open>The waits of a run\<close>

text \<open>Loops over the steps of a run that stop at an error.\<close>

fun each :: "('s \<Rightarrow> 'a \<Rightarrow> 'e + 's) \<Rightarrow> 's \<Rightarrow> 'a list \<Rightarrow> 'e + 's" where
  "each f s [] = Inr s"
| "each f s (x # xs) = (case f s x of Inl e \<Rightarrow> Inl e | Inr s' \<Rightarrow> each f s' xs)"

fun thread :: "('s \<Rightarrow> 'a \<Rightarrow> 'e + 's \<times> 'a) \<Rightarrow> 's \<Rightarrow> 'a list \<Rightarrow> 'e + 's \<times> 'a list" where
  "thread f s [] = Inr (s, [])"
| "thread f s (x # xs) =
     (case f s x of
        Inl e \<Rightarrow> Inl e
      | Inr (s', x') \<Rightarrow> (case thread f s' xs of Inl e \<Rightarrow> Inl e | Inr (s'', xs') \<Rightarrow> Inr (s'', x' # xs')))"

record open_wait_ref =
  ow_jobName :: string
  ow_stepName :: string
  ow_waitId :: string
  ow_deadline :: time
  ow_key :: "string option"

definition open_wait_of :: "string \<Rightarrow> full_wait_ref \<Rightarrow> step_run \<Rightarrow> open_wait_ref" where
  "open_wait_of jobName ref step =
     \<lparr>ow_jobName = jobName, ow_stepName = sr_stepName step, ow_waitId = wr_waitId ref, ow_deadline = wr_deadline ref,
      ow_key = (case signalWait step of None \<Rightarrow> None | Some w \<Rightarrow> sw_key w)\<rparr>"

definition unsettled_step ::
  "(string \<Rightarrow> bool) \<Rightarrow> bool \<Rightarrow> wait_store \<Rightarrow> workflow_run \<Rightarrow> time \<Rightarrow> string \<times> step_run \<Rightarrow> wait_error + open_wait_ref option" where
  "unsettled_step is_uuid stop ws run now js =
     (case js of (jobName, step) \<Rightarrow>
        if \<not> isSignalWait step then Inr None
        else case waitRefOf run step of
               None \<Rightarrow> Inr None
             | Some ref \<Rightarrow>
                 if isWaitExpired ref now \<or> findOutcome ws (wr_waitId ref) \<noteq> Absent then Inr None
                 else case earlyWaitRef ref of
                        None \<Rightarrow> Inr (Some (open_wait_of jobName ref step))
                      | Some early \<Rightarrow>
                          map_sum id (\<lambda>out. if out = None then Some (open_wait_of jobName ref step) else None)
                            (applicablePendingOutcome is_uuid stop (ws_pending ws) early))"

definition findUnsettledWait ::
  "(string \<Rightarrow> bool) \<Rightarrow> bool \<Rightarrow> wait_store \<Rightarrow> workflow_run \<Rightarrow> time \<Rightarrow> wait_error + open_wait_ref option" where
  "findUnsettledWait is_uuid stop ws run now =
     each (\<lambda>found js. if found \<noteq> None then Inr found else unsettled_step is_uuid stop ws run now js) None (all_steps run)"

definition settle_expired_step ::
  "(string \<Rightarrow> bool) \<Rightarrow> bool \<Rightarrow> workflow_run \<Rightarrow> time \<Rightarrow> wait_store \<times> nat \<Rightarrow> string \<times> step_run \<Rightarrow> wait_error + wait_store \<times> nat" where
  "settle_expired_step is_uuid stop run now s js =
     (case s of (ws, settled) \<Rightarrow>
        if \<not> isSignalWait (snd js) then Inr s
        else case waitRefOf run (snd js) of
               None \<Rightarrow> Inr s
             | Some ref \<Rightarrow>
                 let time_out = (\<lambda>ws.
                       let out = timedOutOutcome ref now; ws' = ws_settle out ws in
                       (ws', if settledBy (findOutcome ws' (wr_waitId ref)) out then settled + 1 else settled)) in
                 if \<not> isWaitExpired ref now \<or> findOutcome ws (wr_waitId ref) \<noteq> Absent then Inr s
                 else case findRegistration ws (wr_waitId ref) of
                        Found _ \<Rightarrow>
                          (case earlyWaitRef ref of
                             None \<Rightarrow> Inr (time_out ws)
                           | Some early \<Rightarrow>
                               (case take_pending is_uuid stop ws early of
                                  Inl e \<Rightarrow> Inl e
                                | Inr (ws', result) \<Rightarrow> Inr (if result \<noteq> Absent then (ws', settled) else time_out ws')))
                      | _ \<Rightarrow> Inr s)"

definition settleExpiredWaits ::
  "(string \<Rightarrow> bool) \<Rightarrow> bool \<Rightarrow> wait_store \<Rightarrow> workflow_run \<Rightarrow> time \<Rightarrow> wait_error + wait_store \<times> nat" where
  "settleExpiredWaits is_uuid stop ws run now = each (settle_expired_step is_uuid stop run now) (ws, 0) (all_steps run)"

definition take_for_step ::
  "(string \<Rightarrow> bool) \<Rightarrow> bool \<Rightarrow> workflow_run \<Rightarrow> wait_store \<times> nat \<Rightarrow> string \<times> step_run \<Rightarrow> wait_error + wait_store \<times> nat" where
  "take_for_step is_uuid stop run s js =
     (case s of (ws, taken) \<Rightarrow>
        if \<not> isSignalWait (snd js) then Inr s
        else case (case waitRefOf run (snd js) of None \<Rightarrow> None | Some ref \<Rightarrow> earlyWaitRef ref) of
               None \<Rightarrow> Inr s
             | Some early \<Rightarrow>
                 if findOutcome ws (wr_waitId early) \<noteq> Absent then Inr s
                 else case findRegistration ws (wr_waitId early) of
                        Found _ \<Rightarrow>
                          map_sum id (\<lambda>(ws', result). (ws', case result of Found (Accepted _ _ _ _) \<Rightarrow> taken + 1 | _ \<Rightarrow> taken))
                            (take_pending is_uuid stop ws early)
                      | _ \<Rightarrow> Inr s)"

definition takePendingSignalsOfRun ::
  "(string \<Rightarrow> bool) \<Rightarrow> bool \<Rightarrow> wait_store \<Rightarrow> workflow_run \<Rightarrow> wait_error + wait_store \<times> nat" where
  "takePendingSignalsOfRun is_uuid stop ws run = each (take_for_step is_uuid stop run) (ws, 0) (all_steps run)"

definition apply_step ::
  "(time \<Rightarrow> string) \<Rightarrow> (string \<Rightarrow> bool) \<Rightarrow> bool \<Rightarrow> workflow_run \<Rightarrow> time \<Rightarrow> string \<Rightarrow> wait_store \<times> open_wait_ref option \<Rightarrow> step_run
   \<Rightarrow> wait_error + (wait_store \<times> open_wait_ref option) \<times> step_run" where
  "apply_step iso_text is_uuid stop run now jobName s step =
     (case s of (ws, first_open) \<Rightarrow>
        if \<not> isSignalWait step then Inr (s, step)
        else case waitRefOf run step of
               None \<Rightarrow> Inr (s, step)
             | Some ref \<Rightarrow>
                 (case outcomeAt is_uuid stop ws ref now of
                    Inl e \<Rightarrow> Inl e
                  | Inr (ws', Absent) \<Rightarrow>
                      Inr ((ws', Some (or_else (open_wait_of jobName ref step) first_open)), step)
                  | Inr (ws', Found (Accepted r t receipt payload)) \<Rightarrow>
                      Inr ((ws', first_open), snd (applyWaitOutcome iso_text stop now (Accepted r t receipt payload) step))
                  | Inr (ws', _) \<Rightarrow> Inr ((ws', first_open), step)))"

definition applyAcceptedSignals ::
  "(time \<Rightarrow> string) \<Rightarrow> (string \<Rightarrow> bool) \<Rightarrow> bool \<Rightarrow> wait_store \<Rightarrow> workflow_run \<Rightarrow> time
   \<Rightarrow> wait_error + (wait_store \<times> open_wait_ref option) \<times> workflow_run" where
  "applyAcceptedSignals iso_text is_uuid stop ws run now =
     map_sum id (\<lambda>(s, jobs). (s, run\<lparr>r_jobs := jobs\<rparr>))
       (thread (\<lambda>s j. map_sum id (\<lambda>(s', steps). (s', j\<lparr>jr_steps := steps\<rparr>))
                  (thread (apply_step iso_text is_uuid stop run now (jr_jobName j)) s (jr_steps j)))
          (ws, None) (r_jobs run))"

datatype reentered = Reentered_open | Reentered_failed

definition settleReenteredWait ::
  "(time \<Rightarrow> string) \<Rightarrow> (string \<Rightarrow> bool) \<Rightarrow> bool \<Rightarrow> wait_store \<Rightarrow> workflow_run \<Rightarrow> step_run \<Rightarrow> time
   \<Rightarrow> wait_error + wait_store \<times> step_run \<times> reentered" where
  "settleReenteredWait iso_text is_uuid stop ws run step now =
     (case failUnreadableWait now step of
        (True, step') \<Rightarrow> Inr (ws, step', Reentered_failed)
      | (False, _) \<Rightarrow>
          (case waitRefOf run step of
             None \<Rightarrow> Inr (ws, step, Reentered_open)
           | Some ref \<Rightarrow>
               (case outcomeAt is_uuid stop ws ref now of
                  Inl e \<Rightarrow> Inl e
                | Inr (ws', Absent) \<Rightarrow> Inr (ws', step, Reentered_open)
                | Inr (ws', Unreadable) \<Rightarrow> Inr (ws', snd (failUnusableOutcome now step), Reentered_failed)
                | Inr (ws', Found (Accepted r t receipt payload)) \<Rightarrow>
                    if canApplyWaitOutcome stop (Accepted r t receipt payload) step then Inr (ws', step, Reentered_open)
                    else Inr (ws', snd (failUnusableOutcome now step), Reentered_failed)
                | Inr (ws', Found out) \<Rightarrow> Inr (ws', snd (applyWaitOutcome iso_text stop now out step), Reentered_failed))))"

section \<open>Closing the waits of a run\<close>

definition closeStepWait :: "workflow_run \<Rightarrow> time \<Rightarrow> wait_store \<Rightarrow> step_run \<Rightarrow> wait_store" where
  "closeStepWait run now ws step =
     (case waitRefOf run step of
        None \<Rightarrow> ws
      | Some ref \<Rightarrow>
          if findRegistration ws (wr_waitId ref) = Absent then ws
          else removeRegistration (wr_waitId ref)
                 (if (case signalWait step of None \<Rightarrow> True | Some w \<Rightarrow> sw_receipt w = None)
                  then ws_settle (cancelledOutcome ref now) ws else ws))"

definition closeRunWaits :: "workflow_run \<Rightarrow> time \<Rightarrow> wait_store \<Rightarrow> wait_store" where
  "closeRunWaits run now ws = foldl (\<lambda>ws js. closeStepWait run now ws (snd js)) ws (all_steps run)"

definition closeWaitsOfEndedRun :: "workflow_run \<Rightarrow> time \<Rightarrow> wait_store \<Rightarrow> wait_store" where
  "closeWaitsOfEndedRun run now ws = (if isEndedRunStatus (r_status run) then closeRunWaits run now ws else ws)"

definition waitIdsOf :: "workflow_run list \<Rightarrow> string list" where
  "waitIdsOf runs = concat (map (\<lambda>run. List.map_filter (\<lambda>js. map_option sw_id (signalWait (snd js))) (all_steps run)) runs)"

definition removeWaitRecords :: "string list \<Rightarrow> wait_store \<Rightarrow> wait_store" where
  "removeWaitRecords waitIds ws = fold (\<lambda>i ws. removeOutcome i (removeRegistration i ws)) waitIds ws"

definition endedAfterRegistering :: "workflow_run \<Rightarrow> wait_registration \<Rightarrow> bool" where
  "endedAfterRegistering run reg \<longleftrightarrow> isEndedRunStatus (r_status run) \<and>
     (case r_completedAt run of None \<Rightarrow> False | Some t \<Rightarrow> reg_registeredAt reg \<le> t)"

section \<open>Sweeping pending signals\<close>

definition removeSupersededPendingSignal :: "pending_address \<Rightarrow> pending_store \<Rightarrow> pending_store" where
  "removeSupersededPendingSignal a ps =
     (if pa_number a \<le> 1 then ps else removePendingRecord (a\<lparr>pa_number := pa_number a - 1\<rparr>) ps)"

definition remove_addresses :: "pending_address list \<Rightarrow> pending_store \<times> nat \<Rightarrow> pending_store \<times> nat" where
  "remove_addresses as s = (fold removePendingRecord as (fst s), snd s + length as)"

text \<open>The lapse that supersedes a slot's head, and the number below which records are dead; \<open>None\<close> leaves the slot.\<close>

definition lapse_head :: "pending_slot \<Rightarrow> time \<Rightarrow> pending_store \<Rightarrow> (pending_store \<times> nat) option" where
  "lapse_head s now ps =
     (case highestPendingRecord ps s of
        Pending_found r \<Rightarrow>
          let head = pa_number (pending_address_of r) in
          (case r of
             Pending_sig p \<Rightarrow>
               if heldUntil p + PENDING_SIGNAL_LAPSE_GRACE_MS < now then
                 let a = at_number s (head + 1); ps' = createPendingRecord (Lapse a now) ps in
                 (case stored ps' a of Found _ \<Rightarrow> Some (ps', head + 1) | _ \<Rightarrow> None)
               else Some (ps, head)
           | Lapse _ _ \<Rightarrow> Some (ps, head))
      | _ \<Rightarrow> None)"

definition sweep_slot :: "(string \<Rightarrow> string \<Rightarrow> key_store) \<Rightarrow> time \<Rightarrow> pending_address list \<Rightarrow> pending_slot
    \<Rightarrow> pending_store \<times> nat \<Rightarrow> pending_store \<times> nat" where
  "sweep_slot key_of now addresses s swept =
     (let st = key_of (pa_workflowId s) (pa_key s);
          highest = highestKeyRecord st;
          own = filter (\<lambda>a. pending_slot.truncate a = s) addresses in
      case highest of
        Highest_unreadable _ \<Rightarrow> swept
      | _ \<Rightarrow>
          if \<not> slot_unclaimed (pa_slot s) highest then
            (case claimsReadingSlot st (pa_slot s) (case highest of Highest_found r \<Rightarrow> Some r | _ \<Rightarrow> None) of
               (claims, unreadable) \<Rightarrow> if unreadable \<or> claims \<noteq> [] then swept else remove_addresses own swept)
          else case lapse_head s now (fst swept) of
                 None \<Rightarrow> swept
               | Some (ps', bound) \<Rightarrow> remove_addresses (filter (\<lambda>a. pa_number a < bound) own) (ps', snd swept))"

definition sweepPendingSignals :: "(string \<Rightarrow> string \<Rightarrow> key_store) \<Rightarrow> time \<Rightarrow> pending_store \<Rightarrow> pending_store \<times> nat" where
  "sweepPendingSignals key_of now ps =
     (let addresses = map fst ps in
      fold (sweep_slot key_of now addresses) (nub (map pending_slot.truncate addresses)) (ps, 0))"

section \<open>What an outcome rests on\<close>

lemma earlyWaitRef_same:
  "earlyWaitRef ref = Some early \<Longrightarrow>
     wr_waitId early = wr_waitId ref \<and> wr_runId early = wr_runId ref \<and> wr_deadline early = wr_deadline ref"
  by (auto simp: earlyWaitRef_def split: option.splits)

lemma first_applicable_accepts:
  "first_applicable is_uuid stop ps ref slots = Inr (Some out) \<Longrightarrow> \<exists>t receipt payload. out = Accepted (pick ref) t receipt payload"
  using first_applicable_outcome pendingOutcome_receipt by blast

text \<open>What taking a pending signal does when the wait has no outcome yet.\<close>

lemma take_pending_unsettled:
  assumes "findOutcome ws (wr_waitId ref) = Absent" and "take_pending is_uuid stop ws ref = Inr (ws', result)"
  shows "(case applicablePendingOutcome is_uuid stop (ws_pending ws) ref of
      Inr (Some out) \<Rightarrow> result = Found out \<and> ws' = ws\<lparr>ws_outcomes := create_once (wr_waitId ref) out (ws_outcomes ws)\<rparr> \<and>
        (\<exists>t receipt payload. out = Accepted (pick ref) t receipt payload)
    | _ \<Rightarrow> result = Absent \<and> ws' = ws)"
  using assms first_applicable_accepts [of is_uuid stop "ws_pending ws" ref "earlySlots (er_early ref)"]
  by (auto simp: take_pending_def takePendingSignal_def findOutcome_def Let_def stored_create_once
      applicablePendingOutcome_def split: sum.splits option.splits)

lemma belongsTo_Absent [simp]: "belongsTo ref st = Absent \<longleftrightarrow> st = Absent"
  by (auto simp: belongsTo_def split: stored_wait_record.splits)

text \<open>What the deadline does when the wait has no outcome yet.\<close>

lemma settle_overdue_unsettled:
  assumes "findOutcome ws (wr_waitId ref) = Absent" and "settle_overdue ws ref now = (ws', result)"
  shows "if isWaitExpired ref now
    then result = Found (timedOutOutcome ref now) \<and> findOutcome ws' (wr_waitId ref) = result
    else result = Absent \<and> ws' = ws"
proof -
  have "wr_waitId (pick ref) = wr_waitId ref" "wr_runId (pick ref) = wr_runId ref"
    by (simp_all add: pick_def wait_ref.defs)
  with assms show ?thesis
    by (auto simp: settle_overdue_def Let_def ws_settle_def findOutcome_def stored_create_once belongsTo_def timedOutOutcome_def)
qed

text \<open>A stored outcome answers at once.\<close>

lemma outcomeAt_stored:
  "belongsTo ref (findOutcome ws (wr_waitId ref)) = result \<Longrightarrow> result \<noteq> Absent \<Longrightarrow> outcomeAt is_uuid stop ws ref now = Inr (ws, result)"
  by (simp add: outcomeAt_def Let_def)

text \<open>The cases of \<^verbatim>\<open>outcomeAt\<close>.\<close>

lemma outcomeAt_cases:
  assumes "outcomeAt is_uuid stop ws ref now = Inr (ws', result)"
  obtains (already) "findOutcome ws (wr_waitId ref) \<noteq> Absent" "ws' = ws" "result = belongsTo ref (findOutcome ws (wr_waitId ref))"
  | (signalled) early t receipt payload where "findOutcome ws (wr_waitId ref) = Absent" "earlyWaitRef ref = Some early"
      "applicablePendingOutcome is_uuid stop (ws_pending ws) early = Inr (Some (Accepted (pick early) t receipt payload))"
      "result = Found (Accepted (pick early) t receipt payload)" "findOutcome ws' (wr_waitId ref) = result"
  | (overdue) "findOutcome ws (wr_waitId ref) = Absent" "isWaitExpired ref now"
      "\<And>early. earlyWaitRef ref = Some early \<Longrightarrow> applicablePendingOutcome is_uuid stop (ws_pending ws) early = Inr None"
      "result = Found (timedOutOutcome ref now)" "findOutcome ws' (wr_waitId ref) = result"
  | (waiting) "findOutcome ws (wr_waitId ref) = Absent" "\<not> isWaitExpired ref now" "result = Absent" "ws' = ws"
      "\<And>early. earlyWaitRef ref = Some early \<Longrightarrow> applicablePendingOutcome is_uuid stop (ws_pending ws) early = Inr None"
proof (cases "findOutcome ws (wr_waitId ref) = Absent")
  case False
  with assms show thesis by (intro already) (auto simp: outcomeAt_def Let_def)
next
  case open_wait: True
  have late: thesis if "settle_overdue ws ref now = (ws', result)"
      "\<And>early. earlyWaitRef ref = Some early \<Longrightarrow> applicablePendingOutcome is_uuid stop (ws_pending ws) early = Inr None"
    using settle_overdue_unsettled [OF open_wait that(1)] that(2) open_wait overdue waiting by (cases "isWaitExpired ref now") auto
  show thesis
  proof (cases "earlyWaitRef ref")
    case None
    with assms open_wait show thesis by (intro late) (simp_all add: outcomeAt_def Let_def)
  next
    case (Some early)
    note same = earlyWaitRef_same [OF Some]
    show thesis
    proof (cases "take_pending is_uuid stop ws early")
      case (Inl e)
      with assms open_wait Some show thesis by (simp add: outcomeAt_def Let_def)
    next
      case (Inr taken)
      obtain ws2 got where taken: "taken = (ws2, got)" by fastforce
      from open_wait same have "findOutcome ws (wr_waitId early) = Absent" by simp
      note got = take_pending_unsettled [OF this Inr [unfolded taken]]
      show thesis
      proof (cases "applicablePendingOutcome is_uuid stop (ws_pending ws) early")
        case error: (Inl e)
        with Inr show thesis by (simp add: take_pending_def takePendingSignal_def)
      next
        case found: (Inr out)
        show thesis
        proof (cases out)
          case None
          with found got open_wait assms Some Inr taken show thesis
            by (intro late) (simp_all add: outcomeAt_def Let_def)
        next
          case (Some out')
          with found got obtain t receipt payload where out': "out' = Accepted (pick early) t receipt payload" by auto
          moreover have "belongsTo ref (Found out') = Found out'"
            using same by (simp add: belongsTo_def out' pick_def wait_ref.defs)
          ultimately show thesis
            using Some found got open_wait assms \<open>earlyWaitRef ref = Some early\<close> Inr taken same
            by (intro signalled) (auto simp: outcomeAt_def Let_def findOutcome_def stored_create_once)
        qed
      qed
    qed
  qed
qed

text \<open>C21.
  The outcome of a wait is final and a deadline never beats a signal. Once \<^verbatim>\<open>outcomeAt\<close> answered, it gives the
  same answer at any later time, whatever the pending signals are by then, and changes nothing; it gives a
  timeout only to a wait past its deadline to which no pending signal applies; and it leaves a wait open
  only before its deadline when no pending signal applies, and then writes nothing.
\<close>

theorem outcomeAt_is_final:
  assumes "outcomeAt is_uuid stop ws ref now = Inr (ws', result)"
  shows "(result \<noteq> Absent \<longrightarrow>
      (\<forall>ps later. outcomeAt is_uuid stop (ws'\<lparr>ws_pending := ps\<rparr>) ref later = Inr (ws'\<lparr>ws_pending := ps\<rparr>, result))) \<and>
    (findOutcome ws (wr_waitId ref) = Absent \<and> (result = Absent \<or> (\<exists>r t. result = Found (Timed_out r t))) \<longrightarrow>
      (result = Absent \<longrightarrow> ws' = ws) \<and> (result \<noteq> Absent \<longleftrightarrow> isWaitExpired ref now) \<and>
      (\<forall>early. earlyWaitRef ref = Some early \<longrightarrow> applicablePendingOutcome is_uuid stop (ws_pending ws) early = Inr None))"
  using assms
proof (cases rule: outcomeAt_cases)
  case already
  then show ?thesis by (auto intro!: outcomeAt_stored simp: findOutcome_def)
next
  case (signalled early t receipt payload)
  have "belongsTo ref result = result"
    using earlyWaitRef_same [OF signalled(2)] by (simp add: signalled(4) belongsTo_def pick_def wait_ref.defs)
  with signalled(4,5) show ?thesis by (auto intro!: outcomeAt_stored simp: findOutcome_def)
next
  case overdue
  have "belongsTo ref result = result"
    by (simp add: overdue(4) belongsTo_def timedOutOutcome_def pick_def wait_ref.defs)
  with overdue show ?thesis by (auto intro!: outcomeAt_stored simp: findOutcome_def)
qed simp_all

text \<open>A signal received in time and a look at the wait long after its deadline.\<close>

definition demo_wait_ref :: full_wait_ref where
  "demo_wait_ref = \<lparr>wr_waitId = ''w'', wr_workflowId = ''f'', wr_runId = ''w'', wr_deadline = 60000, fr_workflowName = Some ''n'',
     fr_key = Some ''k'', fr_early = Some \<lparr>we_generation = 1, we_overRelease = False, we_from = 0\<rparr>, fr_schema = Some any_schema\<rparr>"

definition demo_waits :: wait_store where
  "demo_waits = \<lparr>ws_registrations = [], ws_outcomes = [],
     ws_pending = createPendingRecord (Pending_sig (early_record ''r'' demo_signal 5 1 1)) []\<rparr>"

theorem outcomeAt_is_final_witness:
  "\<exists>ws' receipt payload. outcomeAt (\<lambda>_. True) False demo_waits demo_wait_ref 100000 =
       Inr (ws', Found (Accepted (pick demo_wait_ref) 5 receipt payload)) \<and> isWaitExpired demo_wait_ref 100000 \<and>
     outcomeAt (\<lambda>_. True) False (ws'\<lparr>ws_pending := []\<rparr>) demo_wait_ref 200000 =
       Inr (ws'\<lparr>ws_pending := []\<rparr>, Found (Accepted (pick demo_wait_ref) 5 receipt payload))"
proof -
  have "(case outcomeAt (\<lambda>_. True) False demo_waits demo_wait_ref 100000 of
      Inr (ws', Found (Accepted r t receipt payload)) \<Rightarrow> r = pick demo_wait_ref \<and> t = 5 | _ \<Rightarrow> False)" by code_simp
  then obtain ws' receipt payload where
    told: "outcomeAt (\<lambda>_. True) False demo_waits demo_wait_ref 100000 = Inr (ws', Found (Accepted (pick demo_wait_ref) 5 receipt payload))"
    by (auto split: sum.split_asm prod.split_asm stored_wait_record.split_asm wait_outcome.split_asm)
  moreover have "isWaitExpired demo_wait_ref 100000" by code_simp
  ultimately show ?thesis using outcomeAt_is_final [OF told] by blast
qed

section \<open>A closed run takes no signal\<close>

lemma stored_filter: "stored (filter (\<lambda>kv. fst kv \<noteq> k) m) k' = (if k' = k then Absent else stored m k')"
proof -
  have "map_of (filter (\<lambda>kv. fst kv \<noteq> k) m) k' = (if k' = k then None else map_of m k')" by (induction m) auto
  then show ?thesis by (simp add: stored_def)
qed

lemma store_reads [simp]:
  "findRegistration (removeRegistration i ws) j = (if j = i then Absent else findRegistration ws j)"
  "findOutcome (removeRegistration i ws) j = findOutcome ws j"
  "findRegistration (ws_settle out ws) j = findRegistration ws j"
  "findOutcome (ws_settle out ws) j =
     (if j = wr_waitId (outcome_ref out) \<and> findOutcome ws j = Absent then Found out else findOutcome ws j)"
  by (auto simp: findRegistration_def findOutcome_def removeRegistration_def ws_settle_def stored_filter stored_create_once)

lemma waitRefOf_id: "signalWait step = Some w \<Longrightarrow> \<exists>ref. waitRefOf run step = Some ref \<and> wr_waitId ref = sw_id w"
  by (simp add: waitRefOf_def wait_ref_of_def Let_def)

lemma waitRefOf_None: "signalWait step = None \<Longrightarrow> waitRefOf run step = None"
  by (simp add: waitRefOf_def)

lemma cancelled_id [simp]: "wr_waitId (outcome_ref (cancelledOutcome ref now)) = wr_waitId ref"
  by (simp add: cancelledOutcome_def pick_def wait_ref.defs)

text \<open>Closing the wait of one step.\<close>

lemma closeStepWait_reads:
  "findOutcome ws i \<noteq> Absent \<Longrightarrow> findOutcome (closeStepWait run now ws step) i = findOutcome ws i"
  "map_option sw_id (signalWait step) \<noteq> Some i \<Longrightarrow> findRegistration (closeStepWait run now ws step) i = findRegistration ws i"
  "signalWait step = Some w \<Longrightarrow> findRegistration (closeStepWait run now ws step) (sw_id w) = Absent"
  "signalWait step = Some w \<Longrightarrow> sw_receipt w = None \<Longrightarrow> findRegistration ws (sw_id w) \<noteq> Absent \<Longrightarrow>
     findOutcome (closeStepWait run now ws step) (sw_id w) \<noteq> Absent"
  using waitRefOf_id [of step _ run] waitRefOf_None [of step run]
  by (auto simp: closeStepWait_def split: option.splits)

definition close_steps :: "workflow_run \<Rightarrow> time \<Rightarrow> wait_store \<Rightarrow> step_run list \<Rightarrow> wait_store" where
  "close_steps run now ws steps = foldl (closeStepWait run now) ws steps"

lemma close_steps_kept:
  "findOutcome ws i \<noteq> Absent \<Longrightarrow> findOutcome (close_steps run now ws steps) i = findOutcome ws i"
  "findRegistration ws i = Absent \<Longrightarrow> findRegistration (close_steps run now ws steps) i = Absent"
proof (induction steps arbitrary: ws)
  case (Cons step steps)
  {
    case 1
    with Cons.IH(1) [of "closeStepWait run now ws step"] closeStepWait_reads(1) [OF 1, of run now step]
    show ?case by (simp add: close_steps_def)
  next
    case 2
    have "findRegistration (closeStepWait run now ws step) i = Absent"
      using 2 closeStepWait_reads(2,3) by (cases "signalWait step") (metis option.map_sel option.simps(8) option.distinct(1), metis option.map(2) option.inject)
    with Cons.IH(2) show ?case by (simp add: close_steps_def)
  }
qed (simp_all add: close_steps_def)

lemma close_steps_append: "close_steps run now ws (xs @ ys) = close_steps run now (close_steps run now ws xs) ys"
  by (simp add: close_steps_def)

lemma close_steps_others:
  "i \<notin> set (List.map_filter (\<lambda>s. map_option sw_id (signalWait s)) steps) \<Longrightarrow>
     findRegistration (close_steps run now ws steps) i = findRegistration ws i"
proof (induction steps arbitrary: ws)
  case (Cons step steps)
  then have "map_option sw_id (signalWait step) \<noteq> Some i"
    and "i \<notin> set (List.map_filter (\<lambda>s. map_option sw_id (signalWait s)) steps)"
    by (auto simp: List.map_filter_simps split: option.splits)
  from closeStepWait_reads(2) [OF this(1)] Cons.IH [OF this(2)] show ?case by (simp add: close_steps_def)
qed (simp add: close_steps_def)

lemma close_steps_closes:
  assumes "step \<in> set steps" "signalWait step = Some w" "distinct (List.map_filter (\<lambda>s. map_option sw_id (signalWait s)) steps)"
  shows "findRegistration (close_steps run now ws steps) (sw_id w) = Absent"
    and "findRegistration ws (sw_id w) \<noteq> Absent \<Longrightarrow> sw_receipt w = None \<Longrightarrow> findOutcome (close_steps run now ws steps) (sw_id w) \<noteq> Absent"
proof -
  let ?ids = "List.map_filter (\<lambda>s. map_option sw_id (signalWait s))"
  from assms(1) obtain before after where steps: "steps = before @ step # after" by (meson split_list)
  have append: "?ids (xs @ ys) = ?ids xs @ ?ids ys" for xs ys by (simp add: List.map_filter_def)
  from assms(2,3) have "sw_id w \<notin> set (?ids before)" by (auto simp: steps append List.map_filter_simps)
  from close_steps_others [OF this] have reg: "findRegistration (close_steps run now ws before) (sw_id w) = findRegistration ws (sw_id w)" .
  let ?ws = "closeStepWait run now (close_steps run now ws before) step"
  have all: "close_steps run now ws steps = close_steps run now ?ws after"
    unfolding steps close_steps_append by (simp add: close_steps_def)
  show "findRegistration (close_steps run now ws steps) (sw_id w) = Absent"
    unfolding all by (rule close_steps_kept(2), rule closeStepWait_reads(3) [OF assms(2)])
  assume "findRegistration ws (sw_id w) \<noteq> Absent" "sw_receipt w = None"
  with closeStepWait_reads(4) [OF assms(2)] reg have "findOutcome ?ws (sw_id w) \<noteq> Absent" by simp
  from close_steps_kept(1) [OF this] this show "findOutcome (close_steps run now ws steps) (sw_id w) \<noteq> Absent"
    unfolding all by simp
qed

lemma closeRunWaits_steps: "closeRunWaits run now ws = close_steps run now ws (map snd (all_steps run))"
  by (simp add: closeRunWaits_def close_steps_def foldl_map)

text \<open>C27.
  After the waits of a run whose wait ids differ are closed, none of its waits is registered, each wait that
  was registered and had no receipt has an outcome, and no outcome that was stored has changed: a signal
  that comes later finds no wait to settle, and one that was accepted before is kept.
\<close>

theorem closed_run_takes_no_signal:
  assumes "distinct (waitIdsOf [run])" and "(jobName, step) \<in> set (all_steps run)" and "signalWait step = Some w"
  shows "findRegistration (closeRunWaits run now ws) (sw_id w) = Absent \<and>
    (findRegistration ws (sw_id w) \<noteq> Absent \<and> sw_receipt w = None \<longrightarrow> findOutcome (closeRunWaits run now ws) (sw_id w) \<noteq> Absent) \<and>
    (\<forall>i. findOutcome ws i \<noteq> Absent \<longrightarrow> findOutcome (closeRunWaits run now ws) i = findOutcome ws i)"
proof -
  have "distinct (List.map_filter (\<lambda>s. map_option sw_id (signalWait s)) (map snd (all_steps run)))"
    using assms(1) by (simp add: waitIdsOf_def List.map_filter_def filter_map comp_def)
  moreover have "step \<in> set (map snd (all_steps run))" using assms(2) by force
  ultimately show ?thesis
    unfolding closeRunWaits_steps using close_steps_closes [OF _ assms(3)] close_steps_kept(1) by blast
qed

definition demo_waiting_run :: workflow_run where
  "demo_waiting_run =
     demo_run\<lparr>r_jobs := [(pending_job ''j'' [])\<lparr>jr_steps := [waitForSignal closed_wait (pending_step ''s'' None)]\<rparr>]\<rparr>"

definition demo_registered :: wait_store where
  "demo_registered = register (registrationOf ''f'' ''n'' ''r'' ''j'' ''s'' closed_wait 0)
     \<lparr>ws_registrations = [], ws_outcomes = [], ws_pending = []\<rparr>"

theorem closed_run_takes_no_signal_witness:
  "findRegistration demo_registered (sw_id closed_wait) \<noteq> Absent \<and>
   findRegistration (closeRunWaits demo_waiting_run 7 demo_registered) (sw_id closed_wait) = Absent \<and>
   findOutcome (closeRunWaits demo_waiting_run 7 demo_registered) (sw_id closed_wait) \<noteq> Absent"
proof -
  have steps: "all_steps demo_waiting_run = [(''j'', waitForSignal closed_wait (pending_step ''s'' None))]"
    by (simp add: all_steps_def demo_waiting_run_def pending_job_def)
  have "distinct (waitIdsOf [demo_waiting_run])" by code_simp
  moreover have "signalWait (waitForSignal closed_wait (pending_step ''s'' None)) = Some closed_wait" by code_simp
  moreover have "findRegistration demo_registered (sw_id closed_wait) \<noteq> Absent" "sw_receipt closed_wait = None" by code_simp+
  ultimately show ?thesis
    using closed_run_takes_no_signal [of demo_waiting_run "''j''" "waitForSignal closed_wait (pending_step ''s'' None)" closed_wait 7 demo_registered]
    by (simp add: steps)
qed

section \<open>A sweep leaves what is held\<close>

text \<open>What a decision reads of the head of a slot.\<close>

datatype head_view = View_unreadable | View_held pending_signal | View_free

fun view_head :: "time \<Rightarrow> highest_pending_record \<Rightarrow> head_view" where
  "view_head now (Pending_unreadable n) = View_unreadable"
| "view_head now (Pending_found (Pending_sig p)) = (if isPendingHeld p now then View_held p else View_free)"
| "view_head now _ = View_free"

lemma refusal_of_view:
  "map (view_head now) heads = map (view_head now) heads' \<Longrightarrow> refusal_of now heads = refusal_of now heads'"
proof (induction heads arbitrary: heads')
  case (Cons head heads)
  then obtain head' rest where heads': "heads' = head' # rest" "view_head now head = view_head now head'"
      "map (view_head now) heads = map (view_head now) rest" by (cases heads') auto
  from Cons.IH [OF heads'(3)] heads'(1,2) show ?case
    by (cases head; cases head') (auto split: pending_record.splits if_splits)
qed simp

lemma already_pending_view:
  "map (view_head now) heads = map (view_head now) heads' \<Longrightarrow>
     decideEarlySignal heads now = Already_pending p \<longleftrightarrow> decideEarlySignal heads' now = Already_pending p"
  by (auto simp: decideEarlySignal_def refusal_of_view [of now heads heads'] split: option.splits)

lemma removed_all: "fold removePendingRecord as ps = filter (\<lambda>ar. fst ar \<notin> set as) ps"
proof (induction as arbitrary: ps)
  case (Cons a as)
  have "fold removePendingRecord (a # as) ps = filter (\<lambda>ar. fst ar \<notin> set as) (filter (\<lambda>ar. fst ar \<noteq> a) ps)"
    by (simp add: Cons removePendingRecord_def)
  also have "\<dots> = filter (\<lambda>ar. fst ar \<notin> set (a # as)) ps" by (simp add: conj_commute)
  finally show ?case .
qed simp

lemma stored_filter_out: "stored (filter (\<lambda>ar. fst ar \<notin> A) ps) a = (if a \<in> A then Absent else stored ps a)"
proof -
  have "map_of (filter (\<lambda>ar. fst ar \<notin> A) ps) a = (if a \<in> A then None else map_of ps a)" by (induction ps) auto
  then show ?thesis by (simp add: stored_def)
qed

lemma highest_cong:
  "top_number ps s = top_number ps' s \<Longrightarrow>
   (top_number ps' s \<noteq> 0 \<Longrightarrow> stored ps (at_number s (top_number ps' s)) = stored ps' (at_number s (top_number ps' s))) \<Longrightarrow>
     highestPendingRecord ps s = highestPendingRecord ps' s"
  by (cases "top_number ps' s = 0") (simp_all add: highestPendingRecord_def Let_def)

text \<open>Removing records below the head of a slot, or of other slots.\<close>

lemma highest_removed:
  assumes "\<And>a. a \<in> set as \<Longrightarrow> pending_slot.truncate a = s \<Longrightarrow> pa_number a < top_number ps s"
  shows "highestPendingRecord (fold removePendingRecord as ps) s = highestPendingRecord ps s"
proof (rule highest_cong)
  have "(a, x) \<in> set (fold removePendingRecord as ps)"
    if "(a, x) \<in> set ps" "pending_slot.truncate a = s" "pa_number a = top_number ps s" for a x
    using that assms [of a] by (auto simp: removed_all)
  then have "top_number ps s \<le> top_number (fold removePendingRecord as ps) s"
    using top_number_in [of ps s] top_number_ge by (cases "top_number ps s = 0") (auto, metis)
  moreover have "top_number (fold removePendingRecord as ps) s \<le> top_number ps s"
    by (rule top_number_mono) (auto simp: removed_all)
  ultimately show top: "top_number (fold removePendingRecord as ps) s = top_number ps s" by simp
  show "stored (fold removePendingRecord as ps) (at_number s (top_number ps s)) = stored ps (at_number s (top_number ps s))"
    using assms [of "at_number s (top_number ps s)"] by (auto simp: removed_all stored_filter_out)
qed

lemma highest_created_elsewhere:
  "pending_slot.truncate (pending_address_of r) \<noteq> s \<Longrightarrow> highestPendingRecord (createPendingRecord r ps) s = highestPendingRecord ps s"
proof (rule highest_cong)
  assume other: "pending_slot.truncate (pending_address_of r) \<noteq> s"
  then show "top_number (createPendingRecord r ps) s = top_number ps s"
    by (simp add: createPendingRecord_def create_once_def top_number_def slot_numbers_def)
  have "at_number s n \<noteq> pending_address_of r" for n using other by (metis at_number_simps(1))
  then show "stored (createPendingRecord r ps) (at_number s (top_number ps s)) = stored ps (at_number s (top_number ps s))"
    by (simp add: createPendingRecord_def stored_create_once)
qed

lemma highest_after_lapse:
  assumes "pending_ok ps" and "highestPendingRecord ps s = Pending_found r"
    and ps'_def: "ps' = createPendingRecord (Lapse (at_number s (top_number ps s + 1)) now) ps"
  shows "top_number ps' s = top_number ps s + 1"
    and "highestPendingRecord ps' s = Pending_found (Lapse (at_number s (top_number ps s + 1)) now)"
proof -
  let ?a = "at_number s (top_number ps s + 1)"
  have "?a \<notin> fst ` set ps"
    using top_number_ge [of ?a _ ps s] by (auto simp: Suc_n_not_le_n)
  then have fresh: "stored ps ?a = Absent" by (simp add: stored_Absent_iff)
  then have ps': "ps' = ps @ [(?a, Some (Lapse ?a now))]"
    by (auto simp: ps'_def createPendingRecord_def create_once_def stored_def split: option.splits)
  show top: "top_number ps' s = top_number ps s + 1"
    by (simp add: ps' top_number_def slot_numbers_def)
  have "stored ps' ?a = Found (Lapse ?a now)"
    using fresh by (simp add: ps'_def createPendingRecord_def stored_create_once)
  with top show "highestPendingRecord ps' s = Pending_found (Lapse ?a now)"
    by (simp add: highestPendingRecord_def Let_def)
qed

lemma lapse_head_view:
  assumes "pending_ok ps" and "lapse_head s now ps = Some (ps', bound)"
  shows "pending_ok ps' \<and> bound = top_number ps' s \<and> view_head now (highestPendingRecord ps' s) = view_head now (highestPendingRecord ps s) \<and>
    (\<forall>t. t \<noteq> s \<longrightarrow> highestPendingRecord ps' t = highestPendingRecord ps t)"
proof -
  from assms(2) obtain r where r: "highestPendingRecord ps s = Pending_found r"
    by (auto simp: lapse_head_def split: highest_pending_record.splits)
  have number: "pa_number (pending_address_of r) = top_number ps s"
    using highest_found_top [OF assms(1) r] by simp
  show ?thesis
  proof (cases "\<exists>p. r = Pending_sig p \<and> heldUntil p + PENDING_SIGNAL_LAPSE_GRACE_MS < now")
    case False
    with assms(2) r number have "ps' = ps" "bound = top_number ps s"
      by (cases r; simp add: lapse_head_def Let_def)+
    with assms(1) show ?thesis by simp
  next
    case True
    then obtain p where p: "r = Pending_sig p" "heldUntil p + PENDING_SIGNAL_LAPSE_GRACE_MS < now" by blast
    define a where "a = at_number s (top_number ps s + 1)"
    from assms(2) r number p have made: "ps' = createPendingRecord (Lapse a now) ps" "bound = top_number ps s + 1"
      by (auto simp: lapse_head_def Let_def a_def split: stored_wait_record.split_asm)
    have "\<not> isPendingHeld p now" using p(2) by (simp add: isPendingHeld_def PENDING_SIGNAL_LAPSE_GRACE_MS_def)
    then have "view_head now (highestPendingRecord ps s) = View_free" by (simp add: r p(1))
    moreover have "highestPendingRecord ps' t = highestPendingRecord ps t" if "t \<noteq> s" for t
      unfolding made(1) using that by (intro highest_created_elsewhere) (simp add: a_def)
    moreover have "pending_ok ps'" unfolding made(1) by (rule pending_ok_create [OF assms(1)])
    ultimately show ?thesis
      using highest_after_lapse [OF assms(1) r made(1) [unfolded a_def]] made(2) by simp
  qed
qed

lemma pending_ok_removed: "pending_ok ps \<Longrightarrow> pending_ok (fold removePendingRecord as ps)"
  by (auto simp: removed_all pending_ok_def list_all_iff)

text \<open>Sweeping one slot changes nothing that a decision reads of a slot that may still be claimed.\<close>

lemma sweep_slot_cases:
  assumes "slot_unclaimed (pa_slot s) (highestKeyRecord (key_of (pa_workflowId s) (pa_key s)))"
  obtains (kept) "sweep_slot key_of now addresses t swept = swept"
    | (dead) "t \<noteq> s" "fst (sweep_slot key_of now addresses t swept) =
        fold removePendingRecord (filter (\<lambda>a. pending_slot.truncate a = t) addresses) (fst swept)"
    | (swept) ps' bound where "lapse_head t now (fst swept) = Some (ps', bound)"
        "fst (sweep_slot key_of now addresses t swept) =
           fold removePendingRecord (filter (\<lambda>a. pa_number a < bound) (filter (\<lambda>a. pending_slot.truncate a = t) addresses)) ps'"
proof -
  let ?st = "key_of (pa_workflowId t) (pa_key t)"
  define highest where "highest = highestKeyRecord ?st"
  show thesis
  proof (cases "slot_unclaimed (pa_slot t) highest \<and> (\<forall>g. highest \<noteq> Highest_unreadable g)")
    case True
    then have "sweep_slot key_of now addresses t swept =
        (case lapse_head t now (fst swept) of
           None \<Rightarrow> swept
         | Some (ps', bound) \<Rightarrow> remove_addresses (filter (\<lambda>a. pa_number a < bound) (filter (\<lambda>a. pending_slot.truncate a = t) addresses))
             (ps', snd swept))"
      unfolding sweep_slot_def Let_def highest_def [symmetric] by (cases highest) auto
    then show thesis using kept swept by (cases "lapse_head t now (fst swept)") (auto simp: remove_addresses_def)
  next
    case False
    obtain claims unreadable where
      "claimsReadingSlot ?st (pa_slot t) (case highest of Highest_found r \<Rightarrow> Some r | _ \<Rightarrow> None) = (claims, unreadable)" by fastforce
    with False consider "sweep_slot key_of now addresses t swept = swept"
      | "\<not> slot_unclaimed (pa_slot t) highest" "sweep_slot key_of now addresses t swept =
           remove_addresses (filter (\<lambda>a. pending_slot.truncate a = t) addresses) swept"
      unfolding sweep_slot_def Let_def highest_def [symmetric]
      by (cases highest; cases "unreadable \<or> claims \<noteq> []") auto
    then show thesis
    proof cases
      case 2
      with assms have "t \<noteq> s" by (auto simp: highest_def)
      with 2(2) show thesis by (intro dead) (simp_all add: remove_addresses_def)
    qed (rule kept)
  qed
qed

lemma sweep_slot_view:
  assumes "pending_ok (fst swept)" and "slot_unclaimed (pa_slot s) (highestKeyRecord (key_of (pa_workflowId s) (pa_key s)))"
  shows "pending_ok (fst (sweep_slot key_of now addresses t swept)) \<and>
    view_head now (highestPendingRecord (fst (sweep_slot key_of now addresses t swept)) s) = view_head now (highestPendingRecord (fst swept) s)"
proof -
  let ?own = "filter (\<lambda>a. pending_slot.truncate a = t) addresses" and ?ps = "fst swept"
  from assms(2) show ?thesis
  proof (cases rule: sweep_slot_cases [where key_of = key_of and now = now and addresses = addresses and t = t and swept = swept])
    case kept
    with assms(1) show ?thesis by simp
  next
    case dead
    then have "highestPendingRecord (fold removePendingRecord ?own ?ps) s = highestPendingRecord ?ps s"
      by (intro highest_removed) auto
    with dead(2) pending_ok_removed [OF assms(1)] show ?thesis by simp
  next
    case (swept ps' bound)
    note lapsed = lapse_head_view [OF assms(1) swept(1)]
    have "highestPendingRecord (fold removePendingRecord (filter (\<lambda>a. pa_number a < bound) ?own) ps') s = highestPendingRecord ps' s"
      using lapsed by (intro highest_removed) auto
    with swept(2) lapsed pending_ok_removed [of ps'] show ?thesis by (cases "t = s") auto
  qed
qed

lemma sweep_view:
  assumes "pending_ok ps" and "slot_unclaimed (pa_slot s) (highestKeyRecord (key_of (pa_workflowId s) (pa_key s)))"
  shows "view_head now (highestPendingRecord (fst (sweepPendingSignals key_of now ps)) s) = view_head now (highestPendingRecord ps s)"
proof -
  have "pending_ok (fst (fold (sweep_slot key_of now addresses) slots swept)) \<and>
      view_head now (highestPendingRecord (fst (fold (sweep_slot key_of now addresses) slots swept)) s) =
      view_head now (highestPendingRecord (fst swept) s)"
    if "pending_ok (fst swept)" for addresses slots swept
    using that
  proof (induction slots arbitrary: swept)
    case (Cons t slots)
    from sweep_slot_view [of swept s key_of now addresses t] Cons assms(2)
    show ?case by simp
  qed simp
  from this [of "(ps, 0)"] assms(1) show ?thesis by (simp add: sweepPendingSignals_def Let_def)
qed

definition heads_for :: "(string \<Rightarrow> string \<Rightarrow> key_store) \<Rightarrow> pending_store \<Rightarrow> string \<Rightarrow> string \<Rightarrow> highest_pending_record list option" where
  "heads_for key_of ps workflowId key =
     (case highestKeyRecord (key_of workflowId key) of
        Highest_unreadable _ \<Rightarrow> None
      | Highest_none \<Rightarrow> Some (slot_heads ps workflowId key (ls_live (liveSlotsOf None)))
      | Highest_found r \<Rightarrow> Some (slot_heads ps workflowId key (ls_live (liveSlotsOf (Some r)))))"

lemma held_under_heads:
  "held_under key_of ps now (workflowId, key) = Some h \<longleftrightarrow>
     (\<exists>heads p. heads_for key_of ps workflowId key = Some heads \<and> decideEarlySignal heads now = Already_pending p \<and>
        h = \<lparr>hp_workflowId = workflowId, hp_key = key, hp_receiptId = pn_receiptId p, hp_receivedAt = pn_receivedAt p,
             hp_heldUntil = heldUntil p, hp_submittedBy = pn_submittedBy p, hp_authorizedFor = pn_authorizedFor p\<rparr>)"
  by (auto simp: held_under_def heads_for_def Let_def split: highest_key_record.splits early_decision.splits)

lemma swept_heads:
  assumes "pending_ok ps"
  shows "map_option (map (view_head now)) (heads_for key_of (fst (sweepPendingSignals key_of now ps)) workflowId key) =
    map_option (map (view_head now)) (heads_for key_of ps workflowId key)"
proof -
  have "view_head now (highestPendingRecord (fst (sweepPendingSignals key_of now ps)) \<lparr>pa_workflowId = workflowId, pa_key = key, pa_slot = slot\<rparr>) =
      view_head now (highestPendingRecord ps \<lparr>pa_workflowId = workflowId, pa_key = key, pa_slot = slot\<rparr>)"
    if "slot_unclaimed slot (highestKeyRecord (key_of workflowId key))" for slot
    using that by (intro sweep_view [OF assms]) simp
  then show ?thesis
    by (auto simp: heads_for_def slot_heads_def split: highest_key_record.splits dest: live_slots_unclaimed)
qed

lemma held_under_swept:
  assumes "pending_ok ps"
  shows "held_under key_of (fst (sweepPendingSignals key_of now ps)) now wk = held_under key_of ps now wk"
proof -
  obtain workflowId key where wk: "wk = (workflowId, key)" by fastforce
  have "held_under key_of (fst (sweepPendingSignals key_of now ps)) now wk = Some h \<longleftrightarrow> held_under key_of ps now wk = Some h" for h
  proof (cases "heads_for key_of ps workflowId key")
    case None
    then have "heads_for key_of (fst (sweepPendingSignals key_of now ps)) workflowId key = None"
      using swept_heads [OF assms, of now key_of workflowId key] by simp
    with None show ?thesis by (simp add: wk held_under_heads)
  next
    case (Some heads)
    then obtain heads' where heads': "heads_for key_of (fst (sweepPendingSignals key_of now ps)) workflowId key = Some heads'"
        "map (view_head now) heads' = map (view_head now) heads"
      using swept_heads [OF assms, of now key_of workflowId key] by auto
    from already_pending_view [OF heads'(2)] show ?thesis by (simp add: wk held_under_heads Some heads'(1))
  qed
  then show ?thesis by (metis option.exhaust)
qed

lemma held_under_listed:
  assumes "held_under key_of ps now (workflowId, key) = Some h"
  shows "(workflowId, key) \<in> set (map (\<lambda>(a, _). (pa_workflowId a, pa_key a)) ps)"
proof -
  from assms obtain heads p where heads: "heads_for key_of ps workflowId key = Some heads" "decideEarlySignal heads now = Already_pending p"
    by (auto simp: held_under_heads)
  have "refusal_of now hs = Some (Already_pending p) \<Longrightarrow> \<exists>p. Pending_found (Pending_sig p) \<in> set hs" for hs
    by (induction hs) (auto split: highest_pending_record.splits pending_record.splits if_splits)
  with heads(2) obtain q where "Pending_found (Pending_sig q) \<in> set heads"
    by (auto simp: decideEarlySignal_def split: option.splits)
  with heads(1) obtain slot where "highestPendingRecord ps \<lparr>pa_workflowId = workflowId, pa_key = key, pa_slot = slot\<rparr> = Pending_found (Pending_sig q)"
    by (auto simp: heads_for_def slot_heads_def split: highest_key_record.splits)
  then have "top_number ps \<lparr>pa_workflowId = workflowId, pa_key = key, pa_slot = slot\<rparr> \<noteq> 0"
    by (auto simp: highestPendingRecord_def Let_def split: if_splits)
  from top_number_in [OF this] show ?thesis by (force simp: pending_slot.defs)
qed

lemma listed_iff: "h \<in> set (listHeldPendingSignals key_of ps now) \<longleftrightarrow> (\<exists>wk. held_under key_of ps now wk = Some h)"
proof -
  have "h \<in> set (List.map_filter f xs) \<longleftrightarrow> (\<exists>x \<in> set xs. f x = Some h)" for f :: "string \<times> string \<Rightarrow> held_pending_signal option" and xs
    by (induction xs) (auto simp: List.map_filter_simps split: option.splits)
  then have "h \<in> set (listHeldPendingSignals key_of ps now) \<longleftrightarrow>
      (\<exists>wk \<in> set (map (\<lambda>(a, _). (pa_workflowId a, pa_key a)) ps). held_under key_of ps now wk = Some h)"
    by (simp only: listHeldPendingSignals_def set_sort set_nub)
  also have "\<dots> \<longleftrightarrow> (\<exists>wk. held_under key_of ps now wk = Some h)"
    using held_under_listed [of key_of ps now _ _ h] by fast
  finally show ?thesis .
qed

text \<open>C29.
  A sweep changes nothing of the pending signals that are listed: exactly the signals that are held for a key at
  an instant are held and listed after a sweep at that instant; it removes and lapses only others.
\<close>

theorem sweep_keeps_what_is_listed:
  assumes "pending_ok ps"
  shows "set (listHeldPendingSignals key_of (fst (sweepPendingSignals key_of now ps)) now) = set (listHeldPendingSignals key_of ps now)"
  using held_under_swept [OF assms] by (auto simp: listed_iff)

text \<open>A held signal over one that has lapsed, and the sweep that removes the lapsed one.\<close>

definition demo_pending :: pending_store where
  "demo_pending =
     createPendingRecord (Pending_sig (early_record ''r'' demo_signal 1000000000 1 2))
       (createPendingRecord (Pending_sig (early_record ''q'' demo_signal 5 1 1)) [])"

theorem sweep_keeps_what_is_listed_witness:
  "pending_ok demo_pending \<and> snd (sweepPendingSignals (\<lambda>_ _. demo_empty) 1000000001 demo_pending) = 1 \<and>
   hp_receiptId ` set (listHeldPendingSignals (\<lambda>_ _. demo_empty) (fst (sweepPendingSignals (\<lambda>_ _. demo_empty) 1000000001 demo_pending)) 1000000001)
     = {''r''}"
proof -
  have ok: "pending_ok demo_pending" by code_simp
  moreover have "snd (sweepPendingSignals (\<lambda>_ _. demo_empty) 1000000001 demo_pending) = 1" by code_simp
  moreover have "map hp_receiptId (listHeldPendingSignals (\<lambda>_ _. demo_empty) demo_pending 1000000001) = [''r'']" by code_simp
  then have "hp_receiptId ` set (listHeldPendingSignals (\<lambda>_ _. demo_empty) demo_pending 1000000001) = {''r''}"
    by (metis list.set_map list.simps(15) empty_set)
  ultimately show ?thesis using sweep_keeps_what_is_listed [OF ok, of "\<lambda>_ _. demo_empty" 1000000001] by simp
qed

end
