(* ===== verification/Wait_Sweep.thy ===== *)
theory Wait_Sweep
  imports Wait_Cleanup
begin

text \<open>
  The rest of \<^verbatim>\<open>src/src/domain/workflows/signal_wait_cleanup.ts\<close>: removing every wait record of deleted
  runs, and the sweep of records nobody needs. Both join the waits, the pending signals and the key
  records of all keys; they run alone on the store.
\<close>

section \<open>The store with its key records\<close>

type_synonym key_records = "(nat \<times> wait_key_record option) list"

record swept_store =
  st_waits :: wait_store
  st_keys :: "((string \<times> string) \<times> key_records) list"

text \<open>What is read under one key.\<close>

definition key_view :: "wait_store \<Rightarrow> key_records \<Rightarrow> key_store" where
  "key_view ws rs = \<lparr>ks_records = rs, ks_outcomes = ws_outcomes ws, ks_registrations = ws_registrations ws\<rparr>"

definition records_of :: "swept_store \<Rightarrow> string \<Rightarrow> string \<Rightarrow> key_records" where
  "records_of sst workflowId key = (case map_of (st_keys sst) (workflowId, key) of Some rs \<Rightarrow> rs | None \<Rightarrow> [])"

definition view_of :: "swept_store \<Rightarrow> string \<Rightarrow> string \<Rightarrow> key_store" where
  "view_of sst workflowId key = key_view (st_waits sst) (records_of sst workflowId key)"

definition listOutcomes :: "wait_store \<Rightarrow> wait_outcome list" where
  "listOutcomes ws = List.map_filter (\<lambda>(i, _). case findOutcome ws i of Found out \<Rightarrow> Some out | _ \<Rightarrow> None) (ws_outcomes ws)"

section \<open>Releasing key claims\<close>

record key_claim_removal =
  kr_removed :: nat
  kr_released :: nat

text \<open>
  \<^verbatim>\<open>releaseKeyClaims\<close> for one key: the records it leaves, those it removed, and whether it stored a release.
\<close>

definition readable_records :: "key_records \<Rightarrow> wait_key_record list" where
  "readable_records rs = List.map_filter (\<lambda>(g, _). case stored rs g of Found r \<Rightarrow> Some r | _ \<Rightarrow> None) rs"

definition release_key ::
  "(wait_key_claim \<Rightarrow> bool) \<Rightarrow> time \<Rightarrow> key_store \<Rightarrow> key_store \<times> wait_key_record list \<times> bool" where
  "release_key shouldRemove now st =
     (let selected = filter (gc_selects shouldRemove) (readable_records (ks_records st));
          remove = (\<lambda>st bound released.
            let gone = filter (\<lambda>r. record_generation r < bound) selected in
            (fold (\<lambda>r. removeKeyRecord (record_generation r)) gone st, gone, released)) in
      if selected = [] then (st, [], False)
      else case highestKeyRecord st of
             Highest_found (Key_claim c) \<Rightarrow>
               if list_ex (\<lambda>r. record_generation r = ka_generation c) selected then
                 let st' = createKeyRecord (release_over c now) st in
                 (case findKeyRecord (ka_generation c + 1) st' of
                    Absent \<Rightarrow> (st', [], False)
                  | Found (Key_release a t) \<Rightarrow> remove st' (ka_generation c + 1) (t = now)
                  | _ \<Rightarrow> remove st' (ka_generation c + 1) False)
               else remove st (ka_generation c) False
           | Highest_found (Key_release a t) \<Rightarrow> remove st (ka_generation a) False
           | _ \<Rightarrow> (st, [], False))"

text \<open>The slots whose pending signals only the removed claims read.\<close>

fun slots_read :: "wait_key_record \<Rightarrow> nat list" where
  "slots_read (Key_claim c) =
     ka_generation c # (if (case kc_early c of Some e \<Rightarrow> we_overRelease e | None \<Rightarrow> False) then [ka_generation c - 1] else [])"
| "slots_read (Key_release _ _) = []"

definition releaseKeyClaims :: "(wait_key_claim \<Rightarrow> bool) \<Rightarrow> time \<Rightarrow> swept_store \<Rightarrow> swept_store \<times> key_claim_removal" where
  "releaseKeyClaims shouldRemove now sst =
     (let results = map (\<lambda>(wk, rs). (wk, release_key shouldRemove now (key_view (st_waits sst) rs))) (st_keys sst);
          orphanedSlots = concat (map (\<lambda>((workflowId, key), _, gone, _).
            map (\<lambda>slot. (workflowId, key, slot)) (concat (map slots_read gone))) results);
          ws = st_waits sst;
          ps = ws_pending ws;
          ps' = (if orphanedSlots = [] then ps
                 else fold removePendingRecord
                        (filter (\<lambda>a. (pa_workflowId a, pa_key a, pa_slot a) \<in> set orphanedSlots) (map fst ps)) ps) in
      (\<lparr>st_waits = ws\<lparr>ws_pending := ps'\<rparr>, st_keys = map (\<lambda>(wk, st, _). (wk, ks_records st)) results\<rparr>,
       \<lparr>kr_removed = sum_list (map (\<lambda>(_, _, gone, _). length gone) results),
        kr_released = length (filter (\<lambda>(_, _, _, released). released) results)\<rparr>))"

section \<open>Removing the records of runs\<close>

definition ids_of_runs :: "string list \<Rightarrow> wait_store \<Rightarrow> string list" where
  "ids_of_runs runIds ws =
     nub (map wr_waitId (filter (\<lambda>reg. wr_runId reg \<in> set runIds) (listRegistrations ws)) @
          map (wr_waitId \<circ> outcome_ref) (filter (\<lambda>out. wr_runId (outcome_ref out) \<in> set runIds) (listOutcomes ws)))"

definition removeWaitRecordsOfRuns :: "string list \<Rightarrow> time \<Rightarrow> swept_store \<Rightarrow> swept_store \<times> nat" where
  "removeWaitRecordsOfRuns runIds now sst =
     (if runIds = [] then (sst, 0)
      else let sst' = fst (releaseKeyClaims (\<lambda>c. kc_runId c \<in> set runIds) now sst);
               waitIds = ids_of_runs runIds (st_waits sst') in
           (sst'\<lparr>st_waits := removeWaitRecords waitIds (st_waits sst')\<rparr>, length waitIds))"

section \<open>The sweep\<close>

definition ORPHAN_WAIT_RECORD_GRACE_MS :: int where
  "ORPHAN_WAIT_RECORD_GRACE_MS = 24 * 60 * 60 * 1000"

datatype run_lookup = Run_found workflow_run | Run_missing | Run_unreadable

record wait_record_sweep =
  sw_registrations :: nat
  sw_outcomes :: nat
  sw_keyRecords :: nat
  sw_pendingSignals :: nat

definition orphaned :: "time \<Rightarrow> time \<Rightarrow> bool" where
  "orphaned now deadline \<longleftrightarrow> now > deadline + ORPHAN_WAIT_RECORD_GRACE_MS"

definition sweep_registration ::
  "(string \<Rightarrow> string \<Rightarrow> run_lookup) \<Rightarrow> time \<Rightarrow> wait_registration \<Rightarrow> wait_store \<times> nat \<Rightarrow> wait_store \<times> nat" where
  "sweep_registration lookUp now reg swept =
     (let (ws, n) = swept; waitId = wr_waitId reg in
      case lookUp (wr_workflowId reg) (wr_runId reg) of
        Run_unreadable \<Rightarrow> (ws, n)
      | Run_found run \<Rightarrow>
          if endedAfterRegistering run reg then
            (removeRegistration waitId (if findOutcome ws waitId = Absent then ws_settle (cancelledOutcome reg now) ws else ws), n + 1)
          else (ws, n)
      | Run_missing \<Rightarrow> if orphaned now (wr_deadline reg) then (removeRegistration waitId ws, n + 1) else (ws, n))"

definition sweep_outcome ::
  "(string \<Rightarrow> string \<Rightarrow> run_lookup) \<Rightarrow> time \<Rightarrow> wait_outcome \<Rightarrow> wait_store \<times> nat \<Rightarrow> wait_store \<times> nat" where
  "sweep_outcome lookUp now out swept =
     (let (ws, n) = swept; ref = outcome_ref out in
      if orphaned now (wr_deadline ref) \<and> lookUp (wr_workflowId ref) (wr_runId ref) = Run_missing
      then (removeOutcome (wr_waitId ref) ws, n + 1) else (ws, n))"

definition sweepWaitRecords ::
  "(string \<Rightarrow> string \<Rightarrow> run_lookup) \<Rightarrow> time \<Rightarrow> bool \<Rightarrow> swept_store \<Rightarrow> swept_store \<times> wait_record_sweep" where
  "sweepWaitRecords lookUp now localRunAbsenceIsAuthoritative sst =
     (let (ps, pendingSignals) = sweepPendingSignals (view_of sst) now (ws_pending (st_waits sst));
          ws = (st_waits sst)\<lparr>ws_pending := ps\<rparr> in
      if \<not> localRunAbsenceIsAuthoritative then
        (sst\<lparr>st_waits := ws\<rparr>,
         \<lparr>sw_registrations = 0, sw_outcomes = 0, sw_keyRecords = 0, sw_pendingSignals = pendingSignals\<rparr>)
      else
        let (ws1, registrations) = fold (sweep_registration lookUp now) (listRegistrations ws) (ws, 0);
            (sst2, removal) = releaseKeyClaims
              (\<lambda>c. orphaned now (kc_deadline c) \<and> lookUp (ka_workflowId c) (kc_runId c) = Run_missing) now
              (sst\<lparr>st_waits := ws1\<rparr>);
            (ws3, outcomes) = fold (sweep_outcome lookUp now) (listOutcomes (st_waits sst2)) (st_waits sst2, 0) in
        (sst2\<lparr>st_waits := ws3\<rparr>,
         \<lparr>sw_registrations = registrations, sw_outcomes = outcomes, sw_keyRecords = kr_removed removal,
          sw_pendingSignals = pendingSignals\<rparr>))"

section \<open>What the sweep leaves\<close>

text \<open>
  The records as the store reads them: one filed under another name is unreadable, and generations start at 1.
\<close>

definition waits_filed :: "wait_store \<Rightarrow> bool" where
  "waits_filed ws \<longleftrightarrow> (\<forall>i reg. findRegistration ws i = Found reg \<longrightarrow> wr_waitId reg = i) \<and>
     (\<forall>i out. findOutcome ws i = Found out \<longrightarrow> wr_waitId (outcome_ref out) = i)"

definition keys_filed :: "key_records \<Rightarrow> bool" where
  "keys_filed rs \<longleftrightarrow> (\<forall>g r. stored rs g = Found r \<longrightarrow> record_generation r = g \<and> 1 \<le> g)"

definition filed :: "swept_store \<Rightarrow> bool" where
  "filed sst \<longleftrightarrow> waits_filed (st_waits sst) \<and> (\<forall>(wk, rs)\<in>set (st_keys sst). keys_filed rs)"

lemma map_filter_in: "y \<in> set (List.map_filter f xs) \<longleftrightarrow> (\<exists>x\<in>set xs. f x = Some y)"
  by (induction xs) (auto simp: List.map_filter_simps split: option.splits)

lemma listed_records:
  "v \<in> set (List.map_filter (\<lambda>(k, _). case stored m k of Found v \<Rightarrow> Some v | _ \<Rightarrow> None) m) \<longleftrightarrow> (\<exists>k. stored m k = Found v)"
proof
  assume "v \<in> set (List.map_filter (\<lambda>(k, _). case stored m k of Found v \<Rightarrow> Some v | _ \<Rightarrow> None) m)"
  then obtain k where "(case stored m k of Found v \<Rightarrow> Some v | _ \<Rightarrow> None) = Some v" by (auto simp: map_filter_in)
  then show "\<exists>k. stored m k = Found v" by (cases "stored m k") auto
next
  assume "\<exists>k. stored m k = Found v"
  then obtain k where k: "stored m k = Found v" ..
  then obtain e where "(k, e) \<in> set m" using stored_Absent_iff [of m k] by fastforce
  with k show "v \<in> set (List.map_filter (\<lambda>(k, _). case stored m k of Found v \<Rightarrow> Some v | _ \<Rightarrow> None) m)"
    unfolding map_filter_in by (intro bexI [of _ "(k, e)"]) simp_all
qed

lemma listed_registrations: "reg \<in> set (listRegistrations ws) \<longleftrightarrow> (\<exists>i. findRegistration ws i = Found reg)"
  unfolding listRegistrations_def findRegistration_def by (rule listed_records)

lemma listed_outcomes: "out \<in> set (listOutcomes ws) \<longleftrightarrow> (\<exists>i. findOutcome ws i = Found out)"
  unfolding listOutcomes_def findOutcome_def by (rule listed_records)

lemma readable_record: "r \<in> set (readable_records rs) \<longleftrightarrow> (\<exists>g. stored rs g = Found r)"
  unfolding readable_records_def by (rule listed_records)

lemma removeOutcome_reads [simp]:
  "findOutcome (removeOutcome i ws) j = (if j = i then Absent else findOutcome ws j)"
  "findRegistration (removeOutcome i ws) j = findRegistration ws j"
  by (simp_all add: findOutcome_def findRegistration_def removeOutcome_def stored_filter)

lemma pending_reads [simp]:
  "findOutcome (ws\<lparr>ws_pending := ps\<rparr>) i = findOutcome ws i"
  "findRegistration (ws\<lparr>ws_pending := ps\<rparr>) i = findRegistration ws i"
  by (simp_all add: findOutcome_def findRegistration_def)

subsection \<open>Registrations\<close>

definition ended_for :: "(string \<Rightarrow> string \<Rightarrow> run_lookup) \<Rightarrow> wait_registration \<Rightarrow> bool" where
  "ended_for lookUp reg \<longleftrightarrow> (\<exists>run. lookUp (wr_workflowId reg) (wr_runId reg) = Run_found run \<and> endedAfterRegistering run reg)"

definition gone_for :: "(string \<Rightarrow> string \<Rightarrow> run_lookup) \<Rightarrow> time \<Rightarrow> wait_registration \<Rightarrow> bool" where
  "gone_for lookUp now reg \<longleftrightarrow> lookUp (wr_workflowId reg) (wr_runId reg) = Run_missing \<and> orphaned now (wr_deadline reg)"

lemma sweep_registration_cases:
  "fst (sweep_registration lookUp now reg (ws, n)) =
     (if ended_for lookUp reg then
        removeRegistration (wr_waitId reg) (if findOutcome ws (wr_waitId reg) = Absent then ws_settle (cancelledOutcome reg now) ws else ws)
      else if gone_for lookUp now reg then removeRegistration (wr_waitId reg) ws
      else ws)"
  by (cases "lookUp (wr_workflowId reg) (wr_runId reg)") (simp_all add: sweep_registration_def ended_for_def gone_for_def Let_def)

abbreviation sweep_registrations ::
  "(string \<Rightarrow> string \<Rightarrow> run_lookup) \<Rightarrow> time \<Rightarrow> wait_registration list \<Rightarrow> wait_store \<times> nat \<Rightarrow> wait_store" where
  "sweep_registrations lookUp now regs swept \<equiv> fst (fold (sweep_registration lookUp now) regs swept)"

lemma sweep_registrations_Cons:
  "sweep_registrations lookUp now (reg # regs) (ws, n) =
     sweep_registrations lookUp now regs
       (fst (sweep_registration lookUp now reg (ws, n)), snd (sweep_registration lookUp now reg (ws, n)))"
  by simp

text \<open>An outcome is never replaced; an absent one becomes the cancellation of a registration that ended.\<close>

lemma swept_outcome:
  "findOutcome ws i \<noteq> Absent \<Longrightarrow> findOutcome (sweep_registrations lookUp now regs (ws, n)) i = findOutcome ws i"
proof (induction regs arbitrary: ws n)
  case (Cons reg regs)
  let ?s = "sweep_registration lookUp now reg (ws, n)"
  have "findOutcome (fst ?s) i = findOutcome ws i" using Cons.prems by (simp add: sweep_registration_cases)
  with Cons.IH [of "fst ?s" "snd ?s"] Cons.prems show ?case by simp
qed simp

lemma swept_outcome_new:
  "findOutcome ws i = Absent \<Longrightarrow> findOutcome (sweep_registrations lookUp now regs (ws, n)) i \<noteq> Absent \<Longrightarrow>
     \<exists>reg\<in>set regs. wr_waitId reg = i \<and> ended_for lookUp reg \<and>
       findOutcome (sweep_registrations lookUp now regs (ws, n)) i = Found (cancelledOutcome reg now)"
proof (induction regs arbitrary: ws n)
  case (Cons reg regs)
  let ?s = "sweep_registration lookUp now reg (ws, n)"
  show ?case
  proof (cases "findOutcome (fst ?s) i = Absent")
    case True
    with Cons.IH [of "fst ?s" "snd ?s"] Cons.prems(2) show ?thesis by auto
  next
    case False
    then have "findOutcome (sweep_registrations lookUp now (reg # regs) (ws, n)) i = findOutcome (fst ?s) i"
      unfolding sweep_registrations_Cons by (rule swept_outcome)
    moreover from False Cons.prems(1) have "wr_waitId reg = i \<and> ended_for lookUp reg \<and> findOutcome (fst ?s) i = Found (cancelledOutcome reg now)"
      by (auto simp: sweep_registration_cases split: if_splits)
    ultimately show ?thesis by simp
  qed
qed simp

lemma swept_registration:
  "findRegistration (sweep_registrations lookUp now regs (ws, n)) i =
     (if \<exists>reg\<in>set regs. wr_waitId reg = i \<and> (ended_for lookUp reg \<or> gone_for lookUp now reg) then Absent
      else findRegistration ws i)"
proof (induction regs arbitrary: ws n)
  case (Cons reg regs)
  let ?s = "sweep_registration lookUp now reg (ws, n)"
  have "findRegistration (fst ?s) i =
      (if wr_waitId reg = i \<and> (ended_for lookUp reg \<or> gone_for lookUp now reg) then Absent else findRegistration ws i)"
    by (auto simp: sweep_registration_cases)
  with Cons.IH [of "fst ?s" "snd ?s"] show ?case by auto
qed simp

lemma ended_registration_settled:
  assumes "reg \<in> set regs" and "ended_for lookUp reg"
  shows "findOutcome (sweep_registrations lookUp now regs (ws, n)) (wr_waitId reg) \<noteq> Absent"
  using assms(1)
proof (induction regs arbitrary: ws n)
  case (Cons r regs)
  let ?s = "sweep_registration lookUp now r (ws, n)"
  show ?case
  proof (cases "r = reg")
    case True
    then have "findOutcome (fst ?s) (wr_waitId reg) \<noteq> Absent" using assms(2) by (simp add: sweep_registration_cases)
    with swept_outcome [OF this, of lookUp now regs "snd ?s"] show ?thesis by simp
  next
    case False
    with Cons.prems have "reg \<in> set regs" by simp
    from Cons.IH [OF this] show ?thesis unfolding sweep_registrations_Cons .
  qed
qed simp

subsection \<open>Outcomes\<close>

definition outcome_gone :: "(string \<Rightarrow> string \<Rightarrow> run_lookup) \<Rightarrow> time \<Rightarrow> wait_outcome \<Rightarrow> bool" where
  "outcome_gone lookUp now out \<longleftrightarrow> orphaned now (wr_deadline (outcome_ref out)) \<and>
     lookUp (wr_workflowId (outcome_ref out)) (wr_runId (outcome_ref out)) = Run_missing"

lemma sweep_outcome_cases:
  "fst (sweep_outcome lookUp now out (ws, n)) =
     (if outcome_gone lookUp now out then removeOutcome (wr_waitId (outcome_ref out)) ws else ws)"
  by (simp add: sweep_outcome_def outcome_gone_def Let_def)

lemma sweep_outcomes:
  "findRegistration (fst (fold (sweep_outcome lookUp now) outs (ws, n))) i = findRegistration ws i \<and>
   findOutcome (fst (fold (sweep_outcome lookUp now) outs (ws, n))) i =
     (if \<exists>out\<in>set outs. wr_waitId (outcome_ref out) = i \<and> outcome_gone lookUp now out then Absent else findOutcome ws i)"
proof (induction outs arbitrary: ws n)
  case (Cons out outs)
  let ?s = "sweep_outcome lookUp now out (ws, n)"
  have "findRegistration (fst ?s) i = findRegistration ws i"
    "findOutcome (fst ?s) i =
      (if wr_waitId (outcome_ref out) = i \<and> outcome_gone lookUp now out then Absent else findOutcome ws i)"
    by (auto simp: sweep_outcome_cases)
  with Cons.IH [of "fst ?s" "snd ?s"] show ?case by auto
qed simp

text \<open>A readable outcome of a run that is not missing stays.\<close>

lemma kept_outcome:
  assumes "\<And>j out. findOutcome ws j = Found out \<Longrightarrow> wr_waitId (outcome_ref out) = j" and "findOutcome ws i = Found out"
    and "lookUp (wr_workflowId (outcome_ref out)) (wr_runId (outcome_ref out)) \<noteq> Run_missing"
  shows "findOutcome (fst (fold (sweep_outcome lookUp now) (listOutcomes ws) (ws, n))) i = Found out"
proof -
  have "out' = out" if "out' \<in> set (listOutcomes ws)" "wr_waitId (outcome_ref out') = i" for out'
    using that assms(1,2) by (auto simp: listed_outcomes)
  with assms(2,3) show ?thesis by (auto simp: sweep_outcomes outcome_gone_def)
qed

subsection \<open>Keys\<close>

lemma removed_key_records:
  "ks_records (fold (\<lambda>r. removeKeyRecord (record_generation r)) gone st) =
     filter (\<lambda>gr. fst gr \<notin> record_generation ` set gone) (ks_records st)"
  by (induction gone arbitrary: st) (auto simp: removeKeyRecord_def intro: filter_cong)

lemma stored_keys_removed:
  "stored (ks_records (fold (\<lambda>r. removeKeyRecord (record_generation r)) gone st)) g =
     (if g \<in> record_generation ` set gone then Absent else stored (ks_records st) g)"
  unfolding removed_key_records by (rule stored_filter_out)

lemma highest_stays:
  assumes "highestKeyRecord st = Highest_found r" and "keys_filed (ks_records st)"
    and "stored (ks_records st') (record_generation r) = Found r" and "fst ` set (ks_records st') \<subseteq> fst ` set (ks_records st)"
  shows "highestKeyRecord st' = Highest_found r"
proof -
  let ?g = "highest_generation st"
  from assms(1) have r: "stored (ks_records st) ?g = Found r" "?g \<noteq> 0"
    by (auto simp: highestKeyRecord_def Let_def split: if_splits stored_wait_record.splits)
  with assms(2) have g: "record_generation r = ?g" by (simp add: keys_filed_def)
  have "?g \<in> keys_of_store st'" using assms(3) g stored_Absent_iff [of "ks_records st'" ?g] by (auto simp: keys_of_store_def)
  then have "?g \<le> highest_generation st'" by (rule highest_generation_bound)
  moreover have "highest_generation st' \<in> keys_of_store st"
    using highest_generation_cases [of st'] calculation r(2) assms(4) by (auto simp: keys_of_store_def)
  then have "highest_generation st' \<le> ?g" by (rule highest_generation_bound)
  ultimately have "highest_generation st' = ?g" by simp
  with assms(3) g r(2) show ?thesis by (simp add: highestKeyRecord_def)
qed

lemma release_key_cases:
  assumes "release_key shouldRemove now st = (st', gone, released)"
  obtains (removed) "st' = fold (\<lambda>r. removeKeyRecord (record_generation r)) gone st"
      "\<And>r. r \<in> set gone \<Longrightarrow> gc_selects shouldRemove r \<and> r \<in> set (readable_records (ks_records st))"
  | (released) d r where "highestKeyRecord st = Highest_found (Key_claim d)" "gc_selects shouldRemove r"
      "r \<in> set (readable_records (ks_records st))" "record_generation r = ka_generation d"
      "st' = fold (\<lambda>r. removeKeyRecord (record_generation r)) gone (createKeyRecord (release_over d now) st)"
      "\<And>r. r \<in> set gone \<Longrightarrow> gc_selects shouldRemove r \<and> r \<in> set (readable_records (ks_records st))"
proof -
  let ?selected = "filter (gc_selects shouldRemove) (readable_records (ks_records st))"
  show thesis
  proof (cases "?selected = []")
    case True
    show thesis by (rule removed) (use True assms in \<open>simp_all add: release_key_def\<close>)
  next
    case some: False
    show thesis
    proof (cases "\<exists>d. highestKeyRecord st = Highest_found (Key_claim d) \<and> list_ex (\<lambda>r. record_generation r = ka_generation d) ?selected")
      case True
      then obtain d r where d: "highestKeyRecord st = Highest_found (Key_claim d)" "list_ex (\<lambda>r. record_generation r = ka_generation d) ?selected"
        "r \<in> set ?selected" "record_generation r = ka_generation d" by (auto simp: list_ex_iff)
      let ?st = "createKeyRecord (release_over d now) st"
      have "st' = fold (\<lambda>r. removeKeyRecord (record_generation r)) gone ?st \<and> set gone \<subseteq> set ?selected"
        using assms some d(1,2)
        by (cases "findKeyRecord (ka_generation d + 1) ?st") (auto simp: release_key_def Let_def split: wait_key_record.split_asm)
      with d show thesis by (intro released) auto
    next
      case False
      have "st' = fold (\<lambda>r. removeKeyRecord (record_generation r)) gone st \<and> set gone \<subseteq> set ?selected"
      proof (cases "highestKeyRecord st")
        case (Highest_found h)
        with assms some False show ?thesis by (cases h) (auto simp: release_key_def Let_def)
      qed (use assms some in \<open>auto simp: release_key_def Let_def\<close>)
      then show thesis by (intro removed) auto
    qed
  qed
qed

text \<open>Releasing the claims of a key leaves those that were not to be removed, and the open one in force.\<close>

lemma release_key_keeps:
  assumes "keys_filed (ks_records st)" and "stored (ks_records st) g = Found (Key_claim c)" and "\<not> shouldRemove c"
    and "release_key shouldRemove now st = (st', gone, released)"
  shows "stored (ks_records st') g = Found (Key_claim c) \<and>
    (highestKeyRecord st = Highest_found (Key_claim c) \<longrightarrow> highestKeyRecord st' = Highest_found (Key_claim c))"
proof -
  have g: "ka_generation c = g" using assms(1,2) by (fastforce simp: keys_filed_def)
  have selected: "record_generation r \<noteq> g"
    if "gc_selects shouldRemove r" "r \<in> set (readable_records (ks_records st))" for r
    using that assms(1-3) by (auto simp: readable_record keys_filed_def)
  from assms(4) show ?thesis
  proof (cases rule: release_key_cases)
    case removed
    then have "stored (ks_records st') g = Found (Key_claim c)"
      using assms(2) selected by (auto simp: stored_keys_removed)
    moreover have "fst ` set (ks_records st') \<subseteq> fst ` set (ks_records st)"
      unfolding removed(1) removed_key_records by auto
    ultimately show ?thesis using highest_stays [of st "Key_claim c" st'] assms(1) g by auto
  next
    case (released d r)
    then have "stored (ks_records st') g = Found (Key_claim c)"
      using assms(2) selected by (auto simp: stored_keys_removed createKeyRecord_def stored_create_once)
    moreover have "highestKeyRecord st \<noteq> Highest_found (Key_claim c)"
      using released(1-4) selected g by auto
    ultimately show ?thesis by simp
  qed
qed

lemma key_view_records [simp]: "ks_records (key_view ws rs) = rs"
  by (simp add: key_view_def)

lemma map_of_results:
  "map_of (map (\<lambda>(wk, st, _). (wk, ks_records st)) (map (\<lambda>(wk, rs). (wk, f rs)) kss)) wk =
     map_option (\<lambda>rs. ks_records (fst (f rs))) (map_of kss wk)"
  by (induction kss) (auto split: prod.splits)

lemma releaseKeyClaims_reads:
  "findOutcome (st_waits (fst (releaseKeyClaims P now sst))) i = findOutcome (st_waits sst) i"
  "findRegistration (st_waits (fst (releaseKeyClaims P now sst))) i = findRegistration (st_waits sst) i"
  "records_of (fst (releaseKeyClaims P now sst)) workflowId key =
     ks_records (fst (release_key P now (key_view (st_waits sst) (records_of sst workflowId key))))"
proof -
  have "release_key P now (key_view ws []) = (key_view ws [], [], False)" for ws
    by (simp add: release_key_def readable_records_def key_view_def List.map_filter_simps)
  then show "records_of (fst (releaseKeyClaims P now sst)) workflowId key =
     ks_records (fst (release_key P now (key_view (st_waits sst) (records_of sst workflowId key))))"
    by (cases "map_of (st_keys sst) (workflowId, key)")
      (simp_all add: releaseKeyClaims_def records_of_def Let_def map_of_results del: map_map)
qed (simp_all add: releaseKeyClaims_def Let_def)

lemma highest_of_records: "ks_records st = ks_records st' \<Longrightarrow> highestKeyRecord st = highestKeyRecord st'"
  by (simp add: highestKeyRecord_def highest_generation_def Let_def)

lemma records_filed:
  assumes "filed sst" shows "keys_filed (records_of sst workflowId key)"
proof (cases "map_of (st_keys sst) (workflowId, key)")
  case None
  then show ?thesis by (simp add: records_of_def keys_filed_def stored_def)
next
  case (Some rs)
  then have "((workflowId, key), rs) \<in> set (st_keys sst)" by (rule map_of_SomeD)
  with assms Some show ?thesis by (auto simp: records_of_def filed_def)
qed

text \<open>The claims of a run the sweep does not judge missing keep their place.\<close>

lemma kept_claim:
  assumes "filed sst" and "stored (records_of sst workflowId key) g = Found (Key_claim c)" and "\<not> P c"
  shows "stored (records_of (fst (releaseKeyClaims P now sst)) workflowId key) g = Found (Key_claim c)"
    and "highestKeyRecord (view_of sst workflowId key) = Highest_found (Key_claim c) \<Longrightarrow>
      highestKeyRecord (view_of (fst (releaseKeyClaims P now sst)) workflowId key) = Highest_found (Key_claim c)"
proof -
  let ?st = "key_view (st_waits sst) (records_of sst workflowId key)"
  obtain st' gone released where out: "release_key P now ?st = (st', gone, released)" by (cases "release_key P now ?st") auto
  then have after: "records_of (fst (releaseKeyClaims P now sst)) workflowId key = ks_records st'"
    by (simp add: releaseKeyClaims_reads(3))
  have keep: "stored (ks_records st') g = Found (Key_claim c) \<and>
    (highestKeyRecord ?st = Highest_found (Key_claim c) \<longrightarrow> highestKeyRecord st' = Highest_found (Key_claim c))"
    by (rule release_key_keeps [OF _ _ assms(3) out]) (simp_all add: assms(2) records_filed [OF assms(1)])
  then show "stored (records_of (fst (releaseKeyClaims P now sst)) workflowId key) g = Found (Key_claim c)"
    by (simp add: after)
  assume "highestKeyRecord (view_of sst workflowId key) = Highest_found (Key_claim c)"
  with keep have "highestKeyRecord st' = Highest_found (Key_claim c)" by (simp add: view_of_def)
  moreover have "highestKeyRecord (view_of (fst (releaseKeyClaims P now sst)) workflowId key) = highestKeyRecord st'"
    by (rule highest_of_records) (simp add: view_of_def after)
  ultimately show "highestKeyRecord (view_of (fst (releaseKeyClaims P now sst)) workflowId key) = Highest_found (Key_claim c)"
    by simp
qed

lemma waits_filed_swept:
  assumes "waits_filed ws"
  shows "waits_filed (sweep_registrations lookUp now regs (ws, n))"
proof -
  have "wr_waitId (outcome_ref out) = i" if "findOutcome (sweep_registrations lookUp now regs (ws, n)) i = Found out" for i out
  proof (cases "findOutcome ws i = Absent")
    case True
    from swept_outcome_new [OF this, of lookUp now regs n] that show ?thesis by auto
  next
    case False
    from swept_outcome [OF this] that assms show ?thesis by (auto simp: waits_filed_def)
  qed
  with assms show ?thesis by (auto simp: waits_filed_def swept_registration split: if_splits)
qed

subsection \<open>The whole sweep\<close>

definition missing_claim :: "(string \<Rightarrow> string \<Rightarrow> run_lookup) \<Rightarrow> time \<Rightarrow> wait_key_claim \<Rightarrow> bool" where
  "missing_claim lookUp now c \<longleftrightarrow> orphaned now (kc_deadline c) \<and> lookUp (ka_workflowId c) (kc_runId c) = Run_missing"

text \<open>The store after the sweep, by the stage that wrote each part of it.\<close>

lemma sweep_stages:
  fixes lookUp now sst
  defines "ws0 \<equiv> (st_waits sst)\<lparr>ws_pending := fst (sweepPendingSignals (view_of sst) now (ws_pending (st_waits sst)))\<rparr>"
  defines "ws1 \<equiv> sweep_registrations lookUp now (listRegistrations ws0) (ws0, 0)"
  defines "sst2 \<equiv> fst (releaseKeyClaims (missing_claim lookUp now) now (sst\<lparr>st_waits := ws1\<rparr>))"
  shows "fst (sweepWaitRecords lookUp now True sst) =
      sst2\<lparr>st_waits := fst (fold (sweep_outcome lookUp now) (listOutcomes (st_waits sst2)) (st_waits sst2, 0))\<rparr>"
    and "fst (sweepWaitRecords lookUp now False sst) = sst\<lparr>st_waits := ws0\<rparr>"
proof -
  have claims: "(\<lambda>c. orphaned now (kc_deadline c) \<and> lookUp (ka_workflowId c) (kc_runId c) = Run_missing) = missing_claim lookUp now"
    by (simp add: fun_eq_iff missing_claim_def)
  show "fst (sweepWaitRecords lookUp now True sst) =
      sst2\<lparr>st_waits := fst (fold (sweep_outcome lookUp now) (listOutcomes (st_waits sst2)) (st_waits sst2, 0))\<rparr>"
    unfolding sweepWaitRecords_def claims sst2_def ws1_def ws0_def by (simp add: Let_def split_def)
  show "fst (sweepWaitRecords lookUp now False sst) = sst\<lparr>st_waits := ws0\<rparr>"
    unfolding sweepWaitRecords_def ws0_def by (simp add: Let_def split_def)
qed

lemma listed_pending [simp]: "listRegistrations (ws\<lparr>ws_pending := ps\<rparr>) = listRegistrations ws"
  by (simp add: listRegistrations_def)

lemma sweep_waits:
  fixes lookUp now sst
  assumes "waits_filed (st_waits sst)"
  defines "ws' \<equiv> st_waits (fst (sweepWaitRecords lookUp now True sst))"
  shows "findRegistration (st_waits sst) i = Found reg \<Longrightarrow> \<not> ended_for lookUp reg \<Longrightarrow> \<not> gone_for lookUp now reg \<Longrightarrow>
      findRegistration ws' i = Found reg"
    and "findRegistration (st_waits sst) i = Found reg \<Longrightarrow> ended_for lookUp reg \<Longrightarrow> findRegistration ws' i = Absent"
    and "findOutcome (st_waits sst) i = Found out \<Longrightarrow>
      lookUp (wr_workflowId (outcome_ref out)) (wr_runId (outcome_ref out)) \<noteq> Run_missing \<Longrightarrow> findOutcome ws' i = Found out"
    and "findRegistration (st_waits sst) i = Found reg \<Longrightarrow> ended_for lookUp reg \<Longrightarrow> findOutcome (st_waits sst) i = Absent \<Longrightarrow>
      findOutcome ws' i = Found (cancelledOutcome reg now)"
proof -
  define ws0 where "ws0 = (st_waits sst)\<lparr>ws_pending := fst (sweepPendingSignals (view_of sst) now (ws_pending (st_waits sst)))\<rparr>"
  define ws1 where "ws1 = sweep_registrations lookUp now (listRegistrations ws0) (ws0, 0)"
  define sst2 where "sst2 = fst (releaseKeyClaims (missing_claim lookUp now) now (sst\<lparr>st_waits := ws1\<rparr>))"
  let ?ws2 = "st_waits sst2"
  have ws': "ws' = fst (fold (sweep_outcome lookUp now) (listOutcomes ?ws2) (?ws2, 0))"
    unfolding ws'_def sweep_stages(1) sst2_def ws1_def ws0_def by simp
  have ws2: "findOutcome ?ws2 j = findOutcome ws1 j" "findRegistration ?ws2 j = findRegistration ws1 j" for j
    unfolding sst2_def releaseKeyClaims_reads by simp_all
  have filed0: "waits_filed ws0" using assms(1) by (simp add: waits_filed_def ws0_def)
  then have "waits_filed ws1" unfolding ws1_def by (rule waits_filed_swept)
  then have filed2: "\<And>j out. findOutcome ?ws2 j = Found out \<Longrightarrow> wr_waitId (outcome_ref out) = j" by (simp add: waits_filed_def ws2)
  have reg': "findRegistration ws' i = findRegistration ws1 i" unfolding ws' by (simp add: sweep_outcomes ws2)
  have same: "r = reg" if "r \<in> set (listRegistrations ws0)" "wr_waitId r = i" "findRegistration (st_waits sst) i = Found reg" for r
    using that assms(1) by (auto simp: listed_registrations waits_filed_def ws0_def)
  have own: "wr_waitId reg = i" "reg \<in> set (listRegistrations ws0)" if "findRegistration (st_waits sst) i = Found reg"
    using that assms(1) by (auto simp: listed_registrations waits_filed_def ws0_def)
  show "findRegistration ws' i = Found reg"
    if "findRegistration (st_waits sst) i = Found reg" "\<not> ended_for lookUp reg" "\<not> gone_for lookUp now reg"
  proof -
    have "\<not> (\<exists>r\<in>set (listRegistrations ws0). wr_waitId r = i \<and> (ended_for lookUp r \<or> gone_for lookUp now r))"
      using same [OF _ _ that(1)] that(2,3) by metis
    then have "findRegistration ws1 i = findRegistration ws0 i" unfolding ws1_def swept_registration by (simp only: if_False)
    with that(1) show ?thesis by (simp add: reg' ws0_def)
  qed
  show "findRegistration ws' i = Absent" if "findRegistration (st_waits sst) i = Found reg" "ended_for lookUp reg"
    using own [OF that(1)] that(2) unfolding reg' ws1_def swept_registration by auto
  have keep: "findOutcome ws' i = Found out"
    if "findOutcome ws1 i = Found out" "lookUp (wr_workflowId (outcome_ref out)) (wr_runId (outcome_ref out)) \<noteq> Run_missing" for out
    unfolding ws' by (rule kept_outcome) (use filed2 that in \<open>simp_all add: ws2\<close>)
  show "findOutcome ws' i = Found out" if "findOutcome (st_waits sst) i = Found out"
    "lookUp (wr_workflowId (outcome_ref out)) (wr_runId (outcome_ref out)) \<noteq> Run_missing"
  proof (rule keep [OF _ that(2)])
    have "findOutcome ws1 i = findOutcome ws0 i" unfolding ws1_def by (rule swept_outcome) (simp add: ws0_def that(1))
    with that(1) show "findOutcome ws1 i = Found out" by (simp add: ws0_def)
  qed
  show "findOutcome ws' i = Found (cancelledOutcome reg now)"
    if reg: "findRegistration (st_waits sst) i = Found reg" and ended: "ended_for lookUp reg" and unsettled: "findOutcome (st_waits sst) i = Absent"
  proof (rule keep)
    have "findOutcome ws1 i \<noteq> Absent"
      using ended_registration_settled [OF own(2) [OF reg] ended, of now ws0 0] own(1) [OF reg] by (simp add: ws1_def)
    moreover have "findOutcome ws0 i = Absent" using unsettled by (simp add: ws0_def)
    ultimately obtain r where r: "r \<in> set (listRegistrations ws0)" "wr_waitId r = i"
      "findOutcome ws1 i = Found (cancelledOutcome r now)"
      using swept_outcome_new [of ws0 i lookUp now "listRegistrations ws0" 0] unfolding ws1_def by blast
    with same [OF r(1,2) reg] show "findOutcome ws1 i = Found (cancelledOutcome reg now)" by simp
    show "lookUp (wr_workflowId (outcome_ref (cancelledOutcome reg now))) (wr_runId (outcome_ref (cancelledOutcome reg now))) \<noteq> Run_missing"
      using ended by (auto simp: ended_for_def cancelledOutcome_def pick_def wait_ref.defs)
  qed
qed

lemma sweep_keys:
  fixes lookUp now sst
  assumes "filed sst" and "stored (records_of sst workflowId key) g = Found (Key_claim c)"
    and "lookUp (ka_workflowId c) (kc_runId c) \<noteq> Run_missing"
  defines "sst' \<equiv> fst (sweepWaitRecords lookUp now True sst)"
  shows "stored (records_of sst' workflowId key) g = Found (Key_claim c) \<and>
    (highestKeyRecord (view_of sst workflowId key) = Highest_found (Key_claim c) \<longrightarrow>
       highestKeyRecord (view_of sst' workflowId key) = Highest_found (Key_claim c))"
proof -
  define ws0 where "ws0 = (st_waits sst)\<lparr>ws_pending := fst (sweepPendingSignals (view_of sst) now (ws_pending (st_waits sst)))\<rparr>"
  define ws1 where "ws1 = sweep_registrations lookUp now (listRegistrations ws0) (ws0, 0)"
  let ?sst1 = "sst\<lparr>st_waits := ws1\<rparr>"
  define sst2 where "sst2 = fst (releaseKeyClaims (missing_claim lookUp now) now ?sst1)"
  have view: "highestKeyRecord (view_of a workflowId key) = highestKeyRecord (view_of b workflowId key)"
    if "st_keys a = st_keys b" for a b
    using that by (intro highest_of_records) (simp add: view_of_def records_of_def)
  have recs: "records_of a workflowId key = records_of b workflowId key" if "st_keys a = st_keys b" for a b
    using that by (simp add: records_of_def)
  have keys: "st_keys sst' = st_keys sst2"
    unfolding sst'_def sweep_stages(1) sst2_def ws1_def ws0_def by simp
  have "waits_filed ws0" using assms(1) by (simp add: filed_def waits_filed_def ws0_def)
  then have filed1: "filed ?sst1" using assms(1) waits_filed_swept by (simp add: filed_def ws1_def)
  have claim: "stored (records_of ?sst1 workflowId key) g = Found (Key_claim c)"
    using assms(2) recs [of ?sst1 sst] by simp
  have spared: "\<not> missing_claim lookUp now c" using assms(3) by (simp add: missing_claim_def)
  from kept_claim [OF filed1 claim, of "missing_claim lookUp now" now] spared
  show ?thesis
    using recs [OF keys] view [OF keys] view [of ?sst1 sst] unfolding sst2_def by simp
qed

text \<open>What a sweep may do to a registration.\<close>

definition registration_swept ::
  "(string \<Rightarrow> string \<Rightarrow> run_lookup) \<Rightarrow> time \<Rightarrow> wait_store \<Rightarrow> wait_store \<Rightarrow> string \<Rightarrow> wait_registration \<Rightarrow> bool" where
  "registration_swept lookUp now ws ws' i reg =
     (case lookUp (wr_workflowId reg) (wr_runId reg) of
        Run_unreadable \<Rightarrow> findRegistration ws' i = Found reg
      | Run_missing \<Rightarrow> orphaned now (wr_deadline reg) \<or> findRegistration ws' i = Found reg
      | Run_found run \<Rightarrow>
          if endedAfterRegistering run reg then
            findRegistration ws' i = Absent \<and> (findOutcome ws i = Absent \<longrightarrow> findOutcome ws' i = Found (cancelledOutcome reg now))
          else findRegistration ws' i = Found reg)"

text \<open>C28.
  A sweep takes nothing from a run that may still need it. The registration of a run that is there and did
  not end after registering, or whose record cannot be read, stays; the outcome of a run that is not missing
  stays; the claim of such a run stays and, where it is the open claim of its key, remains so. The registration
  of a run that ended after registering goes, and a wait that had no outcome is cancelled. Where the local
  absence of a run says nothing, registrations, outcomes and claims are left as they are.
\<close>

theorem sweep_spares_what_a_run_needs:
  assumes "filed sst" and "sst' = fst (sweepWaitRecords lookUp now authoritative sst)"
  shows "if authoritative then
      (\<forall>i reg. findRegistration (st_waits sst) i = Found reg \<longrightarrow> registration_swept lookUp now (st_waits sst) (st_waits sst') i reg) \<and>
      (\<forall>i out. findOutcome (st_waits sst) i = Found out \<and>
         lookUp (wr_workflowId (outcome_ref out)) (wr_runId (outcome_ref out)) \<noteq> Run_missing \<longrightarrow> findOutcome (st_waits sst') i = Found out) \<and>
      (\<forall>workflowId key g c. stored (records_of sst workflowId key) g = Found (Key_claim c) \<and>
         lookUp (ka_workflowId c) (kc_runId c) \<noteq> Run_missing \<longrightarrow>
         stored (records_of sst' workflowId key) g = Found (Key_claim c) \<and>
         (highestKeyRecord (view_of sst workflowId key) = Highest_found (Key_claim c) \<longrightarrow>
            highestKeyRecord (view_of sst' workflowId key) = Highest_found (Key_claim c)))
    else ws_registrations (st_waits sst') = ws_registrations (st_waits sst) \<and>
      ws_outcomes (st_waits sst') = ws_outcomes (st_waits sst) \<and> st_keys sst' = st_keys sst"
proof (cases authoritative)
  case False
  with assms show ?thesis by (simp add: sweep_stages(2))
next
  case True
  have wf: "waits_filed (st_waits sst)" using assms(1) by (simp add: filed_def)
  note waits = sweep_waits [OF wf, where lookUp = lookUp and now = now]
  have sst': "sst' = fst (sweepWaitRecords lookUp now True sst)" using assms(2) True by simp
  have "registration_swept lookUp now (st_waits sst) (st_waits sst') i reg" if "findRegistration (st_waits sst) i = Found reg" for i reg
    unfolding sst' registration_swept_def using waits(1,2,4) [OF that]
    by (cases "lookUp (wr_workflowId reg) (wr_runId reg)") (auto simp: ended_for_def gone_for_def)
  moreover note waits(3) [folded sst'] sweep_keys [OF assms(1), where lookUp = lookUp and now = now, folded sst']
  ultimately show ?thesis unfolding if_P [OF True] by blast
qed

text \<open>A run that waits is left alone while the wait of one that ended is cancelled.\<close>

definition demo_swept :: swept_store where
  "demo_swept =
     \<lparr>st_waits = register (registrationOf ''f'' ''n'' ''q'' ''j'' ''s'' (closed_wait\<lparr>sw_id := ''other''\<rparr>) 0) demo_registered,
      st_keys = []\<rparr>"

definition demo_lookup :: "string \<Rightarrow> string \<Rightarrow> run_lookup" where
  "demo_lookup workflowId runId =
     (if runId = ''r'' then Run_found (demo_run\<lparr>r_status := R_failed, r_completedAt := Some 5\<rparr>)
      else Run_found (demo_run\<lparr>r_status := R_suspended\<rparr>))"

lemma demo_filed: "filed demo_swept"
proof -
  have regs: "ws_registrations (st_waits demo_swept) =
      [(sw_id closed_wait, Some (registrationOf ''f'' ''n'' ''r'' ''j'' ''s'' closed_wait 0)),
       (''other'', Some (registrationOf ''f'' ''n'' ''q'' ''j'' ''s'' (closed_wait\<lparr>sw_id := ''other''\<rparr>) 0))]"
    by code_simp
  moreover have "ws_outcomes (st_waits demo_swept) = []" by code_simp
  ultimately have "waits_filed (st_waits demo_swept)"
    unfolding waits_filed_def findRegistration_def findOutcome_def by (auto simp: stored_def registrationOf_def split: if_splits)
  then show ?thesis by (simp add: filed_def demo_swept_def)
qed

theorem sweep_spares_what_a_run_needs_witness:
  "\<exists>reg live. findRegistration (st_waits demo_swept) (sw_id closed_wait) = Found reg \<and>
     findRegistration (st_waits demo_swept) ''other'' = Found live \<and>
     findRegistration (st_waits (fst (sweepWaitRecords demo_lookup 7 True demo_swept))) (sw_id closed_wait) = Absent \<and>
     findOutcome (st_waits (fst (sweepWaitRecords demo_lookup 7 True demo_swept))) (sw_id closed_wait) = Found (cancelledOutcome reg 7) \<and>
     findRegistration (st_waits (fst (sweepWaitRecords demo_lookup 7 True demo_swept))) ''other'' = Found live"
proof -
  let ?reg = "registrationOf ''f'' ''n'' ''r'' ''j'' ''s'' closed_wait 0"
  let ?live = "registrationOf ''f'' ''n'' ''q'' ''j'' ''s'' (closed_wait\<lparr>sw_id := ''other''\<rparr>) 0"
  have found: "findRegistration (st_waits demo_swept) (sw_id closed_wait) = Found ?reg"
    "findRegistration (st_waits demo_swept) ''other'' = Found ?live"
    "findOutcome (st_waits demo_swept) (sw_id closed_wait) = Absent" by code_simp+
  have runs: "demo_lookup (wr_workflowId ?reg) (wr_runId ?reg) = Run_found (demo_run\<lparr>r_status := R_failed, r_completedAt := Some 5\<rparr>)"
    "endedAfterRegistering (demo_run\<lparr>r_status := R_failed, r_completedAt := Some 5\<rparr>) ?reg"
    "demo_lookup (wr_workflowId ?live) (wr_runId ?live) = Run_found (demo_run\<lparr>r_status := R_suspended\<rparr>)"
    "\<not> endedAfterRegistering (demo_run\<lparr>r_status := R_suspended\<rparr>) ?live" by code_simp+
  have "\<forall>i reg. findRegistration (st_waits demo_swept) i = Found reg \<longrightarrow>
      registration_swept demo_lookup 7 (st_waits demo_swept) (st_waits (fst (sweepWaitRecords demo_lookup 7 True demo_swept))) i reg"
    using sweep_spares_what_a_run_needs [OF demo_filed refl, where authoritative = True and lookUp = demo_lookup and now = 7] by simp
  with found(1,2) have
    "registration_swept demo_lookup 7 (st_waits demo_swept) (st_waits (fst (sweepWaitRecords demo_lookup 7 True demo_swept))) (sw_id closed_wait) ?reg"
    "registration_swept demo_lookup 7 (st_waits demo_swept) (st_waits (fst (sweepWaitRecords demo_lookup 7 True demo_swept))) ''other'' ?live"
    by blast+
  with found runs show ?thesis unfolding registration_swept_def by simp
qed

section \<open>Removing the records of runs removes them all\<close>

lemma removeWaitRecords_reads:
  "findRegistration (removeWaitRecords ids ws) i = (if i \<in> set ids then Absent else findRegistration ws i) \<and>
   findOutcome (removeWaitRecords ids ws) i = (if i \<in> set ids then Absent else findOutcome ws i)"
  unfolding removeWaitRecords_def by (induction ids arbitrary: ws) auto

lemma ids_of_runs_set:
  "set (ids_of_runs runIds ws) =
     {wr_waitId reg | reg i. findRegistration ws i = Found reg \<and> wr_runId reg \<in> set runIds} \<union>
     {wr_waitId (outcome_ref out) | out i. findOutcome ws i = Found out \<and> wr_runId (outcome_ref out) \<in> set runIds}"
  by (auto simp: ids_of_runs_def listed_registrations listed_outcomes)

text \<open>
  Afterwards no registration and no outcome of the runs can be read, records under other wait ids are
  untouched, and so are the claims of other runs.
\<close>

theorem removed_runs_leave_no_waits:
  assumes "filed sst" and "runIds \<noteq> []" and "sst' = fst (removeWaitRecordsOfRuns runIds now sst)"
  shows "(\<forall>i reg. findRegistration (st_waits sst') i = Found reg \<longrightarrow> wr_runId reg \<notin> set runIds) \<and>
    (\<forall>i out. findOutcome (st_waits sst') i = Found out \<longrightarrow> wr_runId (outcome_ref out) \<notin> set runIds) \<and>
    (\<forall>i. i \<notin> set (ids_of_runs runIds (st_waits sst)) \<longrightarrow>
       findRegistration (st_waits sst') i = findRegistration (st_waits sst) i \<and>
       findOutcome (st_waits sst') i = findOutcome (st_waits sst) i) \<and>
    (\<forall>workflowId key g c. stored (records_of sst workflowId key) g = Found (Key_claim c) \<and> kc_runId c \<notin> set runIds \<longrightarrow>
       stored (records_of sst' workflowId key) g = Found (Key_claim c))"
proof -
  let ?P = "\<lambda>c. kc_runId c \<in> set runIds"
  let ?sst = "fst (releaseKeyClaims ?P now sst)"
  have reads: "findRegistration (st_waits ?sst) = findRegistration (st_waits sst)"
    "findOutcome (st_waits ?sst) = findOutcome (st_waits sst)"
    by (simp_all add: fun_eq_iff releaseKeyClaims_reads)
  have ids: "set (ids_of_runs runIds (st_waits ?sst)) = set (ids_of_runs runIds (st_waits sst))"
    unfolding ids_of_runs_set reads ..
  have waits: "st_waits sst' = removeWaitRecords (ids_of_runs runIds (st_waits ?sst)) (st_waits ?sst)"
    and keys: "records_of sst' = records_of ?sst"
    using assms(2,3) by (simp_all add: removeWaitRecordsOfRuns_def Let_def records_of_def fun_eq_iff)
  have after: "findRegistration (st_waits sst') i = (if i \<in> set (ids_of_runs runIds (st_waits sst)) then Absent else findRegistration (st_waits sst) i)"
    "findOutcome (st_waits sst') i = (if i \<in> set (ids_of_runs runIds (st_waits sst)) then Absent else findOutcome (st_waits sst) i)" for i
    unfolding waits by (simp_all add: removeWaitRecords_reads ids reads)
  have own: "findRegistration (st_waits sst) i = Found reg \<Longrightarrow> wr_runId reg \<in> set runIds \<Longrightarrow> i \<in> set (ids_of_runs runIds (st_waits sst))"
    "findOutcome (st_waits sst) i = Found out \<Longrightarrow> wr_runId (outcome_ref out) \<in> set runIds \<Longrightarrow>
       i \<in> set (ids_of_runs runIds (st_waits sst))" for i reg out
    using assms(1) unfolding ids_of_runs_set filed_def waits_filed_def by blast+
  have claims: "stored (records_of sst' workflowId key) g = Found (Key_claim c)"
    if "stored (records_of sst workflowId key) g = Found (Key_claim c)" "kc_runId c \<notin> set runIds" for workflowId key g c
    unfolding keys using kept_claim(1) [OF assms(1) that(1), of ?P now] that(2) by simp
  show ?thesis
    using claims own by (auto simp: after split: if_splits)
qed

end
