(* ===== verification/Continuation_Claim.thy ===== *)
theory Continuation_Claim
  imports Wait_Cleanup
begin

text \<open>
  \<^verbatim>\<open>src/src/domain/workflows/continuation_claim.ts\<close>, the store of its claims in
  \<^verbatim>\<open>src/src/infrastructure/persistence/control_plane_continuation_claim_store.ts\<close> and
  \<^verbatim>\<open>src/src/domain/workflows/run_continuation.ts\<close>: who may resume a suspended run.

  The claims are those of one suspension of one run, by generation; a content that cannot be read is \<open>None\<close>.
  Each call of the store takes effect at once.
\<close>

section \<open>Claims\<close>

definition CONTINUATION_CLAIM_PREFIX :: string where
  "CONTINUATION_CLAIM_PREFIX = ''continuations/''"

definition CONTINUATION_CLAIM_MAX_BYTES :: nat where
  "CONTINUATION_CLAIM_MAX_BYTES = 4096"

record continuation_claim =
  cc_runId :: string
  cc_suspensionKey :: string
  cc_generation :: nat
  cc_holder :: string
  cc_claimedAt :: time

definition serveHolder :: "string \<Rightarrow> string" where
  "serveHolder instanceId = ''serve:'' @ instanceId"

definition serveInstanceOf :: "string \<Rightarrow> string option" where
  "serveInstanceOf holder =
     (if take (length ''serve:'') holder = ''serve:'' \<and> length ''serve:'' < length holder
      then Some (drop (length ''serve:'') holder) else None)"

text \<open>The pattern of a run id ignores case; \<open>None\<close> is the error of a part that is not valid.\<close>

definition is_run_id :: "string \<Rightarrow> bool" where
  "is_run_id i \<longleftrightarrow> UUID_test (map to_lower i)"

definition is_suspension_key :: "string \<Rightarrow> bool" where
  "is_suspension_key k \<longleftrightarrow> length k = 64 \<and> list_all is_hex_lower k"

definition continuationRunPrefix :: "string \<Rightarrow> string option" where
  "continuationRunPrefix runId =
     (if is_run_id runId then Some (CONTINUATION_CLAIM_PREFIX @ map to_lower runId @ ''/'') else None)"

definition continuationSuspensionPrefix :: "string \<Rightarrow> string \<Rightarrow> string option" where
  "continuationSuspensionPrefix runId suspensionKey =
     (if \<not> is_suspension_key suspensionKey then None
      else map_option (\<lambda>p. p @ suspensionKey @ ''/'') (continuationRunPrefix runId))"

definition continuationClaimKey :: "string \<Rightarrow> string \<Rightarrow> nat \<Rightarrow> string option" where
  "continuationClaimKey runId suspensionKey generation =
     (if generation < 1 then None
      else map_option (\<lambda>p. p @ nat_text generation) (continuationSuspensionPrefix runId suspensionKey))"

text \<open>\<open>parse\<close> is \<^verbatim>\<open>JSON.parse\<close> followed by the schema of a claim.\<close>

definition decodeContinuationClaim ::
  "(string \<Rightarrow> continuation_claim option) \<Rightarrow> string option \<Rightarrow> string \<Rightarrow> string \<Rightarrow> nat \<Rightarrow> continuation_claim option" where
  "decodeContinuationClaim parse bytes runId suspensionKey generation =
     (case bytes of
        None \<Rightarrow> None
      | Some bs \<Rightarrow>
          if CONTINUATION_CLAIM_MAX_BYTES < length bs then None
          else case parse bs of
                 None \<Rightarrow> None
               | Some c \<Rightarrow>
                   if map to_lower (cc_runId c) = map to_lower runId \<and> cc_suspensionKey c = suspensionKey \<and>
                      cc_generation c = generation then Some c else None)"

text \<open>What the key of a suspension is a digest of; \<open>digest\<close> is the hexadecimal SHA-256 of it.\<close>

type_synonym suspended_step =
  "string \<times> string \<times> run_status \<times> time option \<times> time option \<times> string option \<times> time option"

definition suspended_steps :: "workflow_run \<Rightarrow> suspended_step list" where
  "suspended_steps run =
     map (\<lambda>(job, s). (job, sr_stepName s, sr_status s, sr_startedAt s, sr_completedAt s,
                      map_option sw_id (signalWait s), map_option ad_decidedAt (sr_approvalDecision s))) (all_steps run)"

definition suspensionKeyOf :: "(string \<times> wf_status \<times> suspended_step list \<Rightarrow> string) \<Rightarrow> workflow_run \<Rightarrow> string" where
  "suspensionKeyOf digest run = digest (r_id run, r_status run, suspended_steps run)"

section \<open>The store\<close>

type_synonym claim_store = "(nat \<times> continuation_claim option) list"

text \<open>The highest generation that can be read.\<close>

definition find_claim :: "claim_store \<Rightarrow> continuation_claim option" where
  "find_claim st =
     (case List.map_filter (\<lambda>g. case stored st g of Found c \<Rightarrow> Some c | _ \<Rightarrow> None) (rev (sort (map fst st))) of
        [] \<Rightarrow> None
      | c # _ \<Rightarrow> Some c)"

definition create_claim :: "continuation_claim \<Rightarrow> claim_store \<Rightarrow> claim_store \<times> bool" where
  "create_claim c st = (create_once (cc_generation c) c st, stored st (cc_generation c) = Absent)"

definition release_claim :: "continuation_claim \<Rightarrow> claim_store \<Rightarrow> claim_store" where
  "release_claim c st = filter (\<lambda>gc. fst gc \<noteq> cc_generation c) st"

text \<open>
  Removing works on the keys of the whole store. \<open>Inl\<close> is a failure of a run; the others are still tried,
  and the first failure is the answer.
\<close>

definition removeForRun :: "string \<Rightarrow> (string \<times> 'b) list \<Rightarrow> (string \<times> 'b) list option" where
  "removeForRun runId kvs = map_option (\<lambda>p. filter (\<lambda>kv. take (length p) (fst kv) \<noteq> p) kvs) (continuationRunPrefix runId)"

fun removeClaimsOfRuns :: "(string \<Rightarrow> 's \<Rightarrow> 's \<times> 'e option) \<Rightarrow> string list \<Rightarrow> 's \<Rightarrow> 's \<times> 'e option" where
  "removeClaimsOfRuns remove [] st = (st, None)"
| "removeClaimsOfRuns remove (runId # runIds) st =
     (if \<not> is_run_id runId then removeClaimsOfRuns remove runIds st
      else case remove runId st of
             (st', failure) \<Rightarrow>
               (case removeClaimsOfRuns remove runIds st' of
                  (st'', later) \<Rightarrow> (st'', case failure of Some e \<Rightarrow> Some e | None \<Rightarrow> later)))"

text \<open>A claim key reads back its generation, and the prefix of a run starts no key of another run.\<close>

lemma last_js_split: "last (js_split c (p @ c # s)) = last (js_split c s)"
proof (induction p)
  case (Cons x p)
  obtain q qs where qs: "js_split c (p @ c # s) = q # qs" by (meson js_split_nonempty list.exhaust)
  moreover from qs have "c \<in> set q \<or> qs \<noteq> []" using js_split_join [of c "p @ c # s"] by (cases qs) auto
  moreover have "c \<notin> set q" using js_split_no_sep [of q c "p @ c # s"] qs by simp
  ultimately show ?case using Cons by auto
qed simp

lemma generation_of_claim_key:
  assumes "continuationClaimKey runId k g = Some key" and "g \<le> MAX_SAFE_INTEGER"
  shows "generationFromKey key = Some g"
proof -
  from assms(1) obtain p where key: "key = p @ CHR ''/'' # nat_text g" and g: "1 \<le> g"
    by (auto simp: continuationClaimKey_def continuationSuspensionPrefix_def split: if_splits)
  have "last (js_split CHR ''/'' key) = last (js_split CHR ''/'' (nat_text g))"
    unfolding key by (rule last_js_split)
  then have "generationFromKey key = generationFromKey (nat_text g)" by (simp add: generationFromKey_def)
  with g assms(2) show ?thesis by (simp add: generationFromKey_nat_text requirePositiveInteger_def)
qed

lemma run_prefix_separates:
  assumes "continuationRunPrefix a = Some p" and "continuationClaimKey b k g = Some key"
  shows "(take (length p) key = p) = (map to_lower a = map to_lower b)"
proof -
  from assms have len: "length (map to_lower a) = length (map to_lower b)"
    by (auto simp: continuationRunPrefix_def continuationClaimKey_def continuationSuspensionPrefix_def
        is_run_id_def UUID_test_def split: if_splits)
  from assms have keys: "p = CONTINUATION_CLAIM_PREFIX @ map to_lower a @ ''/''"
    "key = CONTINUATION_CLAIM_PREFIX @ map to_lower b @ ''/'' @ k @ ''/'' @ nat_text g"
    by (auto simp: continuationRunPrefix_def continuationClaimKey_def continuationSuspensionPrefix_def split: if_splits)
  show ?thesis
    unfolding keys using len by auto
qed

theorem removeForRun_removes_one_run:
  assumes "removeForRun a kvs = Some kvs'" and "continuationClaimKey b k g = Some key"
  shows "map_of kvs' key = (if map to_lower a = map to_lower b then None else map_of kvs key)"
proof -
  from assms(1) obtain p where p: "continuationRunPrefix a = Some p" "kvs' = filter (\<lambda>kv. take (length p) (fst kv) \<noteq> p) kvs"
    by (auto simp: removeForRun_def)
  have "map_of (filter (\<lambda>kv. take (length p) (fst kv) \<noteq> p) kvs) key = (if take (length p) key = p then None else map_of kvs key)"
    by (induction kvs) auto
  with p run_prefix_separates [OF p(1) assms(2)] show ?thesis by simp
qed

text \<open>Every run is tried, whatever fails.\<close>

theorem removeClaimsOfRuns_tries_all:
  "fst (removeClaimsOfRuns remove runIds st) = fold (\<lambda>i s. fst (remove i s)) (filter is_run_id runIds) st"
  by (induction runIds arbitrary: st) (auto simp: split_def)

section \<open>Liveness of holders\<close>

datatype holder_liveness = Alive | Dead | Unknown_liveness

definition CONTINUATION_HOLDER_STALE_MS :: int where
  "CONTINUATION_HOLDER_STALE_MS = 90000"

definition HOLDER_STALE_MAX_MS :: int where
  "HOLDER_STALE_MAX_MS = 86400000"

record heartbeat =
  hb_stopped :: bool
  hb_heartbeatAt :: "time option"
  hb_staleTtlMs :: "int option"

text \<open>
  A heartbeat as read: a failed read, no record, one that is not JSON, or its fields; an instant that is
  not a date is absent.
\<close>

datatype heartbeat_read = Read_failed | No_heartbeat | Not_json | Heartbeat heartbeat

definition is_instance_id :: "string \<Rightarrow> bool" where
  "is_instance_id i \<longleftrightarrow> i \<noteq> [] \<and>
     list_all (\<lambda>c. is_lower c \<or> is_upper c \<or> is_digit c \<or> c = CHR ''_'' \<or> c = CHR ''-'') i"

definition heartbeatLiveness :: "(string \<Rightarrow> heartbeat_read) \<Rightarrow> int \<Rightarrow> time \<Rightarrow> string \<Rightarrow> holder_liveness" where
  "heartbeatLiveness heartbeat_of staleMs now holder =
     (case serveInstanceOf holder of
        None \<Rightarrow> Unknown_liveness
      | Some i \<Rightarrow>
          if \<not> is_instance_id i then Unknown_liveness
          else case heartbeat_of i of
                 Read_failed \<Rightarrow> Unknown_liveness
               | No_heartbeat \<Rightarrow> Dead
               | Not_json \<Rightarrow> Dead
               | Heartbeat hb \<Rightarrow>
                   if hb_stopped hb then Dead
                   else case hb_heartbeatAt hb of
                          None \<Rightarrow> Dead
                        | Some beat \<Rightarrow>
                            let ttl = (case hb_staleTtlMs hb of
                                         Some t \<Rightarrow> if 0 < t \<and> t \<le> HOLDER_STALE_MAX_MS then t else staleMs
                                       | None \<Rightarrow> staleMs) in
                            if now - beat > ttl then Dead else Alive)"

section \<open>Acquiring a continuation\<close>

datatype continuation_mode = Manual | Automatic bool

definition replaces :: "continuation_mode \<Rightarrow> holder_liveness \<Rightarrow> bool" where
  "replaces mode l = (case mode of Manual \<Rightarrow> l \<noteq> Alive | Automatic takeover \<Rightarrow> l = Dead \<and> takeover)"

datatype continuation_acquisition =
    Continued continuation_claim
  | Continuation_held continuation_claim holder_liveness

record continuation_request =
  cq_runId :: string
  cq_suspensionKey :: string
  cq_holder :: string
  cq_mode :: continuation_mode
  cq_now :: time

definition own_claim :: "continuation_request \<Rightarrow> nat \<Rightarrow> continuation_claim" where
  "own_claim rq generation =
     \<lparr>cc_runId = cq_runId rq, cc_suspensionKey = cq_suspensionKey rq, cc_generation = generation,
      cc_holder = cq_holder rq, cc_claimedAt = cq_now rq\<rparr>"

text \<open>Where \<^verbatim>\<open>acquireContinuation\<close> is between two calls; \<open>Judge\<close> asks for the liveness of a holder.\<close>

datatype continue_pc =
    Find_claim
  | Create_first
  | Find_again
  | Judge continuation_claim
  | Create_next continuation_claim
  | Find_winner nat
  | Judge_winner continuation_claim
  | Continue_done continuation_acquisition

definition judge_current :: "continuation_request \<Rightarrow> continuation_claim \<Rightarrow> continue_pc" where
  "judge_current rq c = (if cc_holder c = cq_holder rq then Continue_done (Continued c) else Judge c)"

fun continue_move :: "(string \<Rightarrow> holder_liveness) \<Rightarrow> continuation_request \<Rightarrow> claim_store \<Rightarrow> continue_pc \<Rightarrow> claim_store \<times> continue_pc" where
  "continue_move liveness rq st Find_claim =
     (st, case find_claim st of None \<Rightarrow> Create_first | Some c \<Rightarrow> judge_current rq c)"
| "continue_move liveness rq st Create_first =
     (case create_claim (own_claim rq 1) st of
        (st', created) \<Rightarrow> (st', if created then Continue_done (Continued (own_claim rq 1)) else Find_again))"
| "continue_move liveness rq st Find_again =
     (st, case find_claim st of
            None \<Rightarrow> Continue_done (Continuation_held (own_claim rq 1) Unknown_liveness)
          | Some c \<Rightarrow> judge_current rq c)"
| "continue_move liveness rq st (Judge c) =
     (st, let l = liveness (cc_holder c) in
          if replaces (cq_mode rq) l then Create_next c else Continue_done (Continuation_held c l))"
| "continue_move liveness rq st (Create_next c) =
     (let next = own_claim rq (cc_generation c + 1) in
      case create_claim next st of
        (st', created) \<Rightarrow> (st', if created then Continue_done (Continued next) else Find_winner (cc_generation c + 1)))"
| "continue_move liveness rq st (Find_winner g) =
     (st, case find_claim st of
            None \<Rightarrow> Continue_done (Continuation_held (own_claim rq g) Unknown_liveness)
          | Some w \<Rightarrow> Judge_winner w)"
| "continue_move liveness rq st (Judge_winner w) = (st, Continue_done (Continuation_held w (liveness (cc_holder w))))"
| "continue_move liveness rq st (Continue_done a) = (st, Continue_done a)"

fun continue_left :: "continue_pc \<Rightarrow> nat" where
  "continue_left Find_claim = 7"
| "continue_left Create_first = 6"
| "continue_left Find_again = 5"
| "continue_left (Judge c) = 4"
| "continue_left (Create_next c) = 3"
| "continue_left (Find_winner g) = 2"
| "continue_left (Judge_winner w) = 1"
| "continue_left (Continue_done a) = 0"

lemma continue_move_progress:
  "continue_move liveness rq st pc = (st', pc') \<Longrightarrow> (\<And>a. pc \<noteq> Continue_done a) \<Longrightarrow> continue_left pc' < continue_left pc"
  by (cases pc) (auto simp: judge_current_def Let_def create_claim_def split: option.splits if_splits)

text \<open>\<^verbatim>\<open>acquireContinuation\<close> when no other process calls the store meanwhile.\<close>

function continue_run ::
  "(string \<Rightarrow> holder_liveness) \<Rightarrow> continuation_request \<Rightarrow> claim_store \<Rightarrow> continue_pc \<Rightarrow> claim_store \<times> continuation_acquisition" where
  "continue_run liveness rq st pc =
     (case pc of
        Continue_done a \<Rightarrow> (st, a)
      | _ \<Rightarrow> (case continue_move liveness rq st pc of (st', pc') \<Rightarrow> continue_run liveness rq st' pc'))"
  by pat_completeness auto
termination
  by (relation "measure (\<lambda>(_, _, _, pc). continue_left pc)") (auto simp del: continue_move.simps continue_left.simps
      split: prod.split intro: continue_move_progress)

declare continue_run.simps [simp del]

definition acquireContinuation ::
  "(string \<Rightarrow> holder_liveness) \<Rightarrow> claim_store \<Rightarrow> continuation_request \<Rightarrow> claim_store \<times> continuation_acquisition" where
  "acquireContinuation liveness st rq = continue_run liveness rq st Find_claim"

section \<open>Whether a run may be continued\<close>

datatype continuation_block =
    Not_suspended | Steps_running | Gate_undecided | Nested_run | Wait_unsettled | Wait_unreadable | Run_ended

fun blocked_wait :: "(string \<Rightarrow> wait_outcome stored_wait_record) \<Rightarrow> signal_wait option list \<Rightarrow> continuation_block option" where
  "blocked_wait outcome_of [] = None"
| "blocked_wait outcome_of (w # ws) =
     (case w of
        None \<Rightarrow> Some Wait_unreadable
      | Some w \<Rightarrow>
          (case outcome_of (sw_id w) of
             Absent \<Rightarrow> Some Wait_unsettled
           | Unreadable \<Rightarrow> Some Wait_unreadable
           | Found (Cancelled_wait _ _) \<Rightarrow> Some Run_ended
           | Found _ \<Rightarrow> blocked_wait outcome_of ws))"

text \<open>\<open>None\<close> is resumable.\<close>

definition decideContinuation :: "workflow_run \<Rightarrow> (string \<Rightarrow> wait_outcome stored_wait_record) \<Rightarrow> continuation_block option" where
  "decideContinuation run outcome_of =
     (if r_status run \<noteq> R_suspended then Some Not_suspended
      else if list_ex (\<lambda>(_, s). sr_status s = Running) (all_steps run) then Some Steps_running
      else if findWaitingApprovalStep run \<noteq> None then Some Gate_undecided
      else if findNestedWaits run \<noteq> [] then Some Nested_run
      else blocked_wait outcome_of (map (\<lambda>(_, _, w). w) (findSignalWaits run)))"

text \<open>A run is resumable exactly when it is suspended, nothing of it runs or waits for a person or a nested run, and every signal wait has an outcome other than cancelled.\<close>

lemma blocked_wait_None:
  "blocked_wait outcome_of ws = None \<longleftrightarrow>
     (\<forall>w\<in>set ws. \<exists>sw out. w = Some sw \<and> outcome_of (sw_id sw) = Found out \<and> (\<forall>s t. out \<noteq> Cancelled_wait s t))"
proof (induction ws)
  case (Cons w ws)
  show ?case
  proof (cases w)
    case (Some sw)
    show ?thesis
    proof (cases "outcome_of (sw_id sw)")
      case (Found out)
      with Some Cons.IH show ?thesis by (cases out) auto
    qed (use Some in auto)
  qed auto
qed simp

theorem decideContinuation_resumable:
  "decideContinuation run outcome_of = None \<longleftrightarrow>
     r_status run = R_suspended \<and> (\<forall>(_, s)\<in>set (all_steps run). sr_status s \<noteq> Running) \<and>
     findWaitingApprovalStep run = None \<and> findNestedWaits run = [] \<and>
     (\<forall>(_, _, w)\<in>set (findSignalWaits run).
        \<exists>sw out. w = Some sw \<and> outcome_of (sw_id sw) = Found out \<and> (\<forall>s t. out \<noteq> Cancelled_wait s t))"
  unfolding decideContinuation_def
  by (cases "findWaitingApprovalStep run") (simp_all add: blocked_wait_None list_ex_iff split_def)

text \<open>
  With no other process at the store: the first to ask is given generation 1, the holder is given its own
  claim again, and anyone else is refused or, when the mode allows it for the liveness of the holder, given
  the next generation if it is free.
\<close>

theorem acquireContinuation_without_rivals:
  "find_claim st = None \<Longrightarrow> stored st 1 = Absent \<Longrightarrow>
     acquireContinuation liveness st rq = (create_once 1 (own_claim rq 1) st, Continued (own_claim rq 1))"
  "find_claim st = Some c \<Longrightarrow> cc_holder c = cq_holder rq \<Longrightarrow> acquireContinuation liveness st rq = (st, Continued c)"
  "find_claim st = Some c \<Longrightarrow> cc_holder c \<noteq> cq_holder rq \<Longrightarrow> \<not> replaces (cq_mode rq) (liveness (cc_holder c)) \<Longrightarrow>
     acquireContinuation liveness st rq = (st, Continuation_held c (liveness (cc_holder c)))"
  "find_claim st = Some c \<Longrightarrow> cc_holder c \<noteq> cq_holder rq \<Longrightarrow> replaces (cq_mode rq) (liveness (cc_holder c)) \<Longrightarrow>
     stored st (cc_generation c + 1) = Absent \<Longrightarrow>
     acquireContinuation liveness st rq =
       (create_once (cc_generation c + 1) (own_claim rq (cc_generation c + 1)) st,
        Continued (own_claim rq (cc_generation c + 1)))"
  by (simp_all add: acquireContinuation_def continue_run.simps judge_current_def create_claim_def own_claim_def Let_def)

section \<open>Processes that resume a run\<close>

datatype continue_proc = Continue_idle | Continuing continuation_request continue_pc

text \<open>
  The judgements that a claim may be replaced are kept as they are made: the claim and the liveness its
  holder was found to have.
\<close>

record continue_config =
  cg_store :: claim_store
  cg_procs :: "nat \<Rightarrow> continue_proc"
  cg_judged :: "(continuation_claim \<times> holder_liveness) set"

fun judgement :: "(string \<Rightarrow> holder_liveness) \<Rightarrow> continuation_request \<Rightarrow> continue_pc \<Rightarrow> (continuation_claim \<times> holder_liveness) set" where
  "judgement liveness rq (Judge c) = (if replaces (cq_mode rq) (liveness (cc_holder c)) then {(c, liveness (cc_holder c))} else {})"
| "judgement liveness rq _ = {}"

text \<open>
  \<open>holder_of\<close> names the processes. A process that was given the continuation may release its claim, and
  is then done with it.
\<close>

inductive continue_step :: "(nat \<Rightarrow> string) \<Rightarrow> continue_config \<Rightarrow> continue_config \<Rightarrow> bool" for holder_of where
  ask: "cg_procs cf i = Continue_idle \<Longrightarrow> cq_holder rq = holder_of i \<Longrightarrow>
    continue_step holder_of cf (cf\<lparr>cg_procs := (cg_procs cf)(i := Continuing rq Find_claim)\<rparr>)"
| move: "cg_procs cf i = Continuing rq pc \<Longrightarrow> continue_move liveness rq (cg_store cf) pc = (st', pc') \<Longrightarrow>
    continue_step holder_of cf
      (cf\<lparr>cg_store := st', cg_procs := (cg_procs cf)(i := Continuing rq pc'),
          cg_judged := cg_judged cf \<union> judgement liveness rq pc\<rparr>)"
| release: "cg_procs cf i = Continuing rq (Continue_done (Continued c)) \<Longrightarrow>
    continue_step holder_of cf (cf\<lparr>cg_store := release_claim c (cg_store cf), cg_procs := (cg_procs cf)(i := Continue_idle)\<rparr>)"
| refused: "cg_procs cf i = Continuing rq (Continue_done (Continuation_held c l)) \<Longrightarrow>
    continue_step holder_of cf (cf\<lparr>cg_procs := (cg_procs cf)(i := Continue_idle)\<rparr>)"

definition continue_start :: continue_config where
  "continue_start = \<lparr>cg_store = [], cg_procs = (\<lambda>_. Continue_idle), cg_judged = {}\<rparr>"

definition continues :: "continue_config \<Rightarrow> nat \<Rightarrow> continuation_claim \<Rightarrow> bool" where
  "continues cf i c \<longleftrightarrow> (\<exists>rq. cg_procs cf i = Continuing rq (Continue_done (Continued c)))"

section \<open>Two that continue\<close>

text \<open>Every generation below was judged replaceable.\<close>

definition judged_below :: "(continuation_claim \<times> holder_liveness) set \<Rightarrow> nat \<Rightarrow> bool" where
  "judged_below judged g \<longleftrightarrow> (\<forall>h. 1 \<le> h \<and> h < g \<longrightarrow> (\<exists>e l. (e, l) \<in> judged \<and> cc_generation e = h \<and> l \<noteq> Alive))"

definition in_store :: "claim_store \<Rightarrow> continuation_claim \<Rightarrow> bool" where
  "in_store st c \<longleftrightarrow> stored st (cc_generation c) = Found c"

definition claims_ok :: "(continuation_claim \<times> holder_liveness) set \<Rightarrow> claim_store \<Rightarrow> bool" where
  "claims_ok judged st \<longleftrightarrow> (\<forall>g c. stored st g = Found c \<longrightarrow> cc_generation c = g \<and> 1 \<le> g \<and> judged_below judged g)"

fun continue_ok :: "(continuation_claim \<times> holder_liveness) set \<Rightarrow> claim_store \<Rightarrow> string \<Rightarrow> continue_pc \<Rightarrow> bool" where
  "continue_ok judged st holder (Judge c) \<longleftrightarrow> judged_below judged (cc_generation c)"
| "continue_ok judged st holder (Create_next c) \<longleftrightarrow> judged_below judged (cc_generation c + 1)"
| "continue_ok judged st holder (Continue_done (Continued c)) \<longleftrightarrow> in_store st c \<and> cc_holder c = holder"
| "continue_ok judged st holder _ \<longleftrightarrow> True"

definition continue_inv :: "(nat \<Rightarrow> string) \<Rightarrow> continue_config \<Rightarrow> bool" where
  "continue_inv holder_of cf \<longleftrightarrow> claims_ok (cg_judged cf) (cg_store cf) \<and>
     (\<forall>i rq pc. cg_procs cf i = Continuing rq pc \<longrightarrow>
        cq_holder rq = holder_of i \<and> continue_ok (cg_judged cf) (cg_store cf) (holder_of i) pc)"

lemma judged_below_mono: "judged_below judged g \<Longrightarrow> judged \<subseteq> judged' \<Longrightarrow> judged_below judged' g"
  unfolding judged_below_def by blast

lemma judged_below_Suc:
  "judged_below judged g \<Longrightarrow> (e, l) \<in> judged \<Longrightarrow> cc_generation e = g \<Longrightarrow> l \<noteq> Alive \<Longrightarrow> judged_below judged (g + 1)"
  unfolding judged_below_def by (metis less_antisym Suc_eq_plus1)

lemma find_claim_stored: "find_claim st = Some c \<Longrightarrow> \<exists>g. stored st g = Found c"
proof -
  have "h \<in> set (List.map_filter f xs) \<Longrightarrow> \<exists>x. f x = Some h" for f and xs :: "nat list" and h :: continuation_claim
    by (induction xs) (auto simp: List.map_filter_simps split: option.splits)
  moreover assume "find_claim st = Some c"
  then have "c \<in> set (List.map_filter (\<lambda>g. case stored st g of Found c \<Rightarrow> Some c | _ \<Rightarrow> None) (rev (sort (map fst st))))"
    by (auto simp: find_claim_def split: list.splits)
  ultimately obtain g where "(case stored st g of Found c \<Rightarrow> Some c | _ \<Rightarrow> None) = Some c" by blast
  then show ?thesis by (cases "stored st g") auto
qed

lemma found_claim_ok:
  assumes "claims_ok judged st" and "find_claim st = Some c" and "cq_holder rq = holder"
  shows "continue_ok judged st holder (judge_current rq c)"
  using find_claim_stored [OF assms(2)] assms(1,3)
  by (auto simp: claims_ok_def judge_current_def in_store_def)

lemma claims_ok_create:
  assumes "claims_ok judged st" and "judged_below judged (cc_generation c)" and "1 \<le> cc_generation c"
  shows "claims_ok judged (create_once (cc_generation c) c st)"
  using assms by (auto simp: claims_ok_def stored_create_once split: if_splits)

lemma continue_ok_mono:
  assumes "continue_ok judged st holder pc" and "judged \<subseteq> judged'" and "\<And>c. in_store st c \<Longrightarrow> in_store st' c"
  shows "continue_ok judged' st' holder pc"
proof (cases "(judged, st, holder, pc)" rule: continue_ok.cases)
qed (use assms judged_below_mono in auto)

lemma claims_ok_mono: "claims_ok judged st \<Longrightarrow> judged \<subseteq> judged' \<Longrightarrow> claims_ok judged' st"
  unfolding claims_ok_def using judged_below_mono by blast

lemma in_store_create: "in_store st d \<Longrightarrow> in_store (create_once g c st) d"
  by (auto simp: in_store_def stored_create_once)

text \<open>One call keeps what is known of the store and of the process that makes it.\<close>

lemma continue_move_ok:
  assumes "claims_ok judged st" and "continue_ok judged st (cq_holder rq) pc" and "continue_move liveness rq st pc = (st', pc')"
  shows "claims_ok (judged \<union> judgement liveness rq pc) st' \<and> continue_ok (judged \<union> judgement liveness rq pc) st' (cq_holder rq) pc' \<and>
    (\<forall>c. in_store st c \<longrightarrow> in_store st' c)"
proof (cases pc)
  case Find_claim
  with assms show ?thesis by (auto simp: found_claim_ok split: option.splits)
next
  case Create_first
  have "judged_below judged (cc_generation (own_claim rq 1))" by (simp add: own_claim_def judged_below_def)
  moreover have "1 \<le> cc_generation (own_claim rq 1)" by (simp add: own_claim_def)
  ultimately have "claims_ok judged (create_once (cc_generation (own_claim rq 1)) (own_claim rq 1) st)"
    by (rule claims_ok_create [OF assms(1)])
  with Create_first assms(3) show ?thesis
    by (auto simp: create_claim_def in_store_create in_store_def stored_create_once own_claim_def)
next
  case Find_again
  with assms show ?thesis by (auto simp: found_claim_ok split: option.splits)
next
  case (Judge c)
  let ?l = "liveness (cc_holder c)"
  show ?thesis
  proof (cases "replaces (cq_mode rq) ?l")
    case True
    then have "?l \<noteq> Alive" by (auto simp: replaces_def split: continuation_mode.splits)
    with assms(2) Judge have "judged_below (judged \<union> {(c, ?l)}) (cc_generation c + 1)"
      by (intro judged_below_Suc [of _ _ c ?l]) (auto intro: judged_below_mono)
    with True Judge assms claims_ok_mono [OF assms(1), of "judged \<union> {(c, ?l)}"] show ?thesis by auto
  next
    case False
    with Judge assms show ?thesis by auto
  qed
next
  case (Create_next c)
  then have "judged_below judged (cc_generation (own_claim rq (cc_generation c + 1)))"
    using assms(2) by (simp add: own_claim_def)
  moreover have "1 \<le> cc_generation (own_claim rq (cc_generation c + 1))" by (simp add: own_claim_def)
  ultimately have "claims_ok judged (create_once (cc_generation (own_claim rq (cc_generation c + 1)))
      (own_claim rq (cc_generation c + 1)) st)"
    by (rule claims_ok_create [OF assms(1)])
  with Create_next assms(3) show ?thesis
    by (auto simp: create_claim_def Let_def in_store_create in_store_def stored_create_once own_claim_def)
qed (use assms in \<open>auto split: option.splits\<close>)

lemma continued_in_store:
  assumes "continue_inv holder_of cf" and "cg_procs cf i = Continuing rq (Continue_done (Continued c))"
  shows "in_store (cg_store cf) c" "cc_holder c = holder_of i"
proof -
  from assms have "continue_ok (cg_judged cf) (cg_store cf) (holder_of i) (Continue_done (Continued c))"
    unfolding continue_inv_def by blast
  then show "in_store (cg_store cf) c" "cc_holder c = holder_of i" by simp_all
qed

lemma continue_inv_step:
  assumes "inj holder_of" and "continue_step holder_of cf cf'" and "continue_inv holder_of cf"
  shows "continue_inv holder_of cf'"
  using assms(2)
proof cases
  case (ask i rq)
  with assms(3) show ?thesis by (auto simp: continue_inv_def)
next
  case (move i rq pc liveness st' pc')
  from assms(3) move(2) have ok: "claims_ok (cg_judged cf) (cg_store cf)" "cq_holder rq = holder_of i"
    "continue_ok (cg_judged cf) (cg_store cf) (cq_holder rq) pc" by (auto simp: continue_inv_def)
  from continue_move_ok [OF ok(1,3) move(3)] have
    moved: "claims_ok (cg_judged cf \<union> judgement liveness rq pc) st'"
      "continue_ok (cg_judged cf \<union> judgement liveness rq pc) st' (holder_of i) pc'"
      "\<And>c. in_store (cg_store cf) c \<Longrightarrow> in_store st' c"
    using ok(2) by auto
  have others: "continue_ok (cg_judged cf \<union> judgement liveness rq pc) st' holder q"
    if "continue_ok (cg_judged cf) (cg_store cf) holder q" for holder q
    by (rule continue_ok_mono [OF that _ moved(3)]) auto
  show ?thesis
    unfolding move(1) continue_inv_def using moved(1,2) ok(2) assms(3) others by (auto simp: continue_inv_def)
next
  case (release i rq c)
  note own = continued_in_store [OF assms(3) release(2)]
  have reads: "stored (release_claim c (cg_store cf)) g = (if g = cc_generation c then Absent else stored (cg_store cf) g)" for g
    by (simp add: release_claim_def stored_filter)
  have "continue_ok (cg_judged cf) (release_claim c (cg_store cf)) (holder_of j) q"
    if "j \<noteq> i" "continue_ok (cg_judged cf) (cg_store cf) (holder_of j) q" for j q
  proof (cases "\<exists>d. q = Continue_done (Continued d)")
    case True
    then obtain d where d: "q = Continue_done (Continued d)" by blast
    have "cc_generation d \<noteq> cc_generation c"
      using that d own assms(1) by (auto simp: in_store_def dest: injD)
    with that d show ?thesis by (simp add: in_store_def reads)
  next
    case False
    with that(2) show ?thesis
      by (cases "(cg_judged cf, cg_store cf, holder_of j, q)" rule: continue_ok.cases) auto
  qed
  moreover have "claims_ok (cg_judged cf) (release_claim c (cg_store cf))"
    using assms(3) by (auto simp: continue_inv_def claims_ok_def reads)
  ultimately show ?thesis
    unfolding release(1) using assms(3) by (auto simp: continue_inv_def)
next
  case (refused i rq c l)
  with assms(3) show ?thesis by (auto simp: continue_inv_def)
qed

lemma continue_inv_reachable:
  assumes "inj holder_of" and "(continue_step holder_of)\<^sup>*\<^sup>* continue_start cf"
  shows "continue_inv holder_of cf"
  using assms(2)
proof (induction rule: rtranclp_induct)
  case base
  show ?case by (simp add: continue_inv_def continue_start_def claims_ok_def stored_def)
qed (rule continue_inv_step [OF assms(1)])

text \<open>C6.
  However processes with different names interleave in resuming a suspension and in giving it back, two that
  both hold the continuation hold it in different generations, and a claim of the lower generation was
  judged replaceable, its holder not known to be alive then. While every holder is alive, or nobody takes
  over, at most one process resumes the run.
\<close>

theorem continuation_held_once:
  assumes "inj holder_of" and "(continue_step holder_of)\<^sup>*\<^sup>* continue_start cf"
    and "continues cf i c" and "continues cf j d" and "i \<noteq> j"
  shows "cc_generation c \<noteq> cc_generation d \<and>
    (\<exists>e l. (e, l) \<in> cg_judged cf \<and> cc_generation e = min (cc_generation c) (cc_generation d) \<and> l \<noteq> Alive)"
proof -
  have inv: "continue_inv holder_of cf" by (rule continue_inv_reachable [OF assms(1,2)])
  then have ok: "claims_ok (cg_judged cf) (cg_store cf)" by (simp add: continue_inv_def)
  from assms(3,4) continued_in_store [OF inv] have held: "in_store (cg_store cf) c" "cc_holder c = holder_of i"
    "in_store (cg_store cf) d" "cc_holder d = holder_of j" unfolding continues_def by blast+
  have differ: "cc_generation c \<noteq> cc_generation d"
  proof
    assume "cc_generation c = cc_generation d"
    with held(1,3) have "Found c = Found d" unfolding in_store_def by metis
    with held(2,4) have "holder_of i = holder_of j" by simp
    with assms(1,5) show False by (simp add: inj_eq)
  qed
  have sound: "1 \<le> cc_generation x \<and> judged_below (cg_judged cf) (cc_generation x)" if "in_store (cg_store cf) x" for x
    using ok that unfolding claims_ok_def in_store_def by blast
  have "judged_below (cg_judged cf) (max (cc_generation c) (cc_generation d))"
    using sound [OF held(1)] sound [OF held(3)] by (simp add: max_def)
  moreover have "1 \<le> min (cc_generation c) (cc_generation d)"
    using sound [OF held(1)] sound [OF held(3)] by simp
  moreover have "min (cc_generation c) (cc_generation d) < max (cc_generation c) (cc_generation d)"
    using differ by (simp add: min_def max_def)
  ultimately show ?thesis
    using differ unfolding judged_below_def by blast
qed

text \<open>A resume by serve that stopped, taken over by hand.\<close>

definition demo_continuation :: "nat \<Rightarrow> continuation_request" where
  "demo_continuation i =
     \<lparr>cq_runId = ''r'', cq_suspensionKey = ''s'', cq_holder = (if i = 0 then serveHolder ''a'' else ''local:'' @ nat_text i),
      cq_mode = Manual, cq_now = int i\<rparr>"

datatype continue_event = Ask nat | Call nat holder_liveness | Give_back nat

fun apply_continue_event :: "continue_event \<Rightarrow> continue_config \<Rightarrow> continue_config option" where
  "apply_continue_event (Ask i) cf =
     (case cg_procs cf i of
        Continue_idle \<Rightarrow> Some (cf\<lparr>cg_procs := (cg_procs cf)(i := Continuing (demo_continuation i) Find_claim)\<rparr>)
      | _ \<Rightarrow> None)"
| "apply_continue_event (Call i l) cf =
     (case cg_procs cf i of
        Continuing rq pc \<Rightarrow>
          (case continue_move (\<lambda>_. l) rq (cg_store cf) pc of
             (st', pc') \<Rightarrow> Some (cf\<lparr>cg_store := st', cg_procs := (cg_procs cf)(i := Continuing rq pc'),
                                   cg_judged := cg_judged cf \<union> judgement (\<lambda>_. l) rq pc\<rparr>))
      | _ \<Rightarrow> None)"
| "apply_continue_event (Give_back i) cf =
     (case cg_procs cf i of
        Continuing rq (Continue_done (Continued c)) \<Rightarrow>
          Some (cf\<lparr>cg_store := release_claim c (cg_store cf), cg_procs := (cg_procs cf)(i := Continue_idle)\<rparr>)
      | _ \<Rightarrow> None)"

fun continue_events :: "continue_event list \<Rightarrow> continue_config \<Rightarrow> continue_config option" where
  "continue_events [] cf = Some cf"
| "continue_events (ev # evs) cf = (case apply_continue_event ev cf of None \<Rightarrow> None | Some cf' \<Rightarrow> continue_events evs cf')"

lemma continue_event_step: "apply_continue_event ev cf = Some cf' \<Longrightarrow> continue_step (cq_holder \<circ> demo_continuation) cf cf'"
proof (cases ev)
  case (Ask i)
  moreover assume "apply_continue_event ev cf = Some cf'"
  ultimately show ?thesis
    by (auto split: continue_proc.splits intro!: continue_step.ask)
next
  case (Call i l)
  moreover assume "apply_continue_event ev cf = Some cf'"
  ultimately show ?thesis
    by (auto split: continue_proc.splits prod.splits intro!: continue_step.move)
next
  case (Give_back i)
  moreover assume "apply_continue_event ev cf = Some cf'"
  ultimately show ?thesis
    by (auto split: continue_proc.splits continue_pc.splits continuation_acquisition.splits intro!: continue_step.release)
qed

lemma continue_events_steps:
  "continue_events evs cf = Some cf' \<Longrightarrow> (continue_step (cq_holder \<circ> demo_continuation))\<^sup>*\<^sup>* cf cf'"
  by (induction evs arbitrary: cf)
    (auto split: option.splits intro: converse_rtranclp_into_rtranclp continue_event_step)

lemma demo_holders: "inj (cq_holder \<circ> demo_continuation)"
proof (rule injI)
  have "nat_text i = nat_text j \<Longrightarrow> i = j" for i j by (metis digits_value_nat_text)
  then show "(cq_holder \<circ> demo_continuation) i = (cq_holder \<circ> demo_continuation) j \<Longrightarrow> i = j" for i j
    by (auto simp: demo_continuation_def serveHolder_def split: if_splits)
qed

definition continued_by :: "nat \<Rightarrow> continue_config \<Rightarrow> nat" where
  "continued_by i cf =
     (case cg_procs cf i of Continuing _ (Continue_done (Continued c)) \<Rightarrow> cc_generation c | _ \<Rightarrow> 0)"

lemma continued_by_continues: "0 < continued_by i cf \<Longrightarrow> \<exists>c. continues cf i c \<and> cc_generation c = continued_by i cf"
  by (auto simp: continued_by_def continues_def split: continue_proc.splits continue_pc.splits continuation_acquisition.splits)

theorem continuation_held_once_witness:
  "\<exists>cf c d. (continue_step (cq_holder \<circ> demo_continuation))\<^sup>*\<^sup>* continue_start cf \<and> continues cf 0 c \<and> continues cf 1 d \<and>
     (\<exists>e l. (e, l) \<in> cg_judged cf \<and> cc_generation e = 1 \<and> l \<noteq> Alive)"
proof -
  let ?evs = "[Ask 0, Call 0 Alive, Call 0 Alive, Ask 1, Call 1 Dead, Call 1 Dead, Call 1 Dead]"
  have "map_option (\<lambda>cf. (continued_by 0 cf, continued_by 1 cf)) (continue_events ?evs continue_start) = Some (1, 2)"
    by code_simp
  then obtain cf where cf: "continue_events ?evs continue_start = Some cf" "continued_by 0 cf = 1" "continued_by 1 cf = 2" by auto
  from continued_by_continues [of 0 cf] continued_by_continues [of 1 cf] cf obtain c d where
    held: "continues cf 0 c" "cc_generation c = 1" "continues cf 1 d" "cc_generation d = 2" by auto
  note steps = continue_events_steps [OF cf(1)]
  from continuation_held_once [OF demo_holders steps held(1,3)] held steps show ?thesis by auto
qed

text \<open>
  The claim that was judged need not be the one that is held: when the judged holder gives its claim back,
  another process may create the generation again before the judge creates the next one, and both hold the
  continuation although neither was judged.
\<close>

lemma released_claim_opens_gap:
  "\<exists>cf c d. (continue_step (cq_holder \<circ> demo_continuation))\<^sup>*\<^sup>* continue_start cf \<and> continues cf 1 d \<and> continues cf 2 c \<and>
     (\<forall>(e, l)\<in>cg_judged cf. cc_holder e \<noteq> cc_holder c \<and> cc_holder e \<noteq> cc_holder d)"
proof -
  let ?evs = "[Ask 0, Call 0 Alive, Call 0 Alive, Ask 1, Call 1 Dead, Call 1 Dead, Give_back 0,
    Ask 2, Call 2 Alive, Call 2 Alive, Call 1 Dead]"
  let ?h = "\<lambda>i. cq_holder (demo_continuation i)"
  have "map_option (\<lambda>cf. 0 < continued_by 1 cf \<and> 0 < continued_by 2 cf \<and>
      (\<forall>(e, l)\<in>cg_judged cf. cc_holder e \<noteq> ?h 1 \<and> cc_holder e \<noteq> ?h 2)) (continue_events ?evs continue_start) = Some True"
    by code_simp
  then obtain cf where cf: "continue_events ?evs continue_start = Some cf" "0 < continued_by 1 cf" "0 < continued_by 2 cf"
    "\<forall>(e, l)\<in>cg_judged cf. cc_holder e \<noteq> ?h 1 \<and> cc_holder e \<noteq> ?h 2" by auto
  from continued_by_continues [OF cf(2)] continued_by_continues [OF cf(3)] obtain c d where
    held: "continues cf 1 d" "continues cf 2 c" by blast
  note steps = continue_events_steps [OF cf(1)]
  have "cc_holder d = ?h 1" "cc_holder c = ?h 2"
    using continued_in_store(2) [OF continue_inv_reachable [OF demo_holders steps]] held by (auto simp: continues_def)
  with cf(4) have "\<forall>(e, l)\<in>cg_judged cf. cc_holder e \<noteq> cc_holder c \<and> cc_holder e \<noteq> cc_holder d" by fastforce
  with held steps show ?thesis by blast
qed

end
