(* ===== verification/Model_Type.thy ===== *)
theory Model_Type
  imports Js_Text "HOL-Library.Sublist"
begin

text \<open>
  \<^verbatim>\<open>src/src/domain/models/model_type.ts\<close> and \<^verbatim>\<open>control_plane_types.ts\<close>: how the name
  of a model type is brought to one spelling, and which types are the control plane's own.

  A regular expression replacement is the function that scans the string from the left as the
  expression does. Strings are UTF-8 bytes, and \<open>to_lower\<close> lowers ASCII letters.
\<close>

section \<open>Normalization\<close>

text \<open>\<^verbatim>\<open>replace(/::/g, "/")\<close>.\<close>

fun colons_to_slash :: "string \<Rightarrow> string" where
  "colons_to_slash (c # d # cs) =
     (if c = CHR '':'' \<and> d = CHR '':'' then CHR ''/'' # colons_to_slash cs else c # colons_to_slash (d # cs))"
| "colons_to_slash cs = cs"

text \<open>\<^verbatim>\<open>replace(/\s+/g, "/")\<close>.\<close>

function spaces_to_slash :: "string \<Rightarrow> string" where
  "spaces_to_slash s =
     (if s = [] then []
      else if leading_space js_spaces s = 0 then hd s # spaces_to_slash (tl s)
      else CHR ''/'' # spaces_to_slash (strip_leading js_spaces (drop (leading_space js_spaces s) s)))"
  by pat_completeness auto
termination
proof (relation "measure length", goal_cases)
  case (3 s)
  have "length (strip_leading js_spaces (drop (leading_space js_spaces s) s)) \<le> length (drop (leading_space js_spaces s) s)"
    by (rule length_strip_leading)
  moreover have "0 < length s" "0 < leading_space js_spaces s" using 3 by auto
  ultimately show ?case unfolding length_drop in_measure by linarith
qed auto

declare spaces_to_slash.simps [simp del]

text \<open>\<^verbatim>\<open>replace(/\./g, "/")\<close> and \<^verbatim>\<open>replace(/\/+/g, "/")\<close>.\<close>

definition dots_to_slash :: "string \<Rightarrow> string" where
  "dots_to_slash = map (\<lambda>c. if c = CHR ''.'' then CHR ''/'' else c)"

fun one_slash :: "string \<Rightarrow> string" where
  "one_slash (c # d # cs) =
     (if c = CHR ''/'' \<and> d = CHR ''/'' then one_slash (d # cs) else c # one_slash (d # cs))"
| "one_slash cs = cs"

text \<open>\<^verbatim>\<open>replace(/^\/|\/$/g, "")\<close>: one slash at either end.\<close>

definition trim_slash :: "string \<Rightarrow> string" where
  "trim_slash s =
     (let t = (if s \<noteq> [] \<and> hd s = CHR ''/'' then tl s else s) in
      if t \<noteq> [] \<and> last t = CHR ''/'' then butlast t else t)"

definition normalize :: "string \<Rightarrow> string" where
  "normalize raw = trim_slash (one_slash (dots_to_slash (spaces_to_slash (colons_to_slash (map to_lower raw)))))"

text \<open>\<open>None\<close> where \<^verbatim>\<open>ModelType.create\<close> throws.\<close>

record model_type =
  mt_raw :: string
  mt_normalized :: string

definition create_model_type :: "string \<Rightarrow> model_type option" where
  "create_model_type rawType =
     (let trimmed = js_trim rawType in
      if trimmed = [] then None
      else let normalized = normalize trimmed in
        if normalized = [] then None else Some \<lparr>mt_raw = trimmed, mt_normalized = normalized\<rparr>)"

section \<open>Namespaces\<close>

definition isUserNamespace :: "string \<Rightarrow> bool" where
  "isUserNamespace normalized = prefix ''@'' normalized"

definition getUserNamespace :: "string \<Rightarrow> string option" where
  "getUserNamespace normalized =
     (if \<not> isUserNamespace normalized then None else Some (takeWhile (\<lambda>c. c \<noteq> CHR ''/'') (drop 1 normalized)))"

definition getSegmentCount :: "string \<Rightarrow> nat" where
  "getSegmentCount normalized =
     length (filter (\<lambda>s. s \<noteq> []) (js_split CHR ''/'' (if isUserNamespace normalized then drop 1 normalized else normalized)))"

definition RESERVED_COLLECTIVES :: "string list" where
  "RESERVED_COLLECTIVES = [''swamp'', ''si'']"

definition isReservedCollective :: "string \<Rightarrow> bool" where
  "isReservedCollective normalized \<longleftrightarrow>
     (if isUserNamespace normalized
      then (case getUserNamespace normalized of None \<Rightarrow> False | Some ns \<Rightarrow> ns \<in> set RESERVED_COLLECTIVES)
      else takeWhile (\<lambda>c. c \<noteq> CHR ''/'') normalized \<in> set RESERVED_COLLECTIVES)"

section \<open>The control plane's types\<close>

definition CONTROL_PLANE_MODEL_TYPES :: "string list" where
  "CONTROL_PLANE_MODEL_TYPES =
     [''swamp/enrollment-token'', ''swamp/worker'', ''swamp/step-lease'', ''swamp/pending-dispatch'',
      ''swamp/fleet-probe'', ''swamp/server-token'', ''swamp/grant'', ''swamp/group'']"

definition CONTROL_PLANE_STORED_TYPES :: "string list" where
  "CONTROL_PLANE_STORED_TYPES = concat (map (\<lambda>t. [t, ''@'' @ t]) CONTROL_PLANE_MODEL_TYPES)"

text \<open>\<^verbatim>\<open>replace(/^[@/]+/, "")\<close>.\<close>

definition strip_at :: "string \<Rightarrow> string" where
  "strip_at = dropWhile (\<lambda>c. c = CHR ''@'' \<or> c = CHR ''/'')"

definition normalizeModelTypeName :: "string \<Rightarrow> string option" where
  "normalizeModelTypeName type =
     (case create_model_type type of
        None \<Rightarrow> None
      | Some t \<Rightarrow>
          let stripped = strip_at (mt_normalized t) in
          if 0 < length stripped then Some stripped else None)"

definition isControlPlaneModelType :: "string \<Rightarrow> bool" where
  "isControlPlaneModelType type \<longleftrightarrow>
     (case normalizeModelTypeName type of None \<Rightarrow> False | Some n \<Rightarrow> n \<in> set CONTROL_PLANE_MODEL_TYPES)"

section \<open>What normalization leaves\<close>

text \<open>
  Each replacement keeps characters or puts a slash for what it takes out, so a word without a
  slash that stands in its result stood in its argument.
\<close>

inductive thinned :: "string \<Rightarrow> string \<Rightarrow> bool" where
  thin_nil: "thinned [] s"
| thin_keep: "thinned t s \<Longrightarrow> thinned (c # t) (c # s)"
| thin_cut: "thinned t s' \<Longrightarrow> suffix s' s \<Longrightarrow> thinned (CHR ''/'' # t) s"

inductive_cases thinned_slashE: "thinned (CHR ''/'' # t) s"

lemma thinned_prefix: "thinned t s \<Longrightarrow> CHR ''/'' \<notin> set w \<Longrightarrow> prefix w t \<Longrightarrow> prefix w s"
proof (induction arbitrary: w rule: thinned.induct)
  case (thin_keep t s c)
  then show ?case by (cases w) auto
next
  case (thin_cut t s' s)
  then show ?case by (cases w) auto
qed simp

lemma thinned_word: "thinned t s \<Longrightarrow> CHR ''/'' \<notin> set w \<Longrightarrow> sublist w t \<Longrightarrow> sublist w s"
proof (induction rule: thinned.induct)
  case (thin_keep t s c)
  have "thinned (c # t) (c # s)" using thin_keep.hyps by (rule thinned.thin_keep)
  then show ?case
    using thin_keep thinned_prefix by (auto simp: sublist_Cons_right)
next
  case (thin_cut t s' s)
  then have "w = [] \<or> sublist w t" by (cases w) (auto simp: sublist_Cons_right)
  then show ?case using thin_cut sublist_order.order.trans suffix_imp_sublist by blast
qed simp

lemma thinned_slash_mono: "thinned (CHR ''/'' # t) s \<Longrightarrow> suffix s r \<Longrightarrow> thinned (CHR ''/'' # t) r"
  by (erule thinned_slashE) (auto intro: thin_cut suffix_order.trans suffix_ConsI dest: suffix_ConsD)

lemma thinned_colons: "thinned (colons_to_slash s) s"
proof (induction s rule: colons_to_slash.induct)
  case (1 c d cs)
  then show ?case by (auto intro: thinned.intros suffix_ConsI)
qed (auto intro: thinned.intros)

lemma suffix_strip_leading: "suffix (strip_leading spaces s) s"
proof (induction spaces s rule: strip_leading.induct)
  case (1 spaces s)
  then show ?case by (subst strip_leading.simps) (auto intro: suffix_order.trans suffix_drop)
qed

lemma thinned_spaces: "thinned (spaces_to_slash s) s"
proof (induction s rule: spaces_to_slash.induct)
  case (1 s)
  consider "s = []" | "s \<noteq> []" "leading_space js_spaces s = 0" | "s \<noteq> []" "leading_space js_spaces s \<noteq> 0" by blast
  then show ?case
  proof cases
    case 2
    then have "thinned (hd s # spaces_to_slash (tl s)) (hd s # tl s)" by (intro thin_keep "1.IH"(1))
    then show ?thesis using 2 by (subst spaces_to_slash.simps) simp
  next
    case 3
    have "suffix (strip_leading js_spaces (drop (leading_space js_spaces s) s)) s"
      using suffix_strip_leading suffix_drop suffix_order.trans by blast
    then have "thinned (CHR ''/'' # spaces_to_slash (strip_leading js_spaces (drop (leading_space js_spaces s) s))) s"
      using "1.IH"(2) [OF 3] by (rule thin_cut [rotated])
    then show ?thesis using 3 by (subst spaces_to_slash.simps) simp
  qed (simp add: spaces_to_slash.simps thin_nil)
qed

lemma thinned_dots: "thinned (dots_to_slash s) s"
  by (induction s) (auto simp: dots_to_slash_def intro: thinned.intros suffix_ConsI)

lemma one_slash_head: "\<exists>t. one_slash (CHR ''/'' # cs) = CHR ''/'' # t"
  by (induction "CHR ''/'' # cs" arbitrary: cs rule: one_slash.induct) auto

lemma thinned_one_slash: "thinned (one_slash s) s"
proof (induction s rule: one_slash.induct)
  case (1 c d cs)
  show ?case
  proof (cases "c = CHR ''/'' \<and> d = CHR ''/''")
    case True
    then obtain t where "one_slash (d # cs) = CHR ''/'' # t" using one_slash_head by blast
    moreover have "suffix (d # cs) (c # d # cs)" by (simp add: suffix_ConsI)
    ultimately have "thinned (one_slash (d # cs)) (c # d # cs)" using 1(1) [OF True] thinned_slash_mono by metis
    then show ?thesis using True by simp
  next
    case False
    then show ?thesis using 1(2) [OF False] by (auto intro: thin_keep)
  qed
qed (auto intro: thinned.intros)

lemma sublist_trim_slash: "sublist (trim_slash s) s"
proof -
  have "sublist (butlast t) t" "sublist (tl t) t" for t :: string
    by (simp_all add: prefix_imp_sublist suffix_imp_sublist prefixeq_butlast suffix_tl)
  then show ?thesis unfolding trim_slash_def Let_def using sublist_order.order.trans by auto
qed

lemma trim_slash_ends:
  assumes "\<not> sublist ''//'' s" and "trim_slash s \<noteq> []"
  shows "hd (trim_slash s) \<noteq> CHR ''/''" and "last (trim_slash s) \<noteq> CHR ''/''"
proof -
  let ?t = "if s \<noteq> [] \<and> hd s = CHR ''/'' then tl s else s"
  have "hd ?t \<noteq> CHR ''/''" if "?t \<noteq> []"
  proof (cases "s \<noteq> [] \<and> hd s = CHR ''/''")
    case True
    then obtain r where r: "s = CHR ''/'' # r" by (cases s) auto
    then have "r \<noteq> []" using that by simp
    then show ?thesis using assms(1) r by (cases r) auto
  qed (use that in auto)
  moreover have "last (butlast t) \<noteq> CHR ''/''" if "\<not> sublist ''//'' t" "last t = CHR ''/''" "butlast t \<noteq> []" for t :: string
  proof
    assume "last (butlast t) = CHR ''/''"
    then have "t = butlast (butlast t) @ ''//''"
      using that(2,3) append_butlast_last_id [of t] append_butlast_last_id [of "butlast t"] by (metis append.assoc append_Cons append_Nil butlast.simps(1))
    then show False using that(1) by (metis sublist_appendI append_Nil2)
  qed
  moreover have "\<not> sublist ''//'' ?t"
    using assms(1) suffix_imp_sublist [OF suffix_tl] sublist_order.order.trans by auto
  moreover have "hd (butlast t) = hd t" if "butlast t \<noteq> []" for t :: string
    using that by (cases t) auto
  ultimately show "hd (trim_slash s) \<noteq> CHR ''/''" "last (trim_slash s) \<noteq> CHR ''/''"
    using assms(2) unfolding trim_slash_def Let_def by (smt (verit) butlast.simps(1))+
qed

lemma one_slash_no_pair: "\<not> sublist ''//'' (one_slash s)"
proof (induction s rule: one_slash.induct)
  case (1 c d cs)
  show ?case
  proof (cases "c = CHR ''/'' \<and> d = CHR ''/''")
    case False
    have "hd (one_slash (d # cs)) = d" by (induction "d # cs" arbitrary: d cs rule: one_slash.induct) auto
    then show ?thesis using False 1(2) [OF False] by (auto simp: sublist_Cons_right prefix_Cons) (cases "one_slash (d # cs)"; simp)
  qed (use 1(1) in simp)
qed (auto simp: sublist_Cons_right)

lemma colons_no_pair: "\<not> sublist ''::'' (colons_to_slash s)"
proof (induction s rule: colons_to_slash.induct)
  case (1 c d cs)
  show ?case
  proof (cases "c = CHR '':'' \<and> d = CHR '':''")
    case True
    then show ?thesis using 1(1) [OF True] by (auto simp: sublist_Cons_right prefix_Cons)
  next
    case False
    have "hd (colons_to_slash (d # cs)) = CHR '':'' \<Longrightarrow> d = CHR '':''"
      by (cases cs) (auto split: if_splits)
    then show ?thesis using False 1(2) [OF False]
      by (cases "colons_to_slash (d # cs)") (auto simp: sublist_Cons_right prefix_Cons)
  qed
qed (auto simp: sublist_Cons_right)

text \<open>A spelling that normalization leaves alone.\<close>

definition normal_spelling :: "string \<Rightarrow> bool" where
  "normal_spelling s \<longleftrightarrow>
     list_all (\<lambda>c. \<not> is_upper c \<and> c \<noteq> CHR ''.'') s \<and> \<not> sublist ''::'' s \<and> \<not> sublist ''//'' s \<and>
     (\<forall>w \<in> set js_spaces. \<not> sublist w s) \<and>
     (s \<noteq> [] \<longrightarrow> hd s \<noteq> CHR ''/'' \<and> last s \<noteq> CHR ''/'')"

lemma thinned_set: "thinned t s \<Longrightarrow> set t \<subseteq> insert (CHR ''/'') (set s)"
  by (induction rule: thinned.induct) (auto dest: set_mono_suffix)

lemma js_spaces_word: "w \<in> set js_spaces \<Longrightarrow> w \<noteq> [] \<and> CHR ''/'' \<notin> set w"
  by (auto simp: js_spaces_def)

lemma leading_space_prefix: "w \<in> set js_spaces \<Longrightarrow> prefix w s \<Longrightarrow> leading_space js_spaces s \<noteq> 0"
proof
  assume w: "w \<in> set js_spaces" "prefix w s" and 0: "leading_space js_spaces s = 0"
  have "take (length w) s = w" using w(2) by (auto simp: prefix_def)
  then have "find (\<lambda>w. take (length w) s = w) js_spaces \<noteq> None" using w(1) by (auto simp: find_None_iff)
  then obtain v where "find (\<lambda>w. take (length w) s = w) js_spaces = Some v" by auto
  then show False using 0 js_spaces_word find_Some_in_set by (fastforce simp: leading_space_def)
qed

lemma spaces_gone: "w \<in> set js_spaces \<Longrightarrow> \<not> sublist w (spaces_to_slash s)"
proof (induction s rule: spaces_to_slash.induct)
  case (1 s)
  note w = js_spaces_word [OF "1.prems"]
  consider "s = []" | "s \<noteq> []" "leading_space js_spaces s = 0" | "s \<noteq> []" "leading_space js_spaces s \<noteq> 0" by blast
  then show ?case
  proof cases
    case 1
    then show ?thesis using w by (simp add: spaces_to_slash.simps)
  next
    case 2
    have "\<not> prefix w (spaces_to_slash s)"
      using leading_space_prefix [OF "1.prems"] 2(2) thinned_prefix [OF thinned_spaces] w by blast
    then show ?thesis using "1.IH"(1) [OF 2 "1.prems"] 2
      by (subst spaces_to_slash.simps, subst (asm) spaces_to_slash.simps) (simp add: sublist_Cons_right)
  next
    case 3
    then show ?thesis using "1.IH"(2) [OF 3 "1.prems"] w
      by (subst spaces_to_slash.simps) (cases w; auto simp: sublist_Cons_right)
  qed
qed

lemma to_lower_not_upper: "\<not> is_upper (to_lower c)"
  by (cases "is_upper c") (auto simp: to_lower_def is_upper_def between_def)

lemma slash_not_upper: "\<not> is_upper CHR ''/'' \<and> CHR ''/'' \<noteq> CHR ''.''"
  by (simp add: is_upper_def between_def)

lemma normalize_normal: "normal_spelling (normalize raw)"
proof -
  let ?l = "map to_lower raw" and ?c = "colons_to_slash (map to_lower raw)"
  let ?s = "spaces_to_slash ?c" let ?d = "dots_to_slash ?s" let ?o = "one_slash ?d"
  have n: "normalize raw = trim_slash ?o" by (simp add: normalize_def)
  have word: "\<not> sublist w (trim_slash ?o)" if "CHR ''/'' \<notin> set w" "\<not> sublist w ?s" for w
    using that thinned_word [OF thinned_dots] thinned_word [OF thinned_one_slash]
      sublist_order.order.trans [OF _ sublist_trim_slash] by blast
  have colons: "\<not> sublist ''::'' ?s"
    using thinned_word [OF thinned_spaces, of "''::''" ?c] colons_no_pair by auto
  have "set ?s \<subseteq> insert (CHR ''/'') (set ?l)"
    using thinned_set [OF thinned_spaces, of ?c] thinned_set [OF thinned_colons, of ?l] by auto
  then have "\<forall>x \<in> set ?s. \<not> is_upper x" using to_lower_not_upper slash_not_upper by fastforce
  then have "\<forall>x \<in> set ?d. \<not> is_upper x \<and> x \<noteq> CHR ''.''"
    using slash_not_upper by (auto simp only: dots_to_slash_def set_map split: if_splits)
  then have "\<forall>x \<in> set ?o. \<not> is_upper x \<and> x \<noteq> CHR ''.''"
    using thinned_set [OF thinned_one_slash, of ?d] slash_not_upper by blast
  then have chars: "list_all (\<lambda>x. \<not> is_upper x \<and> x \<noteq> CHR ''.'') (trim_slash ?o)"
    using set_mono_sublist [OF sublist_trim_slash, of ?o] by (auto simp: list_all_iff)
  have pairs: "\<not> sublist ''//'' (trim_slash ?o)"
    using one_slash_no_pair sublist_order.order.trans [OF _ sublist_trim_slash] by blast
  show ?thesis
    unfolding n normal_spelling_def
    using chars pairs word [OF _ colons] word [OF _ spaces_gone] js_spaces_word trim_slash_ends [OF one_slash_no_pair]
    by auto
qed

lemma normal_spelling_suffix: "normal_spelling s \<Longrightarrow> suffix t s \<Longrightarrow> t = [] \<or> hd t \<noteq> CHR ''/'' \<Longrightarrow> normal_spelling t"
proof -
  assume n: "normal_spelling s" and t: "suffix t s" and h: "t = [] \<or> hd t \<noteq> CHR ''/''"
  have "\<not> sublist w t" if "\<not> sublist w s" for w
    using that sublist_order.order.trans [OF _ suffix_imp_sublist [OF t]] by blast
  moreover have "last t = last s" if "t \<noteq> []" using t that by (auto simp: suffix_def)
  moreover have "s \<noteq> []" if "t \<noteq> []" using t that by auto
  ultimately show "normal_spelling t"
    using n h set_mono_suffix [OF t] by (auto simp: normal_spelling_def list_all_iff)
qed

lemma colons_id: "\<not> sublist ''::'' s \<Longrightarrow> colons_to_slash s = s"
  by (induction s rule: colons_to_slash.induct) (auto simp: sublist_Cons_right)

lemma one_slash_id: "\<not> sublist ''//'' s \<Longrightarrow> one_slash s = s"
  by (induction s rule: one_slash.induct) (auto simp: sublist_Cons_right)

lemma no_leading_space:
  assumes "\<forall>w \<in> set spaces. \<not> sublist w s"
  shows "leading_space spaces s = 0"
proof -
  have "take (length w) s \<noteq> w" if "w \<in> set spaces" for w
    using assms that prefix_imp_sublist take_is_prefix by metis
  then have "find (\<lambda>w. take (length w) s = w) spaces = None" by (simp add: find_None_iff)
  then show ?thesis by (simp add: leading_space_def)
qed

lemma spaces_id: "\<forall>w \<in> set js_spaces. \<not> sublist w s \<Longrightarrow> spaces_to_slash s = s"
proof (induction s)
  case (Cons c cs)
  have "\<forall>w \<in> set js_spaces. \<not> sublist w cs" using Cons.prems by (auto simp: sublist_Cons_right)
  then show ?case
    using Cons.IH no_leading_space [OF Cons.prems] by (subst spaces_to_slash.simps) simp
qed (simp add: spaces_to_slash.simps)

lemma js_trim_no_space:
  assumes "\<forall>w \<in> set js_spaces. \<not> sublist w s"
  shows "js_trim s = s"
proof -
  have "leading_space js_spaces s = 0" using assms by (rule no_leading_space)
  moreover have "leading_space (map rev js_spaces) (rev s) = 0"
    by (rule no_leading_space) (use assms in \<open>auto simp: sublist_rev\<close>)
  ultimately show ?thesis by (simp add: js_trim_def strip_leading_0)
qed

lemma normal_spelling_fixed:
  assumes "normal_spelling s" and "s \<noteq> []"
  shows "create_model_type s = Some \<lparr>mt_raw = s, mt_normalized = s\<rparr>"
proof -
  have "map to_lower s = s"
    using assms(1) by (intro map_idI) (auto simp: normal_spelling_def list_all_iff to_lower_def)
  moreover have "dots_to_slash s = s"
    unfolding dots_to_slash_def by (intro map_idI) (use assms(1) in \<open>auto simp: normal_spelling_def list_all_iff\<close>)
  moreover have "trim_slash s = s" using assms by (auto simp: trim_slash_def normal_spelling_def Let_def)
  ultimately have "normalize s = s"
    using assms(1) by (simp add: normalize_def normal_spelling_def colons_id spaces_id one_slash_id)
  moreover have "js_trim s = s" using assms(1) by (simp add: normal_spelling_def js_trim_no_space)
  ultimately show ?thesis using assms(2) by (simp add: create_model_type_def Let_def)
qed

lemma create_model_type_normal:
  "create_model_type t = Some m \<Longrightarrow> normal_spelling (mt_normalized m) \<and> mt_normalized m \<noteq> []"
  using normalize_normal by (auto simp: create_model_type_def Let_def split: if_splits)

lemma set_js_trim: "set (js_trim s) \<subseteq> set s"
  using set_mono_suffix [OF suffix_strip_leading [of js_spaces s]]
    set_mono_suffix [OF suffix_strip_leading [of "map rev js_spaces" "rev (strip_leading js_spaces s)"]]
  by (auto simp: js_trim_def)

lemma set_create_model_type:
  assumes "create_model_type s = Some m"
  shows "set (mt_normalized m) \<subseteq> insert CHR ''/'' (to_lower ` set s)"
proof -
  let ?c = "colons_to_slash (map to_lower (js_trim s))"
  have "mt_normalized m = trim_slash (one_slash (dots_to_slash (spaces_to_slash ?c)))"
    using assms by (auto simp: create_model_type_def Let_def normalize_def split: if_splits)
  then have "set (mt_normalized m) \<subseteq> set (one_slash (dots_to_slash (spaces_to_slash ?c)))"
    using set_mono_sublist [OF sublist_trim_slash] by simp
  also have "\<dots> \<subseteq> insert CHR ''/'' (set ?c)"
    using thinned_set [OF thinned_one_slash, of "dots_to_slash (spaces_to_slash ?c)"]
      thinned_set [OF thinned_dots, of "spaces_to_slash ?c"] thinned_set [OF thinned_spaces, of ?c] by auto
  also have "\<dots> \<subseteq> insert CHR ''/'' (to_lower ` set s)"
    using thinned_set [OF thinned_colons, of "map to_lower (js_trim s)"] set_js_trim [of s] by auto
  finally show ?thesis .
qed

lemma strip_at_normal: "normal_spelling s \<Longrightarrow> normal_spelling (strip_at s)"
proof (rule normal_spelling_suffix)
  show "suffix (strip_at s) s" unfolding strip_at_def by (rule suffix_dropWhile)
  show "strip_at s = [] \<or> hd (strip_at s) \<noteq> CHR ''/''"
    unfolding strip_at_def using hd_dropWhile [of "\<lambda>c. c = CHR ''@'' \<or> c = CHR ''/''" s] by blast
qed

lemma strip_at_idem [simp]: "strip_at (strip_at s) = strip_at s"
  by (simp add: strip_at_def)

lemma normalizeModelTypeName_normal:
  "normalizeModelTypeName t = Some n \<Longrightarrow> normal_spelling n \<and> n \<noteq> [] \<and> strip_at n = n"
  using create_model_type_normal strip_at_normal
  by (auto simp: normalizeModelTypeName_def Let_def split: option.splits if_splits)

text \<open>
  A normalized type is a fixed point: normalizing what \<open>ModelType.create\<close> made of a name, or the key
  \<open>normalizeModelTypeName\<close> gives it, changes nothing, so two spellings can be compared by either. The
  key of a normalized name is the key of the name itself.
\<close>

theorem normalized_type_is_fixed:
  assumes "create_model_type t = Some m" and "normalizeModelTypeName t = Some n"
  shows "create_model_type (mt_normalized m) = Some \<lparr>mt_raw = mt_normalized m, mt_normalized = mt_normalized m\<rparr> \<and>
    normalizeModelTypeName n = Some n \<and> normalizeModelTypeName (mt_normalized m) = Some n"
proof (intro conjI)
  note m = create_model_type_normal [OF assms(1)] and n = normalizeModelTypeName_normal [OF assms(2)]
  show fixed: "create_model_type (mt_normalized m) = Some \<lparr>mt_raw = mt_normalized m, mt_normalized = mt_normalized m\<rparr>"
    using m normal_spelling_fixed by blast
  have "create_model_type n = Some \<lparr>mt_raw = n, mt_normalized = n\<rparr>" using n normal_spelling_fixed by blast
  then show "normalizeModelTypeName n = Some n" using n by (simp add: normalizeModelTypeName_def)
  show "normalizeModelTypeName (mt_normalized m) = Some n"
    using assms fixed by (simp add: normalizeModelTypeName_def)
qed

theorem normalized_type_is_fixed_witness:
  "create_model_type '' @AWS::EC2..VPC/'' = Some \<lparr>mt_raw = ''@AWS::EC2..VPC/'', mt_normalized = ''@aws/ec2/vpc''\<rparr> \<and>
   normalizeModelTypeName ''aws/ec2/vpc'' = Some ''aws/ec2/vpc''"
proof -
  have "create_model_type '' @AWS::EC2..VPC/'' = Some \<lparr>mt_raw = ''@AWS::EC2..VPC/'', mt_normalized = ''@aws/ec2/vpc''\<rparr>"
    "normalizeModelTypeName '' @AWS::EC2..VPC/'' = Some ''aws/ec2/vpc''"
    by code_simp+
  then show ?thesis using normalized_type_is_fixed by blast
qed

end
