(* ===== verification/Access_Policy.thy ===== *)
theory Access_Policy
  imports Model_Type "HOL-Library.AList"
begin

text \<open>
  The vocabulary of access decisions, from \<^verbatim>\<open>src/src/domain/access/\<close>: principals, subjects,
  clients, resource selectors (\<^verbatim>\<open>principal.ts\<close>, \<^verbatim>\<open>subject.ts\<close>, \<^verbatim>\<open>client.ts\<close>,
  \<^verbatim>\<open>resource_selector.ts\<close>), the grants and groups, and the snapshot of the policy that a
  decision reads (\<^verbatim>\<open>policy_snapshot.ts\<close>).

  A function that throws returns \<open>Inl\<close> of an error that says which check failed; the wording of the
  message is not modelled. Of a grant the fields that say where it came from are left out, since no
  decision reads them. The CEL evaluator of a condition is a parameter of the snapshot, and what it
  may answer is the datatype \<open>evaluation\<close>; its deadline only logs.
\<close>

section \<open>Names\<close>

datatype access_error = No_colon | Empty_name | Unknown_kind string | Unknown_service | Unknown_client | Inner_wildcard

datatype principal_kind = P_user | P_worker | P_service

record principal =
  pr_kind :: principal_kind
  pr_id :: string

datatype subject_kind = S_user | S_group | S_idp_group | S_collective | S_service

record subject =
  sb_kind :: subject_kind
  sb_name :: string

datatype resource_kind = K_workflow | K_model | K_data | K_access | K_vault

record resource_selector =
  rs_kind :: resource_kind
  rs_pattern :: string

datatype action = A_run | A_read | A_write | A_approve | A_signal | A_tag | A_admin

datatype effect = Allow | Deny

definition principal_kind_names :: "(string \<times> principal_kind) list" where
  "principal_kind_names = [(''user'', P_user), (''worker'', P_worker), (''service'', P_service)]"

definition subject_kind_names :: "(string \<times> subject_kind) list" where
  "subject_kind_names =
     [(''user'', S_user), (''group'', S_group), (''idp-group'', S_idp_group), (''collective'', S_collective),
      (''service'', S_service)]"

definition resource_kind_names :: "(string \<times> resource_kind) list" where
  "resource_kind_names =
     [(''workflow'', K_workflow), (''model'', K_model), (''data'', K_data), (''access'', K_access), (''vault'', K_vault)]"

text \<open>The name of a value in such a table.\<close>

definition name_in :: "(string \<times> 'k) list \<Rightarrow> 'k \<Rightarrow> string" where
  "name_in names k = (case find (\<lambda>p. snd p = k) names of Some p \<Rightarrow> fst p | None \<Rightarrow> [])"

text \<open>\<^verbatim>\<open>indexOf(":")\<close> with the two slices around it.\<close>

definition split_colon :: "string \<Rightarrow> (string \<times> string) option" where
  "split_colon value =
     (if CHR '':'' \<notin> set value then None
      else Some (takeWhile (\<lambda>c. c \<noteq> CHR '':'') value, drop 1 (dropWhile (\<lambda>c. c \<noteq> CHR '':'') value)))"

definition SERVICE_PRINCIPAL_IDS :: "string list" where
  "SERVICE_PRINCIPAL_IDS = [''scheduler'', ''webhook'']"

definition isServicePrincipalId :: "string \<Rightarrow> bool" where
  "isServicePrincipalId i \<longleftrightarrow> i \<in> set SERVICE_PRINCIPAL_IDS"

definition parsePrincipalOfKinds :: "string \<Rightarrow> principal_kind list \<Rightarrow> access_error + principal" where
  "parsePrincipalOfKinds value kinds =
     (case split_colon value of
        None \<Rightarrow> Inl No_colon
      | Some (kind, i) \<Rightarrow>
          if i = [] then Inl Empty_name
          else case map_of principal_kind_names kind of
            None \<Rightarrow> Inl (Unknown_kind kind)
          | Some k \<Rightarrow>
              if k \<notin> set kinds then Inl (Unknown_kind kind)
              else if k = P_service \<and> \<not> isServicePrincipalId i then Inl Unknown_service
              else Inr \<lparr>pr_kind = k, pr_id = i\<rparr>)"

definition parsePrincipal :: "string \<Rightarrow> access_error + principal" where
  "parsePrincipal value = parsePrincipalOfKinds value [P_user, P_worker, P_service]"

definition principalToString :: "principal \<Rightarrow> string" where
  "principalToString p = name_in principal_kind_names (pr_kind p) @ '':'' @ pr_id p"

definition isServicePrincipal :: "principal \<Rightarrow> bool" where
  "isServicePrincipal p \<longleftrightarrow> pr_kind p = P_service"

definition parseCredentialPrincipal :: "string \<Rightarrow> access_error + principal" where
  "parseCredentialPrincipal value =
     (if prefix ''service:'' value then Inl Unknown_service else parsePrincipalOfKinds value [P_user, P_worker])"

definition parseSubject :: "string \<Rightarrow> access_error + subject" where
  "parseSubject value =
     (case split_colon value of
        None \<Rightarrow> Inl No_colon
      | Some (kind, name) \<Rightarrow>
          if name = [] then Inl Empty_name
          else case map_of subject_kind_names kind of
            None \<Rightarrow> Inl (Unknown_kind kind)
          | Some k \<Rightarrow>
              if k = S_service \<and> \<not> isServicePrincipalId name then Inl Unknown_service
              else Inr \<lparr>sb_kind = k, sb_name = name\<rparr>)"

definition subjectToString :: "subject \<Rightarrow> string" where
  "subjectToString s = name_in subject_kind_names (sb_kind s) @ '':'' @ sb_name s"

section \<open>Clients\<close>

datatype client_kind = C_direct | C_integration

record client =
  cl_kind :: client_kind
  cl_id :: string

definition DIRECT_CLIENT_IDS :: "string list" where
  "DIRECT_CLIENT_IDS = [''cli'', ''dashboard'', ''token'']"

definition integration_id :: "string \<Rightarrow> bool" where
  "integration_id i \<longleftrightarrow>
     (case i of [] \<Rightarrow> False
      | c # cs \<Rightarrow> (is_lower c \<or> is_digit c) \<and> length cs \<le> 62 \<and>
                  list_all (\<lambda>d. is_lower d \<or> is_digit d \<or> d = CHR ''-'') cs)"

definition parseClient :: "string \<Rightarrow> access_error + client" where
  "parseClient value =
     (case split_colon value of
        None \<Rightarrow> Inl No_colon
      | Some (kind, i) \<Rightarrow>
          if kind = ''direct''
          then (if i \<notin> set DIRECT_CLIENT_IDS then Inl Unknown_client else Inr \<lparr>cl_kind = C_direct, cl_id = i\<rparr>)
          else if kind = ''integration''
          then (if \<not> integration_id i then Inl Unknown_client else Inr \<lparr>cl_kind = C_integration, cl_id = i\<rparr>)
          else Inl (Unknown_kind kind))"

definition clientToString :: "client \<Rightarrow> string" where
  "clientToString c = (case cl_kind c of C_direct \<Rightarrow> ''direct'' | C_integration \<Rightarrow> ''integration'') @ '':'' @ cl_id c"

definition ABSENT_CLIENT_CONDITION_VALUE :: string where
  "ABSENT_CLIENT_CONDITION_VALUE = ''direct:''"

definition clientConditionValue :: "string option \<Rightarrow> string" where
  "clientConditionValue client = or_else ABSENT_CLIENT_CONDITION_VALUE client"

section \<open>Resource selectors\<close>

definition canonicalResourceKind :: "string \<Rightarrow> string" where
  "canonicalResourceKind kind = (if kind = ''behavior'' then ''model'' else kind)"

definition parseResourceSelector :: "string \<Rightarrow> access_error + resource_selector" where
  "parseResourceSelector value =
     (case split_colon value of
        None \<Rightarrow> Inl No_colon
      | Some (kind0, pattern) \<Rightarrow>
          let kind = canonicalResourceKind kind0 in
          if pattern = [] then Inl Empty_name
          else case map_of resource_kind_names kind of
            None \<Rightarrow> Inl (Unknown_kind kind)
          | Some k \<Rightarrow>
              if CHR ''*'' \<in> set (butlast pattern) then Inl Inner_wildcard
              else Inr \<lparr>rs_kind = k, rs_pattern = pattern\<rparr>)"

definition resourceSelectorToString :: "resource_selector \<Rightarrow> string" where
  "resourceSelectorToString s = name_in resource_kind_names (rs_kind s) @ '':'' @ rs_pattern s"

definition canonicalResourceSelectorString :: "string \<Rightarrow> string" where
  "canonicalResourceSelectorString value =
     (case parseResourceSelector value of Inl _ \<Rightarrow> value | Inr s \<Rightarrow> resourceSelectorToString s)"

text \<open>\<^verbatim>\<open>endsWith("*")\<close>.\<close>

definition ends_star :: "string \<Rightarrow> bool" where
  "ends_star pattern \<longleftrightarrow> pattern \<noteq> [] \<and> last pattern = CHR ''*''"

definition resourceSelectorMatches :: "resource_selector \<Rightarrow> string \<Rightarrow> bool" where
  "resourceSelectorMatches selector resourceName =
     (let pattern = rs_pattern selector in
      if pattern = ''*'' then True
      else if ends_star pattern then prefix (butlast pattern) resourceName
      else pattern = resourceName)"

definition namesTypePath :: "string \<Rightarrow> bool" where
  "namesTypePath pattern =
     (let body = strip_at (if ends_star pattern then butlast pattern else pattern) in
      CHR ''/'' \<in> set body \<or> sublist ''::'' body)"

text \<open>\<^verbatim>\<open>TRAILING_TYPE_SEPARATOR\<close>: a slash, a dot, two colons or white space at the end.\<close>

definition trailing_separator :: "string \<Rightarrow> bool" where
  "trailing_separator s \<longleftrightarrow>
     list_ex (\<lambda>w. suffix w s) ([''/'', ''.'', ''::''] @ js_spaces)"

definition canonicalTypePattern :: "string \<Rightarrow> string option" where
  "canonicalTypePattern pattern =
     (if pattern = ''*'' then Some ''*''
      else
        let wildcard = ends_star pattern;
            pre = (if wildcard then butlast pattern else pattern) in
        case create_model_type pre of
          None \<Rightarrow> None
        | Some t \<Rightarrow>
            let normalized = mt_normalized t in
            if \<not> wildcard then Some normalized
            else if trailing_separator pre then Some (normalized @ ''/*'')
            else Some (normalized @ ''*''))"

definition typePatternMatchesIgnoringAt :: "string \<Rightarrow> string \<Rightarrow> bool" where
  "typePatternMatchesIgnoringAt canonicalPattern modelType =
     (if canonicalPattern = ''*'' then True
      else
        let wildcard = ends_star canonicalPattern;
            pre = strip_at (if wildcard then butlast canonicalPattern else canonicalPattern) in
        if CHR ''/'' \<notin> set pre
        then resourceSelectorMatches \<lparr>rs_kind = K_model, rs_pattern = canonicalPattern\<rparr> modelType
        else case normalizeModelTypeName modelType of
          None \<Rightarrow> False
        | Some type \<Rightarrow> if wildcard then prefix pre type else type = pre)"

section \<open>Grants, groups and the snapshot\<close>

datatype grant_state = Active | Revoked

record grant =
  g_id :: string
  g_subject :: subject
  g_effect :: effect
  g_actions :: "action list"
  g_resource :: resource_selector
  g_condition :: "string option"
  g_methods :: "string list option"
  g_state :: grant_state

record group =
  gp_name :: string
  gp_members :: "principal list"

record principal_context =
  pc_sub :: string
  pc_groups :: "string list"
  pc_collectives :: "string list"

type_synonym fields = "(string \<times> json) list"

datatype evaluation = Held bool | Missing_fields "string list" | Evaluation_failed

type_synonym condition_evaluator = "string \<Rightarrow> resource_kind \<Rightarrow> fields \<Rightarrow> principal_context \<Rightarrow> evaluation"

datatype condition_outcome = Match | No_match | Missing_field | Pending_outcome | Undecided | Error_outcome

text \<open>A \<^verbatim>\<open>Map\<close> from keys to arrays, filled by pushing to the array of a key.\<close>

definition push_to :: "'k \<Rightarrow> 'v \<Rightarrow> ('k \<times> 'v list) list \<Rightarrow> ('k \<times> 'v list) list" where
  "push_to k v m =
     (case map_of m k of Some vs \<Rightarrow> AList.update k (vs @ [v]) m | None \<Rightarrow> m @ [(k, [v])])"

definition pushed :: "('k \<times> 'v list) list \<Rightarrow> 'k \<Rightarrow> 'v list" where
  "pushed m k = or_else [] (map_of m k)"

record policy_snapshot =
  ps_grantsBySubject :: "(string \<times> grant list) list"
  ps_groupsByPrincipal :: "(string \<times> string list) list"
  ps_evaluateCondition :: condition_evaluator
  ps_grantKinds :: "resource_kind list"

definition alwaysFalse :: condition_evaluator where
  "alwaysFalse condition kind fs context = Held False"

definition create_snapshot :: "grant list \<Rightarrow> group list \<Rightarrow> condition_evaluator option \<Rightarrow> policy_snapshot" where
  "create_snapshot grants groups evaluateCondition =
     \<lparr>ps_grantsBySubject = fold (\<lambda>g. push_to (subjectToString (g_subject g)) g) grants [],
      ps_groupsByPrincipal =
        fold (\<lambda>gp. fold (\<lambda>member. push_to (principalToString member) (gp_name gp)) (gp_members gp)) groups [],
      ps_evaluateCondition = or_else alwaysFalse evaluateCondition,
      ps_grantKinds = nub (map (\<lambda>g. rs_kind (g_resource g)) grants)\<rparr>"

definition grantsForSubjects :: "policy_snapshot \<Rightarrow> string list \<Rightarrow> grant list" where
  "grantsForSubjects ps subjects = concat (map (pushed (ps_grantsBySubject ps)) subjects)"

definition hasGrantOfKind :: "policy_snapshot \<Rightarrow> resource_kind \<Rightarrow> bool" where
  "hasGrantOfKind ps kind \<longleftrightarrow> kind \<in> set (ps_grantKinds ps)"

definition groupsForPrincipal :: "policy_snapshot \<Rightarrow> string \<Rightarrow> string list" where
  "groupsForPrincipal ps principalKey = pushed (ps_groupsByPrincipal ps) principalKey"

definition evaluateConditionOutcome ::
  "policy_snapshot \<Rightarrow> string \<Rightarrow> resource_kind \<Rightarrow> fields \<Rightarrow> principal_context \<Rightarrow> string list option \<Rightarrow> condition_outcome" where
  "evaluateConditionOutcome ps condition kind fs context pending =
     (case ps_evaluateCondition ps condition kind fs context of
        Held b \<Rightarrow> if b then Match else No_match
      | Missing_fields missing \<Rightarrow>
          (case pending of
             Some p \<Rightarrow> if set missing \<subseteq> set p then Pending_outcome else Missing_field
           | None \<Rightarrow> Missing_field)
      | Evaluation_failed \<Rightarrow> Error_outcome)"

definition evaluateCondition ::
  "policy_snapshot \<Rightarrow> string \<Rightarrow> resource_kind \<Rightarrow> fields \<Rightarrow> principal_context \<Rightarrow> bool" where
  "evaluateCondition ps condition kind fs context \<longleftrightarrow>
     evaluateConditionOutcome ps condition kind fs context None = Match"

section \<open>Names are read back\<close>

lemma split_colon_iff: "split_colon v = Some (k, i) \<longleftrightarrow> v = k @ '':'' @ i \<and> CHR '':'' \<notin> set k"
proof
  assume "split_colon v = Some (k, i)"
  then have k: "k = takeWhile (\<lambda>c. c \<noteq> CHR '':'') v" and i: "i = drop 1 (dropWhile (\<lambda>c. c \<noteq> CHR '':'') v)"
    and c: "CHR '':'' \<in> set v" by (auto simp: split_colon_def split: if_splits)
  have "dropWhile (\<lambda>c. c \<noteq> CHR '':'') v = CHR '':'' # i"
    unfolding i using c hd_dropWhile [of "\<lambda>c. c \<noteq> CHR '':''" v] by (cases "dropWhile (\<lambda>c. c \<noteq> CHR '':'') v") auto
  then show "v = k @ '':'' @ i \<and> CHR '':'' \<notin> set k"
    using takeWhile_dropWhile_id [of "\<lambda>c. c \<noteq> CHR '':''" v] by (auto simp: k dest: set_takeWhileD)
next
  assume v: "v = k @ '':'' @ i \<and> CHR '':'' \<notin> set k"
  then have "takeWhile (\<lambda>c. c \<noteq> CHR '':'') v = k" "dropWhile (\<lambda>c. c \<noteq> CHR '':'') v = CHR '':'' # i"
    by (induction k arbitrary: v) auto
  then show "split_colon v = Some (k, i)" using v by (simp add: split_colon_def)
qed

lemma kind_names:
  "map_of principal_kind_names n = Some pk \<longleftrightarrow> n = name_in principal_kind_names pk"
  "map_of subject_kind_names n = Some sk \<longleftrightarrow> n = name_in subject_kind_names sk"
  "map_of resource_kind_names n = Some rk \<longleftrightarrow> n = name_in resource_kind_names rk"
  subgoal by (cases pk) (auto simp: principal_kind_names_def name_in_def)
  subgoal by (cases sk) (auto simp: subject_kind_names_def name_in_def)
  subgoal by (cases rk) (auto simp: resource_kind_names_def name_in_def)
  done

lemma kind_names_no_colon:
  "CHR '':'' \<notin> set (name_in principal_kind_names pk)" "CHR '':'' \<notin> set (name_in subject_kind_names sk)"
  "CHR '':'' \<notin> set (name_in resource_kind_names rk)"
  subgoal by (cases pk) (simp_all add: principal_kind_names_def name_in_def)
  subgoal by (cases sk) (simp_all add: subject_kind_names_def name_in_def)
  subgoal by (cases rk) (simp_all add: resource_kind_names_def name_in_def)
  done

definition valid_principal :: "principal \<Rightarrow> bool" where
  "valid_principal p \<longleftrightarrow> pr_id p \<noteq> [] \<and> (pr_kind p = P_service \<longrightarrow> isServicePrincipalId (pr_id p))"

definition valid_subject :: "subject \<Rightarrow> bool" where
  "valid_subject s \<longleftrightarrow> sb_name s \<noteq> [] \<and> (sb_kind s = S_service \<longrightarrow> isServicePrincipalId (sb_name s))"

definition valid_selector :: "resource_selector \<Rightarrow> bool" where
  "valid_selector s \<longleftrightarrow> rs_pattern s \<noteq> [] \<and> CHR ''*'' \<notin> set (butlast (rs_pattern s))"

definition valid_client :: "client \<Rightarrow> bool" where
  "valid_client c \<longleftrightarrow>
     (case cl_kind c of C_direct \<Rightarrow> cl_id c \<in> set DIRECT_CLIENT_IDS | C_integration \<Rightarrow> integration_id (cl_id c))"

lemma parsePrincipalOfKinds_iff:
  "parsePrincipalOfKinds v kinds = Inr p \<longleftrightarrow> v = principalToString p \<and> valid_principal p \<and> pr_kind p \<in> set kinds"
proof
  assume "parsePrincipalOfKinds v kinds = Inr p"
  then show "v = principalToString p \<and> valid_principal p \<and> pr_kind p \<in> set kinds"
    by (auto simp: parsePrincipalOfKinds_def principalToString_def valid_principal_def split_colon_iff kind_names
        split: option.splits if_splits)
next
  assume p: "v = principalToString p \<and> valid_principal p \<and> pr_kind p \<in> set kinds"
  then have "split_colon v = Some (name_in principal_kind_names (pr_kind p), pr_id p)"
    by (simp add: split_colon_iff principalToString_def kind_names_no_colon)
  moreover have "map_of principal_kind_names (name_in principal_kind_names (pr_kind p)) = Some (pr_kind p)"
    by (simp add: kind_names)
  ultimately show "parsePrincipalOfKinds v kinds = Inr p"
    using p by (auto simp: parsePrincipalOfKinds_def valid_principal_def)
qed

lemma parsePrincipal_iff: "parsePrincipal v = Inr p \<longleftrightarrow> v = principalToString p \<and> valid_principal p"
  by (cases "pr_kind p") (simp_all add: parsePrincipal_def parsePrincipalOfKinds_iff)

lemma parseSubject_iff: "parseSubject v = Inr s \<longleftrightarrow> v = subjectToString s \<and> valid_subject s"
proof
  assume "parseSubject v = Inr s"
  then show "v = subjectToString s \<and> valid_subject s"
    by (auto simp: parseSubject_def subjectToString_def valid_subject_def split_colon_iff kind_names
        split: option.splits if_splits)
next
  assume s: "v = subjectToString s \<and> valid_subject s"
  then have "split_colon v = Some (name_in subject_kind_names (sb_kind s), sb_name s)"
    by (simp add: split_colon_iff subjectToString_def kind_names_no_colon)
  moreover have "map_of subject_kind_names (name_in subject_kind_names (sb_kind s)) = Some (sb_kind s)"
    by (simp add: kind_names)
  ultimately show "parseSubject v = Inr s" using s by (auto simp: parseSubject_def valid_subject_def)
qed

lemma canonical_kind_iff:
  "map_of resource_kind_names (canonicalResourceKind n) = Some k \<longleftrightarrow>
   n = name_in resource_kind_names k \<or> k = K_model \<and> n = ''behavior''"
  by (cases k) (auto simp: kind_names canonicalResourceKind_def name_in_def resource_kind_names_def)

lemma parseResourceSelector_iff:
  "parseResourceSelector v = Inr s \<longleftrightarrow>
   valid_selector s \<and> (v = resourceSelectorToString s \<or> rs_kind s = K_model \<and> v = ''behavior:'' @ rs_pattern s)"
proof
  assume "parseResourceSelector v = Inr s"
  then obtain n k where n: "split_colon v = Some (n, rs_pattern s)" "rs_pattern s \<noteq> []"
    "map_of resource_kind_names (canonicalResourceKind n) = Some (rs_kind s)"
    "CHR ''*'' \<notin> set (butlast (rs_pattern s))"
    by (auto simp: parseResourceSelector_def Let_def split: option.splits if_splits)
  then show "valid_selector s \<and> (v = resourceSelectorToString s \<or> rs_kind s = K_model \<and> v = ''behavior:'' @ rs_pattern s)"
    unfolding canonical_kind_iff split_colon_iff by (auto simp: valid_selector_def resourceSelectorToString_def)
next
  assume s: "valid_selector s \<and> (v = resourceSelectorToString s \<or> rs_kind s = K_model \<and> v = ''behavior:'' @ rs_pattern s)"
  define n where "n = (if v = resourceSelectorToString s then name_in resource_kind_names (rs_kind s) else ''behavior'')"
  have "split_colon v = Some (n, rs_pattern s)"
    using s kind_names_no_colon(3) by (auto simp: n_def split_colon_iff resourceSelectorToString_def)
  moreover have "map_of resource_kind_names (canonicalResourceKind n) = Some (rs_kind s)"
    unfolding canonical_kind_iff using s by (auto simp: n_def)
  ultimately show "parseResourceSelector v = Inr s"
    using s by (simp add: parseResourceSelector_def Let_def valid_selector_def)
qed

lemma parseClient_iff: "parseClient v = Inr c \<longleftrightarrow> v = clientToString c \<and> valid_client c"
proof
  assume "parseClient v = Inr c"
  then show "v = clientToString c \<and> valid_client c"
    by (auto simp: parseClient_def clientToString_def valid_client_def split_colon_iff split: option.splits if_splits)
next
  assume c: "v = clientToString c \<and> valid_client c"
  then have "split_colon v = Some (case cl_kind c of C_direct \<Rightarrow> ''direct'' | C_integration \<Rightarrow> ''integration'', cl_id c)"
    by (auto simp: split_colon_iff clientToString_def split: client_kind.splits)
  then show "parseClient v = Inr c"
    using c by (auto simp: parseClient_def valid_client_def split: client_kind.splits)
qed

text \<open>C38.
  The text of a principal, subject, client or selector is parsed exactly when it is how a valid one
  is written, and then as that one: nothing is read two ways and nothing invalid is read. Only a
  selector has a second spelling, \<open>behavior\<close> for the kind \<open>model\<close>. A credential's principal is never
  a service.
\<close>

theorem names_read_back:
  "(parsePrincipal v = Inr p \<longleftrightarrow> v = principalToString p \<and> valid_principal p) \<and>
   (parseSubject v = Inr s \<longleftrightarrow> v = subjectToString s \<and> valid_subject s) \<and>
   (parseClient v = Inr c \<longleftrightarrow> v = clientToString c \<and> valid_client c) \<and>
   (parseResourceSelector v = Inr r \<longleftrightarrow>
      valid_selector r \<and> (v = resourceSelectorToString r \<or> rs_kind r = K_model \<and> v = ''behavior:'' @ rs_pattern r)) \<and>
   (parseCredentialPrincipal v = Inr p \<longleftrightarrow> v = principalToString p \<and> valid_principal p \<and> pr_kind p \<noteq> P_service)"
proof -
  have "prefix ''service:'' (principalToString p) \<longleftrightarrow> pr_kind p = P_service"
    by (cases "pr_kind p") (simp_all add: principalToString_def name_in_def principal_kind_names_def)
  then have "parseCredentialPrincipal v = Inr p \<longleftrightarrow> v = principalToString p \<and> valid_principal p \<and> pr_kind p \<noteq> P_service"
    by (cases "pr_kind p") (auto simp: parseCredentialPrincipal_def parsePrincipalOfKinds_iff)
  then show ?thesis by (simp add: parsePrincipal_iff parseSubject_iff parseClient_iff parseResourceSelector_iff)
qed

section \<open>The indexes of a snapshot\<close>

text \<open>What the decisions rely on of the two maps of a snapshot: values come back by key, in the order pushed.\<close>

locale push_index =
  fixes empty :: 'm and push :: "'k \<Rightarrow> 'v \<Rightarrow> 'm \<Rightarrow> 'm" and get :: "'m \<Rightarrow> 'k \<Rightarrow> 'v list"
  assumes get_empty: "get empty k = []"
    and get_push: "get (push k v m) k' = get m k' @ (if k = k' then [v] else [])"
begin

lemma get_fold: "get (fold (\<lambda>x. push (key x) (val x)) xs m) k = get m k @ map val (filter (\<lambda>x. key x = k) xs)"
  by (induction xs arbitrary: m) (auto simp: get_push)

lemma get_filled: "get (fold (\<lambda>x. push (key x) (val x)) xs empty) k = map val (filter (\<lambda>x. key x = k) xs)"
  by (simp add: get_fold get_empty)

lemma get_nested:
  "get (fold (\<lambda>x. fold (\<lambda>y. push (key y) (val x)) (members x)) xs m) k =
   get m k @ concat (map (\<lambda>x. replicate (length (filter (\<lambda>y. key y = k) (members x))) (val x)) xs)"
  by (induction xs arbitrary: m) (simp_all add: get_fold map_replicate_const)

end

interpretation keyed: push_index "[] :: ('k \<times> 'v list) list" push_to pushed
proof
  show "pushed ([] :: ('k \<times> 'v list) list) k = []" for k by (simp add: pushed_def)
  show "pushed (push_to k v m) k' = pushed m k' @ (if k = k' then [v] else [])" for k k' v and m :: "('k \<times> 'v list) list"
    by (auto simp: pushed_def push_to_def update_conv' map_add_def split: option.splits)
qed

lemma grantsForSubjects_filter:
  "grantsForSubjects (create_snapshot grants groups ev) subjects =
   concat (map (\<lambda>s. filter (\<lambda>g. subjectToString (g_subject g) = s) grants) subjects)"
proof -
  have "pushed (fold (\<lambda>g. push_to (subjectToString (g_subject g)) g) grants []) =
      (\<lambda>s. filter (\<lambda>g. subjectToString (g_subject g) = s) grants)"
    using keyed.get_filled [where val = "\<lambda>g :: grant. g" and key = "\<lambda>g. subjectToString (g_subject g)"]
    by (simp add: fun_eq_iff)
  then show ?thesis by (simp add: grantsForSubjects_def create_snapshot_def)
qed

lemma groupsForPrincipal_iff:
  "n \<in> set (groupsForPrincipal (create_snapshot grants groups ev) k) \<longleftrightarrow>
   (\<exists>gp \<in> set groups. gp_name gp = n \<and> (\<exists>m \<in> set (gp_members gp). principalToString m = k))"
  unfolding groupsForPrincipal_def create_snapshot_def policy_snapshot.simps keyed.get_nested keyed.get_empty
  by (auto simp: set_replicate_conv_if filter_empty_conv)

end
