(* ===== verification/Access_Decision.thy ===== *)
theory Access_Decision
  imports Access_Policy
begin

text \<open>
  \<^verbatim>\<open>src/src/domain/access/grant_based_access_decision_service.ts\<close>: which grants apply to a
  request and what they decide together.

  The caches (the canonical pattern of a grant, the fingerprints) hold values of pure functions and
  are not modelled, nor are the log lines. A field of a resource is a JSON value.
\<close>

section \<open>Requests and decisions\<close>

record access_principal =
  ap_principal :: principal
  ap_collectives :: "string list"
  ap_groups :: "string list"
  ap_client :: "string option"

record access_resource =
  ar_kind :: resource_kind
  ar_name :: string
  ar_fields :: fields
  ar_kindScope :: bool
  ar_anyMethod :: bool
  ar_pending :: "string list option"

definition kindResource :: "resource_kind \<Rightarrow> access_resource" where
  "kindResource kind =
     \<lparr>ar_kind = kind, ar_name = ''*'', ar_fields = [(''name'', JStr ''*'')], ar_kindScope = True,
      ar_anyMethod = False, ar_pending = None\<rparr>"

record access_decision =
  ad_effect :: effect
  ad_grantId :: string
  ad_subject :: subject
  ad_condition :: "string option"
  ad_impliedBy :: "action option"
  ad_dependsOn :: "string list option"

definition isControlPlaneRecordResource :: "access_resource \<Rightarrow> bool" where
  "isControlPlaneRecordResource resource \<longleftrightarrow>
     ar_kind resource = K_access \<and> ar_name resource \<in> set CONTROL_PLANE_MODEL_TYPES"

definition controlPlaneRecordResource :: "string \<Rightarrow> string \<Rightarrow> json option \<Rightarrow> access_resource option" where
  "controlPlaneRecordResource type name tags =
     (case normalizeModelTypeName type of
        None \<Rightarrow> None
      | Some n \<Rightarrow>
          Some \<lparr>ar_kind = K_access, ar_name = n,
            ar_fields = [(''name'', JStr name), (''modelType'', JStr n), (''tags'', or_else (JObj []) tags)],
            ar_kindScope = False, ar_anyMethod = False, ar_pending = None\<rparr>)"

text \<open>A field that is a string.\<close>

definition string_field :: "fields \<Rightarrow> string \<Rightarrow> string option" where
  "string_field fs key = (case map_of fs key of Some (JStr s) \<Rightarrow> Some s | _ \<Rightarrow> None)"

section \<open>Which grants match\<close>

definition resolveSubjects :: "access_principal \<Rightarrow> string list \<Rightarrow> string list" where
  "resolveSubjects p localGroups =
     [principalToString (ap_principal p)] @ map (\<lambda>g. ''group:'' @ g) localGroups @
     map (\<lambda>g. ''idp-group:'' @ g) (ap_groups p) @ map (\<lambda>c. ''collective:'' @ c) (ap_collectives p)"

definition grantMatchesResource :: "grant \<Rightarrow> access_resource \<Rightarrow> bool" where
  "grantMatchesResource grant resource =
     (if rs_kind (g_resource grant) \<noteq> ar_kind resource then False
      else if resourceSelectorMatches (g_resource grant) (ar_name resource) then True
      else case string_field (ar_fields resource) ''modelType'' of
        None \<Rightarrow> False
      | Some modelType \<Rightarrow>
          if ar_kind resource = K_model \<and> resourceSelectorMatches (g_resource grant) modelType then True
          else if g_effect grant = Deny \<and> (ar_kind resource = K_model \<or> isControlPlaneRecordResource resource)
          then (case canonicalTypePattern (rs_pattern (g_resource grant)) of
                  None \<Rightarrow> False
                | Some canonical \<Rightarrow>
                    if namesTypePath (rs_pattern (g_resource grant))
                    then typePatternMatchesIgnoringAt canonical modelType
                    else resourceSelectorMatches \<lparr>rs_kind = ar_kind resource, rs_pattern = canonical\<rparr> modelType)
          else False)"

record implications =
  im_approve :: bool
  im_signal :: bool
  im_tag :: bool

datatype action_match = Direct | Implied action

definition IMPLYING_ACTION :: "action \<Rightarrow> action option" where
  "IMPLYING_ACTION action =
     (case action of A_approve \<Rightarrow> Some A_run | A_signal \<Rightarrow> Some A_run | A_tag \<Rightarrow> Some A_write | _ \<Rightarrow> None)"

definition implied_by_option :: "implications \<Rightarrow> action \<Rightarrow> bool" where
  "implied_by_option im action =
     (case action of A_approve \<Rightarrow> im_approve im | A_signal \<Rightarrow> im_signal im | A_tag \<Rightarrow> im_tag im | _ \<Rightarrow> False)"

definition grantMatchesAction :: "grant \<Rightarrow> action \<Rightarrow> implications \<Rightarrow> action_match option" where
  "grantMatchesAction grant action im =
     (if action \<in> set (g_actions grant) then Some Direct
      else case IMPLYING_ACTION action of
        None \<Rightarrow> None
      | Some implying \<Rightarrow>
          if implying \<notin> set (g_actions grant) then None
          else if g_effect grant = Deny \<or> implied_by_option im action then Some (Implied implying)
          else None)"

definition grantMatchesMethods :: "grant \<Rightarrow> access_resource \<Rightarrow> bool" where
  "grantMatchesMethods grant resource =
     (if or_else [] (g_methods grant) = [] then True
      else case string_field (ar_fields resource) ''methodName'' of
        None \<Rightarrow> g_effect grant = Deny \<or> ar_anyMethod resource
      | Some methodName \<Rightarrow> methodName \<in> set (or_else [] (g_methods grant)))"

definition buildPrincipalContext :: "access_principal \<Rightarrow> string list \<Rightarrow> principal_context" where
  "buildPrincipalContext p localGroups =
     \<lparr>pc_sub = pr_id (ap_principal p), pc_groups = localGroups, pc_collectives = ap_collectives p\<rparr>"

text \<open>\<^verbatim>\<open>{ name, ...fields, client }\<close>: a later key replaces an earlier one.\<close>

definition condition_fields :: "access_resource \<Rightarrow> string option \<Rightarrow> fields" where
  "condition_fields resource client =
     AList.update ''client'' (JStr (clientConditionValue client))
       (fold (\<lambda>(k, v). AList.update k v) (ar_fields resource) [(''name'', JStr (ar_name resource))])"

definition evaluateGrant ::
  "grant \<Rightarrow> policy_snapshot \<Rightarrow> access_resource \<Rightarrow> principal_context \<Rightarrow> string option \<Rightarrow> condition_outcome" where
  "evaluateGrant grant snapshot resource context client =
     (if \<not> truthy (g_condition grant) then Match
      else
        let outcome = evaluateConditionOutcome snapshot (the (g_condition grant)) (ar_kind resource)
                        (condition_fields resource client) context (ar_pending resource) in
        if outcome = Missing_field \<and> ar_kindScope resource then Undecided else outcome)"

definition toDecision :: "grant \<Rightarrow> action_match \<Rightarrow> string list option \<Rightarrow> access_decision" where
  "toDecision grant match dependsOn =
     \<lparr>ad_effect = g_effect grant, ad_grantId = g_id grant, ad_subject = g_subject grant,
      ad_condition = g_condition grant,
      ad_impliedBy = (case match of Direct \<Rightarrow> None | Implied a \<Rightarrow> Some a), ad_dependsOn = dependsOn\<rparr>"

definition SERVICE_TRIGGER_DEFAULT_GRANT_ID :: string where
  "SERVICE_TRIGGER_DEFAULT_GRANT_ID = ''builtin:service-trigger-default''"

definition serviceTriggerDefault :: "access_principal \<Rightarrow> action \<Rightarrow> access_resource \<Rightarrow> access_decision option" where
  "serviceTriggerDefault p action resource =
     (if pr_kind (ap_principal p) \<noteq> P_service \<or> action \<noteq> A_run \<or> ar_kind resource \<noteq> K_workflow then None
      else Some \<lparr>ad_effect = Allow, ad_grantId = SERVICE_TRIGGER_DEFAULT_GRANT_ID,
             ad_subject = \<lparr>sb_kind = S_service, sb_name = pr_id (ap_principal p)\<rparr>,
             ad_condition = None, ad_impliedBy = None, ad_dependsOn = None\<rparr>)"

definition budgetExceededSubject :: "access_principal \<Rightarrow> subject" where
  "budgetExceededSubject p =
     \<lparr>sb_kind = (if pr_kind (ap_principal p) = P_service then S_service else S_user), sb_name = pr_id (ap_principal p)\<rparr>"

section \<open>The service\<close>

definition MAX_AGGREGATE_CONDITIONS :: nat where
  "MAX_AGGREGATE_CONDITIONS = 100"

record decision_service =
  ds_snapshot :: policy_snapshot
  ds_implications :: implications

definition create_service :: "policy_snapshot \<Rightarrow> bool option \<Rightarrow> bool option \<Rightarrow> bool option \<Rightarrow> decision_service" where
  "create_service snapshot runImpliesApprove runImpliesSignal writeImpliesTag =
     \<lparr>ds_snapshot = snapshot,
      ds_implications = \<lparr>im_approve = or_else True runImpliesApprove, im_signal = or_else True runImpliesSignal,
                         im_tag = or_else True writeImpliesTag\<rparr>\<rparr>"

definition actionsCoveredBy :: "decision_service \<Rightarrow> grant \<Rightarrow> (action \<times> action option) list" where
  "actionsCoveredBy svc grant =
     map (\<lambda>a. (a, None)) (g_actions grant) @
     concat (map (\<lambda>a. case grantMatchesAction grant a (ds_implications svc) of
                        Some (Implied i) \<Rightarrow> [(a, Some i)] | _ \<Rightarrow> []) [A_approve, A_signal, A_tag])"

text \<open>The grants of the caller's subjects, and the context of its conditions.\<close>

definition local_groups :: "decision_service \<Rightarrow> access_principal \<Rightarrow> string list" where
  "local_groups svc p = groupsForPrincipal (ds_snapshot svc) (principalToString (ap_principal p))"

definition candidates :: "decision_service \<Rightarrow> access_principal \<Rightarrow> grant list" where
  "candidates svc p = grantsForSubjects (ds_snapshot svc) (resolveSubjects p (local_groups svc p))"

definition outcome_for :: "decision_service \<Rightarrow> access_principal \<Rightarrow> access_resource \<Rightarrow> grant \<Rightarrow> condition_outcome" where
  "outcome_for svc p resource grant =
     evaluateGrant grant (ds_snapshot svc) resource (buildPrincipalContext p (local_groups svc p)) (ap_client p)"

definition matched :: "decision_service \<Rightarrow> access_principal \<Rightarrow> action \<Rightarrow> access_resource \<Rightarrow> (grant \<times> action_match) list" where
  "matched svc p action resource =
     List.map_filter (\<lambda>g.
         if \<not> grantMatchesResource g resource then None
         else case grantMatchesAction g action (ds_implications svc) of
           None \<Rightarrow> None
         | Some m \<Rightarrow> if grantMatchesMethods g resource then Some (g, m) else None)
       (candidates svc p)"

definition budget_denial :: "access_principal \<Rightarrow> access_decision" where
  "budget_denial p =
     \<lparr>ad_effect = Deny, ad_grantId = ''aggregate-budget-exceeded'', ad_subject = budgetExceededSubject p,
      ad_condition = None, ad_impliedBy = None, ad_dependsOn = None\<rparr>"

text \<open>
  The loop over the denies returns a decision, or the conditions evaluated so far and whether a
  deny was left undecided; the loop over the allows a decision, or the first pending allow.
\<close>

definition counted :: "grant \<Rightarrow> nat \<Rightarrow> nat" where
  "counted grant n = (if truthy (g_condition grant) then n + 1 else n)"

definition conditions_over_budget :: "grant \<Rightarrow> nat \<Rightarrow> bool" where
  "conditions_over_budget grant n \<longleftrightarrow> truthy (g_condition grant) \<and> MAX_AGGREGATE_CONDITIONS < counted grant n"

fun deny_loop ::
  "(grant \<Rightarrow> condition_outcome) \<Rightarrow> access_decision \<Rightarrow> (grant \<times> action_match) list \<Rightarrow> nat \<Rightarrow> bool
   \<Rightarrow> access_decision + nat \<times> bool" where
  "deny_loop outcome exceeded [] n undecided = Inr (n, undecided)"
| "deny_loop outcome exceeded ((g, m) # gs) n undecided =
     (if conditions_over_budget g n then Inl exceeded
      else if outcome g \<in> {Match, Missing_field, Error_outcome} then Inl (toDecision g m None)
      else deny_loop outcome exceeded gs (counted g n) (undecided \<or> outcome g = Undecided))"

fun allow_loop ::
  "(grant \<Rightarrow> condition_outcome) \<Rightarrow> access_decision \<Rightarrow> string list option \<Rightarrow> (grant \<times> action_match) list \<Rightarrow> nat
   \<Rightarrow> access_decision option \<Rightarrow> access_decision + access_decision option" where
  "allow_loop outcome exceeded pending [] n pendingAllow = Inr pendingAllow"
| "allow_loop outcome exceeded pending ((g, m) # gs) n pendingAllow =
     (if conditions_over_budget g n then Inl exceeded
      else if outcome g = Match then Inl (toDecision g m None)
      else allow_loop outcome exceeded pending gs (counted g n)
             (if outcome g = Pending_outcome \<and> pendingAllow = None then Some (toDecision g m pending) else pendingAllow))"

definition decided_action :: "action \<Rightarrow> access_resource \<Rightarrow> action" where
  "decided_action action resource = (if isControlPlaneRecordResource resource then A_admin else action)"

definition decide :: "decision_service \<Rightarrow> access_principal \<Rightarrow> action \<Rightarrow> access_resource \<Rightarrow> access_decision option" where
  "decide svc p action0 resource =
     (let action = decided_action action0 resource;
          found = matched svc p action resource;
          denies = filter (\<lambda>gm. g_effect (fst gm) = Deny) found;
          allows = filter (\<lambda>gm. g_effect (fst gm) \<noteq> Deny) found;
          outcome = outcome_for svc p resource in
      case deny_loop outcome (budget_denial p) denies 0 False of
        Inl d \<Rightarrow> Some d
      | Inr (n, denyUndecided) \<Rightarrow>
          (case allow_loop outcome (budget_denial p) (ar_pending resource) allows n None of
             Inl d \<Rightarrow> Some d
           | Inr (Some pendingAllow) \<Rightarrow> Some pendingAllow
           | Inr None \<Rightarrow> if denyUndecided then None else serviceTriggerDefault p action resource))"

record explanation =
  ex_undecided :: bool
  ex_denies :: "access_decision list"
  ex_allows :: "access_decision list"
  ex_pendingAllows :: "access_decision list"
  ex_pendingDenies :: "access_decision list"

text \<open>One turn of the loop of \<^verbatim>\<open>explain\<close>, after the budget was counted.\<close>

definition explain_grant ::
  "condition_outcome \<Rightarrow> string list option \<Rightarrow> grant \<Rightarrow> action_match \<Rightarrow> explanation \<Rightarrow> explanation" where
  "explain_grant outcome pending g m ex =
     (let ex1 = (if outcome = Undecided \<and> g_effect g = Deny then ex\<lparr>ex_undecided := True\<rparr> else ex);
          ex2 = (if outcome = Pending_outcome
                 then (if g_effect g = Deny
                       then ex1\<lparr>ex_pendingDenies := ex_pendingDenies ex1 @ [toDecision g m pending]\<rparr>
                       else ex1\<lparr>ex_pendingAllows := ex_pendingAllows ex1 @ [toDecision g m pending]\<rparr>)
                 else ex1) in
      if outcome = Match \<or> (outcome = Missing_field \<or> outcome = Error_outcome) \<and> g_effect g = Deny
      then (if g_effect g = Deny then ex2\<lparr>ex_denies := ex_denies ex2 @ [toDecision g m None]\<rparr>
            else ex2\<lparr>ex_allows := ex_allows ex2 @ [toDecision g m None]\<rparr>)
      else ex2)"

fun explain_loop ::
  "(grant \<Rightarrow> condition_outcome) \<Rightarrow> string list option \<Rightarrow> (grant \<times> action_match) list \<Rightarrow> nat \<Rightarrow> explanation \<Rightarrow> explanation" where
  "explain_loop outcome pending [] n ex = ex"
| "explain_loop outcome pending ((g, m) # gs) n ex =
     (if conditions_over_budget g n then ex\<lparr>ex_undecided := True\<rparr>
      else explain_loop outcome pending gs (counted g n) (explain_grant (outcome g) pending g m ex))"

definition no_explanation :: explanation where
  "no_explanation =
     \<lparr>ex_undecided = False, ex_denies = [], ex_allows = [], ex_pendingAllows = [], ex_pendingDenies = []\<rparr>"

definition explain :: "decision_service \<Rightarrow> access_principal \<Rightarrow> action \<Rightarrow> access_resource \<Rightarrow> access_decision list" where
  "explain svc p action0 resource =
     (let action = decided_action action0 resource;
          ex = explain_loop (outcome_for svc p resource) (ar_pending resource) (matched svc p action resource) 0 no_explanation;
          listed = ex_denies ex @ ex_allows ex @ ex_pendingAllows ex @ ex_pendingDenies ex in
      if listed = [] \<and> \<not> ex_undecided ex
      then (case serviceTriggerDefault p action resource of Some d \<Rightarrow> [d] | None \<Rightarrow> [])
      else listed)"

text \<open>The first deny that refuses an operation on every resource of a kind.\<close>

definition refuses_kind ::
  "decision_service \<Rightarrow> access_principal \<Rightarrow> action \<Rightarrow> resource_kind \<Rightarrow> grant \<Rightarrow> access_decision option" where
  "refuses_kind svc p action kind grant =
     (if g_effect grant \<noteq> Deny \<or> rs_kind (g_resource grant) \<noteq> kind then None
      else case grantMatchesAction grant action (ds_implications svc) of
        None \<Rightarrow> None
      | Some m \<Rightarrow>
          if truthy (g_condition grant) \<and>
             evaluateConditionOutcome (ds_snapshot svc) (the (g_condition grant)) kind
               [(''client'', JStr (clientConditionValue (ap_client p)))]
               (buildPrincipalContext p (local_groups svc p)) None = No_match
          then None
          else Some (toDecision grant m None))"

fun first_some :: "('a \<Rightarrow> 'b option) \<Rightarrow> 'a list \<Rightarrow> 'b option" where
  "first_some f [] = None"
| "first_some f (x # xs) = (case f x of Some y \<Rightarrow> Some y | None \<Rightarrow> first_some f xs)"

definition decideAll :: "decision_service \<Rightarrow> access_principal \<Rightarrow> action \<Rightarrow> resource_kind \<Rightarrow> access_decision option" where
  "decideAll svc p action kind =
     (case first_some (refuses_kind svc p action kind) (candidates svc p) of
        Some d \<Rightarrow> Some d
      | None \<Rightarrow>
          decide svc p action
            \<lparr>ar_kind = kind, ar_name = ''*'', ar_fields = [(''name'', JStr ''*'')], ar_kindScope = False,
             ar_anyMethod = False, ar_pending = None\<rparr>)"

definition hasAnyGrantForKind :: "decision_service \<Rightarrow> access_principal \<Rightarrow> action \<Rightarrow> resource_kind \<Rightarrow> bool" where
  "hasAnyGrantForKind svc p action kind \<longleftrightarrow>
     list_ex (\<lambda>g. g_effect g = Allow \<and> rs_kind (g_resource g) = kind \<and>
                  grantMatchesAction g action (ds_implications svc) \<noteq> None) (candidates svc p)"

section \<open>What the loops decide\<close>

definition refusing :: "condition_outcome set" where
  "refusing = {Match, Missing_field, Error_outcome}"

definition conditions :: "(grant \<times> action_match) list \<Rightarrow> nat" where
  "conditions gs = length (filter (\<lambda>gm. truthy (g_condition (fst gm))) gs)"

lemma conditions_simps [simp]:
  "conditions [] = 0" "conditions ((g, m) # gs) = (if truthy (g_condition g) then 1 else 0) + conditions gs"
  by (simp_all add: conditions_def)

lemma conditions_split:
  "conditions gs = conditions (filter (\<lambda>gm. g_effect (fst gm) = Deny) gs) +
                   conditions (filter (\<lambda>gm. g_effect (fst gm) \<noteq> Deny) gs)"
  by (induction gs) auto

lemma find_hd_filter: "find P xs = (if filter P xs = [] then None else Some (hd (filter P xs)))"
  by (induction xs) auto

lemma deny_loop_Inr:
  assumes "deny_loop out e gs n u = Inr (n', u')"
  shows "(\<forall>gm \<in> set gs. out (fst gm) \<notin> refusing) \<and> u' = (u \<or> list_ex (\<lambda>gm. out (fst gm) = Undecided) gs) \<and>
    n' = n + conditions gs"
  using assms
  by (induction out e gs n u rule: deny_loop.induct) (auto simp: refusing_def counted_def split: if_splits)

lemma deny_loop_Inl:
  assumes "deny_loop out e gs n u = Inl d"
  shows "d = e \<or> (\<exists>gm \<in> set gs. d = toDecision (fst gm) (snd gm) None \<and> out (fst gm) \<in> refusing)"
  using assms
  by (induction out e gs n u rule: deny_loop.induct) (auto simp: refusing_def split: if_splits)

lemma deny_loop_within:
  assumes "n + conditions gs \<le> MAX_AGGREGATE_CONDITIONS"
  shows "deny_loop out e gs n u =
    (case find (\<lambda>gm. out (fst gm) \<in> refusing) gs of
       Some gm \<Rightarrow> Inl (toDecision (fst gm) (snd gm) None)
     | None \<Rightarrow> Inr (n + conditions gs, u \<or> list_ex (\<lambda>gm. out (fst gm) = Undecided) gs))"
  using assms
  by (induction out e gs n u rule: deny_loop.induct) (auto simp: refusing_def conditions_over_budget_def counted_def split: option.splits)

lemma allow_loop_sound:
  assumes "allow_loop out e pending gs n pa = res"
  shows "case res of
      Inl d \<Rightarrow> d = e \<or> (\<exists>gm \<in> set gs. out (fst gm) = Match \<and> d = toDecision (fst gm) (snd gm) None)
    | Inr None \<Rightarrow> True
    | Inr (Some d) \<Rightarrow> pa = Some d \<or> (\<exists>gm \<in> set gs. out (fst gm) = Pending_outcome \<and> d = toDecision (fst gm) (snd gm) pending)"
  using assms
  by (induction out e pending gs n pa rule: allow_loop.induct) (auto split: if_splits sum.splits option.splits)

lemma allow_loop_within:
  assumes "n + conditions gs \<le> MAX_AGGREGATE_CONDITIONS"
  shows "allow_loop out e pending gs n pa =
    (case find (\<lambda>gm. out (fst gm) = Match) gs of
       Some gm \<Rightarrow> Inl (toDecision (fst gm) (snd gm) None)
     | None \<Rightarrow> Inr (case pa of Some d \<Rightarrow> Some d
                    | None \<Rightarrow> map_option (\<lambda>gm. toDecision (fst gm) (snd gm) pending)
                               (find (\<lambda>gm. out (fst gm) = Pending_outcome) gs)))"
  using assms
proof (induction out e pending gs n pa rule: allow_loop.induct)
  case (2 out e pending g m gs n pa)
  then show ?case by (cases pa) (auto simp: conditions_over_budget_def counted_def split: option.splits)
qed (simp split: option.splits)

lemma toDecision_simps [simp]:
  "ad_effect (toDecision g m d) = g_effect g" "ad_dependsOn (toDecision g m d) = d" "ad_grantId (toDecision g m d) = g_id g"
  by (simp_all add: toDecision_def)

lemma not_Deny: "e \<noteq> Deny \<longleftrightarrow> e = Allow"
  by (cases e) auto

section \<open>Allowing\<close>

text \<open>C9.
  Access fails closed. When a request is allowed, then no deny of the caller's that matches it has a
  condition that holds, needs a field the resource lacks or cannot be evaluated, whatever the number
  of grants; and the allow is a matching grant of the caller's whose condition holds, or one that
  waits for the pending fields and says so, or the built-in default of a service that runs a
  workflow, which no undecided deny stands against.
\<close>

theorem decide_fails_closed:
  assumes "decide svc p action resource = Some d" and "ad_effect d = Allow"
  shows "let found = matched svc p (decided_action action resource) resource;
         out = outcome_for svc p resource in
    (\<forall>(g, m) \<in> set found. g_effect g = Deny \<longrightarrow> out g \<notin> {Match, Missing_field, Error_outcome}) \<and>
    ((\<exists>(g, m) \<in> set found. g_effect g = Allow \<and> out g = Match \<and> d = toDecision g m None) \<or>
     (\<exists>(g, m) \<in> set found. g_effect g = Allow \<and> out g = Pending_outcome \<and> d = toDecision g m (ar_pending resource)) \<or>
     serviceTriggerDefault p (decided_action action resource) resource = Some d \<and>
     (\<forall>(g, m) \<in> set found. g_effect g = Deny \<longrightarrow> out g \<noteq> Undecided))"
proof -
  define found where "found = matched svc p (decided_action action resource) resource"
  define out where "out = outcome_for svc p resource"
  let ?denies = "filter (\<lambda>gm. g_effect (fst gm) = Deny) found"
  let ?allows = "filter (\<lambda>gm. g_effect (fst gm) \<noteq> Deny) found"
  let ?default = "serviceTriggerDefault p (decided_action action resource) resource"
  have not_budget: "d \<noteq> budget_denial p" using assms(2) by (auto simp: budget_denial_def)
  note dec = assms(1) [unfolded decide_def Let_def, folded found_def out_def]
  obtain n u where loop: "deny_loop out (budget_denial p) ?denies 0 False = Inr (n, u)"
    using dec deny_loop_Inl [of out "budget_denial p" ?denies 0 False d] assms(2) not_budget
    by (auto split: sum.splits prod.splits)
  note denied = deny_loop_Inr [OF loop]
  have none: "\<forall>(g, m) \<in> set found. g_effect g = Deny \<longrightarrow> out g \<notin> {Match, Missing_field, Error_outcome}"
    using denied unfolding refusing_def by fastforce
  let ?res = "allow_loop out (budget_denial p) (ar_pending resource) ?allows n None"
  note sound = allow_loop_sound [of out "budget_denial p" "ar_pending resource" ?allows n None, OF refl]
  consider "?res = Inl d" | "?res = Inr (Some d)" | "?res = Inr None" "\<not> u" "?default = Some d"
    using dec loop by (auto split: sum.splits option.splits if_splits)
  then show ?thesis
  proof cases
    case 1
    then show ?thesis
      unfolding Let_def found_def [symmetric] out_def [symmetric] using none sound not_budget by (fastforce simp: not_Deny)
  next
    case 2
    then show ?thesis
      unfolding Let_def found_def [symmetric] out_def [symmetric] using none sound by (fastforce simp: not_Deny)
  next
    case 3
    then have "\<forall>(g, m) \<in> set found. g_effect g = Deny \<longrightarrow> out g \<noteq> Undecided"
      using denied by (fastforce simp: list_ex_iff)
    with 3 none show ?thesis unfolding Let_def found_def [symmetric] out_def [symmetric] by blast
  qed
qed

definition ops_policy :: policy_snapshot where
  "ops_policy =
     create_snapshot
       [\<lparr>g_id = ''g1'', g_subject = \<lparr>sb_kind = S_group, sb_name = ''ops''\<rparr>, g_effect = Allow, g_actions = [A_run],
         g_resource = \<lparr>rs_kind = K_workflow, rs_pattern = ''@acme/*''\<rparr>, g_condition = None, g_methods = None,
         g_state = Active\<rparr>,
        \<lparr>g_id = ''g2'', g_subject = \<lparr>sb_kind = S_user, sb_name = ''ada''\<rparr>, g_effect = Deny, g_actions = [A_run],
         g_resource = \<lparr>rs_kind = K_workflow, rs_pattern = ''@acme/prod''\<rparr>, g_condition = Some ''tags.env == x'',
         g_methods = None, g_state = Active\<rparr>]
       [\<lparr>gp_name = ''ops'', gp_members = [\<lparr>pr_kind = P_user, pr_id = ''ada''\<rparr>]\<rparr>] None"

definition ada :: access_principal where
  "ada = \<lparr>ap_principal = \<lparr>pr_kind = P_user, pr_id = ''ada''\<rparr>, ap_collectives = [], ap_groups = [], ap_client = None\<rparr>"

definition prod_workflow :: access_resource where
  "prod_workflow =
     \<lparr>ar_kind = K_workflow, ar_name = ''@acme/prod'', ar_fields = [], ar_kindScope = False, ar_anyMethod = False,
      ar_pending = None\<rparr>"

lemma ada_may_run:
  "map_option ad_grantId (decide (create_service ops_policy None None None) ada A_approve prod_workflow) = Some ''g1''"
  "map_option ad_effect (decide (create_service ops_policy None None None) ada A_approve prod_workflow) = Some Allow"
  by code_simp+

theorem decide_fails_closed_witness:
  "\<exists>g m. (g, m) \<in> set (matched (create_service ops_policy None None None) ada A_approve prod_workflow) \<and>
     g_effect g = Allow"
proof -
  let ?svc = "create_service ops_policy None None None"
  obtain d where d: "decide ?svc ada A_approve prod_workflow = Some d" "ad_effect d = Allow"
    using ada_may_run(2) by auto
  have "decided_action A_approve prod_workflow = A_approve" "serviceTriggerDefault ada A_approve prod_workflow = None"
    by code_simp+
  then show ?thesis using decide_fails_closed [OF d] by (fastforce simp: Let_def)
qed

section \<open>The order of the grants\<close>

text \<open>
  What a request is decided from, with no order among the grants: the outcomes of the matching denies
  and of the matching allows, and what is decided when they decide nothing.
\<close>

definition verdict :: "condition_outcome set \<Rightarrow> condition_outcome set \<Rightarrow> effect option \<Rightarrow> effect option" where
  "verdict denies allows otherwise =
     (if denies \<inter> {Match, Missing_field, Error_outcome} \<noteq> {} then Some Deny
      else if allows \<inter> {Match, Pending_outcome} \<noteq> {} then Some Allow
      else if Undecided \<in> denies then None
      else otherwise)"

definition outcomes :: "(grant \<Rightarrow> condition_outcome) \<Rightarrow> effect \<Rightarrow> (grant \<times> action_match) list \<Rightarrow> condition_outcome set" where
  "outcomes out e found = set (map (\<lambda>gm. out (fst gm)) (filter (\<lambda>gm. g_effect (fst gm) = e) found))"

lemma outcomes_iff: "x \<in> outcomes out e found \<longleftrightarrow> (\<exists>gm \<in> set found. out (fst gm) = x \<and> g_effect (fst gm) = e)"
  by (auto simp: outcomes_def)

lemma decide_within:
  assumes "conditions (matched svc p (decided_action action resource) resource) \<le> MAX_AGGREGATE_CONDITIONS"
  shows "decide svc p action resource =
    (let found = matched svc p (decided_action action resource) resource;
         out = outcome_for svc p resource;
         denies = filter (\<lambda>gm. g_effect (fst gm) = Deny) found; allows = filter (\<lambda>gm. g_effect (fst gm) \<noteq> Deny) found in
     case find (\<lambda>gm. out (fst gm) \<in> refusing) denies of
       Some gm \<Rightarrow> Some (toDecision (fst gm) (snd gm) None)
     | None \<Rightarrow>
         (case find (\<lambda>gm. out (fst gm) = Match) allows of
            Some gm \<Rightarrow> Some (toDecision (fst gm) (snd gm) None)
          | None \<Rightarrow>
              (case find (\<lambda>gm. out (fst gm) = Pending_outcome) allows of
                 Some gm \<Rightarrow> Some (toDecision (fst gm) (snd gm) (ar_pending resource))
               | None \<Rightarrow> if list_ex (\<lambda>gm. out (fst gm) = Undecided) denies then None
                         else serviceTriggerDefault p (decided_action action resource) resource)))"
proof -
  define found where "found = matched svc p (decided_action action resource) resource"
  have "conditions (filter (\<lambda>gm. g_effect (fst gm) = Deny) found) +
      conditions (filter (\<lambda>gm. g_effect (fst gm) \<noteq> Deny) found) \<le> MAX_AGGREGATE_CONDITIONS"
    using assms conditions_split [of found] by (simp add: found_def)
  then show ?thesis
    unfolding decide_def Let_def found_def [symmetric]
    by (simp add: deny_loop_within allow_loop_within split: option.splits)
qed

text \<open>C18.
  Within the budget of conditions a decision refines a specification that knows no order: its effect
  is the verdict on the set of outcomes of the matching denies and the set of outcomes of the
  matching allows. So neither the order in which grants were loaded nor a repeated grant changes who
  is allowed, and a refusing deny wins over every allow.
\<close>

theorem decide_refines_verdict:
  assumes "conditions (matched svc p (decided_action action resource) resource) \<le> MAX_AGGREGATE_CONDITIONS"
  shows "map_option ad_effect (decide svc p action resource) =
    verdict (outcomes (outcome_for svc p resource) Deny (matched svc p (decided_action action resource) resource))
      (outcomes (outcome_for svc p resource) Allow (matched svc p (decided_action action resource) resource))
      (map_option ad_effect (serviceTriggerDefault p (decided_action action resource) resource))"
proof -
  define found where "found = matched svc p (decided_action action resource) resource"
  define out where "out = outcome_for svc p resource"
  note dec = decide_within [OF assms, folded found_def out_def, unfolded Let_def, folded found_def out_def]
  let ?denies = "filter (\<lambda>gm. g_effect (fst gm) = Deny) found" and ?allows = "filter (\<lambda>gm. g_effect (fst gm) \<noteq> Deny) found"
  have refused: "find (\<lambda>gm. out (fst gm) \<in> refusing) ?denies = None \<longleftrightarrow> outcomes out Deny found \<inter> {Match, Missing_field, Error_outcome} = {}"
    by (auto simp: find_None_iff outcomes_iff refusing_def)
  have allowed: "find (\<lambda>gm. out (fst gm) = x) ?allows = None \<longleftrightarrow> x \<notin> outcomes out Allow found" for x
    by (auto simp: find_None_iff outcomes_iff not_Deny)
  have undecided: "list_ex (\<lambda>gm. out (fst gm) = Undecided) ?denies \<longleftrightarrow> Undecided \<in> outcomes out Deny found"
    unfolding list_ex_iff outcomes_iff by fastforce
  have eff: "find P ?denies = Some gm \<Longrightarrow> g_effect (fst gm) = Deny" "find P ?allows = Some gm \<Longrightarrow> g_effect (fst gm) = Allow" for P gm
    using find_Some_in_set not_Deny by fastforce+
  show ?thesis
  proof (cases "find (\<lambda>gm. out (fst gm) \<in> refusing) ?denies")
    case (Some gm)
    then have "outcomes out Deny found \<inter> {Match, Missing_field, Error_outcome} \<noteq> {}" using refused by auto
    then show ?thesis
      unfolding dec found_def [symmetric] out_def [symmetric] verdict_def using Some eff(1) [OF Some] by simp
  next
    case None
    then have d: "outcomes out Deny found \<inter> {Match, Missing_field, Error_outcome} = {}" using refused by auto
    consider gm where "find (\<lambda>gm. out (fst gm) = Match) ?allows = Some gm"
      | gm where "find (\<lambda>gm. out (fst gm) = Match) ?allows = None" "find (\<lambda>gm. out (fst gm) = Pending_outcome) ?allows = Some gm"
      | "find (\<lambda>gm. out (fst gm) = Match) ?allows = None" "find (\<lambda>gm. out (fst gm) = Pending_outcome) ?allows = None"
      by fastforce
    then show ?thesis
    proof cases
      case 1
      then have "Match \<in> outcomes out Allow found" using allowed [of Match] by auto
      then show ?thesis
        unfolding dec found_def [symmetric] out_def [symmetric] verdict_def using None 1 d eff(2) [OF 1] by auto
    next
      case 2
      then have "Pending_outcome \<in> outcomes out Allow found" using allowed [of Pending_outcome] by auto
      then show ?thesis
        unfolding dec found_def [symmetric] out_def [symmetric] verdict_def using None 2(1,2) d eff(2) [OF 2(2)] by auto
    next
      case 3
      then have "outcomes out Allow found \<inter> {Match, Pending_outcome} = {}"
        using allowed [of Match] allowed [of Pending_outcome] by auto
      then show ?thesis
        unfolding dec found_def [symmetric] out_def [symmetric] verdict_def undecided [symmetric]
        using None 3(1,2) d by simp
    qed
  qed
qed

theorem decide_refines_verdict_witness:
  "map_option ad_effect (decide (create_service ops_policy None None None) ada A_run prod_workflow) =
   verdict {No_match} {Match} None"
proof -
  let ?svc = "create_service ops_policy None None None"
  have "conditions (matched ?svc ada (decided_action A_run prod_workflow) prod_workflow) \<le> MAX_AGGREGATE_CONDITIONS"
    "outcomes (outcome_for ?svc ada prod_workflow) Deny (matched ?svc ada (decided_action A_run prod_workflow) prod_workflow) = {No_match}"
    "outcomes (outcome_for ?svc ada prod_workflow) Allow (matched ?svc ada (decided_action A_run prod_workflow) prod_workflow) = {Match}"
    "serviceTriggerDefault ada (decided_action A_run prod_workflow) prod_workflow = None"
    by code_simp+
  then show ?thesis using decide_refines_verdict [where svc = ?svc and p = ada and action = A_run and resource = prod_workflow] by simp
qed

section \<open>Explanations\<close>

lemma explain_loop_within:
  assumes "n + conditions gs \<le> MAX_AGGREGATE_CONDITIONS"
  shows "explain_loop out pending gs n ex =
    ex\<lparr>ex_undecided := ex_undecided ex \<or> list_ex (\<lambda>gm. g_effect (fst gm) = Deny \<and> out (fst gm) = Undecided) gs,
       ex_denies := ex_denies ex @ map (\<lambda>gm. toDecision (fst gm) (snd gm) None)
         (filter (\<lambda>gm. g_effect (fst gm) = Deny \<and> out (fst gm) \<in> refusing) gs),
       ex_allows := ex_allows ex @ map (\<lambda>gm. toDecision (fst gm) (snd gm) None)
         (filter (\<lambda>gm. g_effect (fst gm) \<noteq> Deny \<and> out (fst gm) = Match) gs),
       ex_pendingAllows := ex_pendingAllows ex @ map (\<lambda>gm. toDecision (fst gm) (snd gm) pending)
         (filter (\<lambda>gm. g_effect (fst gm) \<noteq> Deny \<and> out (fst gm) = Pending_outcome) gs),
       ex_pendingDenies := ex_pendingDenies ex @ map (\<lambda>gm. toDecision (fst gm) (snd gm) pending)
         (filter (\<lambda>gm. g_effect (fst gm) = Deny \<and> out (fst gm) = Pending_outcome) gs)\<rparr>"
  using assms
proof (induction out pending gs n ex rule: explain_loop.induct)
  case (2 out pending g m gs n ex)
  then show ?case
    by (cases "out g"; cases "g_effect g")
       (simp_all add: conditions_over_budget_def counted_def explain_grant_def refusing_def Let_def split: if_splits)
qed simp

text \<open>
  Within the budget an explanation says what would be decided: while no deny waits for pending
  fields, the decision on a request is the first one its explanation lists, and nothing is decided
  exactly when it lists none.
\<close>

theorem decide_is_first_explained:
  assumes "conditions (matched svc p (decided_action action resource) resource) \<le> MAX_AGGREGATE_CONDITIONS"
    and "Pending_outcome \<notin> outcomes (outcome_for svc p resource) Deny (matched svc p (decided_action action resource) resource)"
  shows "decide svc p action resource =
    (case explain svc p action resource of [] \<Rightarrow> None | d # ds \<Rightarrow> Some d)"
proof -
  define found where "found = matched svc p (decided_action action resource) resource"
  define out where "out = outcome_for svc p resource"
  note dec = decide_within [OF assms(1), folded found_def out_def, unfolded Let_def, folded found_def out_def]
  have budget: "0 + conditions found \<le> MAX_AGGREGATE_CONDITIONS" using assms(1) by (simp add: found_def)
  have no_pending: "filter (\<lambda>gm. g_effect (fst gm) = Deny \<and> out (fst gm) = Pending_outcome) found = []"
    using assms(2) by (force simp: found_def out_def outcomes_iff filter_empty_conv)
  have first: "find P (filter Q xs) = (case filter (\<lambda>x. Q x \<and> P x) xs of [] \<Rightarrow> None | y # ys \<Rightarrow> Some y)" for P Q and xs :: "'z list"
    by (induction xs) auto
  have ex: "list_ex P (filter Q xs) = list_ex (\<lambda>x. Q x \<and> P x) xs" for P Q and xs :: "'z list"
    by (induction xs) auto
  show ?thesis
    unfolding dec explain_def Let_def found_def [symmetric] out_def [symmetric] explain_loop_within [OF budget] first ex
    using no_pending
    by (simp add: no_explanation_def split: list.splits option.splits)
qed

theorem decide_is_first_explained_witness:
  "map_option ad_grantId (decide (create_service ops_policy None None None) ada A_run prod_workflow) =
   Some (ad_grantId (hd (explain (create_service ops_policy None None None) ada A_run prod_workflow)))"
proof -
  let ?svc = "create_service ops_policy None None None"
  have "conditions (matched ?svc ada (decided_action A_run prod_workflow) prod_workflow) \<le> MAX_AGGREGATE_CONDITIONS"
    "Pending_outcome \<notin> outcomes (outcome_for ?svc ada prod_workflow) Deny (matched ?svc ada (decided_action A_run prod_workflow) prod_workflow)"
    "explain ?svc ada A_run prod_workflow \<noteq> []"
    by code_simp+
  then show ?thesis
    using decide_is_first_explained [of ?svc ada A_run prod_workflow] by (auto split: list.splits)
qed

section \<open>Operations on a whole kind\<close>

lemma first_some_None: "first_some f xs = None \<longleftrightarrow> (\<forall>x \<in> set xs. f x = None)"
  by (induction xs) (auto split: option.splits)

lemma first_some_Some: "first_some f xs = Some y \<Longrightarrow> \<exists>x \<in> set xs. f x = Some y"
  by (induction xs) (auto split: option.splits)

lemma matched_mem:
  "(g, m) \<in> set (matched svc p action resource) \<longleftrightarrow>
   g \<in> set (candidates svc p) \<and> grantMatchesResource g resource \<and>
   grantMatchesAction g action (ds_implications svc) = Some m \<and> grantMatchesMethods g resource"
  unfolding matched_def List.map_filter_def by (auto split: if_splits option.splits) (force split: if_splits option.splits)

lemma grantMatchesResource_kind: "grantMatchesResource g resource \<Longrightarrow> rs_kind (g_resource g) = ar_kind resource"
  by (auto simp: grantMatchesResource_def split: if_splits)

text \<open>
  An operation on every resource of a kind is allowed only when no deny could stop it on one: every
  deny that matches the action on some resource of the kind has a condition, and that condition is
  false of the caller alone, read with no field of any resource.
\<close>

theorem decideAll_allow_excludes_denies:
  assumes "decideAll svc p action kind = Some d" and "ad_effect d = Allow"
    and "ar_kind resource = kind" and "(g, m) \<in> set (matched svc p action resource)" and "g_effect g = Deny"
  shows "truthy (g_condition g) \<and>
    evaluateConditionOutcome (ds_snapshot svc) (the (g_condition g)) kind
      [(''client'', JStr (clientConditionValue (ap_client p)))] (buildPrincipalContext p (local_groups svc p)) None = No_match"
proof -
  have "first_some (refuses_kind svc p action kind) (candidates svc p) = None"
  proof (cases "first_some (refuses_kind svc p action kind) (candidates svc p)")
    case (Some d')
    then obtain h where "refuses_kind svc p action kind h = Some d'" using first_some_Some by fastforce
    then have "ad_effect d' = Deny" by (auto simp: refuses_kind_def split: if_splits option.splits)
    then show ?thesis using assms(1,2) Some by (simp add: decideAll_def)
  qed simp
  then have "refuses_kind svc p action kind g = None"
    using assms(4) by (auto simp: first_some_None matched_mem)
  then show ?thesis
    using assms(3-5) grantMatchesResource_kind by (auto simp: matched_mem refuses_kind_def split: if_splits)
qed

definition all_policy :: policy_snapshot where
  "all_policy =
     create_snapshot
       [\<lparr>g_id = ''g1'', g_subject = \<lparr>sb_kind = S_user, sb_name = ''ada''\<rparr>, g_effect = Allow, g_actions = [A_run],
         g_resource = \<lparr>rs_kind = K_workflow, rs_pattern = ''*''\<rparr>, g_condition = None, g_methods = None, g_state = Active\<rparr>,
        \<lparr>g_id = ''g2'', g_subject = \<lparr>sb_kind = S_user, sb_name = ''ada''\<rparr>, g_effect = Deny, g_actions = [A_run],
         g_resource = \<lparr>rs_kind = K_workflow, rs_pattern = ''@acme/prod''\<rparr>, g_condition = Some ''false'',
         g_methods = None, g_state = Active\<rparr>] [] None"

theorem decideAll_allow_excludes_denies_witness:
  "\<exists>g :: grant. g_effect g = Deny \<and> truthy (g_condition g) \<and>
     evaluateConditionOutcome all_policy (the (g_condition g)) K_workflow [(''client'', JStr ''direct:'')]
       (buildPrincipalContext ada []) None = No_match"
proof -
  let ?svc = "create_service all_policy None None None"
  have "map_option ad_effect (decideAll ?svc ada A_run K_workflow) = Some Allow" by code_simp
  then obtain d where d: "decideAll ?svc ada A_run K_workflow = Some d" "ad_effect d = Allow" by auto
  have m: "length (matched ?svc ada A_run prod_workflow) = 2" "g_effect (fst (matched ?svc ada A_run prod_workflow ! 1)) = Deny"
    "ar_kind prod_workflow = K_workflow" "local_groups ?svc ada = []" "clientConditionValue (ap_client ada) = ''direct:''"
    by code_simp+
  then obtain g k where g: "(g, k) \<in> set (matched ?svc ada A_run prod_workflow)" "g_effect g = Deny"
    by (metis nth_mem one_less_numeral_iff prod.collapse semiring_norm(76))
  show ?thesis
    using decideAll_allow_excludes_denies [OF d m(3) g] g(2) m(4,5) by (auto simp: create_service_def)
qed

section \<open>Spellings\<close>

lemma to_lower_star: "CHR ''*'' = to_lower c \<Longrightarrow> c = CHR ''*''"
  by (cases "is_upper c") (auto simp: to_lower_def is_upper_def between_def dest: arg_cong [of _ _ "of_char :: char \<Rightarrow> nat"])

text \<open>
  A deny written as a type path matches a model of that type however either of the two is spelled:
  with or without the leading \<open>@\<close>, in any case and with any of the separators, as long as both name
  the same type. An allow is not widened in this way: it matches only a name or type its selector
  matches as written.
\<close>

theorem deny_matches_any_spelling:
  assumes "g_effect g = Deny" and "rs_kind (g_resource g) = K_model" and "ar_kind resource = K_model"
    and "string_field (ar_fields resource) ''modelType'' = Some modelType"
    and "normalizeModelTypeName (rs_pattern (g_resource g)) = Some n" and "normalizeModelTypeName modelType = Some n"
    and "CHR ''/'' \<in> set n" and "CHR ''*'' \<notin> set (rs_pattern (g_resource g))"
    and "namesTypePath (rs_pattern (g_resource g))"
  shows "grantMatchesResource g resource \<and>
    (\<forall>h. g_effect h = Allow \<and> grantMatchesResource h resource \<longrightarrow>
       resourceSelectorMatches (g_resource h) (ar_name resource) \<or> resourceSelectorMatches (g_resource h) modelType)"
proof -
  let ?p = "rs_pattern (g_resource g)"
  obtain t where t: "create_model_type ?p = Some t" "strip_at (mt_normalized t) = n"
    using assms(5) by (auto simp: normalizeModelTypeName_def Let_def split: option.splits if_splits)
  have star: "\<not> ends_star ?p" using assms(8) last_in_set by (fastforce simp: ends_star_def)
  have canonical: "canonicalTypePattern ?p = Some (mt_normalized t)"
    using t(1) star assms(8) by (auto simp: canonicalTypePattern_def)
  have "CHR ''*'' \<notin> to_lower ` set ?p" using assms(8) by (metis imageE to_lower_star)
  then have "CHR ''*'' \<notin> insert CHR ''/'' (to_lower ` set ?p)" by simp
  then have "CHR ''*'' \<notin> set (mt_normalized t)" using set_create_model_type [OF t(1)] by blast
  then have "\<not> ends_star (mt_normalized t)" using last_in_set by (fastforce simp: ends_star_def)
  then have "typePatternMatchesIgnoringAt (mt_normalized t) modelType"
    using t(2) assms(6,7) by (auto simp: typePatternMatchesIgnoringAt_def Let_def)
  then show ?thesis
    using assms canonical by (auto simp: grantMatchesResource_def split: if_splits)
qed

theorem deny_matches_any_spelling_witness:
  "grantMatchesResource
     \<lparr>g_id = ''g'', g_subject = \<lparr>sb_kind = S_user, sb_name = ''ada''\<rparr>, g_effect = Deny, g_actions = [A_run],
      g_resource = \<lparr>rs_kind = K_model, rs_pattern = ''AWS::EC2::VPC''\<rparr>, g_condition = None, g_methods = None,
      g_state = Active\<rparr>
     \<lparr>ar_kind = K_model, ar_name = ''net'', ar_fields = [(''modelType'', JStr ''@aws/ec2/vpc'')], ar_kindScope = False,
      ar_anyMethod = False, ar_pending = None\<rparr>"
proof -
  have "normalizeModelTypeName ''AWS::EC2::VPC'' = Some ''aws/ec2/vpc''" "normalizeModelTypeName ''@aws/ec2/vpc'' = Some ''aws/ec2/vpc''"
    "namesTypePath ''AWS::EC2::VPC''"
    by code_simp+
  then show ?thesis
    by (intro deny_matches_any_spelling [where modelType = "''@aws/ec2/vpc''" and n = "''aws/ec2/vpc''", THEN conjunct1]) (simp_all add: string_field_def)
qed

end
