(* ===== verification/Writer_Lease.thy ===== *)
theory Writer_Lease
  imports Js_Text "HOL-Library.AList" "HOL-Library.Sublist"
begin

text \<open>
  \<^verbatim>\<open>src/src/domain/datastore_v3/writer_lease.ts\<close> and \<^verbatim>\<open>process_liveness.ts\<close>: the lease
  that makes one process the writer of a datastore, kept as records in a shared store.

  The store is its keys with their contents; a content is a JSON value, or nothing where the bytes
  are no JSON text. What the store promises is taken from the interface it implements
  (\<^verbatim>\<open>control_plane_store.ts\<close>): each call takes effect at once and of several creates of one key one
  succeeds. \<^verbatim>\<open>Date.parse\<close> is the argument \<open>parse_date\<close> and \<^verbatim>\<open>toISOString\<close> the argument \<open>iso_text\<close>.
\<close>

section \<open>Processes\<close>

record process_identity =
  pi_host :: string
  pi_bootId :: "string option"
  pi_startTime :: "string option"

record process_probe =
  pb_present :: bool
  pb_zombie :: bool
  pb_startTime :: "string option"

datatype process_verdict = Process_gone | Process_alive | Process_unknown

record recorded_process =
  rp_pid :: int
  rp_process :: "process_identity option"
  rp_notThisProcess :: bool

record local_process =
  lp_pid :: int
  lp_identity :: process_identity
  lp_probe :: "int \<Rightarrow> process_probe"
  lp_bootIdRequired :: bool
  lp_pidNamespaces :: "bool option"

definition startTimesDiffer :: "string option \<Rightarrow> string option \<Rightarrow> bool" where
  "startTimesDiffer recorded probed \<longleftrightarrow> recorded \<noteq> None \<and> probed \<noteq> None \<and> recorded \<noteq> probed"

definition unjudgeable :: "process_identity option \<Rightarrow> local_process \<Rightarrow> bool" where
  "unjudgeable recorded here =
     (case recorded of
        None \<Rightarrow> True
      | Some r \<Rightarrow>
          if pi_host r \<noteq> pi_host (lp_identity here) then True
          else if pi_bootId r \<noteq> pi_bootId (lp_identity here) then True
          else lp_bootIdRequired here \<and> pi_bootId r = None)"

definition judgeRecordedProcess :: "recorded_process \<Rightarrow> local_process \<Rightarrow> process_verdict" where
  "judgeRecordedProcess recorded here =
     (if unjudgeable (rp_process recorded) here then Process_unknown
      else
        let identity = the (rp_process recorded) in
        if rp_pid recorded = lp_pid here
        then (if rp_notThisProcess recorded \<or> startTimesDiffer (pi_startTime identity) (pi_startTime (lp_identity here))
              then Process_gone else Process_alive)
        else
          let probe = lp_probe here (rp_pid recorded) in
          if \<not> pb_present probe \<or> pb_zombie probe then Process_gone
          else if startTimesDiffer (pi_startTime identity) (pb_startTime probe) then Process_gone
          else Process_alive)"

definition pidNamespaceOf :: "string \<Rightarrow> string option" where
  "pidNamespaceOf host =
     (if CHR ''#'' \<notin> set host then None else Some (rev (takeWhile (\<lambda>c. c \<noteq> CHR ''#'') (rev host))))"

definition sameKernel :: "process_identity \<Rightarrow> local_process \<Rightarrow> bool" where
  "sameKernel recorded here0 =
     (let here = lp_identity here0 in
      if pi_bootId recorded \<noteq> None \<and> pi_bootId here \<noteq> None
      then
        if pi_bootId recorded \<noteq> pi_bootId here then False
        else
          let namespace = pidNamespaceOf (pi_host recorded); ours = pidNamespaceOf (pi_host here) in
          if namespace \<noteq> None \<or> ours \<noteq> None then namespace = ours
          else lp_pidNamespaces here0 = Some False \<or> pi_host recorded = pi_host here
      else if pi_host recorded \<noteq> pi_host here then False
      else if pi_bootId recorded \<noteq> pi_bootId here then False
      else \<not> lp_bootIdRequired here0)"

definition MAX_IDENTITY_FIELD_LENGTH :: nat where
  "MAX_IDENTITY_FIELD_LENGTH = 1024"

definition isField :: "json \<Rightarrow> bool" where
  "isField value = (case value of JStr s \<Rightarrow> 0 < js_length s \<and> js_length s \<le> MAX_IDENTITY_FIELD_LENGTH | _ \<Rightarrow> False)"

text \<open>The string of a field that passed \<open>isField\<close>.\<close>

definition field_text :: "json \<Rightarrow> string" where
  "field_text value = (case value of JStr s \<Rightarrow> s | _ \<Rightarrow> [])"

definition parseProcessIdentity :: "json option \<Rightarrow> process_identity option" where
  "parseProcessIdentity value =
     (case value of
        Some (JObj fs) \<Rightarrow>
          (case map_of fs ''host'' of
             Some host \<Rightarrow>
               if \<not> isField host then None
               else if \<not> list_all isField (List.map_filter (map_of fs) [''bootId'', ''startTime'']) then None
               else Some \<lparr>pi_host = field_text host, pi_bootId = map_option field_text (map_of fs ''bootId''),
                          pi_startTime = map_option field_text (map_of fs ''startTime'')\<rparr>
           | None \<Rightarrow> None)
      | _ \<Rightarrow> None)"

section \<open>Keys\<close>

definition FENCE_DIGITS :: nat where
  "FENCE_DIGITS = 12"

definition MAX_FENCE :: nat where
  "MAX_FENCE = 10 ^ FENCE_DIGITS - 1"

definition WRITER_LEASE_PREFIX :: string where
  "WRITER_LEASE_PREFIX = ''writer/''"

datatype lease_key_kind = Fence_key | Heartbeat_key | Released_key

definition key_kind_name :: "lease_key_kind \<Rightarrow> string" where
  "key_kind_name k = (case k of Fence_key \<Rightarrow> ''fence'' | Heartbeat_key \<Rightarrow> ''heartbeat'' | Released_key \<Rightarrow> ''released'')"

text \<open>\<^verbatim>\<open>padStart\<close> with zeros. A fence out of range makes \<open>padFence\<close> throw.\<close>

definition valid_fence :: "nat \<Rightarrow> bool" where
  "valid_fence fence \<longleftrightarrow> 1 \<le> fence \<and> fence \<le> MAX_FENCE"

definition padFence :: "nat \<Rightarrow> string" where
  "padFence fence = replicate (FENCE_DIGITS - length (nat_text fence)) CHR ''0'' @ nat_text fence"

definition lease_key :: "lease_key_kind \<Rightarrow> nat \<Rightarrow> string" where
  "lease_key k fence = WRITER_LEASE_PREFIX @ key_kind_name k @ ''-'' @ padFence fence"

definition fenceKey :: "nat \<Rightarrow> string" where
  "fenceKey fence = lease_key Fence_key fence"

definition heartbeatKey :: "nat \<Rightarrow> string" where
  "heartbeatKey fence = lease_key Heartbeat_key fence"

definition releasedKey :: "nat \<Rightarrow> string" where
  "releasedKey fence = lease_key Released_key fence"

definition parseWriterLeaseKey :: "string \<Rightarrow> (lease_key_kind \<times> nat) option" where
  "parseWriterLeaseKey key =
     (case find (\<lambda>k. prefix (WRITER_LEASE_PREFIX @ key_kind_name k @ ''-'') key) [Fence_key, Heartbeat_key, Released_key] of
        None \<Rightarrow> None
      | Some k \<Rightarrow>
          let ds = drop (length (WRITER_LEASE_PREFIX @ key_kind_name k @ ''-'')) key in
          if length ds \<noteq> FENCE_DIGITS \<or> \<not> list_all is_digit ds then None
          else
            let fence = digits_value ds in
            if fence < 1 \<or> MAX_FENCE < fence then None else Some (k, fence))"

section \<open>Records\<close>

record writer_lease_holder =
  wh_holder :: string
  wh_hostname :: string
  wh_pid :: int
  wh_process :: "process_identity option"

record fence_record = writer_lease_holder +
  fc_fence :: nat
  fc_nonce :: string
  fc_ttlMs :: int
  fc_acquiredAt :: string

text \<open>A safe integer among the JSON numbers.\<close>

definition int_of_text :: "string \<Rightarrow> int" where
  "int_of_text t = (if t \<noteq> [] \<and> hd t = CHR ''-'' then - int (digits_value (tl t)) else int (digits_value t))"

definition safe_integer :: "json option \<Rightarrow> int option" where
  "safe_integer value =
     (case value of
        Some (JNum t) \<Rightarrow>
          let v = int_of_text t in if int_text v = t \<and> \<bar>v\<bar> \<le> 2 ^ 53 - 1 then Some v else None
      | _ \<Rightarrow> None)"

definition json_string :: "json option \<Rightarrow> string option" where
  "json_string value = (case value of Some (JStr s) \<Rightarrow> Some s | _ \<Rightarrow> None)"

type_synonym content = "json option"

text \<open>\<^verbatim>\<open>decode\<close>: the fields of a content that is a JSON object.\<close>

definition decode_object :: "content option \<Rightarrow> (string \<times> json) list option" where
  "decode_object data = (case data of Some (Some (JObj fs)) \<Rightarrow> Some fs | _ \<Rightarrow> None)"

definition parseFenceRecord :: "(string \<Rightarrow> time option) \<Rightarrow> content option \<Rightarrow> nat \<Rightarrow> fence_record option" where
  "parseFenceRecord parse_date data fence =
     (case decode_object data of
        None \<Rightarrow> None
      | Some v \<Rightarrow>
          (case (json_string (map_of v ''holder''), json_string (map_of v ''hostname''), safe_integer (map_of v ''pid''),
                 json_string (map_of v ''nonce''), safe_integer (map_of v ''ttlMs''), json_string (map_of v ''acquiredAt'')) of
             (Some holder, Some hostname, Some pid, Some nonce, Some ttlMs, Some acquiredAt) \<Rightarrow>
               if map_of v ''fence'' \<noteq> Some (JNum (nat_text fence)) \<or> parse_date acquiredAt = None then None
               else Some \<lparr>wh_holder = holder, wh_hostname = hostname, wh_pid = pid,
                          wh_process = parseProcessIdentity (map_of v ''process''), fc_fence = fence, fc_nonce = nonce,
                          fc_ttlMs = ttlMs, fc_acquiredAt = acquiredAt\<rparr>
           | _ \<Rightarrow> None))"

definition parseHeartbeat :: "(string \<Rightarrow> time option) \<Rightarrow> content option \<Rightarrow> nat \<Rightarrow> string option \<Rightarrow> time option" where
  "parseHeartbeat parse_date data fence nonce =
     (case decode_object data of
        None \<Rightarrow> None
      | Some v \<Rightarrow>
          if map_of v ''fence'' \<noteq> Some (JNum (nat_text fence)) then None
          else if nonce \<noteq> None \<and> map_of v ''nonce'' \<noteq> map_option JStr nonce then None
          else Option.bind (json_string (map_of v ''renewedAt'')) parse_date)"

definition process_json :: "process_identity \<Rightarrow> json" where
  "process_json p =
     JObj ([(''host'', JStr (pi_host p))] @
           (case pi_bootId p of None \<Rightarrow> [] | Some b \<Rightarrow> [(''bootId'', JStr b)]) @
           (case pi_startTime p of None \<Rightarrow> [] | Some t \<Rightarrow> [(''startTime'', JStr t)]))"

definition record_json :: "fence_record \<Rightarrow> json" where
  "record_json r =
     JObj ([(''holder'', JStr (wh_holder r)), (''hostname'', JStr (wh_hostname r)), (''pid'', JNum (int_text (wh_pid r)))] @
           (case wh_process r of None \<Rightarrow> [] | Some p \<Rightarrow> [(''process'', process_json p)]) @
           [(''fence'', JNum (nat_text (fc_fence r))), (''nonce'', JStr (fc_nonce r)),
            (''ttlMs'', JNum (int_text (fc_ttlMs r))), (''acquiredAt'', JStr (fc_acquiredAt r))])"

section \<open>Judging a lease\<close>

record writer_lease_records =
  lr_fence :: "nat option"
  lr_record :: "fence_record option"
  lr_renewedAt :: "time option"
  lr_released :: bool

datatype expiry_reason = By_release | By_process_gone | By_ttl | By_unreadable

datatype writer_lease_verdict = Free | Held_by bool | Expired expiry_reason

datatype writer_lease_state = State_held | State_expired | State_released

record writer_lease_inspection =
  li_fence :: nat
  li_record :: "fence_record option"
  li_renewedAt :: "string option"
  li_state :: writer_lease_state

definition WRITER_LEASE_CLOCK_SKEW_MS :: int where
  "WRITER_LEASE_CLOCK_SKEW_MS = 10000"

definition renewed_time :: "(string \<Rightarrow> time option) \<Rightarrow> fence_record \<Rightarrow> time option \<Rightarrow> time" where
  "renewed_time parse_date r renewedAt = max (the (parse_date (fc_acquiredAt r))) (or_else 0 renewedAt)"

definition judgeWriterLease ::
  "(string \<Rightarrow> time option) \<Rightarrow> (fence_record \<Rightarrow> process_verdict) \<Rightarrow> time \<Rightarrow> int \<Rightarrow> int option
   \<Rightarrow> writer_lease_records \<Rightarrow> writer_lease_verdict" where
  "judgeWriterLease parse_date judgeHolder now ttlMs clockSkewMs records =
     (if lr_fence records = None then Free
      else if lr_released records then Expired By_release
      else
        let skew = or_else WRITER_LEASE_CLOCK_SKEW_MS clockSkewMs in
        case lr_record records of
          None \<Rightarrow>
            (case lr_renewedAt records of
               Some t \<Rightarrow> if now - t \<le> ttlMs + skew then Held_by True else Expired By_unreadable
             | None \<Rightarrow> Expired By_unreadable)
        | Some r \<Rightarrow>
            if judgeHolder r = Process_gone then Expired By_process_gone
            else if now - renewed_time parse_date r (lr_renewedAt records) > fc_ttlMs r + skew then Expired By_ttl
            else Held_by False)"

text \<open>What a listing of the keys says: the highest fence, and the fences marked released.\<close>

definition listed_key :: "string \<Rightarrow> nat option \<times> nat list \<Rightarrow> nat option \<times> nat list" where
  "listed_key key fr =
     (case parseWriterLeaseKey key of
        None \<Rightarrow> fr
      | Some (k, f) \<Rightarrow>
          (if k = Fence_key \<and> (fst fr = None \<or> the (fst fr) < f) then Some f else fst fr,
           if k = Released_key then f # snd fr else snd fr))"

definition listed :: "string list \<Rightarrow> nat option \<times> nat list" where
  "listed keys = fold listed_key keys (None, [])"

definition lease_records ::
  "(string \<Rightarrow> time option) \<Rightarrow> string list \<Rightarrow> content option \<Rightarrow> content option \<Rightarrow> writer_lease_records" where
  "lease_records parse_date keys fence_data heartbeat_data =
     (case listed keys of
        (None, _) \<Rightarrow> \<lparr>lr_fence = None, lr_record = None, lr_renewedAt = None, lr_released = False\<rparr>
      | (Some fence, released) \<Rightarrow>
          let rec = parseFenceRecord parse_date fence_data fence in
          \<lparr>lr_fence = Some fence, lr_record = rec,
           lr_renewedAt = parseHeartbeat parse_date heartbeat_data fence (map_option fc_nonce rec),
           lr_released = fence \<in> set released\<rparr>)"

definition inspectionOf ::
  "(string \<Rightarrow> time option) \<Rightarrow> (time \<Rightarrow> string) \<Rightarrow> writer_lease_records \<Rightarrow> writer_lease_state \<Rightarrow> writer_lease_inspection" where
  "inspectionOf parse_date iso_text records state =
     \<lparr>li_fence = the (lr_fence records), li_record = lr_record records,
      li_renewedAt = map_option (\<lambda>r. iso_text (renewed_time parse_date r (lr_renewedAt records))) (lr_record records),
      li_state = state\<rparr>"

definition inspect_lease ::
  "(string \<Rightarrow> time option) \<Rightarrow> (time \<Rightarrow> string) \<Rightarrow> writer_lease_records \<Rightarrow> writer_lease_verdict \<Rightarrow> writer_lease_inspection option" where
  "inspect_lease parse_date iso_text records verdict =
     (if lr_fence records = None then None
      else Some (inspectionOf parse_date iso_text records
        (case verdict of
           Held_by _ \<Rightarrow> State_held
         | Expired By_release \<Rightarrow> State_released
         | _ \<Rightarrow> State_expired)))"

text \<open>The fence an acquire tries to create.\<close>

definition next_fence :: "writer_lease_records \<Rightarrow> nat option \<Rightarrow> nat" where
  "next_fence records floor_fence = max (or_else 0 (lr_fence records)) (or_else 0 floor_fence) + 1"

section \<open>Holds\<close>

datatype fenced_reason = Taken_over nat | Was_released

record hold =
  ho_record :: fence_record
  ho_lost :: "fenced_reason option"
  ho_released :: bool

definition hold_fence :: "hold \<Rightarrow> nat" where
  "hold_fence h = fc_fence (ho_record h)"

definition check_key :: "nat \<Rightarrow> string \<Rightarrow> nat \<times> bool \<Rightarrow> nat \<times> bool" where
  "check_key fence key hr =
     (case parseWriterLeaseKey key of
        None \<Rightarrow> hr
      | Some (k, f) \<Rightarrow>
          (if k = Fence_key \<and> fst hr < f then f else fst hr, snd hr \<or> k = Released_key \<and> f = fence))"

text \<open>\<^verbatim>\<open>#check\<close> on a listing: it leaves the hold with what it found, or found before.\<close>

definition check_hold :: "string list \<Rightarrow> hold \<Rightarrow> hold" where
  "check_hold keys h =
     (case fold (check_key (hold_fence h)) keys (hold_fence h, False) of
        (highest, released) \<Rightarrow>
          if hold_fence h < highest then h\<lparr>ho_lost := Some (Taken_over highest)\<rparr>
          else if released then h\<lparr>ho_lost := Some Was_released\<rparr>
          else h)"

definition heartbeat_json :: "(time \<Rightarrow> string) \<Rightarrow> time \<Rightarrow> hold \<Rightarrow> json" where
  "heartbeat_json iso_text now h =
     JObj [(''fence'', JNum (nat_text (hold_fence h))), (''nonce'', JStr (fc_nonce (ho_record h))),
           (''renewedAt'', JStr (iso_text now))]"

definition released_json :: "(time \<Rightarrow> string) \<Rightarrow> time \<Rightarrow> nat \<Rightarrow> string \<Rightarrow> json" where
  "released_json iso_text now fence released_by =
     JObj [(''fence'', JNum (nat_text fence)), (''releasedAt'', JStr (iso_text now)), (''by'', JStr released_by)]"

text \<open>The keys \<^verbatim>\<open>#prune\<close> deletes after a takeover at a fence.\<close>

definition prunable :: "nat \<Rightarrow> string \<Rightarrow> bool" where
  "prunable fence key = (case parseWriterLeaseKey key of Some (_, f) \<Rightarrow> int f < int fence - 1 | None \<Rightarrow> False)"

section \<open>Processes that share the store\<close>

type_synonym store = "(string \<times> content) list"

text \<open>The calls on the store.\<close>

definition store_put :: "string \<Rightarrow> json \<Rightarrow> store \<Rightarrow> store" where
  "store_put key data st = AList.update key (Some data) st"

definition store_absent :: "string \<Rightarrow> store \<Rightarrow> bool" where
  "store_absent key st \<longleftrightarrow> map_of st key = None"

definition store_putIfAbsent :: "string \<Rightarrow> json \<Rightarrow> store \<Rightarrow> store" where
  "store_putIfAbsent key data st = (if store_absent key st then st @ [(key, Some data)] else st)"

definition store_delete :: "string \<Rightarrow> store \<Rightarrow> store" where
  "store_delete key st = AList.delete key st"

definition store_list :: "store \<Rightarrow> string list" where
  "store_list st = filter (prefix WRITER_LEASE_PREFIX) (map fst st)"

definition readWriterLeaseRecords :: "(string \<Rightarrow> time option) \<Rightarrow> store \<Rightarrow> writer_lease_records" where
  "readWriterLeaseRecords parse_date st =
     (case fst (listed (store_list st)) of
        None \<Rightarrow> lease_records parse_date (store_list st) None None
      | Some fence \<Rightarrow> lease_records parse_date (store_list st) (map_of st (fenceKey fence)) (map_of st (heartbeatKey fence)))"

text \<open>
  Where a process is in \<^verbatim>\<open>acquire\<close>, \<^verbatim>\<open>advance\<close> or an operation of its hold, between two calls on the
  store. \<open>For_take (Some h)\<close> is the take of an \<^verbatim>\<open>advance\<close> from the hold \<open>h\<close>.
\<close>

datatype purpose = For_take "hold option" | For_renew | For_assert | For_advance

datatype pc =
    Idle
  | Listing
  | Getting_record "string list"
  | Getting_heartbeat "string list" "content option"
  | Deciding writer_lease_records
  | Waiting_lease
  | Creating "hold option" nat
  | Checking purpose hold
  | Beating purpose hold
  | Sweeping "hold option" hold
  | Deleting "hold option" hold "string list"
  | Marking hold pc pc
  | Clearing hold pc pc
  | Holding hold

text \<open>
  \<^verbatim>\<open>release\<close> of a hold, after which the process goes on at \<open>nxt\<close>, or at \<open>thrown\<close> when a call of it
  throws. A release of a process of its own leaves it with nothing, or with a hold it cannot release
  again.
\<close>

definition releasing :: "hold \<Rightarrow> pc \<Rightarrow> pc \<Rightarrow> pc" where
  "releasing h nxt thrown =
     (if ho_released h then nxt
      else if ho_lost h = None then Marking (h\<lparr>ho_released := True\<rparr>) nxt thrown
      else Clearing (h\<lparr>ho_released := True\<rparr>) nxt thrown)"

text \<open>
  Where a take leaves the process that gave no hold, that threw, and that gave one; the release of
  the old hold of an \<^verbatim>\<open>advance\<close> goes on when it throws.
\<close>

definition take_failed :: "hold option \<Rightarrow> pc" where
  "take_failed old = (case old of None \<Rightarrow> Waiting_lease | Some h \<Rightarrow> releasing h Idle Idle)"

definition take_threw :: "hold option \<Rightarrow> pc" where
  "take_threw old = (case old of None \<Rightarrow> Idle | Some h \<Rightarrow> Holding h)"

definition take_done :: "hold option \<Rightarrow> hold \<Rightarrow> pc" where
  "take_done old h = (case old of None \<Rightarrow> Holding h | Some o' \<Rightarrow> releasing o' (Holding h) (Holding h))"

definition after_check :: "purpose \<Rightarrow> hold \<Rightarrow> pc" where
  "after_check p h =
     (case p of
        For_take old \<Rightarrow> if ho_lost h = None then Beating p h else releasing h (take_failed old) (take_threw old)
      | For_renew \<Rightarrow> if ho_lost h = None then Beating p h else Holding h
      | For_assert \<Rightarrow> Holding h
      | For_advance \<Rightarrow> if ho_lost h = None \<and> valid_fence (hold_fence h + 1) then Creating (Some h) (hold_fence h + 1)
                       else Holding h)"

definition after_throw :: "purpose \<Rightarrow> hold \<Rightarrow> pc" where
  "after_throw p h = (case p of For_take old \<Rightarrow> releasing h (take_threw old) (take_threw old) | _ \<Rightarrow> Holding h)"

definition new_hold :: "writer_lease_holder \<Rightarrow> nat \<Rightarrow> string \<Rightarrow> int \<Rightarrow> string \<Rightarrow> hold" where
  "new_hold holder fence nonce ttlMs acquiredAt =
     \<lparr>ho_record = \<lparr>wh_holder = wh_holder holder, wh_hostname = wh_hostname holder, wh_pid = wh_pid holder,
        wh_process = wh_process holder, fc_fence = fence, fc_nonce = nonce, fc_ttlMs = ttlMs, fc_acquiredAt = acquiredAt\<rparr>,
      ho_lost = None, ho_released = False\<rparr>"

datatype lease_event = Quiet | Created nat | Granted nat

text \<open>
  One call of a process on the store, or its decision between two calls. Clocks, nonces, the verdict
  on the process of a holder and the time to live are any: a verdict that a lease is not held may be
  wrong. Any call may throw, and a write that throws may have taken effect. Not kept: how long a
  process waits, and the second read of an \<^verbatim>\<open>acquire\<close> that found the lease taken, which only fills
  the error. A \<open>Granted\<close> event is the check in which a take finds its fence the highest.
\<close>

inductive lease_move :: "store \<Rightarrow> pc \<Rightarrow> lease_event \<Rightarrow> store \<Rightarrow> pc \<Rightarrow> bool" where
  begin_acquire: "lease_move st Idle Quiet st Listing"
| list_keys: "lease_move st Listing Quiet st
    (case fst (listed (store_list st)) of
       None \<Rightarrow> Deciding (lease_records parse_date (store_list st) None None)
     | Some _ \<Rightarrow> Getting_record (store_list st))"
| get_record: "fst (listed keys) = Some fence \<Longrightarrow>
    lease_move st (Getting_record keys) Quiet st (Getting_heartbeat keys (map_of st (fenceKey fence)))"
| get_heartbeat: "fst (listed keys) = Some fence \<Longrightarrow>
    lease_move st (Getting_heartbeat keys data) Quiet st
      (Deciding (lease_records parse_date keys data (map_of st (heartbeatKey fence))))"
| decide_take: "\<not> (\<exists>unknown. judgeWriterLease parse_date judgeHolder now ttlMs skew records = Held_by unknown) \<Longrightarrow>
    valid_fence (next_fence records floor_fence) \<Longrightarrow>
    lease_move st (Deciding records) Quiet st (Creating None (next_fence records floor_fence))"
| decide_wait: "judgeWriterLease parse_date judgeHolder now ttlMs skew records = Held_by unknown \<Longrightarrow>
    lease_move st (Deciding records) Quiet st Waiting_lease"
| decide_throws: "\<not> valid_fence (next_fence records floor_fence) \<Longrightarrow> lease_move st (Deciding records) Quiet st Idle"
| read_throws: "p \<in> {Listing, Getting_record keys, Getting_heartbeat keys data} \<Longrightarrow> lease_move st p Quiet st Idle"
| retry: "lease_move st Waiting_lease Quiet st Listing"
| busy: "lease_move st Waiting_lease Quiet st Idle"
| create: "store_absent (fenceKey f) st \<Longrightarrow> h = new_hold holder f nonce ttlMs acquiredAt \<Longrightarrow>
    lease_move st (Creating old f) (Created f) (store_putIfAbsent (fenceKey f) (record_json (ho_record h)) st)
      (Checking (For_take old) h)"
| create_unsure: "store_absent (fenceKey f) st \<Longrightarrow> h = new_hold holder f nonce ttlMs acquiredAt \<Longrightarrow>
    lease_move st (Creating old f) (Created f) (store_putIfAbsent (fenceKey f) (record_json (ho_record h)) st)
      (take_threw old)"
| create_taken: "\<not> store_absent (fenceKey f) st \<Longrightarrow> lease_move st (Creating old f) Quiet st (take_failed old)"
| create_throws: "lease_move st (Creating old f) Quiet st (take_threw old)"
| check_take: "ho_lost (check_hold (store_list st) h) = None \<Longrightarrow>
    lease_move st (Checking (For_take old) h) (Granted (hold_fence h)) st
      (after_check (For_take old) (check_hold (store_list st) h))"
| check_take_lost: "ho_lost (check_hold (store_list st) h) \<noteq> None \<Longrightarrow>
    lease_move st (Checking (For_take old) h) Quiet st (after_check (For_take old) (check_hold (store_list st) h))"
| check_held: "p \<in> {For_renew, For_assert, For_advance} \<Longrightarrow>
    lease_move st (Checking p h) Quiet st (after_check p (check_hold (store_list st) h))"
| check_throws: "lease_move st (Checking p h) Quiet st (after_throw p h)"
| beat: "lease_move st (Beating p h) Quiet (store_put (heartbeatKey (hold_fence h)) (heartbeat_json iso_text now h) st)
    (case p of For_take old \<Rightarrow> Sweeping old h | _ \<Rightarrow> Holding h)"
| beat_throws: "lease_move st (Beating p h) Quiet st (after_throw p h)"
| beat_unsure: "lease_move st (Beating p h) Quiet (store_put (heartbeatKey (hold_fence h)) (heartbeat_json iso_text now h) st)
    (after_throw p h)"
| sweep: "lease_move st (Sweeping old h) Quiet st (Deleting old h (filter (prunable (hold_fence h)) (store_list st)))"
| sweep_throws: "lease_move st (Sweeping old h) Quiet st (take_threw old)"
| delete: "lease_move st (Deleting old h (key # keys)) Quiet (store_delete key st) (Deleting old h keys)"
| delete_throws: "lease_move st (Deleting old h (key # keys)) Quiet st (Deleting old h keys)"
| deleted: "lease_move st (Deleting old h []) Quiet st (take_done old h)"
| start_check: "ho_lost h = None \<Longrightarrow> p \<in> {For_renew, For_assert, For_advance} \<Longrightarrow>
    lease_move st (Holding h) Quiet st (Checking p h)"
| start_release: "lease_move st (Holding h) Quiet st (releasing h Idle (Holding (h\<lparr>ho_released := True\<rparr>)))"
| mark: "lease_move st (Marking h nxt thrown) Quiet
    (store_putIfAbsent (releasedKey (hold_fence h)) (released_json iso_text now (hold_fence h) ''holder'') st)
    (Clearing (h\<lparr>ho_lost := Some Was_released\<rparr>) nxt thrown)"
| mark_throws: "lease_move st (Marking h nxt thrown) Quiet st thrown"
| mark_unsure: "lease_move st (Marking h nxt thrown) Quiet
    (store_putIfAbsent (releasedKey (hold_fence h)) (released_json iso_text now (hold_fence h) ''holder'') st) thrown"
| clear: "lease_move st (Clearing h nxt thrown) Quiet (store_delete (heartbeatKey (hold_fence h)) st) nxt"
| clear_throws: "lease_move st (Clearing h nxt thrown) Quiet st thrown"
| clear_unsure: "lease_move st (Clearing h nxt thrown) Quiet (store_delete (heartbeatKey (hold_fence h)) st) thrown"

definition created_by :: "lease_event \<Rightarrow> nat list" where
  "created_by ev = (case ev of Created f \<Rightarrow> [f] | _ \<Rightarrow> [])"

definition granted_by :: "lease_event \<Rightarrow> nat list" where
  "granted_by ev = (case ev of Granted f \<Rightarrow> [f] | _ \<Rightarrow> [])"

record lease_config =
  cf_store :: store
  cf_pc :: "nat \<Rightarrow> pc"
  cf_created :: "nat list"
  cf_granted :: "nat list"

text \<open>
  The processes take turns call by call; \<open>cf_created\<close> and \<open>cf_granted\<close> only record what happened. A
  call on a hold may run beside another one: the renewals of a timer beside the checks of commits.
  A forced release marks the fence that was the highest when it read the records.
\<close>

definition forceRelease :: "writer_lease_records \<Rightarrow> string \<Rightarrow> nat option" where
  "forceRelease records nonce =
     (case (lr_fence records, lr_record records) of
        (Some fence, Some r) \<Rightarrow> if fc_nonce r = nonce then Some fence else None
      | _ \<Rightarrow> None)"

inductive lease_step :: "lease_config \<Rightarrow> lease_config \<Rightarrow> bool" where
  move: "lease_move (cf_store c) (cf_pc c i) ev st pc' \<Longrightarrow>
    lease_step c (c\<lparr>cf_store := st, cf_pc := (cf_pc c)(i := pc'),
      cf_created := cf_created c @ created_by ev,
      cf_granted := cf_granted c @ granted_by ev\<rparr>)"
| beside: "cf_pc c i = Holding h \<Longrightarrow> cf_pc c j = Idle \<Longrightarrow> lease_step c (c\<lparr>cf_pc := (cf_pc c)(j := Holding h)\<rparr>)"
| force_release: "forceRelease records nonce = Some fence \<Longrightarrow> valid_fence fence \<Longrightarrow>
    lease_step c (c\<lparr>cf_store := store_putIfAbsent (releasedKey fence) (released_json iso_text now fence ''force'') (cf_store c)\<rparr>)"

definition fences_in :: "store \<Rightarrow> nat list" where
  "fences_in st = map snd (filter (\<lambda>kf. fst kf = Fence_key) (List.map_filter parseWriterLeaseKey (map fst st)))"

definition lease_init :: "lease_config \<Rightarrow> bool" where
  "lease_init c \<longleftrightarrow> (\<forall>i. cf_pc c i = Idle) \<and> cf_created c = fences_in (cf_store c) \<and> cf_granted c = []"

section \<open>What every configuration keeps\<close>

text \<open>
  The fences a process created and has not checked; the fences its holds name are created ones, and
  what it is about to delete is older than the fence before its own.
\<close>

fun pending :: "pc \<Rightarrow> nat set" where
  "pending (Checking p h) = (case p of For_take _ \<Rightarrow> {hold_fence h} | _ \<Rightarrow> {})"
| "pending (Marking h nxt thrown) = pending nxt \<union> pending thrown"
| "pending (Clearing h nxt thrown) = pending nxt \<union> pending thrown"
| "pending _ = {}"

definition old_ok :: "nat set \<Rightarrow> hold option \<Rightarrow> bool" where
  "old_ok F old = (case old of None \<Rightarrow> True | Some h \<Rightarrow> hold_fence h \<in> F)"

definition purpose_ok :: "nat set \<Rightarrow> purpose \<Rightarrow> bool" where
  "purpose_ok F p = (case p of For_take old \<Rightarrow> old_ok F old | _ \<Rightarrow> True)"

fun pc_ok :: "nat set \<Rightarrow> pc \<Rightarrow> bool" where
  "pc_ok F (Creating old f) \<longleftrightarrow> valid_fence f \<and> old_ok F old"
| "pc_ok F (Checking p h) \<longleftrightarrow> hold_fence h \<in> F \<and> purpose_ok F p"
| "pc_ok F (Beating p h) \<longleftrightarrow> hold_fence h \<in> F \<and> purpose_ok F p"
| "pc_ok F (Sweeping old h) \<longleftrightarrow> hold_fence h \<in> F \<and> old_ok F old"
| "pc_ok F (Deleting old h ks) \<longleftrightarrow> hold_fence h \<in> F \<and> old_ok F old \<and> list_all (prunable (hold_fence h)) ks"
| "pc_ok F (Marking h nxt thrown) \<longleftrightarrow> hold_fence h \<in> F \<and> pc_ok F nxt \<and> pc_ok F thrown"
| "pc_ok F (Clearing h nxt thrown) \<longleftrightarrow> hold_fence h \<in> F \<and> pc_ok F nxt \<and> pc_ok F thrown"
| "pc_ok F (Holding h) \<longleftrightarrow> hold_fence h \<in> F"
| "pc_ok F _ \<longleftrightarrow> True"

definition key_set :: "store \<Rightarrow> string set" where
  "key_set st = fst ` set st"

definition topmost :: "nat set \<Rightarrow> nat \<Rightarrow> bool" where
  "topmost F f \<longleftrightarrow> f \<in> F \<and> (\<forall>g\<in>F. g \<le> f)"

text \<open>The highest fence ever created still has its record, and one process at most may yet find it highest.\<close>

definition lease_inv :: "lease_config \<Rightarrow> bool" where
  "lease_inv c \<longleftrightarrow>
     (\<forall>f\<in>set (cf_created c). valid_fence f) \<and>
     (\<forall>f. topmost (set (cf_created c)) f \<longrightarrow> fenceKey f \<in> key_set (cf_store c)) \<and>
     (\<forall>i. pc_ok (set (cf_created c)) (cf_pc c i)) \<and>
     (\<forall>f i j. topmost (set (cf_created c)) f \<longrightarrow> f \<in> pending (cf_pc c i) \<longrightarrow> f \<in> pending (cf_pc c j) \<longrightarrow> i = j) \<and>
     (\<forall>f i. topmost (set (cf_created c)) f \<longrightarrow> f \<in> pending (cf_pc c i) \<longrightarrow> f \<notin> set (cf_granted c)) \<and>
     set (cf_granted c) \<subseteq> set (cf_created c) \<and>
     sorted_wrt (<) (cf_granted c)"

text \<open>A configuration in which one process is at a point.\<close>

definition config_at :: "lease_config \<Rightarrow> nat \<Rightarrow> nat list \<Rightarrow> nat list \<Rightarrow> store \<Rightarrow> pc \<Rightarrow> lease_config" where
  "config_at c i cr gr st p = c\<lparr>cf_store := st, cf_pc := (cf_pc c)(i := p), cf_created := cr, cf_granted := gr\<rparr>"

section \<open>A key names one record\<close>

lemma digit_value_less: "is_digit c \<Longrightarrow> of_char c - 48 < (10 :: nat)"
  by (auto simp: is_digit_iff)

lemma digit_value_inj:
  assumes "is_digit c" "is_digit d" "of_char c - 48 = (of_char d - 48 :: nat)"
  shows "c = d"
proof -
  have "(of_char c :: nat) = of_char d"
    using assms unfolding is_digit_iff by arith
  then show ?thesis by simp
qed

text \<open>Digits of one length are given by their value.\<close>

lemma digits_value_inj:
  "\<lbrakk>list_all is_digit ds; list_all is_digit es; length ds = length es; digits_value ds = digits_value es\<rbrakk> \<Longrightarrow> ds = es"
proof (induction ds arbitrary: es rule: rev_induct)
  case Nil
  then show ?case by simp
next
  case (snoc c ds)
  then obtain es' d where es: "es = es' @ [d]"
    by (metis length_0_conv append_Nil2 length_append_singleton rev_exhaust nat.distinct(1))
  have c: "of_char c - 48 < (10 :: nat)" and d: "of_char d - 48 < (10 :: nat)"
    using snoc.prems es by (simp_all add: digit_value_less)
  from snoc.prems es have sum: "10 * digits_value ds + (of_char c - 48) = 10 * digits_value es' + (of_char d - 48)"
    by simp
  with c d have "digits_value ds = digits_value es'" and last: "of_char c - 48 = (of_char d - 48 :: nat)"
    by presburger+
  moreover have "c = d"
    using snoc.prems es by (intro digit_value_inj [OF _ _ last]) simp_all
  moreover have "list_all is_digit ds" "list_all is_digit es'" "length ds = length es'"
    using snoc.prems es by simp_all
  ultimately show ?case
    using snoc.IH [of es'] es by blast
qed

lemma padFence_digits: "list_all is_digit (padFence fence)"
  using nat_text_digits [of fence] by (auto simp: padFence_def list_all_iff is_digit_iff)

lemma padFence_value [simp]: "digits_value (padFence fence) = fence"
  by (simp add: padFence_def)

lemma padFence_length: "valid_fence fence \<Longrightarrow> length (padFence fence) = FENCE_DIGITS"
  using nat_text_length [of fence 11] by (simp add: padFence_def valid_fence_def MAX_FENCE_def FENCE_DIGITS_def)

lemma padFence_of_digits:
  assumes "list_all is_digit ds" "length ds = FENCE_DIGITS" "valid_fence (digits_value ds)"
  shows "padFence (digits_value ds) = ds"
  using assms by (intro digits_value_inj) (simp_all add: padFence_digits padFence_length)

lemma parse_found:
  "parseWriterLeaseKey (WRITER_LEASE_PREFIX @ key_kind_name k @ CHR ''-'' # ds) =
     (if length ds \<noteq> FENCE_DIGITS \<or> \<not> list_all is_digit ds \<or> \<not> valid_fence (digits_value ds) then None
      else Some (k, digits_value ds))"
  by (cases k) (auto simp: parseWriterLeaseKey_def WRITER_LEASE_PREFIX_def key_kind_name_def valid_fence_def Let_def not_less)

lemma parse_some_shape:
  assumes "parseWriterLeaseKey key = Some (k, f)"
  obtains ds where "key = WRITER_LEASE_PREFIX @ key_kind_name k @ CHR ''-'' # ds"
proof -
  from assms have "find (\<lambda>k. prefix (WRITER_LEASE_PREFIX @ key_kind_name k @ ''-'') key)
      [Fence_key, Heartbeat_key, Released_key] = Some k"
    by (auto simp: parseWriterLeaseKey_def Let_def split: option.splits if_splits)
  then have "prefix (WRITER_LEASE_PREFIX @ key_kind_name k @ ''-'') key"
    by (simp only: find_Some_iff) blast
  then show thesis
    using that by (auto elim: prefixE)
qed

lemma parse_lease_key_iff: "parseWriterLeaseKey key = Some (k, f) \<longleftrightarrow> valid_fence f \<and> key = lease_key k f"
  (is "?parsed \<longleftrightarrow> ?written")
proof
  assume ?parsed
  then obtain ds where "key = WRITER_LEASE_PREFIX @ key_kind_name k @ CHR ''-'' # ds"
    by (rule parse_some_shape)
  with \<open>?parsed\<close> show ?written
    by (auto simp: parse_found lease_key_def padFence_of_digits split: if_splits)
next
  assume ?written
  then show ?parsed
    by (simp add: lease_key_def parse_found padFence_digits padFence_length)
qed

lemma parse_lease_key [simp]: "valid_fence f \<Longrightarrow> parseWriterLeaseKey (lease_key k f) = Some (k, f)"
  by (simp add: parse_lease_key_iff)

lemmas lease_keys = fenceKey_def heartbeatKey_def releasedKey_def

lemma lease_key_inj: "valid_fence f \<Longrightarrow> lease_key k f = lease_key k' f' \<Longrightarrow> valid_fence f' \<Longrightarrow> k = k' \<and> f = f'"
  by (metis option.inject parse_lease_key_iff prod.inject)

lemma fenceKey_inj: "fenceKey f = fenceKey g \<Longrightarrow> valid_fence f \<Longrightarrow> valid_fence g \<Longrightarrow> f = g"
  using lease_key_inj unfolding lease_keys by blast

text \<open>
  \<open>parseWriterLeaseKey\<close> reads exactly the keys that \<open>fenceKey\<close>, \<open>heartbeatKey\<close> and \<open>releasedKey\<close> write for a
  valid fence, each as the record it was written for: a key that is unpadded, out of range or of
  another kind is ignored, so it can neither alias a record nor stand for a fence.\<close>

theorem parseWriterLeaseKey_iff:
  "parseWriterLeaseKey key = Some (k, f) \<longleftrightarrow>
     valid_fence f \<and> key = (case k of Fence_key \<Rightarrow> fenceKey f | Heartbeat_key \<Rightarrow> heartbeatKey f | Released_key \<Rightarrow> releasedKey f)"
  by (cases k) (simp_all add: parse_lease_key_iff lease_keys)

section \<open>The store\<close>

text \<open>What the lease needs of a store: a write adds its key, and only a delete of the key itself removes it.\<close>

locale record_store =
  fixes keys_of :: "'st \<Rightarrow> string set"
    and put_rec create_rec :: "string \<Rightarrow> 'v \<Rightarrow> 'st \<Rightarrow> 'st"
    and delete_rec :: "string \<Rightarrow> 'st \<Rightarrow> 'st"
  assumes keys_put: "keys_of (put_rec k v st) = insert k (keys_of st)"
    and keys_create: "keys_of (create_rec k v st) = insert k (keys_of st)"
    and keys_delete: "keys_of (delete_rec k st) = keys_of st - {k}"
begin

lemma put_keeps: "k \<in> keys_of st \<Longrightarrow> k \<in> keys_of (put_rec k' v st)"
  by (simp add: keys_put)

lemma create_keeps: "k \<in> keys_of st \<Longrightarrow> k \<in> keys_of (create_rec k' v st)"
  by (simp add: keys_create)

lemma delete_keeps: "k \<in> keys_of st \<Longrightarrow> k \<noteq> k' \<Longrightarrow> k \<in> keys_of (delete_rec k' st)"
  by (simp add: keys_delete)

lemmas keeps = put_keeps create_keeps delete_keeps

end

lemma store_absent_iff: "store_absent key st \<longleftrightarrow> key \<notin> key_set st"
  by (simp add: store_absent_def key_set_def map_of_eq_None_iff)

interpretation ls: record_store key_set store_put store_putIfAbsent store_delete
proof
  show "key_set (store_put k v st) = insert k (key_set st)" for k v st
    by (simp add: key_set_def store_put_def dom_update)
  show "key_set (store_putIfAbsent k v st) = insert k (key_set st)" for k v st
    using store_absent_iff [of k st] by (auto simp: key_set_def store_putIfAbsent_def)
  show "key_set (store_delete k st) = key_set st - {k}" for k st
    using arg_cong [OF delete_keys [of k st], of set] by (simp add: key_set_def store_delete_def)
qed

section \<open>What one call does\<close>

lemma hold_fence_upd [simp]:
  "hold_fence (h\<lparr>ho_released := b\<rparr>) = hold_fence h" "hold_fence (h\<lparr>ho_lost := l\<rparr>) = hold_fence h"
  by (simp_all add: hold_fence_def)

lemma hold_fence_new [simp]: "hold_fence (new_hold holder f nonce ttlMs acquiredAt) = f"
  by (simp add: hold_fence_def new_hold_def)

lemma hold_fence_check [simp]: "hold_fence (check_hold ks h) = hold_fence h"
  by (simp add: check_hold_def split: prod.split)

lemma releasing_ok: "\<lbrakk>hold_fence h \<in> F; pc_ok F nxt; pc_ok F thrown\<rbrakk> \<Longrightarrow> pc_ok F (releasing h nxt thrown)"
  by (simp add: releasing_def)

lemma take_failed_ok: "old_ok F old \<Longrightarrow> pc_ok F (take_failed old)"
  by (cases old) (simp_all add: take_failed_def old_ok_def releasing_ok)

lemma take_threw_ok: "old_ok F old \<Longrightarrow> pc_ok F (take_threw old)"
  by (cases old) (simp_all add: take_threw_def old_ok_def)

lemma take_done_ok: "old_ok F old \<Longrightarrow> hold_fence h \<in> F \<Longrightarrow> pc_ok F (take_done old h)"
  by (cases old) (simp_all add: take_done_def old_ok_def releasing_ok)

lemma after_check_ok: "purpose_ok F p \<Longrightarrow> hold_fence h \<in> F \<Longrightarrow> pc_ok F (after_check p h)"
  by (cases p) (simp_all add: after_check_def purpose_ok_def old_ok_def releasing_ok take_failed_ok take_threw_ok)

lemma after_throw_ok: "purpose_ok F p \<Longrightarrow> hold_fence h \<in> F \<Longrightarrow> pc_ok F (after_throw p h)"
  by (cases p) (simp_all add: after_throw_def purpose_ok_def releasing_ok take_threw_ok)

lemma old_ok_mono: "F \<subseteq> G \<Longrightarrow> old_ok F old \<Longrightarrow> old_ok G old"
  by (auto simp: old_ok_def split: option.splits)

lemma purpose_ok_mono: "F \<subseteq> G \<Longrightarrow> purpose_ok F p \<Longrightarrow> purpose_ok G p"
  by (auto simp: purpose_ok_def intro: old_ok_mono split: purpose.splits)

lemma pc_ok_mono: "pc_ok F p \<Longrightarrow> F \<subseteq> G \<Longrightarrow> pc_ok G p"
  by (induction p rule: pc_ok.induct) (auto intro: old_ok_mono purpose_ok_mono)

lemma pending_created: "pc_ok F p \<Longrightarrow> pending p \<subseteq> F"
  by (induction p rule: pc_ok.induct) (auto split: purpose.splits)

lemmas go_on_ok = releasing_ok take_failed_ok take_threw_ok take_done_ok after_check_ok after_throw_ok

lemma move_ok:
  assumes "lease_move st p ev st' p'" and "pc_ok F p"
  shows "pc_ok (F \<union> set (created_by ev)) p'"
  using assms
proof (induction rule: lease_move.induct)
  case (list_keys st parse_date)
  then show ?case by (simp split: option.split)
next
  case (create f st h holder nonce ttlMs acquiredAt old)
  then show ?case by (auto simp: created_by_def purpose_ok_def intro: old_ok_mono)
next
  case (create_unsure f st h holder nonce ttlMs acquiredAt old)
  then show ?case by (auto simp: created_by_def intro: take_threw_ok old_ok_mono)
next
  case (beat st p h iso_text now)
  then show ?case by (simp add: purpose_ok_def created_by_def split: purpose.splits)
next
  case (sweep st old h)
  then show ?case by (simp add: created_by_def list_all_iff)
next
  case (start_check h p st)
  then show ?case by (auto simp: created_by_def purpose_ok_def)
next
  case (check_take st h old)
  then show ?case by (simp add: created_by_def purpose_ok_def go_on_ok)
next
  case (check_take_lost st h old)
  then show ?case by (simp add: created_by_def purpose_ok_def go_on_ok)
next
  case (check_held p st h)
  then show ?case by (simp add: created_by_def go_on_ok)
qed (auto simp: created_by_def old_ok_def intro: go_on_ok)

lemma releasing_pending: "pending (releasing h nxt thrown) \<subseteq> pending nxt \<union> pending thrown"
  by (simp add: releasing_def)

lemma take_pending [simp]:
  "pending (take_failed old) = {}" "pending (take_threw old) = {}" "pending (take_done old h) = {}"
  by (simp_all add: take_failed_def take_threw_def take_done_def releasing_def split: option.split)

lemma after_pending [simp]: "pending (after_check p h) = {}" "pending (after_throw p h) = {}"
  by (simp_all add: after_check_def after_throw_def releasing_def split: purpose.split)

lemma move_pending:
  assumes "lease_move st p ev st' p'"
  shows "pending p' \<subseteq> (case ev of Quiet \<Rightarrow> pending p | Created f \<Rightarrow> {f} | Granted f \<Rightarrow> {})"
  using assms
proof (induction rule: lease_move.induct)
  case (list_keys st parse_date)
  then show ?case by (simp split: option.split)
next
  case (beat st p h iso_text now)
  then show ?case by (simp split: purpose.split)
next
  case (start_check h p st)
  then show ?case by auto
qed (auto simp: releasing_def split: if_splits)

lemma move_grants:
  assumes "lease_move st p (Granted f) st' p'"
  obtains old h where "p = Checking (For_take old) h" "f = hold_fence h" "st' = st"
    "ho_lost (check_hold (store_list st) h) = None"
  using assms by (cases rule: lease_move.cases) auto

lemma move_creates:
  assumes "lease_move st p (Created f) st' p'"
  obtains old data where "p = Creating old f" "fenceKey f \<notin> key_set st" "st' = store_putIfAbsent (fenceKey f) data st"
  using assms by (cases rule: lease_move.cases) (auto simp: store_absent_iff)

text \<open>A fence's record is older than the fence before a sweeper's own, or the sweeper leaves it.\<close>

lemma prunable_fenceKey: "valid_fence f \<Longrightarrow> prunable n (fenceKey f) \<longleftrightarrow> int f < int n - 1"
proof -
  assume "valid_fence f"
  then have "parseWriterLeaseKey (fenceKey f) = Some (Fence_key, f)"
    by (simp add: parse_lease_key_iff lease_keys)
  then show ?thesis by (simp add: prunable_def)
qed

lemma other_kind_key: "valid_fence f \<Longrightarrow> valid_fence g \<Longrightarrow> fenceKey f \<noteq> heartbeatKey g"
  by (metis lease_key_inj lease_key_kind.distinct(1) lease_keys(1,2))

lemma move_keeps:
  assumes "lease_move st p ev st' p'" and "pc_ok F p" and "\<forall>g\<in>F. valid_fence g"
    and "topmost F f" and "fenceKey f \<in> key_set st"
  shows "fenceKey f \<in> key_set st'"
proof -
  have f: "valid_fence f" "\<forall>g\<in>F. g \<le> f"
    using assms by (auto simp: topmost_def)
  have swept: "\<not> prunable (hold_fence h) (fenceKey f)" if "hold_fence h \<in> F" for h
    using that f prunable_fenceKey [OF f(1)] by fastforce
  have beats: "fenceKey f \<noteq> heartbeatKey (hold_fence h)" if "hold_fence h \<in> F" for h
    using that assms(3) f(1) other_kind_key by blast
  show ?thesis
    using assms(1,2,5)
    by (induction rule: lease_move.induct) (auto simp: swept beats ls.keys_put ls.keys_create ls.keys_delete)
qed

lemma check_key_highest:
  "m \<le> fst (fold (check_key n) ks (m, b)) \<and>
   (\<forall>k f. k \<in> set ks \<longrightarrow> parseWriterLeaseKey k = Some (Fence_key, f) \<longrightarrow> f \<le> fst (fold (check_key n) ks (m, b)))"
proof (induction ks arbitrary: m b)
  case Nil
  then show ?case by simp
next
  case (Cons key ks)
  obtain m' b' where mb: "check_key n key (m, b) = (m', b')" by fastforce
  then have "m \<le> m'" and "\<And>f. parseWriterLeaseKey key = Some (Fence_key, f) \<Longrightarrow> f \<le> m'"
    by (auto simp: check_key_def split: option.splits if_splits)
  with Cons.IH [of m' b'] mb show ?case
    by (auto intro: order.trans)
qed

lemma lease_key_listed: "lease_key k f \<in> set (store_list st) \<longleftrightarrow> lease_key k f \<in> key_set st"
  by (auto simp: store_list_def key_set_def lease_key_def)

text \<open>A check that finds nothing against a hold has seen no higher fence in the store.\<close>

lemma check_sees_highest:
  assumes "ho_lost (check_hold (store_list st) h) = None" and "valid_fence g" and "fenceKey g \<in> key_set st"
  shows "g \<le> hold_fence h"
proof -
  have "parseWriterLeaseKey (fenceKey g) = Some (Fence_key, g)" "fenceKey g \<in> set (store_list st)"
    using assms(2,3) by (simp_all add: parse_lease_key_iff lease_keys lease_key_listed)
  then have "g \<le> fst (fold (check_key (hold_fence h)) (store_list st) (hold_fence h, False))"
    using check_key_highest by blast
  also have "\<dots> \<le> hold_fence h"
    using assms(1) by (auto simp: check_hold_def split: prod.splits if_splits)
  finally show ?thesis .
qed

section \<open>No fence is granted twice\<close>

lemma topmost_append:
  assumes "topmost (F \<union> G) f" and "f \<in> F"
  shows "topmost F f"
  using assms by (simp add: topmost_def)

lemma lease_invD:
  assumes "lease_inv c"
  shows "\<And>f. f \<in> set (cf_created c) \<Longrightarrow> valid_fence f"
    and "\<And>f. topmost (set (cf_created c)) f \<Longrightarrow> fenceKey f \<in> key_set (cf_store c)"
    and "\<And>i. pc_ok (set (cf_created c)) (cf_pc c i)"
    and "\<And>f i j. \<lbrakk>topmost (set (cf_created c)) f; f \<in> pending (cf_pc c i); f \<in> pending (cf_pc c j)\<rbrakk> \<Longrightarrow> i = j"
    and "\<And>f i. \<lbrakk>topmost (set (cf_created c)) f; f \<in> pending (cf_pc c i)\<rbrakk> \<Longrightarrow> f \<notin> set (cf_granted c)"
    and "set (cf_granted c) \<subseteq> set (cf_created c)"
    and "sorted_wrt (<) (cf_granted c)"
  using assms unfolding lease_inv_def by blast+

lemma lease_invI:
  assumes "\<And>f. f \<in> set (cf_created c) \<Longrightarrow> valid_fence f"
    and "\<And>f. topmost (set (cf_created c)) f \<Longrightarrow> fenceKey f \<in> key_set (cf_store c)"
    and "\<And>i. pc_ok (set (cf_created c)) (cf_pc c i)"
    and "\<And>f i j. \<lbrakk>topmost (set (cf_created c)) f; f \<in> pending (cf_pc c i); f \<in> pending (cf_pc c j)\<rbrakk> \<Longrightarrow> i = j"
    and "\<And>f i. \<lbrakk>topmost (set (cf_created c)) f; f \<in> pending (cf_pc c i)\<rbrakk> \<Longrightarrow> f \<notin> set (cf_granted c)"
    and "set (cf_granted c) \<subseteq> set (cf_created c)"
    and "sorted_wrt (<) (cf_granted c)"
  shows "lease_inv c"
  using assms unfolding lease_inv_def by blast

text \<open>A quiet call leaves fewer fences pending, and every record that counts.\<close>

lemma quiet_inv:
  assumes inv: "lease_inv c"
    and kept: "\<And>f. topmost (set (cf_created c)) f \<Longrightarrow> fenceKey f \<in> key_set st"
    and ok: "pc_ok (set (cf_created c)) p'" and less: "pending p' \<subseteq> pending (cf_pc c i)"
  shows "lease_inv (c\<lparr>cf_store := st, cf_pc := (cf_pc c)(i := p')\<rparr>)"
proof -
  note D = lease_invD [OF inv]
  let ?c = "c\<lparr>cf_store := st, cf_pc := (cf_pc c)(i := p')\<rparr>"
  have narrow: "f \<in> pending (cf_pc c j)" if "f \<in> pending (cf_pc ?c j)" for f j
    using that less by (auto split: if_splits)
  show "lease_inv ?c"
  proof (rule lease_invI)
    show "j = k" if "topmost (set (cf_created ?c)) f" "f \<in> pending (cf_pc ?c j)" "f \<in> pending (cf_pc ?c k)" for f j k
      using D(4) [OF _ narrow [OF that(2)] narrow [OF that(3)]] that(1) by simp
    show "f \<notin> set (cf_granted ?c)" if "topmost (set (cf_created ?c)) f" "f \<in> pending (cf_pc ?c j)" for f j
      using D(5) [OF _ narrow [OF that(2)]] that(1) by simp
  qed (use D(1,3,6,7) kept ok in simp_all)
qed

lemma created_inv:
  assumes inv: "lease_inv c" and f: "valid_fence f" and new: "fenceKey f \<notin> key_set (cf_store c)"
    and ok: "pc_ok (insert f (set (cf_created c))) p'" and pend: "pending p' \<subseteq> {f}"
  shows "lease_inv (c\<lparr>cf_store := store_putIfAbsent (fenceKey f) data (cf_store c), cf_pc := (cf_pc c)(i := p'),
    cf_created := cf_created c @ [f]\<rparr>)"
    (is "lease_inv ?c")
proof -
  note D = lease_invD [OF inv]
  have only: "j = i \<and> g = f \<or> g \<in> pending (cf_pc c j) \<and> g \<in> set (cf_created c)"
    if "g \<in> pending (cf_pc ?c j)" for g j
    using that pend pending_created [OF D(3)] by (auto split: if_splits)
  have fresh: "f \<notin> set (cf_created c)" if "topmost (insert f (set (cf_created c))) f"
    using that D(2) [of f] new by (auto simp: topmost_def)
  have old: "topmost (set (cf_created c)) g" if "topmost (insert f (set (cf_created c))) g" "g \<in> set (cf_created c)" for g
    using that by (simp add: topmost_def)
  show ?thesis
  proof (rule lease_invI)
    show "fenceKey g \<in> key_set (cf_store ?c)" if "topmost (set (cf_created ?c)) g" for g
      using that old [of g] D(2) [of g] by (auto simp: topmost_def ls.keys_create)
    show "pc_ok (set (cf_created ?c)) (cf_pc ?c j)" for j
      using ok pc_ok_mono [OF D(3) [of j] subset_insertI] by simp
    show "j = k" if "topmost (set (cf_created ?c)) g" "g \<in> pending (cf_pc ?c j)" "g \<in> pending (cf_pc ?c k)" for g j k
    proof -
      have "topmost (insert f (set (cf_created c))) g" using that(1) by simp
      then show ?thesis using only [OF that(2)] only [OF that(3)] fresh old [of g] D(4) [of g j k] by blast
    qed
    show "g \<notin> set (cf_granted ?c)" if "topmost (set (cf_created ?c)) g" "g \<in> pending (cf_pc ?c j)" for g j
    proof -
      have "topmost (insert f (set (cf_created c))) g" using that(1) by simp
      then have "g \<notin> set (cf_granted c)" using only [OF that(2)] fresh old [of g] D(5) [of g j] D(6) by blast
      then show ?thesis by simp
    qed
    show "valid_fence g" if "g \<in> set (cf_created ?c)" for g
      using that f D(1) by auto
    show "set (cf_granted ?c) \<subseteq> set (cf_created ?c)" "sorted_wrt (<) (cf_granted ?c)"
      using D(6,7) by auto
  qed
qed

lemma granted_inv:
  assumes inv: "lease_inv c" and pc: "cf_pc c i = Checking (For_take old) h"
    and won: "ho_lost (check_hold (store_list (cf_store c)) h) = None"
    and ok: "pc_ok (set (cf_created c)) p'" and pend: "pending p' = {}"
  shows "lease_inv (c\<lparr>cf_store := cf_store c, cf_pc := (cf_pc c)(i := p'), cf_granted := cf_granted c @ [hold_fence h]\<rparr>)"
    (is "lease_inv ?c")
proof -
  note D = lease_invD [OF inv]
  let ?F = "set (cf_created c)"
  have h: "hold_fence h \<in> ?F" "hold_fence h \<in> pending (cf_pc c i)"
    using D(3) [of i] pc by simp_all
  obtain t where t: "topmost ?F t"
    using Max_in [of ?F] Max_ge [of ?F] h(1) by (metis List.finite_set empty_iff topmost_def)
  then have "t \<le> hold_fence h"
    using check_sees_highest [OF won] D(1,2) by (simp add: topmost_def)
  with t h(1) have top: "topmost ?F (hold_fence h)"
    by (auto simp: topmost_def)
  have above: "g < hold_fence h" if "g \<in> set (cf_granted c)" for g
    using that top D(5) [OF top h(2)] D(6) unfolding topmost_def by (metis le_neq_implies_less subsetD)
  have same: "g = hold_fence h" if "topmost ?F g" for g
    using that top by (auto simp: topmost_def intro: antisym)
  have narrow: "j \<noteq> i \<and> g \<in> pending (cf_pc c j)" if "g \<in> pending (cf_pc ?c j)" for g j
    using that pend by (auto split: if_splits)
  show ?thesis
  proof (rule lease_invI)
    show "j = k" if "topmost (set (cf_created ?c)) g" "g \<in> pending (cf_pc ?c j)" "g \<in> pending (cf_pc ?c k)" for g j k
      using D(4) [of g j k] narrow [OF that(2)] narrow [OF that(3)] that(1) by simp
    show "g \<notin> set (cf_granted ?c)" if "topmost (set (cf_created ?c)) g" "g \<in> pending (cf_pc ?c j)" for g j
      using same [of g] narrow [OF that(2)] D(4) [OF top h(2), of j] that(1) by auto
    show "sorted_wrt (<) (cf_granted ?c)"
      using D(7) above by (simp add: sorted_wrt_append)
  qed (use D(1,2,3,6) ok h(1) in simp_all)
qed

lemma move_inv:
  assumes inv: "lease_inv c" and move: "lease_move (cf_store c) (cf_pc c i) ev st p'"
  shows "lease_inv (c\<lparr>cf_store := st, cf_pc := (cf_pc c)(i := p'),
    cf_created := cf_created c @ created_by ev, cf_granted := cf_granted c @ granted_by ev\<rparr>)"
proof -
  note D = lease_invD [OF inv]
  note ok = move_ok [OF move D(3)] and pend = move_pending [OF move]
  show ?thesis
  proof (cases ev)
    case Quiet
    have "fenceKey f \<in> key_set st" if "topmost (set (cf_created c)) f" for f
      using move_keeps [OF move D(3) _ that D(2) [OF that]] D(1) by blast
    with quiet_inv [OF inv] ok pend Quiet show ?thesis
      by (simp add: created_by_def granted_by_def)
  next
    case (Created f)
    with move obtain old data where "cf_pc c i = Creating old f" "fenceKey f \<notin> key_set (cf_store c)"
      and st: "st = store_putIfAbsent (fenceKey f) data (cf_store c)"
      by (blast elim: move_creates)
    with created_inv [OF inv] D(3) [of i] ok pend Created show ?thesis
      by (simp add: created_by_def granted_by_def)
  next
    case (Granted f)
    with move obtain old h where "cf_pc c i = Checking (For_take old) h" "f = hold_fence h" "st = cf_store c"
      "ho_lost (check_hold (store_list (cf_store c)) h) = None"
      by (blast elim: move_grants)
    with granted_inv [OF inv] ok pend Granted show ?thesis
      by (simp add: created_by_def granted_by_def)
  qed
qed

lemma fence_in_store: "f \<in> set (fences_in st) \<longleftrightarrow> valid_fence f \<and> fenceKey f \<in> key_set st"
proof -
  have "f \<in> set (fences_in st) \<longleftrightarrow> (\<exists>key\<in>key_set st. parseWriterLeaseKey key = Some (Fence_key, f))"
    by (force simp: fences_in_def key_set_def List.map_filter_def split: option.splits)
  then show ?thesis
    by (auto simp: parse_lease_key_iff lease_keys)
qed

lemma lease_init_inv: "lease_init c \<Longrightarrow> lease_inv c"
  by (rule lease_invI) (auto simp: lease_init_def topmost_def fence_in_store)

lemma lease_step_inv: "lease_step c c' \<Longrightarrow> lease_inv c \<Longrightarrow> lease_inv c'"
proof (induction rule: lease_step.induct)
  case (move c i ev st pc')
  then show ?case by (blast intro: move_inv)
next
  case (beside c i h j)
  then have "pc_ok (set (cf_created c)) (Holding h)"
    using lease_invD(3) [of c i] by simp
  with quiet_inv [of c "cf_store c" "Holding h" j] beside show ?case
    using lease_invD(2) by simp
next
  case (force_release records nonce fence c iso_text now)
  then show ?case
    using lease_invD [of c] by (intro lease_invI) (simp_all add: ls.keeps)
qed

lemma reachable_inv: "lease_step\<^sup>*\<^sup>* c c' \<Longrightarrow> lease_init c \<Longrightarrow> lease_inv c'"
  by (induction rule: rtranclp_induct) (auto intro: lease_init_inv lease_step_inv)

text \<open>C1. Safety of the writer lease never depends on clocks. From a store with any records in it and no
  process at work, however the calls of the processes interleave, whatever their clocks, their
  verdicts on other holders and the calls that throw, the fences of the takes that succeeded are
  strictly increasing: no fence is granted to two writers, and a later writer has a higher fence.\<close>

theorem fences_granted_increase:
  assumes "lease_init c" and "lease_step\<^sup>*\<^sup>* c c'"
  shows "sorted_wrt (<) (cf_granted c') \<and> set (cf_granted c') \<subseteq> set (cf_created c')"
  using lease_invD(6,7) [OF reachable_inv] assms by blast

section \<open>A vacant lease is taken\<close>

lemma move_at:
  assumes "lease_move st p ev st' p'"
  shows "lease_step (config_at c i cr gr st p) (config_at c i (cr @ created_by ev) (gr @ granted_by ev) st' p')"
  using lease_step.move [of "config_at c i cr gr st p" i] assms
  by (simp add: config_at_def)

lemma quiet_at: "lease_move st p Quiet st' p' \<Longrightarrow> lease_step (config_at c i cr gr st p) (config_at c i cr gr st' p')"
  using move_at [of st p Quiet st' p'] by (simp add: created_by_def granted_by_def)

lemma listed_highest:
  "\<lbrakk>k \<in> set ks; parseWriterLeaseKey k = Some (Fence_key, f)\<rbrakk> \<Longrightarrow> \<exists>m. fst (fold listed_key ks fr) = Some m \<and> f \<le> m"
  and listed_grows: "fst fr = Some n \<Longrightarrow> \<exists>m. fst (fold listed_key ks fr) = Some m \<and> n \<le> m"
proof (induction ks arbitrary: fr n)
  case Nil
  { case 1 then show ?case by simp }
  { case 2 then show ?case by simp }
next
  case (Cons key ks)
  { case 1
    show ?case
    proof (cases "k = key")
      case True
      with 1 have "\<exists>m. fst (listed_key key fr) = Some m \<and> f \<le> m"
        by (cases "fst fr") (auto simp: listed_key_def)
      then show ?thesis using Cons.IH(2) [of "listed_key key fr"] by (auto intro: order.trans)
    qed (use 1 Cons.IH(1) [of "listed_key key fr"] in simp) }
  { case 2
    then have "\<exists>m. fst (listed_key key fr) = Some m \<and> n \<le> m"
      by (auto simp: listed_key_def split: option.splits)
    then show ?case using Cons.IH(2) [of "listed_key key fr"] by (auto intro: order.trans) }
qed

lemma lr_fence_read: "lr_fence (readWriterLeaseRecords parse_date st) = fst (listed (store_list st))"
  by (auto simp: readWriterLeaseRecords_def lease_records_def Let_def split: option.splits prod.splits)

lemma fence_below_next:
  assumes "valid_fence g" and "fenceKey g \<in> key_set st"
  shows "g < next_fence (readWriterLeaseRecords parse_date st) floor_fence"
proof -
  have "fenceKey g \<in> set (store_list st)" "parseWriterLeaseKey (fenceKey g) = Some (Fence_key, g)"
    using assms by (simp_all add: lease_keys lease_key_listed parse_lease_key_iff)
  then obtain m where "fst (listed (store_list st)) = Some m" "g \<le> m"
    unfolding listed_def using listed_highest by blast
  then show ?thesis by (simp add: next_fence_def lr_fence_read or_else_def)
qed

lemma check_hold_clear:
  assumes "\<And>g. \<lbrakk>valid_fence g; fenceKey g \<in> key_set st\<rbrakk> \<Longrightarrow> g \<le> hold_fence h"
    and "releasedKey (hold_fence h) \<notin> key_set st"
  shows "check_hold (store_list st) h = h"
proof -
  have one: "check_key (hold_fence h) key (hold_fence h, False) = (hold_fence h, False)" if "key \<in> set (store_list st)" for key
  proof -
    have "key \<in> key_set st" using that by (auto simp: store_list_def key_set_def)
    then have "f \<le> hold_fence h" if "parseWriterLeaseKey key = Some (Fence_key, f)" for f
      using that assms(1) by (simp add: parse_lease_key_iff lease_keys)
    moreover have "parseWriterLeaseKey key \<noteq> Some (Released_key, hold_fence h)"
      using assms(2) \<open>key \<in> key_set st\<close> by (auto simp: parse_lease_key_iff lease_keys)
    ultimately show ?thesis
      by (auto simp: check_key_def not_less split: option.splits)
  qed
  have "fold (check_key (hold_fence h)) ks (hold_fence h, False) = (hold_fence h, False)"
    if "set ks \<subseteq> set (store_list st)" for ks
    using that by (induction ks) (simp_all add: one)
  then show ?thesis by (simp add: check_hold_def)
qed

text \<open>The calls of one process while no other makes any.\<close>

lemma read_run:
  "lease_step\<^sup>*\<^sup>* (config_at c i cr gr st Idle) (config_at c i cr gr st (Deciding (readWriterLeaseRecords parse_date st)))"
    (is "lease_step\<^sup>*\<^sup>* (?at Idle) (?at (Deciding _))")
proof -
  have start: "lease_step\<^sup>*\<^sup>* (?at Idle) (?at Listing)"
    using quiet_at [OF begin_acquire] by (rule r_into_rtranclp)
  show ?thesis
  proof (cases "fst (listed (store_list st))")
    case None
    then have "lease_step (?at Listing) (?at (Deciding (readWriterLeaseRecords parse_date st)))"
      using quiet_at [OF list_keys [of st parse_date]] by (simp add: readWriterLeaseRecords_def)
    with start show ?thesis by (rule rtranclp.rtrancl_into_rtrancl)
  next
    case (Some fence)
    let ?ks = "store_list st" and ?data = "map_of st (fenceKey fence)"
    have "lease_step (?at Listing) (?at (Getting_record ?ks))"
      using quiet_at [OF list_keys [of st parse_date]] Some by simp
    moreover have "lease_step (?at (Getting_record ?ks)) (?at (Getting_heartbeat ?ks ?data))"
      by (rule quiet_at [OF get_record [OF Some]])
    moreover have "lease_step (?at (Getting_heartbeat ?ks ?data)) (?at (Deciding (readWriterLeaseRecords parse_date st)))"
      using quiet_at [OF get_heartbeat [OF Some, of st ?data parse_date]] Some
      by (simp add: readWriterLeaseRecords_def)
    ultimately show ?thesis
      using start by (blast intro: rtranclp.rtrancl_into_rtrancl)
  qed
qed

lemma delete_run:
  "\<exists>st'. lease_step\<^sup>*\<^sup>* (config_at c i cr gr st (Deleting None h ks)) (config_at c i cr gr st' (Holding h)) \<and>
     key_set st' = key_set st - set ks"
proof (induction ks arbitrary: st)
  case Nil
  have "lease_step (config_at c i cr gr st (Deleting None h [])) (config_at c i cr gr st (Holding h))"
    using quiet_at [OF deleted [of st None h]] by (simp add: take_done_def)
  then show ?case by auto
next
  case (Cons key ks)
  from Cons.IH [of "store_delete key st"] obtain st' where
    "lease_step\<^sup>*\<^sup>* (config_at c i cr gr (store_delete key st) (Deleting None h ks)) (config_at c i cr gr st' (Holding h))"
    "key_set st' = key_set st - set (key # ks)"
    by (auto simp: ls.keys_delete)
  with quiet_at [OF delete [of st None h key ks]] show ?case
    by (blast intro: converse_rtranclp_into_rtranclp)
qed

lemma not_prunable_own:
  assumes "valid_fence f"
  shows "\<not> prunable f (fenceKey f) \<and> \<not> prunable f (heartbeatKey f)"
proof -
  have "parseWriterLeaseKey (fenceKey f) = Some (Fence_key, f)" "parseWriterLeaseKey (heartbeatKey f) = Some (Heartbeat_key, f)"
    using assms by (simp_all add: parse_lease_key_iff lease_keys)
  then show ?thesis by (simp add: prunable_def)
qed

lemma taken_run:
  fixes holder :: writer_lease_holder
  assumes new: "fenceKey f \<notin> key_set st" "releasedKey f \<notin> key_set st" and f: "valid_fence f"
    and low: "\<And>g. \<lbrakk>valid_fence g; fenceKey g \<in> key_set st\<rbrakk> \<Longrightarrow> g \<le> f"
    and h: "h = new_hold holder f nonce ttlMs acquiredAt"
  shows "\<exists>st'. {fenceKey f, heartbeatKey f} \<subseteq> key_set st' \<and> key_set st' \<subseteq> {fenceKey f, heartbeatKey f} \<union> key_set st \<and>
    lease_step\<^sup>*\<^sup>* (config_at c i cr gr st (Creating None f)) (config_at c i (cr @ [f]) (gr @ [f]) st' (Holding h))"
proof -
  let ?st = "store_putIfAbsent (fenceKey f) (record_json (ho_record h)) st"
  let ?beat = "store_put (heartbeatKey f) (heartbeat_json iso_text now h) ?st"
  let ?at = "config_at c i (cr @ [f])"
  have hf: "hold_fence h = f" and lost: "ho_lost h = None"
    using h by (simp_all add: new_hold_def hold_fence_def)
  have "releasedKey f \<noteq> fenceKey f"
    using lease_key_inj [OF f _ f] unfolding lease_keys by blast
  then have checked: "check_hold (store_list ?st) h = h"
    using new low f hf by (intro check_hold_clear) (auto simp: ls.keys_create dest: fenceKey_inj)
  have "lease_step (config_at c i cr gr st (Creating None f)) (?at gr ?st (Checking (For_take None) h))"
    using move_at [OF create [OF _ h, of st None]] new by (simp add: store_absent_iff created_by_def granted_by_def)
  moreover have "lease_step (?at gr ?st (Checking (For_take None) h)) (?at (gr @ [f]) ?st (Beating (For_take None) h))"
    using move_at [OF check_take [of ?st h None]] checked lost hf
    by (simp add: after_check_def created_by_def granted_by_def)
  moreover have "lease_step (?at (gr @ [f]) ?st (Beating (For_take None) h)) (?at (gr @ [f]) ?beat (Sweeping None h))"
    using quiet_at [OF beat [of ?st "For_take None" h iso_text now]] hf by simp
  moreover have "lease_step (?at (gr @ [f]) ?beat (Sweeping None h))
      (?at (gr @ [f]) ?beat (Deleting None h (filter (prunable f) (store_list ?beat))))"
    using quiet_at [OF sweep [of ?beat None h]] hf by simp
  moreover obtain st' where "lease_step\<^sup>*\<^sup>* (?at (gr @ [f]) ?beat (Deleting None h (filter (prunable f) (store_list ?beat))))
      (?at (gr @ [f]) st' (Holding h))" and "key_set st' = key_set ?beat - set (filter (prunable f) (store_list ?beat))"
    using delete_run by blast
  ultimately show ?thesis
    using not_prunable_own [OF f]
    by (intro exI [of _ st']) (auto simp: ls.keys_put ls.keys_create intro: converse_rtranclp_into_rtranclp)
qed

lemma vacant_run:
  fixes c :: lease_config and holder :: writer_lease_holder
  assumes idle: "cf_pc c i = Idle"
    and vacant: "\<not> (\<exists>unknown. judgeWriterLease parse_date judgeHolder now ttlMs skew
                      (readWriterLeaseRecords parse_date (cf_store c)) = Held_by unknown)"
    and f: "f = next_fence (readWriterLeaseRecords parse_date (cf_store c)) floor_fence" "valid_fence f"
    and unmarked: "releasedKey f \<notin> key_set (cf_store c)"
  shows "\<exists>c'. lease_step\<^sup>*\<^sup>* c c' \<and> cf_pc c' i = Holding (new_hold holder f nonce ttlMs acquiredAt) \<and>
           cf_granted c' = cf_granted c @ [f] \<and> {fenceKey f, heartbeatKey f} \<subseteq> key_set (cf_store c') \<and>
           key_set (cf_store c') \<subseteq> {fenceKey f, heartbeatKey f} \<union> key_set (cf_store c) \<and>
           (\<forall>j. j \<noteq> i \<longrightarrow> cf_pc c' j = cf_pc c j)"
proof -
  let ?st = "cf_store c" and ?records = "readWriterLeaseRecords parse_date (cf_store c)"
  let ?at = "config_at c i (cf_created c) (cf_granted c) ?st" and ?h = "new_hold holder f nonce ttlMs acquiredAt"
  have low: "g < f" if "valid_fence g" "fenceKey g \<in> key_set ?st" for g
    unfolding f(1) using that by (rule fence_below_next)
  have "?at Idle = c"
    using idle by (cases c) (simp add: config_at_def fun_upd_idem)
  with read_run [of c i "cf_created c" "cf_granted c" ?st parse_date]
  have "lease_step\<^sup>*\<^sup>* c (?at (Deciding ?records))" by (simp only:)
  moreover have "lease_step (?at (Deciding ?records)) (?at (Creating None f))"
    using quiet_at [OF decide_take [OF vacant, of floor_fence]] f by simp
  moreover have "fenceKey f \<notin> key_set ?st"
    using low [OF f(2)] by blast
  then obtain st' where "{fenceKey f, heartbeatKey f} \<subseteq> key_set st'" "key_set st' \<subseteq> {fenceKey f, heartbeatKey f} \<union> key_set ?st"
      "lease_step\<^sup>*\<^sup>* (?at (Creating None f)) (config_at c i (cf_created c @ [f]) (cf_granted c @ [f]) st' (Holding ?h))"
    using taken_run [OF _ unmarked f(2) less_imp_le [OF low] refl] by blast
  ultimately show ?thesis
    by (intro exI [of _ "config_at c i (cf_created c @ [f]) (cf_granted c @ [f]) st' (Holding ?h)"] conjI)
      (auto simp: config_at_def intro: rtranclp_trans rtranclp.rtrancl_into_rtrancl)
qed


lemma valid_small: "1 \<le> f \<Longrightarrow> f \<le> 1000 \<Longrightarrow> valid_fence f"
  by (simp add: valid_fence_def MAX_FENCE_def FENCE_DIGITS_def)

lemma listed_found: "fst (fold listed_key ks fr) = Some m \<Longrightarrow>
    fst fr = Some m \<or> (\<exists>k\<in>set ks. parseWriterLeaseKey k = Some (Fence_key, m))"
proof (induction ks arbitrary: fr)
  case Nil
  then show ?case by simp
next
  case (Cons key ks)
  then have "fst (listed_key key fr) = Some m \<or> (\<exists>k\<in>set ks. parseWriterLeaseKey k = Some (Fence_key, m))"
    by simp
  then show ?case by (auto simp: listed_key_def split: option.splits if_splits)
qed

lemma only_fence_next:
  assumes "fenceKey f \<in> key_set st" "valid_fence f" "\<And>g. fenceKey g \<in> key_set st \<Longrightarrow> valid_fence g \<Longrightarrow> g = f"
  shows "next_fence (readWriterLeaseRecords parse_date st) None = f + 1"
proof -
  have "f < next_fence (readWriterLeaseRecords parse_date st) None"
    using assms(1,2) by (intro fence_below_next)
  moreover have "m = f" if m: "fst (listed (store_list st)) = Some m" for m
  proof -
    obtain k where k: "k \<in> set (store_list st)" "parseWriterLeaseKey k = Some (Fence_key, m)"
      using m listed_found [of "store_list st" "(None, [])" m] by (auto simp: listed_def)
    then have "valid_fence m" "fenceKey m \<in> key_set st"
      by (auto simp: parse_lease_key_iff lease_keys store_list_def key_set_def)
    then show ?thesis using assms(3) by blast
  qed
  ultimately show ?thesis
    by (auto simp: next_fence_def lr_fence_read or_else_def split: option.splits)
qed

lemma undated_not_held:
  "\<not> (\<exists>unknown. judgeWriterLease (\<lambda>_. None) judgeHolder now ttlMs skew (readWriterLeaseRecords (\<lambda>_. None) st) = Held_by unknown)"
proof -
  have none: "lr_record (readWriterLeaseRecords (\<lambda>_. None) st) = None" "lr_renewedAt (readWriterLeaseRecords (\<lambda>_. None) st) = None"
    by (auto simp: readWriterLeaseRecords_def lease_records_def parseFenceRecord_def parseHeartbeat_def Let_def
        split: option.splits prod.splits)
  then show ?thesis by (simp add: judgeWriterLease_def Let_def)
qed


text \<open>Two writers in turn, the second one on a wrong verdict about the first.\<close>

theorem fences_granted_increase_witness:
  "\<exists>c'. lease_step\<^sup>*\<^sup>* \<lparr>cf_store = [], cf_pc = (\<lambda>_. Idle), cf_created = [], cf_granted = []\<rparr> c' \<and>
     cf_granted c' = [1, 2] \<and> sorted_wrt (<) (cf_granted c') \<and> set (cf_granted c') \<subseteq> set (cf_created c')"
proof -
  let ?c = "\<lparr>cf_store = [], cf_pc = (\<lambda>_. Idle), cf_created = [], cf_granted = []\<rparr>"
  let ?holder = "\<lparr>wh_holder = ''serve'', wh_hostname = ''h'', wh_pid = 7, wh_process = None\<rparr>"
  have one: "1 = next_fence (readWriterLeaseRecords (\<lambda>_. None) (cf_store ?c)) None"
    by (simp add: next_fence_def lr_fence_read listed_def store_list_def or_else_def)
  have "cf_pc ?c 0 = Idle" "valid_fence 1" "releasedKey 1 \<notin> key_set (cf_store ?c)"
    by (simp_all add: valid_small key_set_def)
  from vacant_run [where holder = ?holder, OF this(1) undated_not_held one this(2,3)]
  obtain c1 where c1: "lease_step\<^sup>*\<^sup>* ?c c1" "cf_granted c1 = cf_granted ?c @ [1]" "\<forall>j. j \<noteq> 0 \<longrightarrow> cf_pc c1 j = cf_pc ?c j"
      "fenceKey 1 \<in> key_set (cf_store c1)" "key_set (cf_store c1) \<subseteq> {fenceKey 1, heartbeatKey 1} \<union> key_set (cf_store ?c)"
    by blast
  have idle: "cf_pc c1 1 = Idle" using c1(3) by simp
  have fence: "g = 1" if "fenceKey g \<in> key_set (cf_store c1)" "valid_fence g" for g
    using that c1(5) fenceKey_inj [of g 1] other_kind_key [of g 1] valid_small [of 1] by (auto simp: key_set_def)
  have two: "2 = next_fence (readWriterLeaseRecords (\<lambda>_. None) (cf_store c1)) None"
    using only_fence_next [OF c1(4) _ fence] by (simp add: valid_small)
  have unmarked: "releasedKey 2 \<notin> key_set (cf_store c1)"
    using c1(5) lease_key_inj [of 2 Released_key Fence_key 1] lease_key_inj [of 2 Released_key Heartbeat_key 1]
      valid_small [of 2] valid_small [of 1] unfolding lease_keys by (auto simp: key_set_def)
  have "valid_fence 2" by (simp add: valid_small)
  from vacant_run [where holder = ?holder, OF idle undated_not_held two this unmarked]
  obtain c2 where "lease_step\<^sup>*\<^sup>* c1 c2" "cf_granted c2 = cf_granted c1 @ [2]" by blast
  with c1(1,2) have c2: "lease_step\<^sup>*\<^sup>* ?c c2" "cf_granted c2 = [1, 2]" by simp_all
  moreover have "lease_init ?c" by (simp add: lease_init_def fences_in_def List.map_filter_def)
  ultimately show ?thesis
    using fences_granted_increase [of ?c c2] by blast
qed

end
