(* ===== verification/Partition_Key.thy ===== *)
theory Partition_Key
  imports Signal_Wait Model_Type
begin

text \<open>
  \<^verbatim>\<open>src/src/domain/datastore_v3/partition_key.ts\<close>, \<^verbatim>\<open>record_key.ts\<close> and of \<^verbatim>\<open>intent.ts\<close> the intents and the partition each
  belongs to. A key names the aggregate whose commits a partition holds; its segments are percent-encoded
  with \<^verbatim>\<open>encodeURIComponent\<close>, which is modelled on the UTF-8 bytes.
\<close>

section \<open>Percent encoding\<close>

definition uri_unreserved :: "char \<Rightarrow> bool" where
  "uri_unreserved c \<longleftrightarrow> is_lower c \<or> is_upper c \<or> is_digit c \<or> c \<in> set ''-_.!~*()'' \<or> c = CHR 0x27"

definition upper_hex :: "nat \<Rightarrow> char" where
  "upper_hex n = (if n < 10 then char_of (48 + n) else char_of (55 + n))"

definition encode_byte :: "char \<Rightarrow> string" where
  "encode_byte c =
     (if uri_unreserved c then [c] else [CHR ''%'', upper_hex (of_char c div 16), upper_hex (of_char c mod 16)])"

definition encodeURIComponent :: "string \<Rightarrow> string" where
  "encodeURIComponent s = concat (map encode_byte s)"

text \<open>\<^verbatim>\<open>replaceAll("%40", "@")\<close>.\<close>

function literal_at :: "string \<Rightarrow> string" where
  "literal_at s =
     (case s of
        [] \<Rightarrow> []
      | c # cs \<Rightarrow> if take 3 s = ''%40'' then CHR ''@'' # literal_at (drop 3 s) else c # literal_at cs)"
  by pat_completeness auto
termination by (relation "measure length") auto

declare literal_at.simps [simp del]

definition encodeSegment :: "string \<Rightarrow> string" where
  "encodeSegment segment = literal_at (encodeURIComponent segment)"

text \<open>The hexadecimal digits of an escape, in either case; 16 is none.\<close>

definition hex_of :: "char \<Rightarrow> nat" where
  "hex_of c =
     (if is_digit c then of_char c - 48
      else if between CHR ''A'' CHR ''F'' c then of_char c - 55
      else if between CHR ''a'' CHR ''f'' c then of_char c - 87
      else 16)"

fun unescape_bytes :: "string \<Rightarrow> string option" where
  "unescape_bytes [] = Some []"
| "unescape_bytes (c # cs) =
     (if c \<noteq> CHR ''%'' then map_option ((#) c) (unescape_bytes cs)
      else case cs of
             a # b # r \<Rightarrow>
               if hex_of a < 16 \<and> hex_of b < 16
               then map_option ((#) (char_of (16 * hex_of a + hex_of b))) (unescape_bytes r) else None
           | _ \<Rightarrow> None)"

text \<open>The length of the character a text begins with, 0 where its bytes are not UTF-8.\<close>

definition byte_in :: "nat \<Rightarrow> nat \<Rightarrow> string \<Rightarrow> nat \<Rightarrow> bool" where
  "byte_in lo hi s i \<longleftrightarrow> i < length s \<and> lo \<le> of_char (s ! i) \<and> of_char (s ! i) \<le> hi"

definition utf8_length :: "string \<Rightarrow> nat" where
  "utf8_length s =
     (if byte_in 0 127 s 0 then 1
      else if byte_in 194 223 s 0 \<and> byte_in 128 191 s 1 then 2
      else if (byte_in 224 224 s 0 \<and> byte_in 160 191 s 1 \<or> byte_in 225 236 s 0 \<and> byte_in 128 191 s 1 \<or>
               byte_in 237 237 s 0 \<and> byte_in 128 159 s 1 \<or> byte_in 238 239 s 0 \<and> byte_in 128 191 s 1) \<and>
              byte_in 128 191 s 2 then 3
      else if (byte_in 240 240 s 0 \<and> byte_in 144 191 s 1 \<or> byte_in 241 243 s 0 \<and> byte_in 128 191 s 1 \<or>
               byte_in 244 244 s 0 \<and> byte_in 128 143 s 1) \<and> byte_in 128 191 s 2 \<and> byte_in 128 191 s 3 then 4
      else 0)"

function utf8_text :: "string \<Rightarrow> bool" where
  "utf8_text s =
     (if s = [] then True else if utf8_length s = 0 then False else utf8_text (drop (utf8_length s) s))"
  by pat_completeness auto
termination by (relation "measure length") auto

declare utf8_text.simps [simp del]

text \<open>\<open>None\<close> is the \<^verbatim>\<open>URIError\<close> of an escape that is incomplete or not UTF-8.\<close>

definition decodeURIComponent :: "string \<Rightarrow> string option" where
  "decodeURIComponent s =
     (case unescape_bytes s of None \<Rightarrow> None | Some t \<Rightarrow> if utf8_text t then Some t else None)"

section \<open>Identities\<close>

datatype definition_kind = Model_definition | Workflow_definition | Vault_definition

definition DEFINITION_KINDS :: "definition_kind list" where
  "DEFINITION_KINDS = [Model_definition, Workflow_definition, Vault_definition]"

fun definition_kind_text :: "definition_kind \<Rightarrow> string" where
  "definition_kind_text Model_definition = ''model''"
| "definition_kind_text Workflow_definition = ''workflow''"
| "definition_kind_text Vault_definition = ''vault''"

definition LOCKFILE_NAME :: string where
  "LOCKFILE_NAME = ''upstream_extensions''"

definition MAX_PARTITION_KEY_LENGTH :: nat where
  "MAX_PARTITION_KEY_LENGTH = 1024"

datatype aggregate_identity =
    Model_aggregate model_type string
  | Run_aggregate string string
  | Config_aggregate definition_kind string
  | Lockfile_aggregate
  | Definition_aggregate string

datatype partition_identity =
    Model_partition string string
  | Run_partition string string
  | Config_partition definition_kind string
  | Lockfile_partition
  | Definition_partition string

record partition_key =
  pk_value :: string
  pk_identity :: partition_identity

datatype key_error =
    Key_too_long
  | Not_a_uuid string
  | Empty_name
  | Malformed_key
  | Not_percent_encoded
  | Not_canonically_encoded
  | Type_not_normalized
  | Key_not_canonical
  | Unknown_key_kind

fun format :: "partition_identity \<Rightarrow> string" where
  "format (Model_partition type i) = ''model--'' @ encodeSegment type @ ''--'' @ i"
| "format (Run_partition workflowId runId) = ''run--'' @ workflowId @ ''--'' @ runId"
| "format (Config_partition k name) = ''config--'' @ definition_kind_text k @ ''--'' @ encodeSegment name"
| "format Lockfile_partition = ''config--lockfile--'' @ LOCKFILE_NAME"
| "format (Definition_partition i) = ''definition--'' @ i"

definition fromIdentity :: "partition_identity \<Rightarrow> key_error + partition_key" where
  "fromIdentity identity =
     (let v = format identity in
      if MAX_PARTITION_KEY_LENGTH < length v then Inl Key_too_long
      else Inr \<lparr>pk_value = v, pk_identity = identity\<rparr>)"

definition requireUuid :: "string \<Rightarrow> key_error + string" where
  "requireUuid i = (if UUID_test i then Inr i else Inl (Not_a_uuid i))"

definition canonicalUuid :: "string \<Rightarrow> key_error + string" where
  "canonicalUuid i = requireUuid (map to_lower i)"

definition requireName :: "string \<Rightarrow> key_error + string" where
  "requireName name = (if name = [] then Inl Empty_name else Inr name)"

fun partitionOf :: "aggregate_identity \<Rightarrow> key_error + partition_key" where
  "partitionOf (Model_aggregate type i) =
     (case canonicalUuid i of Inl e \<Rightarrow> Inl e | Inr i \<Rightarrow> fromIdentity (Model_partition (mt_normalized type) i))"
| "partitionOf (Run_aggregate workflowId runId) =
     (case canonicalUuid workflowId of
        Inl e \<Rightarrow> Inl e
      | Inr w \<Rightarrow> (case canonicalUuid runId of Inl e \<Rightarrow> Inl e | Inr r \<Rightarrow> fromIdentity (Run_partition w r)))"
| "partitionOf (Config_aggregate k name) =
     (case requireName name of Inl e \<Rightarrow> Inl e | Inr name \<Rightarrow> fromIdentity (Config_partition k name))"
| "partitionOf Lockfile_aggregate = fromIdentity Lockfile_partition"
| "partitionOf (Definition_aggregate i) =
     (case canonicalUuid i of Inl e \<Rightarrow> Inl e | Inr i \<Rightarrow> fromIdentity (Definition_partition i))"

definition runPartitionsPrefix :: "string \<Rightarrow> key_error + string" where
  "runPartitionsPrefix workflowId = map_sum id (\<lambda>w. ''run--'' @ w @ ''--'') (canonicalUuid workflowId)"

section \<open>Parsing\<close>

definition decodeSegment :: "string \<Rightarrow> key_error + string" where
  "decodeSegment segment =
     (case decodeURIComponent segment of
        None \<Rightarrow> Inl Not_percent_encoded
      | Some decoded \<Rightarrow> if encodeSegment decoded \<noteq> segment then Inl Not_canonically_encoded else Inr decoded)"

text \<open>\<^verbatim>\<open>lastIndexOf("--")\<close>.\<close>

definition last_dashes :: "string \<Rightarrow> nat option" where
  "last_dashes s = find (\<lambda>i. take 2 (drop i s) = ''--'') (rev [0..<length s])"

definition parse_model :: "string \<Rightarrow> key_error + partition_identity" where
  "parse_model rest =
     (case last_dashes rest of
        None \<Rightarrow> Inl Malformed_key
      | Some pos \<Rightarrow>
          if pos = 0 then Inl Malformed_key
          else case decodeSegment (take pos rest) of
                 Inl e \<Rightarrow> Inl e
               | Inr type \<Rightarrow>
                   (case requireUuid (drop (pos + 2) rest) of
                      Inl e \<Rightarrow> Inl e
                    | Inr i \<Rightarrow>
                        (case create_model_type type of
                           None \<Rightarrow> Inl Malformed_key
                         | Some t \<Rightarrow> if mt_normalized t \<noteq> type then Inl Type_not_normalized else Inr (Model_partition type i))))"

definition parse_run :: "string \<Rightarrow> key_error + partition_identity" where
  "parse_run rest =
     (if length rest \<noteq> 36 * 2 + 2 \<or> take 2 (drop 36 rest) \<noteq> ''--'' then Inl Malformed_key
      else case requireUuid (take 36 rest) of
             Inl e \<Rightarrow> Inl e
           | Inr w \<Rightarrow> (case requireUuid (drop (36 + 2) rest) of Inl e \<Rightarrow> Inl e | Inr r \<Rightarrow> Inr (Run_partition w r)))"

fun parse_config :: "definition_kind list \<Rightarrow> string \<Rightarrow> key_error + partition_identity" where
  "parse_config [] rest = Inl Malformed_key"
| "parse_config (k # ks) rest =
     (let p = definition_kind_text k @ ''--'' in
      if \<not> prefix p rest then parse_config ks rest
      else case decodeSegment (drop (length p) rest) of
             Inl e \<Rightarrow> Inl e
           | Inr name \<Rightarrow> (case requireName name of Inl e \<Rightarrow> Inl e | Inr name \<Rightarrow> Inr (Config_partition k name)))"

definition parseIdentity :: "string \<Rightarrow> key_error + partition_identity" where
  "parseIdentity v =
     (if prefix ''model--'' v then parse_model (drop 7 v)
      else if prefix ''run--'' v then parse_run (drop 5 v)
      else if v = ''config--lockfile--'' @ LOCKFILE_NAME then Inr Lockfile_partition
      else if prefix ''config--'' v then parse_config DEFINITION_KINDS (drop 8 v)
      else if prefix ''definition--'' v then map_sum id Definition_partition (requireUuid (drop 12 v))
      else Inl Unknown_key_kind)"

definition parse :: "string \<Rightarrow> key_error + partition_key" where
  "parse v =
     (case parseIdentity v of
        Inl e \<Rightarrow> Inl e
      | Inr identity \<Rightarrow>
          (case fromIdentity identity of
             Inl e \<Rightarrow> Inl e
           | Inr key \<Rightarrow> if pk_value key \<noteq> v then Inl Key_not_canonical else Inr key))"

section \<open>Record keys\<close>

definition MAX_RECORD_KEY_LENGTH :: nat where
  "MAX_RECORD_KEY_LENGTH = 4096"

definition record_key_ok :: "string \<Rightarrow> bool" where
  "record_key_ok v \<longleftrightarrow> v \<noteq> [] \<and> js_length v \<le> MAX_RECORD_KEY_LENGTH \<and> CHR 0x5C \<notin> set v \<and> CHR 0x00 \<notin> set v \<and>
     list_all (\<lambda>segment. segment \<notin> {'''', ''.'', ''..''}) (js_split CHR ''/'' v)"

section \<open>Intents\<close>

record model_ref =
  mf_type :: string
  mf_id :: string

record run_ref =
  rf_workflowId :: string
  rf_runId :: string

record definition_ref =
  df_kind :: definition_kind
  df_name :: string

datatype output_kind = Output_save | Output_delete

datatype model_intent_kind =
    Evaluated_definition_save | Evaluated_definition_delete
  | Grant_create | Grant_revoke | Group_create | Group_update
  | Token_create | Token_revoke | Token_rotate
  | Worker_token_create | Worker_token_revoke | Worker_delete

datatype run_intent_kind =
    Run_create | Run_update | Run_delete | Run_snapshot_save | Run_snapshot_delete | Run_start_save | Run_start_delete

datatype definition_intent_kind =
    Definition_create | Definition_edit | Definition_delete | Evaluated_workflow_save | Evaluated_workflow_delete

datatype auto_kind = Auto_definition_save | Auto_definition_delete

datatype intent =
    Data_save model_ref string int
  | Data_append model_ref string int
  | Data_delete model_ref string "int option"
  | Data_gc model_ref string "int option"
  | Data_rename model_ref string string
  | Output_intent output_kind model_ref string
  | Model_intent model_intent_kind model_ref
  | Run_intent run_intent_kind run_ref
  | Definition_intent definition_intent_kind definition_ref
  | Definition_rename_to definition_ref string
  | Definition_rename_from definition_ref string
  | Auto_intent auto_kind string
  | Lockfile_write

definition model_partition :: "model_ref \<Rightarrow> key_error + partition_key" where
  "model_partition m =
     (case create_model_type (mf_type m) of
        None \<Rightarrow> Inl Malformed_key
      | Some t \<Rightarrow> partitionOf (Model_aggregate t (mf_id m)))"

definition config_partition :: "definition_ref \<Rightarrow> key_error + partition_key" where
  "config_partition d = partitionOf (Config_aggregate (df_kind d) (df_name d))"

fun intentPartition :: "intent \<Rightarrow> key_error + partition_key" where
  "intentPartition (Data_save m _ _) = model_partition m"
| "intentPartition (Data_append m _ _) = model_partition m"
| "intentPartition (Data_delete m _ _) = model_partition m"
| "intentPartition (Data_gc m _ _) = model_partition m"
| "intentPartition (Data_rename m _ _) = model_partition m"
| "intentPartition (Output_intent _ m _) = model_partition m"
| "intentPartition (Model_intent _ m) = model_partition m"
| "intentPartition (Run_intent _ r) = partitionOf (Run_aggregate (rf_workflowId r) (rf_runId r))"
| "intentPartition (Definition_intent _ d) = config_partition d"
| "intentPartition (Definition_rename_to d _) = config_partition d"
| "intentPartition (Definition_rename_from d _) = config_partition d"
| "intentPartition (Auto_intent _ i) = partitionOf (Definition_aggregate i)"
| "intentPartition Lockfile_write = partitionOf Lockfile_aggregate"

fun changesDefinition :: "intent \<Rightarrow> bool" where
  "changesDefinition (Definition_intent k _) \<longleftrightarrow> k \<in> {Definition_create, Definition_edit, Definition_delete}"
| "changesDefinition (Definition_rename_to _ _) \<longleftrightarrow> True"
| "changesDefinition (Definition_rename_from _ _) \<longleftrightarrow> True"
| "changesDefinition _ \<longleftrightarrow> False"

section \<open>Segments read back\<close>

lemma of_upper_hex: "n < 16 \<Longrightarrow> of_char (upper_hex n) = (if n < 10 then 48 + n else 55 + n)"
  by (simp add: upper_hex_def)

lemma upper_hex_value:
  assumes "n < 16"
  shows "hex_of (upper_hex n) = n" "upper_hex n \<noteq> CHR ''%''" "upper_hex n = CHR ''4'' \<longleftrightarrow> n = 4" "upper_hex n = CHR ''0'' \<longleftrightarrow> n = 0"
proof -
  show "hex_of (upper_hex n) = n"
    using assms by (auto simp: hex_of_def is_digit_def between_def of_upper_hex)
  have eq: "upper_hex n = c \<longleftrightarrow> (if n < 10 then 48 + n else 55 + n) = of_char c" for c
    using of_upper_hex [OF assms] by (metis of_char_eq_iff)
  show "upper_hex n \<noteq> CHR ''%''" "upper_hex n = CHR ''4'' \<longleftrightarrow> n = 4" "upper_hex n = CHR ''0'' \<longleftrightarrow> n = 0"
    unfolding eq by auto
qed

lemma byte_halves: "(of_char c :: nat) div 16 < 16" "(of_char c :: nat) mod 16 < 16" "char_of (16 * ((of_char c :: nat) div 16) + of_char c mod 16) = c"
proof -
  have "(of_char c :: nat) < 256" by (rule nat_of_char_less_256)
  then show "(of_char c :: nat) div 16 < 16" by (simp add: less_mult_imp_div_less)
qed simp_all

lemma unreserved_not: "uri_unreserved c \<Longrightarrow> c \<noteq> CHR ''%'' \<and> c \<noteq> CHR ''@''"
  by (auto simp: uri_unreserved_def is_lower_def is_upper_def is_digit_def between_def)

definition segment_byte :: "char \<Rightarrow> string" where
  "segment_byte c = (if c = CHR ''@'' then [c] else encode_byte c)"

lemma literal_at_other: "c \<noteq> CHR ''%'' \<Longrightarrow> literal_at (c # s) = c # literal_at s"
  by (simp add: literal_at.simps [of "c # s"])

lemma literal_at_byte: "literal_at (encode_byte c @ s) = segment_byte c @ literal_at s"
proof (cases "uri_unreserved c")
  case True
  then show ?thesis using unreserved_not [of c] by (simp add: encode_byte_def segment_byte_def literal_at_other)
next
  case False
  let ?h = "of_char c div 16 :: nat" and ?l = "of_char c mod 16 :: nat"
  have at: "c = CHR ''@'' \<longleftrightarrow> ?h = 4 \<and> ?l = 0"
  proof
    assume "?h = 4 \<and> ?l = 0"
    moreover have "char_of (64 :: nat) = CHR ''@''" by code_simp
    ultimately show "c = CHR ''@''" using byte_halves(3) [of c] by simp
  qed simp
  have "literal_at (CHR ''%'' # upper_hex ?h # upper_hex ?l # s) =
      (if ?h = 4 \<and> ?l = 0 then CHR ''@'' # literal_at s else CHR ''%'' # upper_hex ?h # upper_hex ?l # literal_at s)"
    using upper_hex_value [OF byte_halves(1), of c] upper_hex_value [OF byte_halves(2), of c]
    by (simp add: literal_at.simps [of "CHR ''%'' # upper_hex ?h # upper_hex ?l # s"] literal_at_other)
  with at False show ?thesis by (cases "c = CHR ''@''") (simp_all add: encode_byte_def segment_byte_def)
qed

lemma encodeSegment_bytes: "encodeSegment s = concat (map segment_byte s)"
  unfolding encodeSegment_def encodeURIComponent_def
  by (induction s) (simp_all add: literal_at_byte, simp add: literal_at.simps)

lemma unescape_segment_byte: "unescape_bytes (segment_byte c @ s) = map_option ((#) c) (unescape_bytes s)"
  using upper_hex_value [OF byte_halves(1), of c] upper_hex_value [OF byte_halves(2), of c] byte_halves [of c] unreserved_not [of c]
  by (simp add: segment_byte_def encode_byte_def)

lemma unescape_encodeSegment: "unescape_bytes (encodeSegment s) = Some s"
  unfolding encodeSegment_bytes by (induction s) (simp_all add: unescape_segment_byte)

lemma encodeSegment_inject: "encodeSegment s = encodeSegment t \<longleftrightarrow> s = t"
  by (metis unescape_encodeSegment option.inject)

lemma decodeSegment_encodeSegment: "utf8_text s \<Longrightarrow> decodeSegment (encodeSegment s) = Inr s"
  by (simp add: decodeSegment_def decodeURIComponent_def unescape_encodeSegment)

lemma encodeSegment_Nil [simp]: "encodeSegment s = [] \<longleftrightarrow> s = []"
  by (cases s) (simp_all add: encodeSegment_bytes segment_byte_def encode_byte_def)

section \<open>Keys read back\<close>

text \<open>Ids never hold two hyphens in a row, so the last two separate the id.\<close>

lemma uuid_no_dashes:
  assumes "UUID_test i"
  shows "take 2 (drop k i) \<noteq> ''--''"
proof
  assume dashes: "take 2 (drop k i) = ''--''"
  then have "length (take 2 (drop k i)) = 2" by simp
  then have k: "Suc k < length i" by simp
  have "i ! k = take 2 (drop k i) ! 0" "i ! Suc k = take 2 (drop k i) ! 1" using k by simp_all
  with dashes have "i ! k = CHR ''-''" "i ! Suc k = CHR ''-''" by simp_all
  moreover have at: "if j \<in> {8, 13, 18, 23} then i ! j = CHR ''-'' else is_hex_lower (i ! j)" if "j < length i" for j
  proof -
    have "(j, i ! j) \<in> set (enumerate 0 i)" using that by (simp add: in_set_enumerate_eq)
    with assms show ?thesis unfolding UUID_test_def by fastforce
  qed
  moreover have "\<not> is_hex_lower CHR ''-''" by code_simp
  ultimately have "k \<in> {8, 13, 18, 23}" "Suc k \<in> {8, 13, 18, 23}" using k at [of k] at [of "Suc k"] by (auto split: if_splits)
  then show False by auto
qed

lemma find_rev_upt:
  "find P (rev [0..<n]) = Some k \<longleftrightarrow> k < n \<and> P k \<and> (\<forall>j. k < j \<and> j < n \<longrightarrow> \<not> P j)"
proof (induction n)
  case (Suc n)
  show ?case
  proof (cases "P n")
    case True
    then show ?thesis by (auto simp: less_Suc_eq)
  next
    case False
    with Suc show ?thesis by (auto simp: less_Suc_eq)
  qed
qed simp

lemma last_dashes_uuid:
  assumes "UUID_test i" shows "last_dashes (s @ ''--'' @ i) = Some (length s)"
proof -
  let ?t = "s @ ''--'' @ i"
  from assms have i: "length i = 36" by (simp add: UUID_test_def)
  have "hd i \<noteq> CHR ''-''"
  proof -
    have "(0, i ! 0) \<in> set (enumerate 0 i)" using i by (simp add: in_set_enumerate_eq)
    with assms have "is_hex_lower (i ! 0)" unfolding UUID_test_def by fastforce
    moreover have "\<not> is_hex_lower CHR ''-''" by code_simp
    ultimately show ?thesis using i by (metis hd_conv_nth list.size(3) zero_neq_numeral)
  qed
  then have "take 2 (drop (Suc (length s)) ?t) \<noteq> ''--''" using i by (cases i) auto
  moreover have "take 2 (drop j ?t) \<noteq> ''--''" if "length s + 2 \<le> j" for j
  proof -
    from le_Suc_ex [OF that] obtain m where "j = length s + 2 + m" ..
    then have "drop j ?t = drop m i" by simp
    with uuid_no_dashes [OF assms] show ?thesis by metis
  qed
  ultimately have "\<not> take 2 (drop j ?t) = ''--''" if "length s < j" for j
    using that by (cases "j = Suc (length s)") auto
  then show ?thesis unfolding last_dashes_def find_rev_upt by auto
qed

text \<open>The identities that keys are built of; a type is in its normal form, and texts are texts.\<close>

fun identity_ok :: "partition_identity \<Rightarrow> bool" where
  "identity_ok (Model_partition type i) \<longleftrightarrow>
     (case create_model_type type of Some t \<Rightarrow> mt_normalized t = type | None \<Rightarrow> False) \<and> utf8_text type \<and> UUID_test i"
| "identity_ok (Run_partition workflowId runId) \<longleftrightarrow> UUID_test workflowId \<and> UUID_test runId"
| "identity_ok (Config_partition k name) \<longleftrightarrow> name \<noteq> [] \<and> utf8_text name"
| "identity_ok Lockfile_partition \<longleftrightarrow> True"
| "identity_ok (Definition_partition i) \<longleftrightarrow> UUID_test i"

fun aggregate_ok :: "aggregate_identity \<Rightarrow> bool" where
  "aggregate_ok (Model_aggregate t i) \<longleftrightarrow> create_model_type (mt_raw t) = Some t \<and> utf8_text (mt_normalized t)"
| "aggregate_ok (Config_aggregate k name) \<longleftrightarrow> utf8_text name"
| "aggregate_ok _ \<longleftrightarrow> True"

lemma parse_config_encoded:
  assumes "name \<noteq> []" and "utf8_text name"
  shows "parse_config DEFINITION_KINDS (definition_kind_text k @ ''--'' @ encodeSegment name) = Inr (Config_partition k name)"
  using decodeSegment_encodeSegment [OF assms(2)] assms(1)
  by (cases k) (simp_all add: DEFINITION_KINDS_def requireName_def Let_def)

lemma create_nonempty: "create_model_type type = Some t \<Longrightarrow> mt_normalized t \<noteq> []"
  by (auto simp: create_model_type_def Let_def split: if_splits)

lemma parseIdentity_format:
  assumes "identity_ok identity" shows "parseIdentity (format identity) = Inr identity"
proof (cases identity)
  case (Model_partition type i)
  with assms have ok: "utf8_text type" "UUID_test i" by simp_all
  from assms Model_partition obtain t where t: "create_model_type type = Some t" "mt_normalized t = type"
    by (auto split: option.splits)
  then have "type \<noteq> []" using create_nonempty by blast
  with ok t Model_partition show ?thesis
    by (simp add: parseIdentity_def parse_model_def last_dashes_uuid [simplified] decodeSegment_encodeSegment requireUuid_def)
next
  case (Run_partition w r)
  with assms have "UUID_test w" "UUID_test r" "length w = 36" "length r = 36" by (simp_all add: UUID_test_def)
  with Run_partition show ?thesis by (simp add: parseIdentity_def parse_run_def requireUuid_def)
next
  case (Config_partition k name)
  have "parse_config DEFINITION_KINDS (definition_kind_text k @ ''--'' @ encodeSegment name) = Inr (Config_partition k name)"
    using parse_config_encoded assms Config_partition by simp
  moreover have "''config--'' @ definition_kind_text k @ ''--'' @ encodeSegment name \<noteq> ''config--lockfile--'' @ LOCKFILE_NAME"
    by (cases k) simp_all
  ultimately show ?thesis using Config_partition by (simp add: parseIdentity_def)
next
  case Lockfile_partition
  then show ?thesis by (simp add: parseIdentity_def)
next
  case (Definition_partition i)
  with assms show ?thesis by (simp add: parseIdentity_def requireUuid_def)
qed

lemma fromIdentity_Inr: "fromIdentity identity = Inr key \<Longrightarrow> key = \<lparr>pk_value = format identity, pk_identity = identity\<rparr>"
  by (auto simp: fromIdentity_def Let_def split: if_splits)

lemma parse_fromIdentity: "identity_ok identity \<Longrightarrow> fromIdentity identity = Inr key \<Longrightarrow> parse (pk_value key) = Inr key"
  using fromIdentity_Inr [of identity key] by (simp add: parse_def parseIdentity_format)

lemma fromIdentity_ok:
  "fromIdentity identity = Inr key \<Longrightarrow> identity_ok identity \<Longrightarrow> identity_ok (pk_identity key) \<and> fromIdentity (pk_identity key) = Inr key"
  using fromIdentity_Inr [of identity key] by simp

lemma partitionOf_identity:
  assumes "aggregate_ok a" and "partitionOf a = Inr key"
  shows "identity_ok (pk_identity key) \<and> fromIdentity (pk_identity key) = Inr key"
proof (cases a)
  case (Model_aggregate t i)
  from assms Model_aggregate have i: "UUID_test (map to_lower i)"
    and key: "fromIdentity (Model_partition (mt_normalized t) (map to_lower i)) = Inr key"
    by (auto simp: canonicalUuid_def requireUuid_def split: if_splits)
  from assms(1) Model_aggregate have t: "create_model_type (mt_raw t) = Some t" "utf8_text (mt_normalized t)" by simp_all
  have "create_model_type (mt_normalized t) = Some \<lparr>mt_raw = mt_normalized t, mt_normalized = mt_normalized t\<rparr>"
    using create_model_type_normal [OF t(1)] normal_spelling_fixed by blast
  with i key t(2) fromIdentity_Inr [OF key] show ?thesis by simp
next
  case (Run_aggregate w r)
  with assms(2) show ?thesis
    by (intro fromIdentity_ok [of "Run_partition (map to_lower w) (map to_lower r)"]) (auto simp: canonicalUuid_def requireUuid_def split: if_splits)
next
  case (Config_aggregate k name)
  with assms show ?thesis
    by (intro fromIdentity_ok [of "Config_partition k name"]) (auto simp: requireName_def split: if_splits)
next
  case Lockfile_aggregate
  with assms(2) show ?thesis by (intro fromIdentity_ok [of Lockfile_partition]) simp_all
next
  case (Definition_aggregate i)
  with assms(2) show ?thesis
    by (intro fromIdentity_ok [of "Definition_partition (map to_lower i)"]) (auto simp: canonicalUuid_def requireUuid_def split: if_splits)
qed

text \<open>C25.
  A partition key names one aggregate. The key of an aggregate is read back from its text, with the identity
  it was built of, and two aggregates with the same text have the same identity; and whatever text is accepted
  as a key is exactly the text of the identity read from it, so no key has two spellings.
\<close>

theorem partition_key_names_one_aggregate:
  assumes "aggregate_ok a" and "partitionOf a = Inr k"
  shows "parse (pk_value k) = Inr k \<and>
    (\<forall>b l. aggregate_ok b \<and> partitionOf b = Inr l \<and> pk_value l = pk_value k \<longrightarrow> l = k) \<and>
    (\<forall>v l. parse v = Inr l \<longrightarrow> pk_value l = v \<and> format (pk_identity l) = v)"
proof -
  have reads: "parse (pk_value l) = Inr l" if "aggregate_ok b" "partitionOf b = Inr l" for b l
    using partitionOf_identity [OF that] parse_fromIdentity by blast
  moreover have "pk_value l = v \<and> format (pk_identity l) = v" if "parse v = Inr l" for v l
    using that by (auto simp: parse_def fromIdentity_def Let_def split: sum.split_asm if_split_asm)
  ultimately show ?thesis using assms by (metis sum.inject(2))
qed

theorem partition_key_names_one_aggregate_witness:
  "\<exists>k. partitionOf (Config_aggregate Workflow_definition ''a/@'') = Inr k \<and>
     pk_value k = ''config--workflow--a%2F@'' \<and> parse (pk_value k) = Inr k"
proof -
  have ok: "aggregate_ok (Config_aggregate Workflow_definition ''a/@'')"
    by (simp add: utf8_text.simps utf8_length_def byte_in_def)
  have "char_of (50 :: nat) = CHR ''2''" "char_of (70 :: nat) = CHR ''F''" by code_simp+
  then have "format (Config_partition Workflow_definition ''a/@'') = ''config--workflow--a%2F@''"
    by (simp add: encodeSegment_bytes segment_byte_def encode_byte_def uri_unreserved_def is_lower_def is_upper_def is_digit_def
        between_def upper_hex_def)
  then have key: "partitionOf (Config_aggregate Workflow_definition ''a/@'') =
      Inr \<lparr>pk_value = ''config--workflow--a%2F@'', pk_identity = Config_partition Workflow_definition ''a/@''\<rparr>"
    by (simp add: requireName_def fromIdentity_def Let_def MAX_PARTITION_KEY_LENGTH_def)
  from conjunct1 [OF partition_key_names_one_aggregate [OF ok key]] key show ?thesis
    by (intro exI conjI) (assumption, simp, assumption)
qed

text \<open>The runs of a workflow are the partitions whose key starts with its prefix.\<close>

theorem run_prefix_selects_runs:
  assumes "runPartitionsPrefix w = Inr p" and "identity_ok identity"
  shows "prefix p (format identity) \<longleftrightarrow> (\<exists>r. identity = Run_partition (map to_lower w) r)"
proof -
  from assms(1) have p: "p = ''run--'' @ map to_lower w @ ''--''" "UUID_test (map to_lower w)"
    by (auto simp: runPartitionsPrefix_def canonicalUuid_def requireUuid_def split: if_splits)
  then show ?thesis
  proof (cases identity)
    case (Run_partition v r)
    with assms(2) p(2) have "length v = length (map to_lower w)" by (simp add: UUID_test_def)
    then have "prefix (map to_lower w @ ''--'') (v @ ''--'' @ r) \<longleftrightarrow> v = map to_lower w"
      by (auto simp: prefix_def)
    with Run_partition p(1) show ?thesis by auto
  qed simp_all
qed

end
