(* ===== verification/Version_Ranges.thy ===== *)
theory Version_Ranges
  imports Swamp_Prelude
begin

text \<open>
  \<^verbatim>\<open>src/src/domain/datastore_v3/version_ranges.ts\<close>: the sets of removed versions, kept as ranges.
  Versions are integers; \<^verbatim>\<open>isVersion\<close> refuses every other number as it refuses 0, and at their
  bound the sums of the code are exact. The list of a set is its \<^verbatim>\<open>ranges\<close>; \<^verbatim>\<open>EMPTY\<close> is the empty
  list.
\<close>

section \<open>The operations\<close>

type_synonym version_range = "int \<times> int"

datatype range_error = Not_a_range "int list"

definition isVersion :: "int \<Rightarrow> bool" where
  "isVersion v \<longleftrightarrow> v \<le> 2 ^ 53 - 1 \<and> 1 \<le> v"

definition is_range :: "int list \<Rightarrow> bool" where
  "is_range r = (case r of [a, b] \<Rightarrow> isVersion a \<and> isVersion b \<and> a \<le> b | _ \<Rightarrow> False)"

definition range_of :: "int list \<Rightarrow> version_range" where
  "range_of r = (r ! 0, r ! 1)"

definition merge_range :: "version_range \<Rightarrow> version_range list \<Rightarrow> version_range list" where
  "merge_range r merged =
     (if merged \<noteq> [] \<and> fst r \<le> snd (last merged) + 1
      then butlast merged @ [(fst (last merged), max (snd (last merged)) (snd r))]
      else merged @ [r])"

definition version_ranges :: "int list list \<Rightarrow> range_error + version_range list" where
  "version_ranges ranges =
     (case find (\<lambda>r. \<not> is_range r) ranges of
        Some r \<Rightarrow> Inl (Not_a_range r)
      | None \<Rightarrow> Inr (fold merge_range (sort_key fst (map range_of ranges)) []))"

definition range_list :: "version_range \<Rightarrow> int list" where
  "range_list r = [fst r, snd r]"

definition vr_isEmpty :: "version_range list \<Rightarrow> bool" where
  "vr_isEmpty rs \<longleftrightarrow> length rs = 0"

definition vr_max :: "version_range list \<Rightarrow> int" where
  "vr_max rs = (if rs = [] then 0 else snd (last rs))"

function has_loop :: "version_range list \<Rightarrow> int \<Rightarrow> int \<Rightarrow> int \<Rightarrow> bool" where
  "has_loop rs version low high =
     (if low \<le> high then
        let mid = (low + high) div 2; r = rs ! nat mid in
        if version < fst r then has_loop rs version low (mid - 1)
        else if snd r < version then has_loop rs version (mid + 1) high
        else True
      else False)"
  by pat_completeness auto

termination
  by (relation "measure (\<lambda>(_, _, low, high). nat (high - low + 1))") auto

declare has_loop.simps [simp del]

definition vr_has :: "version_range list \<Rightarrow> int \<Rightarrow> bool" where
  "vr_has rs version = has_loop rs version 0 (int (length rs) - 1)"

definition vr_add :: "version_range list \<Rightarrow> int \<Rightarrow> range_error + version_range list" where
  "vr_add rs version =
     (if vr_has rs version then Inr rs else version_ranges (map range_list rs @ [[version, version]]))"

definition vr_equals :: "version_range list \<Rightarrow> version_range list \<Rightarrow> bool" where
  "vr_equals rs qs \<longleftrightarrow> length rs = length qs \<and> list_all (\<lambda>(r, q). fst r = fst q \<and> snd r = snd q) (zip rs qs)"

definition vr_union :: "version_range list \<Rightarrow> version_range list \<Rightarrow> range_error + version_range list" where
  "vr_union rs qs =
     (if vr_isEmpty qs then Inr rs
      else if vr_isEmpty rs then Inr qs
      else version_ranges (map range_list rs @ map range_list qs))"

definition delete_from :: "int \<Rightarrow> version_range \<Rightarrow> version_range list" where
  "delete_from version r =
     (if version < fst r \<or> snd r < version then [r]
      else (if fst r < version then [(fst r, version - 1)] else []) @
           (if version < snd r then [(version + 1, snd r)] else []))"

definition vr_delete :: "version_range list \<Rightarrow> int \<Rightarrow> version_range list" where
  "vr_delete rs version = (if \<not> vr_has rs version then rs else concat (map (delete_from version) rs))"

section \<open>The set they stand for\<close>

definition versions :: "version_range list \<Rightarrow> int set" where
  "versions rs = (\<Union>r\<in>set rs. {fst r..snd r})"

definition good_range :: "version_range \<Rightarrow> bool" where
  "good_range r \<longleftrightarrow> isVersion (fst r) \<and> isVersion (snd r) \<and> fst r \<le> snd r"

text \<open>Sorted, disjoint and never adjacent.\<close>

definition apart :: "version_range \<Rightarrow> version_range \<Rightarrow> bool" where
  "apart r q \<longleftrightarrow> snd r + 1 < fst q"

definition ranges_wf :: "version_range list \<Rightarrow> bool" where
  "ranges_wf rs \<longleftrightarrow> list_all good_range rs \<and> sorted_wrt apart rs"

text \<open>Runs of the operations, and the same on sets: a run stops at the first call that throws.\<close>

datatype range_op = Add_op int | Delete_op int | Union_op "int list list"

definition vr_step :: "range_op \<Rightarrow> version_range list \<Rightarrow> range_error + version_range list" where
  "vr_step f rs =
     (case f of
        Add_op v \<Rightarrow> vr_add rs v
      | Delete_op v \<Rightarrow> Inr (vr_delete rs v)
      | Union_op ranges \<Rightarrow> (case version_ranges ranges of Inl e \<Rightarrow> Inl e | Inr qs \<Rightarrow> vr_union rs qs))"

definition set_step :: "range_op \<Rightarrow> int set \<Rightarrow> range_error + int set" where
  "set_step f S =
     (case f of
        Add_op v \<Rightarrow> if isVersion v then Inr (insert v S) else Inl (Not_a_range [v, v])
      | Delete_op v \<Rightarrow> Inr (S - {v})
      | Union_op ranges \<Rightarrow>
          (case find (\<lambda>r. \<not> is_range r) ranges of
             Some r \<Rightarrow> Inl (Not_a_range r)
           | None \<Rightarrow> Inr (S \<union> (\<Union>r\<in>set ranges. {r ! 0..r ! 1}))))"

primrec run_ops :: "('op \<Rightarrow> 's \<Rightarrow> 'e + 's) \<Rightarrow> 'op list \<Rightarrow> 's \<Rightarrow> 'e + 's" where
  "run_ops st [] s = Inr s"
| "run_ops st (f # fs) s = (case st f s of Inl e \<Rightarrow> Inl e | Inr s' \<Rightarrow> run_ops st fs s')"

section \<open>A data type and what it stands for\<close>

text \<open>Steps that keep an invariant and act on an abstract value as its own steps do, errors included.\<close>

locale refined_steps =
  fixes conc :: "'op \<Rightarrow> 's \<Rightarrow> 'e + 's" and abst :: "'op \<Rightarrow> 'a \<Rightarrow> 'e + 'a"
    and abs_of :: "'s \<Rightarrow> 'a" and good :: "'s \<Rightarrow> bool"
  assumes step_refines: "good s \<Longrightarrow> abst f (abs_of s) = map_sum id abs_of (conc f s)"
    and step_good: "good s \<Longrightarrow> conc f s = Inr s' \<Longrightarrow> good s'"
begin

lemma run_refines:
  "good s \<Longrightarrow> run_ops abst fs (abs_of s) = map_sum id abs_of (run_ops conc fs s) \<and>
     (\<forall>s'. run_ops conc fs s = Inr s' \<longrightarrow> good s')"
proof (induction fs arbitrary: s)
  case Nil
  then show ?case by simp
next
  case (Cons f fs)
  show ?case
  proof (cases "conc f s")
    case (Inl e)
    then show ?thesis using step_refines [OF Cons.prems, of f] by simp
  next
    case (Inr s')
    with Cons.prems have "good s'" by (rule step_good)
    from Cons.IH [OF this] Inr show ?thesis using step_refines [OF Cons.prems, of f] by simp
  qed
qed

end

section \<open>Merging\<close>

lemma ranges_wf_Nil [simp]: "ranges_wf []"
  by (simp add: ranges_wf_def)

lemma versions_Nil [simp]: "versions [] = {}"
  and versions_Cons [simp]: "versions (r # rs) = {fst r..snd r} \<union> versions rs"
  and versions_append [simp]: "versions (rs @ qs) = versions rs \<union> versions qs"
  by (auto simp: versions_def)

lemma ranges_wf_append:
  "ranges_wf (rs @ qs) \<longleftrightarrow> ranges_wf rs \<and> ranges_wf qs \<and> (\<forall>r\<in>set rs. \<forall>q\<in>set qs. apart r q)"
  by (auto simp: ranges_wf_def sorted_wrt_append)

lemma ranges_wf_Cons: "ranges_wf (r # rs) \<longleftrightarrow> good_range r \<and> ranges_wf rs \<and> (\<forall>q\<in>set rs. apart r q)"
  by (auto simp: ranges_wf_def)

lemma merge_range_ok:
  assumes "ranges_wf m" and "good_range r" and "\<forall>q\<in>set m. fst q \<le> fst r"
  shows "ranges_wf (merge_range r m) \<and> versions (merge_range r m) = versions m \<union> {fst r..snd r} \<and>
    (\<forall>q\<in>set (merge_range r m). fst q \<le> fst r)"
proof (cases m rule: rev_cases)
  case Nil
  then show ?thesis using assms by (simp add: merge_range_def ranges_wf_Cons)
next
  case (snoc bs p)
  show ?thesis
  proof (cases "fst r \<le> snd p + 1")
    case True
    have "{fst p..max (snd p) (snd r)} = {fst p..snd p} \<union> {fst r..snd r}"
      using True assms snoc by (auto simp: good_range_def ranges_wf_append ranges_wf_Cons)
    then show ?thesis
      using True assms snoc
      by (auto simp: merge_range_def ranges_wf_append ranges_wf_Cons good_range_def apart_def max_def)
  next
    case False
    then have "apart q r" if "q \<in> set m" for q
      using that assms snoc by (auto simp: apart_def ranges_wf_append ranges_wf_Cons good_range_def)
    then show ?thesis
      using False assms snoc by (auto simp: merge_range_def ranges_wf_append ranges_wf_Cons)
  qed
qed

lemma merge_ok:
  "\<lbrakk>ranges_wf m; list_all good_range rs; sorted (map fst rs); \<forall>q\<in>set m. \<forall>r\<in>set rs. fst q \<le> fst r\<rbrakk> \<Longrightarrow>
     ranges_wf (fold merge_range rs m) \<and> versions (fold merge_range rs m) = versions m \<union> versions rs"
proof (induction rs arbitrary: m)
  case Nil
  then show ?case by simp
next
  case (Cons r rs)
  have r: "ranges_wf (merge_range r m)" "versions (merge_range r m) = versions m \<union> {fst r..snd r}"
    "\<forall>q\<in>set (merge_range r m). fst q \<le> fst r"
    using merge_range_ok [of m r] Cons.prems by simp_all
  then have "\<forall>q\<in>set (merge_range r m). \<forall>r'\<in>set rs. fst q \<le> fst r'"
    using Cons.prems(3) by (fastforce intro: order.trans)
  then show ?case
    using Cons.IH [of "merge_range r m"] Cons.prems r by (auto simp: Un_assoc)
qed

lemma versions_set: "set rs = set qs \<Longrightarrow> versions rs = versions qs"
  by (simp add: versions_def)

lemma is_range_good: "is_range r \<Longrightarrow> good_range (range_of r)"
  by (auto simp: is_range_def good_range_def range_of_def split: list.splits)

lemma version_ranges_ok:
  assumes "list_all is_range ranges"
  shows "\<exists>rs. version_ranges ranges = Inr rs \<and> ranges_wf rs \<and> versions rs = (\<Union>r\<in>set ranges. {r ! 0..r ! 1})"
proof -
  let ?sorted = "sort_key fst (map range_of ranges)"
  have "find (\<lambda>r. \<not> is_range r) ranges = None"
    using assms by (simp add: find_None_iff list_all_iff)
  moreover have "list_all good_range ?sorted"
    using assms is_range_good by (auto simp: list_all_iff)
  moreover have "versions ?sorted = (\<Union>r\<in>set ranges. {r ! 0..r ! 1})"
    by (simp add: versions_def range_of_def)
  ultimately show ?thesis
    using merge_ok [of "[]" ?sorted] by (simp add: version_ranges_def)
qed

lemma version_ranges_bad: "find (\<lambda>r. \<not> is_range r) ranges = Some r \<Longrightarrow> version_ranges ranges = Inl (Not_a_range r)"
  by (simp add: version_ranges_def)

lemma is_range_list: "is_range (range_list r) \<longleftrightarrow> good_range r"
  by (simp add: is_range_def range_list_def good_range_def)

lemma range_lists_versions: "(\<Union>r\<in>set (map range_list rs). {r ! 0..r ! 1}) = versions rs"
  by (simp add: versions_def range_list_def)

section \<open>Searching, adding and deleting\<close>

lemma apart_nth: "ranges_wf rs \<Longrightarrow> i < j \<Longrightarrow> j < length rs \<Longrightarrow> snd (rs ! i) + 1 < fst (rs ! j)"
  by (auto simp: ranges_wf_def apart_def sorted_wrt_iff_nth_less)

lemma good_nth: "ranges_wf rs \<Longrightarrow> i < length rs \<Longrightarrow> fst (rs ! i) \<le> snd (rs ! i)"
  by (auto simp: ranges_wf_def good_range_def list_all_length)

text \<open>The search finds a version exactly when a range between its bounds holds it.\<close>

lemma has_loop_iff:
  "\<lbrakk>ranges_wf rs; 0 \<le> low; high < int (length rs)\<rbrakk> \<Longrightarrow>
     has_loop rs v low high \<longleftrightarrow> (\<exists>i. low \<le> int i \<and> int i \<le> high \<and> fst (rs ! i) \<le> v \<and> v \<le> snd (rs ! i))"
proof (induction rs v low high rule: has_loop.induct)
  case (1 rs v low high)
  show ?case
  proof (cases "low \<le> high")
    case False
    then show ?thesis by (auto simp: has_loop.simps [of rs v low high])
  next
    case True
    define m where "m = nat ((low + high) div 2)"
    then have m: "int m = (low + high) div 2" "low \<le> int m" "int m \<le> high" "m < length rs"
      using True "1.prems" by (simp_all add: nat_less_iff)
    have below: "snd (rs ! i) < fst (rs ! m)" if "i < m" for i
      using apart_nth [OF "1.prems"(1) that m(4)] by simp
    have above: "snd (rs ! m) < fst (rs ! i)" if "m < i" "int i \<le> high" for i
      using apart_nth [OF "1.prems"(1) that(1)] that(2) "1.prems"(3) by simp
    have left: "i < m" if "v < fst (rs ! m)" "int i \<le> high" "fst (rs ! i) \<le> v" for i
      using that above [of i] good_nth [OF "1.prems"(1) m(4)] by (cases i m rule: linorder_cases) auto
    have right: "m < i" if "snd (rs ! m) < v" "v \<le> snd (rs ! i)" for i
      using that below [of i] good_nth [OF "1.prems"(1) m(4)] by (cases i m rule: linorder_cases) auto
    consider "v < fst (rs ! m)" | "\<not> v < fst (rs ! m)" "snd (rs ! m) < v" | "fst (rs ! m) \<le> v" "v \<le> snd (rs ! m)"
      by linarith
    then show ?thesis
    proof cases
      case 1
      then have "has_loop rs v low high = has_loop rs v low (int m - 1)"
        using True m by (simp add: has_loop.simps [of rs v low high] Let_def m_def [symmetric])
      also have "\<dots> \<longleftrightarrow> (\<exists>i. low \<le> int i \<and> int i \<le> int m - 1 \<and> fst (rs ! i) \<le> v \<and> v \<le> snd (rs ! i))"
        using "1.IH"(1) [OF True refl refl] 1 m "1.prems" by (simp add: m_def [symmetric])
      also have "\<dots> \<longleftrightarrow> (\<exists>i. low \<le> int i \<and> int i \<le> high \<and> fst (rs ! i) \<le> v \<and> v \<le> snd (rs ! i))"
        using left [OF 1] m(3) by (metis order.trans less_imp_le zle_diff1_eq of_nat_less_iff)
      finally show ?thesis .
    next
      case 2
      then have "has_loop rs v low high = has_loop rs v (int m + 1) high"
        using True m by (simp add: has_loop.simps [of rs v low high] Let_def m_def [symmetric])
      also have "\<dots> \<longleftrightarrow> (\<exists>i. int m + 1 \<le> int i \<and> int i \<le> high \<and> fst (rs ! i) \<le> v \<and> v \<le> snd (rs ! i))"
        using "1.IH"(2) [OF True refl refl] 2 m "1.prems" by (simp add: m_def [symmetric])
      also have "\<dots> \<longleftrightarrow> (\<exists>i. low \<le> int i \<and> int i \<le> high \<and> fst (rs ! i) \<le> v \<and> v \<le> snd (rs ! i))"
        using right [OF 2(2)] m(2) by (metis order.trans less_imp_le zless_iff_Suc_zadd zless_add1_eq add1_zle_eq of_nat_less_iff)
      finally show ?thesis .
    next
      case 3
      then have "has_loop rs v low high"
        using True m by (simp add: has_loop.simps [of rs v low high] Let_def m_def [symmetric])
      then show ?thesis using 3 m by blast
    qed
  qed
qed

lemma vr_has_iff:
  assumes "ranges_wf rs"
  shows "vr_has rs v \<longleftrightarrow> v \<in> versions rs"
proof -
  have "vr_has rs v \<longleftrightarrow> (\<exists>i < length rs. fst (rs ! i) \<le> v \<and> v \<le> snd (rs ! i))"
    unfolding vr_has_def using has_loop_iff [OF assms, of 0 "int (length rs) - 1" v] by simp
  also have "\<dots> \<longleftrightarrow> v \<in> versions rs"
    by (simp add: versions_def Bex_def in_set_conv_nth) (metis fst_conv snd_conv prod.collapse)
  finally show ?thesis .
qed

lemma versions_are: "ranges_wf rs \<Longrightarrow> v \<in> versions rs \<Longrightarrow> isVersion v"
  by (auto simp: versions_def ranges_wf_def list_all_iff good_range_def isVersion_def)

lemma vr_add_ok:
  assumes "ranges_wf rs"
  shows "if isVersion v then \<exists>qs. vr_add rs v = Inr qs \<and> ranges_wf qs \<and> versions qs = insert v (versions rs)
         else vr_add rs v = Inl (Not_a_range [v, v])"
proof (cases "v \<in> versions rs")
  case True
  then show ?thesis
    using assms versions_are [OF assms True] by (auto simp: vr_add_def vr_has_iff)
next
  case False
  let ?ranges = "map range_list rs @ [[v, v]]"
  have add: "vr_add rs v = version_ranges ?ranges"
    using False assms by (simp add: vr_add_def vr_has_iff)
  have old: "list_all is_range (map range_list rs)"
    using assms by (simp add: ranges_wf_def list_all_iff is_range_list)
  show ?thesis
  proof (cases "isVersion v")
    case True
    then have "list_all is_range ?ranges"
      using old by (simp add: is_range_def)
    from version_ranges_ok [OF this] show ?thesis
      using True add range_lists_versions [of rs] by auto
  next
    case False
    have "find (\<lambda>r. \<not> is_range r) ?ranges = Some [v, v]"
      using old False by (induction rs) (simp_all add: is_range_def)
    then show ?thesis using False add version_ranges_bad by simp
  qed
qed

lemma vr_union_ok:
  assumes "ranges_wf rs" "ranges_wf qs"
  shows "\<exists>us. vr_union rs qs = Inr us \<and> ranges_wf us \<and> versions us = versions rs \<union> versions qs"
proof -
  have "list_all is_range (map range_list rs @ map range_list qs)"
    using assms by (auto simp: ranges_wf_def list_all_iff is_range_list)
  from version_ranges_ok [OF this] assms show ?thesis
    using range_lists_versions [of rs] range_lists_versions [of qs] by (auto simp: vr_union_def vr_isEmpty_def)
qed

lemma delete_from_ok:
  assumes "good_range r"
  shows "ranges_wf (delete_from v r)" and "versions (delete_from v r) = {fst r..snd r} - {v}"
    and "q \<in> set (delete_from v r) \<Longrightarrow> fst r \<le> fst q \<and> snd q \<le> snd r"
  using assms
  by (auto simp: delete_from_def ranges_wf_def good_range_def isVersion_def apart_def split: if_splits)

lemma delete_all_ok:
  assumes "ranges_wf rs"
  shows "ranges_wf (concat (map (delete_from v) rs)) \<and> versions (concat (map (delete_from v) rs)) = versions rs - {v}"
  using assms
proof (induction rs)
  case Nil
  then show ?case by simp
next
  case (Cons r rs)
  then have r: "good_range r" and rs: "ranges_wf rs" "\<forall>q\<in>set rs. apart r q" and good: "\<forall>q\<in>set rs. good_range q"
    by (simp_all add: ranges_wf_Cons) (simp add: ranges_wf_def list_all_iff)
  have "apart p q" if p: "p \<in> set (delete_from v r)" and q: "q \<in> set (concat (map (delete_from v) rs))" for p q
  proof -
    from q obtain t where t: "t \<in> set rs" "q \<in> set (delete_from v t)" by auto
    then have "fst t \<le> fst q" using delete_from_ok(3) [of t q v] good by blast
    moreover have "snd p \<le> snd r" using delete_from_ok(3) [OF r p] by blast
    ultimately show ?thesis using rs(2) t(1) by (fastforce simp: apart_def)
  qed
  with delete_from_ok(1,2) [OF r, of v] Cons.IH [OF rs(1)] show ?case
    by (auto simp: ranges_wf_append)
qed

lemma vr_delete_ok:
  assumes "ranges_wf rs"
  shows "ranges_wf (vr_delete rs v) \<and> versions (vr_delete rs v) = versions rs - {v}"
  using delete_all_ok [OF assms] assms by (simp add: vr_delete_def vr_has_iff)

interpretation vr: refined_steps vr_step set_step versions ranges_wf
proof
  show "set_step f (versions rs) = map_sum id versions (vr_step f rs)" if "ranges_wf rs" for f rs
  proof (cases f)
    case (Add_op v)
    then show ?thesis
      using vr_add_ok [OF that, of v] by (auto simp: set_step_def vr_step_def split: if_splits)
  next
    case (Delete_op v)
    then show ?thesis
      using vr_delete_ok [OF that, of v] by (simp add: set_step_def vr_step_def)
  next
    case (Union_op ranges)
    show ?thesis
    proof (cases "find (\<lambda>r. \<not> is_range r) ranges")
      case None
      then obtain qs where "version_ranges ranges = Inr qs" "ranges_wf qs" "versions qs = (\<Union>r\<in>set ranges. {r ! 0..r ! 1})"
        using version_ranges_ok [of ranges] by (auto simp: find_None_iff list_all_iff)
      then show ?thesis
        using Union_op None vr_union_ok [OF that, of qs] by (auto simp: set_step_def vr_step_def)
    next
      case (Some r)
      then show ?thesis
        using Union_op version_ranges_bad by (simp add: set_step_def vr_step_def)
    qed
  qed
next
  show "ranges_wf rs'" if "ranges_wf rs" "vr_step f rs = Inr rs'" for f rs rs'
  proof (cases f)
    case (Add_op v)
    then show ?thesis
      using that vr_add_ok [OF that(1), of v] by (auto simp: vr_step_def split: if_splits)
  next
    case (Delete_op v)
    then show ?thesis
      using that vr_delete_ok [OF that(1), of v] by (auto simp: vr_step_def)
  next
    case (Union_op ranges)
    with that obtain qs where qs: "version_ranges ranges = Inr qs" "vr_union rs qs = Inr rs'"
      by (auto simp: vr_step_def split: sum.splits)
    then have "find (\<lambda>r. \<not> is_range r) ranges = None"
      by (auto simp: version_ranges_def split: option.splits)
    then have "ranges_wf qs"
      using version_ranges_ok [of ranges] qs(1) by (auto simp: find_None_iff list_all_iff)
    then show ?thesis
      using vr_union_ok [OF that(1)] qs(2) by fastforce
  qed
qed

section \<open>One list for each set\<close>

lemma above_head: "ranges_wf (r # rs) \<Longrightarrow> v \<in> versions rs \<Longrightarrow> snd r + 1 < v"
  by (force simp: ranges_wf_Cons apart_def versions_def)

lemma head_ends:
  assumes "ranges_wf (r # rs)" "ranges_wf (q # qs)" "versions (r # rs) = versions (q # qs)"
  shows "fst q \<le> fst r" and "fst q = fst r \<Longrightarrow> snd r \<le> snd q"
proof -
  have "fst r \<in> versions (q # qs)"
    using assms(1) unfolding assms(3) [symmetric] by (simp add: ranges_wf_Cons good_range_def)
  then show "fst q \<le> fst r"
    using assms(2) above_head [OF assms(2)] by (force simp: ranges_wf_Cons good_range_def)
next
  assume first: "fst q = fst r"
  show "snd r \<le> snd q"
  proof (rule ccontr)
    assume "\<not> snd r \<le> snd q"
    then have "snd q + 1 \<in> versions (r # rs)"
      using assms(2) first by (simp add: ranges_wf_Cons good_range_def)
    then show False
      unfolding assms(3) using above_head [OF assms(2), of "snd q + 1"] by auto
  qed
qed

lemma ranges_canonical: "\<lbrakk>ranges_wf rs; ranges_wf qs; versions rs = versions qs\<rbrakk> \<Longrightarrow> rs = qs"
proof (induction rs arbitrary: qs)
  case Nil
  then show ?case by (cases qs) (auto simp: ranges_wf_Cons good_range_def)
next
  case (Cons r rs)
  then obtain q qs' where qs: "qs = q # qs'"
    by (cases qs) (auto simp: ranges_wf_Cons good_range_def)
  have "fst r = fst q" "snd r = snd q"
    using head_ends [of r rs q qs'] head_ends [of q qs' r rs] Cons.prems qs by force+
  then have "r = q" by (rule prod_eqI)
  moreover have "versions rs = versions (r # rs) - {fst r..snd r}" "versions qs' = versions (q # qs') - {fst q..snd q}"
    using above_head Cons.prems(1,2) unfolding qs by fastforce+
  then have "versions rs = versions qs'"
    using Cons.prems(3) \<open>r = q\<close> qs by simp
  ultimately show ?case
    using Cons.IH Cons.prems(1,2) qs by (simp add: ranges_wf_Cons)
qed

lemma vr_equals_iff: "vr_equals rs qs \<longleftrightarrow> rs = qs"
  by (induction rs qs rule: list_induct2') (auto simp: vr_equals_def prod_eq_iff)

section \<open>Properties\<close>

text \<open>C14. A \<open>VersionRanges\<close> is a set of versions. Whatever ranges are added, added as lists or deleted, in any
  order from the empty set, the calls throw exactly when the same calls on plain sets refuse an
  argument, with the same error, and otherwise the ranges stand for that set and are sorted, disjoint and
  never adjacent.\<close>

theorem version_ranges_refine_sets:
  "run_ops set_step fs {} = map_sum id versions (run_ops vr_step fs []) \<and>
   (\<forall>rs. run_ops vr_step fs [] = Inr rs \<longrightarrow> ranges_wf rs)"
  using vr.run_refines [of "[]" fs] by simp

theorem version_ranges_refine_sets_witness:
  "run_ops vr_step [Add_op 3, Union_op [[5, 7], [1, 2]], Delete_op 6] [] = Inr [(1, 3), (5, 5), (7, 7)] \<and>
   ranges_wf [(1, 3), (5, 5), (7, 7)] \<and>
   run_ops set_step [Add_op 3, Union_op [[5, 7], [1, 2]], Delete_op 6] {} = Inr (versions [(1, 3), (5, 5), (7, 7)])"
proof -
  have "run_ops vr_step [Add_op 3, Union_op [[5, 7], [1, 2]], Delete_op 6] [] = Inr [(1, 3), (5, 5), (7, 7)]"
    by code_simp
  then show ?thesis
    using version_ranges_refine_sets [of "[Add_op 3, Union_op [[5, 7], [1, 2]], Delete_op 6]"] by simp
qed

text \<open>
  On the ranges the class keeps, the questions asked of them are those of the set: the binary search of
  \<open>has\<close> finds exactly its elements, \<open>isEmpty\<close> and \<open>max\<close> are its emptiness and its largest version, and
  \<open>equals\<close> compares sets, so equal sets have one list and serialize equally.\<close>

theorem version_ranges_answer_for_the_set:
  assumes "ranges_wf rs" and "ranges_wf qs"
  shows "(vr_has rs v \<longleftrightarrow> v \<in> versions rs) \<and>
    (vr_isEmpty rs \<longleftrightarrow> versions rs = {}) \<and>
    vr_max rs = (if versions rs = {} then 0 else Max (versions rs)) \<and>
    (vr_equals rs qs \<longleftrightarrow> versions rs = versions qs)"
proof -
  have empty: "versions rs = {} \<longleftrightarrow> rs = []"
    using assms(1) by (cases rs) (auto simp: ranges_wf_Cons good_range_def)
  have "vr_max rs = Max (versions rs)" if "versions rs \<noteq> {}"
  proof -
    from that obtain bs r where rs: "rs = bs @ [r]" by (cases rs rule: rev_cases) auto
    have "finite (versions rs)" by (simp add: versions_def)
    moreover have "snd r \<in> versions rs" "\<forall>v\<in>versions rs. v \<le> snd r"
      using assms(1) rs by (force simp: versions_def ranges_wf_append ranges_wf_Cons good_range_def apart_def)+
    ultimately have "Max (versions rs) = snd r" by (intro Max_eqI) blast+
    then show ?thesis using rs by (simp add: vr_max_def)
  qed
  then have "vr_max rs = (if versions rs = {} then 0 else Max (versions rs))"
    using empty by (simp add: vr_max_def)
  moreover have "vr_equals rs qs \<longleftrightarrow> versions rs = versions qs"
    using ranges_canonical [OF assms] by (auto simp: vr_equals_iff)
  ultimately show ?thesis
    using vr_has_iff [OF assms(1)] empty by (simp add: vr_isEmpty_def)
qed

theorem version_ranges_answer_for_the_set_witness:
  "vr_has [(1, 3), (5, 5)] 2 \<and> \<not> vr_has [(1, 3), (5, 5)] 4 \<and> vr_max [(1, 3), (5, 5)] = Max (versions [(1, 3), (5, 5)]) \<and>
   versions [(1, 3), (5, 5)] \<noteq> versions [(1, 5)]"
proof -
  have wf: "ranges_wf [(1, 3), (5, 5)]" "ranges_wf [(1, 5)]"
    by (simp_all add: ranges_wf_def good_range_def isVersion_def apart_def)
  have "\<not> vr_equals [(1, 3), (5, 5)] [(1, 5)]" "versions [(1, 3), (5, 5)] \<noteq> {}" by (simp_all add: vr_equals_def)
  moreover have "2 \<in> versions [(1, 3), (5, 5)]" "4 \<notin> versions [(1, 3), (5, 5)]" by simp_all
  ultimately show ?thesis
    using version_ranges_answer_for_the_set [OF wf, of 2] version_ranges_answer_for_the_set [OF wf, of 4]
    by presburger
qed

end
