(* ===== verification/Partition.thy ===== *)
theory Partition
  imports Partition_Key Version_Ranges "HOL-Library.AList"
begin

text \<open>
  \<^verbatim>\<open>src/src/domain/datastore_v3/partition.ts\<close> with the operations of \<^verbatim>\<open>op.ts\<close> and the commits of \<^verbatim>\<open>commit.ts\<close>: the
  aggregate every commit of the datastore goes through, at the process that writes it and at the copies
  that follow. A \<^verbatim>\<open>Map\<close> is an association list, updated in place; the versions of a name are a list in
  insertion order. What a put stores is its digest; its bytes and its access bits are not read here.
\<close>

section \<open>Operations and commits\<close>

datatype put_expect = Expect_absent | Expect_digest string

datatype tombstone_expect = Expect_present | Expect_content string

text \<open>A put has its intent, key, digest and expectation; a data version its key, name and version.\<close>

datatype op =
    Put intent string string "put_expect option"
  | Tombstone intent string "tombstone_expect option"
  | Data_version string string int
  | Lease string nat

record commit_writer =
  cw_host :: string
  cw_pid :: nat
  cw_instance :: string

record commit =
  cm_seq :: nat
  cm_partition :: partition_key
  cm_namespace :: string
  cm_txnId :: string
  cm_writer :: commit_writer
  cm_executedAt :: "string option"
  cm_clockOffsetMs :: "int option"
  cm_principal :: "string option"
  cm_fence :: "nat option"
  cm_at :: string
  cm_ops :: "op list"

definition MAX_COMMIT_OPS :: nat where
  "MAX_COMMIT_OPS = 10000"

definition MAX_FIELD_LENGTH :: nat where
  "MAX_FIELD_LENGTH = 1024"

definition is_lease :: "op \<Rightarrow> bool" where
  "is_lease x = (case x of Lease _ _ \<Rightarrow> True | _ \<Rightarrow> False)"

definition text_ok :: "string \<Rightarrow> bool" where
  "text_ok v \<longleftrightarrow> v \<noteq> [] \<and> js_length v \<le> MAX_FIELD_LENGTH"

definition in_partition :: "partition_key \<Rightarrow> intent \<Rightarrow> bool" where
  "in_partition k i = (case intentPartition i of Inr target \<Rightarrow> pk_value target = pk_value k | Inl _ \<Rightarrow> False)"

fun is_model_key :: "partition_identity \<Rightarrow> bool" where
  "is_model_key (Model_partition _ _) \<longleftrightarrow> True"
| "is_model_key _ \<longleftrightarrow> False"

fun op_belongs :: "partition_key \<Rightarrow> op \<Rightarrow> bool" where
  "op_belongs k (Put i _ _ _) \<longleftrightarrow> in_partition k i"
| "op_belongs k (Tombstone i _ _) \<longleftrightarrow> in_partition k i"
| "op_belongs k (Data_version _ _ _) \<longleftrightarrow> is_model_key (pk_identity k)"
| "op_belongs k (Lease _ _) \<longleftrightarrow> True"

text \<open>What \<^verbatim>\<open>Commit.create\<close> accepts; \<open>is_instant\<close> is the test of an ISO instant.\<close>

definition commit_created :: "(string \<Rightarrow> bool) \<Rightarrow> commit \<Rightarrow> bool" where
  "commit_created is_instant c \<longleftrightarrow>
     1 \<le> cm_seq c \<and> cm_seq c \<le> 2 ^ 53 - 1 \<and> js_length (cm_namespace c) \<le> MAX_FIELD_LENGTH \<and> text_ok (cm_txnId c) \<and>
     text_ok (cw_host (cm_writer c)) \<and> text_ok (cw_instance (cm_writer c)) \<and>
     1 \<le> cw_pid (cm_writer c) \<and> cw_pid (cm_writer c) \<le> 2 ^ 53 - 1 \<and>
     pred_option is_instant (cm_executedAt c) \<and> pred_option text_ok (cm_principal c) \<and>
     pred_option (\<lambda>f. f \<le> 2 ^ 53 - 1) (cm_fence c) \<and> is_instant (cm_at c) \<and> cm_ops c \<noteq> [] \<and>
     length (cm_ops c) - length (filter is_lease (cm_ops c)) \<le> MAX_COMMIT_OPS \<and> length (cm_ops c) \<le> MAX_COMMIT_OPS + 1 \<and>
     list_all (op_belongs (cm_partition c)) (cm_ops c)"

text \<open>Of what the factories of operations and intents make sure, what the partition relies on: versions, keys and digests.\<close>

fun intent_versions :: "intent \<Rightarrow> int list" where
  "intent_versions (Data_save _ _ v) = [v]"
| "intent_versions (Data_append _ _ v) = [v]"
| "intent_versions (Data_delete _ _ v) = (case v of Some v \<Rightarrow> [v] | None \<Rightarrow> [])"
| "intent_versions (Data_gc _ _ v) = (case v of Some v \<Rightarrow> [v] | None \<Rightarrow> [])"
| "intent_versions _ = []"

fun op_built :: "op \<Rightarrow> bool" where
  "op_built (Put i key sha _) \<longleftrightarrow> list_all isVersion (intent_versions i) \<and> record_key_ok key \<and> length sha = 64 \<and> list_all is_hex_lower sha"
| "op_built (Tombstone i key _) \<longleftrightarrow> list_all isVersion (intent_versions i) \<and> record_key_ok key"
| "op_built (Data_version key name v) \<longleftrightarrow> isVersion v \<and> record_key_ok key"
| "op_built (Lease holder fence) \<longleftrightarrow> holder \<noteq> [] \<and> fence \<le> 2 ^ 53 - 1"

section \<open>The partition\<close>

datatype commit_rejection =
    Partition_mismatch | Seq_gap | Stale_fence | Stale_lease | Lease_lost | Unfenced | Expect_failed
  | Version_live | Version_reused | Retry_expired

text \<open>A refusal with the key it is about, or an error of the version ranges.\<close>

datatype append_error = Rejected commit_rejection "string option" | Threw range_error

datatype append_result = Appended nat | Duplicate

record data_name =
  dn_live :: "int list"
  dn_highWater :: int
  dn_removed :: "version_range list"

definition no_versions :: data_name where
  "no_versions = \<lparr>dn_live = [], dn_highWater = 0, dn_removed = []\<rparr>"

record partition =
  p_key :: partition_key
  p_seq :: nat
  p_highestFence :: "nat option"
  p_leaseFence :: "nat option"
  p_leaseHolder :: "string option"
  p_txnIds :: "string list"
  p_priorTxn :: "string \<Rightarrow> bool"
  p_records :: "(string \<times> string) list"
  p_names :: "(string \<times> data_name) list"

definition empty_partition :: "partition_key \<Rightarrow> partition" where
  "empty_partition key =
     \<lparr>p_key = key, p_seq = 0, p_highestFence = None, p_leaseFence = None, p_leaseHolder = None, p_txnIds = [],
      p_priorTxn = (\<lambda>_. False), p_records = [], p_names = []\<rparr>"

definition hasTxn :: "partition \<Rightarrow> string \<Rightarrow> bool" where
  "hasTxn p txnId \<longleftrightarrow> txnId \<in> set (p_txnIds p) \<or> p_priorTxn p txnId"

definition p_versions :: "partition \<Rightarrow> string \<Rightarrow> int list" where
  "p_versions p name = sort (case map_of (p_names p) name of Some e \<Rightarrow> dn_live e | None \<Rightarrow> [])"

definition maxOf :: "int list \<Rightarrow> int option" where
  "maxOf vs = fold (\<lambda>v r. case r of None \<Rightarrow> Some v | Some m \<Rightarrow> if v > m then Some v else Some m) vs None"

definition p_latest :: "partition \<Rightarrow> string \<Rightarrow> int option" where
  "p_latest p name = maxOf (case map_of (p_names p) name of Some e \<Rightarrow> dn_live e | None \<Rightarrow> [])"

definition p_highWater :: "partition \<Rightarrow> string \<Rightarrow> int" where
  "p_highWater p name = (case map_of (p_names p) name of Some e \<Rightarrow> dn_highWater e | None \<Rightarrow> 0)"

definition p_removed :: "partition \<Rightarrow> string \<Rightarrow> int \<Rightarrow> bool" where
  "p_removed p name version = (case map_of (p_names p) name of Some e \<Rightarrow> vr_has (dn_removed e) version | None \<Rightarrow> False)"

section \<open>Applying a commit\<close>

text \<open>The overlays a commit is staged in. \<open>None\<close> in an overlay of records is a removal.\<close>

record staged =
  sg_records :: "(string \<times> string option) list"
  sg_names :: "(string \<times> data_name) list"
  sg_leaseFence :: "nat option"
  sg_leaseHolder :: "string option"
  sg_appended :: "(string \<times> int) list"

definition current :: "partition \<Rightarrow> staged \<Rightarrow> string \<Rightarrow> string option" where
  "current p sg key =
     (case map_of (sg_records sg) key of
        Some None \<Rightarrow> None
      | Some (Some sha) \<Rightarrow> Some sha
      | None \<Rightarrow> map_of (p_records p) key)"

definition dataName :: "partition \<Rightarrow> staged \<Rightarrow> string \<Rightarrow> data_name" where
  "dataName p sg name =
     (case map_of (sg_names sg) name of
        Some e \<Rightarrow> e
      | None \<Rightarrow> (case map_of (p_names p) name of Some e \<Rightarrow> e | None \<Rightarrow> no_versions))"

definition stage_name :: "string \<Rightarrow> data_name \<Rightarrow> staged \<Rightarrow> staged" where
  "stage_name name e sg = sg\<lparr>sg_names := AList.update name e (sg_names sg)\<rparr>"

definition stage_record :: "string \<Rightarrow> string option \<Rightarrow> staged \<Rightarrow> staged" where
  "stage_record key state sg = sg\<lparr>sg_records := AList.update key state (sg_records sg)\<rparr>"

definition put_unexpected :: "put_expect option \<Rightarrow> string option \<Rightarrow> bool" where
  "put_unexpected expect existing =
     (case expect of
        None \<Rightarrow> False
      | Some Expect_absent \<Rightarrow> existing \<noteq> None
      | Some (Expect_digest sha) \<Rightarrow> existing \<noteq> Some sha)"

definition tombstone_unexpected :: "tombstone_expect option \<Rightarrow> string option \<Rightarrow> bool" where
  "tombstone_unexpected expect existing =
     (case expect of
        None \<Rightarrow> False
      | Some Expect_present \<Rightarrow> existing = None
      | Some (Expect_content sha) \<Rightarrow> existing \<noteq> Some sha)"

fun appended_version :: "intent \<Rightarrow> (string \<times> int) option" where
  "appended_version (Data_append _ name v) = Some (name, v)"
| "appended_version _ = None"

fun removed_version :: "intent \<Rightarrow> (string \<times> int) option" where
  "removed_version (Data_delete _ name (Some v)) = Some (name, v)"
| "removed_version (Data_gc _ name (Some v)) = Some (name, v)"
| "removed_version _ = None"

definition stage_put ::
  "partition \<Rightarrow> bool \<Rightarrow> intent \<Rightarrow> string \<Rightarrow> string \<Rightarrow> put_expect option \<Rightarrow> staged \<Rightarrow> append_error + staged" where
  "stage_put p observed i key sha expect sg =
     (let sg' = (case appended_version i of
                   Some nv \<Rightarrow> sg\<lparr>sg_appended := List.insert nv (sg_appended sg)\<rparr>
                 | None \<Rightarrow> sg) in
      if \<not> observed \<and> put_unexpected expect (current p sg' key) then Inl (Rejected Expect_failed (Some key))
      else Inr (stage_record key (Some sha) sg'))"

definition unwritten :: "partition \<Rightarrow> string \<Rightarrow> staged \<Rightarrow> bool" where
  "unwritten p name sg \<longleftrightarrow> map_of (sg_names sg) name = None \<and> map_of (p_names p) name = None"

definition drop_version :: "partition \<Rightarrow> string \<Rightarrow> int \<Rightarrow> staged \<Rightarrow> append_error + staged" where
  "drop_version p name version sg =
     (if unwritten p name sg then Inr sg
      else let e = dataName p sg name in
        if version \<in> set (dn_live e) then
          (case vr_add (dn_removed e) version of
             Inl err \<Rightarrow> Inl (Threw err)
           | Inr rs \<Rightarrow> Inr (stage_name name (e\<lparr>dn_live := removeAll version (dn_live e), dn_removed := rs\<rparr>) sg))
        else Inr (stage_name name e sg))"

definition stage_tombstone ::
  "partition \<Rightarrow> bool \<Rightarrow> intent \<Rightarrow> string \<Rightarrow> tombstone_expect option \<Rightarrow> staged \<Rightarrow> append_error + staged" where
  "stage_tombstone p observed i key expect sg =
     (if \<not> observed \<and> tombstone_unexpected expect (current p sg key) then Inl (Rejected Expect_failed (Some key))
      else let sg' = stage_record key None sg in
        case removed_version i of
          None \<Rightarrow> Inr sg'
        | Some (name, version) \<Rightarrow> drop_version p name version sg')"

text \<open>\<^verbatim>\<open>consume\<close>: whether an append allows the version, which uses it up.\<close>

definition consume :: "string \<times> int \<Rightarrow> staged \<Rightarrow> bool \<times> staged" where
  "consume nv sg = (nv \<in> set (sg_appended sg), sg\<lparr>sg_appended := removeAll nv (sg_appended sg)\<rparr>)"

definition record_version :: "string \<Rightarrow> int \<Rightarrow> data_name \<Rightarrow> staged \<Rightarrow> staged" where
  "record_version name version e sg =
     stage_name name
       (e\<lparr>dn_removed := vr_delete (dn_removed e) version,
          dn_live := (if version \<in> set (dn_live e) then dn_live e else dn_live e @ [version]),
          dn_highWater := max (dn_highWater e) version\<rparr>) sg"

definition stage_version :: "partition \<Rightarrow> bool \<Rightarrow> bool \<Rightarrow> string \<Rightarrow> int \<Rightarrow> staged \<Rightarrow> append_error + staged" where
  "stage_version p replay observed name version sg =
     (let e = dataName p sg name; live = version \<in> set (dn_live e) in
      if \<not> observed \<and> live then
        (case consume (name, version) sg of
           (False, _) \<Rightarrow> Inl (Rejected Version_live None)
         | (True, sg') \<Rightarrow> Inr (record_version name version e sg'))
      else if \<not> observed \<and> \<not> replay \<and> \<not> live \<and> vr_has (dn_removed e) version then
        (case consume (name, version) sg of
           (False, _) \<Rightarrow> Inl (Rejected Version_reused None)
         | (True, sg') \<Rightarrow> Inr (record_version name version e sg'))
      else Inr (record_version name version e sg))"

definition stage_lease :: "string \<Rightarrow> nat \<Rightarrow> staged \<Rightarrow> append_error + staged" where
  "stage_lease holder fence sg =
     (if (case sg_leaseFence sg of Some f \<Rightarrow> fence < f | None \<Rightarrow> False) then Inl (Rejected Stale_lease None)
      else Inr (sg\<lparr>sg_leaseFence := Some fence, sg_leaseHolder := Some holder\<rparr>))"

fun stage_op :: "partition \<Rightarrow> bool \<Rightarrow> bool \<Rightarrow> op \<Rightarrow> staged \<Rightarrow> append_error + staged" where
  "stage_op p replay observed (Put i key sha expect) sg = stage_put p observed i key sha expect sg"
| "stage_op p replay observed (Tombstone i key expect) sg = stage_tombstone p observed i key expect sg"
| "stage_op p replay observed (Data_version key name version) sg = stage_version p replay observed name version sg"
| "stage_op p replay observed (Lease holder fence) sg = stage_lease holder fence sg"

fun stage_ops :: "partition \<Rightarrow> bool \<Rightarrow> bool \<Rightarrow> op list \<Rightarrow> staged \<Rightarrow> append_error + staged" where
  "stage_ops p replay observed [] sg = Inr sg"
| "stage_ops p replay observed (x # xs) sg =
     (case stage_op p replay observed x sg of Inl e \<Rightarrow> Inl e | Inr sg' \<Rightarrow> stage_ops p replay observed xs sg')"

definition raiseFence :: "nat option \<Rightarrow> nat \<Rightarrow> append_error + nat" where
  "raiseFence highest fence =
     (if (case highest of Some h \<Rightarrow> fence < h | None \<Rightarrow> False) then Inl (Rejected Stale_fence None) else Inr fence)"

definition commit_fence :: "nat option \<Rightarrow> nat option \<Rightarrow> append_error + nat option" where
  "commit_fence highest fence =
     (case fence of
        Some f \<Rightarrow> map_sum id Some (raiseFence highest f)
      | None \<Rightarrow> if highest \<noteq> None then Inl (Rejected Unfenced None) else Inr highest)"

definition staged_over :: "partition \<Rightarrow> staged" where
  "staged_over p =
     \<lparr>sg_records = [], sg_names = [], sg_leaseFence = p_leaseFence p, sg_leaseHolder = p_leaseHolder p, sg_appended = []\<rparr>"

definition apply_record :: "string \<times> string option \<Rightarrow> (string \<times> string) list \<Rightarrow> (string \<times> string) list" where
  "apply_record r records =
     (case snd r of None \<Rightarrow> AList.delete (fst r) records | Some sha \<Rightarrow> AList.update (fst r) sha records)"

definition commit_staged :: "partition \<Rightarrow> commit \<Rightarrow> nat option \<Rightarrow> staged \<Rightarrow> partition" where
  "commit_staged p c fence sg =
     p\<lparr>p_records := fold apply_record (sg_records sg) (p_records p),
       p_names := fold (\<lambda>ne. AList.update (fst ne) (snd ne)) (sg_names sg) (p_names p),
       p_seq := cm_seq c,
       p_txnIds := List.insert (cm_txnId c) (p_txnIds p),
       p_highestFence := fence,
       p_leaseFence := sg_leaseFence sg,
       p_leaseHolder := sg_leaseHolder sg\<rparr>"

definition apply_commit :: "partition \<Rightarrow> commit \<Rightarrow> bool \<Rightarrow> bool \<Rightarrow> append_error + partition \<times> append_result" where
  "apply_commit p c replay observed =
     (if pk_value (cm_partition c) \<noteq> pk_value (p_key p) then Inl (Rejected Partition_mismatch None)
      else if hasTxn p (cm_txnId c) then Inr (p, Duplicate)
      else if (if observed then cm_seq c \<le> p_seq p else cm_seq c \<noteq> p_seq p + 1) then Inl (Rejected Seq_gap None)
      else case commit_fence (p_highestFence p) (cm_fence c) of
             Inl e \<Rightarrow> Inl e
           | Inr fence \<Rightarrow>
               (case stage_ops p replay observed (cm_ops c) (staged_over p) of
                  Inl e \<Rightarrow> Inl e
                | Inr sg \<Rightarrow> Inr (commit_staged p c fence sg, Appended (cm_seq c))))"

definition append_commit :: "partition \<Rightarrow> commit \<Rightarrow> bool \<Rightarrow> append_error + partition \<times> append_result" where
  "append_commit p c replay = apply_commit p c replay False"

definition appendObserved :: "partition \<Rightarrow> commit \<Rightarrow> bool \<Rightarrow> append_error + partition \<times> append_result" where
  "appendObserved p c replay = apply_commit p c replay True"

section \<open>Keeping dropped versions\<close>

definition stored_name :: "partition \<Rightarrow> string \<Rightarrow> data_name" where
  "stored_name p name = (case map_of (p_names p) name of Some e \<Rightarrow> e | None \<Rightarrow> no_versions)"

definition retain_dropped :: "int \<Rightarrow> data_name \<times> bool \<Rightarrow> append_error + data_name \<times> bool" where
  "retain_dropped version ec =
     (let e = fst ec; raised = dn_highWater e < version;
          e' = (if raised then e\<lparr>dn_highWater := version\<rparr> else e) in
      if version \<notin> set (dn_live e') \<and> \<not> vr_has (dn_removed e') version then
        (case vr_add (dn_removed e') version of
           Inl err \<Rightarrow> Inl (Threw err)
         | Inr rs \<Rightarrow> Inr (e'\<lparr>dn_removed := rs\<rparr>, True))
      else Inr (e', snd ec \<or> raised))"

fun retain_all :: "int list \<Rightarrow> data_name \<times> bool \<Rightarrow> append_error + data_name \<times> bool" where
  "retain_all [] ec = Inr ec"
| "retain_all (v # vs) ec = (case retain_dropped v ec of Inl e \<Rightarrow> Inl e | Inr ec' \<Rightarrow> retain_all vs ec')"

definition retainDroppedVersions :: "partition \<Rightarrow> string \<Rightarrow> int list \<Rightarrow> append_error + partition \<times> bool" where
  "retainDroppedVersions p name vs =
     (if vs = [] then Inr (p, False)
      else case retain_all vs (stored_name p name, False) of
             Inl e \<Rightarrow> Inl e
           | Inr (e, changed) \<Rightarrow> Inr (p\<lparr>p_names := AList.update name e (p_names p)\<rparr>, changed))"

definition retain_name :: "string \<times> data_name \<Rightarrow> partition \<times> bool \<Rightarrow> append_error + partition \<times> bool" where
  "retain_name nt pc =
     (let p = fst pc; theirs = snd nt; e = stored_name p (fst nt);
          raised = dn_highWater e < dn_highWater theirs;
          e' = (if raised then e\<lparr>dn_highWater := dn_highWater theirs\<rparr> else e) in
      case vr_union (dn_removed e') (dn_removed theirs) of
        Inl err \<Rightarrow> Inl (Threw err)
      | Inr rs \<Rightarrow>
          let removed = fold (\<lambda>v rs. vr_delete rs v) (dn_live e') rs;
              differs = \<not> vr_equals removed (dn_removed e');
              e'' = (if differs then e'\<lparr>dn_removed := removed\<rparr> else e') in
          Inr (p\<lparr>p_names := AList.update (fst nt) e'' (p_names p)\<rparr>, snd pc \<or> raised \<or> differs))"

fun retain_names :: "(string \<times> data_name) list \<Rightarrow> partition \<times> bool \<Rightarrow> append_error + partition \<times> bool" where
  "retain_names [] pc = Inr pc"
| "retain_names (nt # nts) pc = (case retain_name nt pc of Inl e \<Rightarrow> Inl e | Inr pc' \<Rightarrow> retain_names nts pc')"

definition retainVersionsOf :: "partition \<Rightarrow> partition \<Rightarrow> append_error + partition \<times> bool" where
  "retainVersionsOf p later = retain_names (p_names later) (p, False)"

section \<open>Followers and replays\<close>

text \<open>What a stage leaves of the appends is the only thing the modes differ in.\<close>

definition stages_alike :: "staged \<Rightarrow> staged \<Rightarrow> bool" where
  "stages_alike a b \<longleftrightarrow> sg_records b = sg_records a \<and> sg_names b = sg_names a \<and> sg_leaseFence b = sg_leaseFence a \<and>
     sg_leaseHolder b = sg_leaseHolder a \<and> set (sg_appended a) \<subseteq> set (sg_appended b)"

lemma alike_reads: "stages_alike a b \<Longrightarrow> current p b = current p a \<and> dataName p b = dataName p a"
  by (simp add: stages_alike_def current_def dataName_def fun_eq_iff)

lemma alike_stage: "stages_alike a b \<Longrightarrow> stages_alike (stage_record key st a) (stage_record key st b)"
  "stages_alike a b \<Longrightarrow> stages_alike (stage_name name e a) (stage_name name e b)"
  by (simp_all add: stages_alike_def stage_record_def stage_name_def)

lemma alike_consumed:
  "stages_alike a b \<Longrightarrow> stages_alike (snd (consume nv a)) b"
  "stages_alike a b \<Longrightarrow> stages_alike (snd (consume nv a)) (snd (consume nv b))"
  "stages_alike a b \<Longrightarrow> fst (consume nv a) \<Longrightarrow> fst (consume nv b)"
  by (auto simp: stages_alike_def consume_def)

text \<open>The whole of \<open>stage_version\<close> in one condition.\<close>

definition needs_append :: "partition \<Rightarrow> bool \<Rightarrow> bool \<Rightarrow> string \<Rightarrow> int \<Rightarrow> staged \<Rightarrow> bool" where
  "needs_append p replay observed name version sg \<longleftrightarrow>
     \<not> observed \<and> (version \<in> set (dn_live (dataName p sg name)) \<or> \<not> replay \<and> vr_has (dn_removed (dataName p sg name)) version)"

lemma stage_version_Inr:
  "stage_version p replay observed name version sg = Inr sg' \<longleftrightarrow>
     (needs_append p replay observed name version sg \<longrightarrow> fst (consume (name, version) sg)) \<and>
     sg' = record_version name version (dataName p sg name)
       (if needs_append p replay observed name version sg then snd (consume (name, version) sg) else sg)"
  by (auto simp: stage_version_def needs_append_def Let_def split: prod.splits bool.splits)

lemma stage_put_Inr:
  "stage_put p observed i key sha expect sg = Inr sg' \<longleftrightarrow>
     (observed \<or> \<not> put_unexpected expect (current p sg key)) \<and>
     sg' = stage_record key (Some sha)
       (case appended_version i of Some nv \<Rightarrow> sg\<lparr>sg_appended := List.insert nv (sg_appended sg)\<rparr> | None \<Rightarrow> sg)"
  by (auto simp: stage_put_def Let_def current_def split: option.splits)

lemma alike_drop_version:
  "stages_alike a b \<Longrightarrow> drop_version p name version a = Inr a' \<Longrightarrow> \<exists>b'. drop_version p name version b = Inr b' \<and> stages_alike a' b'"
  using alike_reads [of a b p]
  by (cases "vr_add (dn_removed (dataName p a name)) version")
    (auto simp: drop_version_def unwritten_def Let_def stages_alike_def stage_name_def split: if_split_asm)

text \<open>A commit accepted in a stricter mode is accepted, with the same effect, in a laxer one.\<close>

lemma stage_op_laxer:
  assumes "stage_op p replay observed x a = Inr a'" and "stages_alike a b" and "replay \<longrightarrow> replay'" and "observed \<longrightarrow> observed'"
  shows "\<exists>b'. stage_op p replay' observed' x b = Inr b' \<and> stages_alike a' b'"
proof (cases x)
  case (Put i key sha expect)
  have "stages_alike (a\<lparr>sg_appended := List.insert nv (sg_appended a)\<rparr>) (b\<lparr>sg_appended := List.insert nv (sg_appended b)\<rparr>)" for nv
    using assms(2) by (auto simp: stages_alike_def)
  with assms alike_reads [OF assms(2), of p] show ?thesis
    unfolding Put by (cases "appended_version i") (auto simp: stage_put_Inr alike_stage)
next
  case (Tombstone i key expect)
  let ?a = "stage_record key None a" and ?b = "stage_record key None b"
  from assms(1) have ok: "observed \<or> \<not> tombstone_unexpected expect (current p a key)"
    and a': "case removed_version i of None \<Rightarrow> a' = ?a | Some (name, version) \<Rightarrow> drop_version p name version ?a = Inr a'"
    unfolding Tombstone by (auto simp: stage_tombstone_def Let_def split: if_split_asm option.split_asm)
  from ok assms(4) have "stage_op p replay' observed' x b =
      (case removed_version i of None \<Rightarrow> Inr ?b | Some (name, version) \<Rightarrow> drop_version p name version ?b)"
    unfolding Tombstone using alike_reads [OF assms(2), of p] by (auto simp: stage_tombstone_def Let_def)
  then show ?thesis
    using a' alike_stage(1) [OF assms(2), of key None] alike_drop_version
    by (cases "removed_version i") auto
next
  case (Data_version key name version)
  let ?need = "needs_append p replay observed name version a" and ?need' = "needs_append p replay' observed' name version b"
  have reads: "dataName p b = dataName p a" using alike_reads [OF assms(2)] by simp
  then have need: "?need' \<Longrightarrow> ?need" using assms(3,4) by (auto simp: needs_append_def)
  from assms(1) have a': "?need \<longrightarrow> fst (consume (name, version) a)"
    "a' = record_version name version (dataName p a name) (if ?need then snd (consume (name, version) a) else a)"
    unfolding Data_version by (simp_all add: stage_version_Inr)
  let ?b = "if ?need' then snd (consume (name, version) b) else b"
  have "stages_alike (if ?need then snd (consume (name, version) a) else a) ?b"
    using need alike_consumed [OF assms(2)] assms(2) by auto
  then have "stages_alike a' (record_version name version (dataName p b name) ?b)"
    unfolding a'(2) reads by (simp add: record_version_def alike_stage)
  moreover have "?need' \<longrightarrow> fst (consume (name, version) b)" using need a'(1) alike_consumed(3) [OF assms(2)] by blast
  ultimately show ?thesis unfolding Data_version by (simp add: stage_version_Inr)
next
  case (Lease holder fence)
  show ?thesis
    using assms unfolding Lease
    by (auto simp: stage_lease_def stages_alike_def split: if_split_asm)
qed

lemma stage_ops_laxer:
  assumes "replay \<longrightarrow> replay'" and "observed \<longrightarrow> observed'"
  shows "stage_ops p replay observed xs a = Inr a' \<Longrightarrow> stages_alike a b \<Longrightarrow>
    \<exists>b'. stage_ops p replay' observed' xs b = Inr b' \<and> stages_alike a' b'"
proof (induction xs arbitrary: a b)
  case (Cons x xs)
  from Cons.prems(1) obtain a1 where a1: "stage_op p replay observed x a = Inr a1" "stage_ops p replay observed xs a1 = Inr a'"
    by (auto split: sum.split_asm)
  from stage_op_laxer [OF a1(1) Cons.prems(2) assms] obtain b1 where
    "stage_op p replay' observed' x b = Inr b1" "stages_alike a1 b1" by blast
  with Cons.IH [OF a1(2)] show ?case by auto
qed simp

lemma alike_committed: "stages_alike a b \<Longrightarrow> commit_staged p c fence b = commit_staged p c fence a"
  by (simp add: stages_alike_def commit_staged_def)

lemma apply_commit_laxer:
  assumes "apply_commit p c replay observed = Inr (p', r)" and "replay \<longrightarrow> replay'" and "observed \<longrightarrow> observed'"
  shows "apply_commit p c replay' observed' = Inr (p', r)"
proof (cases "hasTxn p (cm_txnId c)")
  case True
  with assms(1) show ?thesis by (auto simp: apply_commit_def split: if_split_asm)
next
  case False
  with assms(1) obtain fence sg where sg: "commit_fence (p_highestFence p) (cm_fence c) = Inr fence"
    "stage_ops p replay observed (cm_ops c) (staged_over p) = Inr sg" "p' = commit_staged p c fence sg" "r = Appended (cm_seq c)"
    by (auto simp: apply_commit_def split: if_split_asm sum.split_asm)
  have "stages_alike (staged_over p) (staged_over p)" by (simp add: stages_alike_def)
  from stage_ops_laxer [OF assms(2,3) sg(2) this] obtain b where
    b: "stage_ops p replay' observed' (cm_ops c) (staged_over p) = Inr b" "stages_alike sg b" by blast
  have same: "pk_value (cm_partition c) = pk_value (p_key p)" using assms(1) by (auto simp: apply_commit_def split: if_split_asm)
  have seq: "if observed then p_seq p < cm_seq c else cm_seq c = p_seq p + 1"
    using assms(1) False by (auto simp: apply_commit_def split: if_split_asm)
  then have "\<not> (if observed' then cm_seq c \<le> p_seq p else cm_seq c \<noteq> p_seq p + 1)" using assms(3) by (auto split: if_splits)
  with same False sg b alike_committed [OF b(2)] show ?thesis by (simp add: apply_commit_def)
qed

text \<open>What the process that writes a partition, its restart and a follower make of commits in order.\<close>

fun run_commits :: "(partition \<Rightarrow> commit \<Rightarrow> append_error + partition \<times> append_result) \<Rightarrow> commit list \<Rightarrow> partition \<Rightarrow> append_error + partition" where
  "run_commits f [] p = Inr p"
| "run_commits f (c # cs) p = (case f p c of Inl e \<Rightarrow> Inl e | Inr (p', _) \<Rightarrow> run_commits f cs p')"

text \<open>C7.
  The log decides the partition. Commits that the writer accepted in order, whatever was expected of records
  and versions then, are accepted again by a replay of the log and by a follower that applies them as observed,
  and lead both to exactly the partition the writer has.
\<close>

theorem followers_reach_the_writers_partition:
  assumes "run_commits (\<lambda>p c. append_commit p c False) cs p = Inr p'"
  shows "run_commits (\<lambda>p c. append_commit p c True) cs p = Inr p' \<and> run_commits (\<lambda>p c. appendObserved p c replay) cs p = Inr p'"
  using assms
proof (induction cs arbitrary: p)
  case (Cons c cs)
  from Cons.prems obtain q r where q: "append_commit p c False = Inr (q, r)" "run_commits (\<lambda>p c. append_commit p c False) cs q = Inr p'"
    by (auto split: sum.split_asm)
  then have "append_commit p c True = Inr (q, r)" "appendObserved p c replay = Inr (q, r)"
    using apply_commit_laxer [of p c False False q r] unfolding append_commit_def appendObserved_def by blast+
  with Cons.IH [OF q(2)] show ?case by simp
qed simp

section \<open>The versions of a name\<close>

definition name_wf :: "data_name \<Rightarrow> bool" where
  "name_wf e \<longleftrightarrow> distinct (dn_live e) \<and> (\<forall>v\<in>set (dn_live e). isVersion v \<and> v \<le> dn_highWater e) \<and> ranges_wf (dn_removed e) \<and>
     (\<forall>v\<in>versions (dn_removed e). v \<le> dn_highWater e) \<and> set (dn_live e) \<inter> versions (dn_removed e) = {} \<and> 0 \<le> dn_highWater e \<and>
     dn_highWater e \<le> 2 ^ 53 - 1"

text \<open>The versions a name ever recorded.\<close>

definition known_versions :: "data_name \<Rightarrow> int set" where
  "known_versions e = set (dn_live e) \<union> versions (dn_removed e)"

definition name_grows :: "data_name \<Rightarrow> data_name \<Rightarrow> bool" where
  "name_grows e e' \<longleftrightarrow> known_versions e \<subseteq> known_versions e' \<and> dn_highWater e \<le> dn_highWater e'"

lemma name_grows_refl [simp]: "name_grows e e"
  by (simp add: name_grows_def)

lemma name_grows_trans: "name_grows a b \<Longrightarrow> name_grows b c \<Longrightarrow> name_grows a c"
  by (auto simp: name_grows_def)

lemma no_versions_wf [simp]: "name_wf no_versions" "known_versions no_versions = {}"
  by (simp_all add: name_wf_def no_versions_def known_versions_def)

abbreviation recorded :: "int \<Rightarrow> data_name \<Rightarrow> data_name" where
  "recorded version e \<equiv> e\<lparr>dn_removed := vr_delete (dn_removed e) version,
     dn_live := (if version \<in> set (dn_live e) then dn_live e else dn_live e @ [version]),
     dn_highWater := max (dn_highWater e) version\<rparr>"

lemma recorded_ok:
  assumes "name_wf e" and "isVersion version"
  shows "name_wf (recorded version e) \<and> name_grows e (recorded version e) \<and> known_versions (recorded version e) = insert version (known_versions e)"
proof -
  have "ranges_wf (vr_delete (dn_removed e) version) \<and> versions (vr_delete (dn_removed e) version) = versions (dn_removed e) - {version}"
    using assms(1) by (intro vr_delete_ok) (simp add: name_wf_def)
  with assms show ?thesis by (auto simp: name_wf_def name_grows_def known_versions_def isVersion_def)
qed

lemma dropped_ok:
  assumes "name_wf e" and "version \<in> set (dn_live e)"
  obtains rs where "vr_add (dn_removed e) version = Inr rs"
    "name_wf (e\<lparr>dn_live := removeAll version (dn_live e), dn_removed := rs\<rparr>)"
    "known_versions (e\<lparr>dn_live := removeAll version (dn_live e), dn_removed := rs\<rparr>) = known_versions e"
proof -
  from assms have "ranges_wf (dn_removed e)" "isVersion version" by (auto simp: name_wf_def)
  with vr_add_ok [of "dn_removed e" version] obtain rs where
    rs: "vr_add (dn_removed e) version = Inr rs" "ranges_wf rs" "versions rs = insert version (versions (dn_removed e))" by auto
  with assms show thesis by (intro that [of rs]) (auto simp: name_wf_def known_versions_def distinct_removeAll)
qed

section \<open>What staging does to names\<close>

definition names_wf :: "(string \<times> data_name) list \<Rightarrow> bool" where
  "names_wf names \<longleftrightarrow> distinct (map fst names) \<and> (\<forall>n e. map_of names n = Some e \<longrightarrow> name_wf e \<and> 1 \<le> dn_highWater e)"

definition partition_wf :: "partition \<Rightarrow> bool" where
  "partition_wf p \<longleftrightarrow> names_wf (p_names p) \<and> distinct (map fst (p_records p)) \<and>
     (p_leaseHolder p \<noteq> None \<longrightarrow> p_leaseFence p \<noteq> None)"

definition staged_wf :: "staged \<Rightarrow> bool" where
  "staged_wf sg \<longleftrightarrow> names_wf (sg_names sg) \<and> distinct (map fst (sg_records sg)) \<and>
     (sg_leaseHolder sg \<noteq> None \<longrightarrow> sg_leaseFence sg \<noteq> None)"

lemma names_wf_update: "names_wf names \<Longrightarrow> name_wf e \<Longrightarrow> 1 \<le> dn_highWater e \<Longrightarrow> names_wf (AList.update n e names)"
  by (auto simp: names_wf_def distinct_update update_conv')

lemma dataName_wf: "partition_wf p \<Longrightarrow> staged_wf sg \<Longrightarrow> name_wf (dataName p sg name)"
  by (auto simp: dataName_def partition_wf_def staged_wf_def names_wf_def split: option.split)

lemma dataName_staged: "dataName p (stage_name name e sg) n = (if n = name then e else dataName p sg n)"
  by (simp add: dataName_def stage_name_def update_conv')

lemma dataName_same [simp]:
  "dataName p (stage_record key st sg) = dataName p sg"
  "dataName p (sg\<lparr>sg_appended := a\<rparr>) = dataName p sg"
  by (simp_all add: dataName_def stage_record_def fun_eq_iff)

lemma staged_wf_stage:
  "staged_wf sg \<Longrightarrow> staged_wf (stage_record key st sg)"
  "staged_wf sg \<Longrightarrow> name_wf e \<Longrightarrow> 1 \<le> dn_highWater e \<Longrightarrow> staged_wf (stage_name name e sg)"
  "staged_wf (sg\<lparr>sg_appended := a\<rparr>) = staged_wf sg"
  by (simp_all add: staged_wf_def stage_record_def stage_name_def names_wf_update distinct_update)

text \<open>Every operation keeps the staged names well-formed, and what a name knew it still knows.\<close>

lemma drop_version_ok:
  assumes "partition_wf p" and "staged_wf sg"
  shows "\<exists>sg'. drop_version p name version sg = Inr sg' \<and> staged_wf sg' \<and> sg_appended sg' = sg_appended sg \<and>
    (\<forall>n. known_versions (dataName p sg' n) = known_versions (dataName p sg n) \<and> dn_highWater (dataName p sg' n) = dn_highWater (dataName p sg n))"
proof (cases "map_of (sg_names sg) name = None \<and> map_of (p_names p) name = None")
  case True
  with assms(2) show ?thesis by (simp add: drop_version_def unwritten_def)
next
  case False
  let ?e = "dataName p sg name"
  have wf: "name_wf ?e" using assms by (rule dataName_wf)
  have high: "1 \<le> dn_highWater ?e"
    using False assms by (auto simp: dataName_def partition_wf_def staged_wf_def names_wf_def split: option.splits)
  show ?thesis
  proof (cases "version \<in> set (dn_live ?e)")
    case True
    obtain rs where rs: "vr_add (dn_removed ?e) version = Inr rs"
      "name_wf (?e\<lparr>dn_live := removeAll version (dn_live ?e), dn_removed := rs\<rparr>)"
      "known_versions (?e\<lparr>dn_live := removeAll version (dn_live ?e), dn_removed := rs\<rparr>) = known_versions ?e"
      by (rule dropped_ok [OF wf True])
    let ?sg = "stage_name name (?e\<lparr>dn_live := removeAll version (dn_live ?e), dn_removed := rs\<rparr>) sg"
    have "drop_version p name version sg = Inr ?sg" using False True rs(1) by (auto simp: drop_version_def unwritten_def Let_def)
    moreover have "staged_wf ?sg" using assms(2) rs(2) high by (intro staged_wf_stage) simp_all
    ultimately show ?thesis using rs(3) by (simp add: dataName_staged) (simp add: stage_name_def)
  next
    case no: False
    have "drop_version p name version sg = Inr (stage_name name ?e sg)" using False no by (auto simp: drop_version_def unwritten_def Let_def)
    moreover have "staged_wf (stage_name name ?e sg)" using assms(2) wf high by (intro staged_wf_stage) simp_all
    ultimately show ?thesis by (simp add: dataName_staged) (simp add: stage_name_def)
  qed
qed

lemma record_version_ok:
  assumes "name_wf (dataName p sg name)" and "staged_wf sg'" and "isVersion version" and "dataName p sg' = dataName p sg"
  shows "staged_wf (record_version name version (dataName p sg name) sg')"
    and "name_grows (dataName p sg n) (dataName p (record_version name version (dataName p sg name) sg') n)"
    and "known_versions (dataName p (record_version name version (dataName p sg name) sg') n) =
      (if n = name then insert version (known_versions (dataName p sg n)) else known_versions (dataName p sg n))"
proof -
  note rec = recorded_ok [OF assms(1,3)]
  have high: "1 \<le> dn_highWater (recorded version (dataName p sg name))" using assms(3) by (auto simp: isVersion_def max_def)
  show "staged_wf (record_version name version (dataName p sg name) sg')"
    unfolding record_version_def using assms(2) rec high by (intro staged_wf_stage) simp_all
  show "name_grows (dataName p sg n) (dataName p (record_version name version (dataName p sg name) sg') n)"
    unfolding record_version_def dataName_staged assms(4) using rec by simp
  show "known_versions (dataName p (record_version name version (dataName p sg name) sg') n) =
      (if n = name then insert version (known_versions (dataName p sg n)) else known_versions (dataName p sg n))"
    unfolding record_version_def dataName_staged assms(4) using rec by simp
qed

lemma consume_same [simp]: "dataName p (snd (consume nv sg)) = dataName p sg" "staged_wf (snd (consume nv sg)) = staged_wf sg"
  by (simp_all add: consume_def staged_wf_stage(3))

lemma stage_op_keeps:
  assumes "partition_wf p" and "staged_wf sg" and "op_built x" and "stage_op p replay observed x sg = Inr sg'"
  shows "staged_wf sg' \<and> (\<forall>n. name_grows (dataName p sg n) (dataName p sg' n))"
proof (cases x)
  case (Put i key sha expect)
  with assms show ?thesis
    by (cases "appended_version i") (auto simp: stage_put_Inr staged_wf_stage)
next
  case (Tombstone i key expect)
  let ?sg = "stage_record key None sg"
  have sg: "staged_wf ?sg" using assms(2) by (rule staged_wf_stage)
  show ?thesis
  proof (cases "removed_version i")
    case None
    with assms(4) Tombstone sg show ?thesis by (auto simp: stage_tombstone_def Let_def split: if_split_asm)
  next
    case (Some nv)
    then have "drop_version p (fst nv) (snd nv) ?sg = Inr sg'"
      using assms(4) Tombstone by (auto simp: stage_tombstone_def Let_def split: if_split_asm prod.splits)
    with drop_version_ok [OF assms(1) sg, of "fst nv" "snd nv"] show ?thesis by (auto simp: name_grows_def)
  qed
next
  case (Data_version key name version)
  have wf: "name_wf (dataName p sg name)" using assms(1,2) by (rule dataName_wf)
  have v: "isVersion version" using assms(3) Data_version by simp
  define s where "s = (if needs_append p replay observed name version sg then snd (consume (name, version) sg) else sg)"
  have s: "staged_wf s" "dataName p s = dataName p sg" using assms(2) by (simp_all add: s_def)
  have sg': "sg' = record_version name version (dataName p sg name) s"
    using assms(4) Data_version by (simp add: stage_version_Inr s_def)
  show ?thesis unfolding sg' using record_version_ok [OF wf s(1) v s(2)] by simp
next
  case (Lease holder fence)
  with assms(2,4) show ?thesis
    by (auto simp: stage_lease_def staged_wf_def dataName_def split: if_split_asm)
qed

lemma stage_ops_keeps:
  "stage_ops p replay observed xs sg = Inr sg' \<Longrightarrow> partition_wf p \<Longrightarrow> staged_wf sg \<Longrightarrow> list_all op_built xs \<Longrightarrow>
     staged_wf sg' \<and> (\<forall>n. name_grows (dataName p sg n) (dataName p sg' n))"
proof (induction xs arbitrary: sg)
  case (Cons x xs)
  from Cons.prems(1) obtain s where s: "stage_op p replay observed x sg = Inr s" "stage_ops p replay observed xs s = Inr sg'"
    by (auto split: sum.split_asm)
  have "staged_wf s \<and> (\<forall>n. name_grows (dataName p sg n) (dataName p s n))"
    using stage_op_keeps [OF Cons.prems(2,3) _ s(1)] Cons.prems(4) by simp
  with Cons.IH [OF s(2)] Cons.prems show ?case using name_grows_trans by fastforce
qed simp

section \<open>What a commit does\<close>

lemma map_of_updates:
  "distinct (map fst xs) \<Longrightarrow>
     map_of (fold (\<lambda>ne. AList.update (fst ne) (snd ne)) xs base) n = (case map_of xs n of Some e \<Rightarrow> Some e | None \<Rightarrow> map_of base n)"
proof (induction xs arbitrary: base)
  case (Cons x xs)
  have "map_of xs (fst x) = None" using Cons.prems by (simp add: map_of_eq_None_iff)
  with Cons show ?case by (cases x) (auto simp: update_conv' split: option.splits)
qed simp

lemma map_of_applied:
  "distinct (map fst xs) \<Longrightarrow>
     map_of (fold apply_record xs base) k = (case map_of xs k of Some st \<Rightarrow> st | None \<Rightarrow> map_of base k)"
proof (induction xs arbitrary: base)
  case (Cons x xs)
  have "map_of (apply_record x base) k = (if k = fst x then snd x else map_of base k)"
    by (cases "snd x") (simp_all add: apply_record_def update_conv' delete_conv')
  moreover have "map_of xs (fst x) = None" using Cons.prems by (simp add: map_of_eq_None_iff)
  ultimately show ?case using Cons by (cases x) (auto split: option.splits)
qed simp

lemma distinct_folds:
  "distinct (map fst base) \<Longrightarrow> distinct (map fst (fold (\<lambda>ne. AList.update (fst ne) (snd ne)) xs base))"
  "distinct (map fst rbase) \<Longrightarrow> distinct (map fst (fold apply_record ys rbase))"
proof -
  show "distinct (map fst base) \<Longrightarrow> distinct (map fst (fold (\<lambda>ne. AList.update (fst ne) (snd ne)) xs base))"
    by (induction xs arbitrary: base) (simp_all add: distinct_update)
  have "distinct (map fst m) \<Longrightarrow> distinct (map fst (apply_record y m))" for y m
    by (cases "snd y") (simp_all add: apply_record_def distinct_update distinct_delete)
  then show "distinct (map fst rbase) \<Longrightarrow> distinct (map fst (fold apply_record ys rbase))"
    by (induction ys arbitrary: rbase) simp_all
qed

lemma committed_reads:
  assumes "staged_wf sg"
  shows "stored_name (commit_staged p c fence sg) n = dataName p sg n"
    and "map_of (p_records (commit_staged p c fence sg)) k = current p sg k"
  using assms
  by (auto simp: staged_wf_def names_wf_def commit_staged_def stored_name_def dataName_def current_def map_of_updates map_of_applied
      split: option.splits)

lemma staged_over_wf: "partition_wf p \<Longrightarrow> staged_wf (staged_over p) \<and> (\<forall>n. dataName p (staged_over p) n = stored_name p n)"
  by (simp add: staged_wf_def staged_over_def partition_wf_def names_wf_def dataName_def stored_name_def)

text \<open>An accepted commit either changed nothing or was staged and applied.\<close>

lemma apply_commit_cases:
  assumes "apply_commit p c replay observed = Inr (p', r)"
  obtains (duplicate) "p' = p" "r = Duplicate" "hasTxn p (cm_txnId c)"
  | (applied) fence sg where "\<not> hasTxn p (cm_txnId c)" "r = Appended (cm_seq c)" "p' = commit_staged p c fence sg"
      "if observed then p_seq p < cm_seq c else cm_seq c = p_seq p + 1" "commit_fence (p_highestFence p) (cm_fence c) = Inr fence"
      "stage_ops p replay observed (cm_ops c) (staged_over p) = Inr sg"
proof (cases "hasTxn p (cm_txnId c)")
  case True
  with assms duplicate show thesis by (auto simp: apply_commit_def split: if_split_asm)
next
  case False
  with assms applied show thesis
    by (auto simp: apply_commit_def split: if_split_asm sum.split_asm)
qed

lemma commit_staged_wf:
  assumes "partition_wf p" and "staged_wf sg" shows "partition_wf (commit_staged p c fence sg)"
  using assms distinct_folds
  by (auto simp: partition_wf_def staged_wf_def names_wf_def commit_staged_def map_of_updates split: option.splits)

lemma apply_commit_keeps:
  assumes "partition_wf p" and "list_all op_built (cm_ops c)" and "apply_commit p c replay observed = Inr (p', r)"
  shows "partition_wf p' \<and> (\<forall>n. name_grows (stored_name p n) (stored_name p' n))"
  using assms(3)
proof (cases rule: apply_commit_cases)
  case duplicate
  with assms(1) show ?thesis by simp
next
  case (applied fence sg)
  have over: "staged_wf (staged_over p)" "\<And>n. dataName p (staged_over p) n = stored_name p n"
    using staged_over_wf [OF assms(1)] by simp_all
  from stage_ops_keeps [OF applied(6) assms(1) over(1) assms(2)] have
    sg: "staged_wf sg" "\<And>n. name_grows (stored_name p n) (dataName p sg n)" using over(2) by simp_all
  then show ?thesis using applied(3) commit_staged_wf [OF assms(1)] committed_reads(1) [OF sg(1)] by simp
qed

section \<open>A version is recorded once\<close>

definition records_version :: "string \<Rightarrow> int \<Rightarrow> op \<Rightarrow> bool" where
  "records_version n v x = (case x of Data_version _ name version \<Rightarrow> name = n \<and> version = v | _ \<Rightarrow> False)"

definition appends_version :: "string \<Rightarrow> int \<Rightarrow> op \<Rightarrow> bool" where
  "appends_version n v x = (case x of Put i _ _ _ \<Rightarrow> appended_version i = Some (n, v) | _ \<Rightarrow> False)"

definition count_ops :: "(op \<Rightarrow> bool) \<Rightarrow> op list \<Rightarrow> nat" where
  "count_ops f xs = length (filter f xs)"

text \<open>How often a stage may still record a version without an append.\<close>

definition credit :: "partition \<Rightarrow> string \<Rightarrow> int \<Rightarrow> staged \<Rightarrow> nat" where
  "credit p n v sg = (if (n, v) \<in> set (sg_appended sg) then 1 else 0) + (if v \<in> known_versions (dataName p sg n) then 0 else 1)"

lemma stage_op_credit:
  assumes "partition_wf p" and "staged_wf sg" and "op_built x" and "stage_op p False False x sg = Inr sg'"
  shows "(if records_version n v x then 1 else 0) + credit p n v sg' \<le> credit p n v sg + (if appends_version n v x then 1 else 0)"
proof (cases x)
  case (Put i key sha expect)
  with assms(4) show ?thesis
    by (cases "appended_version i") (auto simp: stage_put_Inr credit_def records_version_def appends_version_def stage_record_def dataName_def)
next
  case (Tombstone i key expect)
  let ?sg = "stage_record key None sg"
  have sg: "staged_wf ?sg" "sg_appended ?sg = sg_appended sg" using assms(2) by (simp_all add: staged_wf_stage) (simp add: stage_record_def)
  have "credit p n v sg' = credit p n v sg"
  proof (cases "removed_version i")
    case None
    with assms(4) Tombstone sg show ?thesis by (auto simp: stage_tombstone_def Let_def credit_def split: if_split_asm)
  next
    case (Some nv)
    then have "drop_version p (fst nv) (snd nv) ?sg = Inr sg'"
      using assms(4) Tombstone by (auto simp: stage_tombstone_def Let_def split: if_split_asm prod.splits)
    with drop_version_ok [OF assms(1) sg(1), of "fst nv" "snd nv"] sg(2) show ?thesis by (simp add: credit_def)
  qed
  then show ?thesis by (simp add: Tombstone records_version_def appends_version_def)
next
  case (Data_version key name version)
  have wf: "name_wf (dataName p sg name)" using assms(1,2) by (rule dataName_wf)
  have ver: "isVersion version" using assms(3) Data_version by simp
  let ?need = "needs_append p False False name version sg"
  define s where "s = (if ?need then snd (consume (name, version) sg) else sg)"
  have s: "staged_wf s" "dataName p s = dataName p sg" using assms(2) by (simp_all add: s_def)
  have sg': "sg' = record_version name version (dataName p sg name) s" "?need \<longrightarrow> (name, version) \<in> set (sg_appended sg)"
    using assms(4) Data_version by (simp_all add: stage_version_Inr s_def consume_def)
  have app: "set (sg_appended sg') = (if ?need then set (sg_appended sg) - {(name, version)} else set (sg_appended sg))"
    unfolding sg' record_version_def stage_name_def by (auto simp: s_def consume_def)
  have know: "known_versions (dataName p sg' n) = (if n = name then insert version (known_versions (dataName p sg n)) else known_versions (dataName p sg n))"
    unfolding sg'(1) by (rule record_version_ok(3) [OF wf s(1) ver s(2)])
  have need: "?need \<longleftrightarrow> version \<in> known_versions (dataName p sg name)"
    using wf by (simp add: needs_append_def known_versions_def name_wf_def vr_has_iff)
  have x: "records_version n v x \<longleftrightarrow> name = n \<and> version = v" "\<not> appends_version n v x"
    by (simp_all add: Data_version records_version_def appends_version_def)
  show ?thesis
  proof (cases "name = n \<and> version = v")
    case True
    then show ?thesis using app know need sg'(2) x by (cases ?need) (simp_all add: credit_def)
  next
    case False
    then have "(n, v) \<in> set (sg_appended sg') \<longleftrightarrow> (n, v) \<in> set (sg_appended sg)"
      "v \<in> known_versions (dataName p sg' n) \<longleftrightarrow> v \<in> known_versions (dataName p sg n)"
      unfolding app know by auto
    with False x show ?thesis by (simp add: credit_def)
  qed
next
  case (Lease holder fence)
  with assms(4) show ?thesis
    by (auto simp: stage_lease_def credit_def records_version_def appends_version_def dataName_def split: if_split_asm)
qed

lemma stage_ops_credit:
  "stage_ops p False False xs sg = Inr sg' \<Longrightarrow> partition_wf p \<Longrightarrow> staged_wf sg \<Longrightarrow> list_all op_built xs \<Longrightarrow>
     count_ops (records_version n v) xs + credit p n v sg' \<le> credit p n v sg + count_ops (appends_version n v) xs"
proof (induction xs arbitrary: sg)
  case (Cons x xs)
  from Cons.prems(1) obtain s where s: "stage_op p False False x sg = Inr s" "stage_ops p False False xs s = Inr sg'"
    by (auto split: sum.split_asm)
  have built: "op_built x" "list_all op_built xs" using Cons.prems(4) by simp_all
  have "staged_wf s" using stage_op_keeps [OF Cons.prems(2,3) built(1) s(1)] by simp
  from Cons.IH [OF s(2) Cons.prems(2) this built(2)] stage_op_credit [OF Cons.prems(2,3) built(1) s(1), of n v]
  show ?case by (simp add: count_ops_def split: if_splits)
qed (simp add: count_ops_def)

text \<open>
  What the process that writes a partition makes of commits as they come: a refused one changes nothing.
  The commits that were applied are returned.
\<close>

fun attempts :: "commit list \<Rightarrow> partition \<Rightarrow> partition \<times> commit list" where
  "attempts [] p = (p, [])"
| "attempts (c # cs) p =
     (case append_commit p c False of
        Inr (p', Appended _) \<Rightarrow> (case attempts cs p' of (q, applied) \<Rightarrow> (q, c # applied))
      | _ \<Rightarrow> attempts cs p)"

definition uncredited :: "partition \<Rightarrow> string \<Rightarrow> int \<Rightarrow> nat" where
  "uncredited p n v = (if v \<in> known_versions (stored_name p n) then 0 else 1)"

lemma append_commit_credit:
  assumes "partition_wf p" and "list_all op_built (cm_ops c)" and "append_commit p c False = Inr (p', Appended k)"
  shows "count_ops (records_version n v) (cm_ops c) + uncredited p' n v \<le> uncredited p n v + count_ops (appends_version n v) (cm_ops c)"
  using assms(3) unfolding append_commit_def
proof (cases rule: apply_commit_cases)
  case (applied fence sg)
  have over: "staged_wf (staged_over p)" "\<And>n. dataName p (staged_over p) n = stored_name p n"
    using staged_over_wf [OF assms(1)] by simp_all
  have "staged_wf sg" using stage_ops_keeps [OF applied(6) assms(1) over(1) assms(2)] by simp
  then have "stored_name p' n = dataName p sg n" unfolding applied(3) by (rule committed_reads)
  moreover have "credit p n v (staged_over p) = uncredited p n v"
    unfolding credit_def uncredited_def over(2) by (simp add: staged_over_def)
  ultimately show ?thesis
    using stage_ops_credit [OF applied(6) assms(1) over(1) assms(2), of n v] by (simp add: credit_def uncredited_def)
qed simp

lemma attempts_refused: "\<nexists>q k. append_commit p c False = Inr (q, Appended k) \<Longrightarrow> attempts (c # cs) p = attempts cs p"
  by (auto split: sum.splits append_result.splits)

lemma attempts_keep:
  "partition_wf p \<Longrightarrow> list_all (\<lambda>c. list_all op_built (cm_ops c)) cs \<Longrightarrow> attempts cs p = (p', applied) \<Longrightarrow>
     partition_wf p' \<and> name_grows (stored_name p n) (stored_name p' n) \<and>
     count_ops (records_version n v) (concat (map cm_ops applied)) + uncredited p' n v \<le>
       uncredited p n v + count_ops (appends_version n v) (concat (map cm_ops applied))"
proof (induction cs arbitrary: p applied)
  case (Cons c cs)
  show ?case
  proof (cases "\<exists>q k. append_commit p c False = Inr (q, Appended k)")
    case True
    then obtain q k where q: "append_commit p c False = Inr (q, Appended k)" by blast
    with Cons.prems(3) obtain rest where rest: "attempts cs q = (p', rest)" "applied = c # rest"
      by (auto split: prod.split_asm)
    have built: "list_all op_built (cm_ops c)" "list_all (\<lambda>c. list_all op_built (cm_ops c)) cs" using Cons.prems(2) by simp_all
    have kept: "partition_wf q" "name_grows (stored_name p n) (stored_name q n)"
      using apply_commit_keeps [OF Cons.prems(1) built(1)] q unfolding append_commit_def by blast+
    from Cons.IH [OF kept(1) built(2) rest(1)] append_commit_credit [OF Cons.prems(1) built(1) q, of n v] kept(2)
    show ?thesis using name_grows_trans by (auto simp: rest(2) count_ops_def)
  next
    case False
    then have "attempts cs p = (p', applied)" using attempts_refused Cons.prems(3) by metis
    with Cons.IH [OF Cons.prems(1)] Cons.prems(2) show ?thesis by simp
  qed
qed (simp add: count_ops_def)

text \<open>C3.
  A version number never names different content. Whatever commits come, in whatever order and however many
  of them are refused, the operations that were applied record a version of a name at most once, and again
  only as often as an append re-recorded it; not even once if the name had recorded it before, live or
  removed since. No name forgets a version it recorded, and its high-water mark never falls.
\<close>

theorem version_recorded_once:
  assumes "partition_wf p" and "list_all (\<lambda>c. list_all op_built (cm_ops c)) cs" and "attempts cs p = (p', applied)"
  shows "count_ops (records_version n v) (concat (map cm_ops applied)) \<le>
      (if v \<in> known_versions (stored_name p n) then 0 else 1) + count_ops (appends_version n v) (concat (map cm_ops applied)) \<and>
    known_versions (stored_name p n) \<subseteq> known_versions (stored_name p' n) \<and>
    p_highWater p n \<le> p_highWater p' n \<and> partition_wf p'"
proof -
  have high: "p_highWater q n = dn_highWater (stored_name q n)" for q
    by (simp add: p_highWater_def stored_name_def no_versions_def split: option.split)
  show ?thesis
    using attempts_keep [OF assms, of n v] by (auto simp: uncredited_def name_grows_def high split: if_splits)
qed

text \<open>A version recorded, removed and refused twice.\<close>

definition demo_key :: partition_key where
  "demo_key = \<lparr>pk_value = ''k'', pk_identity = Lockfile_partition\<rparr>"

definition demo_commit :: "nat \<Rightarrow> nat \<Rightarrow> nat option \<Rightarrow> op list \<Rightarrow> commit" where
  "demo_commit seq txn fence ops =
     \<lparr>cm_seq = seq, cm_partition = demo_key, cm_namespace = [], cm_txnId = nat_text txn,
      cm_writer = \<lparr>cw_host = ''h'', cw_pid = 1, cw_instance = ''i''\<rparr>, cm_executedAt = None, cm_clockOffsetMs = None,
      cm_principal = None, cm_fence = fence, cm_at = ''t'', cm_ops = ops\<rparr>"

definition demo_commits :: "commit list" where
  "demo_commits =
     [demo_commit 1 1 (Some 1) [Data_version ''d'' ''n'' 1],
      demo_commit 2 2 (Some 1) [Data_version ''d'' ''n'' 1],
      demo_commit 2 3 (Some 2) [Tombstone (Data_delete \<lparr>mf_type = ''t'', mf_id = ''m''\<rparr> ''n'' (Some 1)) ''d'' None],
      demo_commit 3 4 (Some 1) [Data_version ''d'' ''n'' 2],
      demo_commit 3 5 (Some 2) [Data_version ''d'' ''n'' 1],
      demo_commit 1 1 (Some 2) [Data_version ''d'' ''n'' 1]]"

lemma empty_partition_wf: "partition_wf (empty_partition key)"
  by (simp add: partition_wf_def names_wf_def empty_partition_def)

lemma demo_built: "list_all (\<lambda>c. list_all op_built (cm_ops c)) demo_commits"
  by code_simp

lemma demo_applied: "map cm_txnId (snd (attempts demo_commits (empty_partition demo_key))) = [''1'', ''3'']"
  by code_simp

theorem version_recorded_once_witness:
  "length (snd (attempts demo_commits (empty_partition demo_key))) = 2 \<and>
   count_ops (records_version ''n'' 1) (concat (map cm_ops (snd (attempts demo_commits (empty_partition demo_key))))) \<le>
     1 + count_ops (appends_version ''n'' 1) (concat (map cm_ops (snd (attempts demo_commits (empty_partition demo_key)))))"
proof -
  have "length (snd (attempts demo_commits (empty_partition demo_key))) = 2"
    using arg_cong [OF demo_applied, of length] by simp
  moreover note demo_built
  ultimately show ?thesis
    using version_recorded_once [OF empty_partition_wf, of demo_commits demo_key "fst (attempts demo_commits (empty_partition demo_key))"
        "snd (attempts demo_commits (empty_partition demo_key))" "''n''" 1]
    by (auto split: if_splits)
qed

text \<open>A fence is no lower than one before it; no fence comes after a fence.\<close>

definition fence_le :: "nat option \<Rightarrow> nat option \<Rightarrow> bool" where
  "fence_le a b = (case a of None \<Rightarrow> True | Some x \<Rightarrow> (case b of None \<Rightarrow> False | Some y \<Rightarrow> x \<le> y))"

lemma fence_le_trans: "fence_le a b \<Longrightarrow> fence_le b c \<Longrightarrow> fence_le a c"
  by (auto simp: fence_le_def split: option.splits)

lemma commit_fence_Inr: "commit_fence highest fence = Inr f \<Longrightarrow> f = fence \<and> fence_le highest fence"
  by (auto simp: commit_fence_def raiseFence_def fence_le_def split: option.split_asm if_split_asm)

lemma applied_step:
  assumes "append_commit p c False = Inr (q, Appended k)"
  shows "\<not> hasTxn p (cm_txnId c)" "cm_seq c = p_seq p + 1" "p_seq q = p_seq p + 1" "p_highestFence q = cm_fence c"
    "fence_le (p_highestFence p) (cm_fence c)" "hasTxn q t \<longleftrightarrow> t = cm_txnId c \<or> hasTxn p t"
proof -
  from assms[unfolded append_commit_def] obtain fence sg where c: "\<not> hasTxn p (cm_txnId c)" "q = commit_staged p c fence sg"
    "cm_seq c = p_seq p + 1" "commit_fence (p_highestFence p) (cm_fence c) = Inr fence"
    by (cases rule: apply_commit_cases) auto
  with commit_fence_Inr [OF c(4)] show "\<not> hasTxn p (cm_txnId c)" "cm_seq c = p_seq p + 1" "p_seq q = p_seq p + 1"
    "p_highestFence q = cm_fence c" "fence_le (p_highestFence p) (cm_fence c)" "hasTxn q t \<longleftrightarrow> t = cm_txnId c \<or> hasTxn p t"
    by (auto simp: commit_staged_def hasTxn_def)
qed

text \<open>C5.
  The log of a partition has no gap, no commit twice and no stale writer. The commits that are applied, of any
  that come, have the next sequence numbers in order; none has the transaction of another or of an earlier one,
  so a retry of a commit that landed is not applied again; and their fences never fall, so a writer whose lease
  was taken over appends nothing once a commit of its successor is in.
\<close>

theorem log_is_gapless_and_fenced:
  assumes "attempts cs p = (p', applied)"
  shows "map cm_seq applied = [p_seq p + 1..<p_seq p + 1 + length applied] \<and> p_seq p' = p_seq p + length applied \<and>
    distinct (map cm_txnId applied) \<and> (\<forall>c\<in>set applied. \<not> hasTxn p (cm_txnId c) \<and> hasTxn p' (cm_txnId c)) \<and>
    sorted_wrt fence_le (p_highestFence p # map cm_fence applied) \<and>
    p_highestFence p' = last (p_highestFence p # map cm_fence applied)"
proof -
  have "attempts cs p = (p', applied) \<Longrightarrow> (\<forall>t. hasTxn p t \<longrightarrow> hasTxn p' t) \<and>
      map cm_seq applied = [p_seq p + 1..<p_seq p + 1 + length applied] \<and> p_seq p' = p_seq p + length applied \<and>
      distinct (map cm_txnId applied) \<and> (\<forall>c\<in>set applied. \<not> hasTxn p (cm_txnId c) \<and> hasTxn p' (cm_txnId c)) \<and>
      sorted_wrt fence_le (p_highestFence p # map cm_fence applied) \<and>
      p_highestFence p' = last (p_highestFence p # map cm_fence applied)"
  proof (induction cs arbitrary: p applied)
    case (Cons c cs)
    show ?case
    proof (cases "\<exists>q k. append_commit p c False = Inr (q, Appended k)")
      case True
      then obtain q k where q: "append_commit p c False = Inr (q, Appended k)" by blast
      with Cons.prems obtain rest where rest: "attempts cs q = (p', rest)" "applied = c # rest"
        by (auto split: prod.split_asm)
      note step = applied_step [OF q]
      note later = Cons.IH [OF rest(1)]
      have "[p_seq p + 1..<p_seq p + 1 + length applied] = (p_seq p + 1) # [p_seq q + 1..<p_seq q + 1 + length rest]"
        by (subst upt_conv_Cons) (simp_all add: rest(2) step(3))
      then have seqs: "map cm_seq applied = [p_seq p + 1..<p_seq p + 1 + length applied]" "p_seq p' = p_seq p + length applied"
        using later step(2,3) by (simp_all add: rest(2))
      have txns: "distinct (map cm_txnId applied)" "\<forall>c\<in>set applied. \<not> hasTxn p (cm_txnId c) \<and> hasTxn p' (cm_txnId c)"
        using later step(1,6) by (auto simp: rest(2))
      have "\<forall>f\<in>set (map cm_fence rest). fence_le (cm_fence c) f" using later step(4) by simp
      then have fences: "sorted_wrt fence_le (p_highestFence p # map cm_fence applied)"
        using later step(4,5) fence_le_trans by (auto simp: rest(2))
      have "p_highestFence p' = last (p_highestFence p # map cm_fence applied)" using later step(4) by (simp add: rest(2))
      moreover have "\<forall>t. hasTxn p t \<longrightarrow> hasTxn p' t" using later step(6) by blast
      ultimately show ?thesis using seqs txns fences by blast
    next
      case False
      then have "attempts cs p = (p', applied)" using attempts_refused Cons.prems by metis
      then show ?thesis by (rule Cons.IH)
    qed
  qed simp
  with assms show ?thesis by blast
qed

theorem log_is_gapless_and_fenced_witness:
  "map cm_txnId (snd (attempts demo_commits (empty_partition demo_key))) = [''1'', ''3''] \<and>
   map cm_seq (snd (attempts demo_commits (empty_partition demo_key))) = [1, 2] \<and>
   sorted_wrt fence_le (None # map cm_fence (snd (attempts demo_commits (empty_partition demo_key))))"
proof -
  have "length (snd (attempts demo_commits (empty_partition demo_key))) = 2"
    using arg_cong [OF demo_applied, of length] by simp
  moreover have "[1..<3] = [1, 2 :: nat]" by (simp add: upt_rec)
  ultimately show ?thesis
    using demo_applied log_is_gapless_and_fenced [of demo_commits "empty_partition demo_key" "fst (attempts demo_commits (empty_partition demo_key))"
        "snd (attempts demo_commits (empty_partition demo_key))"]
    by (simp add: empty_partition_def)
qed

theorem followers_reach_the_writers_partition_witness:
  "\<exists>p'. run_commits (\<lambda>p c. append_commit p c False) (take 1 demo_commits) (empty_partition demo_key) = Inr p' \<and>
     run_commits (\<lambda>p c. appendObserved p c False) (take 1 demo_commits) (empty_partition demo_key) = Inr p'"
proof -
  have "case run_commits (\<lambda>p c. append_commit p c False) (take 1 demo_commits) (empty_partition demo_key) of Inl _ \<Rightarrow> False | Inr _ \<Rightarrow> True"
    by code_simp
  then obtain p' where p': "run_commits (\<lambda>p c. append_commit p c False) (take 1 demo_commits) (empty_partition demo_key) = Inr p'"
    by (auto split: sum.splits)
  from followers_reach_the_writers_partition [OF p', of False] p' show ?thesis by blast
qed

section \<open>Snapshots\<close>

text \<open>The value \<^verbatim>\<open>snapshot\<close> writes and \<^verbatim>\<open>restore\<close> reads; that it has these fields and types is left to the reader of JSON.\<close>

record snapshot_name =
  sn_name :: string
  sn_live :: "int list"
  sn_highWater :: int
  sn_removed :: "int list list option"

record partition_snapshot =
  ps_v :: int
  ps_partition :: string
  ps_seq :: int
  ps_highestFence :: "int option"
  ps_leaseFence :: "int option"
  ps_leaseHolder :: "string option"
  ps_records :: "(string \<times> string) list"
  ps_names :: "snapshot_name list"

definition by_key :: "(string \<times> 'v) list \<Rightarrow> (string \<times> 'v) list" where
  "by_key = js_sort (\<lambda>a b. byCodeUnit (fst a) (fst b))"

definition snapshot_name_of :: "string \<times> data_name \<Rightarrow> snapshot_name" where
  "snapshot_name_of ne =
     \<lparr>sn_name = fst ne, sn_live = sort (dn_live (snd ne)), sn_highWater = dn_highWater (snd ne),
      sn_removed = (if vr_isEmpty (dn_removed (snd ne)) then None else Some (map range_list (dn_removed (snd ne))))\<rparr>"

definition snapshot :: "partition \<Rightarrow> partition_snapshot" where
  "snapshot p =
     \<lparr>ps_v = 1, ps_partition = pk_value (p_key p), ps_seq = int (p_seq p), ps_highestFence = map_option int (p_highestFence p),
      ps_leaseFence = map_option int (p_leaseFence p), ps_leaseHolder = p_leaseHolder p, ps_records = by_key (p_records p),
      ps_names = map snapshot_name_of (by_key (p_names p))\<rparr>"

datatype restore_error =
    Unsupported_version | Snapshot_of_other | Bad_seq | Bad_fence | Empty_holder | Holder_without_fence
  | Bad_record string | Record_twice string | Name_twice string | Bad_high_water string | Bad_live string
  | Bad_removed string range_error | Removed_clash string

definition safe_count :: "int \<Rightarrow> bool" where
  "safe_count n \<longleftrightarrow> 0 \<le> n \<and> n \<le> 2 ^ 53 - 1"

definition isSha256Hex :: "string \<Rightarrow> bool" where
  "isSha256Hex s \<longleftrightarrow> length s = 64 \<and> list_all is_hex_lower s"

fun restore_records :: "(string \<times> string) list \<Rightarrow> (string \<times> string) list \<Rightarrow> restore_error + (string \<times> string) list" where
  "restore_records [] acc = Inr acc"
| "restore_records ((key, sha) # rs) acc =
     (if \<not> isSha256Hex sha \<or> \<not> record_key_ok key then Inl (Bad_record key)
      else if map_of acc key \<noteq> None then Inl (Record_twice key)
      else restore_records rs (AList.update key sha acc))"

definition restore_removed :: "snapshot_name \<Rightarrow> restore_error + version_range list" where
  "restore_removed sn =
     (case sn_removed sn of
        None \<Rightarrow> Inr []
      | Some removed \<Rightarrow>
          (case version_ranges removed of
             Inl e \<Rightarrow> Inl (Bad_removed (sn_name sn) e)
           | Inr rs \<Rightarrow>
               if sn_highWater sn < vr_max rs \<or> list_ex (vr_has rs) (sn_live sn) then Inl (Removed_clash (sn_name sn))
               else Inr rs))"

fun restore_names :: "snapshot_name list \<Rightarrow> (string \<times> data_name) list \<Rightarrow> restore_error + (string \<times> data_name) list" where
  "restore_names [] acc = Inr acc"
| "restore_names (sn # sns) acc =
     (if map_of acc (sn_name sn) \<noteq> None then Inl (Name_twice (sn_name sn))
      else if \<not> isVersion (sn_highWater sn) then Inl (Bad_high_water (sn_name sn))
      else if \<not> list_all (\<lambda>v. isVersion v \<and> v \<le> sn_highWater sn) (sn_live sn) \<or> \<not> distinct (sn_live sn) then Inl (Bad_live (sn_name sn))
      else case restore_removed sn of
             Inl e \<Rightarrow> Inl e
           | Inr rs \<Rightarrow>
               restore_names sns
                 (AList.update (sn_name sn) \<lparr>dn_live = sn_live sn, dn_highWater = sn_highWater sn, dn_removed = rs\<rparr> acc))"

definition restore :: "partition_key \<Rightarrow> partition_snapshot \<Rightarrow> (string \<Rightarrow> bool) \<Rightarrow> restore_error + partition" where
  "restore key ps priorTxn =
     (if ps_v ps \<noteq> 1 then Inl Unsupported_version
      else if ps_partition ps \<noteq> pk_value key then Inl Snapshot_of_other
      else if \<not> safe_count (ps_seq ps) then Inl Bad_seq
      else if \<not> pred_option safe_count (ps_highestFence ps) \<or> \<not> pred_option safe_count (ps_leaseFence ps) then Inl Bad_fence
      else if ps_leaseHolder ps = Some [] then Inl Empty_holder
      else if ps_leaseHolder ps \<noteq> None \<and> ps_leaseFence ps = None then Inl Holder_without_fence
      else case restore_records (ps_records ps) [] of
             Inl e \<Rightarrow> Inl e
           | Inr records \<Rightarrow>
               (case restore_names (ps_names ps) [] of
                  Inl e \<Rightarrow> Inl e
                | Inr names \<Rightarrow>
                    Inr \<lparr>p_key = key, p_seq = nat (ps_seq ps), p_highestFence = map_option nat (ps_highestFence ps),
                         p_leaseFence = map_option nat (ps_leaseFence ps), p_leaseHolder = ps_leaseHolder ps, p_txnIds = [],
                         p_priorTxn = priorTxn, p_records = records, p_names = names\<rparr>))"

text \<open>What the operations and commits let into a partition.\<close>

definition storable_partition :: "partition \<Rightarrow> bool" where
  "storable_partition p \<longleftrightarrow> partition_wf p \<and> p_seq p \<le> 2 ^ 53 - 1 \<and> pred_option (\<lambda>f. f \<le> 2 ^ 53 - 1) (p_highestFence p) \<and>
     pred_option (\<lambda>f. f \<le> 2 ^ 53 - 1) (p_leaseFence p) \<and> p_leaseHolder p \<noteq> Some [] \<and>
     (\<forall>(key, sha)\<in>set (p_records p). record_key_ok key \<and> isSha256Hex sha)"

definition name_alike :: "data_name \<Rightarrow> data_name \<Rightarrow> bool" where
  "name_alike e f \<longleftrightarrow> set (dn_live f) = set (dn_live e) \<and> dn_highWater f = dn_highWater e \<and> dn_removed f = dn_removed e"

definition partitions_alike :: "partition \<Rightarrow> partition \<Rightarrow> bool" where
  "partitions_alike p q \<longleftrightarrow> pk_value (p_key q) = pk_value (p_key p) \<and> p_seq q = p_seq p \<and> p_highestFence q = p_highestFence p \<and>
     p_leaseFence q = p_leaseFence p \<and> p_leaseHolder q = p_leaseHolder p \<and> hasTxn q = hasTxn p \<and>
     map_of (p_records q) = map_of (p_records p) \<and> (\<forall>n. rel_option name_alike (map_of (p_names p) n) (map_of (p_names q) n))"

lemma by_key_set [simp]: "set (by_key xs) = set xs" "distinct (map fst (by_key xs)) = distinct (map fst xs)"
proof -
  show "set (by_key xs) = set xs" by (simp add: by_key_def)
  have "mset (map fst (by_key xs)) = mset (map fst xs)" by (simp add: by_key_def)
  then show "distinct (map fst (by_key xs)) = distinct (map fst xs)" by (rule mset_eq_imp_distinct_iff)
qed

lemma map_of_by_key: "distinct (map fst xs) \<Longrightarrow> map_of (by_key xs) = map_of xs"
  by (rule map_of_inject_set [THEN iffD2]) simp_all

lemma restore_records_ok:
  "distinct (map fst rs) \<Longrightarrow> (\<forall>(key, sha)\<in>set rs. record_key_ok key \<and> isSha256Hex sha) \<Longrightarrow> fst ` set rs \<inter> fst ` set acc = {} \<Longrightarrow>
     restore_records rs acc = Inr (acc @ rs)"
proof (induction rs arbitrary: acc)
  case (Cons r rs)
  obtain key sha where r: "r = (key, sha)" by fastforce
  have new: "map_of acc key = None" using Cons.prems(3) r by (auto simp: map_of_eq_None_iff)
  have "AList.update key sha acc = acc @ [(key, sha)]"
    using new by (induction acc) (auto split: if_splits)
  moreover have "restore_records rs (acc @ [(key, sha)]) = Inr ((acc @ [(key, sha)]) @ rs)"
    using Cons.prems r by (intro Cons.IH) auto
  ultimately show ?case using Cons.prems(2) r new by simp
qed simp

lemma restore_removed_ok:
  assumes "name_wf e" and "1 \<le> dn_highWater e"
  shows "restore_removed (snapshot_name_of (n, e)) = Inr (dn_removed e)"
proof (cases "vr_isEmpty (dn_removed e)")
  case True
  then show ?thesis by (simp add: restore_removed_def snapshot_name_of_def vr_isEmpty_def)
next
  case False
  have wf: "ranges_wf (dn_removed e)" using assms(1) by (simp add: name_wf_def)
  then have "list_all is_range (map range_list (dn_removed e))" by (simp add: ranges_wf_def list_all_iff is_range_list)
  from version_ranges_ok [OF this] obtain rs where rs: "version_ranges (map range_list (dn_removed e)) = Inr rs" "ranges_wf rs"
    "versions rs = versions (dn_removed e)" unfolding range_lists_versions by blast
  then have same: "rs = dn_removed e" using ranges_canonical [OF rs(2) wf] by simp
  have "vr_max rs \<le> dn_highWater e"
  proof -
    have "rs \<noteq> []" using False same by (simp add: vr_isEmpty_def)
    then have "snd (last rs) \<in> versions rs"
      using rs(2) by (auto simp: versions_def ranges_wf_def list_all_iff good_range_def intro!: bexI [of _ "last rs"])
    with assms(1) same \<open>rs \<noteq> []\<close> show ?thesis by (simp add: vr_max_def name_wf_def)
  qed
  moreover have "\<not> list_ex (vr_has rs) (sort (dn_live e))"
    using assms(1) same wf by (auto simp: list_ex_iff name_wf_def vr_has_iff)
  ultimately show ?thesis using False rs(1) same by (simp add: restore_removed_def snapshot_name_of_def)
qed

definition restored :: "data_name \<Rightarrow> data_name" where
  "restored e = \<lparr>dn_live = sort (dn_live e), dn_highWater = dn_highWater e, dn_removed = dn_removed e\<rparr>"

lemma map_of_restored: "map_of (map (\<lambda>(n, e). (n, restored e)) xs) n = map_option restored (map_of xs n)"
  by (induction xs) auto

lemma restore_names_ok:
  "distinct (map fst nes) \<Longrightarrow> (\<forall>(n, e)\<in>set nes. name_wf e \<and> 1 \<le> dn_highWater e) \<Longrightarrow> fst ` set nes \<inter> fst ` set acc = {} \<Longrightarrow>
     restore_names (map snapshot_name_of nes) acc = Inr (acc @ map (\<lambda>(n, e). (n, restored e)) nes)"
proof (induction nes arbitrary: acc)
  case (Cons ne nes)
  obtain n e where ne: "ne = (n, e)" by fastforce
  have wf: "name_wf e" "1 \<le> dn_highWater e" using Cons.prems(2) ne by auto
  let ?e = "restored e"
  have new: "map_of acc n = None" using Cons.prems(3) ne by (auto simp: map_of_eq_None_iff)
  have "AList.update n ?e acc = acc @ [(n, ?e)]"
    using new by (induction acc) (auto split: if_splits)
  moreover have "restore_names (map snapshot_name_of nes) (acc @ [(n, ?e)]) =
      Inr ((acc @ [(n, ?e)]) @ map (\<lambda>(n, e). (n, restored e)) nes)"
    using Cons.prems ne by (intro Cons.IH) auto
  moreover have "isVersion (dn_highWater e)" "list_all (\<lambda>v. isVersion v \<and> v \<le> dn_highWater e) (sort (dn_live e))" "distinct (sort (dn_live e))"
    using wf by (auto simp: name_wf_def isVersion_def list_all_iff)
  ultimately show ?case
    using restore_removed_ok [OF wf, of n] new by (simp add: ne) (simp add: snapshot_name_of_def restored_def)
qed simp

text \<open>A snapshot is restored to a partition that is alike.\<close>

lemma restore_snapshot:
  assumes "storable_partition p" and "priorTxn = hasTxn p"
  shows "\<exists>q. restore (p_key p) (snapshot p) priorTxn = Inr q \<and> partitions_alike p q \<and> partition_wf q"
proof -
  have wf: "names_wf (p_names p)" "distinct (map fst (p_names p))" "distinct (map fst (p_records p))"
    and holder: "p_leaseHolder p \<noteq> None \<longrightarrow> p_leaseFence p \<noteq> None"
    using assms(1) by (simp_all add: storable_partition_def partition_wf_def names_wf_def)
  let ?names = "map (\<lambda>(n, e). (n, restored e)) (by_key (p_names p))"
  let ?q = "\<lparr>p_key = p_key p, p_seq = p_seq p, p_highestFence = p_highestFence p, p_leaseFence = p_leaseFence p,
    p_leaseHolder = p_leaseHolder p, p_txnIds = [], p_priorTxn = priorTxn, p_records = by_key (p_records p), p_names = ?names\<rparr>"
  have records: "restore_records (by_key (p_records p)) [] = Inr (by_key (p_records p))"
    using restore_records_ok [of "by_key (p_records p)" "[]"] assms(1) wf(3) by (simp add: storable_partition_def)
  have "\<forall>(n, e)\<in>set (by_key (p_names p)). name_wf e \<and> 1 \<le> dn_highWater e"
    using wf(1) by (auto simp: names_wf_def dest: map_of_is_SomeI [OF wf(2)])
  then have names: "restore_names (map snapshot_name_of (by_key (p_names p))) [] = Inr ?names"
    using restore_names_ok [of "by_key (p_names p)" "[]"] wf(2) by simp
  have bounds: "safe_count (int (p_seq p))" "pred_option safe_count (map_option int (p_highestFence p))"
    "pred_option safe_count (map_option int (p_leaseFence p))" "p_leaseHolder p \<noteq> Some []"
    using assms(1) by (auto simp: storable_partition_def safe_count_def pred_option_def)
  have restored: "restore (p_key p) (snapshot p) priorTxn = Inr ?q"
    using records names bounds holder
    by (auto simp: restore_def snapshot_def option.map_comp comp_def option.map_ident)
  have read: "map_of ?names n = map_option restored (map_of (p_names p) n)" for n
    using map_of_restored [of "by_key (p_names p)"] by (simp add: map_of_by_key [OF wf(2)])
  have "rel_option name_alike (map_of (p_names p) n) (map_of ?names n)" for n
    unfolding read by (cases "map_of (p_names p) n") (simp_all add: name_alike_def restored_def)
  then have "partitions_alike p ?q"
    using assms(2) wf(3) by (simp add: partitions_alike_def hasTxn_def fun_eq_iff map_of_by_key)
  moreover have "name_wf (restored e)" if "name_wf e" for e
    using that by (auto simp: name_wf_def restored_def)
  then have "names_wf ?names"
    using wf(1,2) by (auto simp: names_wf_def read comp_def split_def restored_def)
  then have "partition_wf ?q" using wf(3) holder by (simp add: partition_wf_def)
  ultimately show ?thesis using restored by blast
qed

subsection \<open>Alike partitions go on alike\<close>

definition overlays_alike :: "staged \<Rightarrow> staged \<Rightarrow> bool" where
  "overlays_alike a b \<longleftrightarrow> sg_records b = sg_records a \<and> sg_leaseFence b = sg_leaseFence a \<and> sg_leaseHolder b = sg_leaseHolder a \<and>
     sg_appended b = sg_appended a \<and> (\<forall>n. rel_option name_alike (map_of (sg_names a) n) (map_of (sg_names b) n))"

lemma name_alike_refl [simp]: "name_alike e e"
  by (simp add: name_alike_def)

lemma rel_option_None: "rel_option R x y \<Longrightarrow> x = None \<longleftrightarrow> y = None"
  by (cases x; cases y) simp_all

lemma alike_partition_reads:
  assumes "partitions_alike p q" and "overlays_alike a b"
  shows "current q b = current p a" and "name_alike (dataName p a n) (dataName q b n)"
    and "map_of (sg_names a) n = None \<and> map_of (p_names p) n = None \<longleftrightarrow> map_of (sg_names b) n = None \<and> map_of (p_names q) n = None"
proof -
  have sg: "rel_option name_alike (map_of (sg_names a) n) (map_of (sg_names b) n)"
    and base: "rel_option name_alike (map_of (p_names p) n) (map_of (p_names q) n)"
    using assms by (simp_all add: partitions_alike_def overlays_alike_def)
  show "current q b = current p a"
    using assms by (intro ext) (auto simp: partitions_alike_def overlays_alike_def current_def split: option.split)
  show "name_alike (dataName p a n) (dataName q b n)"
    using sg base
    by (cases "map_of (sg_names a) n"; cases "map_of (sg_names b) n"; cases "map_of (p_names p) n"; cases "map_of (p_names q) n")
      (simp_all add: dataName_def)
  show "map_of (sg_names a) n = None \<and> map_of (p_names p) n = None \<longleftrightarrow> map_of (sg_names b) n = None \<and> map_of (p_names q) n = None"
    using rel_option_None [OF sg] rel_option_None [OF base] by blast
qed

lemma overlays_stage:
  "overlays_alike a b \<Longrightarrow> overlays_alike (stage_record key st a) (stage_record key st b)"
  "overlays_alike a b \<Longrightarrow> name_alike e f \<Longrightarrow> overlays_alike (stage_name name e a) (stage_name name f b)"
  "overlays_alike a b \<Longrightarrow> overlays_alike (a\<lparr>sg_appended := x\<rparr>) (b\<lparr>sg_appended := x\<rparr>)"
  by (simp_all add: overlays_alike_def stage_record_def stage_name_def update_conv')

lemma drop_version_cases:
  "drop_version p name version sg =
     (if unwritten p name sg then Inr sg
      else if version \<in> set (dn_live (dataName p sg name)) then
        map_sum Threw (\<lambda>rs. stage_name name ((dataName p sg name)\<lparr>dn_live := removeAll version (dn_live (dataName p sg name)), dn_removed := rs\<rparr>) sg)
          (vr_add (dn_removed (dataName p sg name)) version)
      else Inr (stage_name name (dataName p sg name) sg))"
  by (simp add: drop_version_def unwritten_def Let_def split: sum.split)

lemma drop_version_alike:
  assumes "partitions_alike p q" and "overlays_alike a b" and "drop_version p name version a = Inr a'"
  shows "\<exists>b'. drop_version q name version b = Inr b' \<and> overlays_alike a' b'"
proof -
  note reads = alike_partition_reads(2,3) [OF assms(1,2), of name]
  let ?e = "dataName p a name" and ?f = "dataName q b name"
  have f: "set (dn_live ?f) = set (dn_live ?e)" "dn_removed ?f = dn_removed ?e" "dn_highWater ?f = dn_highWater ?e"
    using reads(1) by (simp_all add: name_alike_def)
  have unw: "unwritten q name b = unwritten p name a" using reads(2) by (simp add: unwritten_def)
  consider "unwritten p name a" | "\<not> unwritten p name a" "version \<notin> set (dn_live ?e)"
    | "\<not> unwritten p name a" "version \<in> set (dn_live ?e)" by blast
  then show ?thesis
  proof cases
    case 1
    with assms(2,3) unw show ?thesis by (simp add: drop_version_cases)
  next
    case 2
    with assms(3) have "a' = stage_name name ?e a" by (simp add: drop_version_cases)
    moreover have "drop_version q name version b = Inr (stage_name name ?f b)" using 2 unw f by (simp add: drop_version_cases)
    ultimately show ?thesis using overlays_stage(2) [OF assms(2) reads(1)] by blast
  next
    case 3
    with assms(3) obtain rs where rs: "vr_add (dn_removed ?e) version = Inr rs"
      "a' = stage_name name (?e\<lparr>dn_live := removeAll version (dn_live ?e), dn_removed := rs\<rparr>) a"
      by (cases "vr_add (dn_removed ?e) version") (simp_all add: drop_version_cases)
    have "drop_version q name version b = Inr (stage_name name (?f\<lparr>dn_live := removeAll version (dn_live ?f), dn_removed := rs\<rparr>) b)"
      using 3 rs(1) unw f by (simp add: drop_version_cases)
    moreover have "name_alike (?e\<lparr>dn_live := removeAll version (dn_live ?e), dn_removed := rs\<rparr>)
        (?f\<lparr>dn_live := removeAll version (dn_live ?f), dn_removed := rs\<rparr>)"
      using f by (simp add: name_alike_def)
    ultimately show ?thesis using rs(2) overlays_stage(2) [OF assms(2)] by blast
  qed
qed

lemma stage_op_alike:
  assumes "partitions_alike p q" and "overlays_alike a b" and "stage_op p replay observed x a = Inr a'"
  shows "\<exists>b'. stage_op q replay observed x b = Inr b' \<and> overlays_alike a' b'"
proof (cases x)
  case (Put i key sha expect)
  with assms alike_partition_reads(1) [OF assms(1,2)] show ?thesis
    by (cases "appended_version i") (auto simp: stage_put_Inr overlays_stage overlays_alike_def [of a b])
next
  case (Tombstone i key expect)
  let ?a = "stage_record key None a" and ?b = "stage_record key None b"
  have alike: "overlays_alike ?a ?b" using assms(2) by (rule overlays_stage)
  from assms(3) have ok: "observed \<or> \<not> tombstone_unexpected expect (current p a key)"
    and a': "case removed_version i of None \<Rightarrow> a' = ?a | Some (name, version) \<Rightarrow> drop_version p name version ?a = Inr a'"
    unfolding Tombstone by (auto simp: stage_tombstone_def Let_def split: if_split_asm option.split_asm)
  from ok have "stage_op q replay observed x b =
      (case removed_version i of None \<Rightarrow> Inr ?b | Some (name, version) \<Rightarrow> drop_version q name version ?b)"
    unfolding Tombstone using alike_partition_reads(1) [OF assms(1,2)] by (auto simp: stage_tombstone_def Let_def)
  then show ?thesis
    using a' alike drop_version_alike [OF assms(1) alike] by (cases "removed_version i") auto
next
  case (Data_version key name version)
  let ?e = "dataName p a name" and ?f = "dataName q b name"
  have f: "set (dn_live ?f) = set (dn_live ?e)" "dn_removed ?f = dn_removed ?e" "dn_highWater ?f = dn_highWater ?e"
    using alike_partition_reads(2) [OF assms(1,2), of name] by (simp_all add: name_alike_def)
  let ?need = "needs_append p replay observed name version a"
  have need: "needs_append q replay observed name version b = ?need" by (simp add: needs_append_def f)
  have use: "consume (name, version) b = (fst (consume (name, version) a), b\<lparr>sg_appended := sg_appended (snd (consume (name, version) a))\<rparr>)"
    using assms(2) by (simp add: consume_def overlays_alike_def)
  have "overlays_alike (if ?need then snd (consume (name, version) a) else a) (if ?need then snd (consume (name, version) b) else b)"
    using assms(2) overlays_stage(3) [OF assms(2)] by (simp add: consume_def overlays_alike_def)
  moreover have "name_alike (recorded version ?e) (recorded version ?f)" using f by (simp add: name_alike_def)
  ultimately have "overlays_alike (record_version name version ?e (if ?need then snd (consume (name, version) a) else a))
      (record_version name version ?f (if ?need then snd (consume (name, version) b) else b))"
    unfolding record_version_def by (rule overlays_stage)
  with assms(3) need use show ?thesis unfolding Data_version by (auto simp: stage_version_Inr)
next
  case (Lease holder fence)
  with assms show ?thesis by (auto simp: stage_lease_def overlays_alike_def split: if_split_asm)
qed

lemma stage_ops_alike:
  assumes "partitions_alike p q"
  shows "stage_ops p replay observed xs a = Inr a' \<Longrightarrow> overlays_alike a b \<Longrightarrow>
    \<exists>b'. stage_ops q replay observed xs b = Inr b' \<and> overlays_alike a' b'"
proof (induction xs arbitrary: a b)
  case (Cons x xs)
  from Cons.prems(1) obtain a1 where a1: "stage_op p replay observed x a = Inr a1" "stage_ops p replay observed xs a1 = Inr a'"
    by (auto split: sum.split_asm)
  from stage_op_alike [OF assms Cons.prems(2) a1(1)] obtain b1 where "stage_op q replay observed x b = Inr b1" "overlays_alike a1 b1" by blast
  with Cons.IH [OF a1(2)] show ?case by auto
qed simp

text \<open>Well-formed partitions that are alike accept the same commits, and stay alike.\<close>

lemma apply_commit_alike:
  assumes "partitions_alike p q" and "partition_wf p" and "partition_wf q" and "list_all op_built (cm_ops c)"
    and "apply_commit p c replay observed = Inr (p', r)"
  shows "\<exists>q'. apply_commit q c replay observed = Inr (q', r) \<and> partitions_alike p' q' \<and> partition_wf p' \<and> partition_wf q'"
proof -
  have q: "pk_value (p_key q) = pk_value (p_key p)" "p_seq q = p_seq p" "p_highestFence q = p_highestFence p" "hasTxn q = hasTxn p"
    using assms(1) by (simp_all add: partitions_alike_def)
  have same: "pk_value (cm_partition c) = pk_value (p_key p)" using assms(5) by (auto simp: apply_commit_def split: if_split_asm)
  have wf': "partition_wf p'" using apply_commit_keeps [OF assms(2,4,5)] by simp
  from assms(5) have "\<exists>q'. apply_commit q c replay observed = Inr (q', r) \<and> partitions_alike p' q'"
  proof (cases rule: apply_commit_cases)
    case duplicate
    with assms(1) same q show ?thesis by (auto simp: apply_commit_def)
  next
    case (applied fence sg)
    have over: "overlays_alike (staged_over p) (staged_over q)"
      using assms(1) by (simp add: overlays_alike_def staged_over_def partitions_alike_def)
    from stage_ops_alike [OF assms(1) applied(6) over] obtain tg where
      tg: "stage_ops q replay observed (cm_ops c) (staged_over q) = Inr tg" "overlays_alike sg tg" by blast
    have sgs: "staged_wf sg" "staged_wf tg"
      using stage_ops_keeps [OF applied(6) assms(2) _ assms(4)] stage_ops_keeps [OF tg(1) assms(3) _ assms(4)]
        staged_over_wf [OF assms(2)] staged_over_wf [OF assms(3)] by simp_all
    have "apply_commit q c replay observed = Inr (commit_staged q c fence tg, r)"
      using applied same q tg(1) by (auto simp: apply_commit_def split: if_splits)
    moreover have "partitions_alike p' (commit_staged q c fence tg)"
    proof -
      have "map_of (p_records (commit_staged q c fence tg)) = map_of (p_records p')"
        unfolding applied(3) using committed_reads(2) sgs alike_partition_reads(1) [OF assms(1) tg(2)] by (simp add: fun_eq_iff)
      moreover have "rel_option name_alike (map_of (p_names p') n) (map_of (p_names (commit_staged q c fence tg)) n)" for n
      proof -
        have sg_n: "rel_option name_alike (map_of (sg_names sg) n) (map_of (sg_names tg) n)"
          and base_n: "rel_option name_alike (map_of (p_names p) n) (map_of (p_names q) n)"
          using assms(1) tg(2) by (simp_all add: partitions_alike_def overlays_alike_def)
        show ?thesis
          unfolding applied(3) using sgs sg_n base_n
          by (cases "map_of (sg_names sg) n"; cases "map_of (sg_names tg) n")
            (simp_all add: commit_staged_def map_of_updates staged_wf_def names_wf_def)
      qed
      moreover have "hasTxn (commit_staged q c fence tg) t = hasTxn p' t" for t
        unfolding applied(3) using fun_cong [OF q(4), of t] by (auto simp: commit_staged_def hasTxn_def)
      ultimately show ?thesis
        unfolding applied(3) partitions_alike_def using q tg(2)
        by (simp add: commit_staged_def overlays_alike_def fun_eq_iff)
    qed
    ultimately show ?thesis by blast
  qed
  then show ?thesis using wf' apply_commit_keeps [OF assms(3,4)] by blast
qed

text \<open>C20.
  A partition restored from its snapshot is the partition: it has the same sequence number, fences and lease,
  the same records and the same live, removed and highest versions of every name. Told the transactions that
  were applied, it accepts the commits the original would accept next, with the same answers, and stays alike.
\<close>

theorem snapshot_reads_back:
  assumes "storable_partition p"
  shows "\<exists>q. restore (p_key p) (snapshot p) (hasTxn p) = Inr q \<and> partitions_alike p q \<and> partition_wf q \<and>
    (\<forall>cs p'. list_all (\<lambda>c. list_all op_built (cm_ops c)) cs \<and> run_commits (\<lambda>p c. append_commit p c replay) cs p = Inr p' \<longrightarrow>
       (\<exists>q'. run_commits (\<lambda>p c. append_commit p c replay) cs q = Inr q' \<and> partitions_alike p' q'))"
proof -
  from restore_snapshot [OF assms refl] obtain q where
    q: "restore (p_key p) (snapshot p) (hasTxn p) = Inr q" "partitions_alike p q" "partition_wf q" by blast
  have "\<exists>q'. run_commits (\<lambda>p c. append_commit p c replay) cs q = Inr q' \<and> partitions_alike p' q'"
    if "partitions_alike p q" "partition_wf p" "partition_wf q" "list_all (\<lambda>c. list_all op_built (cm_ops c)) cs"
      "run_commits (\<lambda>p c. append_commit p c replay) cs p = Inr p'" for cs p q p'
    using that
  proof (induction cs arbitrary: p q)
    case (Cons c cs)
    from Cons.prems(5) obtain p1 r where p1: "append_commit p c replay = Inr (p1, r)"
      "run_commits (\<lambda>p c. append_commit p c replay) cs p1 = Inr p'" by (auto split: sum.split_asm)
    from apply_commit_alike [OF Cons.prems(1-3) _ p1(1) [unfolded append_commit_def]] Cons.prems(4) obtain q1 where
      "append_commit q c replay = Inr (q1, r)" "partitions_alike p1 q1" "partition_wf p1" "partition_wf q1"
      unfolding append_commit_def by auto
    with Cons.IH [OF _ _ _ _ p1(2), of q1] Cons.prems(4) show ?case by simp
  qed simp
  with q assms show ?thesis unfolding storable_partition_def by blast
qed

definition demo_partition :: partition where
  "demo_partition = fst (attempts demo_commits (empty_partition demo_key))"

theorem snapshot_reads_back_witness:
  "\<exists>q. restore demo_key (snapshot demo_partition) (hasTxn demo_partition) = Inr q \<and> partitions_alike demo_partition q"
proof -
  have "partition_wf demo_partition"
    using attempts_keep [OF empty_partition_wf, of demo_commits demo_key demo_partition
        "snd (attempts demo_commits (empty_partition demo_key))" "''n''" 1]
    by (simp add: demo_partition_def demo_built)
  moreover have "p_seq demo_partition = 2" "p_highestFence demo_partition = Some 2" "p_leaseFence demo_partition = None"
    "p_leaseHolder demo_partition = None" "p_records demo_partition = []" "p_key demo_partition = demo_key" by code_simp+
  ultimately have "storable_partition demo_partition" "p_key demo_partition = demo_key" by (simp_all add: storable_partition_def)
  with snapshot_reads_back [of demo_partition True] show ?thesis by auto
qed

section \<open>Versions that a truncation dropped\<close>

lemma stored_name_wf: "partition_wf p \<Longrightarrow> name_wf (stored_name p n)"
  by (auto simp: stored_name_def partition_wf_def names_wf_def split: option.split)

lemma stored_name_update: "stored_name (p\<lparr>p_names := AList.update name e (p_names p)\<rparr>) n = (if n = name then e else stored_name p n)"
  by (simp add: stored_name_def update_conv')

lemma partition_wf_update:
  "partition_wf p \<Longrightarrow> name_wf e \<Longrightarrow> 1 \<le> dn_highWater e \<Longrightarrow> partition_wf (p\<lparr>p_names := AList.update name e (p_names p)\<rparr>)"
  by (simp add: partition_wf_def names_wf_update)

lemma retain_dropped_ok:
  assumes "name_wf e" and "isVersion v"
  shows "\<exists>e' ch. retain_dropped v (e, changed) = Inr (e', ch) \<and> name_wf e' \<and> set (dn_live e') = set (dn_live e) \<and>
    known_versions e' = insert v (known_versions e) \<and> dn_highWater e' = max (dn_highWater e) v"
proof -
  let ?e = "if dn_highWater e < v then e\<lparr>dn_highWater := v\<rparr> else e"
  have e: "name_wf ?e" "dn_live ?e = dn_live e" "dn_removed ?e = dn_removed e" "known_versions ?e = known_versions e" "dn_highWater ?e = max (dn_highWater e) v"
    using assms by (auto simp: name_wf_def isVersion_def known_versions_def)
  have wf: "ranges_wf (dn_removed e)" using assms(1) by (simp add: name_wf_def)
  show ?thesis
  proof (cases "v \<in> known_versions e")
    case True
    then have "retain_dropped v (e, changed) = Inr (?e, changed \<or> dn_highWater e < v)"
      using wf by (auto simp: retain_dropped_def Let_def known_versions_def vr_has_iff)
    with e True show ?thesis by (auto simp: insert_absorb)
  next
    case False
    from vr_add_ok [OF wf, of v] assms(2) obtain rs where
      rs: "vr_add (dn_removed e) v = Inr rs" "ranges_wf rs" "versions rs = insert v (versions (dn_removed e))" by auto
    have "retain_dropped v (e, changed) = Inr (?e\<lparr>dn_removed := rs\<rparr>, True)"
      using False wf rs(1) by (auto simp: retain_dropped_def Let_def known_versions_def vr_has_iff)
    moreover have "name_wf (?e\<lparr>dn_removed := rs\<rparr>)"
      using e(1,2,5) assms rs(2,3) False by (auto simp: name_wf_def known_versions_def)
    ultimately show ?thesis using e rs(3) by (auto simp: known_versions_def)
  qed
qed

lemma retain_all_ok:
  "name_wf e \<Longrightarrow> list_all isVersion vs \<Longrightarrow>
     \<exists>e' ch. retain_all vs (e, changed) = Inr (e', ch) \<and> name_wf e' \<and> set (dn_live e') = set (dn_live e) \<and>
       known_versions e' = set vs \<union> known_versions e \<and> dn_highWater e' = fold max vs (dn_highWater e)"
proof (induction vs arbitrary: e changed)
  case (Cons v vs)
  from retain_dropped_ok [OF Cons.prems(1), of v changed] Cons.prems(2) obtain e1 c1 where
    e1: "retain_dropped v (e, changed) = Inr (e1, c1)" "name_wf e1" "set (dn_live e1) = set (dn_live e)" "known_versions e1 = insert v (known_versions e)"
      "dn_highWater e1 = max (dn_highWater e) v" by auto
  from Cons.IH [OF e1(2), of c1] Cons.prems(2) e1 show ?case by (auto simp: max.commute)
qed simp

text \<open>The versions are never handed out again: they are known_versions and below the mark, and what was live stays live.\<close>

theorem retainDroppedVersions_keeps:
  assumes "partition_wf p" and "list_all isVersion vs"
  shows "\<exists>q changed. retainDroppedVersions p name vs = Inr (q, changed) \<and> partition_wf q \<and>
    set (dn_live (stored_name q name)) = set (dn_live (stored_name p name)) \<and>
    known_versions (stored_name q name) = set vs \<union> known_versions (stored_name p name) \<and> (\<forall>v\<in>set vs. v \<le> p_highWater q name) \<and>
    (\<forall>n. n \<noteq> name \<longrightarrow> stored_name q n = stored_name p n)"
proof (cases "vs = []")
  case True
  with assms(1) show ?thesis by (intro exI [of _ p] exI [of _ False]) (simp add: retainDroppedVersions_def)
next
  case False
  from retain_all_ok [OF stored_name_wf [OF assms(1)] assms(2), of name False] obtain e ch where
    e: "retain_all vs (stored_name p name, False) = Inr (e, ch)" "name_wf e" "set (dn_live e) = set (dn_live (stored_name p name))"
      "known_versions e = set vs \<union> known_versions (stored_name p name)" "dn_highWater e = fold max vs (dn_highWater (stored_name p name))" by blast
  let ?q = "p\<lparr>p_names := AList.update name e (p_names p)\<rparr>"
  have below: "v \<le> dn_highWater e" if "v \<in> set vs" for v
    using e(2,4) that by (auto simp: name_wf_def known_versions_def)
  have "1 \<le> dn_highWater e"
    using False assms(2) below [of "hd vs"] by (cases vs) (auto simp: isVersion_def)
  then have "partition_wf ?q" using assms(1) e(2) by (intro partition_wf_update)
  moreover have "p_highWater ?q name = dn_highWater e" by (simp add: p_highWater_def update_conv')
  moreover have "retainDroppedVersions p name vs = Inr (?q, ch)" using False e(1) by (simp add: retainDroppedVersions_def)
  ultimately show ?thesis using e(3,4) below by (auto simp: stored_name_update)
qed

lemma delete_live_ok:
  "ranges_wf rs \<Longrightarrow> ranges_wf (fold (\<lambda>v rs. vr_delete rs v) vs rs) \<and> versions (fold (\<lambda>v rs. vr_delete rs v) vs rs) = versions rs - set vs"
proof (induction vs arbitrary: rs)
  case (Cons v vs)
  have "ranges_wf (vr_delete rs v)" "versions (vr_delete rs v) = versions rs - {v}" using vr_delete_ok [OF Cons.prems, of v] by simp_all
  with Cons.IH show ?case by auto
qed simp

text \<open>What a name has after taking over the marks and removed versions of a later state of it.\<close>

definition retains :: "data_name \<Rightarrow> data_name \<Rightarrow> data_name \<Rightarrow> bool" where
  "retains e theirs e' \<longleftrightarrow> name_wf e' \<and> dn_live e' = dn_live e \<and> dn_highWater e' = max (dn_highWater e) (dn_highWater theirs) \<and>
     versions (dn_removed e') = versions (dn_removed e) \<union> versions (dn_removed theirs) - set (dn_live e)"

lemma retain_name_ok:
  assumes "partition_wf p" and "name_wf theirs" and "1 \<le> dn_highWater theirs"
  shows "\<exists>q ch. retain_name (name, theirs) (p, changed) = Inr (q, ch) \<and> partition_wf q \<and>
    retains (stored_name p name) theirs (stored_name q name) \<and> (\<forall>n. n \<noteq> name \<longrightarrow> stored_name q n = stored_name p n)"
proof -
  let ?e = "stored_name p name"
  let ?e1 = "if dn_highWater ?e < dn_highWater theirs then ?e\<lparr>dn_highWater := dn_highWater theirs\<rparr> else ?e"
  have wf: "name_wf ?e" using assms(1) by (rule stored_name_wf)
  then have ranges: "ranges_wf (dn_removed ?e)" "ranges_wf (dn_removed theirs)" using assms(2) by (simp_all add: name_wf_def)
  from vr_union_ok [OF ranges] obtain us where
    us: "vr_union (dn_removed ?e) (dn_removed theirs) = Inr us" "ranges_wf us" "versions us = versions (dn_removed ?e) \<union> versions (dn_removed theirs)"
    by blast
  let ?rs = "fold (\<lambda>v rs. vr_delete rs v) (dn_live ?e) us"
  have rs: "ranges_wf ?rs" "versions ?rs = versions (dn_removed ?e) \<union> versions (dn_removed theirs) - set (dn_live ?e)"
    using delete_live_ok [OF us(2), of "dn_live ?e"] us(3) by simp_all
  define e' where "e' = (if vr_equals ?rs (dn_removed ?e1) then ?e1 else ?e1\<lparr>dn_removed := ?rs\<rparr>)"
  have e1: "dn_live ?e1 = dn_live ?e" "dn_removed ?e1 = dn_removed ?e" by simp_all
  have fields: "dn_live e' = dn_live ?e" "dn_removed e' = ?rs" "dn_highWater e' = max (dn_highWater ?e) (dn_highWater theirs)"
    unfolding e'_def by (auto simp: vr_equals_iff)
  have "name_wf e'"
    unfolding name_wf_def fields rs using wf assms(2) rs(1) by (auto simp: name_wf_def)
  moreover have "1 \<le> dn_highWater e'" using assms(3) fields(3) by simp
  moreover have "\<exists>ch. retain_name (name, theirs) (p, changed) = Inr (p\<lparr>p_names := AList.update name e' (p_names p)\<rparr>, ch)"
    unfolding retain_name_def Let_def fst_conv snd_conv e1 us(1) e'_def by simp
  ultimately show ?thesis
    using partition_wf_update [OF assms(1)] fields rs(2) by (auto simp: stored_name_update retains_def)
qed

lemma retain_names_ok:
  "partition_wf p \<Longrightarrow> names_wf nts \<Longrightarrow>
     \<exists>q ch. retain_names nts (p, changed) = Inr (q, ch) \<and> partition_wf q \<and>
       (\<forall>n. case map_of nts n of Some theirs \<Rightarrow> retains (stored_name p n) theirs (stored_name q n) | None \<Rightarrow> stored_name q n = stored_name p n)"
proof (induction nts arbitrary: p changed)
  case (Cons nt nts)
  obtain name theirs where nt: "nt = (name, theirs)" by fastforce
  have wf: "name_wf theirs" "1 \<le> dn_highWater theirs" "names_wf nts" and new: "map_of nts name = None"
  proof -
    have all: "\<forall>n e. map_of (nt # nts) n = Some e \<longrightarrow> name_wf e \<and> 1 \<le> dn_highWater e" and d: "distinct (map fst (nt # nts))"
      using Cons.prems(2) unfolding names_wf_def by blast+
    from all [rule_format, of name theirs] show "name_wf theirs" "1 \<le> dn_highWater theirs" by (simp_all add: nt)
    from d show new: "map_of nts name = None" by (simp add: nt map_of_eq_None_iff)
    have "map_of (nt # nts) n = map_of nts n" if "map_of nts n \<noteq> None" for n using new that by (auto simp: nt)
    with all d show "names_wf nts" unfolding names_wf_def by (metis distinct.simps(2) list.simps(9) option.simps(3))
  qed
  from retain_name_ok [OF Cons.prems(1) wf(1,2), of name changed] obtain p1 c1 where
    p1: "retain_name (name, theirs) (p, changed) = Inr (p1, c1)" "partition_wf p1" "retains (stored_name p name) theirs (stored_name p1 name)"
      "\<forall>n. n \<noteq> name \<longrightarrow> stored_name p1 n = stored_name p n" by blast
  from Cons.IH [OF p1(2) wf(3), of c1] obtain q ch where
    q: "retain_names nts (p1, c1) = Inr (q, ch)" "partition_wf q"
      "\<forall>n. case map_of nts n of Some theirs \<Rightarrow> retains (stored_name p1 n) theirs (stored_name q n) | None \<Rightarrow> stored_name q n = stored_name p1 n" by blast
  have "case map_of (nt # nts) n of Some theirs \<Rightarrow> retains (stored_name p n) theirs (stored_name q n) | None \<Rightarrow> stored_name q n = stored_name p n" for n
  proof (cases "n = name")
    case True
    with q(3) [rule_format, of name] new p1(3) show ?thesis by (simp add: nt)
  next
    case False
    with q(3) [rule_format, of n] p1(4) show ?thesis by (auto simp: nt split: option.splits)
  qed
  with p1(1) q(1,2) show ?case by (simp add: nt)
qed simp

theorem retainVersionsOf_keeps:
  assumes "partition_wf p" and "partition_wf later"
  shows "\<exists>q changed. retainVersionsOf p later = Inr (q, changed) \<and> partition_wf q \<and>
    (\<forall>n. case map_of (p_names later) n of
           Some theirs \<Rightarrow> retains (stored_name p n) theirs (stored_name q n)
         | None \<Rightarrow> stored_name q n = stored_name p n)"
  unfolding retainVersionsOf_def using assms(2) by (intro retain_names_ok [OF assms(1)]) (simp add: partition_wf_def)

end
