(* ===== verification/Materialisation.thy ===== *)
theory Materialisation
  imports Partition
begin

text \<open>
  \<^verbatim>\<open>src/src/domain/datastore_v3/materialisation.ts\<close>: which files the commits of the feed leave. Commits of different
  partitions may be applied in another order than the feed has them, and a catch-up may plan which writes
  a later commit makes needless.
\<close>

section \<open>The keys of a commit\<close>

record key_change =
  kh_key :: string
  kh_put :: "string option"

fun touch :: "op \<Rightarrow> (string \<times> key_change) list \<Rightarrow> (string \<times> key_change) list" where
  "touch (Put i key sha e) changes = AList.update key \<lparr>kh_key = key, kh_put = Some sha\<rparr> changes"
| "touch (Tombstone i key e) changes = AList.update key \<lparr>kh_key = key, kh_put = None\<rparr> changes"
| "touch _ changes = changes"

definition finalKeyStates :: "commit \<Rightarrow> key_change list" where
  "finalKeyStates c =
     (let all = map snd (fold touch (cm_ops c) []) in
      filter (\<lambda>ch. kh_put ch = None) all @ filter (\<lambda>ch. kh_put ch \<noteq> None) all)"

section \<open>Who owns a file\<close>

record file_ownership =
  fo_owner :: string
  fo_mark :: nat
  fo_present :: bool

datatype file_decision = Keep | Remove "file_ownership option" | Write file_ownership

definition decideFile :: "file_ownership option \<Rightarrow> string \<Rightarrow> nat \<Rightarrow> bool \<Rightarrow> file_decision" where
  "decideFile before owner position isPut =
     (if \<not> isPut then
        if (case before of Some b \<Rightarrow> \<not> (fo_present b \<and> fo_owner b = owner) | None \<Rightarrow> False) then Keep
        else Remove (map_option (\<lambda>b. b\<lparr>fo_present := False\<rparr>) before)
      else if (case before of Some b \<Rightarrow> position \<le> fo_mark b | None \<Rightarrow> False) then Keep
      else Write \<lparr>fo_owner = owner, fo_mark = position, fo_present = True\<rparr>)"

section \<open>Keys that are no files\<close>

definition line_break_free :: "string \<Rightarrow> bool" where
  "line_break_free s \<longleftrightarrow> CHR 0x0A \<notin> set s \<and> CHR 0x0D \<notin> set s \<and>
     \<not> sublist [CHR 0xE2, CHR 0x80, CHR 0xA8] s \<and> \<not> sublist [CHR 0xE2, CHR 0x80, CHR 0xA9] s"

text \<open>\<^verbatim>\<open>/^_catalog.*\.db(?:-wal|-shm|-journal)?$/i\<close>.\<close>

definition CATALOG_DATABASE :: "string \<Rightarrow> bool" where
  "CATALOG_DATABASE s \<longleftrightarrow>
     (let t = map to_lower s in
      list_ex (\<lambda>suf. 8 + length (''.db'' @ suf) \<le> length t \<and> take 8 t = ''_catalog'' \<and>
          drop (length t - length (''.db'' @ suf)) t = ''.db'' @ suf \<and>
          line_break_free (drop 8 (take (length t - length (''.db'' @ suf)) t)))
        [[], ''-wal'', ''-shm'', ''-journal''])"

datatype refusal = Not_synced string | Catalog_database

definition lexicalRefusal :: "string \<Rightarrow> string list \<Rightarrow> refusal option" where
  "lexicalRefusal key subdirs =
     (let segments = js_split CHR ''/'' key in
      if hd segments \<notin> set subdirs then Some (Not_synced (hd segments))
      else if CATALOG_DATABASE (last segments) then Some Catalog_database
      else None)"

datatype conflict = Under_file | Directory_conflict

definition lexicalConflict :: "string \<Rightarrow> (string \<Rightarrow> bool) \<Rightarrow> (string \<Rightarrow> bool) \<Rightarrow> conflict option" where
  "lexicalConflict key isPresentFile hasPresentFileUnder =
     (let segments = js_split CHR ''/'' key in
      if list_ex (\<lambda>i. isPresentFile (join_with ''/'' (take i segments))) [1..<length segments] then Some Under_file
      else if hasPresentFileUnder key then Some Directory_conflict else None)"

section \<open>Planning a replay\<close>

text \<open>\<^verbatim>\<open>idOf\<close> and \<^verbatim>\<open>splitId\<close>: a namespace and a key, joined by a NUL.\<close>

definition idOf :: "string \<Rightarrow> string \<Rightarrow> string" where
  "idOf namespace key = namespace @ CHR 0x00 # key"

definition splitId :: "string \<Rightarrow> string \<times> string" where
  "splitId i = (takeWhile (\<lambda>c. c \<noteq> CHR 0x00) i, drop 1 (dropWhile (\<lambda>c. c \<noteq> CHR 0x00) i))"

record net_replay_commit =
  nc_namespace :: string
  nc_partition :: string
  nc_position :: nat
  nc_changes :: "key_change list"

record planner =
  np_ownership :: "(string \<times> file_ownership) list"
  np_writes :: "(string \<times> nat list) list"
  np_keys :: "(string \<times> string list) list"
  np_bound :: nat

definition empty_planner :: planner where
  "empty_planner = \<lparr>np_ownership = [], np_writes = [], np_keys = [], np_bound = 0\<rparr>"

definition entry_or_nil :: "(string \<times> 'a list) list \<Rightarrow> string \<Rightarrow> 'a list" where
  "entry_or_nil m k = (case map_of m k of Some xs \<Rightarrow> xs | None \<Rightarrow> [])"

definition note_key :: "string \<Rightarrow> string \<Rightarrow> planner \<Rightarrow> planner" where
  "note_key namespace key pl =
     pl\<lparr>np_keys := AList.update namespace
          (let keys = entry_or_nil (np_keys pl) namespace in if key \<in> set keys then keys else keys @ [key]) (np_keys pl)\<rparr>"

definition note_write :: "string \<Rightarrow> nat \<Rightarrow> planner \<Rightarrow> planner" where
  "note_write i position pl = pl\<lparr>np_writes := AList.update i (entry_or_nil (np_writes pl) i @ [position]) (np_writes pl)\<rparr>"

definition seed :: "(string \<Rightarrow> string \<Rightarrow> bool) \<Rightarrow> string \<Rightarrow> string \<Rightarrow> file_ownership \<Rightarrow> planner \<Rightarrow> planner" where
  "seed ignored namespace key ownership pl =
     (if ignored namespace key then pl
      else let i = idOf namespace key;
               pl' = note_key namespace key pl;
               pl'' = pl'\<lparr>np_ownership := AList.update i ownership (np_ownership pl')\<rparr> in
        if fo_present ownership then note_write i (fo_mark ownership) pl'' else pl'')"

definition add_change :: "(string \<Rightarrow> string \<Rightarrow> bool) \<Rightarrow> net_replay_commit \<Rightarrow> key_change \<Rightarrow> planner \<Rightarrow> planner" where
  "add_change ignored c ch pl =
     (let key = kh_key ch in
      if ignored (nc_namespace c) key then pl
      else let i = idOf (nc_namespace c) key; pl' = note_key (nc_namespace c) key pl in
        case decideFile (map_of (np_ownership pl') i) (nc_partition c) (nc_position c) (kh_put ch \<noteq> None) of
          Keep \<Rightarrow> pl'
        | Remove None \<Rightarrow> pl'
        | Remove (Some next) \<Rightarrow> pl'\<lparr>np_ownership := AList.update i next (np_ownership pl')\<rparr>
        | Write next \<Rightarrow> note_write i (nc_position c) (pl'\<lparr>np_ownership := AList.update i next (np_ownership pl')\<rparr>))"

definition add_commit :: "(string \<Rightarrow> string \<Rightarrow> bool) \<Rightarrow> net_replay_commit \<Rightarrow> planner \<Rightarrow> planner" where
  "add_commit ignored c pl =
     fold (add_change ignored c) (nc_changes c) (pl\<lparr>np_bound := max (np_bound pl) (nc_position c)\<rparr>)"

definition directories :: "planner \<Rightarrow> (string \<times> string) list" where
  "directories pl =
     concat (map (\<lambda>(namespace, keys). map (\<lambda>segment. (namespace, segment)) (nub (map (\<lambda>key. hd (js_split CHR ''/'' key)) keys)))
       (np_keys pl))"

text \<open>
  \<open>foldKey\<close> is the normal form of a key, NFC in lower case. A key is kept out of the plan when another key has its
  spelling, or one of the two is under the other.
\<close>

definition lies_under :: "(string \<Rightarrow> string) \<Rightarrow> string \<Rightarrow> string \<Rightarrow> bool" where
  "lies_under foldKey key outer \<longleftrightarrow>
     (let segments = js_split CHR ''/'' (foldKey key) in
      list_ex (\<lambda>i. join_with ''/'' (take i segments) = foldKey outer) [1..<length segments])"

definition prefixed :: "(string \<Rightarrow> string) \<Rightarrow> string list \<Rightarrow> string \<Rightarrow> bool" where
  "prefixed foldKey keys key \<longleftrightarrow> key \<in> set keys \<and>
     list_ex (\<lambda>k. k \<noteq> key \<and> foldKey k = foldKey key \<or> lies_under foldKey k key \<or> lies_under foldKey key k) keys"

definition prefixed_ids :: "(string \<Rightarrow> string) \<Rightarrow> planner \<Rightarrow> string list" where
  "prefixed_ids foldKey pl =
     concat (map (\<lambda>(namespace, keys). map (idOf namespace) (filter (prefixed foldKey keys) keys)) (np_keys pl))"

definition replaced_writes :: "planner \<Rightarrow> string \<Rightarrow> nat list" where
  "replaced_writes pl i =
     filter (\<lambda>position. case map_of (np_ownership pl) i of
                          Some own \<Rightarrow> \<not> (fo_present own \<and> position = fo_mark own)
                        | None \<Rightarrow> True) (entry_or_nil (np_writes pl) i)"

definition first_segment :: "string \<Rightarrow> string" where
  "first_segment key = hd (js_split CHR ''/'' key)"

record net_replay_plan =
  pn_bound :: nat
  pn_skipped :: "(string \<times> nat) list"
  pn_eligible :: "string list"
  pn_replaceable :: nat
  pn_keptForPrefix :: nat
  pn_keptForDirectory :: nat

definition finish :: "(string \<Rightarrow> string) \<Rightarrow> (string \<Rightarrow> string \<Rightarrow> bool) \<Rightarrow> planner \<Rightarrow> net_replay_plan" where
  "finish foldKey directoryAbsent pl =
     (let pre = prefixed_ids foldKey pl;
          absent = (\<lambda>i. directoryAbsent (fst (splitId i)) (first_segment (snd (splitId i))));
          written = map fst (np_writes pl);
          open_ids = filter (\<lambda>i. i \<notin> set pre \<and> absent i) written;
          only_removed = concat (map (\<lambda>(namespace, keys).
            map (idOf namespace) (filter (\<lambda>key. idOf namespace key \<notin> set written \<and> idOf namespace key \<notin> set pre \<and>
              directoryAbsent namespace (first_segment key)) keys)) (np_keys pl));
          total = (\<lambda>is. sum_list (map (\<lambda>i. length (replaced_writes pl i)) is)) in
      \<lparr>pn_bound = np_bound pl,
       pn_skipped = concat (map (\<lambda>i. map (\<lambda>position. (i, position)) (replaced_writes pl i)) open_ids),
       pn_eligible = open_ids @ only_removed,
       pn_replaceable = total written,
       pn_keptForPrefix = total (filter (\<lambda>i. i \<in> set pre) written),
       pn_keptForDirectory = total (filter (\<lambda>i. i \<notin> set pre \<and> \<not> absent i) written)\<rparr>)"

definition skipsWrite :: "net_replay_plan \<Rightarrow> string \<Rightarrow> string \<Rightarrow> nat \<Rightarrow> bool" where
  "skipsWrite pn namespace key position \<longleftrightarrow> position \<le> pn_bound pn \<and> (idOf namespace key, position) \<in> set (pn_skipped pn)"

definition skipsRemoval :: "net_replay_plan \<Rightarrow> string \<Rightarrow> string \<Rightarrow> nat \<Rightarrow> bool" where
  "skipsRemoval pn namespace key position \<longleftrightarrow> position \<le> pn_bound pn \<and> idOf namespace key \<in> set (pn_eligible pn)"

section \<open>Files follow the feed\<close>

text \<open>What happens to one key: a put or a removal by a partition at a position of the feed.\<close>

record file_event =
  ev_owner :: string
  ev_position :: nat
  ev_put :: bool

definition own_after :: "file_event \<Rightarrow> file_ownership option \<Rightarrow> file_ownership option" where
  "own_after ev before =
     (case decideFile before (ev_owner ev) (ev_position ev) (ev_put ev) of
        Keep \<Rightarrow> before
      | Remove None \<Rightarrow> before
      | Remove (Some next) \<Rightarrow> Some next
      | Write next \<Rightarrow> Some next)"

text \<open>Each partition is applied in the order of its own log.\<close>

definition log_order :: "file_event list \<Rightarrow> bool" where
  "log_order evs \<longleftrightarrow> distinct (map ev_position evs) \<and>
     sorted_wrt (\<lambda>a b. ev_owner a = ev_owner b \<longrightarrow> ev_position a < ev_position b) evs"

text \<open>The ownership the feed means: of the put with the highest position, present unless its partition removed the key later.\<close>

definition feed_ownership :: "file_event list \<Rightarrow> file_ownership option \<Rightarrow> bool" where
  "feed_ownership evs own \<longleftrightarrow>
     (case own of
        None \<Rightarrow> (\<forall>e\<in>set evs. \<not> ev_put e)
      | Some f \<Rightarrow>
          (\<exists>w\<in>set evs. ev_put w \<and> fo_owner f = ev_owner w \<and> fo_mark f = ev_position w) \<and>
          (\<forall>e\<in>set evs. ev_put e \<longrightarrow> ev_position e \<le> fo_mark f) \<and>
          (fo_present f \<longleftrightarrow> \<not> (\<exists>e\<in>set evs. \<not> ev_put e \<and> ev_owner e = fo_owner f \<and> fo_mark f < ev_position e)))"

lemma own_after_cases:
  "own_after ev before =
     (case before of
        None \<Rightarrow> if ev_put ev then Some \<lparr>fo_owner = ev_owner ev, fo_mark = ev_position ev, fo_present = True\<rparr> else None
      | Some b \<Rightarrow>
          if ev_put ev then
            if ev_position ev \<le> fo_mark b then before
            else Some \<lparr>fo_owner = ev_owner ev, fo_mark = ev_position ev, fo_present = True\<rparr>
          else if fo_present b \<and> fo_owner b = ev_owner ev then Some (b\<lparr>fo_present := False\<rparr>) else before)"
  by (auto simp: own_after_def decideFile_def split: option.splits)

lemma log_order_snoc:
  "log_order (evs @ [ev]) \<Longrightarrow> log_order evs \<and> (\<forall>e\<in>set evs. ev_position e \<noteq> ev_position ev \<and> (ev_owner e = ev_owner ev \<longrightarrow> ev_position e < ev_position ev))"
  by (auto simp: log_order_def sorted_wrt_append) (metis imageI)

lemma feed_ownership_step:
  assumes "feed_ownership evs own" and "log_order (evs @ [ev])"
  shows "feed_ownership (evs @ [ev]) (own_after ev own)"
proof -
  have fresh: "ev_position e \<noteq> ev_position ev" "ev_owner e = ev_owner ev \<Longrightarrow> ev_position e < ev_position ev" if "e \<in> set evs" for e
    using log_order_snoc [OF assms(2)] that by blast+
  show ?thesis
  proof (cases own)
    case None
    then have no_puts: "\<forall>e\<in>set evs. \<not> ev_put e" using assms(1) by (simp add: feed_ownership_def)
    show ?thesis
    proof (cases "ev_put ev")
      case True
      with None no_puts fresh show ?thesis by (fastforce simp: feed_ownership_def own_after_cases)
    next
      case False
      with None no_puts show ?thesis by (simp add: feed_ownership_def own_after_cases)
    qed
  next
    case (Some f)
    from assms(1) [unfolded Some feed_ownership_def option.case] obtain w where w: "w \<in> set evs" "ev_put w" "fo_owner f = ev_owner w" "fo_mark f = ev_position w"
      "\<forall>e\<in>set evs. ev_put e \<longrightarrow> ev_position e \<le> fo_mark f"
      "fo_present f \<longleftrightarrow> \<not> (\<exists>e\<in>set evs. \<not> ev_put e \<and> ev_owner e = fo_owner f \<and> fo_mark f < ev_position e)"
      by blast
    consider (later) "ev_put ev" "fo_mark f < ev_position ev" | (earlier) "ev_put ev" "ev_position ev \<le> fo_mark f"
      | (own_removal) "\<not> ev_put ev" "fo_owner f = ev_owner ev" | (other_removal) "\<not> ev_put ev" "fo_owner f \<noteq> ev_owner ev" by linarith
    then show ?thesis
    proof cases
      case later
      have "\<not> (\<exists>e\<in>set evs. \<not> ev_put e \<and> ev_owner e = ev_owner ev \<and> ev_position ev < ev_position e)" using fresh(2) by fastforce
      moreover have "\<forall>e\<in>set evs. ev_put e \<longrightarrow> ev_position e \<le> ev_position ev" using w(5) later(2) by fastforce
      ultimately show ?thesis using later Some by (simp add: feed_ownership_def own_after_cases)
    next
      case earlier
      with Some w show ?thesis by (auto simp: feed_ownership_def own_after_cases)
    next
      case own_removal
      then have "fo_mark f < ev_position ev" using fresh(2) [OF w(1)] w(3,4) by simp
      with own_removal Some w show ?thesis by (cases "fo_present f") (auto simp: feed_ownership_def own_after_cases)
    next
      case other_removal
      with Some w show ?thesis by (auto simp: feed_ownership_def own_after_cases)
    qed
  qed
qed

lemma feed_ownership_reached: "log_order evs \<Longrightarrow> feed_ownership evs (fold own_after evs None)"
proof (induction evs rule: rev_induct)
  case (snoc ev evs)
  then have "feed_ownership evs (fold own_after evs None)" using log_order_snoc by blast
  from feed_ownership_step [OF this snoc.prems] show ?case by simp
qed (simp add: feed_ownership_def)

lemma feed_ownership_unique:
  assumes "feed_ownership evs a" and "feed_ownership evs' b" and "set evs = set evs'" and "inj_on ev_position (set evs)"
  shows "a = b"
proof (cases a)
  case None
  with assms show ?thesis by (cases b) (auto simp: feed_ownership_def)
next
  case (Some f)
  with assms(1,2,3) obtain g where b: "b = Some g" by (cases b) (auto simp: feed_ownership_def)
  from assms(1) [unfolded Some feed_ownership_def option.case] obtain v where v: "v \<in> set evs" "ev_put v" "fo_owner f = ev_owner v" "fo_mark f = ev_position v"
    "\<forall>e\<in>set evs. ev_put e \<longrightarrow> ev_position e \<le> fo_mark f" by blast
  from assms(2) [unfolded b feed_ownership_def option.case] assms(3) obtain w where w: "w \<in> set evs" "ev_put w" "fo_owner g = ev_owner w" "fo_mark g = ev_position w"
    "\<forall>e\<in>set evs. ev_put e \<longrightarrow> ev_position e \<le> fo_mark g" by blast
  have "ev_position v = ev_position w" using v w by (simp add: order.antisym)
  then have "v = w" using assms(4) v(1) w(1) by (simp add: inj_on_eq_iff)
  moreover have "fo_present f \<longleftrightarrow> fo_present g"
    using assms(1-3) Some b v(3,4) w(3,4) \<open>v = w\<close> by (simp add: feed_ownership_def)
  ultimately show ?thesis using Some b v(3,4) w(3,4) by simp
qed

text \<open>C19.
  The file of a key follows the positions of the feed, not the order commits are applied in. Whatever the
  interleaving of partitions, as long as each is applied in the order of its own log, the file belongs to the
  put with the highest position and is there unless its partition removed the key after it; two copies that
  applied the same commits in different orders agree on it.
\<close>

theorem file_follows_feed_positions:
  assumes "log_order evs"
  shows "feed_ownership evs (fold own_after evs None) \<and>
    (\<forall>evs'. set evs' = set evs \<and> log_order evs' \<longrightarrow> fold own_after evs' None = fold own_after evs None)"
proof -
  have "inj_on ev_position (set evs)" using assms by (simp add: log_order_def distinct_map)
  then show ?thesis
    using feed_ownership_reached [OF assms] feed_ownership_reached feed_ownership_unique [of evs] by metis
qed

definition demo_events :: "file_event list" where
  "demo_events = [\<lparr>ev_owner = ''b'', ev_position = 2, ev_put = True\<rparr>, \<lparr>ev_owner = ''a'', ev_position = 1, ev_put = True\<rparr>,
     \<lparr>ev_owner = ''a'', ev_position = 3, ev_put = False\<rparr>]"

theorem file_follows_feed_positions_witness:
  "fold own_after (rev [demo_events ! 0, demo_events ! 2, demo_events ! 1]) None = fold own_after demo_events None \<and>
   fold own_after demo_events None = Some \<lparr>fo_owner = ''b'', fo_mark = 2, fo_present = True\<rparr>"
proof -
  have "log_order demo_events" "log_order (rev [demo_events ! 0, demo_events ! 2, demo_events ! 1])"
    "set (rev [demo_events ! 0, demo_events ! 2, demo_events ! 1]) = set demo_events" by code_simp+
  then have "fold own_after (rev [demo_events ! 0, demo_events ! 2, demo_events ! 1]) None = fold own_after demo_events None"
    using file_follows_feed_positions [of demo_events] by blast
  moreover have "fold own_after demo_events None = Some \<lparr>fo_owner = ''b'', fo_mark = 2, fo_present = True\<rparr>" by code_simp
  ultimately show ?thesis by blast
qed

section \<open>A planned replay\<close>

text \<open>
  A replay loads the files of a base, the seeds, and then applies commits one after the other. A cache holds for every
  key its ownership and the position of the commit its file was written from. With a plan the replay leaves out
  the writes and the removals the plan says are needless; ownership moves on all the same.
\<close>

record replay_cache =
  rc_ownership :: "string \<rightharpoonup> file_ownership"
  rc_files :: "string \<rightharpoonup> nat"

definition plan_skips :: "(net_replay_plan \<Rightarrow> bool) \<Rightarrow> net_replay_plan option \<Rightarrow> bool" where
  "plan_skips skips plan \<longleftrightarrow> (case plan of None \<Rightarrow> False | Some pn \<Rightarrow> skips pn)"

definition replay_seed ::
    "(string \<Rightarrow> string \<Rightarrow> bool) \<Rightarrow> net_replay_plan option \<Rightarrow> string \<times> string \<times> file_ownership \<Rightarrow> replay_cache \<Rightarrow> replay_cache" where
  "replay_seed ignored plan s rc =
     (case s of (namespace, key, ownership) \<Rightarrow>
        if ignored namespace key then rc
        else \<lparr>rc_ownership = (rc_ownership rc)(idOf namespace key \<mapsto> ownership),
              rc_files = (if fo_present ownership \<and> \<not> plan_skips (\<lambda>pn. skipsWrite pn namespace key (fo_mark ownership)) plan
                          then (rc_files rc)(idOf namespace key \<mapsto> fo_mark ownership) else rc_files rc)\<rparr>)"

definition replay_change ::
    "(string \<Rightarrow> string \<Rightarrow> bool) \<Rightarrow> net_replay_plan option \<Rightarrow> net_replay_commit \<Rightarrow> key_change \<Rightarrow> replay_cache \<Rightarrow> replay_cache" where
  "replay_change ignored plan c ch rc =
     (let namespace = nc_namespace c; key = kh_key ch; i = idOf namespace key; own = rc_ownership rc; files = rc_files rc in
      if ignored namespace key then rc
      else case decideFile (own i) (nc_partition c) (nc_position c) (kh_put ch \<noteq> None) of
          Keep \<Rightarrow> rc
        | Remove next \<Rightarrow>
            \<lparr>rc_ownership = (case next of None \<Rightarrow> own | Some n \<Rightarrow> own(i \<mapsto> n)),
             rc_files = (if plan_skips (\<lambda>pn. skipsRemoval pn namespace key (nc_position c)) plan then files else files(i := None))\<rparr>
        | Write next \<Rightarrow>
            \<lparr>rc_ownership = own(i \<mapsto> next),
             rc_files = (if plan_skips (\<lambda>pn. skipsWrite pn namespace key (nc_position c)) plan then files
                         else files(i \<mapsto> nc_position c))\<rparr>)"

definition replay ::
    "(string \<Rightarrow> string \<Rightarrow> bool) \<Rightarrow> net_replay_plan option \<Rightarrow> (string \<times> string \<times> file_ownership) list \<Rightarrow> net_replay_commit list \<Rightarrow>
     (string \<rightharpoonup> nat) \<Rightarrow> replay_cache" where
  "replay ignored plan seeds commits files =
     fold (\<lambda>c. fold (replay_change ignored plan c) (nc_changes c)) commits
       (fold (replay_seed ignored plan) seeds \<lparr>rc_ownership = Map.empty, rc_files = files\<rparr>)"

definition planned ::
    "(string \<Rightarrow> string \<Rightarrow> bool) \<Rightarrow> (string \<times> string \<times> file_ownership) list \<Rightarrow> net_replay_commit list \<Rightarrow> planner" where
  "planned ignored seeds commits =
     fold (add_commit ignored) commits (fold (\<lambda>(namespace, key, ownership). seed ignored namespace key ownership) seeds empty_planner)"

subsection \<open>One key at a time\<close>

definition event_of :: "net_replay_commit \<Rightarrow> key_change \<Rightarrow> file_event" where
  "event_of c ch = \<lparr>ev_owner = nc_partition c, ev_position = nc_position c, ev_put = (kh_put ch \<noteq> None)\<rparr>"

definition of_key :: "(string \<Rightarrow> string \<Rightarrow> bool) \<Rightarrow> string \<Rightarrow> string \<Rightarrow> string \<Rightarrow> bool" where
  "of_key ignored i namespace key \<longleftrightarrow> \<not> ignored namespace key \<and> idOf namespace key = i"

definition events_of :: "(string \<Rightarrow> string \<Rightarrow> bool) \<Rightarrow> string \<Rightarrow> net_replay_commit \<Rightarrow> file_event list" where
  "events_of ignored i c = map (event_of c) (filter (\<lambda>ch. of_key ignored i (nc_namespace c) (kh_key ch)) (nc_changes c))"

definition event_writes :: "file_event \<Rightarrow> file_ownership option \<Rightarrow> bool" where
  "event_writes ev own \<longleftrightarrow> ev_put ev \<and> (case own of Some b \<Rightarrow> fo_mark b < ev_position ev | None \<Rightarrow> True)"

definition event_removes :: "file_event \<Rightarrow> file_ownership option \<Rightarrow> bool" where
  "event_removes ev own \<longleftrightarrow> \<not> ev_put ev \<and> (case own of Some b \<Rightarrow> fo_present b \<and> fo_owner b = ev_owner ev | None \<Rightarrow> True)"

fun writes_of :: "file_event list \<Rightarrow> file_ownership option \<Rightarrow> nat list" where
  "writes_of [] own = []"
| "writes_of (ev # evs) own = (if event_writes ev own then [ev_position ev] else []) @ writes_of evs (own_after ev own)"

fun file_after :: "(nat \<Rightarrow> bool) \<Rightarrow> (nat \<Rightarrow> bool) \<Rightarrow> file_event list \<Rightarrow> file_ownership option \<Rightarrow> nat option \<Rightarrow> nat option" where
  "file_after skipW skipR [] own f = f"
| "file_after skipW skipR (ev # evs) own f =
     file_after skipW skipR evs (own_after ev own)
       (if event_writes ev own \<and> \<not> skipW (ev_position ev) then Some (ev_position ev)
        else if event_removes ev own \<and> \<not> skipR (ev_position ev) then None else f)"

definition shown :: "file_ownership option \<Rightarrow> nat option" where
  "shown own = (case own of Some b \<Rightarrow> if fo_present b then Some (fo_mark b) else None | None \<Rightarrow> None)"

lemma shown_after:
  "shown (own_after ev own) =
     (if event_writes ev own then Some (ev_position ev) else if event_removes ev own then None else shown own)"
  by (auto simp: own_after_cases shown_def event_writes_def event_removes_def split: option.split)

lemma writes_not_removes: "event_writes ev own \<Longrightarrow> \<not> event_removes ev own"
  by (simp add: event_writes_def event_removes_def)

text \<open>Without a plan the file is what its ownership shows.\<close>

lemma plain_file: "file_after (\<lambda>p. False) (\<lambda>p. False) evs own (shown own) = shown (fold own_after evs own)"
proof (induction evs arbitrary: own)
  case (Cons ev evs)
  have "file_after (\<lambda>p. False) (\<lambda>p. False) (ev # evs) own (shown own) =
      file_after (\<lambda>p. False) (\<lambda>p. False) evs (own_after ev own) (shown (own_after ev own))"
    by (simp add: shown_after)
  with Cons.IH show ?case by simp
qed simp

text \<open>What ownership shows was written, or shown before.\<close>

lemma shown_was_written:
  "shown (fold own_after evs own) = Some m \<Longrightarrow> m \<in> set (writes_of evs own) \<or> shown own = Some m"
  by (induction evs arbitrary: own) (fastforce simp: shown_after split: if_splits)+

text \<open>With a plan that skips every removal and every write but that of \<open>t\<close>, the file is \<open>t\<close> once it was written.\<close>

lemma planned_file:
  assumes "\<forall>p\<in>set (writes_of evs own). skipW p \<longleftrightarrow> Some p \<noteq> t" and "\<forall>ev\<in>set evs. skipR (ev_position ev)"
  shows "file_after skipW skipR evs own f = (if t \<in> Some ` set (writes_of evs own) then t else f)"
  using assms
proof (induction evs arbitrary: own f)
  case (Cons ev evs)
  have "file_after skipW skipR (ev # evs) own f =
      file_after skipW skipR evs (own_after ev own) (if event_writes ev own \<and> Some (ev_position ev) = t then t else f)"
    using Cons.prems by auto
  also have "\<dots> = (if t \<in> Some ` set (writes_of (ev # evs) own) then t else f)"
    by (subst Cons.IH) (use Cons.prems in auto)
  finally show ?case .
qed simp

subsection \<open>The planner and the replay see the same events\<close>

definition planner_at :: "planner \<Rightarrow> string \<Rightarrow> file_ownership option \<times> nat list" where
  "planner_at pl i = (map_of (np_ownership pl) i, entry_or_nil (np_writes pl) i)"

definition cache_at :: "replay_cache \<Rightarrow> string \<Rightarrow> file_ownership option \<times> nat option" where
  "cache_at rc i = (rc_ownership rc i, rc_files rc i)"

lemma entry_or_nil_update: "entry_or_nil (AList.update k xs m) i = (if i = k then xs else entry_or_nil m i)"
  by (simp add: entry_or_nil_def update_conv')

lemmas planner_view = planner_at_def note_key_def note_write_def entry_or_nil_update update_conv'

lemma planner_at_seed:
  "planner_at (seed ignored namespace key ownership pl) i =
     (if of_key ignored i namespace key
      then (Some ownership, snd (planner_at pl i) @ (if fo_present ownership then [fo_mark ownership] else []))
      else planner_at pl i)"
  by (auto simp: seed_def Let_def planner_view of_key_def)

lemma decideFile_event:
  "decideFile own (nc_partition c) (nc_position c) (\<exists>y. kh_put ch = Some y) =
     (let ev = event_of c ch in
      if event_writes ev own then Write (the (own_after ev own))
      else if event_removes ev own then Remove (own_after ev own) else Keep)"
  by (auto simp: event_of_def event_writes_def event_removes_def own_after_cases decideFile_def Let_def split: option.split)

lemma own_after_unchanged: "\<not> event_writes ev own \<Longrightarrow> \<not> event_removes ev own \<Longrightarrow> own_after ev own = own"
  by (auto simp: event_writes_def event_removes_def own_after_cases split: option.splits if_splits)

lemma own_after_written: "event_writes ev own \<Longrightarrow> own_after ev own = Some (the (own_after ev own))"
  by (auto simp: event_writes_def own_after_cases split: option.splits)

lemma own_after_removed: "event_removes ev own \<Longrightarrow> own_after ev own = None \<Longrightarrow> own = None"
  by (auto simp: event_removes_def own_after_cases split: option.splits if_splits)

lemma planner_at_change:
  "planner_at (add_change ignored c ch pl) i =
     (if of_key ignored i (nc_namespace c) (kh_key ch)
      then (own_after (event_of c ch) (fst (planner_at pl i)),
            snd (planner_at pl i) @ (if event_writes (event_of c ch) (fst (planner_at pl i)) then [nc_position c] else []))
      else planner_at pl i)"
proof -
  let ?own = "map_of (np_ownership pl) (idOf (nc_namespace c) (kh_key ch))"
  consider (writes) "event_writes (event_of c ch) ?own" | (removes) "\<not> event_writes (event_of c ch) ?own" "event_removes (event_of c ch) ?own"
    | (keeps) "\<not> event_writes (event_of c ch) ?own" "\<not> event_removes (event_of c ch) ?own" by blast
  then show ?thesis
  proof cases
    case writes
    then show ?thesis using own_after_written [OF writes]
      by (auto simp: add_change_def Let_def planner_view of_key_def decideFile_event)
  next
    case removes
    then show ?thesis using own_after_removed [OF removes(2)]
      by (cases "own_after (event_of c ch) ?own") (auto simp: add_change_def Let_def planner_view of_key_def decideFile_event)
  next
    case keeps
    then show ?thesis using own_after_unchanged [OF keeps]
      by (auto simp: add_change_def Let_def planner_view of_key_def decideFile_event)
  qed
qed

definition skips_write :: "net_replay_plan option \<Rightarrow> string \<Rightarrow> nat \<Rightarrow> bool" where
  "skips_write plan i p \<longleftrightarrow> plan_skips (\<lambda>pn. p \<le> pn_bound pn \<and> (i, p) \<in> set (pn_skipped pn)) plan"

definition skips_removal :: "net_replay_plan option \<Rightarrow> string \<Rightarrow> nat \<Rightarrow> bool" where
  "skips_removal plan i p \<longleftrightarrow> plan_skips (\<lambda>pn. p \<le> pn_bound pn \<and> i \<in> set (pn_eligible pn)) plan"

lemma plan_skips_ids:
  "plan_skips (\<lambda>pn. skipsWrite pn namespace key p) plan = skips_write plan (idOf namespace key) p"
  "plan_skips (\<lambda>pn. skipsRemoval pn namespace key p) plan = skips_removal plan (idOf namespace key) p"
  by (simp_all add: skips_write_def skips_removal_def skipsWrite_def skipsRemoval_def)

lemma cache_at_seed:
  "cache_at (replay_seed ignored plan (namespace, key, ownership) rc) i =
     (if of_key ignored i namespace key
      then (Some ownership, if fo_present ownership \<and> \<not> skips_write plan i (fo_mark ownership) then Some (fo_mark ownership) else snd (cache_at rc i))
      else cache_at rc i)"
  by (auto simp: replay_seed_def cache_at_def of_key_def plan_skips_ids)

lemma cache_at_change:
  "cache_at (replay_change ignored plan c ch rc) i =
     (if of_key ignored i (nc_namespace c) (kh_key ch)
      then (own_after (event_of c ch) (fst (cache_at rc i)),
            file_after (skips_write plan i) (skips_removal plan i) [event_of c ch] (fst (cache_at rc i)) (snd (cache_at rc i)))
      else cache_at rc i)"
proof -
  let ?own = "rc_ownership rc (idOf (nc_namespace c) (kh_key ch))"
  have position: "ev_position (event_of c ch) = nc_position c" by (simp add: event_of_def)
  consider (writes) "event_writes (event_of c ch) ?own" | (removes) "\<not> event_writes (event_of c ch) ?own" "event_removes (event_of c ch) ?own"
    | (keeps) "\<not> event_writes (event_of c ch) ?own" "\<not> event_removes (event_of c ch) ?own" by blast
  then show ?thesis
  proof cases
    case writes
    then show ?thesis using own_after_written [OF writes] writes_not_removes [OF writes]
      by (auto simp: replay_change_def Let_def cache_at_def of_key_def decideFile_event plan_skips_ids position)
  next
    case removes
    then show ?thesis using own_after_removed [OF removes(2)]
      by (cases "own_after (event_of c ch) ?own")
        (auto simp: replay_change_def Let_def cache_at_def of_key_def decideFile_event plan_skips_ids position)
  next
    case keeps
    then show ?thesis using own_after_unchanged [OF keeps]
      by (auto simp: replay_change_def Let_def cache_at_def of_key_def decideFile_event plan_skips_ids position)
  qed
qed

lemma writes_of_append: "writes_of (xs @ ys) own = writes_of xs own @ writes_of ys (fold own_after xs own)"
  by (induction xs arbitrary: own) simp_all

lemma file_after_append:
  "file_after skipW skipR (xs @ ys) own f = file_after skipW skipR ys (fold own_after xs own) (file_after skipW skipR xs own f)"
  by (induction xs arbitrary: own f) simp_all

definition all_events :: "(string \<Rightarrow> string \<Rightarrow> bool) \<Rightarrow> string \<Rightarrow> net_replay_commit list \<Rightarrow> file_event list" where
  "all_events ignored i commits = concat (map (events_of ignored i) commits)"

lemma planner_at_changes:
  "planner_at (fold (add_change ignored c) chs pl) i =
     (let evs = map (event_of c) (filter (\<lambda>ch. of_key ignored i (nc_namespace c) (kh_key ch)) chs) in
      (fold own_after evs (fst (planner_at pl i)), snd (planner_at pl i) @ writes_of evs (fst (planner_at pl i))))"
  by (induction chs arbitrary: pl) (simp_all add: planner_at_change Let_def, simp add: event_of_def)

lemma planner_at_commits:
  "planner_at (fold (add_commit ignored) commits pl) i =
     (let evs = all_events ignored i commits in
      (fold own_after evs (fst (planner_at pl i)), snd (planner_at pl i) @ writes_of evs (fst (planner_at pl i))))"
proof (induction commits arbitrary: pl)
  case (Cons c commits)
  have "planner_at (pl\<lparr>np_bound := b\<rparr>) i = planner_at pl i" for b by (simp add: planner_at_def)
  then have "planner_at (add_commit ignored c pl) i =
      (let evs = events_of ignored i c in
       (fold own_after evs (fst (planner_at pl i)), snd (planner_at pl i) @ writes_of evs (fst (planner_at pl i))))"
    by (simp add: add_commit_def planner_at_changes events_of_def)
  then show ?case by (simp add: Cons.IH Let_def all_events_def writes_of_append)
qed (simp add: all_events_def Let_def)

lemma cache_at_changes:
  "cache_at (fold (replay_change ignored plan c) chs rc) i =
     (let evs = map (event_of c) (filter (\<lambda>ch. of_key ignored i (nc_namespace c) (kh_key ch)) chs) in
      (fold own_after evs (fst (cache_at rc i)),
       file_after (skips_write plan i) (skips_removal plan i) evs (fst (cache_at rc i)) (snd (cache_at rc i))))"
  by (induction chs arbitrary: rc) (simp_all add: cache_at_change Let_def)

lemma cache_at_commits:
  "cache_at (fold (\<lambda>c. fold (replay_change ignored plan c) (nc_changes c)) commits rc) i =
     (let evs = all_events ignored i commits in
      (fold own_after evs (fst (cache_at rc i)),
       file_after (skips_write plan i) (skips_removal plan i) evs (fst (cache_at rc i)) (snd (cache_at rc i))))"
  by (induction commits arbitrary: rc)
    (simp_all add: all_events_def events_of_def cache_at_changes Let_def file_after_append)

text \<open>The seed of a key, where keys are seeded once.\<close>

definition seed_of :: "(string \<Rightarrow> string \<Rightarrow> bool) \<Rightarrow> string \<Rightarrow> (string \<times> string \<times> file_ownership) list \<Rightarrow> file_ownership option" where
  "seed_of ignored i seeds =
     map_option (\<lambda>(namespace, key, ownership). ownership) (List.find (\<lambda>(namespace, key, ownership). of_key ignored i namespace key) seeds)"

definition seeded_ids :: "(string \<times> string \<times> file_ownership) list \<Rightarrow> string list" where
  "seeded_ids seeds = map (\<lambda>(namespace, key, ownership). idOf namespace key) seeds"

lemma seeds_elsewhere:
  assumes "i \<notin> set (seeded_ids seeds)"
  shows "planner_at (fold (\<lambda>(namespace, key, ownership). seed ignored namespace key ownership) seeds pl) i = planner_at pl i"
    and "cache_at (fold (replay_seed ignored plan) seeds rc) i = cache_at rc i"
    and "seed_of ignored i seeds = None"
  using assms
  by (induction seeds arbitrary: pl rc)
    (auto simp: seeded_ids_def planner_at_seed cache_at_seed of_key_def seed_of_def)

lemma seeds_at:
  assumes "distinct (seeded_ids seeds)"
  shows "planner_at pl i = (None, []) \<Longrightarrow>
      planner_at (fold (\<lambda>(namespace, key, ownership). seed ignored namespace key ownership) seeds pl) i =
        (seed_of ignored i seeds, case shown (seed_of ignored i seeds) of Some m \<Rightarrow> [m] | None \<Rightarrow> [])"
    and "cache_at rc i = (None, f) \<Longrightarrow>
      cache_at (fold (replay_seed ignored plan) seeds rc) i =
        (seed_of ignored i seeds, case shown (seed_of ignored i seeds) of
           Some m \<Rightarrow> if skips_write plan i m then f else Some m | None \<Rightarrow> f)"
proof -
  have "(planner_at pl i = (None, []) \<longrightarrow>
      planner_at (fold (\<lambda>(namespace, key, ownership). seed ignored namespace key ownership) seeds pl) i =
        (seed_of ignored i seeds, case shown (seed_of ignored i seeds) of Some m \<Rightarrow> [m] | None \<Rightarrow> [])) \<and>
    (cache_at rc i = (None, f) \<longrightarrow>
      cache_at (fold (replay_seed ignored plan) seeds rc) i =
        (seed_of ignored i seeds, case shown (seed_of ignored i seeds) of
           Some m \<Rightarrow> if skips_write plan i m then f else Some m | None \<Rightarrow> f))"
    using assms
  proof (induction seeds arbitrary: pl rc)
    case Nil
    then show ?case by (simp add: seed_of_def shown_def)
  next
    case (Cons s seeds)
    obtain namespace key ownership where s: "s = (namespace, key, ownership)" by (cases s)
    show ?case
    proof (cases "of_key ignored i namespace key")
      case True
      then have "i \<notin> set (seeded_ids seeds)" using Cons.prems s by (auto simp: of_key_def seeded_ids_def)
      from seeds_elsewhere(1,2) [OF this] True show ?thesis
        by (auto simp: s seed_of_def planner_at_seed cache_at_seed shown_def)
    next
      case False
      have step: "planner_at (seed ignored namespace key ownership pl) i = planner_at pl i"
        "cache_at (replay_seed ignored plan s rc) i = cache_at rc i"
        "seed_of ignored i (s # seeds) = seed_of ignored i seeds"
        using False by (simp_all add: s planner_at_seed cache_at_seed seed_of_def)
      have "distinct (seeded_ids seeds)" using Cons.prems by (simp add: seeded_ids_def)
      from Cons.IH [OF this, of "seed ignored namespace key ownership pl" "replay_seed ignored plan s rc"]
      show ?thesis by (simp add: step) (simp add: s)
    qed
  qed
  then show "planner_at pl i = (None, []) \<Longrightarrow>
      planner_at (fold (\<lambda>(namespace, key, ownership). seed ignored namespace key ownership) seeds pl) i =
        (seed_of ignored i seeds, case shown (seed_of ignored i seeds) of Some m \<Rightarrow> [m] | None \<Rightarrow> [])"
    and "cache_at rc i = (None, f) \<Longrightarrow>
      cache_at (fold (replay_seed ignored plan) seeds rc) i =
        (seed_of ignored i seeds, case shown (seed_of ignored i seeds) of
           Some m \<Rightarrow> if skips_write plan i m then f else Some m | None \<Rightarrow> f)"
    by blast+
qed

subsection \<open>The plan leaves the same files\<close>

lemma add_change_bound: "np_bound (add_change ignored c ch pl) = np_bound pl"
  by (simp add: add_change_def Let_def note_key_def note_write_def split: file_decision.split option.split)

lemma add_changes_bound: "np_bound (fold (add_change ignored c) chs pl) = np_bound pl"
  by (induction chs arbitrary: pl) (simp_all add: add_change_bound)

lemma add_commits_bound:
  "np_bound pl \<le> np_bound (fold (add_commit ignored) commits pl) \<and>
   (\<forall>c\<in>set commits. nc_position c \<le> np_bound (fold (add_commit ignored) commits pl))"
proof (induction commits arbitrary: pl)
  case (Cons c commits)
  have "np_bound (add_commit ignored c pl) = max (np_bound pl) (nc_position c)"
    by (simp add: add_commit_def add_changes_bound)
  with Cons.IH [of "add_commit ignored c pl"] show ?case by auto
qed simp

lemma idOf_splitId: "i = idOf namespace key \<Longrightarrow> idOf (fst (splitId i)) (snd (splitId i)) = i"
proof -
  assume "i = idOf namespace key"
  then have "CHR 0x00 \<in> set i" by (simp add: idOf_def)
  then have "dropWhile (\<lambda>c. c \<noteq> CHR 0x00) i \<noteq> []" by (simp add: dropWhile_eq_Nil_conv)
  then have "dropWhile (\<lambda>c. c \<noteq> CHR 0x00) i = CHR 0x00 # drop 1 (dropWhile (\<lambda>c. c \<noteq> CHR 0x00) i)"
    using hd_dropWhile [of "\<lambda>c. c \<noteq> CHR 0x00" i] by (cases "dropWhile (\<lambda>c. c \<noteq> CHR 0x00) i") simp_all
  then show ?thesis
    unfolding idOf_def splitId_def fst_conv snd_conv using takeWhile_dropWhile_id [of "\<lambda>c. c \<noteq> CHR 0x00" i] by metis
qed

lemma skipped_iff:
  "(i, p) \<in> set (pn_skipped (finish foldKey absent pl)) \<longleftrightarrow>
     i \<in> fst ` set (np_writes pl) \<and> i \<notin> set (prefixed_ids foldKey pl) \<and>
     absent (fst (splitId i)) (first_segment (snd (splitId i))) \<and> p \<in> set (replaced_writes pl i)"
  by (force simp: finish_def Let_def)

lemma eligible_written:
  "i \<in> set (pn_eligible (finish foldKey absent pl)) \<Longrightarrow> i \<in> fst ` set (np_writes pl) \<Longrightarrow>
     i \<notin> set (prefixed_ids foldKey pl) \<and> absent (fst (splitId i)) (first_segment (snd (splitId i)))"
  by (auto simp: finish_def Let_def) (metis fst_conv imageI)

lemma skipped_eligible: "(i, p) \<in> set (pn_skipped (finish foldKey absent pl)) \<Longrightarrow> i \<in> set (pn_eligible (finish foldKey absent pl))"
  by (auto simp: finish_def Let_def)

lemma eligible_cases:
  assumes "i \<in> set (pn_eligible (finish foldKey absent pl))"
  obtains (written) "\<And>p. (i, p) \<in> set (pn_skipped (finish foldKey absent pl)) \<longleftrightarrow> p \<in> set (replaced_writes pl i)"
      "absent (fst (splitId i)) (first_segment (snd (splitId i)))"
  | (removed) namespace key where "entry_or_nil (np_writes pl) i = []" "i = idOf namespace key" "absent namespace (first_segment key)"
proof (cases "i \<in> fst ` set (np_writes pl)")
  case True
  with eligible_written [OF assms True] written show ?thesis by (simp add: skipped_iff)
next
  case False
  then have "map_of (np_writes pl) i = None" by (simp add: map_of_eq_None_iff)
  then have "entry_or_nil (np_writes pl) i = []" by (simp add: entry_or_nil_def)
  moreover obtain namespace key where "i = idOf namespace key" "absent namespace (first_segment key)"
    using assms False by (auto simp: finish_def Let_def)
  ultimately show ?thesis using removed by blast
qed

lemma event_positions:
  "ev \<in> set (all_events ignored i commits) \<Longrightarrow> \<exists>c\<in>set commits. ev_position ev = nc_position c"
  by (auto simp: all_events_def events_of_def event_of_def)

lemma events_of_id: "all_events ignored i commits \<noteq> [] \<Longrightarrow> \<exists>namespace key. i = idOf namespace key"
  by (auto simp: all_events_def events_of_def of_key_def filter_empty_conv)

lemma seed_of_member:
  "seed_of ignored i seeds = Some ownership \<Longrightarrow> \<exists>namespace key. (namespace, key, ownership) \<in> set seeds \<and> i = idOf namespace key"
  by (auto simp: seed_of_def of_key_def find_Some_iff) (metis nth_mem)

lemma planned_eligible_file:
  assumes plan: "plan = finish foldKey absent (planned ignored seeds commits)"
    and seeds: "distinct (seeded_ids seeds)"
    and tail: "\<forall>(namespace, key, ownership)\<in>set seeds. \<forall>c\<in>set commits. fo_mark ownership \<le> nc_position c"
    and empty: "\<forall>namespace key. absent namespace (first_segment key) \<longrightarrow> files (idOf namespace key) = None"
    and i: "i \<in> set (pn_eligible plan)" "\<not> (seed_of ignored i seeds = None \<and> all_events ignored i commits = [])"
  shows "file_after (skips_write (Some plan) i) (skips_removal (Some plan) i) (all_events ignored i commits) (seed_of ignored i seeds)
        (case shown (seed_of ignored i seeds) of Some m \<Rightarrow> if skips_write (Some plan) i m then files i else Some m | None \<Rightarrow> files i) =
      file_after (\<lambda>p. False) (\<lambda>p. False) (all_events ignored i commits) (seed_of ignored i seeds)
        (case shown (seed_of ignored i seeds) of Some m \<Rightarrow> Some m | None \<Rightarrow> files i)"
    (is "file_after ?W ?R ?evs ?o ?f = file_after _ _ _ _ ?g")
proof -
  define pl where "pl = planned ignored seeds commits"
  define t where "t = shown (fold own_after ?evs ?o)"
  have "planner_at empty_planner i = (None, [])" by (simp add: planner_at_def empty_planner_def entry_or_nil_def)
  from seeds_at(1) [OF seeds this] have view: "planner_at pl i =
      (fold own_after ?evs ?o, (case shown ?o of Some m \<Rightarrow> [m] | None \<Rightarrow> []) @ writes_of ?evs ?o)"
    by (simp add: pl_def planned_def planner_at_commits Let_def)
  have bound: "c \<in> set commits \<Longrightarrow> nc_position c \<le> pn_bound plan" for c
    using add_commits_bound [where ignored = ignored] by (simp add: plan finish_def Let_def planned_def)
  have id: "\<exists>namespace key. i = idOf namespace key"
    using i(2) seed_of_member [of ignored i seeds] events_of_id [of ignored i commits] by (cases ?o) auto
  have files: "files i = None"
    using eligible_cases [OF i(1) [unfolded plan]] empty id idOf_splitId by metis
  have skips: "?W p \<longleftrightarrow> Some p \<noteq> t" if "p \<in> set (snd (planner_at pl i))" "p \<le> pn_bound plan" for p
    using i(1) [unfolded plan]
  proof (cases rule: eligible_cases)
    case written
    have "p \<in> set (replaced_writes pl i) \<longleftrightarrow> Some p \<noteq> t"
      using that(1) view by (auto simp: replaced_writes_def planner_at_def t_def shown_def split: option.splits)
    with written(1) that(2) show ?thesis by (simp add: skips_write_def plan_skips_def plan pl_def)
  qed (use that(1) in \<open>simp add: planner_at_def pl_def\<close>)
  have positions: "\<forall>ev\<in>set ?evs. ?R (ev_position ev)"
    using event_positions bound i(1) by (fastforce simp: skips_removal_def plan_skips_def)
  have "set (writes_of evs own) \<subseteq> ev_position ` set evs" for evs own by (induction evs arbitrary: own) auto
  then have "\<forall>p\<in>set (writes_of ?evs ?o). ?W p \<longleftrightarrow> Some p \<noteq> t"
    using skips view bound event_positions by (fastforce simp del: not_None_eq)
  from planned_file [OF this positions] have left: "file_after ?W ?R ?evs ?o ?f = (if t \<in> Some ` set (writes_of ?evs ?o) then t else ?f)" .
  have "?f = t" if "t \<notin> Some ` set (writes_of ?evs ?o)"
  proof (cases "shown ?o")
    case None
    with that shown_was_written [of ?evs ?o] files show ?thesis by (cases t) (auto simp: t_def)
  next
    case (Some m)
    have "t = Some m \<or> t = None" using that shown_was_written [of ?evs ?o] Some by (cases t) (auto simp: t_def)
    moreover have "m \<le> pn_bound plan" if "t = None"
    proof -
      have "?evs \<noteq> []" using that Some by (auto simp: t_def)
      then obtain c where "c \<in> set commits" using event_positions by (meson list.set_sel(1))
      moreover obtain ownership where "?o = Some ownership" "fo_mark ownership = m"
        using Some by (auto simp: shown_def split: option.splits if_splits)
      ultimately show ?thesis using tail bound seed_of_member by (fastforce dest: order.trans)
    qed
    ultimately show ?thesis using skips [of m] view Some files by (auto simp: skips_write_def plan_skips_def)
  qed
  moreover have "?g = shown ?o" using files by (simp split: option.split)
  ultimately show ?thesis using plain_file left by (simp add: t_def)
qed

lemma planned_key:
  assumes plan: "plan = finish foldKey absent (planned ignored seeds commits)"
    and seeds: "distinct (seeded_ids seeds)"
    and tail: "\<forall>(namespace, key, ownership)\<in>set seeds. \<forall>c\<in>set commits. fo_mark ownership \<le> nc_position c"
    and empty: "\<forall>namespace key. absent namespace (first_segment key) \<longrightarrow> files (idOf namespace key) = None"
  shows "cache_at (replay ignored (Some plan) seeds commits files) i = cache_at (replay ignored None seeds commits files) i"
proof -
  define o0 where "o0 = seed_of ignored i seeds"
  define evs where "evs = all_events ignored i commits"
  define first where "first q = (case shown o0 of Some m \<Rightarrow> if skips_write q i m then files i else Some m | None \<Rightarrow> files i)" for q
  have at_end: "cache_at (replay ignored q seeds commits files) i =
      (fold own_after evs o0, file_after (skips_write q i) (skips_removal q i) evs o0 (first q))" for q
    unfolding replay_def cache_at_commits Let_def evs_def [symmetric]
    by (subst (1 2 3) seeds_at(2) [OF seeds, where f = "files i"]) (simp_all add: cache_at_def o0_def first_def cong: option.case_cong)
  have none: "skips_write None i = (\<lambda>p. False)" "skips_removal None i = (\<lambda>p. False)"
    by (simp_all add: fun_eq_iff skips_write_def skips_removal_def plan_skips_def)
  have "file_after (skips_write (Some plan) i) (skips_removal (Some plan) i) evs o0 (first (Some plan)) =
      file_after (skips_write None i) (skips_removal None i) evs o0 (first None)"
  proof (cases "i \<in> set (pn_eligible plan) \<and> \<not> (o0 = None \<and> evs = [])")
    case False
    then show ?thesis
    proof (cases "i \<in> set (pn_eligible plan)")
      case False
      then have "skips_write (Some plan) i = skips_write None i" "skips_removal (Some plan) i = skips_removal None i"
        using skipped_eligible plan by (fastforce simp: fun_eq_iff skips_write_def skips_removal_def plan_skips_def)+
      then show ?thesis by (simp add: first_def split: option.split)
    qed (simp add: first_def shown_def)
  next
    case True
    have first_none: "first None = (case shown o0 of Some m \<Rightarrow> Some m | None \<Rightarrow> files i)"
      by (simp add: first_def none split: option.split)
    from planned_eligible_file [OF plan seeds tail empty, of i] True show ?thesis
      by (simp add: o0_def evs_def first_none first_def [of "Some plan"] none)
  qed
  then show ?thesis by (simp add: at_end)
qed


definition demo_tail :: "net_replay_commit list" where
  "demo_tail =
     [\<lparr>nc_namespace = ''n'', nc_partition = ''a'', nc_position = 2, nc_changes = [\<lparr>kh_key = ''d/x'', kh_put = Some ''s''\<rparr>]\<rparr>,
      \<lparr>nc_namespace = ''n'', nc_partition = ''a'', nc_position = 3, nc_changes = [\<lparr>kh_key = ''d/x'', kh_put = Some ''t''\<rparr>]\<rparr>]"

definition demo_seeds :: "(string \<times> string \<times> file_ownership) list" where
  "demo_seeds = [(''n'', ''d/x'', \<lparr>fo_owner = ''a'', fo_mark = 1, fo_present = True\<rparr>)]"


end
