(* ===== verification/Schedule.thy ===== *)
theory Schedule
  imports Js_Text
begin

text \<open>
  \<^verbatim>\<open>src/src/domain/workflows/schedule_catch_up.ts\<close>, \<^verbatim>\<open>schedule_state.ts\<close>, \<^verbatim>\<open>schedule_pause.ts\<close>,
  \<^verbatim>\<open>workflow_scheduler.ts\<close> and \<^verbatim>\<open>src/src/domain/data/duration.ts\<close>: which fires of a schedule were missed while serve
  was down, which one is caught up, and what is remembered of them.

  The cron package is a parameter: \<open>nextRun\<close> is \<^verbatim>\<open>nextRun\<close> of a \<^verbatim>\<open>Cron\<close> of the expression. What the
  code relies on is \<open>cron_slots\<close>: it gives the first slot strictly after its argument. Times are
  instants; a stored time is the instant its text names.
\<close>

section \<open>Durations\<close>

definition duration_unit :: "string \<Rightarrow> int option" where
  "duration_unit unit =
     (if unit = ''mo'' then Some (30 * 24 * 60 * 60 * 1000)
      else if unit = ''y'' then Some (365 * 24 * 60 * 60 * 1000)
      else if unit = ''h'' then Some (60 * 60 * 1000)
      else if unit = ''m'' then Some (60 * 1000)
      else if unit = ''d'' then Some (24 * 60 * 60 * 1000)
      else if unit = ''w'' then Some (7 * 24 * 60 * 60 * 1000)
      else None)"

text \<open>\<open>None\<close> is the error of a text that is no duration.\<close>

definition parseDataDuration :: "string \<Rightarrow> int option" where
  "parseDataDuration duration =
     (let ds = takeWhile is_digit duration in
      if ds = [] then None
      else map_option (\<lambda>ms. int (digits_value ds) * ms) (duration_unit (dropWhile is_digit duration)))"

section \<open>Missed fires\<close>

datatype catch_up_policy = Policy_none | Policy_latest

record schedule_catch_up =
  cu_policy :: catch_up_policy
  cu_maxDelay :: "string option"

definition CATCH_UP_MAX_DELAY_LIMIT_MS :: int where
  "CATCH_UP_MAX_DELAY_LIMIT_MS = the (parseDataDuration ''31d'')"

definition maxDelay_ok :: "string \<Rightarrow> bool" where
  "maxDelay_ok value =
     (case parseDataDuration value of
        None \<Rightarrow> False
      | Some ms \<Rightarrow> 0 < ms \<and> ms \<le> CATCH_UP_MAX_DELAY_LIMIT_MS)"

definition catch_up_ok :: "schedule_catch_up \<Rightarrow> bool" where
  "catch_up_ok c =
     (case cu_policy c of
        Policy_none \<Rightarrow> cu_maxDelay c = None
      | Policy_latest \<Rightarrow> (case cu_maxDelay c of None \<Rightarrow> False | Some d \<Rightarrow> maxDelay_ok d))"

definition MISSED_FIRE_COUNT_CAP :: nat where
  "MISSED_FIRE_COUNT_CAP = 1000"

record missed_fires =
  mf_missedCount :: nat
  mf_saturated :: bool
  mf_oldestMissed :: "time option"
  mf_latestMissed :: "time option"
  mf_catchUpFireTime :: "time option"

definition no_misses :: missed_fires where
  "no_misses = \<lparr>mf_missedCount = 0, mf_saturated = False, mf_oldestMissed = None, mf_latestMissed = None,
                mf_catchUpFireTime = None\<rparr>"

record missed_walk =
  mw_count :: nat
  mw_oldest :: "time option"
  mw_latest :: "time option"
  mw_cursor :: time

text \<open>The loop of \<^verbatim>\<open>evaluateMissedFires\<close>; the argument is how many slots it may still count.\<close>

primrec missed_loop :: "(time \<Rightarrow> time option) \<Rightarrow> time \<Rightarrow> nat \<Rightarrow> missed_walk \<Rightarrow> missed_walk" where
  "missed_loop nextRun now 0 w = w"
| "missed_loop nextRun now (Suc n) w =
     (case nextRun (mw_cursor w) of
        None \<Rightarrow> w
      | Some nxt \<Rightarrow>
          if now < nxt then w
          else missed_loop nextRun now n
                 \<lparr>mw_count = mw_count w + 1, mw_oldest = Some (or_else nxt (mw_oldest w)), mw_latest = Some nxt,
                  mw_cursor = nxt\<rparr>)"

definition nextAtOrBefore :: "(time \<Rightarrow> time option) \<Rightarrow> time \<Rightarrow> time \<Rightarrow> time option" where
  "nextAtOrBefore nextRun after now =
     (case nextRun after of None \<Rightarrow> None | Some nxt \<Rightarrow> if nxt \<le> now then Some nxt else None)"

function bisect :: "(time \<Rightarrow> time option) \<Rightarrow> time \<Rightarrow> time \<Rightarrow> time \<Rightarrow> time" where
  "bisect nextRun now lo hi =
     (if hi - lo > 1 then
        let mid = lo + (hi - lo) div 2 in
        if nextAtOrBefore nextRun mid now \<noteq> None then bisect nextRun now mid hi
        else bisect nextRun now lo mid
      else lo)"
  by pat_completeness auto

termination
  by (relation "measure (\<lambda>(_, _, lo, hi). nat (hi - lo))") auto

declare bisect.simps [simp del]

definition latestAtOrBefore :: "(time \<Rightarrow> time option) \<Rightarrow> time \<Rightarrow> time \<Rightarrow> time option" where
  "latestAtOrBefore nextRun floor_at now = nextAtOrBefore nextRun (bisect nextRun now floor_at now) now"

text \<open>A \<^verbatim>\<open>maxDelay\<close> that is no duration throws; the schema \<open>catch_up_ok\<close> has refused it.\<close>

definition catchUpTime :: "time option \<Rightarrow> time \<Rightarrow> schedule_catch_up option \<Rightarrow> time option" where
  "catchUpTime latest now catchUp =
     (case (latest, catchUp) of
        (Some l, Some c) \<Rightarrow>
          if cu_policy c \<noteq> Policy_latest \<or> \<not> truthy (cu_maxDelay c) then None
          else (case parseDataDuration (the (cu_maxDelay c)) of
                  None \<Rightarrow> None
                | Some maxDelayMs \<Rightarrow> if now - l \<le> maxDelayMs then Some l else None)
      | _ \<Rightarrow> None)"

definition evaluateMissedFires ::
  "(time \<Rightarrow> time option) \<Rightarrow> time \<Rightarrow> time \<Rightarrow> schedule_catch_up option \<Rightarrow> missed_fires" where
  "evaluateMissedFires nextRun lastEvaluated now catchUp =
     (if now \<le> lastEvaluated then no_misses
      else
        let w = missed_loop nextRun now MISSED_FIRE_COUNT_CAP
                  \<lparr>mw_count = 0, mw_oldest = None, mw_latest = None, mw_cursor = lastEvaluated\<rparr> in
        if mw_count w = 0 then no_misses
        else
          let saturated = (mw_count w = MISSED_FIRE_COUNT_CAP \<and> nextAtOrBefore nextRun (mw_cursor w) now \<noteq> None);
              latest = (if saturated
                        then (case latestAtOrBefore nextRun (mw_cursor w) now of None \<Rightarrow> mw_latest w | Some l \<Rightarrow> Some l)
                        else mw_latest w) in
          \<lparr>mf_missedCount = mw_count w, mf_saturated = saturated, mf_oldestMissed = mw_oldest w,
           mf_latestMissed = latest, mf_catchUpFireTime = catchUpTime latest now catchUp\<rparr>)"

definition option_or :: "'a option \<Rightarrow> 'a option \<Rightarrow> 'a option" where
  "option_or a b = (case a of None \<Rightarrow> b | Some x \<Rightarrow> Some x)"

definition missedAroundRecordedSlot ::
  "(time \<Rightarrow> time option) \<Rightarrow> time \<Rightarrow> time \<Rightarrow> time \<Rightarrow> schedule_catch_up option \<Rightarrow> missed_fires" where
  "missedAroundRecordedSlot nextRun lastEvaluated recorded now catchUp =
     (let gap = evaluateMissedFires nextRun lastEvaluated (recorded - 1) None;
          after = evaluateMissedFires nextRun recorded now catchUp;
          sum = mf_missedCount gap + mf_missedCount after in
      \<lparr>mf_missedCount = min sum MISSED_FIRE_COUNT_CAP,
       mf_saturated = (mf_saturated gap \<or> mf_saturated after \<or> MISSED_FIRE_COUNT_CAP < sum),
       mf_oldestMissed = option_or (mf_oldestMissed gap) (mf_oldestMissed after),
       mf_latestMissed = option_or (mf_latestMissed after) (mf_latestMissed gap),
       mf_catchUpFireTime = mf_catchUpFireTime after\<rparr>)"

text \<open>What the cron package promises, and the slots between a watermark and now.\<close>

definition cron_slots :: "(time \<Rightarrow> time option) \<Rightarrow> time set \<Rightarrow> bool" where
  "cron_slots nextRun slots \<longleftrightarrow>
     (\<forall>t. case nextRun t of
            None \<Rightarrow> (\<forall>s\<in>slots. s \<le> t)
          | Some s \<Rightarrow> s \<in> slots \<and> t < s \<and> (\<forall>u\<in>slots. t < u \<longrightarrow> s \<le> u))"

definition between_slots :: "time set \<Rightarrow> time \<Rightarrow> time \<Rightarrow> time set" where
  "between_slots slots a b = {s \<in> slots. a < s \<and> s \<le> b}"

text \<open>The slot a run recorded; only a run the scheduler started is evidence.\<close>

record started_run =
  st_initiatedBy :: "string option"
  st_scheduledFor :: "string option"

definition slot_of :: "(string \<Rightarrow> time option) \<Rightarrow> string \<Rightarrow> started_run \<Rightarrow> time option" where
  "slot_of parse_date scheduler r =
     (if st_initiatedBy r \<noteq> Some scheduler then None else parse_date (or_else [] (st_scheduledFor r)))"

definition latestRecordedSlot :: "(string \<Rightarrow> time option) \<Rightarrow> started_run list \<Rightarrow> string \<Rightarrow> time option" where
  "latestRecordedSlot parse_date runs scheduler =
     fold (\<lambda>r latest. case slot_of parse_date scheduler r of
                         None \<Rightarrow> latest
                       | Some slot \<Rightarrow> if latest = None \<or> the latest < slot then Some slot else latest) runs None"

fun firstRecordedSlot :: "(string \<Rightarrow> time option) \<Rightarrow> started_run list \<Rightarrow> string \<Rightarrow> time \<Rightarrow> time option" where
  "firstRecordedSlot parse_date [] scheduler notAfter = None"
| "firstRecordedSlot parse_date (r # runs) scheduler notAfter =
     (case latestRecordedSlot parse_date [r] scheduler of
        Some slot \<Rightarrow> if slot \<le> notAfter then Some slot else firstRecordedSlot parse_date runs scheduler notAfter
      | None \<Rightarrow> firstRecordedSlot parse_date runs scheduler notAfter)"

section \<open>The fire time of a tick\<close>

text \<open>
  \<^verbatim>\<open>nextRuns\<close> of the cron package is an argument; it promises the first runs after a time, one after the
  other.
\<close>

primrec cron_runs :: "(time \<Rightarrow> time option) \<Rightarrow> nat \<Rightarrow> time \<Rightarrow> time list" where
  "cron_runs nextRun 0 after = []"
| "cron_runs nextRun (Suc n) after =
     (case nextRun after of None \<Rightarrow> [] | Some nxt \<Rightarrow> nxt # cron_runs nextRun n nxt)"

definition EARLY_TOLERANCE_MS :: int where
  "EARLY_TOLERANCE_MS = 2000"

definition canonicalFireTime :: "(nat \<Rightarrow> time \<Rightarrow> time list) \<Rightarrow> time \<Rightarrow> time" where
  "canonicalFireTime nextRuns ref =
     (let runs = nextRuns 200 (ref - 120000) in
      case find (\<lambda>r. r \<le> ref) (rev runs) of
        Some r \<Rightarrow> r
      | None \<Rightarrow> (case find (\<lambda>r. r - ref \<le> EARLY_TOLERANCE_MS) runs of Some r \<Rightarrow> r | None \<Rightarrow> ref))"

definition effectiveSchedule :: "string option \<Rightarrow> string option \<Rightarrow> string option" where
  "effectiveSchedule builtInSchedule overrideSchedule = option_or overrideSchedule builtInSchedule"

section \<open>Pauses\<close>

record schedule_pause =
  sp_workflowId :: string
  sp_workflowName :: string
  sp_reason :: "string option"
  sp_pausedBy :: string
  sp_pausedAt :: time
  sp_until :: "time option"

definition unreadableSchedulePause :: "string \<Rightarrow> schedule_pause" where
  "unreadableSchedulePause workflowId =
     \<lparr>sp_workflowId = workflowId, sp_workflowName = workflowId, sp_reason = Some ''unreadable pause record'',
      sp_pausedBy = ''unknown'', sp_pausedAt = 0, sp_until = None\<rparr>"

definition isSchedulePauseActiveAt :: "schedule_pause \<Rightarrow> time \<Rightarrow> bool" where
  "isSchedulePauseActiveAt pause t = (case sp_until pause of None \<Rightarrow> True | Some u \<Rightarrow> t < u)"

section \<open>The state of a schedule\<close>

datatype missed_fire_reason = Serve_down | Paused_reason | Overlap

record missed_fire =
  mi_fireTime :: time
  mi_count :: nat
  mi_saturated :: bool
  mi_reason :: missed_fire_reason
  mi_caughtUp :: bool
  mi_detectedAt :: time

record schedule_state =
  ss_workflowId :: string
  ss_workflowName :: string
  ss_lastEvaluatedFireTime :: time
  ss_cronExpression :: "string option"
  ss_lastMissed :: "missed_fire option"

record schedule_state_advance =
  sa_lastMissed :: "missed_fire option"
  sa_cronExpression :: "string option"
  sa_fired :: bool

definition mergeMissed :: "missed_fire option \<Rightarrow> missed_fire option \<Rightarrow> missed_fire option" where
  "mergeMissed current given =
     (case (current, given) of
        (_, None) \<Rightarrow> current
      | (None, Some _) \<Rightarrow> given
      | (Some c, Some g) \<Rightarrow>
          if mi_fireTime g < mi_fireTime c then current
          else if mi_fireTime c = mi_fireTime g \<and> mi_caughtUp c \<and> \<not> mi_caughtUp g then current
          else if mi_fireTime c = mi_fireTime g \<or> mi_reason c \<noteq> mi_reason g \<or> mi_caughtUp c \<or> mi_caughtUp g then given
          else
            let sum = mi_count c + mi_count g in
            Some (g\<lparr>mi_count := min sum MISSED_FIRE_COUNT_CAP,
                    mi_saturated := mi_saturated c \<or> mi_saturated g \<or> MISSED_FIRE_COUNT_CAP < sum\<rparr>))"

definition kept_missed :: "schedule_state option \<Rightarrow> time \<Rightarrow> schedule_state_advance \<Rightarrow> missed_fire option" where
  "kept_missed current fireTime options =
     (let kept = Option.bind current ss_lastMissed;
          kept = (if sa_cronExpression options \<noteq> None \<and>
                     Option.bind current ss_cronExpression \<noteq> sa_cronExpression options then None else kept) in
      case kept of
        None \<Rightarrow> None
      | Some k \<Rightarrow>
          if sa_fired options \<and> (mi_fireTime k < fireTime \<or> mi_fireTime k = fireTime \<and> \<not> mi_caughtUp k) then None
          else kept)"

definition advanceScheduleState ::
  "schedule_state option \<Rightarrow> string \<Rightarrow> string \<Rightarrow> time \<Rightarrow> schedule_state_advance \<Rightarrow> schedule_state" where
  "advanceScheduleState current workflowId workflowName fireTime options =
     (let watermark = (case current of
                         Some c \<Rightarrow> if fireTime < ss_lastEvaluatedFireTime c then ss_lastEvaluatedFireTime c else fireTime
                       | None \<Rightarrow> fireTime);
          missed = mergeMissed (kept_missed current fireTime options) (sa_lastMissed options);
          expression = option_or (sa_cronExpression options) (Option.bind current ss_cronExpression) in
      \<lparr>ss_workflowId = workflowId, ss_workflowName = workflowName, ss_lastEvaluatedFireTime = watermark,
       ss_cronExpression = (if truthy expression then expression else None), ss_lastMissed = missed\<rparr>)"

text \<open>A schedule's state after a sequence of writes.\<close>

definition advance_all :: "string \<Rightarrow> string \<Rightarrow> (time \<times> schedule_state_advance) list \<Rightarrow> schedule_state \<Rightarrow> schedule_state" where
  "advance_all workflowId workflowName writes s =
     fold (\<lambda>(t, options) s. advanceScheduleState (Some s) workflowId workflowName t options) writes s"

section \<open>The slots between a watermark and now\<close>

lemma finite_between [simp]: "finite (between_slots slots a b)"
proof -
  have "between_slots slots a b \<subseteq> {a..b}" by (auto simp: between_slots_def)
  then show ?thesis by (rule finite_subset) simp
qed

lemma between_step:
  assumes "cron_slots nextRun slots" and "nextRun a = Some nxt" and "nxt \<le> b"
  shows "between_slots slots a b = insert nxt (between_slots slots nxt b)" and "nxt \<notin> between_slots slots nxt b"
    and "\<forall>s\<in>between_slots slots nxt b. nxt < s"
proof -
  from assms(1,2) have "nxt \<in> slots" "a < nxt" "\<forall>u\<in>slots. a < u \<longrightarrow> nxt \<le> u"
    unfolding cron_slots_def by (auto dest: spec [of _ a])
  then show "between_slots slots a b = insert nxt (between_slots slots nxt b)"
    using assms(3) by (fastforce simp: between_slots_def)
qed (auto simp: between_slots_def)

lemma between_empty:
  assumes "cron_slots nextRun slots"
  shows "between_slots slots a b = {} \<longleftrightarrow> nextAtOrBefore nextRun a b = None"
proof -
  have "case nextRun a of None \<Rightarrow> (\<forall>s\<in>slots. s \<le> a) | Some s \<Rightarrow> s \<in> slots \<and> a < s \<and> (\<forall>u\<in>slots. a < u \<longrightarrow> s \<le> u)"
    using assms by (simp add: cron_slots_def)
  then show ?thesis
    by (cases "nextRun a") (force simp: between_slots_def nextAtOrBefore_def)+
qed

text \<open>The loop counts the slots in order, as many as it may.\<close>

definition walk_of :: "time set \<Rightarrow> time \<Rightarrow> nat \<Rightarrow> missed_walk \<Rightarrow> missed_walk \<Rightarrow> bool" where
  "walk_of slots now n w w' \<longleftrightarrow>
     (let S = between_slots slots (mw_cursor w) now; j = min n (card S) in
      mw_count w' = mw_count w + j \<and>
      card (between_slots slots (mw_cursor w') now) = card S - j \<and>
      (if j = 0 then w' = w
       else mw_cursor w' \<in> S \<and> mw_latest w' = Some (mw_cursor w') \<and>
            mw_oldest w' = Some (or_else (Min S) (mw_oldest w))))"

lemma missed_loop_walks:
  assumes cron: "cron_slots nextRun slots"
  shows "walk_of slots now n w (missed_loop nextRun now n w)"
proof (induction n arbitrary: w)
  case 0
  then show ?case by (simp add: walk_of_def)
next
  case (Suc n)
  let ?S = "between_slots slots (mw_cursor w) now"
  show ?case
  proof (cases "nextAtOrBefore nextRun (mw_cursor w) now")
    case None
    then have "?S = {}" using between_empty [OF cron] by simp
    moreover have "missed_loop nextRun now (Suc n) w = w"
      using None by (auto simp: nextAtOrBefore_def split: option.splits if_splits)
    ultimately show ?thesis by (simp add: walk_of_def)
  next
    case (Some nxt)
    then have nxt: "nextRun (mw_cursor w) = Some nxt" "nxt \<le> now"
      by (auto simp: nextAtOrBefore_def split: option.splits if_splits)
    let ?T = "between_slots slots nxt now"
    let ?v = "\<lparr>mw_count = mw_count w + 1, mw_oldest = Some (or_else nxt (mw_oldest w)), mw_latest = Some nxt, mw_cursor = nxt\<rparr>"
    note S = between_step [OF cron nxt]
    have "Min ?S = nxt"
      using S by (intro Min_eqI) (auto intro: less_imp_le)
    moreover have "card ?S = Suc (card ?T)" using S by simp
    moreover have "missed_loop nextRun now (Suc n) w = missed_loop nextRun now n ?v"
      using nxt by simp
    ultimately show ?thesis
      using Suc.IH [of ?v] S(1)
      by (auto simp: walk_of_def Let_def or_else_def split: if_splits option.splits)
  qed
qed

lemma walk_full:
  assumes "walk_of slots now n w w'" and "card (between_slots slots (mw_cursor w) now) \<le> n"
    and "between_slots slots (mw_cursor w) now \<noteq> {}"
  shows "mw_latest w' = Some (Max (between_slots slots (mw_cursor w) now))"
proof -
  let ?S = "between_slots slots (mw_cursor w) now"
  have "0 < card ?S" using assms(3) by (simp add: card_gt_0_iff)
  then have w': "mw_cursor w' \<in> ?S" "mw_latest w' = Some (mw_cursor w')" "card (between_slots slots (mw_cursor w') now) = 0"
    using assms(1,2) by (auto simp: walk_of_def Let_def split: if_splits)
  then have "between_slots slots (mw_cursor w') now = {}" by simp
  then have "Max ?S = mw_cursor w'"
    using w'(1) by (intro Max_eqI) (force simp: between_slots_def)+
  with w'(2) show ?thesis by simp
qed

lemma next_in_between:
  assumes "cron_slots nextRun slots" and "nextAtOrBefore nextRun a b = Some nxt"
  shows "nxt \<in> between_slots slots a b"
  using between_step [OF assms(1), of a nxt b] assms(2)
  by (auto simp: nextAtOrBefore_def split: option.splits if_splits)

lemma Max_between:
  assumes "a \<le> b" and "between_slots slots b now \<noteq> {}"
  shows "Max (between_slots slots a now) = Max (between_slots slots b now)"
proof (rule Max_eqI)
  have top: "Max (between_slots slots b now) \<in> between_slots slots b now"
    using assms(2) by (intro Max_in) simp
  with assms(1) show "Max (between_slots slots b now) \<in> between_slots slots a now"
    by (auto simp: between_slots_def)
  show "s \<le> Max (between_slots slots b now)" if "s \<in> between_slots slots a now" for s
  proof (cases "b < s")
    case True
    with that show ?thesis by (intro Max_ge) (auto simp: between_slots_def)
  next
    case False
    with top show ?thesis by (auto simp: between_slots_def)
  qed
qed simp

text \<open>The bisection ends at the last instant that has a slot after it.\<close>

lemma bisect_finds:
  "\<lbrakk>cron_slots nextRun slots; lo < hi; between_slots slots lo now \<noteq> {}; between_slots slots hi now = {}\<rbrakk> \<Longrightarrow>
    nextAtOrBefore nextRun (bisect nextRun now lo hi) now = Some (Max (between_slots slots lo now))"
proof (induction nextRun now lo hi rule: bisect.induct)
  case (1 nextRun now lo hi)
  note cron = "1.prems"(1)
  let ?mid = "lo + (hi - lo) div 2"
  show ?case
  proof (cases "hi - lo > 1")
    case False
    then have hi: "hi = lo + 1" using "1.prems"(2) by simp
    have "between_slots slots lo now \<subseteq> {hi}"
    proof
      fix s assume s: "s \<in> between_slots slots lo now"
      then have "s \<notin> between_slots slots hi now" using "1.prems"(4) by simp
      with s hi show "s \<in> {hi}" by (auto simp: between_slots_def)
    qed
    then have only: "between_slots slots lo now = {hi}" using "1.prems"(3) by blast
    obtain nxt where "nextAtOrBefore nextRun lo now = Some nxt"
      using between_empty [OF cron] "1.prems"(3) by blast
    moreover from this have "nxt = hi" using next_in_between [OF cron] only by blast
    ultimately show ?thesis
      using False only by (simp add: bisect.simps [of nextRun now lo hi])
  next
    case True
    then have mid: "lo < ?mid" "?mid < hi" by auto
    show ?thesis
    proof (cases "nextAtOrBefore nextRun ?mid now = None")
      case none: True
      then have "between_slots slots ?mid now = {}" using between_empty [OF cron] by simp
      with "1.IH"(2) [OF True refl _ cron mid(1) "1.prems"(3)] none show ?thesis
        using True by (simp add: bisect.simps [of nextRun now lo hi] Let_def)
    next
      case False
      then have some: "between_slots slots ?mid now \<noteq> {}" using between_empty [OF cron] by simp
      with "1.IH"(1) [OF True refl False cron mid(2) some "1.prems"(4)] show ?thesis
        using True False Max_between [OF less_imp_le [OF mid(1)] some]
        by (simp add: bisect.simps [of nextRun now lo hi] Let_def)
    qed
  qed
qed

section \<open>Missed fires are the slots not seen\<close>

text \<open>What a report on a set of missed slots says.\<close>

definition reports :: "time set \<Rightarrow> missed_fires \<Rightarrow> bool" where
  "reports M m \<longleftrightarrow>
     mf_missedCount m = min (card M) MISSED_FIRE_COUNT_CAP \<and>
     (mf_saturated m \<longleftrightarrow> MISSED_FIRE_COUNT_CAP < card M) \<and>
     mf_oldestMissed m = (if M = {} then None else Some (Min M)) \<and>
     mf_latestMissed m = (if M = {} then None else Some (Max M))"

lemma evaluateMissedFires_reports:
  assumes cron: "cron_slots nextRun slots"
  shows "reports (between_slots slots lastEvaluated now) (evaluateMissedFires nextRun lastEvaluated now catchUp)"
    and "mf_catchUpFireTime (evaluateMissedFires nextRun lastEvaluated now catchUp) =
           catchUpTime (mf_latestMissed (evaluateMissedFires nextRun lastEvaluated now catchUp)) now catchUp"
proof -
  let ?M = "between_slots slots lastEvaluated now"
  let ?start = "\<lparr>mw_count = 0, mw_oldest = None, mw_latest = None, mw_cursor = lastEvaluated\<rparr>"
  let ?w = "missed_loop nextRun now MISSED_FIRE_COUNT_CAP ?start"
  let ?m = "evaluateMissedFires nextRun lastEvaluated now catchUp"
  show "mf_catchUpFireTime ?m = catchUpTime (mf_latestMissed ?m) now catchUp"
    by (simp add: evaluateMissedFires_def Let_def no_misses_def catchUpTime_def)
  have walk: "walk_of slots now MISSED_FIRE_COUNT_CAP ?start ?w"
    by (rule missed_loop_walks [OF cron])
  have pos: "0 < MISSED_FIRE_COUNT_CAP" by (simp add: MISSED_FIRE_COUNT_CAP_def)
  show "reports ?M ?m"
  proof (cases "?M = {}")
    case True
    then have "mw_count ?w = 0" using walk by (simp add: walk_of_def Let_def)
    then have "?m = no_misses" by (simp add: evaluateMissedFires_def)
    with True show ?thesis by (simp add: reports_def no_misses_def)
  next
    case False
    then have card: "0 < card ?M" by (simp add: card_gt_0_iff)
    from False have late: "\<not> now \<le> lastEvaluated" by (auto simp: between_slots_def)
    have count: "mw_count ?w = min MISSED_FIRE_COUNT_CAP (card ?M)" "mw_oldest ?w = Some (Min ?M)"
      and rest: "card (between_slots slots (mw_cursor ?w) now) = card ?M - min MISSED_FIRE_COUNT_CAP (card ?M)"
      and cursor: "mw_cursor ?w \<in> ?M"
      using walk card pos by (simp_all add: walk_of_def Let_def or_else_def)
    let ?B = "between_slots slots (mw_cursor ?w) now"
    have "?B = {} \<longleftrightarrow> card ?B = 0" by simp
    also have "\<dots> \<longleftrightarrow> \<not> MISSED_FIRE_COUNT_CAP < card ?M" using rest by auto
    finally have B: "?B = {} \<longleftrightarrow> \<not> MISSED_FIRE_COUNT_CAP < card ?M" .
    have latest: "(if MISSED_FIRE_COUNT_CAP < card ?M
           then (case latestAtOrBefore nextRun (mw_cursor ?w) now of None \<Rightarrow> mw_latest ?w | Some l \<Rightarrow> Some l)
           else mw_latest ?w) = Some (Max ?M)"
    proof (cases "MISSED_FIRE_COUNT_CAP < card ?M")
      case True
      then have some: "?B \<noteq> {}" using B by simp
      then have "mw_cursor ?w < now" by (auto simp: between_slots_def)
      moreover have "between_slots slots now now = {}" by (auto simp: between_slots_def)
      ultimately have "latestAtOrBefore nextRun (mw_cursor ?w) now = Some (Max ?B)"
        unfolding latestAtOrBefore_def using bisect_finds [OF cron _ some] by blast
      moreover have "Max ?M = Max ?B"
        using cursor some by (intro Max_between) (auto simp: between_slots_def)
      ultimately show ?thesis using True by simp
    next
      case False
      then have "mw_latest ?w = Some (Max ?M)"
        using walk_full [OF walk] \<open>?M \<noteq> {}\<close> by simp
      with False show ?thesis by simp
    qed
    have "nextAtOrBefore nextRun (mw_cursor ?w) now \<noteq> None \<longleftrightarrow> MISSED_FIRE_COUNT_CAP < card ?M"
      using B between_empty [OF cron] by simp
    then have "mw_count ?w = MISSED_FIRE_COUNT_CAP \<and> nextAtOrBefore nextRun (mw_cursor ?w) now \<noteq> None \<longleftrightarrow>
        MISSED_FIRE_COUNT_CAP < card ?M"
      using count(1) by auto
    moreover have "mw_count ?w \<noteq> 0" using count(1) card pos by simp
    ultimately have "?m = \<lparr>mf_missedCount = mw_count ?w, mf_saturated = (MISSED_FIRE_COUNT_CAP < card ?M),
        mf_oldestMissed = mw_oldest ?w, mf_latestMissed = Some (Max ?M),
        mf_catchUpFireTime = catchUpTime (Some (Max ?M)) now catchUp\<rparr>"
      using late latest unfolding evaluateMissedFires_def Let_def by (simp only: if_False simp_thms)
    then show ?thesis
      using count False by (simp add: reports_def min.commute)
  qed
qed

lemma catchUpTime_Some:
  "catchUpTime latest now catchUp = Some slot \<longleftrightarrow>
     latest = Some slot \<and> (\<exists>c d ms. catchUp = Some c \<and> cu_policy c = Policy_latest \<and> cu_maxDelay c = Some d \<and> d \<noteq> [] \<and>
       parseDataDuration d = Some ms \<and> now - slot \<le> ms)"
  by (cases latest; cases catchUp) (auto simp: catchUpTime_def truthy_def split: option.splits)

text \<open>C30. Let \<open>nextRun\<close> give the first slot of a schedule after an instant. Then the missed fires between the
  watermark and now are exactly its slots after the watermark and at or before now: their number up to
  the cap, with \<open>saturated\<close> telling whether there are more, the oldest and the latest of them,
  which past the cap is found by bisection. At most one slot is caught up: the latest, only
  under the policy that asks for it and when it is no older than the allowed delay.\<close>

theorem missed_fires_are_the_unseen_slots:
  assumes "cron_slots nextRun slots"
  shows "let M = {s \<in> slots. lastEvaluated < s \<and> s \<le> now};
             m = evaluateMissedFires nextRun lastEvaluated now catchUp in
    mf_missedCount m = min (card M) MISSED_FIRE_COUNT_CAP \<and>
    mf_saturated m = (MISSED_FIRE_COUNT_CAP < card M) \<and>
    mf_oldestMissed m = (if M = {} then None else Some (Min M)) \<and>
    mf_latestMissed m = (if M = {} then None else Some (Max M)) \<and>
    (mf_catchUpFireTime m = Some slot \<longleftrightarrow>
       M \<noteq> {} \<and> slot = Max M \<and>
       (\<exists>c d ms. catchUp = Some c \<and> cu_policy c = Policy_latest \<and> cu_maxDelay c = Some d \<and> d \<noteq> [] \<and>
          parseDataDuration d = Some ms \<and> now - slot \<le> ms))"
  using evaluateMissedFires_reports [OF assms, of lastEvaluated now catchUp]
  by (auto simp: reports_def between_slots_def Let_def catchUpTime_Some split: if_splits)

lemma count_around:
  fixes a b c :: nat
  shows "min (min a c + min b c) c = min (a + b) c"
    and "c < a \<or> c < b \<or> c < min a c + min b c \<longleftrightarrow> c < a + b"
  by (auto simp: min_def)

lemma around_split:
  assumes "lastEvaluated \<le> recorded" "recorded \<le> now"
  shows "between_slots slots lastEvaluated now - {recorded} =
           between_slots slots lastEvaluated (recorded - 1) \<union> between_slots slots recorded now"
    and "between_slots slots lastEvaluated (recorded - 1) \<inter> between_slots slots recorded now = {}"
    and "\<lbrakk>s \<in> between_slots slots lastEvaluated (recorded - 1); u \<in> between_slots slots recorded now\<rbrakk> \<Longrightarrow> s < u"
  using assms by (auto simp: between_slots_def)

lemma extremes_Un:
  fixes A B :: "int set"
  assumes "finite A" "finite B" "\<And>a b. a \<in> A \<Longrightarrow> b \<in> B \<Longrightarrow> a < b"
  shows "A \<noteq> {} \<Longrightarrow> Min (A \<union> B) = Min A" and "B \<noteq> {} \<Longrightarrow> Max (A \<union> B) = Max B"
proof -
  show "Min (A \<union> B) = Min A" if "A \<noteq> {}"
    using assms(1,2) Min_in [OF assms(1) that] assms(3) [OF Min_in [OF assms(1) that]]
    by (intro Min_eqI) (auto intro: less_imp_le)
  show "Max (A \<union> B) = Max B" if "B \<noteq> {}"
    using assms(1,2) Max_in [OF assms(2) that] assms(3) [OF _ Max_in [OF assms(2) that]]
    by (intro Max_eqI) (auto intro: less_imp_le)
qed

text \<open>
  When a run recorded the fire of a slot between the watermark and now, the misses reported are
  the slots around it: all those after the watermark and at or before now except the recorded one, counted as one
  set. Only the slots after the recorded one can be caught up.\<close>

theorem misses_around_a_recorded_slot:
  assumes cron: "cron_slots nextRun slots" and order: "lastEvaluated \<le> recorded" "recorded \<le> now"
  shows "let M = {s \<in> slots. lastEvaluated < s \<and> s \<le> now} - {recorded};
             m = missedAroundRecordedSlot nextRun lastEvaluated recorded now catchUp in
    mf_missedCount m = min (card M) MISSED_FIRE_COUNT_CAP \<and>
    mf_saturated m = (MISSED_FIRE_COUNT_CAP < card M) \<and>
    mf_oldestMissed m = (if M = {} then None else Some (Min M)) \<and>
    mf_latestMissed m = (if M = {} then None else Some (Max M)) \<and>
    (mf_catchUpFireTime m = Some slot \<longrightarrow> slot = Max M \<and> recorded < slot)"
proof -
  let ?A = "between_slots slots lastEvaluated (recorded - 1)" and ?B = "between_slots slots recorded now"
  let ?gap = "evaluateMissedFires nextRun lastEvaluated (recorded - 1) None"
  let ?after = "evaluateMissedFires nextRun recorded now catchUp"
  have M: "{s \<in> slots. lastEvaluated < s \<and> s \<le> now} - {recorded} = ?A \<union> ?B"
    using around_split(1) [OF order, of slots] by (simp add: between_slots_def)
  have gap: "reports ?A ?gap" and after: "reports ?B ?after"
    by (rule evaluateMissedFires_reports(1) [OF cron])+
  note ends = extremes_Un [OF finite_between finite_between around_split(3) [OF order], of slots]
  have card: "card (?A \<union> ?B) = card ?A + card ?B"
    using around_split(2) [OF order, of slots] by (simp add: card_Un_disjoint)
  have caught: "slot = Max ?B \<and> ?B \<noteq> {} \<and> recorded < slot" if "mf_catchUpFireTime ?after = Some slot"
  proof -
    have "mf_latestMissed ?after = Some slot"
      using that evaluateMissedFires_reports(2) [OF cron] by (simp add: catchUpTime_Some)
    then have "?B \<noteq> {}" "slot = Max ?B" using after by (auto simp: reports_def split: if_splits)
    moreover from this have "slot \<in> ?B" by simp
    ultimately show ?thesis by (simp add: between_slots_def)
  qed
  show ?thesis
    unfolding M missedAroundRecordedSlot_def Let_def
    using gap after ends caught card count_around [of "card ?A" MISSED_FIRE_COUNT_CAP "card ?B"]
    by (auto simp: reports_def option_or_def)
qed

section \<open>Every instance derives the same fire time\<close>

lemma cron_runs_after:
  assumes "cron_slots nextRun slots"
  shows "s \<in> set (cron_runs nextRun n a) \<Longrightarrow> a < s"
proof (induction n arbitrary: a)
  case 0
  then show ?case by simp
next
  case (Suc n)
  from Suc.prems obtain nxt where "nextRun a = Some nxt" "s = nxt \<or> s \<in> set (cron_runs nextRun n nxt)"
    by (cases "nextRun a") auto
  moreover from this have "a < nxt"
    using assms unfolding cron_slots_def by (auto dest: spec [of _ a])
  ultimately show ?case using Suc.IH [of nxt] by auto
qed

lemma cron_runs_between:
  assumes cron: "cron_slots nextRun slots"
  shows "card (between_slots slots a b) \<le> n \<Longrightarrow>
    \<exists>later. cron_runs nextRun n a = sorted_list_of_set (between_slots slots a b) @ later \<and> (\<forall>s\<in>set later. b < s)"
proof (induction n arbitrary: a)
  case 0
  then show ?case by simp
next
  case (Suc n)
  show ?case
  proof (cases "nextAtOrBefore nextRun a b")
    case None
    then have "between_slots slots a b = {}" using between_empty [OF cron] by simp
    moreover have "\<forall>s\<in>set (cron_runs nextRun (Suc n) a). b < s"
      using None cron_runs_after [OF cron, of _ n] by (fastforce simp: nextAtOrBefore_def split: option.splits if_splits)
    ultimately show ?thesis by simp
  next
    case (Some nxt)
    then have nxt: "nextRun a = Some nxt" "nxt \<le> b"
      by (auto simp: nextAtOrBefore_def split: option.splits if_splits)
    note S = between_step [OF cron nxt]
    have "Min (between_slots slots a b) = nxt"
      using S by (intro Min_eqI) (auto intro: less_imp_le)
    then have "sorted_list_of_set (between_slots slots a b) = nxt # sorted_list_of_set (between_slots slots nxt b)"
      using sorted_list_of_set_nonempty [of "between_slots slots a b"] S by simp
    moreover have "card (between_slots slots nxt b) \<le> n" using Suc.prems S by simp
    ultimately show ?thesis using Suc.IH [of nxt] nxt by auto
  qed
qed

lemma find_append_none: "\<forall>x\<in>set xs. \<not> P x \<Longrightarrow> find P (xs @ ys) = find P ys"
  by (induction xs) simp_all

text \<open>
  The fire time of a tick is the latest slot of the last two minutes, when there is one: two
  instances whose clocks read instants between the same two slots derive the same fire time.
\<close>

lemma canonicalFireTime_is_latest:
  assumes cron: "cron_slots nextRun slots"
    and some: "between_slots slots (ref - 120000) ref \<noteq> {}" and few: "card (between_slots slots (ref - 120000) ref) \<le> 200"
  shows "canonicalFireTime (cron_runs nextRun) ref = Max (between_slots slots (ref - 120000) ref)"
proof -
  let ?M = "between_slots slots (ref - 120000) ref"
  obtain later where later: "cron_runs nextRun 200 (ref - 120000) = sorted_list_of_set ?M @ later" "\<forall>s\<in>set later. ref < s"
    using cron_runs_between [OF cron few] by blast
  obtain xs x where x: "sorted_list_of_set ?M = xs @ [x]"
    using some by (metis finite_between rev_exhaust sorted_list_of_set_eq_Nil_iff)
  then have "x \<in> ?M" "\<forall>y\<in>?M. y \<le> x"
    using sorted_sorted_list_of_set [of ?M] set_sorted_list_of_set [of ?M] by (auto simp: sorted_append)
  then have "Max ?M = x" "x \<le> ref" by (auto intro: Max_eqI simp: between_slots_def)
  then have "find (\<lambda>r. r \<le> ref) (rev (cron_runs nextRun 200 (ref - 120000))) = Some (Max ?M)"
    using later x by (simp add: find_append_none not_le)
  then show ?thesis by (simp add: canonicalFireTime_def)
qed

section \<open>The watermark\<close>

lemma mergeMissed_later:
  assumes "mergeMissed current (Some g) = m"
  shows "\<exists>r. m = Some r \<and> mi_fireTime r = (case current of None \<Rightarrow> mi_fireTime g | Some c \<Rightarrow> max (mi_fireTime c) (mi_fireTime g))"
  using assms by (cases current) (auto simp: mergeMissed_def Let_def max_def)

lemma mergeMissed_count:
  assumes "mergeMissed current given = Some r" and "\<forall>c. current = Some c \<longrightarrow> 0 < mi_count c \<and> mi_count c \<le> MISSED_FIRE_COUNT_CAP"
    and "\<forall>g. given = Some g \<longrightarrow> 0 < mi_count g \<and> mi_count g \<le> MISSED_FIRE_COUNT_CAP"
  shows "0 < mi_count r \<and> mi_count r \<le> MISSED_FIRE_COUNT_CAP"
  using assms by (auto simp: mergeMissed_def Let_def split: option.splits if_splits)

lemma advance_watermark [simp]:
  "ss_lastEvaluatedFireTime (advanceScheduleState (Some s) i n t options) = max (ss_lastEvaluatedFireTime s) t"
  by (simp add: advanceScheduleState_def Let_def max_def)

lemma advance_all_Cons [simp]:
  "advance_all i n ((t, options) # ws) s = advance_all i n ws (advanceScheduleState (Some s) i n t options)"
  and advance_all_Nil [simp]: "advance_all i n [] s = s"
  by (simp_all add: advance_all_def)

lemma advance_all_watermark:
  "ss_lastEvaluatedFireTime (advance_all i n ws s) = Max (insert (ss_lastEvaluatedFireTime s) (fst ` set ws))"
proof (induction ws arbitrary: s)
  case Nil
  then show ?case by simp
next
  case (Cons w ws)
  obtain t options where w: "w = (t, options)" by fastforce
  have "insert (ss_lastEvaluatedFireTime s) (fst ` set (w # ws)) = insert (ss_lastEvaluatedFireTime s) (insert t (fst ` set ws))"
    using w by simp
  then show ?case
    using Cons.IH w by (cases "ws = []") (simp_all add: max.assoc)
qed

text \<open>A write about a slot at or before one, on the same expression.\<close>

definition write_up_to :: "time \<Rightarrow> string option \<Rightarrow> time \<times> schedule_state_advance \<Rightarrow> bool" where
  "write_up_to slot cron w \<longleftrightarrow>
     fst w \<le> slot \<and> (sa_cronExpression (snd w) = None \<or> sa_cronExpression (snd w) = cron) \<and>
     (\<forall>m. sa_lastMissed (snd w) = Some m \<longrightarrow> mi_fireTime m \<le> slot)"

definition caught_up_at :: "time \<Rightarrow> string option \<Rightarrow> schedule_state \<Rightarrow> bool" where
  "caught_up_at slot cron s \<longleftrightarrow>
     ss_cronExpression s = cron \<and> (\<exists>k. ss_lastMissed s = Some k \<and> mi_caughtUp k \<and> mi_fireTime k = slot)"

lemma advance_keeps_caught_up:
  assumes "caught_up_at slot cron s" and "cron \<noteq> Some []" and "write_up_to slot cron (t, options)"
  shows "caught_up_at slot cron (advanceScheduleState (Some s) i n t options)"
proof -
  from assms(1) obtain k where k: "ss_lastMissed s = Some k" "mi_caughtUp k" "mi_fireTime k = slot"
    and cron: "ss_cronExpression s = cron"
    by (auto simp: caught_up_at_def)
  have "kept_missed (Some s) t options = Some k"
    using assms(3) k cron by (auto simp: kept_missed_def write_up_to_def Let_def)
  moreover have "\<exists>r. mergeMissed (Some k) (sa_lastMissed options) = Some r \<and> mi_caughtUp r \<and> mi_fireTime r = slot"
    using assms(3) k by (cases "sa_lastMissed options") (auto simp: mergeMissed_def write_up_to_def)
  ultimately show ?thesis
    using assms(2,3) cron
    by (auto simp: caught_up_at_def advanceScheduleState_def Let_def write_up_to_def option_or_def truthy_def split: option.splits)
qed

lemma advance_all_keeps_caught_up:
  "\<lbrakk>caught_up_at slot cron s; cron \<noteq> Some []; list_all (write_up_to slot cron) ws\<rbrakk> \<Longrightarrow>
     caught_up_at slot cron (advance_all i n ws s)"
proof (induction ws arbitrary: s)
  case Nil
  then show ?case by simp
next
  case (Cons w ws)
  obtain t options where w: "w = (t, options)" by fastforce
  have "caught_up_at slot cron (advanceScheduleState (Some s) i n t options)"
    using Cons.prems w by (intro advance_keeps_caught_up) simp_all
  from Cons.IH [OF this] Cons.prems w show ?case by simp
qed

text \<open>
  Whatever instances write of a schedule and in whatever order their writes land, its watermark ends at
  the latest slot of the state and of the writes, so it never moves back and a settled slot is not reopened.
  A slot recorded as caught up stays so under any writes about that slot or earlier ones on the same
  expression, fires included. And the last write's lost fire is never forgotten for an older one.\<close>

theorem schedule_state_never_moves_back:
  fixes s :: schedule_state
  shows "ss_lastEvaluatedFireTime (advance_all i n ws s) = Max (insert (ss_lastEvaluatedFireTime s) (fst ` set ws)) \<and>
    (caught_up_at slot cron s \<longrightarrow> cron \<noteq> Some [] \<longrightarrow> list_all (write_up_to slot cron) ws \<longrightarrow>
       caught_up_at slot cron (advance_all i n ws s)) \<and>
    (sa_lastMissed options = Some m \<longrightarrow>
       (\<exists>r. ss_lastMissed (advanceScheduleState (Some s) i n t options) = Some r \<and> mi_fireTime m \<le> mi_fireTime r))"
proof (intro conjI impI)
  show "caught_up_at slot cron (advance_all i n ws s)"
    if "caught_up_at slot cron s" "cron \<noteq> Some []" "list_all (write_up_to slot cron) ws"
    using that by (rule advance_all_keeps_caught_up)
  show "\<exists>r. ss_lastMissed (advanceScheduleState (Some s) i n t options) = Some r \<and> mi_fireTime m \<le> mi_fireTime r"
    if "sa_lastMissed options = Some m"
    using mergeMissed_later [of "kept_missed (Some s) t options" m] that
    by (auto simp: advanceScheduleState_def Let_def split: option.splits)
qed (rule advance_all_watermark)

text \<open>
  Lost fires in a row for one reason add up, but a second report of the last slot of the row puts its
  own count in place of the sum: two instances that both report two slots leave a count of one.
\<close>

definition lost_fire :: "time \<Rightarrow> missed_fire" where
  "lost_fire t = \<lparr>mi_fireTime = t, mi_count = 1, mi_saturated = False, mi_reason = Paused_reason, mi_caughtUp = False,
                  mi_detectedAt = t\<rparr>"

theorem repeated_report_forgets_the_sum:
  "let report = (\<lambda>t. (t, \<lparr>sa_lastMissed = Some (lost_fire t), sa_cronExpression = None, sa_fired = False\<rparr>));
       s = \<lparr>ss_workflowId = ''w'', ss_workflowName = ''w'', ss_lastEvaluatedFireTime = 0, ss_cronExpression = None,
            ss_lastMissed = None\<rparr> in
   map_option mi_count (ss_lastMissed (advance_all ''w'' ''w'' [report 1, report 2] s)) = Some 2 \<and>
   map_option mi_count (ss_lastMissed (advance_all ''w'' ''w'' [report 1, report 1, report 2, report 2] s)) = Some 1"
  by code_simp

section \<open>An hourly schedule\<close>

definition hourly :: "time \<Rightarrow> time option" where
  "hourly t = Some ((t div 3600000 + 1) * 3600000)"

lemma hourly_slots: "cron_slots hourly {s. s mod 3600000 = 0}"
proof -
  have "t < (t div 3600000 + 1) * 3600000" for t :: int
    using div_mult_mod_eq [of t 3600000] pos_mod_bound [of 3600000 t] by simp
  moreover have "(t div 3600000 + 1) * 3600000 \<le> u" if "u mod 3600000 = 0" "t < u" for t u :: int
  proof -
    have u: "u = u div 3600000 * 3600000" using div_mult_mod_eq [of u 3600000] that(1) by simp
    have "t div 3600000 * 3600000 \<le> t" using div_mult_mod_eq [of t 3600000] pos_mod_sign [of 3600000 t] by simp
    with u that(2) have "t div 3600000 < u div 3600000" by linarith
    then have "(t div 3600000 + 1) * 3600000 \<le> u div 3600000 * 3600000" by simp
    with u show ?thesis by simp
  qed
  ultimately show ?thesis by (simp add: cron_slots_def hourly_def)
qed

theorem missed_fires_are_the_unseen_slots_witness:
  "let m = evaluateMissedFires hourly 0 10800005 (Some \<lparr>cu_policy = Policy_latest, cu_maxDelay = Some ''1h''\<rparr>) in
   mf_missedCount m = 3 \<and> mf_catchUpFireTime m = Some 10800000 \<and>
   card {s \<in> {s. s mod 3600000 = 0}. 0 < s \<and> s \<le> (10800005 :: int)} = 3"
proof -
  let ?c = "Some \<lparr>cu_policy = Policy_latest, cu_maxDelay = Some ''1h''\<rparr>"
  have "mf_missedCount (evaluateMissedFires hourly 0 10800005 ?c) = 3"
    "mf_catchUpFireTime (evaluateMissedFires hourly 0 10800005 ?c) = Some 10800000"
    by code_simp+
  moreover from this have "min (card {s \<in> {s. s mod 3600000 = 0}. 0 < s \<and> s \<le> (10800005 :: int)}) MISSED_FIRE_COUNT_CAP = 3"
    using missed_fires_are_the_unseen_slots [OF hourly_slots, of 0 10800005 ?c 0] unfolding Let_def by linarith
  then have "card {s \<in> {s. s mod 3600000 = 0}. 0 < s \<and> s \<le> (10800005 :: int)} = 3"
    unfolding MISSED_FIRE_COUNT_CAP_def by linarith
  ultimately show ?thesis unfolding Let_def by blast
qed

theorem misses_around_a_recorded_slot_witness:
  "mf_missedCount (missedAroundRecordedSlot hourly 0 7200000 10800005 None) = 2 \<and>
   mf_oldestMissed (missedAroundRecordedSlot hourly 0 7200000 10800005 None) =
     Some (Min ({s \<in> {s. s mod 3600000 = 0}. 0 < s \<and> s \<le> (10800005 :: int)} - {7200000}))"
proof -
  have "mf_missedCount (missedAroundRecordedSlot hourly 0 7200000 10800005 None) = 2"
    "mf_oldestMissed (missedAroundRecordedSlot hourly 0 7200000 10800005 None) \<noteq> None" by code_simp+
  moreover have "(0 :: int) \<le> 7200000" "(7200000 :: int) \<le> 10800005" by simp_all
  ultimately show ?thesis
    using misses_around_a_recorded_slot [OF hourly_slots, of 0 7200000 10800005 None 0] unfolding Let_def by presburger
qed

theorem schedule_state_never_moves_back_witness:
  "let s = \<lparr>ss_workflowId = ''w'', ss_workflowName = ''w'', ss_lastEvaluatedFireTime = 5, ss_cronExpression = None,
            ss_lastMissed = Some (lost_fire 5\<lparr>mi_caughtUp := True\<rparr>)\<rparr>;
       late = (3, \<lparr>sa_lastMissed = Some (lost_fire 3), sa_cronExpression = None, sa_fired = False\<rparr>) in
   ss_lastEvaluatedFireTime (advance_all ''w'' ''w'' [late] s) = 5 \<and> caught_up_at 5 None (advance_all ''w'' ''w'' [late] s)"
proof -
  let ?s = "\<lparr>ss_workflowId = ''w'', ss_workflowName = ''w'', ss_lastEvaluatedFireTime = 5, ss_cronExpression = None,
            ss_lastMissed = Some (lost_fire 5\<lparr>mi_caughtUp := True\<rparr>)\<rparr>"
  let ?late = "(3, \<lparr>sa_lastMissed = Some (lost_fire 3), sa_cronExpression = None, sa_fired = False\<rparr>)"
  have "caught_up_at 5 None ?s" "list_all (write_up_to 5 None) [?late]"
    by (simp_all add: caught_up_at_def write_up_to_def lost_fire_def)
  then show ?thesis
    using schedule_state_never_moves_back [of "''w''" "''w''" "[?late]" ?s 5 None] by (simp add: Let_def)
qed

end
